(* ===== verification/Prelude.thy ===== *)
theory Prelude
  imports Main "HOL-Library.Word" "HOL-Library.Multiset" "HOL-Library.Monad_Syntax"
    "HOL-Library.AList"
begin

text \<open>
  What the components share: the machine integers of the sources and their saturating,
  wrapping and checked operations, \<open>Instant\<close> and \<open>Duration\<close> of the Rust standard library,
  the operations of \<open>Vec\<close>, \<open>VecDeque\<close> and \<open>HashMap\<close> the sources call, and the generic
  lemmas about lists, association lists and multisets that the component proofs use.

  A Rust function that can panic returns an \<open>option\<close> here: \<open>None\<close> is the panic, and the
  \<open>do\<close> notation of \<open>Monad_Syntax\<close> threads it. A Rust function that returns an
  \<open>Option\<close> and can panic therefore has a nested option.
\<close>

section \<open>Machine integers\<close>

named_theorems arith_width \<open>values of saturating and wrapping operations, read as naturals\<close>
named_theorems vec_simps \<open>operations of \<open>Vec\<close>, \<open>VecDeque\<close> and \<open>HashMap\<close>\<close>
named_theorems ops_simps \<open>selectors applied to the dictionaries of trait implementations\<close>

type_synonym u8 = "8 word"
type_synonym u32 = "32 word"
type_synonym u64 = "64 word"
type_synonym 'a outcome = "'a option"

definition u32_max :: nat where
  "u32_max = 2 ^ 32 - 1"

definition u64_max :: nat where
  "u64_max = 2 ^ 64 - 1"

definition i64_max :: int where
  "i64_max = 2 ^ 63 - 1"

definition i64_min :: int where
  "i64_min = - (2 ^ 63)"

definition i128_max :: int where
  "i128_max = 2 ^ 127 - 1"

definition i128_min :: int where
  "i128_min = - (2 ^ 127)"

definition saturating_add :: "'a::len word \<Rightarrow> 'a word \<Rightarrow> 'a word" where
  "saturating_add a b =
     (if unat a + unat b < 2 ^ LENGTH('a) then a + b else - 1)"

definition saturating_sub :: "'a::len word \<Rightarrow> 'a word \<Rightarrow> 'a word" where
  "saturating_sub a b = (if b \<le> a then a - b else 0)"

definition checked_add :: "'a::len word \<Rightarrow> 'a word \<Rightarrow> 'a word option" where
  "checked_add a b = (if unat a + unat b < 2 ^ LENGTH('a) then Some (a + b) else None)"

text \<open>\<open>u64::try_from(n).unwrap_or(u64::MAX)\<close> of a wider unsigned value.\<close>

definition clamp_u64 :: "nat \<Rightarrow> u64" where
  "clamp_u64 n = (if n \<le> u64_max then word_of_nat n else - 1)"

text \<open>The saturating operations of \<open>i128\<close>, whose values are integers in the type's range.\<close>

definition sat_i128 :: "int \<Rightarrow> int" where
  "sat_i128 n = max i128_min (min i128_max n)"

lemma unat_saturating_add [arith_width]:
  "unat (saturating_add a b :: 'a::len word) = min (unat a + unat b) (2 ^ LENGTH('a) - 1)"
  by (auto simp: saturating_add_def unat_word_ariths unsigned_minus_1_eq_mask mask_eq_exp_minus_1)

lemma unat_saturating_sub [arith_width]:
  "unat (saturating_sub a b :: 'a::len word) = unat a - unat b"
  by (auto simp: saturating_sub_def unat_sub word_le_nat_alt)

lemma unat_saturating_inc:
  fixes a :: u32
  assumes "unat a < u32_max"
  shows "unat (saturating_add a 1) = Suc (unat a)"
  using assms by (simp add: unat_saturating_add u32_max_def)

lemma unat_inc_u32:
  fixes a :: u32
  assumes "unat a < u32_max"
  shows "unat (a + 1) = Suc (unat a)"
  using assms by (simp add: unat_word_ariths u32_max_def)

lemma unat_dec_u32:
  fixes a :: u32
  shows "unat (saturating_sub a 1) = unat a - 1"
  by (simp add: unat_saturating_sub)

lemma checked_add_Some:
  "checked_add a b = Some c \<Longrightarrow> unat (c :: 'a::len word) = unat a + unat b"
  by (auto simp: checked_add_def unat_word_ariths split: if_splits)

lemma unat_clamp_u64 [arith_width]: "unat (clamp_u64 n) = min n u64_max"
  by (auto simp: clamp_u64_def u64_max_def unsigned_of_nat take_bit_nat_eq_self
      unsigned_minus_1_eq_mask mask_eq_exp_minus_1)

lemma u32_le_max: "unat (a :: u32) \<le> u32_max"
  using unsigned_less [of a, where 'a = nat] by (simp add: u32_max_def)

lemma u64_le_max: "unat (a :: u64) \<le> u64_max"
  using unsigned_less [of a, where 'a = nat] by (simp add: u64_max_def)

lemma sat_i128_id: "i128_min \<le> n \<Longrightarrow> n \<le> i128_max \<Longrightarrow> sat_i128 n = n"
  by (simp add: sat_i128_def)

lemma sat_i128_range: "i128_min \<le> sat_i128 n" "sat_i128 n \<le> i128_max"
  by (auto simp: sat_i128_def i128_min_def i128_max_def)

section \<open>Instants and durations\<close>

text \<open>
  An \<open>Instant\<close> is a number of nanoseconds since the origin of the clock, up to the
  largest value a signed 64-bit number of seconds and its nanoseconds give, and a
  \<open>Duration\<close> a number of nanoseconds. \<open>checked_add_instant\<close> is \<open>Instant::checked_add\<close>;
  it is also the operator \<open>+\<close> on instants, whose overflow panics.
\<close>

type_synonym instant = nat
type_synonym duration = nat

definition instant_max :: instant where
  "instant_max = 2 ^ 63 * 10 ^ 9 - 1"

definition checked_add_instant :: "instant \<Rightarrow> duration \<Rightarrow> instant option" where
  "checked_add_instant t d = (if t + d \<le> instant_max then Some (t + d) else None)"

text \<open>\<open>Instant::saturating_duration_since\<close>, which \<open>duration_since\<close> equals too.\<close>

definition duration_since :: "instant \<Rightarrow> instant \<Rightarrow> duration" where
  "duration_since later earlier = later - earlier"

definition from_secs :: "nat \<Rightarrow> duration" where
  "from_secs s = s * 10 ^ 9"

lemma checked_add_instant_Some:
  "checked_add_instant t d = Some u \<longleftrightarrow> u = t + d \<and> t + d \<le> instant_max"
  by (auto simp: checked_add_instant_def)

text \<open>The earlier of two optional deadlines, as the branches combine them.\<close>

fun min_deadline :: "instant option \<Rightarrow> instant option \<Rightarrow> instant option" where
  "min_deadline (Some a) (Some b) = Some (min a b)"
| "min_deadline None b = b"
| "min_deadline a None = a"

lemma min_deadline_None [simp]: "min_deadline a None = a"
  by (cases a) auto

lemma min_deadline_le:
  "min_deadline a b = Some t \<Longrightarrow> a = Some u \<Longrightarrow> t \<le> u"
  "min_deadline a b = Some t \<Longrightarrow> b = Some u \<Longrightarrow> t \<le> u"
  by (cases a; cases b; auto)+

lemma min_deadline_from:
  "min_deadline a b = Some t \<Longrightarrow> a = Some t \<or> b = Some t"
  by (cases a; cases b) (auto simp: min_def split: if_splits)

section \<open>Vectors\<close>

text \<open>\<open>Vec::get\<close>: \<open>None\<close> out of range.\<close>

definition vec_get :: "'a list \<Rightarrow> nat \<Rightarrow> 'a option" where
  "vec_get xs i = (if i < length xs then Some (xs ! i) else None)"

text \<open>\<open>Result::map_err\<close>, of a result that is a sum with the error on the left.\<close>

definition map_err :: "('e \<Rightarrow> 'f) \<Rightarrow> 'e + 't \<Rightarrow> 'f + 't" where
  "map_err f r = (case r of Inl e \<Rightarrow> Inl (f e) | Inr t \<Rightarrow> Inr t)"

lemma map_err_simps [simp]: "map_err f (Inl e) = Inl (f e)" "map_err f (Inr t) = Inr t"
  by (simp_all add: map_err_def)

text \<open>\<open>Iterator::find_map\<close>: the first value that the function gives.\<close>

fun find_map :: "('a \<Rightarrow> 'b option) \<Rightarrow> 'a list \<Rightarrow> 'b option" where
  "find_map f [] = None"
| "find_map f (x # xs) = (case f x of Some y \<Rightarrow> Some y | None \<Rightarrow> find_map f xs)"

text \<open>\<open>Vec::pop\<close>.\<close>

definition vec_pop :: "'a list \<Rightarrow> 'a option \<times> 'a list" where
  "vec_pop xs = (if xs = [] then (None, []) else (Some (last xs), butlast xs))"

text \<open>\<open>Vec::swap_remove\<close>: the last element takes the removed one's place; panics out of range.\<close>

definition swap_remove :: "'a list \<Rightarrow> nat \<Rightarrow> 'a list outcome" where
  "swap_remove xs i =
     (if i < length xs
      then Some (if i = length xs - 1 then butlast xs else (butlast xs)[i := last xs])
      else None)"

text \<open>\<open>iter().position\<close> and \<open>VecDeque::remove\<close> of that position.\<close>

fun position :: "('a \<Rightarrow> bool) \<Rightarrow> 'a list \<Rightarrow> nat option" where
  "position P [] = None"
| "position P (x # xs) = (if P x then Some 0 else map_option Suc (position P xs))"

definition remove_at :: "'a list \<Rightarrow> nat \<Rightarrow> 'a list" where
  "remove_at xs i = take i xs @ drop (Suc i) xs"

lemma vec_get_Some [vec_simps]: "vec_get xs i = Some x \<longleftrightarrow> i < length xs \<and> xs ! i = x"
  by (auto simp: vec_get_def)

lemma vec_get_None [vec_simps]: "vec_get xs i = None \<longleftrightarrow> length xs \<le> i"
  by (auto simp: vec_get_def)

lemma vec_pop_Some:
  "vec_pop xs = (Some x, ys) \<longleftrightarrow> xs = ys @ [x]"
  by (auto simp: vec_pop_def)

lemma vec_pop_None: "vec_pop xs = (None, ys) \<longleftrightarrow> xs = [] \<and> ys = []"
  by (auto simp: vec_pop_def)

lemma position_None: "position P xs = None \<longleftrightarrow> (\<forall>x \<in> set xs. \<not> P x)"
  by (induction xs) auto

lemma position_Some:
  "position P xs = Some i \<Longrightarrow> i < length xs \<and> P (xs ! i) \<and> (\<forall>j < i. \<not> P (xs ! j))"
proof (induction xs arbitrary: i)
  case Nil
  then show ?case by simp
next
  case (Cons x xs)
  show ?case
  proof (cases "P x")
    case True
    with Cons.prems show ?thesis by simp
  next
    case False
    with Cons.prems obtain k where k: "position P xs = Some k" "i = Suc k" by auto
    with Cons.IH [OF k(1)] False show ?thesis
      by (auto simp: less_Suc_eq_0_disj)
  qed
qed

lemma mset_remove_at: "i < length xs \<Longrightarrow> mset (remove_at xs i) = mset xs - {#xs ! i#}"
proof -
  assume "i < length xs"
  then have "xs = take i xs @ xs ! i # drop (Suc i) xs" by (rule id_take_nth_drop)
  then have "mset xs = mset (take i xs @ xs ! i # drop (Suc i) xs)" by simp
  then show ?thesis by (simp add: remove_at_def)
qed

lemma length_remove_at: "i < length xs \<Longrightarrow> length (remove_at xs i) = length xs - 1"
  by (simp add: remove_at_def)

lemma remove_at_position: "position (\<lambda>y. y = x) xs = Some i \<Longrightarrow> remove_at xs i = remove1 x xs"
proof (induction xs arbitrary: i)
  case Nil
  then show ?case by simp
next
  case (Cons y ys)
  then show ?case by (auto simp: remove_at_def split: if_splits)
qed

end
