(* ===== verification/Work.thy ===== *)
theory Work
  imports Prelude
begin

text \<open>
  The data that flows between the runtime and the scheduler nodes
  (\<open>dispatcher/src/work.rs\<close>, \<open>event.rs\<close> and the signal part of \<open>runtime.rs\<close>) and the
  \<open>Scheduler\<close> trait (\<open>dispatcher/src/scheduler.rs\<close>).

  A Rust trait is modelled by its dictionary: a record of the trait's methods over the
  implementing type \<open>'s\<close>. A generic node such as \<open>BoundedConcurrency<T, C: Scheduler<T>>\<close>
  is a record over the child's type, and its \<open>impl Scheduler\<close> a function from the child's
  dictionary to its own. \<open>Box<dyn Scheduler>\<close> children have one type \<open>'s\<close> and one dictionary.

  The locale \<open>scheduler\<close> is the contract of the trait: what each method keeps of a node's
  invariant, which knows the multiset of routing paths that are dispatched and not yet
  completed, and that a node has work to give exactly when it reports that it is ready.
\<close>

section \<open>Cost, readiness and routing\<close>

type_synonym cost_units = u64

record readiness =
  rd_ready :: bool
  rd_next_update_at :: "instant option"
  rd_next_cost :: "cost_units option"

definition readiness_ready :: "cost_units option \<Rightarrow> readiness" where
  "readiness_ready cost = \<lparr>rd_ready = True, rd_next_update_at = None, rd_next_cost = cost\<rparr>"

definition readiness_not_ready :: "instant option \<Rightarrow> readiness" where
  "readiness_not_ready at =
     \<lparr>rd_ready = False, rd_next_update_at = at, rd_next_cost = None\<rparr>"

type_synonym routing_path = "u32 list"

definition rp_empty :: routing_path where
  "rp_empty = []"

definition rp_push :: "u32 \<Rightarrow> routing_path \<Rightarrow> routing_path" where
  "rp_push child_idx path = path @ [child_idx]"

definition rp_pop :: "routing_path \<Rightarrow> u32 option \<times> routing_path" where
  "rp_pop path = vec_pop path"

definition rp_depth :: "routing_path \<Rightarrow> nat" where
  "rp_depth path = length path"

definition rp_is_empty :: "routing_path \<Rightarrow> bool" where
  "rp_is_empty path \<longleftrightarrow> path = []"

section \<open>Layered metadata\<close>

record 'm with_cost =
  wc_inner :: 'm
  wc_cost :: cost_units

record 'm with_priority =
  wp_inner :: 'm
  wp_priority :: u8

text \<open>
  The projection traits \<open>HasCost\<close> and \<open>HasPriority\<close> have one method each, so their
  dictionaries are the methods; a wrapper's instance may need the instance of the wrapped type.
\<close>

definition with_cost_has_cost :: "'m with_cost \<Rightarrow> cost_units" where
  "with_cost_has_cost m = wc_cost m"

definition with_cost_has_priority :: "('m \<Rightarrow> u8) \<Rightarrow> 'm with_cost \<Rightarrow> u8" where
  "with_cost_has_priority has_priority m = has_priority (wc_inner m)"

definition with_priority_has_priority :: "'m with_priority \<Rightarrow> u8" where
  "with_priority_has_priority m = wp_priority m"

definition with_priority_has_cost :: "('m \<Rightarrow> cost_units) \<Rightarrow> 'm with_priority \<Rightarrow> cost_units" where
  "with_priority_has_cost has_cost m = has_cost (wp_inner m)"

section \<open>Work and completions\<close>

record ('t, 'm) scheduled_work =
  sw_meta :: 'm
  sw_routing :: routing_path
  sw_payload :: 't

definition scheduled_work_new :: "'m \<Rightarrow> 't \<Rightarrow> ('t, 'm) scheduled_work" where
  "scheduled_work_new meta payload =
     \<lparr>sw_meta = meta, sw_routing = rp_empty, sw_payload = payload\<rparr>"

datatype completion_outcome = Succeeded | Failed

record 'm completion =
  cp_completed_at :: instant
  cp_outcome :: completion_outcome
  cp_latency :: duration
  cp_meta :: 'm
  cp_routing :: routing_path

section \<open>Queue events and the runtime's signals\<close>

type_synonym queue_id = u64

datatype queue_event = WakeUp | Drained queue_id

datatype runtime_event =
    GlobalThrottled
  | EventQueuePressure nat
  | WorkStarted
  | WorkCompleted
  | WorkFailed
  | SchedulerStatsSnapshot
  | QueueDrained queue_id

text \<open>
  A \<open>QueueEventSink\<close> is a capability of one runtime: what it does is decided by the runtime
  whose identity it carries. Pushing an event returns the event together with that identity,
  and the runtime handles the events that carry its own.
\<close>

record queue_event_sink =
  sink_identity :: nat

definition belongs_to_same_runtime :: "queue_event_sink \<Rightarrow> queue_event_sink \<Rightarrow> bool" where
  "belongs_to_same_runtime a b \<longleftrightarrow> sink_identity a = sink_identity b"

type_synonym emitted = "(queue_event_sink \<times> queue_event) list"

definition sink_push :: "queue_event_sink \<Rightarrow> queue_event \<Rightarrow> emitted" where
  "sink_push sink event = [(sink, event)]"

text \<open>
  \<open>RuntimeSignals\<close>, with the feature \<open>runtime-events\<close> on. A waker is a number, and
  \<open>sig_woken\<close> lists the wakers that were called, which is all a waker does.
\<close>

record runtime_signals =
  sig_waker :: "nat option"
  sig_events :: "runtime_event list"
  sig_next_queue_id :: u64
  sig_identity :: nat
  sig_woken :: "nat list"

definition signals_default :: "nat \<Rightarrow> runtime_signals" where
  "signals_default identity =
     \<lparr>sig_waker = None, sig_events = [], sig_next_queue_id = 0, sig_identity = identity,
      sig_woken = []\<rparr>"

definition signals_register_waker :: "runtime_signals \<Rightarrow> nat \<Rightarrow> runtime_signals" where
  "signals_register_waker sig waker =
     (if sig_waker sig = None \<or> sig_waker sig \<noteq> Some waker
      then sig\<lparr>sig_waker := Some waker\<rparr> else sig)"

definition signals_wake :: "runtime_signals \<Rightarrow> runtime_signals" where
  "signals_wake sig =
     (case sig_waker sig of
        None \<Rightarrow> sig
      | Some w \<Rightarrow> sig\<lparr>sig_waker := None, sig_woken := sig_woken sig @ [w]\<rparr>)"

definition signals_queue_event_sink :: "runtime_signals \<Rightarrow> queue_event_sink" where
  "signals_queue_event_sink sig = \<lparr>sink_identity = sig_identity sig\<rparr>"

definition signals_allocate_queue_id :: "runtime_signals \<Rightarrow> (queue_id \<times> runtime_signals) outcome" where
  "signals_allocate_queue_id sig = do {
     next \<leftarrow> checked_add (sig_next_queue_id sig) 1;
     Some (sig_next_queue_id sig, sig\<lparr>sig_next_queue_id := next\<rparr>)
   }"

definition signals_handle_queue_event :: "runtime_signals \<Rightarrow> queue_event \<Rightarrow> runtime_signals" where
  "signals_handle_queue_event sig event =
     signals_wake
       (case event of
          Drained queue_id \<Rightarrow> sig\<lparr>sig_events := sig_events sig @ [QueueDrained queue_id]\<rparr>
        | WakeUp \<Rightarrow> sig)"

definition signals_take_events :: "runtime_signals \<Rightarrow> runtime_event list \<times> runtime_signals" where
  "signals_take_events sig = (sig_events sig, sig\<lparr>sig_events := []\<rparr>)"

text \<open>The events a scheduler emitted, delivered to the runtime that owns the signals.\<close>

fun signals_deliver :: "runtime_signals \<Rightarrow> emitted \<Rightarrow> runtime_signals" where
  "signals_deliver sig [] = sig"
| "signals_deliver sig ((sink, event) # rest) =
     signals_deliver
       (if belongs_to_same_runtime sink (signals_queue_event_sink sig)
        then signals_handle_queue_event sig event else sig) rest"

section \<open>The \<open>Scheduler\<close> trait\<close>

text \<open>
  \<open>take_next\<close> and \<open>on_complete\<close> may panic. \<open>on_complete\<close> returns the queue events the
  subtree emits; \<open>register_queue_event_sink\<close> gets the signals its sink belongs to, from
  which queue leaves allocate their identities.
\<close>

record ('s, 't, 'm) scheduler_ops =
  sched_update_ready :: "'s \<Rightarrow> instant \<Rightarrow> readiness \<times> 's"
  sched_take_next :: "'s \<Rightarrow> (('t, 'm) scheduled_work option \<times> 's) outcome"
  sched_on_complete :: "'s \<Rightarrow> 'm completion \<Rightarrow> ('s \<times> emitted) outcome"
  sched_register :: "'s \<Rightarrow> runtime_signals \<Rightarrow> ('s \<times> runtime_signals) outcome"

text \<open>\<open>impl Scheduler for Box<S>\<close> forwards every method.\<close>

definition box_ops :: "('s, 't, 'm) scheduler_ops \<Rightarrow> ('s, 't, 'm) scheduler_ops" where
  "box_ops inner = \<lparr>
     sched_update_ready = (\<lambda>s now. sched_update_ready inner s now),
     sched_take_next = (\<lambda>s. sched_take_next inner s),
     sched_on_complete = (\<lambda>s completion. sched_on_complete inner s completion),
     sched_register = (\<lambda>s sink. sched_register inner s sink)\<rparr>"

section \<open>Lemmas\<close>

lemma rp_pop_push [simp]: "rp_pop (rp_push i path) = (Some i, path)"
  by (simp add: rp_pop_def rp_push_def vec_pop_def)

lemma rp_pop_empty [simp]: "rp_pop [] = (None, [])"
  by (simp add: rp_pop_def vec_pop_def)

lemma rp_push_eq_iff [simp]: "rp_push i p = rp_push j q \<longleftrightarrow> i = j \<and> p = q"
  by (auto simp: rp_push_def)

lemma inj_rp_push: "inj (rp_push i)"
  by (simp add: inj_on_def)

lemma readiness_ready_simps [simp]:
  "rd_ready (readiness_ready c)" "rd_next_update_at (readiness_ready c) = None"
  "rd_next_cost (readiness_ready c) = c"
  by (simp_all add: readiness_ready_def)

lemma readiness_not_ready_simps [simp]:
  "\<not> rd_ready (readiness_not_ready t)" "rd_next_update_at (readiness_not_ready t) = t"
  "rd_next_cost (readiness_not_ready t) = None"
  by (simp_all add: readiness_not_ready_def)

lemma signals_wake_identity [simp]: "sig_identity (signals_wake sig) = sig_identity sig"
  by (simp add: signals_wake_def split: option.split)

lemma signals_handle_identity [simp]:
  "sig_identity (signals_handle_queue_event sig e) = sig_identity sig"
  by (simp add: signals_handle_queue_event_def split: queue_event.split)

lemma signals_deliver_identity [simp]: "sig_identity (signals_deliver sig evs) = sig_identity sig"
  by (induction sig evs rule: signals_deliver.induct) auto

section \<open>The contract of a scheduler\<close>

text \<open>The paths outstanding after \<open>take_next\<close> returned \<open>w\<close>.\<close>

fun taken :: "('t, 'm) scheduled_work option \<Rightarrow> routing_path multiset \<Rightarrow> routing_path multiset" where
  "taken None paths = paths"
| "taken (Some w) paths = add_mset (sw_routing w) paths"

text \<open>
  The runs of a scheduler as its driver may interleave its methods: every dispatched path is
  completed at most once, and only a dispatched path is completed.
\<close>

inductive sched_run ::
  "('s, 't, 'm) scheduler_ops \<Rightarrow> instant \<Rightarrow> 's \<Rightarrow> 's \<Rightarrow> routing_path multiset \<Rightarrow> bool"
  for ops horizon s0 where
  run_start: "sched_run ops horizon s0 s0 {#}"
| run_ready: "sched_run ops horizon s0 s paths \<Longrightarrow> sched_update_ready ops s now = (r, s') \<Longrightarrow>
    sched_run ops horizon s0 s' paths"
| run_take: "sched_run ops horizon s0 s paths \<Longrightarrow> size paths < u32_max \<Longrightarrow>
    sched_take_next ops s = Some (w, s') \<Longrightarrow> sched_run ops horizon s0 s' (taken w paths)"
| run_complete: "sched_run ops horizon s0 s paths \<Longrightarrow> cp_routing c \<in># paths \<Longrightarrow>
    cp_completed_at c \<le> horizon \<Longrightarrow> sched_on_complete ops s c = Some (s', evs) \<Longrightarrow>
    sched_run ops horizon s0 s' (paths - {#cp_routing c#})"
| run_register: "sched_run ops horizon s0 s paths \<Longrightarrow>
    sched_register ops s sig = Some (s', sig') \<Longrightarrow> sched_run ops horizon s0 s' paths"

text \<open>
  \<open>invar s paths\<close> says that \<open>s\<close> is well formed while the work dispatched with the routing
  paths in the multiset \<open>paths\<close> is outstanding; fewer than \<open>u32_max\<close> of them keep the
  32-bit in-flight counters exact. \<open>horizon\<close> is the latest completion time for which no
  deadline computation overflows, and \<open>queues\<close> bounds the queue identities a registration
  allocates.
\<close>

locale scheduler =
  fixes ops :: "('s, 't, 'm) scheduler_ops"
    and invar :: "'s \<Rightarrow> routing_path multiset \<Rightarrow> bool"
    and horizon :: instant
    and queues :: "'s \<Rightarrow> nat"
  assumes update_ready_ok:
      "invar s paths \<Longrightarrow> sched_update_ready ops s now = (r, s') \<Longrightarrow> invar s' paths"
    and take_next_ok:
      "invar s paths \<Longrightarrow> size paths < u32_max \<Longrightarrow>
       \<exists>w s'. sched_take_next ops s = Some (w, s') \<and> invar s' (taken w paths)"
    and ready_iff_work:
      "invar s paths \<Longrightarrow> size paths < u32_max \<Longrightarrow>
       sched_update_ready ops s now = (r, s') \<Longrightarrow> sched_take_next ops s' = Some (w, s'') \<Longrightarrow>
       rd_ready r \<longleftrightarrow> w \<noteq> None"
    and on_complete_ok:
      "invar s paths \<Longrightarrow> cp_routing c \<in># paths \<Longrightarrow> cp_completed_at c \<le> horizon \<Longrightarrow>
       \<exists>s' evs. sched_on_complete ops s c = Some (s', evs) \<and> invar s' (paths - {#cp_routing c#})"
    and register_returns:
      "invar s paths \<Longrightarrow> unat (sig_next_queue_id sig) + queues s \<le> u64_max \<Longrightarrow>
       sched_register ops s sig \<noteq> None"
    and register_ok:
      "invar s paths \<Longrightarrow> sched_register ops s sig = Some (s', sig') \<Longrightarrow>
       invar s' paths \<and> sig_identity sig' = sig_identity sig \<and>
       unat (sig_next_queue_id sig') \<le> unat (sig_next_queue_id sig) + queues s"
begin

lemma run_invar:
  assumes "sched_run ops horizon s0 s paths" "invar s0 {#}"
  shows "invar s paths"
  using assms
proof (induction rule: sched_run.induct)
  case (run_take s paths w s')
  then show ?case by (auto dest: take_next_ok)
next
  case (run_complete s paths c s' evs)
  then show ?case using on_complete_ok by fastforce
qed (auto dest: update_ready_ok register_ok)

lemma take_next_obtain:
  assumes "invar s paths" "size paths < u32_max"
  obtains w s' where "sched_take_next ops s = Some (w, s')" "invar s' (taken w paths)"
  using take_next_ok [OF assms] by blast

lemma on_complete_obtain:
  assumes "invar s paths" "cp_routing c \<in># paths" "cp_completed_at c \<le> horizon"
  obtains s' evs where "sched_on_complete ops s c = Some (s', evs)"
    "invar s' (paths - {#cp_routing c#})"
  using on_complete_ok [OF assms] by blast

lemma take_next_invar:
  assumes "invar s paths" "size paths < u32_max" "sched_take_next ops s = Some (w, s')"
  shows "invar s' (taken w paths)"
  using take_next_ok [OF assms(1,2)] assms(3) by auto

lemma on_complete_invar:
  assumes "invar s paths" "cp_routing c \<in># paths" "cp_completed_at c \<le> horizon"
    "sched_on_complete ops s c = Some (s', evs)"
  shows "invar s' (paths - {#cp_routing c#})"
  using on_complete_ok [OF assms(1-3)] assms(4) by auto

lemma ready_takes:
  assumes "invar s paths" "size paths < u32_max" "sched_update_ready ops s now = (r, s')"
    "rd_ready r"
  obtains w s'' where "sched_take_next ops s' = Some (Some w, s'')"
    "invar s'' (add_mset (sw_routing w) paths)"
proof -
  have "invar s' paths" using update_ready_ok [OF assms(1,3)] .
  with assms(2) obtain w s''
    where t: "sched_take_next ops s' = Some (w, s'')" "invar s'' (taken w paths)"
    using take_next_ok by blast
  with ready_iff_work [OF assms(1-3) t(1)] assms(4) obtain x where "w = Some x" by auto
  with t show thesis by (auto intro: that)
qed

lemma not_ready_takes_nothing:
  assumes "invar s paths" "size paths < u32_max" "sched_update_ready ops s now = (r, s')"
    "\<not> rd_ready r"
  obtains s'' where "sched_take_next ops s' = Some (None, s'')" "invar s'' paths"
proof -
  have "invar s' paths" using update_ready_ok [OF assms(1,3)] .
  with assms(2) obtain w s''
    where t: "sched_take_next ops s' = Some (w, s'')" "invar s'' (taken w paths)"
    using take_next_ok by blast
  with ready_iff_work [OF assms(1-3) t(1)] assms(4) have "w = None" by auto
  with t show thesis by (auto intro: that)
qed

end

lemma box_ops_eq [simp]: "box_ops ops = ops"
  by (simp add: box_ops_def)

end
