(* ===== verification/Periodic_Leaf.thy ===== *)
theory Periodic_Leaf
  imports Work
begin

text \<open>
  \<open>PeriodicLeaf\<close> (\<open>dispatcher/src/schedulers/periodic_leaf.rs\<close>): a leaf that makes one payload
  per interval. The factory closure \<open>make: FnMut() -> T\<close> is a function on a captured
  state of type \<open>'f\<close>, a parameter of the model. The leaf meets the scheduler contract
  with any number of items outstanding, all of them with the empty path. Its ticks are
  at least one interval apart and never come before they are due.
\<close>

datatype due = Now | At instant | Never

record 'f periodic_leaf =
  pl_interval :: duration
  pl_next_due :: due
  pl_last_now :: instant
  pl_make :: 'f

definition periodic_leaf_new :: "instant \<Rightarrow> duration \<Rightarrow> 'f \<Rightarrow> 'f periodic_leaf" where
  "periodic_leaf_new now interval mk =
     \<lparr>pl_interval = interval, pl_next_due = Now, pl_last_now = now, pl_make = mk\<rparr>"

definition periodic_leaf_starting_at :: "instant \<Rightarrow> instant \<Rightarrow> duration \<Rightarrow> 'f \<Rightarrow> 'f periodic_leaf" where
  "periodic_leaf_starting_at now first_due interval mk =
     \<lparr>pl_interval = interval, pl_next_due = At first_due, pl_last_now = now, pl_make = mk\<rparr>"

definition pl_set_interval :: "'f periodic_leaf \<Rightarrow> duration \<Rightarrow> 'f periodic_leaf" where
  "pl_set_interval s interval = s\<lparr>pl_interval := interval\<rparr>"

definition pl_due :: "'f periodic_leaf \<Rightarrow> instant \<Rightarrow> bool" where
  "pl_due s now = (case pl_next_due s of Now \<Rightarrow> True | At d \<Rightarrow> d \<le> now | Never \<Rightarrow> False)"

definition pl_update_ready :: "'f periodic_leaf \<Rightarrow> instant \<Rightarrow> readiness \<times> 'f periodic_leaf" where
  "pl_update_ready s now =
     (let s' = s\<lparr>pl_last_now := now\<rparr> in
      if pl_due s' now then (readiness_ready None, s')
      else (readiness_not_ready
              (case pl_next_due s' of At d \<Rightarrow> Some d | Now \<Rightarrow> None | Never \<Rightarrow> None), s'))"

definition pl_take_next ::
  "('f \<Rightarrow> 't \<times> 'f) \<Rightarrow> 'f periodic_leaf \<Rightarrow>
   (('t, unit) scheduled_work option \<times> 'f periodic_leaf) outcome" where
  "pl_take_next call_make s =
     (if \<not> pl_due s (pl_last_now s) then Some (None, s)
      else let next_due = (case checked_add_instant (pl_last_now s) (pl_interval s) of
                             None \<Rightarrow> Never | Some t \<Rightarrow> At t);
               (payload, mk') = call_make (pl_make s)
           in Some (Some (scheduled_work_new () payload),
                    s\<lparr>pl_next_due := next_due, pl_make := mk'\<rparr>))"

definition pl_on_complete :: "'f periodic_leaf \<Rightarrow> unit completion \<Rightarrow> ('f periodic_leaf \<times> emitted) outcome" where
  "pl_on_complete s completion = Some (s, [])"

definition pl_register ::
  "'f periodic_leaf \<Rightarrow> runtime_signals \<Rightarrow> ('f periodic_leaf \<times> runtime_signals) outcome" where
  "pl_register s sig = Some (s, sig)"

definition periodic_leaf_ops ::
  "('f \<Rightarrow> 't \<times> 'f) \<Rightarrow> ('f periodic_leaf, 't, unit) scheduler_ops" where
  "periodic_leaf_ops call_make = \<lparr>
     sched_update_ready = pl_update_ready,
     sched_take_next = pl_take_next call_make,
     sched_on_complete = pl_on_complete,
     sched_register = pl_register\<rparr>"

section \<open>The contract\<close>

definition pl_invar :: "'f periodic_leaf \<Rightarrow> routing_path multiset \<Rightarrow> bool" where
  "pl_invar s paths \<longleftrightarrow> (\<forall>p \<in># paths. p = rp_empty)"

lemmas pl_defs = pl_update_ready_def pl_take_next_def pl_on_complete_def pl_register_def
  pl_invar_def Let_def

lemma pl_ops_simps [simp]:
  "sched_update_ready (periodic_leaf_ops f) = pl_update_ready"
  "sched_take_next (periodic_leaf_ops f) = pl_take_next f"
  "sched_on_complete (periodic_leaf_ops f) = pl_on_complete"
  "sched_register (periodic_leaf_ops f) = pl_register"
  by (simp_all add: periodic_leaf_ops_def)

lemma pl_take_next_iff_due:
  "pl_take_next f s = Some (w, s') \<Longrightarrow> w \<noteq> None \<longleftrightarrow> pl_due s (pl_last_now s)"
  by (auto simp: pl_take_next_def Let_def split: prod.splits if_splits)

lemma pl_take_next_total: "\<exists>w s'. pl_take_next f s = Some (w, s')"
  by (simp add: pl_take_next_def Let_def split: prod.split)

lemma pl_take_next_routing:
  "pl_take_next f s = Some (Some w, s') \<Longrightarrow> sw_routing w = rp_empty"
  by (auto simp: pl_take_next_def scheduled_work_new_def Let_def split: prod.splits if_splits)

lemma pl_due_update [simp]: "pl_due (s\<lparr>pl_last_now := t\<rparr>) now = pl_due s now"
  by (simp add: pl_due_def)

interpretation leaf: scheduler "periodic_leaf_ops call_make" pl_invar instant_max "\<lambda>_. 0"
proof
  fix s :: "'a periodic_leaf" and paths now r s'
  assume "pl_invar s paths" "sched_update_ready (periodic_leaf_ops call_make) s now = (r, s')"
  then show "pl_invar s' paths" by (simp add: pl_invar_def)
next
  fix s :: "'a periodic_leaf" and paths
  assume inv: "pl_invar s paths"
  obtain w s' where t: "pl_take_next call_make s = Some (w, s')"
    using pl_take_next_total by blast
  have "pl_invar s' (taken w paths)"
    using inv pl_take_next_routing [of call_make s] t by (cases w) (auto simp: pl_invar_def)
  with t show "\<exists>w s'. sched_take_next (periodic_leaf_ops call_make) s = Some (w, s') \<and>
      pl_invar s' (taken w paths)" by simp
next
  fix s :: "'a periodic_leaf" and paths now r s' s''
    and w :: "('b, unit) scheduled_work option"
  assume "sched_update_ready (periodic_leaf_ops call_make) s now = (r, s')"
    "sched_take_next (periodic_leaf_ops call_make) s' = Some (w, s'')"
  then show "rd_ready r \<longleftrightarrow> w \<noteq> None"
    by (auto simp: pl_update_ready_def Let_def split: if_splits dest!: pl_take_next_iff_due)
qed (auto simp: pl_defs dest: in_diffD)

section \<open>Properties\<close>

text \<open>
  The leaf driven as the runtime drives it: at each instant it is asked for its readiness
  and, if it is ready, for an item. The result lists the instants of the dispatches.
\<close>

fun pl_drive :: "('f \<Rightarrow> 't \<times> 'f) \<Rightarrow> 'f periodic_leaf \<Rightarrow> instant list \<Rightarrow> instant list" where
  "pl_drive f s [] = []"
| "pl_drive f s (now # nows) =
     (case pl_update_ready s now of
        (r, s') \<Rightarrow>
          if rd_ready r then
            (case pl_take_next f s' of
               Some (Some _, s'') \<Rightarrow> now # pl_drive f s'' nows
             | Some (None, s'') \<Rightarrow> pl_drive f s'' nows
             | None \<Rightarrow> [])
          else pl_drive f s' nows)"

lemma pl_take_next_step:
  assumes "pl_take_next f s = Some (Some w, s')"
  shows "pl_interval s' = pl_interval s"
    "pl_next_due s' = (case checked_add_instant (pl_last_now s) (pl_interval s) of
       None \<Rightarrow> Never | Some t \<Rightarrow> At t)"
  using assms by (auto simp: pl_take_next_def Let_def split: prod.splits if_splits)

lemma pl_take_next_idle:
  "pl_take_next f s = Some (None, s') \<Longrightarrow> s' = s"
  by (auto simp: pl_take_next_def Let_def split: prod.splits if_splits)

lemma pl_update_ready_frame:
  assumes "pl_update_ready s now = (r, s')"
  shows "s' = s\<lparr>pl_last_now := now\<rparr>" "rd_ready r \<longleftrightarrow> pl_due s now"
  using assms by (auto simp: pl_update_ready_def Let_def split: if_splits)

text \<open>Every dispatch of a driven leaf comes at or after its due time and an interval after the previous one.\<close>

lemma pl_drive_spaced:
  "(\<forall>t \<in> set (pl_drive f s nows). pl_due s t) \<and>
   sorted_wrt (\<lambda>a b. a + pl_interval s \<le> b) (pl_drive f s nows)"
proof (induction f s nows rule: pl_drive.induct)
  case (1 f s)
  then show ?case by simp
next
  case (2 f s now nows)
  obtain r s' where u: "pl_update_ready s now = (r, s')" by fastforce
  note s' = pl_update_ready_frame [OF u]
  show ?case
  proof (cases "rd_ready r")
    case False
    with 2(3) [OF u [symmetric] False] u s' show ?thesis by simp
  next
    case True
    obtain w s'' where t: "pl_take_next f s' = Some (w, s'')"
      using pl_take_next_total by blast
    with pl_take_next_iff_due [OF t] True s' obtain x where w: "w = Some x" by auto
    have step: "pl_interval s'' = pl_interval s"
      "pl_next_due s'' = (case checked_add_instant now (pl_interval s) of
         None \<Rightarrow> Never | Some t \<Rightarrow> At t)"
      using pl_take_next_step [OF t [unfolded w]] s' by simp_all
    have IH: "\<forall>t \<in> set (pl_drive f s'' nows). pl_due s'' t"
      "sorted_wrt (\<lambda>a b. a + pl_interval s'' \<le> b) (pl_drive f s'' nows)"
      using 2(2) [OF u [symmetric] True t] w by simp_all
    have late: "\<forall>t \<in> set (pl_drive f s'' nows). now + pl_interval s \<le> t"
      using IH(1) step(2)
      by (auto simp: pl_due_def checked_add_instant_def split: if_splits)
    have "pl_due s t" if "now \<le> t" for t
      using True s'(2) that by (auto simp: pl_due_def split: due.splits)
    with late IH(2) step(1) u True t w s'(2) show ?thesis by auto
  qed
qed

text \<open>
  The ticks of a periodic leaf keep the fixed delay: driven at any instants, two of its
  dispatches are at least one interval apart, so a leaf that a policy held back does not
  burst to catch up.
\<close>

theorem periodic_leaf_fixed_delay:
  "sorted_wrt (\<lambda>a b. a + pl_interval s \<le> b) (pl_drive f s nows)"
  using pl_drive_spaced [of f s nows] by simp

text \<open>
  The deadline a waiting leaf reports is exact: a leaf that is not ready becomes ready at
  the reported instant and not before, and one that reports none never becomes ready.
\<close>

theorem periodic_leaf_deadline_exact:
  assumes "pl_update_ready s now = (r, s')" and "\<not> rd_ready r"
  shows "rd_ready (fst (pl_update_ready s' t)) \<longleftrightarrow>
    (\<exists>d. rd_next_update_at r = Some d \<and> d \<le> t)"
  using assms
  by (auto simp: pl_update_ready_def pl_due_def Let_def split: due.splits if_splits)

theorem periodic_leaf_deadline_exact_witness:
  "rd_ready (fst (pl_update_ready ((periodic_leaf_starting_at 0 7 3 ())\<lparr>pl_last_now := 5\<rparr>) 7))"
proof -
  have "pl_update_ready (periodic_leaf_starting_at 0 7 3 ()) 5 =
      (readiness_not_ready (Some 7), (periodic_leaf_starting_at 0 7 3 ())\<lparr>pl_last_now := 5\<rparr>)"
    by (simp add: pl_update_ready_def pl_due_def periodic_leaf_starting_at_def)
  from periodic_leaf_deadline_exact [OF this, of 7] show ?thesis by simp
qed

end
