(* ===== verification/Bounded_Concurrency.thy ===== *)
theory Bounded_Concurrency
  imports Periodic_Leaf
begin

text \<open>
  \<open>BoundedConcurrency\<close> (\<open>dispatcher/src/schedulers/bounded_concurrency.rs\<close>): a node over one
  child that caps the items in flight. It meets the scheduler contract over any child that
  does, and no run of it has more items outstanding than its cap, whatever the child does.
\<close>

record 'c bounded_concurrency =
  bc_inner :: 'c
  bc_cap :: u32
  bc_in_flight :: u32

text \<open>\<open>NonZeroU32\<close> is a \<open>u32\<close> whose value is not zero; the hypothesis is stated where it is used.\<close>

definition bounded_concurrency_new :: "u32 \<Rightarrow> 'c \<Rightarrow> 'c bounded_concurrency" where
  "bounded_concurrency_new cap child = \<lparr>bc_inner = child, bc_cap = cap, bc_in_flight = 0\<rparr>"

definition bc_update_ready ::
  "('c, 't, 'm) scheduler_ops \<Rightarrow> 'c bounded_concurrency \<Rightarrow> instant \<Rightarrow>
   readiness \<times> 'c bounded_concurrency" where
  "bc_update_ready inner s now =
     (if bc_cap s \<le> bc_in_flight s then (readiness_not_ready None, s)
      else let (r, c) = sched_update_ready inner (bc_inner s) now in (r, s\<lparr>bc_inner := c\<rparr>))"

definition bc_take_next ::
  "('c, 't, 'm) scheduler_ops \<Rightarrow> 'c bounded_concurrency \<Rightarrow>
   (('t, 'm) scheduled_work option \<times> 'c bounded_concurrency) outcome" where
  "bc_take_next inner s =
     (if bc_cap s \<le> bc_in_flight s then Some (None, s)
      else do {
        (work, c) \<leftarrow> sched_take_next inner (bc_inner s);
        case work of
          None \<Rightarrow> Some (None, s\<lparr>bc_inner := c\<rparr>)
        | Some w \<Rightarrow> Some (Some w, s\<lparr>bc_inner := c,
                                    bc_in_flight := saturating_add (bc_in_flight s) 1\<rparr>)
      })"

definition bc_on_complete ::
  "('c, 't, 'm) scheduler_ops \<Rightarrow> 'c bounded_concurrency \<Rightarrow> 'm completion \<Rightarrow>
   ('c bounded_concurrency \<times> emitted) outcome" where
  "bc_on_complete inner s completion = do {
     let s = s\<lparr>bc_in_flight := saturating_sub (bc_in_flight s) 1\<rparr>;
     (c, evs) \<leftarrow> sched_on_complete inner (bc_inner s) completion;
     Some (s\<lparr>bc_inner := c\<rparr>, evs)
   }"

definition bc_register ::
  "('c, 't, 'm) scheduler_ops \<Rightarrow> 'c bounded_concurrency \<Rightarrow> runtime_signals \<Rightarrow>
   ('c bounded_concurrency \<times> runtime_signals) outcome" where
  "bc_register inner s sig = do {
     (c, sig') \<leftarrow> sched_register inner (bc_inner s) sig;
     Some (s\<lparr>bc_inner := c\<rparr>, sig')
   }"

definition bounded_concurrency_ops ::
  "('c, 't, 'm) scheduler_ops \<Rightarrow> ('c bounded_concurrency, 't, 'm) scheduler_ops" where
  "bounded_concurrency_ops inner = \<lparr>
     sched_update_ready = bc_update_ready inner,
     sched_take_next = bc_take_next inner,
     sched_on_complete = bc_on_complete inner,
     sched_register = bc_register inner\<rparr>"

section \<open>The contract\<close>

definition bc_counts :: "'c bounded_concurrency \<Rightarrow> routing_path multiset \<Rightarrow> bool" where
  "bc_counts s paths \<longleftrightarrow> unat (bc_in_flight s) = size paths \<and> bc_in_flight s \<le> bc_cap s"

definition bc_invar ::
  "('c \<Rightarrow> routing_path multiset \<Rightarrow> bool) \<Rightarrow> 'c bounded_concurrency \<Rightarrow>
   routing_path multiset \<Rightarrow> bool" where
  "bc_invar cinvar s paths \<longleftrightarrow> cinvar (bc_inner s) paths \<and> bc_counts s paths"

lemma bc_ops_simps [simp]:
  "sched_update_ready (bounded_concurrency_ops inner) = bc_update_ready inner"
  "sched_take_next (bounded_concurrency_ops inner) = bc_take_next inner"
  "sched_on_complete (bounded_concurrency_ops inner) = bc_on_complete inner"
  "sched_register (bounded_concurrency_ops inner) = bc_register inner"
  by (simp_all add: bounded_concurrency_ops_def)

lemma bc_update_ready_frame:
  "bc_update_ready inner s now = (r, s') \<Longrightarrow>
   bc_in_flight s' = bc_in_flight s \<and> bc_cap s' = bc_cap s"
  by (auto simp: bc_update_ready_def split: if_splits prod.splits)

lemma bc_take_next_counts:
  assumes "bc_take_next inner s = Some (w, s')" "bc_counts s paths" "size paths < u32_max"
  shows "bc_counts s' (taken w paths) \<and> bc_cap s' = bc_cap s"
  using assms unat_saturating_inc [of "bc_in_flight s"]
  by (cases w) (auto simp: bc_take_next_def bc_counts_def word_le_nat_alt
      split: if_splits option.splits Option.bind_splits)

lemma bc_on_complete_counts:
  assumes "bc_on_complete inner s c = Some (s', evs)" "bc_counts s paths" "cp_routing c \<in># paths"
  shows "bc_counts s' (paths - {#cp_routing c#}) \<and> bc_cap s' = bc_cap s"
  using assms
  by (auto simp: bc_on_complete_def bc_counts_def word_le_nat_alt unat_saturating_sub
      size_Diff_singleton split: Option.bind_splits)

lemma bc_register_frame:
  "bc_register inner s sig = Some (s', sig') \<Longrightarrow>
   bc_in_flight s' = bc_in_flight s \<and> bc_cap s' = bc_cap s"
  by (auto simp: bc_register_def split: Option.bind_splits)

locale bounded_concurrency_node =
  child: scheduler inner cinvar horizon cqueues
  for inner :: "('c, 't, 'm) scheduler_ops"
    and cinvar :: "'c \<Rightarrow> routing_path multiset \<Rightarrow> bool"
    and horizon :: instant
    and cqueues :: "'c \<Rightarrow> nat"
begin

lemma bc_take_next_ok:
  assumes "bc_invar cinvar s paths" "size paths < u32_max"
  shows "\<exists>w s'. bc_take_next inner s = Some (w, s') \<and> bc_invar cinvar s' (taken w paths)"
proof (cases "bc_cap s \<le> bc_in_flight s")
  case True
  with assms show ?thesis by (auto simp: bc_take_next_def)
next
  case False
  obtain w c where
    c: "sched_take_next inner (bc_inner s) = Some (w, c)" "cinvar c (taken w paths)"
    using assms child.take_next_obtain [of "bc_inner s" paths] by (auto simp: bc_invar_def)
  with False obtain s' where s': "bc_take_next inner s = Some (w, s')" "bc_inner s' = c"
    by (cases w) (auto simp: bc_take_next_def)
  with bc_take_next_counts [OF s'(1)] c assms show ?thesis
    by (auto simp: bc_invar_def)
qed

lemma bc_ready_iff_work:
  assumes "bc_invar cinvar s paths" "size paths < u32_max"
    "bc_update_ready inner s now = (r, s')" "bc_take_next inner s' = Some (w, s'')"
  shows "rd_ready r \<longleftrightarrow> w \<noteq> None"
proof (cases "bc_cap s \<le> bc_in_flight s")
  case True
  with assms show ?thesis by (auto simp: bc_update_ready_def bc_take_next_def)
next
  case False
  obtain c where c: "sched_update_ready inner (bc_inner s) now = (r, c)" "s' = s\<lparr>bc_inner := c\<rparr>"
    using False assms(3) by (auto simp: bc_update_ready_def split: prod.splits)
  with False assms(4) obtain c' where "sched_take_next inner c = Some (w, c')"
    by (auto simp: bc_take_next_def split: Option.bind_splits option.splits)
  with assms(1,2) c(1) show ?thesis
    by (auto simp: bc_invar_def dest: child.ready_iff_work)
qed

lemma bc_on_complete_ok:
  assumes "bc_invar cinvar s paths" "cp_routing c \<in># paths" "cp_completed_at c \<le> horizon"
  shows "\<exists>s' evs. bc_on_complete inner s c = Some (s', evs) \<and>
    bc_invar cinvar s' (paths - {#cp_routing c#})"
proof -
  obtain d evs where
    d: "sched_on_complete inner (bc_inner s) c = Some (d, evs)" "cinvar d (paths - {#cp_routing c#})"
    using assms child.on_complete_obtain [of "bc_inner s" paths c] by (auto simp: bc_invar_def)
  then obtain s' where s': "bc_on_complete inner s c = Some (s', evs)" "bc_inner s' = d"
    by (auto simp: bc_on_complete_def)
  with bc_on_complete_counts [OF s'(1)] d assms show ?thesis
    by (auto simp: bc_invar_def)
qed

end

sublocale bounded_concurrency_node \<subseteq>
  bc: scheduler "bounded_concurrency_ops inner" "bc_invar cinvar" horizon "\<lambda>s. cqueues (bc_inner s)"
proof
  fix s paths now r s'
  assume inv: "bc_invar cinvar s paths"
    and u: "sched_update_ready (bounded_concurrency_ops inner) s now = (r, s')"
  have "cinvar (bc_inner s') paths"
    using inv u
    by (auto simp: bc_invar_def bc_update_ready_def dest: child.update_ready_ok
        split: if_splits prod.splits)
  with inv bc_update_ready_frame [of inner s now r s'] u
  show "bc_invar cinvar s' paths" by (simp add: bc_invar_def bc_counts_def)
next
  fix s paths sig s' sig'
  assume inv: "bc_invar cinvar s paths"
    and g: "sched_register (bounded_concurrency_ops inner) s sig = Some (s', sig')"
  show "bc_invar cinvar s' paths \<and> sig_identity sig' = sig_identity sig \<and>
    unat (sig_next_queue_id sig') \<le> unat (sig_next_queue_id sig) + cqueues (bc_inner s)"
    using inv g
    by (auto simp: bc_invar_def bc_counts_def bc_register_def dest: child.register_ok
        split: Option.bind_splits)
next
  fix s paths and sig :: runtime_signals
  assume "bc_invar cinvar s paths" "unat (sig_next_queue_id sig) + cqueues (bc_inner s) \<le> u64_max"
  then show "sched_register (bounded_concurrency_ops inner) s sig \<noteq> None"
    using child.register_returns [of "bc_inner s" paths sig]
    by (auto simp: bc_invar_def bc_register_def)
qed (simp_all only: bc_ops_simps bc_take_next_ok bc_ready_iff_work bc_on_complete_ok)

text \<open>The cap of one over a periodic leaf, which serializes its ticks.\<close>

interpretation serial_leaf:
  bounded_concurrency_node "periodic_leaf_ops call_make" pl_invar instant_max "\<lambda>_. 0"
  ..

section \<open>Properties\<close>

lemma bc_run_counts:
  assumes "sched_run (bounded_concurrency_ops inner) horizon (bounded_concurrency_new cap child) s paths"
  shows "bc_counts s paths \<and> bc_cap s = cap"
  using assms
proof (induction rule: sched_run.induct)
  case run_start
  show ?case by (simp add: bc_counts_def bounded_concurrency_new_def)
next
  case (run_ready s paths now r s')
  then show ?case using bc_update_ready_frame [of inner s now r s'] by (auto simp: bc_counts_def)
next
  case (run_take s paths w s')
  then show ?case using bc_take_next_counts [of inner s w s' paths] by simp
next
  case (run_complete s paths c s' evs)
  then show ?case using bc_on_complete_counts [of inner s c s' evs paths] by simp
next
  case (run_register s paths sig s' sig')
  then show ?case using bc_register_frame [of inner s sig s' sig'] by (auto simp: bc_counts_def)
qed

text \<open>
  C26. The concurrency cap holds: in every run of a bounded-concurrency node, over any child
  scheduler, at most \<open>cap\<close> items are dispatched and not yet completed, and the node's
  counter is their exact number.
\<close>

theorem bounded_concurrency_cap:
  assumes "sched_run (bounded_concurrency_ops inner) horizon (bounded_concurrency_new cap child) s paths"
  shows "size paths \<le> unat cap \<and> unat (bc_in_flight s) = size paths"
  using bc_run_counts [OF assms] by (auto simp: bc_counts_def word_le_nat_alt)

theorem bounded_concurrency_cap_witness:
  "\<exists>s. sched_run (bounded_concurrency_ops (periodic_leaf_ops (\<lambda>n. (n, Suc n)))) instant_max
          (bounded_concurrency_new 1 (periodic_leaf_new 0 5 0)) s {#[]#} \<and>
       size {#[] :: routing_path#} \<le> unat (1 :: u32) \<and>
       unat (bc_in_flight s) = size {#[] :: routing_path#}"
proof -
  let ?ops = "bounded_concurrency_ops (periodic_leaf_ops (\<lambda>n :: nat. (n, Suc n)))"
  let ?s0 = "bounded_concurrency_new 1 (periodic_leaf_new 0 5 (0 :: nat))"
  obtain w s where t: "sched_take_next ?ops ?s0 = Some (Some w, s)" "sw_routing w = []"
    by (simp add: bc_take_next_def bounded_concurrency_new_def pl_take_next_def pl_due_def
        periodic_leaf_new_def scheduled_work_new_def rp_empty_def)
  have "sched_run ?ops instant_max ?s0 s {#[]#}"
    using sched_run.run_take [OF sched_run.run_start _ t(1), of instant_max] t(2)
    by (simp add: u32_max_def)
  with bounded_concurrency_cap [OF this] show ?thesis by blast
qed

end
