(* ===== verification/Fixed_Cost.thy ===== *)
theory Fixed_Cost
  imports Bounded_Concurrency
begin

text \<open>
  \<open>FixedCost\<close> (\<open>dispatcher/src/schedulers/fixed_cost.rs\<close>): stamps a cost on every item of its
  child, and removes its layer from the metadata of a completion before the child sees it.
\<close>

record 'c fixed_cost =
  fc_inner :: 'c
  fc_cost :: cost_units

definition fixed_cost_new :: "cost_units \<Rightarrow> 'c \<Rightarrow> 'c fixed_cost" where
  "fixed_cost_new cost child = \<lparr>fc_inner = child, fc_cost = cost\<rparr>"

definition fc_set_cost :: "'c fixed_cost \<Rightarrow> cost_units \<Rightarrow> 'c fixed_cost" where
  "fc_set_cost s cost = s\<lparr>fc_cost := cost\<rparr>"

definition fc_update_ready ::
  "('c, 't, 'm) scheduler_ops \<Rightarrow> 'c fixed_cost \<Rightarrow> instant \<Rightarrow> readiness \<times> 'c fixed_cost" where
  "fc_update_ready inner s now =
     (let (r, c) = sched_update_ready inner (fc_inner s) now in
      (r\<lparr>rd_next_cost := (if rd_ready r then Some (fc_cost s) else None)\<rparr>, s\<lparr>fc_inner := c\<rparr>))"

definition fc_take_next ::
  "('c, 't, 'm) scheduler_ops \<Rightarrow> 'c fixed_cost \<Rightarrow>
   (('t, 'm with_cost) scheduled_work option \<times> 'c fixed_cost) outcome" where
  "fc_take_next inner s = do {
     (work, c) \<leftarrow> sched_take_next inner (fc_inner s);
     case work of
       None \<Rightarrow> Some (None, s\<lparr>fc_inner := c\<rparr>)
     | Some w \<Rightarrow>
         Some (Some \<lparr>sw_meta = \<lparr>wc_inner = sw_meta w, wc_cost = fc_cost s\<rparr>,
                     sw_routing = sw_routing w, sw_payload = sw_payload w\<rparr>,
               s\<lparr>fc_inner := c\<rparr>)
   }"

definition fc_on_complete ::
  "('c, 't, 'm) scheduler_ops \<Rightarrow> 'c fixed_cost \<Rightarrow> 'm with_cost completion \<Rightarrow>
   ('c fixed_cost \<times> emitted) outcome" where
  "fc_on_complete inner s completion = do {
     (c, evs) \<leftarrow> sched_on_complete inner (fc_inner s)
       \<lparr>cp_completed_at = cp_completed_at completion, cp_outcome = cp_outcome completion,
        cp_latency = cp_latency completion, cp_meta = wc_inner (cp_meta completion),
        cp_routing = cp_routing completion\<rparr>;
     Some (s\<lparr>fc_inner := c\<rparr>, evs)
   }"

definition fc_register ::
  "('c, 't, 'm) scheduler_ops \<Rightarrow> 'c fixed_cost \<Rightarrow> runtime_signals \<Rightarrow>
   ('c fixed_cost \<times> runtime_signals) outcome" where
  "fc_register inner s sig = do {
     (c, sig') \<leftarrow> sched_register inner (fc_inner s) sig;
     Some (s\<lparr>fc_inner := c\<rparr>, sig')
   }"

definition fixed_cost_ops ::
  "('c, 't, 'm) scheduler_ops \<Rightarrow> ('c fixed_cost, 't, 'm with_cost) scheduler_ops" where
  "fixed_cost_ops inner = \<lparr>
     sched_update_ready = fc_update_ready inner,
     sched_take_next = fc_take_next inner,
     sched_on_complete = fc_on_complete inner,
     sched_register = fc_register inner\<rparr>"

section \<open>The contract\<close>

definition fc_invar ::
  "('c \<Rightarrow> routing_path multiset \<Rightarrow> bool) \<Rightarrow> 'c fixed_cost \<Rightarrow> routing_path multiset \<Rightarrow> bool" where
  "fc_invar cinvar s paths \<longleftrightarrow> cinvar (fc_inner s) paths"

lemma fc_ops_simps [simp]:
  "sched_update_ready (fixed_cost_ops inner) = fc_update_ready inner"
  "sched_take_next (fixed_cost_ops inner) = fc_take_next inner"
  "sched_on_complete (fixed_cost_ops inner) = fc_on_complete inner"
  "sched_register (fixed_cost_ops inner) = fc_register inner"
  by (simp_all add: fixed_cost_ops_def)

locale fixed_cost_node =
  child: scheduler inner cinvar horizon cqueues
  for inner :: "('c, 't, 'm) scheduler_ops"
    and cinvar :: "'c \<Rightarrow> routing_path multiset \<Rightarrow> bool"
    and horizon :: instant
    and cqueues :: "'c \<Rightarrow> nat"
begin

lemma fc_take_next_ok:
  assumes "fc_invar cinvar s paths" "size paths < u32_max"
  shows "\<exists>w s'. fc_take_next inner s = Some (w, s') \<and> fc_invar cinvar s' (taken w paths)"
proof -
  obtain w c where
    "sched_take_next inner (fc_inner s) = Some (w, c)" "cinvar c (taken w paths)"
    using assms child.take_next_obtain [of "fc_inner s" paths] by (auto simp: fc_invar_def)
  then show ?thesis by (cases w) (auto simp: fc_take_next_def fc_invar_def)
qed

lemma fc_ready_iff_work:
  assumes "fc_invar cinvar s paths" "size paths < u32_max"
    "fc_update_ready inner s now = (r, s')" "fc_take_next inner s' = Some (w, s'')"
  shows "rd_ready r \<longleftrightarrow> w \<noteq> None"
proof -
  obtain q c where c: "sched_update_ready inner (fc_inner s) now = (q, c)"
      "rd_ready r = rd_ready q" "fc_inner s' = c"
    using assms(3) by (auto simp: fc_update_ready_def split: prod.splits)
  with assms(4) obtain v c' where "sched_take_next inner c = Some (v, c')" "v \<noteq> None \<longleftrightarrow> w \<noteq> None"
    by (auto simp: fc_take_next_def split: Option.bind_splits option.splits)
  with assms(1,2) c show ?thesis
    by (auto simp: fc_invar_def dest: child.ready_iff_work)
qed

lemma fc_on_complete_ok:
  assumes "fc_invar cinvar s paths" "cp_routing c \<in># paths" "cp_completed_at c \<le> horizon"
  shows "\<exists>s' evs. fc_on_complete inner s c = Some (s', evs) \<and>
    fc_invar cinvar s' (paths - {#cp_routing c#})"
proof -
  let ?c = "\<lparr>cp_completed_at = cp_completed_at c, cp_outcome = cp_outcome c,
    cp_latency = cp_latency c, cp_meta = wc_inner (cp_meta c), cp_routing = cp_routing c\<rparr>"
  obtain d evs where
    "sched_on_complete inner (fc_inner s) ?c = Some (d, evs)" "cinvar d (paths - {#cp_routing c#})"
    using assms child.on_complete_obtain [of "fc_inner s" paths ?c] by (auto simp: fc_invar_def)
  then show ?thesis by (auto simp: fc_invar_def fc_on_complete_def)
qed

end

sublocale fixed_cost_node \<subseteq>
  fc: scheduler "fixed_cost_ops inner" "fc_invar cinvar" horizon "\<lambda>s. cqueues (fc_inner s)"
proof
  fix s paths now r s'
  assume "fc_invar cinvar s paths" "sched_update_ready (fixed_cost_ops inner) s now = (r, s')"
  then show "fc_invar cinvar s' paths"
    by (auto simp: fc_invar_def fc_update_ready_def dest: child.update_ready_ok split: prod.splits)
next
  fix s paths sig s' sig'
  assume "fc_invar cinvar s paths" "sched_register (fixed_cost_ops inner) s sig = Some (s', sig')"
  then show "fc_invar cinvar s' paths \<and> sig_identity sig' = sig_identity sig \<and>
    unat (sig_next_queue_id sig') \<le> unat (sig_next_queue_id sig) + cqueues (fc_inner s)"
    by (auto simp: fc_invar_def fc_register_def dest: child.register_ok split: Option.bind_splits)
next
  fix s paths and sig :: runtime_signals
  assume "fc_invar cinvar s paths" "unat (sig_next_queue_id sig) + cqueues (fc_inner s) \<le> u64_max"
  then show "sched_register (fixed_cost_ops inner) s sig \<noteq> None"
    using child.register_returns [of "fc_inner s" paths sig]
    by (auto simp: fc_invar_def fc_register_def)
qed (simp_all only: fc_ops_simps fc_take_next_ok fc_ready_iff_work fc_on_complete_ok)

interpretation costed_leaf: fixed_cost_node "periodic_leaf_ops call_make" pl_invar instant_max "\<lambda>_. 0"
  ..

text \<open>Every item a fixed-cost node gives carries the cost its readiness announced.\<close>

lemma fixed_cost_hint_is_charged:
  assumes "fc_update_ready inner s now = (r, s')" "fc_take_next inner s' = Some (Some w, s'')"
    "rd_ready r"
  shows "rd_next_cost r = Some (with_cost_has_cost (sw_meta w))"
  using assms
  by (auto simp: fc_update_ready_def fc_take_next_def with_cost_has_cost_def
      split: prod.splits Option.bind_splits option.splits)

end
