(* ===== verification/Circuit_Breaker.thy ===== *)
theory Circuit_Breaker
  imports Fixed_Cost Complex_Main
begin

text \<open>
  \<open>CircuitBreaker\<close> (\<open>dispatcher/src/schedulers/circuit_breaker.rs\<close>): opens when the failure
  fraction of its sample window reaches a threshold, and admits one probe after the cool-down.

  The failure fraction is an \<open>f32\<close>. Its conversion and division are modelled exactly on the
  rationals for the magnitudes that occur here (zero, and normal numbers from \<open>2 ^ -32\<close> to
  \<open>2 ^ 32\<close>): the value rounded to 24 significant bits, to nearest with ties to even, and NaN
  for \<open>0 / 0\<close>. \<open>self.in_flight += 1\<close> panics on overflow, as in a build with overflow checks.
\<close>

section \<open>Single-precision numbers\<close>

datatype f32 = F32 rat | F32_Inf | F32_Neg_Inf | F32_NaN

fun bit_len :: "nat \<Rightarrow> nat" where
  "bit_len n = (if n = 0 then 0 else Suc (bit_len (n div 2)))"

declare bit_len.simps [simp del]

definition pow2 :: "int \<Rightarrow> rat" where
  "pow2 k = (if 0 \<le> k then 2 ^ nat k else 1 / 2 ^ nat (- k))"

definition round_half_even :: "rat \<Rightarrow> int" where
  "round_half_even x =
     (let f = \<lfloor>x\<rfloor>; r = x - of_int f in
      if r < 1 / 2 then f else if 1 / 2 < r then f + 1 else if even f then f else f + 1)"

text \<open>The exponent of \<open>n / d\<close>: the greatest \<open>e\<close> with \<open>2 ^ e \<le> n / d\<close>.\<close>

definition ratio_exponent :: "nat \<Rightarrow> nat \<Rightarrow> int" where
  "ratio_exponent n d =
     (let b = int (bit_len n) - int (bit_len d) in
      if pow2 b \<le> of_nat n / of_nat d then b else b - 1)"

definition round_f32 :: "nat \<Rightarrow> nat \<Rightarrow> rat" where
  "round_f32 n d =
     (if n = 0 then 0
      else let u = pow2 (ratio_exponent n d - 23)
           in of_int (round_half_even (of_nat n / of_nat d / u)) * u)"

text \<open>\<open>x as f32\<close> of a \<open>u32\<close>: a number with at most 24 significant bits, so a natural again.\<close>

definition u32_as_f32 :: "nat \<Rightarrow> nat" where
  "u32_as_f32 n = nat \<lfloor>round_f32 n 1\<rfloor>"

definition f32_div :: "nat \<Rightarrow> nat \<Rightarrow> f32" where
  "f32_div a b =
     (if b = 0 then (if a = 0 then F32_NaN else F32_Inf) else F32 (round_f32 a b))"

fun f32_ge :: "f32 \<Rightarrow> f32 \<Rightarrow> bool" where
  "f32_ge F32_NaN b = False"
| "f32_ge a F32_NaN = False"
| "f32_ge F32_Inf b = True"
| "f32_ge a F32_Inf = False"
| "f32_ge a F32_Neg_Inf = True"
| "f32_ge F32_Neg_Inf b = False"
| "f32_ge (F32 x) (F32 y) = (y \<le> x)"

section \<open>The node\<close>

record circuit_breaker_config =
  cbc_failure_threshold :: f32
  cbc_sample_window :: u32
  cbc_min_samples :: u32
  cbc_cool_down :: duration

definition circuit_breaker_config_default :: circuit_breaker_config where
  "circuit_breaker_config_default =
     \<lparr>cbc_failure_threshold = F32 (1 / 2), cbc_sample_window = 32, cbc_min_samples = 5,
      cbc_cool_down = from_secs 10\<rparr>"

datatype breaker_state = Closed | Open instant | HalfOpen bool

record 'c circuit_breaker =
  cb_inner :: 'c
  cb_state :: breaker_state
  cb_cfg :: circuit_breaker_config
  cb_samples :: "completion_outcome list"
  cb_in_flight :: u32

definition circuit_breaker_new :: "circuit_breaker_config \<Rightarrow> 'c \<Rightarrow> 'c circuit_breaker" where
  "circuit_breaker_new cfg child =
     \<lparr>cb_inner = child, cb_state = Closed, cb_cfg = cfg, cb_samples = [], cb_in_flight = 0\<rparr>"

definition cb_record_outcome :: "'c circuit_breaker \<Rightarrow> completion_outcome \<Rightarrow> 'c circuit_breaker" where
  "cb_record_outcome s outcome =
     (let cap = unat (cbc_sample_window (cb_cfg s)) in
      if cap = 0 then s
      else let samples = (if cap \<le> length (cb_samples s) then tl (cb_samples s) else cb_samples s)
           in s\<lparr>cb_samples := samples @ [outcome]\<rparr>)"

definition cb_failure_rate :: "'c circuit_breaker \<Rightarrow> f32 option" where
  "cb_failure_rate s =
     (let total = min (length (cb_samples s)) u32_max in
      if total < unat (cbc_min_samples (cb_cfg s)) then None
      else let failures = min (length (filter (\<lambda>o'. o' = Failed) (cb_samples s))) u32_max
           in Some (f32_div (u32_as_f32 failures) (u32_as_f32 total)))"

definition cb_open :: "'c circuit_breaker \<Rightarrow> instant \<Rightarrow> 'c circuit_breaker outcome" where
  "cb_open s completed_at = do {
     until \<leftarrow> checked_add_instant completed_at (cbc_cool_down (cb_cfg s));
     Some (s\<lparr>cb_state := Open until, cb_samples := []\<rparr>)
   }"

definition cb_maybe_trip :: "'c circuit_breaker \<Rightarrow> instant \<Rightarrow> 'c circuit_breaker outcome" where
  "cb_maybe_trip s completed_at =
     (case cb_failure_rate s of
        Some rate \<Rightarrow>
          if f32_ge rate (cbc_failure_threshold (cb_cfg s)) then cb_open s completed_at else Some s
      | None \<Rightarrow> Some s)"

definition cb_update_ready ::
  "('c, 't, 'm) scheduler_ops \<Rightarrow> 'c circuit_breaker \<Rightarrow> instant \<Rightarrow> readiness \<times> 'c circuit_breaker" where
  "cb_update_ready inner s now =
     (let ask = (\<lambda>s. let (r, c) = sched_update_ready inner (cb_inner s) now in (r, s\<lparr>cb_inner := c\<rparr>));
          half_open = (\<lambda>s probing.
            if probing \<or> 0 < cb_in_flight s then (readiness_not_ready None, s) else ask s)
      in case cb_state s of
           Open until \<Rightarrow>
             if until \<le> now then half_open (s\<lparr>cb_state := HalfOpen False\<rparr>) False
             else (readiness_not_ready (Some until), s)
         | Closed \<Rightarrow> ask s
         | HalfOpen probing \<Rightarrow> half_open s probing)"

text \<open>
  The tail of \<open>take_next\<close>: pull an item from the child, enter \<open>state\<close> if there is one, and
  count it.
\<close>

definition cb_dispatch ::
  "('c, 't, 'm) scheduler_ops \<Rightarrow> 'c circuit_breaker \<Rightarrow> breaker_state \<Rightarrow>
   (('t, 'm) scheduled_work option \<times> 'c circuit_breaker) outcome" where
  "cb_dispatch inner s state = do {
     (work, c) \<leftarrow> sched_take_next inner (cb_inner s);
     case work of
       None \<Rightarrow> Some (None, s\<lparr>cb_inner := c\<rparr>)
     | Some w \<Rightarrow> do {
         n \<leftarrow> checked_add (cb_in_flight s) 1;
         Some (Some w, s\<lparr>cb_inner := c, cb_state := state, cb_in_flight := n\<rparr>)
       }
   }"

definition cb_take_next ::
  "('c, 't, 'm) scheduler_ops \<Rightarrow> 'c circuit_breaker \<Rightarrow>
   (('t, 'm) scheduled_work option \<times> 'c circuit_breaker) outcome" where
  "cb_take_next inner s =
     (case cb_state s of
        Open _ \<Rightarrow> Some (None, s)
      | Closed \<Rightarrow> cb_dispatch inner s Closed
      | HalfOpen probing \<Rightarrow>
          if probing \<or> 0 < cb_in_flight s then Some (None, s)
          else cb_dispatch inner s (HalfOpen True))"

definition cb_on_complete ::
  "('c, 't, 'm) scheduler_ops \<Rightarrow> 'c circuit_breaker \<Rightarrow> 'm completion \<Rightarrow>
   ('c circuit_breaker \<times> emitted) outcome" where
  "cb_on_complete inner s completion = do {
     let s = s\<lparr>cb_in_flight := saturating_sub (cb_in_flight s) 1\<rparr>;
     s \<leftarrow> (case cb_state s of
             Closed \<Rightarrow> cb_maybe_trip (cb_record_outcome s (cp_outcome completion))
                         (cp_completed_at completion)
           | HalfOpen probing \<Rightarrow>
               if probing then
                 (case cp_outcome completion of
                    Succeeded \<Rightarrow> Some (s\<lparr>cb_samples := [], cb_state := Closed\<rparr>)
                  | Failed \<Rightarrow> cb_open s (cp_completed_at completion))
               else Some s
           | Open _ \<Rightarrow> Some s);
     (c, evs) \<leftarrow> sched_on_complete inner (cb_inner s) completion;
     Some (s\<lparr>cb_inner := c\<rparr>, evs)
   }"

definition cb_register ::
  "('c, 't, 'm) scheduler_ops \<Rightarrow> 'c circuit_breaker \<Rightarrow> runtime_signals \<Rightarrow>
   ('c circuit_breaker \<times> runtime_signals) outcome" where
  "cb_register inner s sig = do {
     (c, sig') \<leftarrow> sched_register inner (cb_inner s) sig;
     Some (s\<lparr>cb_inner := c\<rparr>, sig')
   }"

definition circuit_breaker_ops ::
  "('c, 't, 'm) scheduler_ops \<Rightarrow> ('c circuit_breaker, 't, 'm) scheduler_ops" where
  "circuit_breaker_ops inner = \<lparr>
     sched_update_ready = cb_update_ready inner,
     sched_take_next = cb_take_next inner,
     sched_on_complete = cb_on_complete inner,
     sched_register = cb_register inner\<rparr>"

section \<open>The contract\<close>

text \<open>
  The part of the invariant that does not mention the child: the counter is the number of
  outstanding items, a probe is outstanding alone, and the window is bounded.
\<close>

definition cb_counts :: "duration \<Rightarrow> 'c circuit_breaker \<Rightarrow> routing_path multiset \<Rightarrow> bool" where
  "cb_counts cool s paths \<longleftrightarrow>
     unat (cb_in_flight s) = size paths \<and>
     (cb_state s = HalfOpen True \<longrightarrow> size paths = 1) \<and>
     length (cb_samples s) \<le> unat (cbc_sample_window (cb_cfg s)) \<and>
     cbc_cool_down (cb_cfg s) = cool"

definition cb_invar ::
  "duration \<Rightarrow> ('c \<Rightarrow> routing_path multiset \<Rightarrow> bool) \<Rightarrow> 'c circuit_breaker \<Rightarrow>
   routing_path multiset \<Rightarrow> bool" where
  "cb_invar cool cinvar s paths \<longleftrightarrow> cinvar (cb_inner s) paths \<and> cb_counts cool s paths"

lemma cb_ops_simps [simp]:
  "sched_update_ready (circuit_breaker_ops inner) = cb_update_ready inner"
  "sched_take_next (circuit_breaker_ops inner) = cb_take_next inner"
  "sched_on_complete (circuit_breaker_ops inner) = cb_on_complete inner"
  "sched_register (circuit_breaker_ops inner) = cb_register inner"
  by (simp_all add: circuit_breaker_ops_def)

lemma cb_record_outcome_frame [simp]:
  "cb_inner (cb_record_outcome s o') = cb_inner s"
  "cb_state (cb_record_outcome s o') = cb_state s"
  "cb_cfg (cb_record_outcome s o') = cb_cfg s"
  "cb_in_flight (cb_record_outcome s o') = cb_in_flight s"
  by (simp_all add: cb_record_outcome_def Let_def)

lemma cb_record_outcome_window:
  "length (cb_samples s) \<le> unat (cbc_sample_window (cb_cfg s)) \<Longrightarrow>
   length (cb_samples (cb_record_outcome s o')) \<le> unat (cbc_sample_window (cb_cfg s))"
  by (auto simp: cb_record_outcome_def Let_def)

lemma cb_open_Some:
  "cb_open s t = Some s' \<longleftrightarrow>
   t + cbc_cool_down (cb_cfg s) \<le> instant_max \<and>
   s' = s\<lparr>cb_state := Open (t + cbc_cool_down (cb_cfg s)), cb_samples := []\<rparr>"
  by (auto simp: cb_open_def checked_add_instant_def)

lemma cb_maybe_trip_cases:
  assumes "cb_maybe_trip s t = Some s'"
  obtains "s' = s"
  | "t + cbc_cool_down (cb_cfg s) \<le> instant_max"
    "s' = s\<lparr>cb_state := Open (t + cbc_cool_down (cb_cfg s)), cb_samples := []\<rparr>"
proof -
  have "s' = s \<or> cb_open s t = Some s'"
    using assms by (auto simp: cb_maybe_trip_def split: option.splits if_splits)
  with that cb_open_Some [of s t s'] show thesis by blast
qed

lemma cb_maybe_trip_returns:
  "t + cbc_cool_down (cb_cfg s) \<le> instant_max \<Longrightarrow> \<exists>s'. cb_maybe_trip s t = Some s'"
  by (auto simp: cb_maybe_trip_def cb_open_Some split: option.splits)

text \<open>The counters under each method, over any child.\<close>

lemma cb_update_ready_counts:
  assumes "cb_update_ready inner s now = (r, s')" "cb_counts cool s paths"
  shows "cb_counts cool s' paths"
  using assms
  by (auto simp: cb_update_ready_def cb_counts_def Let_def
      split: breaker_state.splits if_splits prod.splits)

lemma cb_dispatch_cases:
  assumes "cb_dispatch inner s state = Some (w, s')"
  obtains (idle) c where "w = None" "s' = s\<lparr>cb_inner := c\<rparr>"
  | (dispatched) x c n where "w = Some x" "checked_add (cb_in_flight s) 1 = Some n"
      "s' = s\<lparr>cb_inner := c, cb_state := state, cb_in_flight := n\<rparr>"
proof -
  obtain v c where v: "sched_take_next inner (cb_inner s) = Some (v, c)"
    using assms by (auto simp: cb_dispatch_def split: Option.bind_splits)
  show thesis
  proof (cases v)
    case None
    with v assms show thesis by (intro idle [of c]) (simp_all add: cb_dispatch_def)
  next
    case (Some x)
    with v assms obtain n where n: "checked_add (cb_in_flight s) 1 = Some n"
      by (auto simp: cb_dispatch_def split: Option.bind_splits)
    with Some v assms show thesis
      by (intro dispatched [of x n c]) (simp_all add: cb_dispatch_def)
  qed
qed

lemma cb_take_next_cases:
  assumes "cb_take_next inner s = Some (w, s')"
  obtains (idle) c where "w = None" "s' = s\<lparr>cb_inner := c\<rparr>"
  | (closed) x c n where "w = Some x" "checked_add (cb_in_flight s) 1 = Some n"
      "cb_state s = Closed" "s' = s\<lparr>cb_inner := c, cb_state := Closed, cb_in_flight := n\<rparr>"
  | (probe) x c n where "w = Some x" "checked_add (cb_in_flight s) 1 = Some n"
      "cb_state s = HalfOpen False" "cb_in_flight s = 0"
      "s' = s\<lparr>cb_inner := c, cb_state := HalfOpen True, cb_in_flight := n\<rparr>"
proof (cases "cb_state s")
  case (Open u)
  with assms show ?thesis by (intro idle [of "cb_inner s"]) (simp_all add: cb_take_next_def)
next
  case Closed
  with assms have "cb_dispatch inner s Closed = Some (w, s')" by (simp add: cb_take_next_def)
  then show ?thesis by (cases rule: cb_dispatch_cases) (fact idle, fact closed [OF _ _ Closed])
next
  case (HalfOpen p)
  show ?thesis
  proof (cases "p \<or> 0 < cb_in_flight s")
    case True
    with HalfOpen assms show ?thesis
      by (intro idle [of "cb_inner s"]) (auto simp: cb_take_next_def)
  next
    case False
    then have z: "cb_in_flight s = 0" and p: "cb_state s = HalfOpen False"
      using HalfOpen by (simp_all add: word_gt_0)
    with assms have "cb_dispatch inner s (HalfOpen True) = Some (w, s')"
      by (simp add: cb_take_next_def)
    then show ?thesis by (cases rule: cb_dispatch_cases) (fact idle, fact probe [OF _ _ p z])
  qed
qed

lemma cb_take_next_counts:
  assumes "cb_take_next inner s = Some (w, s')" "cb_counts cool s paths"
  shows "cb_counts cool s' (taken w paths)"
  using assms(1)
proof (cases rule: cb_take_next_cases)
  case (idle c)
  with assms(2) show ?thesis by (simp add: cb_counts_def)
next
  case (closed x c n)
  with assms(2) checked_add_Some [OF closed(2)] show ?thesis by (simp add: cb_counts_def)
next
  case (probe x c n)
  with assms(2) checked_add_Some [OF probe(2)] show ?thesis by (simp add: cb_counts_def)
qed

text \<open>The state update of a completion, before the child sees it.\<close>

definition cb_verdict :: "'c circuit_breaker \<Rightarrow> 'm completion \<Rightarrow> 'c circuit_breaker outcome" where
  "cb_verdict s completion =
     (case cb_state s of
        Closed \<Rightarrow> cb_maybe_trip (cb_record_outcome s (cp_outcome completion))
                    (cp_completed_at completion)
      | HalfOpen probing \<Rightarrow>
          if probing then
            (case cp_outcome completion of
               Succeeded \<Rightarrow> Some (s\<lparr>cb_samples := [], cb_state := Closed\<rparr>)
             | Failed \<Rightarrow> cb_open s (cp_completed_at completion))
          else Some s
      | Open _ \<Rightarrow> Some s)"

lemma cb_on_complete_eq:
  "cb_on_complete inner s completion = do {
     s \<leftarrow> cb_verdict (s\<lparr>cb_in_flight := saturating_sub (cb_in_flight s) 1\<rparr>) completion;
     (c, evs) \<leftarrow> sched_on_complete inner (cb_inner s) completion;
     Some (s\<lparr>cb_inner := c\<rparr>, evs)
   }"
  by (simp add: cb_on_complete_def cb_verdict_def Let_def)

lemma cb_verdict_frame:
  assumes "cb_verdict s c = Some s'"
  shows "cb_inner s' = cb_inner s" "cb_in_flight s' = cb_in_flight s" "cb_cfg s' = cb_cfg s"
  using assms
  by (auto simp: cb_verdict_def cb_open_Some split: breaker_state.splits if_splits
      completion_outcome.splits elim!: cb_maybe_trip_cases)

lemma cb_verdict_state:
  assumes "cb_verdict s c = Some s'"
  shows "cb_state s' \<noteq> HalfOpen True"
    "length (cb_samples s) \<le> unat (cbc_sample_window (cb_cfg s)) \<Longrightarrow>
     length (cb_samples s') \<le> unat (cbc_sample_window (cb_cfg s))"
  using assms
  by (auto simp: cb_verdict_def cb_open_Some cb_record_outcome_window
      split: breaker_state.splits if_splits completion_outcome.splits elim!: cb_maybe_trip_cases)

lemma cb_verdict_returns:
  "cp_completed_at c + cbc_cool_down (cb_cfg s) \<le> instant_max \<Longrightarrow> \<exists>s'. cb_verdict s c = Some s'"
  by (auto simp: cb_verdict_def cb_open_Some intro: cb_maybe_trip_returns
      split: breaker_state.split completion_outcome.split)

lemma cb_on_complete_counts:
  assumes "cb_on_complete inner s c = Some (s', evs)" "cb_counts cool s paths"
    "cp_routing c \<in># paths"
  shows "cb_counts cool s' (paths - {#cp_routing c#})"
proof -
  let ?s = "s\<lparr>cb_in_flight := saturating_sub (cb_in_flight s) 1\<rparr>"
  obtain v d where v: "cb_verdict ?s c = Some v" "s' = v\<lparr>cb_inner := d\<rparr>"
    using assms(1) by (auto simp: cb_on_complete_eq split: Option.bind_splits)
  show ?thesis
    using cb_verdict_frame [OF v(1)] cb_verdict_state [OF v(1)] v(2) assms(2,3)
    by (auto simp: cb_counts_def unat_saturating_sub size_Diff_singleton)
qed

lemma cb_register_frame:
  "cb_register inner s sig = Some (s', sig') \<Longrightarrow> \<exists>c. s' = s\<lparr>cb_inner := c\<rparr>"
  by (auto simp: cb_register_def split: Option.bind_splits)

locale circuit_breaker_node =
  child: scheduler inner cinvar horizon cqueues
  for inner :: "('c, 't, 'm) scheduler_ops"
    and cinvar :: "'c \<Rightarrow> routing_path multiset \<Rightarrow> bool"
    and horizon :: instant
    and cqueues :: "'c \<Rightarrow> nat" +
  fixes cool :: duration
  assumes cool_in_range: "cool \<le> instant_max"
begin

lemma cb_take_next_ok:
  assumes "cb_invar cool cinvar s paths" "size paths < u32_max"
  shows "\<exists>w s'. cb_take_next inner s = Some (w, s') \<and> cb_invar cool cinvar s' (taken w paths)"
proof -
  obtain w c where c: "sched_take_next inner (cb_inner s) = Some (w, c)" "cinvar c (taken w paths)"
    using assms child.take_next_obtain [of "cb_inner s" paths] by (auto simp: cb_invar_def)
  have "checked_add (cb_in_flight s) 1 \<noteq> None"
    using assms by (simp add: checked_add_def cb_invar_def cb_counts_def u32_max_def)
  then have "\<exists>w s'. cb_dispatch inner s state = Some (w, s') \<and> cinvar (cb_inner s') (taken w paths)"
    for state using c by (cases w) (auto simp: cb_dispatch_def)
  with assms have "\<exists>w s'. cb_take_next inner s = Some (w, s') \<and> cinvar (cb_inner s') (taken w paths)"
    by (auto simp: cb_take_next_def cb_invar_def split: breaker_state.split)
  with cb_take_next_counts [of inner s] assms show ?thesis
    by (fastforce simp: cb_invar_def)
qed

lemma cb_ready_iff_work:
  assumes inv: "cb_invar cool cinvar s paths" "size paths < u32_max"
    and u: "cb_update_ready inner s now = (r, s')"
    and t: "cb_take_next inner s' = Some (w, s'')"
  shows "rd_ready r \<longleftrightarrow> w \<noteq> None"
proof -
  obtain q c where c: "sched_update_ready inner (cb_inner s) now = (q, c)" by fastforce
  have child: "rd_ready q \<longleftrightarrow> v \<noteq> None" if "sched_take_next inner c = Some (v, d)" for v d
    using child.ready_iff_work [OF _ inv(2) c that] inv(1) by (simp add: cb_invar_def)
  show ?thesis
    using u t c child
    by (auto simp: cb_update_ready_def cb_take_next_def cb_dispatch_def Let_def
        split: breaker_state.splits if_splits option.splits Option.bind_splits)
qed

lemma cb_on_complete_ok:
  assumes "cb_invar cool cinvar s paths" "cp_routing c \<in># paths"
    "cp_completed_at c \<le> min horizon (instant_max - cool)"
  shows "\<exists>s' evs. cb_on_complete inner s c = Some (s', evs) \<and>
    cb_invar cool cinvar s' (paths - {#cp_routing c#})"
proof -
  let ?s = "s\<lparr>cb_in_flight := saturating_sub (cb_in_flight s) 1\<rparr>"
  have "cp_completed_at c + cbc_cool_down (cb_cfg ?s) \<le> instant_max"
    using assms(1,3) cool_in_range by (auto simp: cb_invar_def cb_counts_def)
  from cb_verdict_returns [OF this] obtain v where v: "cb_verdict ?s c = Some v" by blast
  obtain d evs where
    d: "sched_on_complete inner (cb_inner s) c = Some (d, evs)" "cinvar d (paths - {#cp_routing c#})"
    using assms child.on_complete_obtain [of "cb_inner s" paths c] by (auto simp: cb_invar_def)
  with v have "cb_on_complete inner s c = Some (v\<lparr>cb_inner := d\<rparr>, evs)"
    using cb_verdict_frame [OF v] by (simp add: cb_on_complete_eq)
  with cb_on_complete_counts [OF this] d assms(1,2) show ?thesis by (simp add: cb_invar_def)
qed

end

sublocale circuit_breaker_node \<subseteq>
  cb: scheduler "circuit_breaker_ops inner" "cb_invar cool cinvar" "min horizon (instant_max - cool)"
    "\<lambda>s. cqueues (cb_inner s)"
proof
  fix s paths now r s'
  assume inv: "cb_invar cool cinvar s paths"
    and u: "sched_update_ready (circuit_breaker_ops inner) s now = (r, s')"
  have "cinvar (cb_inner s') paths"
    using inv u
    by (auto simp: cb_invar_def cb_update_ready_def Let_def dest: child.update_ready_ok
        split: breaker_state.splits if_splits prod.splits)
  with inv u cb_update_ready_counts [of inner s now r s' cool paths]
  show "cb_invar cool cinvar s' paths" by (simp add: cb_invar_def)
next
  fix s paths sig s' sig'
  assume "cb_invar cool cinvar s paths" "sched_register (circuit_breaker_ops inner) s sig = Some (s', sig')"
  then show "cb_invar cool cinvar s' paths \<and> sig_identity sig' = sig_identity sig \<and>
    unat (sig_next_queue_id sig') \<le> unat (sig_next_queue_id sig) + cqueues (cb_inner s)"
    by (auto simp: cb_invar_def cb_counts_def cb_register_def dest: child.register_ok
        split: Option.bind_splits)
next
  fix s paths and sig :: runtime_signals
  assume "cb_invar cool cinvar s paths" "unat (sig_next_queue_id sig) + cqueues (cb_inner s) \<le> u64_max"
  then show "sched_register (circuit_breaker_ops inner) s sig \<noteq> None"
    using child.register_returns [of "cb_inner s" paths sig]
    by (auto simp: cb_invar_def cb_register_def)
qed (simp_all only: cb_ops_simps cb_take_next_ok cb_ready_iff_work cb_on_complete_ok)

interpretation breaker_leaf:
  circuit_breaker_node "periodic_leaf_ops call_make" pl_invar instant_max "\<lambda>_. 0" "from_secs 10"
  by unfold_locales (simp add: from_secs_def instant_max_def)

section \<open>The breaker as a state machine\<close>

text \<open>
  What the module's documentation promises, as a machine over the states alone: a step is a
  readiness pass, a dispatch or a completion, and \<open>cool\<close> is the cool-down.
\<close>

datatype breaker_event = Ready instant | Dispatch | Complete completion_outcome instant

inductive breaker_step :: "duration \<Rightarrow> breaker_state \<Rightarrow> breaker_event \<Rightarrow> breaker_state \<Rightarrow> bool"
  for cool where
  trip: "breaker_step cool Closed (Complete o' t) (Open (t + cool))"
| stay_closed: "breaker_step cool Closed e Closed"
| cool_down: "u \<le> now \<Longrightarrow> breaker_step cool (Open u) (Ready now) (HalfOpen False)"
| stay_open: "now < u \<Longrightarrow> breaker_step cool (Open u) (Ready now) (Open u)"
| late_completion: "breaker_step cool (Open u) (Complete o' t) (Open u)"
| probe: "breaker_step cool (HalfOpen False) Dispatch (HalfOpen True)"
| await_probe: "breaker_step cool (HalfOpen p) (Ready now) (HalfOpen p)"
| drain: "breaker_step cool (HalfOpen False) (Complete o' t) (HalfOpen False)"
| recover: "breaker_step cool (HalfOpen True) (Complete Succeeded t) Closed"
| relapse: "breaker_step cool (HalfOpen True) (Complete Failed t) (Open (t + cool))"

inductive_simps breaker_step_Open: "breaker_step cool (Open u) e st"

fun breaker_trace :: "duration \<Rightarrow> breaker_state \<Rightarrow> breaker_event list \<Rightarrow> breaker_state \<Rightarrow> bool" where
  "breaker_trace cool st [] st' = (st' = st)"
| "breaker_trace cool st (e # es) st' =
     (\<exists>mid. breaker_step cool st e mid \<and> breaker_trace cool mid es st')"

text \<open>The executions of the node over its child, with the events they show.\<close>

inductive cb_exec ::
  "('c, 't, 'm) scheduler_ops \<Rightarrow> 'c circuit_breaker \<Rightarrow> breaker_event list \<Rightarrow> 'c circuit_breaker \<Rightarrow> bool"
  for inner where
  exec_nil: "cb_exec inner s [] s"
| exec_ready: "cb_update_ready inner s now = (r, s') \<Longrightarrow> cb_exec inner s' es s'' \<Longrightarrow>
    cb_exec inner s (Ready now # es) s''"
| exec_dispatch: "cb_take_next inner s = Some (Some w, s') \<Longrightarrow> cb_exec inner s' es s'' \<Longrightarrow>
    cb_exec inner s (Dispatch # es) s''"
| exec_idle: "cb_take_next inner s = Some (None, s') \<Longrightarrow> cb_exec inner s' es s'' \<Longrightarrow>
    cb_exec inner s es s''"
| exec_complete: "cb_on_complete inner s c = Some (s', evs) \<Longrightarrow> cb_exec inner s' es s'' \<Longrightarrow>
    cb_exec inner s (Complete (cp_outcome c) (cp_completed_at c) # es) s''"
| exec_register: "cb_register inner s sig = Some (s', sig') \<Longrightarrow> cb_exec inner s' es s'' \<Longrightarrow>
    cb_exec inner s es s''"

lemma cb_update_ready_sim:
  assumes "cb_update_ready inner s now = (r, s')"
  shows "breaker_step cool (cb_state s) (Ready now) (cb_state s') \<and> cb_cfg s' = cb_cfg s"
  using assms
  by (auto simp: cb_update_ready_def Let_def intro: breaker_step.intros
      split: breaker_state.splits if_splits prod.splits)

lemma cb_dispatch_sim:
  assumes "cb_take_next inner s = Some (Some w, s')"
  shows "breaker_step cool (cb_state s) Dispatch (cb_state s') \<and> cb_cfg s' = cb_cfg s"
  using assms by (cases rule: cb_take_next_cases) (auto intro: breaker_step.intros)

lemma cb_idle_sim:
  "cb_take_next inner s = Some (None, s') \<Longrightarrow> cb_state s' = cb_state s \<and> cb_cfg s' = cb_cfg s"
  by (erule cb_take_next_cases) auto

lemma cb_verdict_sim:
  assumes "cb_verdict s c = Some s'"
  shows "breaker_step (cbc_cool_down (cb_cfg s)) (cb_state s)
    (Complete (cp_outcome c) (cp_completed_at c)) (cb_state s')"
  using assms
  by (auto simp: cb_verdict_def cb_open_Some intro: breaker_step.intros
      split: breaker_state.splits if_splits completion_outcome.splits elim!: cb_maybe_trip_cases)

lemma cb_complete_sim:
  assumes "cb_on_complete inner s c = Some (s', evs)"
  shows "breaker_step (cbc_cool_down (cb_cfg s)) (cb_state s)
      (Complete (cp_outcome c) (cp_completed_at c)) (cb_state s') \<and> cb_cfg s' = cb_cfg s"
proof -
  obtain v d where v: "cb_verdict (s\<lparr>cb_in_flight := saturating_sub (cb_in_flight s) 1\<rparr>) c = Some v"
      "s' = v\<lparr>cb_inner := d\<rparr>"
    using assms by (auto simp: cb_on_complete_eq split: Option.bind_splits)
  from cb_verdict_sim [OF v(1)] cb_verdict_frame [OF v(1)] v(2) show ?thesis by simp
qed

lemma cb_exec_trace:
  assumes "cb_exec inner s es s'"
  shows "breaker_trace (cbc_cool_down (cb_cfg s)) (cb_state s) es (cb_state s')"
  using assms
proof (induction rule: cb_exec.induct)
  case (exec_ready s now r s' es s'')
  then show ?case using cb_update_ready_sim [OF exec_ready(1)] by auto
next
  case (exec_dispatch s w s' es s'')
  then show ?case using cb_dispatch_sim [OF exec_dispatch(1)] by auto
next
  case (exec_idle s s' es s'')
  then show ?case using cb_idle_sim [OF exec_idle(1)] by simp
next
  case (exec_complete s c s' evs es s'')
  then show ?case using cb_complete_sim [OF exec_complete(1)] by auto
next
  case (exec_register s sig s' sig' es s'')
  then show ?case using cb_register_frame [OF exec_register(1)] by auto
qed simp

lemma breaker_open_until:
  assumes "breaker_trace cool (Open u) es st" "Dispatch \<in> set es"
  shows "\<exists>now. u \<le> now \<and> Ready now \<in> set (takeWhile (\<lambda>e. e \<noteq> Dispatch) es)"
  using assms
proof (induction es)
  case (Cons e es)
  from Cons.prems(1) obtain mid where
    m: "breaker_step cool (Open u) e mid" "breaker_trace cool mid es st" by auto
  from m(1) have "(\<exists>now. e = Ready now \<and> u \<le> now) \<or> (mid = Open u \<and> e \<noteq> Dispatch)"
    by (auto simp: breaker_step_Open)
  then show ?case
  proof
    assume "\<exists>now. e = Ready now \<and> u \<le> now"
    then show ?thesis by auto
  next
    assume "mid = Open u \<and> e \<noteq> Dispatch"
    with Cons m(2) show ?thesis by auto
  qed
qed simp

section \<open>Properties\<close>


text \<open>A breaker over a periodic leaf, open until 5, is asked at 7 and dispatches its probe.\<close>

definition cb_example :: "nat periodic_leaf circuit_breaker" where
  "cb_example = (circuit_breaker_new circuit_breaker_config_default (periodic_leaf_new 0 3 0))
     \<lparr>cb_state := Open 5\<rparr>"

lemma cb_example_exec:
  "\<exists>s. cb_exec (periodic_leaf_ops (\<lambda>n. (n, Suc n))) cb_example [Ready 7, Dispatch] s \<and>
       cb_state s = HalfOpen True"
proof -
  let ?ops = "periodic_leaf_ops (\<lambda>n :: nat. (n, Suc n))"
  obtain r s1 where u: "cb_update_ready ?ops cb_example 7 = (r, s1)" by fastforce
  then have s1: "cb_state s1 = HalfOpen False" "cb_in_flight s1 = 0" "pl_next_due (cb_inner s1) = Now"
    by (auto simp: cb_update_ready_def cb_example_def circuit_breaker_new_def pl_update_ready_def
        periodic_leaf_new_def pl_due_def)
  then obtain w s2 where t: "cb_take_next ?ops s1 = Some (Some w, s2)" "cb_state s2 = HalfOpen True"
    by (auto simp: cb_take_next_def cb_dispatch_def pl_take_next_def pl_due_def checked_add_def)
  from exec_ready [OF u exec_dispatch [OF t(1) exec_nil]] t(2) show ?thesis by blast
qed


text \<open>
  An open breaker keeps its cool-down: an execution that starts with the breaker open until
  \<open>u\<close> dispatches nothing before a readiness pass at or after \<open>u\<close>.
\<close>

theorem circuit_breaker_cool_down:
  assumes "cb_exec inner s es s'" and "cb_state s = Open u" and "Dispatch \<in> set es"
  shows "\<exists>now. u \<le> now \<and> Ready now \<in> set (takeWhile (\<lambda>e. e \<noteq> Dispatch) es)"
  using breaker_open_until [of _ u es] cb_exec_trace [OF assms(1)] assms(2,3) by metis

theorem circuit_breaker_cool_down_witness:
  "\<exists>now. 5 \<le> now \<and> Ready now \<in> set (takeWhile (\<lambda>e. e \<noteq> Dispatch) [Ready 7, Dispatch])"
proof -
  obtain s where s: "cb_exec (periodic_leaf_ops (\<lambda>n. (n, Suc n))) cb_example [Ready 7, Dispatch] s"
    using cb_example_exec by blast
  show ?thesis
    by (rule circuit_breaker_cool_down [OF s]) (simp_all add: cb_example_def)
qed

text \<open>
  The recovery probe runs alone: in every run of a breaker, over any child, a probing
  breaker has exactly one item outstanding, so the next
  completion is the probe's verdict; the sample window never exceeds its configured size.
\<close>

theorem circuit_breaker_probe_alone:
  assumes "sched_run (circuit_breaker_ops inner) horizon (circuit_breaker_new cfg child) s paths"
  shows "(cb_state s = HalfOpen True \<longrightarrow> size paths = 1) \<and>
    unat (cb_in_flight s) = size paths \<and> length (cb_samples s) \<le> unat (cbc_sample_window cfg)"
proof -
  have "cb_counts (cbc_cool_down cfg) s paths \<and> cb_cfg s = cfg"
    using assms
  proof (induction rule: sched_run.induct)
    case run_start
    show ?case by (simp add: cb_counts_def circuit_breaker_new_def)
  next
    case (run_ready s paths now r s')
    then show ?case using cb_update_ready_counts [of inner s now r s']
        cb_update_ready_sim [of inner s now r s'] by simp
  next
    case (run_take s paths w s')
    then have "cb_cfg s' = cb_cfg s"
      by (cases w) (auto dest: cb_dispatch_sim cb_idle_sim)
    with run_take cb_take_next_counts [of inner s w s' _ paths] show ?case by simp
  next
    case (run_complete s paths c s' evs)
    then show ?case using cb_on_complete_counts [of inner s c s' evs _ paths]
        cb_complete_sim [of inner s c s' evs] by simp
  next
    case (run_register s paths sig s' sig')
    then show ?case using cb_register_frame [of inner s sig s' sig']
      by (auto simp: cb_counts_def)
  qed
  then show ?thesis by (auto simp: cb_counts_def)
qed

theorem circuit_breaker_probe_alone_witness:
  "\<exists>s. sched_run (circuit_breaker_ops (periodic_leaf_ops (\<lambda>n. (n, Suc n)))) instant_max
         (circuit_breaker_new circuit_breaker_config_default (periodic_leaf_new 0 3 0)) s {#[]#} \<and>
       unat (cb_in_flight s) = 1"
proof -
  let ?ops = "circuit_breaker_ops (periodic_leaf_ops (\<lambda>n :: nat. (n, Suc n)))"
  let ?s0 = "circuit_breaker_new circuit_breaker_config_default (periodic_leaf_new 0 3 (0 :: nat))"
  obtain w s where t: "sched_take_next ?ops ?s0 = Some (Some w, s)" "sw_routing w = []"
    by (simp add: cb_take_next_def cb_dispatch_def circuit_breaker_new_def pl_take_next_def
        pl_due_def periodic_leaf_new_def scheduled_work_new_def rp_empty_def checked_add_def)
  have "sched_run ?ops instant_max ?s0 s {#[]#}"
    using sched_run.run_take [OF sched_run.run_start _ t(1), of instant_max] t(2)
    by (simp add: u32_max_def)
  with circuit_breaker_probe_alone [OF this] show ?thesis by auto
qed

end
