(* ===== verification/Token_Bucket.thy ===== *)
theory Token_Bucket
  imports Circuit_Breaker
begin

text \<open>
  \<open>TokenBucket\<close> (\<open>dispatcher/src/schedulers/token_bucket.rs\<close>): a rate limit by cost over one
  child. The balance is an \<open>i128\<close> scaled by the refill interval in nanoseconds, with the
  saturating operations written out. The projection \<open>C::Meta: HasCost\<close> is the parameter
  \<open>has_cost\<close>.
\<close>

record token_bucket_config =
  tbc_capacity :: cost_units
  tbc_refill_amount :: cost_units
  tbc_refill_interval :: duration

definition token_bucket_config_default :: token_bucket_config where
  "token_bucket_config_default =
     \<lparr>tbc_capacity = 16, tbc_refill_amount = 1, tbc_refill_interval = from_secs 1\<rparr>"

record 'c token_bucket =
  tb_inner :: 'c
  tb_cfg :: token_bucket_config
  tb_interval_nanos :: u64
  tb_scaled_capacity :: int
  tb_scaled_balance :: int
  tb_last_refill :: instant
  tb_last_now :: instant
  tb_admission_cost :: cost_units

definition tb_recache :: "'c token_bucket \<Rightarrow> 'c token_bucket" where
  "tb_recache s =
     (let nanos = clamp_u64 (tbc_refill_interval (tb_cfg s)) in
      s\<lparr>tb_interval_nanos := nanos,
        tb_scaled_capacity := sat_i128 (uint (tbc_capacity (tb_cfg s)) * uint nanos)\<rparr>)"

definition token_bucket_new :: "instant \<Rightarrow> token_bucket_config \<Rightarrow> 'c \<Rightarrow> 'c token_bucket" where
  "token_bucket_new now cfg child =
     (let bucket = tb_recache
        \<lparr>tb_inner = child, tb_cfg = cfg, tb_interval_nanos = 0, tb_scaled_capacity = 0,
         tb_scaled_balance = 0, tb_last_refill = now, tb_last_now = now, tb_admission_cost = 1\<rparr>
      in bucket\<lparr>tb_scaled_balance := tb_scaled_capacity bucket\<rparr>)"

definition cost_to_i64 :: "cost_units \<Rightarrow> int" where
  "cost_to_i64 cost = min (uint cost) i64_max"

definition tokens_to_i64 :: "int \<Rightarrow> int" where
  "tokens_to_i64 tokens =
     (if i64_min \<le> tokens \<and> tokens \<le> i64_max then tokens
      else if tokens < 0 then i64_min else i64_max)"

definition tb_available :: "'c token_bucket \<Rightarrow> int" where
  "tb_available s =
     (let interval = uint (tb_interval_nanos s) in
      if interval = 0 then cost_to_i64 (tbc_capacity (tb_cfg s))
      else tokens_to_i64 (tb_scaled_balance s div interval))"

definition tb_set_config :: "'c token_bucket \<Rightarrow> token_bucket_config \<Rightarrow> 'c token_bucket" where
  "tb_set_config s cfg =
     (let old_interval = uint (tb_interval_nanos s);
          tokens = (if old_interval = 0 then cost_to_i64 (tbc_capacity (tb_cfg s))
                    else tb_scaled_balance s div old_interval);
          s = tb_recache (s\<lparr>tb_cfg := cfg\<rparr>)
      in s\<lparr>tb_scaled_balance :=
             min (sat_i128 (tokens * uint (tb_interval_nanos s))) (tb_scaled_capacity s)\<rparr>)"

definition tb_scale :: "'c token_bucket \<Rightarrow> cost_units \<Rightarrow> int" where
  "tb_scale s cost = sat_i128 (uint cost * uint (tb_interval_nanos s))"

definition tb_refill :: "'c token_bucket \<Rightarrow> instant \<Rightarrow> 'c token_bucket" where
  "tb_refill s now =
     (if tb_interval_nanos s = 0 then
        s\<lparr>tb_scaled_balance := tb_scaled_capacity s, tb_last_refill := now\<rparr>
      else if now \<le> tb_last_refill s then s
      else let elapsed = duration_since now (tb_last_refill s);
               accrued = sat_i128 (min (int elapsed) i128_max * uint (tbc_refill_amount (tb_cfg s)))
           in s\<lparr>tb_last_refill := now,
                tb_scaled_balance :=
                  min (sat_i128 (tb_scaled_balance s + accrued)) (tb_scaled_capacity s)\<rparr>)"

definition tb_covers :: "'c token_bucket \<Rightarrow> cost_units \<Rightarrow> bool" where
  "tb_covers s cost \<longleftrightarrow> tb_scale s cost \<le> tb_scaled_balance s"

definition tb_spend :: "'c token_bucket \<Rightarrow> cost_units \<Rightarrow> 'c token_bucket" where
  "tb_spend s cost = s\<lparr>tb_scaled_balance := sat_i128 (tb_scaled_balance s - tb_scale s cost)\<rparr>"

definition tb_covered_at :: "'c token_bucket \<Rightarrow> cost_units \<Rightarrow> instant option" where
  "tb_covered_at s cost =
     (let deficit = sat_i128 (tb_scale s cost - tb_scaled_balance s) in
      if deficit \<le> 0 then Some (tb_last_refill s)
      else let amount = uint (tbc_refill_amount (tb_cfg s)) in
        if amount = 0 \<or> tb_interval_nanos s = 0 then None
        else let nanos = sat_i128 (deficit + (amount - 1)) div amount
             in checked_add_instant (tb_last_refill s) (unat (clamp_u64 (nat nanos))))"

definition tb_update_ready ::
  "('c, 't, 'm) scheduler_ops \<Rightarrow> 'c token_bucket \<Rightarrow> instant \<Rightarrow> readiness \<times> 'c token_bucket" where
  "tb_update_ready inner s now =
     (let s = tb_refill (s\<lparr>tb_last_now := now\<rparr>) now;
          walk = (let (child, c) = sched_update_ready inner (tb_inner s) now;
                      s = s\<lparr>tb_inner := c\<rparr>
                  in if \<not> rd_ready child then (child, s)
                     else let cost = (case rd_next_cost child of None \<Rightarrow> 1 | Some c \<Rightarrow> c);
                              gate = min cost (tbc_capacity (tb_cfg s));
                              s = s\<lparr>tb_admission_cost := gate\<rparr>
                          in if tb_covers s gate then
                               (\<lparr>rd_ready = True, rd_next_update_at = rd_next_update_at child,
                                 rd_next_cost = Some cost\<rparr>, s)
                             else (readiness_not_ready (tb_covered_at s gate), s))
      in if tb_scaled_balance s < 0 then
           (case tb_covered_at s (tb_admission_cost s) of
              Some eta \<Rightarrow> (readiness_not_ready (Some eta), s)
            | None \<Rightarrow> walk)
         else walk)"

definition tb_take_next ::
  "('m \<Rightarrow> cost_units) \<Rightarrow> ('c, 't, 'm) scheduler_ops \<Rightarrow> 'c token_bucket \<Rightarrow>
   (('t, 'm) scheduled_work option \<times> 'c token_bucket) outcome" where
  "tb_take_next has_cost inner s =
     (let s = tb_refill s (tb_last_now s) in
      if \<not> tb_covers s (tb_admission_cost s) then Some (None, s)
      else do {
        (work, c) \<leftarrow> sched_take_next inner (tb_inner s);
        case work of
          None \<Rightarrow> Some (None, s\<lparr>tb_inner := c\<rparr>)
        | Some w \<Rightarrow> Some (Some w, tb_spend (s\<lparr>tb_inner := c\<rparr>) (has_cost (sw_meta w)))
      })"

definition tb_on_complete ::
  "('c, 't, 'm) scheduler_ops \<Rightarrow> 'c token_bucket \<Rightarrow> 'm completion \<Rightarrow>
   ('c token_bucket \<times> emitted) outcome" where
  "tb_on_complete inner s completion = do {
     (c, evs) \<leftarrow> sched_on_complete inner (tb_inner s) completion;
     Some (s\<lparr>tb_inner := c\<rparr>, evs)
   }"

definition tb_register ::
  "('c, 't, 'm) scheduler_ops \<Rightarrow> 'c token_bucket \<Rightarrow> runtime_signals \<Rightarrow>
   ('c token_bucket \<times> runtime_signals) outcome" where
  "tb_register inner s sig = do {
     (c, sig') \<leftarrow> sched_register inner (tb_inner s) sig;
     Some (s\<lparr>tb_inner := c\<rparr>, sig')
   }"

definition token_bucket_ops ::
  "('m \<Rightarrow> cost_units) \<Rightarrow> ('c, 't, 'm) scheduler_ops \<Rightarrow> ('c token_bucket, 't, 'm) scheduler_ops" where
  "token_bucket_ops has_cost inner = \<lparr>
     sched_update_ready = tb_update_ready inner,
     sched_take_next = tb_take_next has_cost inner,
     sched_on_complete = tb_on_complete inner,
     sched_register = tb_register inner\<rparr>"

section \<open>The contract\<close>

definition tb_invar ::
  "('c \<Rightarrow> routing_path multiset \<Rightarrow> bool) \<Rightarrow> 'c token_bucket \<Rightarrow> routing_path multiset \<Rightarrow> bool" where
  "tb_invar cinvar s paths \<longleftrightarrow> cinvar (tb_inner s) paths"

lemma tb_ops_simps [simp]:
  "sched_update_ready (token_bucket_ops has_cost inner) = tb_update_ready inner"
  "sched_take_next (token_bucket_ops has_cost inner) = tb_take_next has_cost inner"
  "sched_on_complete (token_bucket_ops has_cost inner) = tb_on_complete inner"
  "sched_register (token_bucket_ops has_cost inner) = tb_register inner"
  by (simp_all add: token_bucket_ops_def)

lemma tb_refill_frame [simp]:
  "tb_inner (tb_refill s now) = tb_inner s"
  "tb_cfg (tb_refill s now) = tb_cfg s"
  "tb_interval_nanos (tb_refill s now) = tb_interval_nanos s"
  "tb_scaled_capacity (tb_refill s now) = tb_scaled_capacity s"
  "tb_last_now (tb_refill s now) = tb_last_now s"
  "tb_admission_cost (tb_refill s now) = tb_admission_cost s"
  by (simp_all add: tb_refill_def Let_def)

lemma tb_spend_frame [simp]:
  "tb_inner (tb_spend s cost) = tb_inner s"
  "tb_cfg (tb_spend s cost) = tb_cfg s"
  "tb_interval_nanos (tb_spend s cost) = tb_interval_nanos s"
  "tb_scaled_capacity (tb_spend s cost) = tb_scaled_capacity s"
  "tb_last_refill (tb_spend s cost) = tb_last_refill s"
  by (simp_all add: tb_spend_def)

lemma tb_scale_nonneg: "0 \<le> tb_scale s cost"
  by (simp add: tb_scale_def sat_i128_def i128_max_def le_max_iff_disj)

text \<open>A second refill at the same instant changes nothing the node decides with.\<close>

lemma tb_refill_same:
  assumes "tb_last_refill s = t \<or> tb_interval_nanos s \<noteq> 0 \<and> t \<le> tb_last_refill s"
    "tb_interval_nanos s = 0 \<Longrightarrow> tb_scaled_balance s = tb_scaled_capacity s"
  shows "tb_refill s t = s"
  using assms by (auto simp: tb_refill_def)

lemma tb_refill_reached:
  "tb_last_refill (tb_refill s t) = t \<or>
   tb_interval_nanos s \<noteq> 0 \<and> t \<le> tb_last_refill (tb_refill s t)"
  "tb_interval_nanos s = 0 \<Longrightarrow> tb_scaled_balance (tb_refill s t) = tb_scaled_capacity s"
  by (auto simp: tb_refill_def Let_def)

lemma tb_update_ready_cases:
  assumes "tb_update_ready inner s now = (r, s')"
  obtains (debt) eta where "tb_scaled_balance (tb_refill (s\<lparr>tb_last_now := now\<rparr>) now) < 0"
      "r = readiness_not_ready (Some eta)" "s' = tb_refill (s\<lparr>tb_last_now := now\<rparr>) now"
  | (idle) c where "sched_update_ready inner (tb_inner s) now = (r, c)" "\<not> rd_ready r"
      "s' = (tb_refill (s\<lparr>tb_last_now := now\<rparr>) now)\<lparr>tb_inner := c\<rparr>"
  | (admitted) q c gate where "sched_update_ready inner (tb_inner s) now = (q, c)" "rd_ready q"
      "rd_ready r" "gate \<le> tbc_capacity (tb_cfg s)" "tb_covers s' gate"
      "s' = (tb_refill (s\<lparr>tb_last_now := now\<rparr>) now)\<lparr>tb_inner := c, tb_admission_cost := gate\<rparr>"
  | (starved) q c gate where "sched_update_ready inner (tb_inner s) now = (q, c)" "rd_ready q"
      "\<not> rd_ready r" "gate \<le> tbc_capacity (tb_cfg s)" "\<not> tb_covers s' gate"
      "s' = (tb_refill (s\<lparr>tb_last_now := now\<rparr>) now)\<lparr>tb_inner := c, tb_admission_cost := gate\<rparr>"
proof -
  let ?s = "tb_refill (s\<lparr>tb_last_now := now\<rparr>) now"
  obtain q c where c: "sched_update_ready inner (tb_inner s) now = (q, c)" by fastforce
  let ?gate = "min (case rd_next_cost q of None \<Rightarrow> 1 | Some c \<Rightarrow> c) (tbc_capacity (tb_cfg s))"
  consider (d) eta where "tb_scaled_balance ?s < 0"
      "tb_covered_at ?s (tb_admission_cost ?s) = Some eta"
    | (w) "\<not> (tb_scaled_balance ?s < 0 \<and> (\<exists>eta. tb_covered_at ?s (tb_admission_cost ?s) = Some eta))"
    by blast
  then show thesis
  proof cases
    case d
    with assms show thesis by (intro debt [of eta]) (simp_all add: tb_update_ready_def Let_def)
  next
    case w
    note walk = assms [unfolded tb_update_ready_def Let_def]
    show thesis
    proof (cases "rd_ready q")
      case False
      with walk w c show thesis
        by (intro idle [of c]) (auto split: if_splits option.splits)
    next
      case True
      show thesis
      proof (cases "tb_covers (?s\<lparr>tb_inner := c, tb_admission_cost := ?gate\<rparr>) ?gate")
        case covers: True
        with True walk w c show thesis
          by (intro admitted [of q c ?gate]) (auto split: if_splits option.splits)
      next
        case False
        with True walk w c show thesis
          by (intro starved [of q c ?gate]) (auto split: if_splits option.splits)
      qed
    qed
  qed
qed

lemma tb_update_ready_refilled:
  assumes "tb_update_ready inner s now = (r, s')"
  shows "tb_refill s' (tb_last_now s') = s'"
proof -
  let ?s = "tb_refill (s\<lparr>tb_last_now := now\<rparr>) now"
  note reached = tb_refill_reached [of "s\<lparr>tb_last_now := now\<rparr>" now]
  show ?thesis
    using assms
    by (cases rule: tb_update_ready_cases; intro tb_refill_same) (use reached in auto)
qed

lemma tb_take_next_cases:
  assumes "tb_take_next has_cost inner s = Some (w, s')"
  obtains (short) "\<not> tb_covers (tb_refill s (tb_last_now s)) (tb_admission_cost s)" "w = None"
      "s' = tb_refill s (tb_last_now s)"
  | (idle) c where "sched_take_next inner (tb_inner s) = Some (None, c)" "w = None"
      "s' = (tb_refill s (tb_last_now s))\<lparr>tb_inner := c\<rparr>"
  | (dispatched) x c where "tb_covers (tb_refill s (tb_last_now s)) (tb_admission_cost s)"
      "sched_take_next inner (tb_inner s) = Some (Some x, c)" "w = Some x"
      "s' = tb_spend ((tb_refill s (tb_last_now s))\<lparr>tb_inner := c\<rparr>) (has_cost (sw_meta x))"
proof (cases "tb_covers (tb_refill s (tb_last_now s)) (tb_admission_cost s)")
  case False
  with assms show ?thesis by (intro short) (simp_all add: tb_take_next_def Let_def)
next
  case True
  with assms obtain v c where v: "sched_take_next inner (tb_inner s) = Some (v, c)"
    by (auto simp: tb_take_next_def Let_def split: Option.bind_splits)
  show ?thesis
  proof (cases v)
    case None
    with True v assms show ?thesis by (intro idle [of c]) (simp_all add: tb_take_next_def Let_def)
  next
    case (Some x)
    with True v assms show ?thesis
      by (intro dispatched [of x c]) (simp_all add: tb_take_next_def Let_def)
  qed
qed

locale token_bucket_node =
  child: scheduler inner cinvar horizon cqueues
  for inner :: "('c, 't, 'm) scheduler_ops"
    and cinvar :: "'c \<Rightarrow> routing_path multiset \<Rightarrow> bool"
    and horizon :: instant
    and cqueues :: "'c \<Rightarrow> nat" +
  fixes has_cost :: "'m \<Rightarrow> cost_units"
begin

lemma tb_take_next_ok:
  assumes "tb_invar cinvar s paths" "size paths < u32_max"
  shows "\<exists>w s'. tb_take_next has_cost inner s = Some (w, s') \<and> tb_invar cinvar s' (taken w paths)"
proof (cases "tb_covers (tb_refill s (tb_last_now s)) (tb_admission_cost s)")
  case False
  with assms show ?thesis by (simp add: tb_take_next_def tb_invar_def Let_def)
next
  case True
  obtain w c where
    "sched_take_next inner (tb_inner s) = Some (w, c)" "cinvar c (taken w paths)"
    using assms child.take_next_obtain [of "tb_inner s" paths] by (auto simp: tb_invar_def)
  with True show ?thesis by (cases w) (simp_all add: tb_take_next_def tb_invar_def Let_def)
qed

lemma tb_ready_iff_work:
  assumes inv: "tb_invar cinvar s paths" "size paths < u32_max"
    and u: "tb_update_ready inner s now = (r, s')"
    and t: "tb_take_next has_cost inner s' = Some (w, s'')"
  shows "rd_ready r \<longleftrightarrow> w \<noteq> None"
proof -
  note same = tb_update_ready_refilled [OF u]
  have child: "rd_ready q \<longleftrightarrow> v \<noteq> None"
    if "sched_update_ready inner (tb_inner s) now = (q, c)" "sched_take_next inner c = Some (v, d)"
    for q c v d
    using child.ready_iff_work [OF _ inv(2) that] inv(1) by (simp add: tb_invar_def)
  show ?thesis
    using u
  proof (cases rule: tb_update_ready_cases)
    case (debt eta)
    then have "\<not> tb_covers s' (tb_admission_cost s')"
      using tb_scale_nonneg [of s' "tb_admission_cost s'"] by (simp add: tb_covers_def)
    with debt t same show ?thesis by (simp add: tb_take_next_def Let_def)
  next
    case (idle c)
    from t show ?thesis
      by (cases rule: tb_take_next_cases) (use idle child [OF idle(1)] in auto)
  next
    case (admitted q c gate)
    from t show ?thesis
      by (cases rule: tb_take_next_cases) (use admitted same child [OF admitted(1)] in auto)
  next
    case (starved q c gate)
    with t same show ?thesis by (simp add: tb_take_next_def Let_def)
  qed
qed

end

sublocale token_bucket_node \<subseteq>
  tb: scheduler "token_bucket_ops has_cost inner" "tb_invar cinvar" horizon "\<lambda>s. cqueues (tb_inner s)"
proof
  fix s paths now r s'
  assume inv: "tb_invar cinvar s paths"
    and u: "sched_update_ready (token_bucket_ops has_cost inner) s now = (r, s')"
  from u have "tb_update_ready inner s now = (r, s')" by simp
  then show "tb_invar cinvar s' paths"
    by (cases rule: tb_update_ready_cases)
      (use inv child.update_ready_ok in \<open>auto simp: tb_invar_def\<close>)
next
  fix s paths and c :: "'m completion"
  assume "tb_invar cinvar s paths" "cp_routing c \<in># paths" "cp_completed_at c \<le> horizon"
  then show "\<exists>s' evs. sched_on_complete (token_bucket_ops has_cost inner) s c = Some (s', evs) \<and>
      tb_invar cinvar s' (paths - {#cp_routing c#})"
    using child.on_complete_ok [of "tb_inner s" paths c]
    by (auto simp: tb_invar_def tb_on_complete_def)
next
  fix s paths sig s' sig'
  assume "tb_invar cinvar s paths"
    "sched_register (token_bucket_ops has_cost inner) s sig = Some (s', sig')"
  then show "tb_invar cinvar s' paths \<and> sig_identity sig' = sig_identity sig \<and>
    unat (sig_next_queue_id sig') \<le> unat (sig_next_queue_id sig) + cqueues (tb_inner s)"
    by (auto simp: tb_invar_def tb_register_def dest: child.register_ok split: Option.bind_splits)
next
  fix s paths and sig :: runtime_signals
  assume "tb_invar cinvar s paths" "unat (sig_next_queue_id sig) + cqueues (tb_inner s) \<le> u64_max"
  then show "sched_register (token_bucket_ops has_cost inner) s sig \<noteq> None"
    using child.register_returns [of "tb_inner s" paths sig]
    by (auto simp: tb_invar_def tb_register_def)
qed (simp_all only: tb_ops_simps tb_take_next_ok tb_ready_iff_work)

text \<open>A rate-limited periodic leaf, whose cost a fixed-cost node supplies.\<close>

interpretation limited_leaf:
  token_bucket_node "fixed_cost_ops (periodic_leaf_ops call_make)" "fc_invar pl_invar" instant_max
    "\<lambda>_. 0" with_cost_has_cost
  by (simp add: token_bucket_node_def costed_leaf.fc.scheduler_axioms)

section \<open>Accounting without saturation\<close>

text \<open>
  The interval bound under which no saturating operation saturates: \<open>2 ^ 62\<close> nanoseconds are
  146 years. \<open>tb_exact\<close> is the invariant of the accounting under that bound.
\<close>

definition tb_exact :: "'c token_bucket \<Rightarrow> bool" where
  "tb_exact s \<longleftrightarrow>
     0 < uint (tb_interval_nanos s) \<and> uint (tb_interval_nanos s) < 2 ^ 62 \<and>
     tb_scaled_capacity s = uint (tbc_capacity (tb_cfg s)) * uint (tb_interval_nanos s) \<and>
     tb_scaled_balance s \<le> tb_scaled_capacity s \<and>
     - (2 ^ 64 * uint (tb_interval_nanos s)) < tb_scaled_balance s"

lemma u64_uint_bound: "uint (x :: u64) < 2 ^ 64"
  using uint_lt2p [of x] by simp

lemma cost_times_interval_bound:
  assumes "uint (i :: u64) < 2 ^ 62"
  shows "uint (c :: u64) * uint i < 2 ^ 126"
proof -
  have "uint c * uint i \<le> (2 ^ 64 - 1) * (2 ^ 62 - 1)"
    by (rule mult_mono) (use u64_uint_bound [of c] assms in auto)
  then show ?thesis by simp
qed

lemma sat_i128_small: "- (2 ^ 127) \<le> n \<Longrightarrow> n < 2 ^ 127 \<Longrightarrow> sat_i128 n = n"
  by (rule sat_i128_id) (simp_all add: i128_min_def i128_max_def)

lemma tb_scale_exact:
  assumes "uint (tb_interval_nanos s) < 2 ^ 62"
  shows "tb_scale s c = uint c * uint (tb_interval_nanos s)" "tb_scale s c < 2 ^ 126"
proof -
  define P where "P = uint c * uint (tb_interval_nanos s)"
  have b: "P < 2 ^ 126" "0 \<le> P"
    unfolding P_def using cost_times_interval_bound [OF assms] by simp_all
  then have "tb_scale s c = P"
    unfolding tb_scale_def P_def [symmetric] by (intro sat_i128_small) simp_all
  with b show "tb_scale s c = uint c * uint (tb_interval_nanos s)" "tb_scale s c < 2 ^ 126"
    by (simp_all add: P_def)
qed

lemma tb_exact_bounds:
  assumes "tb_exact s"
  shows "- (2 ^ 126) < tb_scaled_balance s" "tb_scaled_balance s < 2 ^ 126"
    "tb_scaled_capacity s < 2 ^ 126" "0 \<le> tb_scaled_capacity s"
proof -
  have i: "uint (tb_interval_nanos s) < 2 ^ 62" using assms by (simp add: tb_exact_def)
  show c: "tb_scaled_capacity s < 2 ^ 126" "0 \<le> tb_scaled_capacity s"
    using assms cost_times_interval_bound [OF i, of "tbc_capacity (tb_cfg s)"]
    by (simp_all add: tb_exact_def)
  show "tb_scaled_balance s < 2 ^ 126" using c assms by (simp add: tb_exact_def)
  show "- (2 ^ 126) < tb_scaled_balance s" using i assms by (simp add: tb_exact_def)
qed

lemma saturated_accrual:
  fixes e a b c :: int
  assumes "0 \<le> e" "0 \<le> a" "- (2 ^ 126) < b" "b < 2 ^ 126" "c < 2 ^ 126"
  shows "min (sat_i128 (b + sat_i128 (min e i128_max * a))) c = min (b + e * a) c"
proof (cases "a = 0 \<or> e = 0")
  case True
  with assms show ?thesis by (auto simp: sat_i128_small i128_max_def)
next
  case False
  with assms have pos: "1 \<le> a" "1 \<le> e" by auto
  define A where "A = e * a"
  have A: "e \<le> A" "0 \<le> A" unfolding A_def using pos by (simp_all add: mult_le_cancel_left1)
  define B where "B = min e i128_max * a"
  have "min (sat_i128 (b + sat_i128 B)) c = min (b + A) c"
  proof (cases "A < 2 ^ 127")
    case True
    then have "e \<le> i128_max" using A by (simp add: i128_max_def)
    then have B: "B = A" by (simp add: A_def B_def)
    have "sat_i128 A = A" using True A by (intro sat_i128_small) simp_all
    moreover have "min (sat_i128 (b + A)) c = min (b + A) c"
      using A assms by (simp add: sat_i128_def i128_min_def i128_max_def)
    ultimately show ?thesis by (simp add: B)
  next
    case big: False
    have "i128_max \<le> B"
    proof (cases "e \<le> i128_max")
      case True
      with big show ?thesis by (simp add: A_def B_def i128_max_def)
    next
      case False
      then have "i128_max * 1 \<le> B" unfolding B_def
        using pos by (intro mult_mono) (auto simp: i128_max_def)
      then show ?thesis by simp
    qed
    then have "sat_i128 B = i128_max" by (simp add: sat_i128_def i128_min_def i128_max_def)
    moreover have "c \<le> sat_i128 (b + i128_max)"
      using assms by (simp add: sat_i128_def i128_min_def i128_max_def)
    moreover have "c \<le> b + A" using big assms by simp
    ultimately show ?thesis by simp
  qed
  then show ?thesis by (simp only: A_def B_def)
qed

text \<open>Refilling adds the accrual, clamped at the capacity.\<close>

lemma tb_refill_balance:
  assumes "tb_exact s"
  shows "tb_scaled_balance (tb_refill s now) =
    (if now \<le> tb_last_refill s then tb_scaled_balance s
     else min (tb_scaled_balance s +
               int (now - tb_last_refill s) * uint (tbc_refill_amount (tb_cfg s)))
            (tb_scaled_capacity s))"
proof -
  have nz: "tb_interval_nanos s \<noteq> 0" using assms by (auto simp: tb_exact_def)
  note tb_exact_bounds [OF assms]
  then show ?thesis
    using nz saturated_accrual [of "int (now - tb_last_refill s)"
        "uint (tbc_refill_amount (tb_cfg s))" "tb_scaled_balance s" "tb_scaled_capacity s"]
    by (simp add: tb_refill_def duration_since_def Let_def del: of_nat_diff)
qed

lemma tb_exact_refill:
  assumes "tb_exact s"
  shows "tb_exact (tb_refill s now)"
proof -
  define A where "A = int (now - tb_last_refill s) * uint (tbc_refill_amount (tb_cfg s))"
  have "0 \<le> A" unfolding A_def by simp
  moreover have "tb_scaled_balance (tb_refill s now) =
      (if now \<le> tb_last_refill s then tb_scaled_balance s
       else min (tb_scaled_balance s + A) (tb_scaled_capacity s))"
    unfolding A_def by (rule tb_refill_balance [OF assms])
  ultimately have "tb_scaled_balance (tb_refill s now) \<le> tb_scaled_capacity s"
    "tb_scaled_balance s \<le> tb_scaled_balance (tb_refill s now)"
    using assms by (auto simp: tb_exact_def)
  with assms show ?thesis by (simp add: tb_exact_def)
qed

lemma tb_exact_spend:
  assumes "tb_exact s" "0 \<le> tb_scaled_balance s"
  shows "tb_exact (tb_spend s c)"
    "tb_scaled_balance (tb_spend s c) =
       tb_scaled_balance s - uint c * uint (tb_interval_nanos s)"
proof -
  have i: "uint (tb_interval_nanos s) < 2 ^ 62" "0 < uint (tb_interval_nanos s)"
    using assms by (simp_all add: tb_exact_def)
  define P where "P = uint c * uint (tb_interval_nanos s)"
  have P: "P < 2 ^ 126" "0 \<le> P" "tb_scale s c = P"
    unfolding P_def using tb_scale_exact [OF i(1), of c] by simp_all
  have le: "P < 2 ^ 64 * uint (tb_interval_nanos s)"
    unfolding P_def by (rule mult_strict_right_mono) (use u64_uint_bound i in simp_all)
  have "sat_i128 (tb_scaled_balance s - P) = tb_scaled_balance s - P"
    by (rule sat_i128_small) (use assms(2) P(1,2) tb_exact_bounds [OF assms(1)] in simp_all)
  then have e: "tb_scaled_balance (tb_spend s c) = tb_scaled_balance s - P"
    by (simp add: tb_spend_def P(3))
  then show "tb_scaled_balance (tb_spend s c) =
      tb_scaled_balance s - uint c * uint (tb_interval_nanos s)" by (simp add: P_def)
  show "tb_exact (tb_spend s c)"
    unfolding tb_exact_def e tb_spend_frame
    using assms le P(2) unfolding tb_exact_def by linarith
qed

lemma tb_exact_new:
  assumes "0 < tbc_refill_interval cfg" "tbc_refill_interval cfg < 2 ^ 62"
  shows "tb_exact (token_bucket_new t0 cfg child)"
    "uint (tb_interval_nanos (token_bucket_new t0 cfg child)) = int (tbc_refill_interval cfg)"
proof -
  let ?i = "clamp_u64 (tbc_refill_interval cfg)"
  have u: "unat ?i = tbc_refill_interval cfg"
    using assms by (simp add: unat_clamp_u64 u64_max_def)
  then have "uint ?i = int (tbc_refill_interval cfg)" by (metis of_nat_unat)
  then show i: "uint (tb_interval_nanos (token_bucket_new t0 cfg child)) = int (tbc_refill_interval cfg)"
    by (simp add: token_bucket_new_def tb_recache_def Let_def)
  let ?s = "token_bucket_new t0 cfg child"
  have c: "tb_cfg ?s = cfg" "tb_scaled_balance ?s = tb_scaled_capacity ?s"
    "tb_scaled_capacity ?s = tb_scale ?s (tbc_capacity cfg)"
    by (simp_all add: token_bucket_new_def tb_recache_def tb_scale_def Let_def)
  have b: "uint (tb_interval_nanos ?s) < 2 ^ 62" using i assms by simp
  have p: "0 \<le> uint (tbc_capacity cfg) * int (tbc_refill_interval cfg)" by simp
  have n: "- (2 ^ 64 * int (tbc_refill_interval cfg)) < 0" using assms by simp
  have "tb_scale ?s (tbc_capacity cfg) = uint (tbc_capacity cfg) * int (tbc_refill_interval cfg)"
    using tb_scale_exact(1) [OF b, of "tbc_capacity cfg"] by (simp add: i)
  with assms order.strict_trans2 [OF n p] show "tb_exact ?s"
    unfolding tb_exact_def c i by simp
qed

section \<open>The rate limit\<close>

text \<open>
  The executions of a bucket from its creation at \<open>t0\<close>, with the total cost of the items it
  has dispatched. The configuration does not change.
\<close>

inductive tb_exec ::
  "('m \<Rightarrow> cost_units) \<Rightarrow> ('c, 't, 'm) scheduler_ops \<Rightarrow> instant \<Rightarrow> token_bucket_config \<Rightarrow> 'c \<Rightarrow>
   'c token_bucket \<Rightarrow> int \<Rightarrow> bool"
  for has_cost inner t0 cfg child where
  tbe_new: "tb_exec has_cost inner t0 cfg child (token_bucket_new t0 cfg child) 0"
| tbe_ready: "tb_exec has_cost inner t0 cfg child s n \<Longrightarrow> tb_update_ready inner s now = (r, s') \<Longrightarrow>
    tb_exec has_cost inner t0 cfg child s' n"
| tbe_idle: "tb_exec has_cost inner t0 cfg child s n \<Longrightarrow>
    tb_take_next has_cost inner s = Some (None, s') \<Longrightarrow> tb_exec has_cost inner t0 cfg child s' n"
| tbe_take: "tb_exec has_cost inner t0 cfg child s n \<Longrightarrow>
    tb_take_next has_cost inner s = Some (Some w, s') \<Longrightarrow>
    tb_exec has_cost inner t0 cfg child s' (n + uint (has_cost (sw_meta w)))"
| tbe_complete: "tb_exec has_cost inner t0 cfg child s n \<Longrightarrow>
    tb_on_complete inner s c = Some (s', evs) \<Longrightarrow> tb_exec has_cost inner t0 cfg child s' n"
| tbe_register: "tb_exec has_cost inner t0 cfg child s n \<Longrightarrow>
    tb_register inner s sig = Some (s', sig') \<Longrightarrow> tb_exec has_cost inner t0 cfg child s' n"

text \<open>What was spent and what is left never exceed the initial burst and the accrual since.\<close>

definition tb_accounted :: "instant \<Rightarrow> token_bucket_config \<Rightarrow> 'c token_bucket \<Rightarrow> int \<Rightarrow> bool" where
  "tb_accounted t0 cfg s n \<longleftrightarrow>
     tb_exact s \<and> tb_cfg s = cfg \<and> t0 \<le> tb_last_refill s \<and>
     uint (tb_interval_nanos s) = int (tbc_refill_interval cfg) \<and>
     int (tbc_refill_interval cfg) * n + tb_scaled_balance s \<le>
       tb_scaled_capacity s + (int (tb_last_refill s) - int t0) * uint (tbc_refill_amount cfg)"

lemma tb_accounted_inner [simp]:
  "tb_accounted t0 cfg (s\<lparr>tb_inner := c\<rparr>) n = tb_accounted t0 cfg s n"
  "tb_accounted t0 cfg (s\<lparr>tb_admission_cost := a\<rparr>) n = tb_accounted t0 cfg s n"
  "tb_accounted t0 cfg (s\<lparr>tb_last_now := t\<rparr>) n = tb_accounted t0 cfg s n"
  by (simp_all add: tb_accounted_def tb_exact_def)

lemma tb_accounted_refill:
  assumes "tb_accounted t0 cfg s n"
  shows "tb_accounted t0 cfg (tb_refill s now) n"
proof (cases "now \<le> tb_last_refill s")
  case True
  then have "tb_refill s now = s"
    using assms by (auto simp: tb_refill_def tb_accounted_def tb_exact_def)
  with assms show ?thesis by simp
next
  case False
  have ex: "tb_exact s" using assms by (simp add: tb_accounted_def)
  then have lr: "tb_last_refill (tb_refill s now) = now"
    using False by (auto simp: tb_refill_def tb_exact_def Let_def)
  define a where "a = uint (tbc_refill_amount cfg)"
  define d where "d = int now - int (tb_last_refill s)"
  have "tb_scaled_balance (tb_refill s now) \<le> tb_scaled_balance s + d * a"
    using tb_refill_balance [OF ex, of now] False assms
    by (simp add: tb_accounted_def a_def d_def)
  moreover have "(int now - int t0) * a = (int (tb_last_refill s) - int t0) * a + d * a"
    by (simp add: d_def algebra_simps)
  ultimately show ?thesis
    using assms tb_exact_refill [OF ex, of now] False lr
    unfolding tb_accounted_def a_def [symmetric] by simp
qed

lemma tb_accounted_spend:
  assumes "tb_accounted t0 cfg s n" "0 \<le> tb_scaled_balance s"
  shows "tb_accounted t0 cfg (tb_spend s c) (n + uint c)"
  using assms tb_exact_spend [of s c]
  by (simp add: tb_accounted_def algebra_simps)

lemma tb_covers_nonneg: "tb_covers s c \<Longrightarrow> 0 \<le> tb_scaled_balance s"
  using tb_scale_nonneg [of s c] by (simp add: tb_covers_def)

lemma tb_exec_accounted:
  assumes "tb_exec has_cost inner t0 cfg child s n"
    and "0 < tbc_refill_interval cfg" "tbc_refill_interval cfg < 2 ^ 62"
  shows "tb_accounted t0 cfg s n"
  using assms(1)
proof (induction rule: tb_exec.induct)
  case tbe_new
  show ?case using tb_exact_new [OF assms(2,3)]
    by (simp add: tb_accounted_def) (simp add: token_bucket_new_def tb_recache_def Let_def)
next
  case (tbe_ready s n now r s')
  from tbe_ready(2) show ?case
    by (cases rule: tb_update_ready_cases) (simp_all add: tb_accounted_refill tbe_ready)
next
  case (tbe_idle s n s')
  from tbe_idle(2) show ?case
    by (cases rule: tb_take_next_cases) (simp_all add: tb_accounted_refill tbe_idle)
next
  case (tbe_take s n w s')
  from tbe_take(2) show ?case
  proof (cases rule: tb_take_next_cases)
    case (dispatched x c)
    with tbe_take.IH tb_covers_nonneg [OF dispatched(1)] show ?thesis
      by (simp add: tb_accounted_spend tb_accounted_refill)
  qed simp_all
qed (auto simp: tb_on_complete_def tb_register_def split: Option.bind_splits)

section \<open>Wake-up times\<close>

lemma ceiling_div_le_iff:
  fixes d a k :: int
  assumes "0 < a"
  shows "(d + (a - 1)) div a \<le> k \<longleftrightarrow> d \<le> k * a"
proof
  let ?x = "d + (a - 1)"
  have x: "a * (?x div a) + ?x mod a = ?x" "0 \<le> ?x mod a" "?x mod a < a" using assms by simp_all
  show "d \<le> k * a" if "?x div a \<le> k"
  proof -
    have "a * (?x div a) \<le> a * k" using that assms by simp
    with x show ?thesis unfolding mult.commute [of k a] by linarith
  qed
  show "?x div a \<le> k" if "d \<le> k * a"
  proof (rule ccontr)
    assume "\<not> ?x div a \<le> k"
    then have "a * (k + 1) \<le> a * (?x div a)" using assms by (intro mult_left_mono) simp_all
    then have "a * k + a \<le> a * (?x div a)" by (simp add: distrib_left)
    with x that show False unfolding mult.commute [of k a] by linarith
  qed
qed

lemma tb_covered_at_exact:
  assumes ex: "tb_exact s" and pos: "tbc_refill_amount (tb_cfg s) \<noteq> 0"
    and no: "\<not> tb_covers s cost" and some: "tb_covered_at s cost = Some t"
    and near: "tb_scale s cost - tb_scaled_balance s \<le>
      int u64_max * uint (tbc_refill_amount (tb_cfg s))"
  shows "int t = int (tb_last_refill s) +
    (tb_scale s cost - tb_scaled_balance s + (uint (tbc_refill_amount (tb_cfg s)) - 1))
      div uint (tbc_refill_amount (tb_cfg s))"
proof -
  define a where "a = uint (tbc_refill_amount (tb_cfg s))"
  define d where "d = tb_scale s cost - tb_scaled_balance s"
  define k where "k = (d + (a - 1)) div a"
  have a: "0 < a" "a < 2 ^ 64" using pos u64_uint_bound [of "tbc_refill_amount (tb_cfg s)"]
    by (auto simp: a_def uint_0_iff order.strict_iff_order)
  have i: "uint (tb_interval_nanos s) < 2 ^ 62" "tb_interval_nanos s \<noteq> 0"
    using ex by (auto simp: tb_exact_def)
  have bal: "- (2 ^ 64 * uint (tb_interval_nanos s)) < tb_scaled_balance s"
    using ex by (simp add: tb_exact_def)
  have sc: "tb_scale s cost \<le> (2 ^ 64 - 1) * (2 ^ 62 - 1)"
    unfolding tb_scale_exact(1) [OF i(1)]
    by (rule mult_mono) (use u64_uint_bound [of cost] i(1) in auto)
  have d: "0 < d" "d < 2 ^ 127 - 2 ^ 64"
    using no sc bal i(1) by (auto simp: d_def tb_covers_def)
  have k: "0 < k" "k \<le> int u64_max"
  proof -
    show "k \<le> int u64_max"
      unfolding k_def ceiling_div_le_iff [OF a(1)] using near by (simp add: a_def d_def)
    have "\<not> k \<le> 0" unfolding k_def ceiling_div_le_iff [OF a(1)] using d(1) by simp
    then show "0 < k" by simp
  qed
  have sd: "sat_i128 d = d" "sat_i128 (d + (a - 1)) = d + (a - 1)"
    using d a by (auto intro!: sat_i128_small)
  have "checked_add_instant (tb_last_refill s) (unat (clamp_u64 (nat k))) = Some t"
    using some pos i(2) d(1) a sd
    unfolding tb_covered_at_def Let_def d_def [symmetric] a_def [symmetric] k_def
    by simp
  then have "t = tb_last_refill s + nat k"
    using k by (simp add: checked_add_instant_def unat_clamp_u64 min_absorb1 nat_le_iff split: if_splits)
  then show ?thesis using k by (simp add: k_def a_def d_def)
qed

section \<open>Properties\<close>

text \<open>
  C21. The token bucket bounds the admitted cost: in any execution of a bucket with a refill
  interval between 1 and \<open>2 ^ 62\<close> nanoseconds, whenever an item is dispatched, the cost of
  everything dispatched before it and the gate it was admitted with are paid by the
  initial burst and the refill since the bucket was created, in exact arithmetic.
\<close>

theorem token_bucket_rate_limit:
  assumes "tb_exec has_cost inner t0 cfg child s n"
    and "0 < tbc_refill_interval cfg" and "tbc_refill_interval cfg < 2 ^ 62"
    and "tb_take_next has_cost inner s = Some (Some w, s')"
  shows "int (tbc_refill_interval cfg) * (n + uint (tb_admission_cost s)) \<le>
    uint (tbc_capacity cfg) * int (tbc_refill_interval cfg) +
    (int (tb_last_refill s') - int t0) * uint (tbc_refill_amount cfg)"
  using assms(4)
proof (cases rule: tb_take_next_cases)
  case (dispatched x c)
  let ?s = "tb_refill s (tb_last_now s)"
  have acc: "tb_accounted t0 cfg ?s n"
    using tb_exec_accounted [OF assms(1-3)] by (rule tb_accounted_refill)
  have i: "uint (tb_interval_nanos ?s) < 2 ^ 62" using acc by (simp add: tb_accounted_def tb_exact_def)
  have "uint (tb_admission_cost s) * int (tbc_refill_interval cfg) \<le> tb_scaled_balance ?s"
    using dispatched(1) tb_scale_exact(1) [OF i] acc by (simp add: tb_covers_def tb_accounted_def)
  then have "int (tbc_refill_interval cfg) * (n + uint (tb_admission_cost s)) \<le>
      int (tbc_refill_interval cfg) * n + tb_scaled_balance ?s" by (simp add: algebra_simps)
  also have "\<dots> \<le> tb_scaled_capacity ?s + (int (tb_last_refill ?s) - int t0) * uint (tbc_refill_amount cfg)"
    using acc unfolding tb_accounted_def by blast
  also have "tb_scaled_capacity ?s = uint (tbc_capacity cfg) * int (tbc_refill_interval cfg)"
    using acc unfolding tb_accounted_def tb_exact_def by metis
  finally show ?thesis using dispatched by simp
qed simp_all

definition tb_example :: "nat periodic_leaf fixed_cost token_bucket" where
  "tb_example = token_bucket_new 0 \<lparr>tbc_capacity = 2, tbc_refill_amount = 1, tbc_refill_interval = 10\<rparr>
     (fixed_cost_new 2 (periodic_leaf_new 0 1 0))"

theorem token_bucket_rate_limit_witness:
  "\<exists>w s'. tb_take_next with_cost_has_cost (fixed_cost_ops (periodic_leaf_ops (\<lambda>n. (n, Suc n))))
      tb_example = Some (Some w, s') \<and>
     (10 :: int) * (0 + uint (tb_admission_cost tb_example)) \<le>
       2 * 10 + (int (tb_last_refill s') - 0) * 1"
proof -
  let ?inner = "fixed_cost_ops (periodic_leaf_ops (\<lambda>n :: nat. (n, Suc n)))"
  let ?cfg = "\<lparr>tbc_capacity = 2, tbc_refill_amount = 1, tbc_refill_interval = 10\<rparr>"
  let ?child = "fixed_cost_new 2 (periodic_leaf_new 0 1 (0 :: nat))"
  have e: "tb_exec with_cost_has_cost ?inner 0 ?cfg ?child tb_example 0"
    unfolding tb_example_def by (rule tbe_new)
  obtain w s' where t: "tb_take_next with_cost_has_cost ?inner tb_example = Some (Some w, s')"
    by (simp add: tb_example_def tb_take_next_def token_bucket_new_def tb_recache_def tb_refill_def
        tb_covers_def tb_scale_def clamp_u64_def u64_max_def sat_i128_def i128_min_def i128_max_def
        fc_take_next_def fixed_cost_new_def pl_take_next_def pl_due_def periodic_leaf_new_def
        Let_def)
  from token_bucket_rate_limit [OF e _ _ t] t show ?thesis by auto
qed

text \<open>
  The wake-up time of a short bucket is exact: when the balance does not cover a cost within
  capacity, the instant \<open>covered_at\<close> reports is the first at which refilling covers it.
\<close>

theorem token_bucket_wake_exact:
  assumes "tb_exact s" and "tbc_refill_amount (tb_cfg s) \<noteq> 0" and "cost \<le> tbc_capacity (tb_cfg s)"
    and "\<not> tb_covers s cost" and "tb_covered_at s cost = Some t"
    and "tb_scale s cost - tb_scaled_balance s \<le>
      int u64_max * uint (tbc_refill_amount (tb_cfg s))"
  shows "tb_covers (tb_refill s now) cost \<longleftrightarrow> t \<le> now"
proof -
  define a where "a = uint (tbc_refill_amount (tb_cfg s))"
  define d where "d = tb_scale s cost - tb_scaled_balance s"
  have a: "0 < a" using assms(2) by (auto simp: a_def uint_0_iff order.strict_iff_order)
  have t: "int t = int (tb_last_refill s) + (d + (a - 1)) div a"
    unfolding a_def d_def by (rule tb_covered_at_exact) (use assms in simp_all)
  have i: "uint (tb_interval_nanos s) < 2 ^ 62" using assms(1) by (simp add: tb_exact_def)
  have cap: "tb_scale s cost \<le> tb_scaled_capacity s"
    using assms(1,3) tb_scale_exact(1) [OF i]
    by (simp add: tb_exact_def mult_right_mono word_le_def)
  have "d > 0" using assms(4) by (simp add: d_def tb_covers_def)
  have scale: "tb_scale (tb_refill s now) cost = tb_scale s cost" by (simp add: tb_scale_def)
  show ?thesis
  proof (cases "now \<le> tb_last_refill s")
    case True
    have "\<not> (d + (a - 1)) div a \<le> 0"
      unfolding ceiling_div_le_iff [OF a] using \<open>d > 0\<close> by simp
    with t True have "\<not> t \<le> now" by linarith
    moreover have "tb_refill s now = s"
      using True assms(1) by (auto simp: tb_refill_def tb_exact_def)
    ultimately show ?thesis using assms(4) by simp
  next
    case False
    have "tb_covers (tb_refill s now) cost \<longleftrightarrow> d \<le> (int now - int (tb_last_refill s)) * a"
      using tb_refill_balance [OF assms(1), of now] False cap scale
      by (auto simp: tb_covers_def d_def a_def)
    also have "\<dots> \<longleftrightarrow> (d + (a - 1)) div a \<le> int now - int (tb_last_refill s)"
      using ceiling_div_le_iff [OF a] by simp
    also have "\<dots> \<longleftrightarrow> t \<le> now" using t by linarith
    finally show ?thesis .
  qed
qed

theorem token_bucket_wake_exact_witness:
  "tb_covers (tb_refill (tb_spend tb_example 2) 9) 1 \<longleftrightarrow> (10 :: nat) \<le> 9"
proof -
  let ?s = "tb_spend tb_example 2"
  have x: "tb_exact tb_example" unfolding tb_example_def by (rule tb_exact_new) simp_all
  have v: "tb_scaled_balance tb_example = 20" "tb_interval_nanos tb_example = 10"
    "tb_last_refill tb_example = 0"
    "tb_cfg tb_example = \<lparr>tbc_capacity = 2, tbc_refill_amount = 1, tbc_refill_interval = 10\<rparr>"
    by (simp_all add: tb_example_def token_bucket_new_def tb_recache_def clamp_u64_def u64_max_def
        sat_i128_def i128_min_def i128_max_def Let_def)
  have b: "tb_scaled_balance ?s = 0" "tb_scale ?s 1 = 10"
    by (simp_all add: tb_spend_def tb_scale_def v sat_i128_def i128_min_def i128_max_def)
  show ?thesis
  proof (rule token_bucket_wake_exact)
    show "tb_exact ?s" using x by (rule tb_exact_spend) (simp add: v)
    show "tb_covered_at ?s 1 = Some 10"
      by (simp add: tb_covered_at_def b v sat_i128_def i128_min_def i128_max_def clamp_u64_def
          u64_max_def checked_add_instant_def instant_max_def Let_def)
  qed (simp_all add: v b tb_covers_def u64_max_def)
qed

end
