(* ===== verification/Round_Robin.thy ===== *)
theory Round_Robin
  imports Token_Bucket
begin

text \<open>
  \<open>RoundRobin\<close> (\<open>dispatcher/src/schedulers/round_robin.rs\<close>): a branch over boxed children with
  dynamic membership. Children live in a slab of slots indexed by a 32-bit identity, which is
  also the routing tag; the rotation is a queue of identities with the generation they were
  enqueued under, and entries of removed children are purged lazily.
\<close>

section \<open>The branch\<close>

datatype 'c rr_entry = is_Live: Live 'c | is_Draining: Draining 'c | is_Free: Free

record 'c rr_slot =
  sl_entry :: "'c rr_entry"
  sl_generation :: u32
  sl_in_flight :: u32
  sl_live_pos :: nat

datatype 'c removed_child = Detached 'c | StillDraining

record 'c round_robin =
  rr_slots :: "'c rr_slot list"
  rr_live_ids :: "u32 list"
  rr_free :: "u32 list"
  rr_queue :: "(u32 \<times> u32) list"
  rr_stale :: nat

definition round_robin_new :: "'c round_robin" where
  "round_robin_new =
     \<lparr>rr_slots = [], rr_live_ids = [], rr_free = [], rr_queue = [], rr_stale = 0\<rparr>"

text \<open>\<open>None\<close> is the panic of \<open>expect\<close>: an invalid free list, or no identity left.\<close>

definition rr_add_child :: "'c round_robin \<Rightarrow> 'c \<Rightarrow> (u32 \<times> 'c round_robin) outcome" where
  "rr_add_child s child = do {
     let live_pos = length (rr_live_ids s);
     (cid, generation, s) \<leftarrow>
       (case vec_pop (rr_free s) of
          (Some cid, free) \<Rightarrow> do {
            slot \<leftarrow> vec_get (rr_slots s) (unat cid);
            let generation = sl_generation slot + 1;
            let slot = \<lparr>sl_entry = Live child, sl_generation = generation, sl_in_flight = 0,
                        sl_live_pos = live_pos\<rparr>;
            Some (cid, generation, s\<lparr>rr_free := free, rr_slots := (rr_slots s)[unat cid := slot]\<rparr>)
          }
        | (None, _) \<Rightarrow>
            if length (rr_slots s) \<le> u32_max then
              let slot = \<lparr>sl_entry = Live child, sl_generation = 0, sl_in_flight = 0,
                          sl_live_pos = live_pos\<rparr>
              in Some (word_of_nat (length (rr_slots s)), 0, s\<lparr>rr_slots := rr_slots s @ [slot]\<rparr>)
            else None);
     Some (cid, s\<lparr>rr_live_ids := rr_live_ids s @ [cid], rr_queue := rr_queue s @ [(cid, generation)]\<rparr>)
   }"

definition rr_attach_child :: "'c round_robin \<Rightarrow> 'c \<Rightarrow> unit \<Rightarrow> (u32 \<times> 'c round_robin) outcome" where
  "rr_attach_child s child args = rr_add_child s child"

text \<open>The test \<open>retain\<close> applies: the entry's generation is current and its child is live.\<close>

definition rr_valid :: "'c rr_slot list \<Rightarrow> u32 \<times> u32 \<Rightarrow> bool" where
  "rr_valid slots e =
     (case vec_get slots (unat (fst e)) of
        None \<Rightarrow> False
      | Some sl \<Rightarrow> sl_generation sl = snd e \<and> is_Live (sl_entry sl))"

definition rr_purge :: "'c round_robin \<Rightarrow> 'c round_robin" where
  "rr_purge s =
     (let s = s\<lparr>rr_stale := rr_stale s + 1\<rparr> in
      if length (rr_live_ids s) < rr_stale s then
        s\<lparr>rr_queue := filter (rr_valid (rr_slots s)) (rr_queue s), rr_stale := 0\<rparr>
      else s)"

definition rr_unlist :: "'c round_robin \<Rightarrow> nat \<Rightarrow> 'c round_robin outcome" where
  "rr_unlist s pos = do {
     live_ids \<leftarrow> swap_remove (rr_live_ids s) pos;
     Some (s\<lparr>rr_live_ids := live_ids,
             rr_slots :=
               (case vec_get live_ids pos of
                  None \<Rightarrow> rr_slots s
                | Some moved \<Rightarrow>
                    (case vec_get (rr_slots s) (unat moved) of
                       None \<Rightarrow> rr_slots s
                     | Some sl \<Rightarrow> (rr_slots s)[unat moved := sl\<lparr>sl_live_pos := pos\<rparr>]))\<rparr>)
   }"

definition rr_remove_child ::
  "'c round_robin \<Rightarrow> u32 \<Rightarrow> ('c removed_child option \<times> 'c round_robin) outcome" where
  "rr_remove_child s cid =
     (case vec_get (rr_slots s) (unat cid) of
        None \<Rightarrow> Some (None, s)
      | Some slot \<Rightarrow>
          (case sl_entry slot of
             Live sched \<Rightarrow> do {
               let (removed, s') =
                 (if 0 < sl_in_flight slot then
                    (StillDraining,
                     s\<lparr>rr_slots := (rr_slots s)[unat cid := slot\<lparr>sl_entry := Draining sched\<rparr>]\<rparr>)
                  else
                    (Detached sched,
                     s\<lparr>rr_slots := (rr_slots s)[unat cid := slot\<lparr>sl_entry := Free\<rparr>],
                       rr_free := rr_free s @ [cid]\<rparr>));
               s' \<leftarrow> rr_unlist s' (sl_live_pos slot);
               Some (Some removed, rr_purge s')
             }
           | _ \<Rightarrow> Some (None, s)))"

definition rr_len :: "'c round_robin \<Rightarrow> nat" where
  "rr_len s = length (rr_live_ids s)"

definition rr_is_empty :: "'c round_robin \<Rightarrow> bool" where
  "rr_is_empty s \<longleftrightarrow> rr_live_ids s = []"

section \<open>The \<open>Scheduler\<close> implementation\<close>

text \<open>The loop of \<open>update_ready\<close> over the live identities.\<close>

fun rr_poll ::
  "('c, 't, 'm) scheduler_ops \<Rightarrow> instant \<Rightarrow> u32 list \<Rightarrow> 'c rr_slot list \<Rightarrow> bool \<Rightarrow> instant option \<Rightarrow>
   bool \<times> instant option \<times> 'c rr_slot list" where
  "rr_poll inner now [] slots ready next_at = (ready, next_at, slots)"
| "rr_poll inner now (cid # ids) slots ready next_at =
     (case vec_get slots (unat cid) of
        None \<Rightarrow> rr_poll inner now ids slots ready next_at
      | Some slot \<Rightarrow>
          (case sl_entry slot of
             Live sched \<Rightarrow>
               (let (r, sched') = sched_update_ready inner sched now in
                rr_poll inner now ids (slots[unat cid := slot\<lparr>sl_entry := Live sched'\<rparr>])
                  (ready \<or> rd_ready r) (min_deadline next_at (rd_next_update_at r)))
           | _ \<Rightarrow> rr_poll inner now ids slots ready next_at))"

definition rr_update_ready ::
  "('c, 't, 'm) scheduler_ops \<Rightarrow> 'c round_robin \<Rightarrow> instant \<Rightarrow> readiness \<times> 'c round_robin" where
  "rr_update_ready inner s now =
     (let (ready, next_at, slots) = rr_poll inner now (rr_live_ids s) (rr_slots s) False None in
      (\<lparr>rd_ready = ready, rd_next_update_at = next_at, rd_next_cost = None\<rparr>,
       s\<lparr>rr_slots := slots\<rparr>))"

text \<open>The loop \<open>for _ in 0..n\<close> of \<open>take_next\<close>.\<close>

fun rr_scan ::
  "('c, 't, 'm) scheduler_ops \<Rightarrow> nat \<Rightarrow> 'c round_robin \<Rightarrow>
   (('t, 'm) scheduled_work option \<times> 'c round_robin) outcome" where
  "rr_scan inner 0 s = Some (None, s)"
| "rr_scan inner (Suc n) s =
     (case rr_queue s of
        [] \<Rightarrow> Some (None, s)
      | (cid, generation) # rest \<Rightarrow>
          let s = s\<lparr>rr_queue := rest\<rparr>;
              stale = s\<lparr>rr_stale := rr_stale s - 1\<rparr>
          in case vec_get (rr_slots s) (unat cid) of
               None \<Rightarrow> rr_scan inner n stale
             | Some slot \<Rightarrow>
                 if sl_generation slot \<noteq> generation then rr_scan inner n stale
                 else (case sl_entry slot of
                     Live sched \<Rightarrow> do {
                       (work, sched') \<leftarrow> sched_take_next inner sched;
                       let slot = slot\<lparr>sl_entry := Live sched'\<rparr>;
                       let s = s\<lparr>rr_queue := rest @ [(cid, generation)]\<rparr>;
                       case work of
                         Some w \<Rightarrow>
                           (let slot = slot\<lparr>sl_in_flight := saturating_add (sl_in_flight slot) 1\<rparr>
                            in Some (Some (w\<lparr>sw_routing := rp_push cid (sw_routing w)\<rparr>),
                                     s\<lparr>rr_slots := (rr_slots s)[unat cid := slot]\<rparr>))
                       | None \<Rightarrow> rr_scan inner n (s\<lparr>rr_slots := (rr_slots s)[unat cid := slot]\<rparr>)
                     }
                   | _ \<Rightarrow> rr_scan inner n stale))"

definition rr_take_next ::
  "('c, 't, 'm) scheduler_ops \<Rightarrow> 'c round_robin \<Rightarrow>
   (('t, 'm) scheduled_work option \<times> 'c round_robin) outcome" where
  "rr_take_next inner s = rr_scan inner (length (rr_queue s)) s"

definition rr_on_complete ::
  "('c, 't, 'm) scheduler_ops \<Rightarrow> 'c round_robin \<Rightarrow> 'm completion \<Rightarrow>
   ('c round_robin \<times> emitted) outcome" where
  "rr_on_complete inner s completion =
     (case rp_pop (cp_routing completion) of
        (None, _) \<Rightarrow> Some (s, [])
      | (Some cid, routing) \<Rightarrow>
          (let completion = completion\<lparr>cp_routing := routing\<rparr> in
           case vec_get (rr_slots s) (unat cid) of
             None \<Rightarrow> Some (s, [])
           | Some slot \<Rightarrow>
               (let slot' = slot\<lparr>sl_in_flight := saturating_sub (sl_in_flight slot) 1\<rparr> in
                case sl_entry slot of
                  Free \<Rightarrow> Some (s, [])
                | Live sched \<Rightarrow> do {
                    (c, evs) \<leftarrow> sched_on_complete inner sched completion;
                    Some (s\<lparr>rr_slots := (rr_slots s)[unat cid := slot'\<lparr>sl_entry := Live c\<rparr>]\<rparr>, evs)
                  }
                | Draining sched \<Rightarrow> do {
                    (c, evs) \<leftarrow> sched_on_complete inner sched completion;
                    Some (if sl_in_flight slot' = 0
                          then s\<lparr>rr_slots := (rr_slots s)[unat cid := slot'\<lparr>sl_entry := Free\<rparr>],
                                 rr_free := rr_free s @ [cid]\<rparr>
                          else s\<lparr>rr_slots := (rr_slots s)[unat cid := slot'\<lparr>sl_entry := Draining c\<rparr>]\<rparr>,
                          evs)
                  })))"

fun rr_register_slots ::
  "('c, 't, 'm) scheduler_ops \<Rightarrow> 'c rr_slot list \<Rightarrow> runtime_signals \<Rightarrow>
   ('c rr_slot list \<times> runtime_signals) outcome" where
  "rr_register_slots inner [] sig = Some ([], sig)"
| "rr_register_slots inner (slot # slots) sig = do {
     (entry, sig) \<leftarrow>
       (case sl_entry slot of
          Live c \<Rightarrow> do { (c', sig) \<leftarrow> sched_register inner c sig; Some (Live c', sig) }
        | Draining c \<Rightarrow> do { (c', sig) \<leftarrow> sched_register inner c sig; Some (Draining c', sig) }
        | Free \<Rightarrow> Some (Free, sig));
     (slots, sig) \<leftarrow> rr_register_slots inner slots sig;
     Some (slot\<lparr>sl_entry := entry\<rparr> # slots, sig)
   }"

definition rr_register ::
  "('c, 't, 'm) scheduler_ops \<Rightarrow> 'c round_robin \<Rightarrow> runtime_signals \<Rightarrow>
   ('c round_robin \<times> runtime_signals) outcome" where
  "rr_register inner s sig = do {
     (slots, sig) \<leftarrow> rr_register_slots inner (rr_slots s) sig;
     Some (s\<lparr>rr_slots := slots\<rparr>, sig)
   }"

definition round_robin_ops ::
  "('c, 't, 'm) scheduler_ops \<Rightarrow> ('c round_robin, 't, 'm) scheduler_ops" where
  "round_robin_ops inner = \<lparr>
     sched_update_ready = rr_update_ready inner,
     sched_take_next = rr_take_next inner,
     sched_on_complete = rr_on_complete inner,
     sched_register = rr_register inner\<rparr>"

lemma rr_ops_simps [simp]:
  "sched_update_ready (round_robin_ops inner) = rr_update_ready inner"
  "sched_take_next (round_robin_ops inner) = rr_take_next inner"
  "sched_on_complete (round_robin_ops inner) = rr_on_complete inner"
  "sched_register (round_robin_ops inner) = rr_register inner"
  by (simp_all add: round_robin_ops_def)

section \<open>Slots\<close>

definition has_slot :: "'c rr_slot list \<Rightarrow> u32 \<Rightarrow> bool" where
  "has_slot slots cid \<longleftrightarrow> unat cid < length slots"

definition slot_at :: "'c rr_slot list \<Rightarrow> u32 \<Rightarrow> 'c rr_slot" where
  "slot_at slots cid = slots ! unat cid"

definition rr_live :: "'c rr_slot list \<Rightarrow> u32 \<Rightarrow> bool" where
  "rr_live slots cid \<longleftrightarrow> has_slot slots cid \<and> is_Live (sl_entry (slot_at slots cid))"

lemma vec_get_slot [simp]:
  "vec_get slots (unat (cid :: u32)) = (if has_slot slots cid then Some (slot_at slots cid) else None)"
  by (simp add: vec_get_def has_slot_def slot_at_def)

lemma has_slot_update [simp]: "has_slot (slots[i := sl]) cid = has_slot slots cid"
  by (simp add: has_slot_def)

lemma slot_at_update [simp]:
  "has_slot slots cid \<Longrightarrow>
   slot_at (slots[unat cid := sl]) x = (if x = cid then sl else slot_at slots x)"
  by (auto simp: slot_at_def has_slot_def nth_list_update word_unat_eq_iff)

lemma rr_valid_iff:
  "rr_valid slots e \<longleftrightarrow> rr_live slots (fst e) \<and> sl_generation (slot_at slots (fst e)) = snd e"
  by (auto simp: rr_valid_def rr_live_def)

lemma slot_ids: "i < length slots \<Longrightarrow> length slots \<le> 2 ^ 32 \<Longrightarrow>
   has_slot slots (word_of_nat i) \<and> slot_at slots (word_of_nat i) = slots ! i"
  by (simp add: has_slot_def slot_at_def unsigned_of_nat take_bit_nat_eq_self)

text \<open>What the rotation sees of a slab of slots.\<close>

definition same_rotation :: "'c rr_slot list \<Rightarrow> 'c rr_slot list \<Rightarrow> bool" where
  "same_rotation slots slots' \<longleftrightarrow> length slots' = length slots \<and>
     (\<forall>x. has_slot slots x \<longrightarrow>
       is_Live (sl_entry (slot_at slots' x)) = is_Live (sl_entry (slot_at slots x)) \<and>
       is_Draining (sl_entry (slot_at slots' x)) = is_Draining (sl_entry (slot_at slots x)) \<and>
       sl_generation (slot_at slots' x) = sl_generation (slot_at slots x) \<and>
       sl_live_pos (slot_at slots' x) = sl_live_pos (slot_at slots x))"

lemma same_rotation_refl [simp]: "same_rotation slots slots"
  by (simp add: same_rotation_def)

lemma same_rotation_trans: "same_rotation a b \<Longrightarrow> same_rotation b c \<Longrightarrow> same_rotation a c"
  by (simp add: same_rotation_def has_slot_def)

lemma same_rotation_update [intro]:
  assumes "has_slot slots cid" "is_Live (sl_entry sl) = is_Live (sl_entry (slot_at slots cid))"
    "is_Draining (sl_entry sl) = is_Draining (sl_entry (slot_at slots cid))"
    "sl_generation sl = sl_generation (slot_at slots cid)"
    "sl_live_pos sl = sl_live_pos (slot_at slots cid)"
  shows "same_rotation slots (slots[unat cid := sl])"
  using assms by (simp add: same_rotation_def)

lemma same_rotation_live:
  "same_rotation slots slots' \<Longrightarrow> rr_live slots' x = rr_live slots x"
  "same_rotation slots slots' \<Longrightarrow> has_slot slots' x = has_slot slots x"
  "same_rotation slots slots' \<Longrightarrow> rr_valid slots' e = rr_valid slots e"
  by (auto simp: same_rotation_def rr_live_def has_slot_def rr_valid_iff)

section \<open>The slab\<close>

text \<open>
  \<open>live_ids\<close> lists the live slots, each slot knows its position there, and \<open>free\<close> lists the
  free slots.
\<close>

definition rr_slab :: "'c round_robin \<Rightarrow> bool" where
  "rr_slab s \<longleftrightarrow>
     length (rr_slots s) \<le> 2 ^ 32 \<and> distinct (rr_live_ids s) \<and> distinct (rr_free s) \<and>
     (\<forall>x. x \<in> set (rr_live_ids s) \<longleftrightarrow> rr_live (rr_slots s) x) \<and>
     (\<forall>x \<in> set (rr_live_ids s).
        vec_get (rr_live_ids s) (sl_live_pos (slot_at (rr_slots s) x)) = Some x) \<and>
     (\<forall>x. x \<in> set (rr_free s) \<longleftrightarrow>
        has_slot (rr_slots s) x \<and> is_Free (sl_entry (slot_at (rr_slots s) x)))"

lemma is_Free_iff: "is_Free e \<longleftrightarrow> \<not> is_Live e \<and> \<not> is_Draining e"
  by (cases e) simp_all

lemma rr_slab_cong:
  assumes "rr_slab s" "same_rotation (rr_slots s) slots"
  shows "rr_slab (s\<lparr>rr_slots := slots\<rparr>)"
  using assms same_rotation_live [OF assms(2)]
  by (auto simp: rr_slab_def same_rotation_def is_Free_iff rr_live_def)

lemma swap_remove_spec:
  assumes "swap_remove xs i = Some ys" "distinct xs"
  shows "i < length xs" "distinct ys" "set ys = set xs - {xs ! i}" "length ys = length xs - 1"
    "x \<in> set ys \<Longrightarrow> j < length xs \<Longrightarrow> xs ! j = x \<Longrightarrow>
       vec_get ys (if j = length xs - 1 then i else j) = Some x"
proof -
  show i: "i < length xs" using assms(1) by (simp add: swap_remove_def split: if_splits)
  then obtain zs z where xs: "xs = zs @ [z]" by (cases xs rule: rev_cases) auto
  have ys: "ys = (if i = length zs then zs else zs[i := z])"
    using assms(1) i xs by (auto simp: swap_remove_def)
  show "length ys = length xs - 1" by (simp add: ys xs)
  have d: "distinct zs" "z \<notin> set zs" using assms(2) xs by auto
  have s: "set (zs[i := z]) = insert z (set zs - {zs ! i})" if "i < length zs"
    using d(1) that by (rule set_update_distinct)
  show "distinct ys" using d i by (auto simp: ys distinct_list_update)
  show set: "set ys = set xs - {xs ! i}"
  proof (cases "i = length zs")
    case True
    then show ?thesis using d by (auto simp: ys xs)
  next
    case False
    then have l: "i < length zs" using i xs by simp
    then show ?thesis using False s d by (auto simp: ys xs nth_append)
  qed
  show "vec_get ys (if j = length xs - 1 then i else j) = Some x"
    if "x \<in> set ys" "j < length xs" "xs ! j = x"
  proof -
    have "j \<noteq> i" using that set by auto
    then show ?thesis using that i
      by (auto simp: vec_get_def ys xs nth_append)
  qed
qed

lemma rr_unlist_ok:
  assumes "distinct (rr_live_ids s)" "vec_get (rr_live_ids s) pos = Some cid"
    and "\<And>x. x \<in> set (rr_live_ids s) \<Longrightarrow> has_slot (rr_slots s) x"
    and "\<And>x. x \<in> set (rr_live_ids s) \<Longrightarrow>
           vec_get (rr_live_ids s) (sl_live_pos (slot_at (rr_slots s) x)) = Some x"
  obtains s' where "rr_unlist s pos = Some s'"
    "set (rr_live_ids s') = set (rr_live_ids s) - {cid}" "distinct (rr_live_ids s')"
    "length (rr_live_ids s') = length (rr_live_ids s) - 1"
    "length (rr_slots s') = length (rr_slots s)"
    "\<And>x. has_slot (rr_slots s) x \<Longrightarrow> \<exists>p. slot_at (rr_slots s') x = (slot_at (rr_slots s) x)\<lparr>sl_live_pos := p\<rparr>"
    "\<And>x. x \<in> set (rr_live_ids s') \<Longrightarrow>
       vec_get (rr_live_ids s') (sl_live_pos (slot_at (rr_slots s') x)) = Some x"
    "rr_free s' = rr_free s" "rr_queue s' = rr_queue s" "rr_stale s' = rr_stale s"
proof -
  have pos: "pos < length (rr_live_ids s)" "rr_live_ids s ! pos = cid"
    using assms(2) by (simp_all add: vec_get_Some)
  then obtain ids where ids: "swap_remove (rr_live_ids s) pos = Some ids"
    by (auto simp: swap_remove_def)
  note spec = swap_remove_spec [OF ids assms(1)]
  let ?slots = "case vec_get ids pos of None \<Rightarrow> rr_slots s
      | Some moved \<Rightarrow> (case vec_get (rr_slots s) (unat moved) of None \<Rightarrow> rr_slots s
         | Some sl \<Rightarrow> (rr_slots s)[unat moved := sl\<lparr>sl_live_pos := pos\<rparr>])"
  let ?s' = "s\<lparr>rr_live_ids := ids, rr_slots := ?slots\<rparr>"
  have sub: "x \<in> set (rr_live_ids s)" if "x \<in> set ids" for x using that spec(3) by auto
  have at: "slot_at ?slots x = (if vec_get ids pos = Some x
      then (slot_at (rr_slots s) x)\<lparr>sl_live_pos := pos\<rparr> else slot_at (rr_slots s) x)"
    if "has_slot (rr_slots s) x" for x
    using that assms(3) sub by (auto split: option.split simp: vec_get_Some vec_get_None)
  show thesis
  proof
    show "rr_unlist s pos = Some ?s'" by (simp add: rr_unlist_def ids)
    show "\<exists>p. slot_at (rr_slots ?s') x = (slot_at (rr_slots s) x)\<lparr>sl_live_pos := p\<rparr>"
      if "has_slot (rr_slots s) x" for x
      using at [OF that] by (cases "vec_get ids pos = Some x") (auto intro: exI [of _ "sl_live_pos (slot_at (rr_slots s) x)"])
    show "vec_get (rr_live_ids ?s') (sl_live_pos (slot_at (rr_slots ?s') x)) = Some x"
      if "x \<in> set (rr_live_ids ?s')" for x
    proof (cases "vec_get ids pos = Some x")
      case True
      then show ?thesis using at assms(3) sub that by simp
    next
      case False
      have x: "x \<in> set ids" "x \<in> set (rr_live_ids s)" using that sub by simp_all
      let ?j = "sl_live_pos (slot_at (rr_slots s) x)"
      have j: "?j < length (rr_live_ids s)" "rr_live_ids s ! ?j = x"
        using assms(4) [OF x(2)] by (simp_all add: vec_get_Some)
      with spec(5) [OF x(1) j] False show ?thesis
        using at assms(3) x by (auto split: if_splits)
    qed
  qed (auto simp: spec pos split: option.split)
qed

section \<open>The rotation\<close>

text \<open>The generations of one identity in the queue: consecutive, oldest first.\<close>

fun gens :: "u32 \<Rightarrow> nat \<Rightarrow> u32 list" where
  "gens g 0 = []"
| "gens g (Suc k) = (g - word_of_nat k) # gens g k"

definition queued_gens :: "(u32 \<times> u32) list \<Rightarrow> u32 \<Rightarrow> u32 list" where
  "queued_gens q x = map snd (filter (\<lambda>e. fst e = x) q)"

definition rr_rotation :: "'c rr_slot list \<Rightarrow> (u32 \<times> u32) list \<Rightarrow> bool" where
  "rr_rotation slots q \<longleftrightarrow> distinct q \<and>
     (\<forall>x. has_slot slots x \<longrightarrow> (\<exists>k. queued_gens q x = gens (sl_generation (slot_at slots x)) k)) \<and>
     (\<forall>x. rr_live slots x \<longrightarrow> (x, sl_generation (slot_at slots x)) \<in> set q) \<and>
     (\<forall>e \<in> set q. has_slot slots (fst e))"

definition stale_count :: "'c rr_slot list \<Rightarrow> (u32 \<times> u32) list \<Rightarrow> nat" where
  "stale_count slots q = length (filter (\<lambda>e. \<not> rr_valid slots e) q)"

lemma gens_snoc: "gens (g + 1) (Suc k) = gens g k @ [g + 1]"
  by (induction k) simp_all

lemma length_gens [simp]: "length (gens g k) = k"
  by (induction k) simp_all

lemma gens_last: "gens g (Suc k) \<noteq> [] \<and> last (gens g (Suc k)) = g"
  by (induction k) simp_all

lemma set_gens: "set (gens g k) = (\<lambda>i. g - word_of_nat i) ` {..< k}"
  by (induction k) (auto simp: lessThan_Suc)

lemma gens_fresh: "k < 2 ^ 32 \<Longrightarrow> g + 1 \<notin> set (gens g k)"
proof
  assume k: "k < 2 ^ 32" and "g + 1 \<in> set (gens g k)"
  then obtain i where i: "i < k" "g + 1 = g - word_of_nat i" by (auto simp: set_gens)
  from i(2) have "(word_of_nat (Suc i) :: u32) = 0" by (simp add: algebra_simps)
  then have "2 ^ 32 dvd Suc i" unfolding word_of_nat_eq_0_iff by simp
  then have "2 ^ 32 \<le> Suc i" by (rule dvd_imp_le) simp
  with i(1) k show False by simp
qed

lemma queued_gens_simps [simp]:
  "queued_gens [] x = []"
  "queued_gens (e # q) x = (if fst e = x then snd e # queued_gens q x else queued_gens q x)"
  "queued_gens (q @ r) x = queued_gens q x @ queued_gens r x"
  by (simp_all add: queued_gens_def)

lemma in_queued_gens: "g \<in> set (queued_gens q x) \<longleftrightarrow> (x, g) \<in> set q"
  by (force simp: queued_gens_def)

lemma queued_gens_absent: "(\<And>e. e \<in> set q \<Longrightarrow> fst e \<noteq> x) \<Longrightarrow> queued_gens q x = []"
  by (auto simp: queued_gens_def filter_empty_conv)

lemma rr_rotation_cong:
  assumes "same_rotation slots slots'"
  shows "rr_rotation slots' q = rr_rotation slots q" "stale_count slots' q = stale_count slots q"
  using same_rotation_live [OF assms] assms
  by (auto simp: rr_rotation_def same_rotation_def stale_count_def rr_live_def)

lemma rr_rotation_drop:
  assumes "rr_rotation slots (e # q)" "\<not> rr_valid slots e"
  shows "rr_rotation slots q" "stale_count slots (e # q) = Suc (stale_count slots q)"
proof -
  have "\<exists>k. queued_gens q x = gens (sl_generation (slot_at slots x)) k" if h: "has_slot slots x" for x
  proof -
    obtain k where k: "queued_gens (e # q) x = gens (sl_generation (slot_at slots x)) k"
      using assms h unfolding rr_rotation_def by blast
    show ?thesis
    proof (cases "fst e = x")
      case True
      with k show ?thesis by (cases k) auto
    next
      case False
      with k show ?thesis by auto
    qed
  qed
  moreover have "(x, sl_generation (slot_at slots x)) \<in> set q" if "rr_live slots x" for x
  proof -
    have "(x, sl_generation (slot_at slots x)) \<in> set (e # q)"
      using assms that unfolding rr_rotation_def by blast
    with assms(2) that show ?thesis by (auto simp: rr_valid_iff)
  qed
  ultimately show "rr_rotation slots q" using assms(1) by (simp add: rr_rotation_def)
  show "stale_count slots (e # q) = Suc (stale_count slots q)"
    using assms(2) by (simp add: stale_count_def)
qed

text \<open>A valid entry at the front is the only one of its identity.\<close>

lemma rr_rotation_front:
  assumes "rr_rotation slots (e # q)" "rr_valid slots e"
  shows "queued_gens q (fst e) = []"
proof -
  let ?g = "sl_generation (slot_at slots (fst e))"
  have g: "snd e = ?g" "has_slot slots (fst e)"
    using assms(2) by (simp_all add: rr_valid_iff rr_live_def)
  then obtain k where k: "?g # queued_gens q (fst e) = gens ?g k"
    using assms(1) unfolding rr_rotation_def by fastforce
  have "e \<notin> set q" using assms(1) by (simp add: rr_rotation_def)
  then have n: "?g \<notin> set (queued_gens q (fst e))"
    unfolding in_queued_gens using g(1) by (metis prod.collapse)
  show ?thesis
  proof (rule ccontr)
    assume "\<not> ?thesis"
    moreover obtain i where i: "queued_gens q (fst e) = gens ?g i" using k by (cases k) auto
    ultimately obtain j where "queued_gens q (fst e) = gens ?g (Suc j)" by (cases i) auto
    with n gens_last [of ?g j] show False by (metis last_in_set)
  qed
qed

lemma rr_rotation_rotate:
  assumes "rr_rotation slots (e # q)" "rr_valid slots e"
  shows "rr_rotation slots (q @ [e])" "stale_count slots (e # q) = stale_count slots (q @ [e])"
proof -
  have "\<exists>k. queued_gens (q @ [e]) x = gens (sl_generation (slot_at slots x)) k"
    if "has_slot slots x" for x
  proof (cases "fst e = x")
    case True
    then have "queued_gens (q @ [e]) x = gens (sl_generation (slot_at slots x)) (Suc 0)"
      using rr_rotation_front [OF assms] assms(2) by (auto simp: rr_valid_iff)
    then show ?thesis ..
  next
    case False
    have "\<exists>k. queued_gens (e # q) x = gens (sl_generation (slot_at slots x)) k"
      using assms(1) that unfolding rr_rotation_def by blast
    then show ?thesis using False by simp
  qed
  with assms(1) show "rr_rotation slots (q @ [e])" by (auto simp: rr_rotation_def)
  show "stale_count slots (e # q) = stale_count slots (q @ [e])" by (simp add: stale_count_def)
qed

lemma filter_eq_distinct:
  "distinct xs \<Longrightarrow> x \<in> set xs \<Longrightarrow> filter (\<lambda>y. y = x) xs = [x]"
  by (induction xs) (auto simp: filter_empty_conv)

lemma rr_rotation_purge:
  assumes "rr_rotation slots q"
  shows "rr_rotation slots (filter (rr_valid slots) q)"
    "stale_count slots (filter (rr_valid slots) q) = 0"
proof -
  have "\<exists>k. queued_gens (filter (rr_valid slots) q) x = gens (sl_generation (slot_at slots x)) k"
    if "has_slot slots x" for x
  proof (cases "rr_live slots x")
    case False
    then have "queued_gens (filter (rr_valid slots) q) x = []"
      by (intro queued_gens_absent) (auto simp: rr_valid_iff)
    then have "queued_gens (filter (rr_valid slots) q) x = gens (sl_generation (slot_at slots x)) 0"
      by simp
    then show ?thesis ..
  next
    case True
    let ?e = "(x, sl_generation (slot_at slots x))"
    have "filter (\<lambda>e. fst e = x) (filter (rr_valid slots) q) = filter (\<lambda>e. e = ?e) q"
      using True by (auto simp: rr_valid_iff intro!: filter_cong)
    also have "\<dots> = [?e]"
      using assms True by (simp add: rr_rotation_def filter_eq_distinct)
    finally have "queued_gens (filter (rr_valid slots) q) x = gens (sl_generation (slot_at slots x)) (Suc 0)"
      by (simp add: queued_gens_def)
    then show ?thesis ..
  qed
  with assms show "rr_rotation slots (filter (rr_valid slots) q)"
    by (auto simp: rr_rotation_def rr_valid_iff)
  show "stale_count slots (filter (rr_valid slots) q) = 0" by (simp add: stale_count_def)
qed

lemma length_filter_mono:
  "(\<And>x. x \<in> set xs \<Longrightarrow> P x \<Longrightarrow> Q x) \<Longrightarrow> length (filter P xs) \<le> length (filter Q xs)"
  by (induction xs) (auto simp: le_SucI)

lemma length_filter_insert:
  "distinct xs \<Longrightarrow> a \<in> set xs \<Longrightarrow> \<not> P a \<Longrightarrow>
   length (filter (\<lambda>x. P x \<or> x = a) xs) = Suc (length (filter P xs))"
proof (induction xs)
  case (Cons x xs)
  show ?case
  proof (cases "x = a")
    case True
    with Cons.prems have "filter (\<lambda>x. P x \<or> x = a) xs = filter P xs"
      by (auto intro: filter_cong)
    with True Cons.prems show ?thesis by simp
  next
    case False
    with Cons show ?thesis by auto
  qed
qed simp

lemma rr_rotation_reuse:
  assumes rot: "rr_rotation slots q" and id: "has_slot slots cid" "\<not> rr_live slots cid"
    and bound: "stale_count slots q < 2 ^ 32"
    and sl: "sl_generation sl = sl_generation (slot_at slots cid) + 1" "is_Live (sl_entry sl)"
  shows "rr_rotation (slots[unat cid := sl]) (q @ [(cid, sl_generation sl)])"
    "stale_count (slots[unat cid := sl]) (q @ [(cid, sl_generation sl)]) = stale_count slots q"
proof -
  let ?slots = "slots[unat cid := sl]"
  obtain k where k: "queued_gens q cid = gens (sl_generation (slot_at slots cid)) k"
    using rot id(1) unfolding rr_rotation_def by blast
  have "length (queued_gens q cid) \<le> stale_count slots q"
    unfolding queued_gens_def stale_count_def length_map
    by (rule length_filter_mono) (use id(2) in \<open>simp add: rr_valid_iff\<close>)
  then have "k < 2 ^ 32" using bound k by simp
  then have new: "(cid, sl_generation sl) \<notin> set q"
    using gens_fresh [of k "sl_generation (slot_at slots cid)"] k sl(1)
    by (simp add: in_queued_gens [symmetric])
  have live: "rr_live ?slots x \<longleftrightarrow> x = cid \<or> rr_live slots x" for x
    using id(1) sl(2) by (auto simp: rr_live_def)
  have "\<exists>j. queued_gens (q @ [(cid, sl_generation sl)]) x = gens (sl_generation (slot_at ?slots x)) j"
    if "has_slot slots x" for x
  proof (cases "x = cid")
    case True
    then have "queued_gens (q @ [(cid, sl_generation sl)]) x = gens (sl_generation (slot_at ?slots x)) (Suc k)"
      using k sl(1) id(1) gens_snoc by simp
    then show ?thesis ..
  next
    case False
    then show ?thesis using rot that id(1) by (auto simp: rr_rotation_def)
  qed
  with rot new live id(1) show "rr_rotation ?slots (q @ [(cid, sl_generation sl)])"
    by (auto simp: rr_rotation_def)
  have "rr_valid ?slots e = rr_valid slots e" if "e \<in> set q" for e
    using that new id sl(1) live by (cases e) (auto simp: rr_valid_iff)
  then have "filter (\<lambda>e. \<not> rr_valid ?slots e) q = filter (\<lambda>e. \<not> rr_valid slots e) q"
    by (auto intro: filter_cong)
  then show "stale_count ?slots (q @ [(cid, sl_generation sl)]) = stale_count slots q"
    using live id(1) by (simp add: stale_count_def rr_valid_iff)
qed

lemma has_slot_append:
  assumes "length slots \<le> u32_max" "cid = word_of_nat (length slots)"
  shows "has_slot (slots @ [sl]) x \<longleftrightarrow> has_slot slots x \<or> x = cid"
    "slot_at (slots @ [sl]) cid = sl" "\<not> has_slot slots cid"
    "has_slot slots x \<Longrightarrow> slot_at (slots @ [sl]) x = slot_at slots x"
proof -
  have u: "unat cid = length slots"
    using assms by (simp add: unsigned_of_nat take_bit_nat_eq_self u32_max_def)
  show "has_slot (slots @ [sl]) x \<longleftrightarrow> has_slot slots x \<or> x = cid"
    using u by (auto simp: has_slot_def word_unat_eq_iff)
  show "slot_at (slots @ [sl]) cid = sl" "\<not> has_slot slots cid"
    using u by (simp_all add: slot_at_def has_slot_def)
  show "has_slot slots x \<Longrightarrow> slot_at (slots @ [sl]) x = slot_at slots x"
    by (simp add: slot_at_def has_slot_def nth_append)
qed

lemma rr_rotation_fresh:
  assumes rot: "rr_rotation slots q" and len: "length slots \<le> u32_max"
    and cid: "cid = word_of_nat (length slots)"
    and sl: "is_Live (sl_entry sl)"
  shows "rr_rotation (slots @ [sl]) (q @ [(cid, sl_generation sl)])"
    "stale_count (slots @ [sl]) (q @ [(cid, sl_generation sl)]) = stale_count slots q"
proof -
  let ?slots = "slots @ [sl]"
  note at = has_slot_append [OF len cid]
  have none: "queued_gens q cid = []" "(cid, sl_generation sl) \<notin> set q"
    using rot at(3) by (auto simp: rr_rotation_def intro: queued_gens_absent)
  have live: "rr_live ?slots x \<longleftrightarrow> x = cid \<or> rr_live slots x" for x
    using at sl by (auto simp: rr_live_def)
  have "\<exists>j. queued_gens (q @ [(cid, sl_generation sl)]) x = gens (sl_generation (slot_at ?slots x)) j"
    if "has_slot ?slots x" for x
  proof (cases "x = cid")
    case True
    then have "queued_gens (q @ [(cid, sl_generation sl)]) x = gens (sl_generation (slot_at ?slots x)) (Suc 0)"
      using none at by simp
    then show ?thesis ..
  next
    case False
    then show ?thesis using rot that at by (auto simp: rr_rotation_def)
  qed
  with rot none live at show "rr_rotation ?slots (q @ [(cid, sl_generation sl)])"
    by (auto simp: rr_rotation_def rr_live_def)
  have "rr_valid ?slots e = rr_valid slots e" if "e \<in> set q" for e
    using that rot at live by (auto simp: rr_valid_iff rr_rotation_def)
  then have "filter (\<lambda>e. \<not> rr_valid ?slots e) q = filter (\<lambda>e. \<not> rr_valid slots e) q"
    by (auto intro: filter_cong)
  then show "stale_count ?slots (q @ [(cid, sl_generation sl)]) = stale_count slots q"
    using live at by (simp add: stale_count_def rr_valid_iff)
qed

lemma rr_rotation_retire:
  assumes rot: "rr_rotation slots q" and id: "rr_live slots cid"
    and len: "length slots' = length slots"
    and gen: "\<And>x. has_slot slots x \<Longrightarrow> sl_generation (slot_at slots' x) = sl_generation (slot_at slots x)"
    and live: "\<And>x. rr_live slots' x \<longleftrightarrow> rr_live slots x \<and> x \<noteq> cid"
  shows "rr_rotation slots' q" "stale_count slots' q = Suc (stale_count slots q)"
proof -
  have has: "has_slot slots' x = has_slot slots x" for x using len by (simp add: has_slot_def)
  have g: "rr_live slots x \<Longrightarrow> sl_generation (slot_at slots' x) = sl_generation (slot_at slots x)" for x
    using gen by (simp add: rr_live_def)
  show "rr_rotation slots' q" using rot has gen live g by (auto simp: rr_rotation_def)
  let ?e = "(cid, sl_generation (slot_at slots cid))"
  have "filter (\<lambda>e. \<not> rr_valid slots' e) q = filter (\<lambda>e. \<not> rr_valid slots e \<or> e = ?e) q"
    by (rule filter_cong) (use live g id in \<open>auto simp: rr_valid_iff\<close>)
  moreover have "length (filter (\<lambda>e. \<not> rr_valid slots e \<or> e = ?e) q) = Suc (stale_count slots q)"
    unfolding stale_count_def
    by (rule length_filter_insert) (use rot id in \<open>auto simp: rr_rotation_def rr_valid_iff\<close>)
  ultimately show "stale_count slots' q = Suc (stale_count slots q)" by (simp add: stale_count_def)
qed

section \<open>Membership\<close>

definition rr_wf :: "'c round_robin \<Rightarrow> bool" where
  "rr_wf s \<longleftrightarrow> rr_slab s \<and> rr_rotation (rr_slots s) (rr_queue s) \<and>
     rr_stale s = stale_count (rr_slots s) (rr_queue s) \<and>
     rr_stale s \<le> length (rr_live_ids s) \<and> rr_stale s < 2 ^ 32"

lemma rr_wf_new: "rr_wf round_robin_new"
  by (simp add: rr_wf_def round_robin_new_def rr_slab_def rr_rotation_def stale_count_def
      has_slot_def rr_live_def)

lemma rr_wf_cong:
  assumes "rr_wf s" "same_rotation (rr_slots s) slots"
  shows "rr_wf (s\<lparr>rr_slots := slots\<rparr>)"
  using assms rr_slab_cong [OF _ assms(2)] by (simp add: rr_wf_def rr_rotation_cong [OF assms(2)])

lemma rr_add_child_cases:
  assumes "rr_add_child s child = Some (cid, s')"
  obtains (reuse) free sl where "rr_free s = free @ [cid]" "has_slot (rr_slots s) cid"
      "sl = \<lparr>sl_entry = Live child, sl_generation = sl_generation (slot_at (rr_slots s) cid) + 1,
             sl_in_flight = 0, sl_live_pos = length (rr_live_ids s)\<rparr>"
      "s' = s\<lparr>rr_free := free, rr_slots := (rr_slots s)[unat cid := sl],
             rr_live_ids := rr_live_ids s @ [cid], rr_queue := rr_queue s @ [(cid, sl_generation sl)]\<rparr>"
  | (fresh) sl where "rr_free s = []" "length (rr_slots s) \<le> u32_max"
      "cid = word_of_nat (length (rr_slots s))"
      "sl = \<lparr>sl_entry = Live child, sl_generation = 0, sl_in_flight = 0,
             sl_live_pos = length (rr_live_ids s)\<rparr>"
      "s' = s\<lparr>rr_slots := rr_slots s @ [sl],
             rr_live_ids := rr_live_ids s @ [cid], rr_queue := rr_queue s @ [(cid, sl_generation sl)]\<rparr>"
proof (cases "rr_free s" rule: rev_cases)
  case Nil
  with assms show ?thesis
    by (intro fresh) (auto simp: rr_add_child_def vec_pop_def Let_def split: if_splits)
next
  case (snoc free x)
  with assms show ?thesis
    by (intro reuse [of free]) (auto simp: rr_add_child_def vec_pop_def Let_def split: if_splits)
qed

lemma rr_add_child_wf:
  assumes wf: "rr_wf s" and add: "rr_add_child s child = Some (cid, s')"
  shows "rr_wf s'" "\<not> has_slot (rr_slots s) cid \<or> is_Free (sl_entry (slot_at (rr_slots s) cid))"
    "has_slot (rr_slots s') x \<longleftrightarrow> has_slot (rr_slots s) x \<or> x = cid"
    "x \<noteq> cid \<Longrightarrow> has_slot (rr_slots s) x \<Longrightarrow> slot_at (rr_slots s') x = slot_at (rr_slots s) x"
    "sl_entry (slot_at (rr_slots s') cid) = Live child" "sl_in_flight (slot_at (rr_slots s') cid) = 0"
proof -
  have old: "rr_slab s" "rr_rotation (rr_slots s) (rr_queue s)"
    "stale_count (rr_slots s) (rr_queue s) < 2 ^ 32"
    using wf by (simp_all add: rr_wf_def)
  have pos: "vec_get (ids @ [y]) p = Some x" if "vec_get ids p = Some x" for ids and x y :: u32 and p
    using that by (auto simp: vec_get_def nth_append split: if_splits)
  have last: "vec_get (ids @ [y]) (length ids) = Some y" for ids and y :: u32
    by (simp add: vec_get_def)
  have "rr_wf s' \<and> (\<not> has_slot (rr_slots s) cid \<or> is_Free (sl_entry (slot_at (rr_slots s) cid))) \<and>
    (\<forall>x. has_slot (rr_slots s') x \<longleftrightarrow> has_slot (rr_slots s) x \<or> x = cid) \<and>
    (\<forall>x. x \<noteq> cid \<longrightarrow> has_slot (rr_slots s) x \<longrightarrow> slot_at (rr_slots s') x = slot_at (rr_slots s) x) \<and>
    sl_entry (slot_at (rr_slots s') cid) = Live child \<and> sl_in_flight (slot_at (rr_slots s') cid) = 0"
    using add
  proof (cases rule: rr_add_child_cases)
    case (reuse free sl)
    have cid: "is_Free (sl_entry (slot_at (rr_slots s) cid))" "cid \<notin> set free" "distinct free"
      using old(1) reuse(1,2) by (auto simp: rr_slab_def)
    then have nl: "\<not> rr_live (rr_slots s) cid" by (simp add: rr_live_def is_Free_iff)
    have slab: "rr_slab s'"
      using old(1) reuse cid nl
      by (auto simp: rr_slab_def rr_live_def pos last is_Free_iff split: if_splits)
    have live: "is_Live (sl_entry sl)" "sl_generation sl = sl_generation (slot_at (rr_slots s) cid) + 1"
      by (simp_all add: reuse(3))
    note rot = rr_rotation_reuse [OF old(2) reuse(2) nl old(3) live(2,1)]
    have "rr_wf s'" using slab rot wf by (simp add: rr_wf_def reuse(4))
    with cid reuse show ?thesis by auto
  next
    case (fresh sl)
    note at = has_slot_append [OF fresh(2,3)]
    have slab: "rr_slab s'"
      using old(1) fresh(1,2,4,5) at
      by (auto simp: rr_slab_def rr_live_def pos last u32_max_def split: if_splits)
    have live: "is_Live (sl_entry sl)" by (simp add: fresh(4))
    note rot = rr_rotation_fresh [OF old(2) fresh(2,3) live]
    have "rr_wf s'" using slab rot wf by (simp add: rr_wf_def fresh(5))
    with at fresh show ?thesis by auto
  qed
  then show "rr_wf s'" "\<not> has_slot (rr_slots s) cid \<or> is_Free (sl_entry (slot_at (rr_slots s) cid))"
    "has_slot (rr_slots s') x \<longleftrightarrow> has_slot (rr_slots s) x \<or> x = cid"
    "x \<noteq> cid \<Longrightarrow> has_slot (rr_slots s) x \<Longrightarrow> slot_at (rr_slots s') x = slot_at (rr_slots s) x"
    "sl_entry (slot_at (rr_slots s') cid) = Live child" "sl_in_flight (slot_at (rr_slots s') cid) = 0"
    by blast+
qed

lemma rr_add_child_returns:
  assumes "rr_wf s" "length (rr_slots s) \<le> u32_max"
  shows "rr_add_child s child \<noteq> None"
proof (cases "rr_free s" rule: rev_cases)
  case Nil
  with assms show ?thesis by (simp add: rr_add_child_def vec_pop_def Let_def)
next
  case (snoc free x)
  with assms(1) have "has_slot (rr_slots s) x" by (auto simp: rr_wf_def rr_slab_def)
  with snoc show ?thesis by (simp add: rr_add_child_def vec_pop_def Let_def)
qed

lemma rr_purge_wf:
  assumes slab: "rr_slab s" and rot: "rr_rotation (rr_slots s) (rr_queue s)"
    and count: "stale_count (rr_slots s) (rr_queue s) = Suc (rr_stale s)"
    and bound: "length (rr_live_ids s) < 2 ^ 32"
  shows "rr_wf (rr_purge s)"
proof -
  have s: "rr_slab (s\<lparr>rr_stale := n, rr_queue := q\<rparr>)" "rr_slab (s\<lparr>rr_stale := n\<rparr>)" for n q
    using slab by (simp_all add: rr_slab_def)
  show ?thesis
  proof (cases "length (rr_live_ids s) < Suc (rr_stale s)")
    case True
    then show ?thesis
      using slab rr_rotation_purge [OF rot] by (simp add: rr_purge_def rr_wf_def Let_def rr_slab_def)
  next
    case False
    then show ?thesis using s(2) rot count bound by (simp add: rr_purge_def rr_wf_def Let_def)
  qed
qed

lemma rr_remove_child_absent:
  "\<not> rr_live (rr_slots s) cid \<Longrightarrow> rr_remove_child s cid = Some (None, s)"
  by (auto simp: rr_remove_child_def rr_live_def split: rr_entry.split)

lemma rr_purge_frame [simp]:
  "rr_slots (rr_purge s) = rr_slots s" "rr_live_ids (rr_purge s) = rr_live_ids s"
  "rr_free (rr_purge s) = rr_free s"
  by (simp_all add: rr_purge_def Let_def)

lemma rr_live_ids_bound:
  assumes "rr_slab s"
  shows "length (rr_live_ids s) \<le> 2 ^ 32"
proof -
  have "card (set (rr_live_ids s)) \<le> card (UNIV :: u32 set)"
    by (rule card_mono) simp_all
  then show ?thesis using assms by (simp add: rr_slab_def distinct_card card_word)
qed

lemma rr_remove_child_live:
  assumes wf: "rr_wf s" and live: "sl_entry (slot_at (rr_slots s) cid) = Live c" "has_slot (rr_slots s) cid"
  defines "busy \<equiv> 0 < sl_in_flight (slot_at (rr_slots s) cid)"
  obtains s' where
    "rr_remove_child s cid = Some (Some (if busy then StillDraining else Detached c), s')" "rr_wf s'"
    "length (rr_slots s') = length (rr_slots s)"
    "\<And>x. has_slot (rr_slots s) x \<Longrightarrow>
       sl_entry (slot_at (rr_slots s') x) = (if x = cid then if busy then Draining c else Free
         else sl_entry (slot_at (rr_slots s) x)) \<and>
       sl_in_flight (slot_at (rr_slots s') x) = sl_in_flight (slot_at (rr_slots s) x)"
proof -
  let ?sl = "slot_at (rr_slots s) cid"
  let ?e = "if busy then Draining c else Free"
  let ?s1 = "s\<lparr>rr_slots := (rr_slots s)[unat cid := ?sl\<lparr>sl_entry := ?e\<rparr>],
     rr_free := if busy then rr_free s else rr_free s @ [cid]\<rparr>"
  have slab: "rr_slab s" using wf by (simp add: rr_wf_def)
  have id: "rr_live (rr_slots s) cid" using live by (simp add: rr_live_def)
  have "cid \<in> set (rr_live_ids s)" using slab id by (simp add: rr_slab_def)
  then have pos: "vec_get (rr_live_ids ?s1) (sl_live_pos ?sl) = Some cid"
    using slab unfolding rr_slab_def by simp
  obtain s2 where s2: "rr_unlist ?s1 (sl_live_pos ?sl) = Some s2"
    "set (rr_live_ids s2) = set (rr_live_ids s) - {cid}" "distinct (rr_live_ids s2)"
    "length (rr_live_ids s2) = length (rr_live_ids s) - 1"
    "length (rr_slots s2) = length (rr_slots s)"
    "\<And>x. has_slot (rr_slots s) x \<Longrightarrow> \<exists>p. slot_at (rr_slots s2) x = (slot_at (rr_slots ?s1) x)\<lparr>sl_live_pos := p\<rparr>"
    "\<And>x. x \<in> set (rr_live_ids s2) \<Longrightarrow>
       vec_get (rr_live_ids s2) (sl_live_pos (slot_at (rr_slots s2) x)) = Some x"
    "rr_free s2 = rr_free ?s1" "rr_queue s2 = rr_queue s" "rr_stale s2 = rr_stale s"
    by (rule rr_unlist_ok [of ?s1 "sl_live_pos ?sl" cid])
      (use slab pos live in \<open>auto simp: rr_slab_def rr_live_def\<close>)
  have at: "sl_entry (slot_at (rr_slots s2) x) = (if x = cid then ?e else sl_entry (slot_at (rr_slots s) x))"
    "sl_generation (slot_at (rr_slots s2) x) = sl_generation (slot_at (rr_slots s) x)"
    "sl_in_flight (slot_at (rr_slots s2) x) = sl_in_flight (slot_at (rr_slots s) x)"
    if "has_slot (rr_slots s) x" for x
    using s2(6) [OF that] live(2) by (auto split: if_splits)
  have has: "has_slot (rr_slots s2) x = has_slot (rr_slots s) x" for x
    using s2(5) by (simp add: has_slot_def)
  have live2: "rr_live (rr_slots s2) x \<longleftrightarrow> rr_live (rr_slots s) x \<and> x \<noteq> cid" for x
    using at by (auto simp: rr_live_def has split: if_splits)
  have slab2: "rr_slab s2"
    using slab s2(2,3,5,7,8) at has live2 live
    by (auto simp: rr_slab_def is_Free_iff split: if_splits)
  note rot = rr_rotation_retire [OF _ id s2(5) at(2) live2]
  have "rr_wf (rr_purge s2)"
  proof (rule rr_purge_wf)
    show "length (rr_live_ids s2) < 2 ^ 32"
      using rr_live_ids_bound [OF slab] s2(4) by simp
  qed (use slab2 rot wf s2(9,10) in \<open>auto simp: rr_wf_def\<close>)
  moreover have "rr_remove_child s cid = Some (Some (if busy then StillDraining else Detached c), rr_purge s2)"
    using s2(1) live by (auto simp: rr_remove_child_def busy_def split: if_splits)
  ultimately show thesis using at s2(5) by (intro that [of "rr_purge s2"]) simp_all
qed

section \<open>One scan of the rotation\<close>

text \<open>What the live child of an entry answers to \<open>take_next\<close>.\<close>

definition rr_answers ::
  "('c, 't, 'm) scheduler_ops \<Rightarrow> 'c rr_slot list \<Rightarrow> u32 \<times> u32 \<Rightarrow> ('t, 'm) scheduled_work option \<Rightarrow> bool" where
  "rr_answers inner slots e w \<longleftrightarrow>
     (\<exists>c c'. sl_entry (slot_at slots (fst e)) = Live c \<and> sched_take_next inner c = Some (w, c'))"

text \<open>
  A scan of the entries \<open>todo\<close> at the front of the queue: the valid ones are asked in order
  until one has work; stale ones drop out, and the ones asked go to the back.
\<close>

definition rr_scanned ::
  "('c, 't, 'm) scheduler_ops \<Rightarrow> 'c rr_slot list \<Rightarrow> (u32 \<times> u32) list \<Rightarrow> (u32 \<times> u32) list \<Rightarrow>
   ('t, 'm) scheduled_work option \<Rightarrow> (u32 \<times> u32) list \<Rightarrow> bool" where
  "rr_scanned inner slots todo rest w q \<longleftrightarrow>
     (case w of
        None \<Rightarrow> (\<forall>e \<in> set todo. rr_valid slots e \<longrightarrow> rr_answers inner slots e None) \<and>
          q = rest @ filter (rr_valid slots) todo
      | Some x \<Rightarrow> (\<exists>pre e post y. todo = pre @ e # post \<and> rr_valid slots e \<and>
          (\<forall>e \<in> set pre. rr_valid slots e \<longrightarrow> rr_answers inner slots e None) \<and>
          rr_answers inner slots e (Some y) \<and> x = y\<lparr>sw_routing := rp_push (fst e) (sw_routing y)\<rparr> \<and>
          q = post @ rest @ filter (rr_valid slots) pre @ [e]))"

lemma rr_scanned_skip:
  assumes "rr_scanned inner slots todo rest w q" "\<not> rr_valid slots e"
  shows "rr_scanned inner slots (e # todo) rest w q"
proof (cases w)
  case None
  with assms show ?thesis by (auto simp: rr_scanned_def)
next
  case (Some x)
  then obtain pre d post y where *: "todo = pre @ d # post" "rr_valid slots d"
    "\<forall>e \<in> set pre. rr_valid slots e \<longrightarrow> rr_answers inner slots e None"
    "rr_answers inner slots d (Some y)" "x = y\<lparr>sw_routing := rp_push (fst d) (sw_routing y)\<rparr>"
    "q = post @ rest @ filter (rr_valid slots) pre @ [d]"
    using assms(1) by (auto simp: rr_scanned_def)
  show ?thesis unfolding rr_scanned_def Some option.case
    by (rule exI [of _ "e # pre"], rule exI [of _ d], rule exI [of _ post], rule exI [of _ y])
      (use * assms(2) in auto)
qed

lemma rr_scanned_asked:
  assumes "rr_scanned inner slots' todo (rest @ [e]) w q" "rr_valid slots e"
    and "rr_answers inner slots e None"
    and same: "rr_valid slots' = rr_valid slots"
      "\<And>d v. d \<in> set todo \<Longrightarrow> rr_valid slots d \<Longrightarrow> rr_answers inner slots' d v = rr_answers inner slots d v"
  shows "rr_scanned inner slots (e # todo) rest w q"
proof (cases w)
  case None
  with assms show ?thesis by (auto simp: rr_scanned_def)
next
  case (Some x)
  then obtain pre d post y where *: "todo = pre @ d # post" "rr_valid slots d"
    "\<forall>e \<in> set pre. rr_valid slots e \<longrightarrow> rr_answers inner slots' e None"
    "rr_answers inner slots' d (Some y)" "x = y\<lparr>sw_routing := rp_push (fst d) (sw_routing y)\<rparr>"
    "q = post @ rest @ e # filter (rr_valid slots) pre @ [d]"
    using assms(1) by (auto simp: rr_scanned_def same(1))
  show ?thesis unfolding rr_scanned_def Some option.case
    by (rule exI [of _ "e # pre"], rule exI [of _ d], rule exI [of _ post], rule exI [of _ y])
      (use * assms(2,3) same(2) in auto)
qed

lemma rr_scan_step:
  assumes "rr_queue s = e # q"
  shows "\<not> rr_valid (rr_slots s) e \<Longrightarrow>
      rr_scan inner (Suc n) s = rr_scan inner n (s\<lparr>rr_queue := q, rr_stale := rr_stale s - 1\<rparr>)"
    "rr_valid (rr_slots s) e \<Longrightarrow> sl_entry (slot_at (rr_slots s) (fst e)) = Live c \<Longrightarrow>
      rr_scan inner (Suc n) s = do {
        (w, c') \<leftarrow> sched_take_next inner c;
        let sl = (slot_at (rr_slots s) (fst e))\<lparr>sl_entry := Live c'\<rparr>;
        case w of
          Some x \<Rightarrow> Some (Some (x\<lparr>sw_routing := rp_push (fst e) (sw_routing x)\<rparr>),
            s\<lparr>rr_queue := q @ [e], rr_slots := (rr_slots s)[unat (fst e) :=
               sl\<lparr>sl_in_flight := saturating_add (sl_in_flight sl) 1\<rparr>]\<rparr>)
        | None \<Rightarrow> rr_scan inner n
            (s\<lparr>rr_queue := q @ [e], rr_slots := (rr_slots s)[unat (fst e) := sl]\<rparr>)
      }"
proof -
  show "rr_scan inner (Suc n) s = rr_scan inner n (s\<lparr>rr_queue := q, rr_stale := rr_stale s - 1\<rparr>)"
    if "\<not> rr_valid (rr_slots s) e"
    using that assms by (cases e) (auto simp: rr_valid_iff rr_live_def Let_def split: rr_entry.split)
qed (use assms in \<open>cases e; simp add: rr_valid_iff rr_live_def Let_def cong: option.case_cong\<close>)

declare rr_scan.simps(2) [simp del]

lemma rr_wf_drop:
  assumes "rr_wf s" "rr_queue s = e # q" "\<not> rr_valid (rr_slots s) e"
  shows "rr_wf (s\<lparr>rr_queue := q, rr_stale := rr_stale s - 1\<rparr>)"
proof -
  have "rr_rotation (rr_slots s) (e # q)" using assms by (simp add: rr_wf_def)
  from rr_rotation_drop [OF this assms(3)] assms(1,2) show ?thesis
    by (auto simp: rr_wf_def rr_slab_def)
qed

lemma rr_wf_rotate:
  assumes "rr_wf s" "rr_queue s = e # q" "rr_valid (rr_slots s) e"
    and "same_rotation (rr_slots s) slots"
  shows "rr_wf (s\<lparr>rr_queue := q @ [e], rr_slots := slots\<rparr>)"
proof -
  have "rr_rotation (rr_slots s) (e # q)" using assms by (simp add: rr_wf_def)
  from rr_rotation_rotate [OF this assms(3)] assms(1,2)
  have "rr_wf (s\<lparr>rr_queue := q @ [e]\<rparr>)" by (auto simp: rr_wf_def rr_slab_def)
  then have "rr_wf (s\<lparr>rr_queue := q @ [e]\<rparr>\<lparr>rr_slots := slots\<rparr>)"
    by (rule rr_wf_cong) (simp add: assms(4))
  then show ?thesis by simp
qed

lemma rr_valid_entry:
  assumes "rr_valid slots e"
  obtains c where "has_slot slots (fst e)" "sl_entry (slot_at slots (fst e)) = Live c"
  using assms that by (auto simp: rr_valid_iff rr_live_def is_Live_def)

lemma rr_scan_wf:
  assumes "rr_wf s" "rr_queue s = todo @ rest" "length todo = n" "rr_scan inner n s = Some (w, s')"
  shows "rr_wf s' \<and> rr_scanned inner (rr_slots s) todo rest w (rr_queue s') \<and>
    rr_live_ids s' = rr_live_ids s \<and> same_rotation (rr_slots s) (rr_slots s')"
  using assms
proof (induction n arbitrary: s todo rest)
  case 0
  then show ?case by (simp add: rr_scanned_def)
next
  case (Suc n)
  obtain e todo' where todo: "todo = e # todo'" "length todo' = n"
    using Suc.prems(3) by (auto simp: length_Suc_conv)
  have q: "rr_queue s = e # (todo' @ rest)" using Suc.prems(2) todo by simp
  show ?case
  proof (cases "rr_valid (rr_slots s) e")
    case False
    from Suc.IH [OF rr_wf_drop [OF Suc.prems(1) q False], of todo' rest] Suc.prems(4) todo(2)
    show ?thesis
      by (auto simp: todo(1) rr_scan_step(1) [OF q False] intro: rr_scanned_skip [OF _ False])
  next
    case True
    obtain c where c: "has_slot (rr_slots s) (fst e)" "sl_entry (slot_at (rr_slots s) (fst e)) = Live c"
      using True by (rule rr_valid_entry)
    note step = Suc.prems(4) [unfolded rr_scan_step(2) [OF q True c(2)]]
    obtain v c' where v: "sched_take_next inner c = Some (v, c')"
      using step by (auto split: Option.bind_splits)
    let ?sl = "(slot_at (rr_slots s) (fst e))\<lparr>sl_entry := Live c'\<rparr>"
    show ?thesis
    proof (cases v)
      case (Some x)
      let ?slots = "(rr_slots s)[unat (fst e) := ?sl\<lparr>sl_in_flight := saturating_add (sl_in_flight ?sl) 1\<rparr>]"
      have same: "same_rotation (rr_slots s) ?slots" using c by auto
      have s': "w = Some (x\<lparr>sw_routing := rp_push (fst e) (sw_routing x)\<rparr>)"
        "s' = s\<lparr>rr_queue := (todo' @ rest) @ [e], rr_slots := ?slots\<rparr>"
        using step v Some by auto
      have "rr_scanned inner (rr_slots s) todo rest w (todo' @ rest @ [e])"
        unfolding rr_scanned_def s'(1) option.case todo(1)
        by (rule exI [of _ "[]"], rule exI [of _ e], rule exI [of _ todo'], rule exI [of _ x])
          (use True v Some c in \<open>auto simp: rr_answers_def\<close>)
      then show ?thesis using rr_wf_rotate [OF Suc.prems(1) q True same] same by (simp add: s'(2))
    next
      case None
      let ?slots = "(rr_slots s)[unat (fst e) := ?sl]"
      let ?s = "s\<lparr>rr_queue := todo' @ rest @ [e], rr_slots := ?slots\<rparr>"
      have same: "same_rotation (rr_slots s) ?slots" using c by auto
      have wf: "rr_wf ?s" using rr_wf_rotate [OF Suc.prems(1) q True same] by simp
      have run: "rr_scan inner n ?s = Some (w, s')" using step v None by simp
      have "queued_gens (todo' @ rest) (fst e) = []"
        using rr_rotation_front [OF _ True, of "todo' @ rest"] Suc.prems(1) q by (simp add: rr_wf_def)
      then have other: "fst d \<noteq> fst e" if "d \<in> set todo'" for d
        using that by (auto simp: queued_gens_def filter_empty_conv)
      have "rr_scanned inner (rr_slots s) (e # todo') rest w (rr_queue s')"
        by (rule rr_scanned_asked [of inner ?slots])
          (use Suc.IH [OF wf _ todo(2) run, of "rest @ [e]"] True v None c other
            ext [OF same_rotation_live(3) [OF same]] in \<open>auto simp: rr_answers_def\<close>)
      then show ?thesis
        using Suc.IH [OF wf _ todo(2) run, of "rest @ [e]"] same by (auto simp: todo(1) intro: same_rotation_trans)
    qed
  qed
qed

section \<open>Paths by child\<close>

text \<open>The paths outstanding below child \<open>x\<close>: those whose last tag is \<open>x\<close>, without it.\<close>

definition rp_sub :: "u32 \<Rightarrow> routing_path multiset \<Rightarrow> routing_path multiset" where
  "rp_sub x paths = image_mset butlast (filter_mset (\<lambda>p. p \<noteq> [] \<and> last p = x) paths)"

lemma rp_sub_simps [simp]:
  "rp_sub x {#} = {#}"
  "rp_sub x (add_mset (rp_push y p) paths) =
     (if x = y then add_mset p (rp_sub x paths) else rp_sub x paths)"
  by (auto simp: rp_sub_def rp_push_def)

lemma size_rp_sub: "size (rp_sub x paths) \<le> size paths"
  by (simp add: rp_sub_def size_filter_mset_lesseq)

lemma rp_sub_mem: "rp_push x p \<in># paths \<Longrightarrow> p \<in># rp_sub x paths"
  by (auto dest!: multi_member_split)

lemma rp_sub_diff:
  "rp_push y p \<in># paths \<Longrightarrow>
   rp_sub x (paths - {#rp_push y p#}) = (if x = y then rp_sub x paths - {#p#} else rp_sub x paths)"
  by (auto dest!: multi_member_split)

lemma rp_path_cases:
  assumes "p \<noteq> []"
  obtains q where "p = rp_push (last p) q"
  using assms that [of "butlast p"] by (simp add: rp_push_def)

lemma rp_push_last [simp]: "last (rp_push x p) = x" "rp_push x p \<noteq> []"
  by (simp_all add: rp_push_def)

section \<open>The contract\<close>

definition slot_ok ::
  "('c \<Rightarrow> routing_path multiset \<Rightarrow> bool) \<Rightarrow> 'c rr_slot \<Rightarrow> routing_path multiset \<Rightarrow> bool" where
  "slot_ok cinvar sl paths \<longleftrightarrow> unat (sl_in_flight sl) = size paths \<and>
     (case sl_entry sl of
        Live c \<Rightarrow> cinvar c paths
      | Draining c \<Rightarrow> cinvar c paths \<and> paths \<noteq> {#}
      | Free \<Rightarrow> paths = {#})"

definition rr_invar ::
  "('c \<Rightarrow> routing_path multiset \<Rightarrow> bool) \<Rightarrow> 'c round_robin \<Rightarrow> routing_path multiset \<Rightarrow> bool" where
  "rr_invar cinvar s paths \<longleftrightarrow> rr_wf s \<and>
     (\<forall>p \<in># paths. p \<noteq> [] \<and> has_slot (rr_slots s) (last p)) \<and>
     (\<forall>x. has_slot (rr_slots s) x \<longrightarrow> slot_ok cinvar (slot_at (rr_slots s) x) (rp_sub x paths))"

definition rr_queues :: "('c \<Rightarrow> nat) \<Rightarrow> 'c rr_slot list \<Rightarrow> nat" where
  "rr_queues cqueues slots =
     (\<Sum>sl \<leftarrow> slots. case sl_entry sl of Live c \<Rightarrow> cqueues c | Draining c \<Rightarrow> cqueues c | Free \<Rightarrow> 0)"

definition slot_polled :: "('c, 't, 'm) scheduler_ops \<Rightarrow> instant \<Rightarrow> 'c rr_slot \<Rightarrow> 'c rr_slot" where
  "slot_polled inner now sl =
     (case sl_entry sl of
        Live c \<Rightarrow> sl\<lparr>sl_entry := Live (snd (sched_update_ready inner c now))\<rparr>
      | _ \<Rightarrow> sl)"

definition slot_ready :: "('c, 't, 'm) scheduler_ops \<Rightarrow> instant \<Rightarrow> 'c rr_slot \<Rightarrow> bool" where
  "slot_ready inner now sl =
     (case sl_entry sl of Live c \<Rightarrow> rd_ready (fst (sched_update_ready inner c now)) | _ \<Rightarrow> False)"

lemma slot_polled_frame [simp]:
  "is_Live (sl_entry (slot_polled inner now sl)) = is_Live (sl_entry sl)"
  "is_Draining (sl_entry (slot_polled inner now sl)) = is_Draining (sl_entry sl)"
  "sl_generation (slot_polled inner now sl) = sl_generation sl"
  "sl_live_pos (slot_polled inner now sl) = sl_live_pos sl"
  by (simp_all add: slot_polled_def split: rr_entry.split)

lemma rr_poll_spec:
  assumes "rr_poll inner now ids slots ready next_at = (ready', next_at', slots')" "distinct ids"
  shows "length slots' = length slots"
    "has_slot slots x \<Longrightarrow> slot_at slots' x =
       (if x \<in> set ids then slot_polled inner now (slot_at slots x) else slot_at slots x)"
    "ready' \<longleftrightarrow> ready \<or> (\<exists>x \<in> set ids. has_slot slots x \<and> slot_ready inner now (slot_at slots x))"
proof -
  have "length slots' = length slots \<and>
    (\<forall>x. has_slot slots x \<longrightarrow> slot_at slots' x =
       (if x \<in> set ids then slot_polled inner now (slot_at slots x) else slot_at slots x)) \<and>
    (ready' \<longleftrightarrow> ready \<or> (\<exists>x \<in> set ids. has_slot slots x \<and> slot_ready inner now (slot_at slots x)))"
    using assms
  proof (induction inner now ids slots ready next_at rule: rr_poll.induct)
    case (1 inner now slots ready next_at)
    then show ?case by simp
  next
    case (2 inner now x ids slots ready next_at)
    show ?case
    proof (cases "has_slot slots x \<and> is_Live (sl_entry (slot_at slots x))")
      case False
      then have id: "slot_polled inner now (slot_at slots x) = slot_at slots x"
        "has_slot slots x \<Longrightarrow> \<not> slot_ready inner now (slot_at slots x)"
        if "has_slot slots x"
        using that by (auto simp: slot_polled_def slot_ready_def split: rr_entry.splits)
      have run: "rr_poll inner now ids slots ready next_at = (ready', next_at', slots')"
        using 2(5) False by (auto split: rr_entry.splits if_splits)
      have "length slots' = length slots \<and>
        (\<forall>x. has_slot slots x \<longrightarrow> slot_at slots' x =
          (if x \<in> set ids then slot_polled inner now (slot_at slots x) else slot_at slots x)) \<and>
        (ready' \<longleftrightarrow> ready \<or> (\<exists>x \<in> set ids. has_slot slots x \<and> slot_ready inner now (slot_at slots x)))"
      proof (cases "has_slot slots x")
        case has: True
        then show ?thesis
          using False 2(3) [OF _ _ run] 2(4) [OF _ _ run] 2(6)
          by (cases "sl_entry (slot_at slots x)") simp_all
      next
        case no: False
        then show ?thesis using 2(1) [OF _ run] 2(6) by simp
      qed
      with id show ?thesis by auto
    next
      case True
      then obtain c where c: "has_slot slots x" "sl_entry (slot_at slots x) = Live c"
        by (auto simp: is_Live_def)
      obtain r c' where r: "sched_update_ready inner c now = (r, c')" by fastforce
      let ?sl = "(slot_at slots x)\<lparr>sl_entry := Live c'\<rparr>"
      have sl: "slot_polled inner now (slot_at slots x) = ?sl"
        "slot_ready inner now (slot_at slots x) = rd_ready r"
        using c r by (simp_all add: slot_polled_def slot_ready_def)
      have run: "rr_poll inner now ids (slots[unat x := ?sl]) (ready \<or> rd_ready r)
          (min_deadline next_at (rd_next_update_at r)) = (ready', next_at', slots')"
        using 2(5) c r by simp
      have x: "x \<notin> set ids" using 2(6) by simp
      have "(\<exists>y \<in> set ids. has_slot slots y \<and> slot_ready inner now (slot_at (slots[unat x := ?sl]) y)) =
        (\<exists>y \<in> set ids. has_slot slots y \<and> slot_ready inner now (slot_at slots y))"
        using x c by (intro bex_cong) auto
      with 2(2) [OF _ c(2) r [symmetric] refl run] 2(6) c sl x show ?thesis
        by (auto simp: has_slot_def)
    qed
  qed
  then show "length slots' = length slots"
    "has_slot slots x \<Longrightarrow> slot_at slots' x =
       (if x \<in> set ids then slot_polled inner now (slot_at slots x) else slot_at slots x)"
    "ready' \<longleftrightarrow> ready \<or> (\<exists>x \<in> set ids. has_slot slots x \<and> slot_ready inner now (slot_at slots x))"
    by blast+
qed

lemma rr_update_ready_spec:
  assumes wf: "rr_wf s" and u: "rr_update_ready inner s now = (r, s')"
  shows "same_rotation (rr_slots s) (rr_slots s')" "s' = s\<lparr>rr_slots := rr_slots s'\<rparr>" "rr_wf s'"
    "has_slot (rr_slots s) x \<Longrightarrow> slot_at (rr_slots s') x = slot_polled inner now (slot_at (rr_slots s) x)"
    "rd_ready r \<longleftrightarrow> (\<exists>x. has_slot (rr_slots s) x \<and> slot_ready inner now (slot_at (rr_slots s) x))"
proof -
  obtain b t slots where p: "rr_poll inner now (rr_live_ids s) (rr_slots s) False None = (b, t, slots)"
    by (metis prod_cases3)
  have r: "rd_ready r = b" and s': "s' = s\<lparr>rr_slots := slots\<rparr>"
    using u by (auto simp: rr_update_ready_def p)
  have slab: "distinct (rr_live_ids s)" "x \<in> set (rr_live_ids s) \<longleftrightarrow> rr_live (rr_slots s) x" for x
    using wf by (simp_all add: rr_wf_def rr_slab_def)
  note spec = rr_poll_spec [OF p slab(1)]
  have not_live: "slot_polled inner now (slot_at (rr_slots s) x) = slot_at (rr_slots s) x"
    "\<not> slot_ready inner now (slot_at (rr_slots s) x)"
    if "x \<notin> set (rr_live_ids s)" "has_slot (rr_slots s) x" for x
    using that by (auto simp: slab rr_live_def slot_polled_def slot_ready_def split: rr_entry.splits)
  have at: "slot_at slots x = slot_polled inner now (slot_at (rr_slots s) x)"
    if "has_slot (rr_slots s) x" for x
    using spec(2) [OF that] not_live that by auto
  then show "has_slot (rr_slots s) x \<Longrightarrow> slot_at (rr_slots s') x = slot_polled inner now (slot_at (rr_slots s) x)"
    by (simp add: s')
  show same: "same_rotation (rr_slots s) (rr_slots s')" using spec(1) at by (simp add: s' same_rotation_def)
  show "s' = s\<lparr>rr_slots := rr_slots s'\<rparr>" by (simp add: s')
  then show "rr_wf s'" using rr_wf_cong [OF wf same] by simp
  show "rd_ready r \<longleftrightarrow> (\<exists>x. has_slot (rr_slots s) x \<and> slot_ready inner now (slot_at (rr_slots s) x))"
    unfolding r spec(3) using not_live by auto
qed
lemma rr_wf_freed:
  assumes wf: "rr_wf s" and x: "has_slot (rr_slots s) x" "is_Draining (sl_entry (slot_at (rr_slots s) x))"
    and sl: "sl_entry sl = Free" "sl_generation sl = sl_generation (slot_at (rr_slots s) x)"
  shows "rr_wf (s\<lparr>rr_slots := (rr_slots s)[unat x := sl], rr_free := rr_free s @ [x]\<rparr>)"
proof -
  let ?slots = "(rr_slots s)[unat x := sl]"
  have live: "rr_live ?slots y = rr_live (rr_slots s) y" for y
    using x sl(1) by (auto simp: rr_live_def)
  have valid: "rr_valid ?slots = rr_valid (rr_slots s)"
    using x sl(2) live by (auto simp: rr_valid_iff fun_eq_iff)
  have "rr_rotation ?slots (rr_queue s)" "stale_count ?slots (rr_queue s) = stale_count (rr_slots s) (rr_queue s)"
    using wf x sl(2) live valid by (auto simp: rr_wf_def rr_rotation_def stale_count_def)
  moreover have nl: "\<not> rr_live (rr_slots s) x"
    using x by (auto simp: rr_live_def dest: rr_entry.distinct_disc(1))
  have "rr_slab (s\<lparr>rr_slots := ?slots, rr_free := rr_free s @ [x]\<rparr>)"
    using wf x sl nl live unfolding rr_wf_def rr_slab_def by (auto simp: is_Free_iff)
  ultimately show ?thesis using wf by (simp add: rr_wf_def)
qed


lemma rr_invar_update:
  assumes inv: "rr_invar cinvar s paths" and len: "length slots = length (rr_slots s)"
    and wf: "rr_wf s'" "rr_slots s' = slots"
    and paths: "\<And>p. p \<in># paths' \<Longrightarrow> p \<in># paths \<or> p \<noteq> [] \<and> has_slot slots (last p)"
    and ok: "\<And>x. has_slot slots x \<Longrightarrow> slot_ok cinvar (slot_at (rr_slots s) x) (rp_sub x paths) \<Longrightarrow>
      slot_ok cinvar (slot_at slots x) (rp_sub x paths')"
  shows "rr_invar cinvar s' paths'"
  using assms unfolding rr_invar_def by (auto simp: has_slot_def)

lemma slot_ok_take:
  assumes "slot_ok cinvar sl paths" "sl_entry sl = Live c" "size paths < u32_max"
    "cinvar c' (add_mset p paths)"
  shows "slot_ok cinvar (sl\<lparr>sl_entry := Live c', sl_in_flight := saturating_add (sl_in_flight sl) 1\<rparr>)
    (add_mset p paths)"
  using assms by (simp add: slot_ok_def unat_saturating_inc)

locale round_robin_node =
  child: scheduler inner cinvar horizon cqueues
  for inner :: "('c, 't, 'm) scheduler_ops"
    and cinvar :: "'c \<Rightarrow> routing_path multiset \<Rightarrow> bool"
    and horizon :: instant
    and cqueues :: "'c \<Rightarrow> nat"
begin

lemma slot_ok_polled: "slot_ok cinvar sl paths \<Longrightarrow> slot_ok cinvar (slot_polled inner now sl) paths"
  by (auto simp: slot_ok_def slot_polled_def split: rr_entry.splits
      intro: child.update_ready_ok [OF _ surjective_pairing])

lemma rr_update_ready_invar:
  assumes inv: "rr_invar cinvar s paths" and u: "rr_update_ready inner s now = (r, s')"
  shows "rr_invar cinvar s' paths"
proof -
  have wf: "rr_wf s" using inv by (simp add: rr_invar_def)
  note spec = rr_update_ready_spec [OF wf u]
  have len: "length (rr_slots s') = length (rr_slots s)" using spec(1) by (simp add: same_rotation_def)
  show ?thesis
    by (rule rr_invar_update [OF inv len spec(3) refl])
      (use spec(4) slot_ok_polled same_rotation_live(2) [OF spec(1)] in auto)
qed

lemma rr_scan_ok:
  assumes "rr_invar cinvar s paths" "size paths < u32_max"
  shows "\<exists>w s'. rr_scan inner n s = Some (w, s') \<and> rr_invar cinvar s' (taken w paths)"
  using assms(1)
proof (induction n arbitrary: s)
  case 0
  then show ?case by simp
next
  case (Suc n)
  show ?case
  proof (cases "rr_queue s")
    case Nil
    with Suc.prems show ?thesis by (simp add: rr_scan.simps)
  next
    case (Cons e q)
    have wf: "rr_wf s" using Suc.prems by (simp add: rr_invar_def)
    show ?thesis
    proof (cases "rr_valid (rr_slots s) e")
      case False
      have "rr_invar cinvar (s\<lparr>rr_queue := q, rr_stale := rr_stale s - 1\<rparr>) paths"
        using Suc.prems rr_wf_drop [OF wf Cons False] by (simp add: rr_invar_def)
      from Suc.IH [OF this] show ?thesis by (simp add: rr_scan_step(1) [OF Cons False])
    next
      case True
      obtain c where c: "has_slot (rr_slots s) (fst e)" "sl_entry (slot_at (rr_slots s) (fst e)) = Live c"
        using True by (rule rr_valid_entry)
      let ?sub = "rp_sub (fst e) paths"
      let ?sl = "slot_at (rr_slots s) (fst e)"
      have sl: "slot_ok cinvar ?sl ?sub" using Suc.prems c by (simp add: rr_invar_def)
      have sz: "size ?sub < u32_max" using assms(2) size_rp_sub [of "fst e" paths] by simp
      obtain v c' where v: "sched_take_next inner c = Some (v, c')" "cinvar c' (taken v ?sub)"
        using child.take_next_ok [of c ?sub] sl sz c(2) by (auto simp: slot_ok_def)
      show ?thesis
      proof (cases v)
        case None
        let ?slots = "(rr_slots s)[unat (fst e) := ?sl\<lparr>sl_entry := Live c'\<rparr>]"
        let ?s = "s\<lparr>rr_queue := q @ [e], rr_slots := ?slots\<rparr>"
        have wf': "rr_wf ?s" by (rule rr_wf_rotate [OF wf Cons True]) (use c in auto)
        have "rr_invar cinvar ?s paths"
          by (rule rr_invar_update [OF Suc.prems _ wf', of ?slots])
            (use c v None sl in \<open>auto simp: slot_ok_def\<close>)
        from Suc.IH [OF this] show ?thesis
          using v None by (simp add: rr_scan_step(2) [OF Cons True c(2)])
      next
        case (Some w)
        let ?slots = "(rr_slots s)[unat (fst e) :=
          ?sl\<lparr>sl_entry := Live c', sl_in_flight := saturating_add (sl_in_flight ?sl) 1\<rparr>]"
        let ?s = "s\<lparr>rr_queue := q @ [e], rr_slots := ?slots\<rparr>"
        let ?paths = "add_mset (rp_push (fst e) (sw_routing w)) paths"
        have wf': "rr_wf ?s" by (rule rr_wf_rotate [OF wf Cons True]) (use c in auto)
        have "rr_invar cinvar ?s ?paths"
          by (rule rr_invar_update [OF Suc.prems _ wf', of ?slots])
            (use c v Some sl slot_ok_take [OF sl c(2) sz] in auto)
        then show ?thesis
          using v Some by (simp add: rr_scan_step(2) [OF Cons True c(2)])
      qed
    qed
  qed
qed

lemma rr_take_next_ok:
  assumes "rr_invar cinvar s paths" "size paths < u32_max"
  shows "\<exists>w s'. rr_take_next inner s = Some (w, s') \<and> rr_invar cinvar s' (taken w paths)"
  using rr_scan_ok [OF assms] by (simp add: rr_take_next_def)

lemma slot_ready_answers:
  assumes "slot_ok cinvar (slot_at slots (fst e)) paths" "size paths < u32_max"
    "slot_at slots' (fst e) = slot_polled inner now (slot_at slots (fst e))"
    "rr_answers inner slots' e w"
  shows "slot_ready inner now (slot_at slots (fst e)) \<longleftrightarrow> w \<noteq> None"
proof -
  obtain c' d where c': "sl_entry (slot_at slots' (fst e)) = Live c'" "sched_take_next inner c' = Some (w, d)"
    using assms(4) by (auto simp: rr_answers_def)
  with assms(3) obtain c where c: "sl_entry (slot_at slots (fst e)) = Live c"
    "c' = snd (sched_update_ready inner c now)"
    by (auto simp: slot_polled_def split: rr_entry.splits)
  obtain r where r: "sched_update_ready inner c now = (r, c')" using c(2) by (metis prod.collapse)
  have "cinvar c paths" using assms(1) c(1) by (simp add: slot_ok_def)
  from child.ready_iff_work [OF this assms(2) r c'(2)] show ?thesis
    using c r by (simp add: slot_ready_def)
qed

lemma rr_ready_iff_work:
  assumes inv: "rr_invar cinvar s paths" "size paths < u32_max"
    and u: "rr_update_ready inner s now = (r, s')"
    and t: "rr_take_next inner s' = Some (w, s'')"
  shows "rd_ready r \<longleftrightarrow> w \<noteq> None"
proof -
  have wf: "rr_wf s" using inv by (simp add: rr_invar_def)
  note spec = rr_update_ready_spec [OF wf u]
  note live = same_rotation_live [OF spec(1)]
  have scan: "rr_scanned inner (rr_slots s') (rr_queue s') [] w (rr_queue s'')"
    using rr_scan_wf [of s' "rr_queue s'" "[]" _ inner w s''] spec(3) t by (simp add: rr_take_next_def)
  have sz: "size (rp_sub x paths) < u32_max" for x using inv(2) size_rp_sub [of x paths] by simp
  have ask: "slot_ready inner now (slot_at (rr_slots s) (fst e)) \<longleftrightarrow> v \<noteq> None"
    if "rr_valid (rr_slots s') e" "rr_answers inner (rr_slots s') e v" for e v
    using that inv(1) live(2) spec(4)
    by (intro slot_ready_answers [of _ _ "rp_sub (fst e) paths" "rr_slots s'"])
      (auto simp: rr_invar_def sz rr_valid_iff rr_live_def)
  show ?thesis
  proof (cases w)
    case None
    have "\<not> slot_ready inner now (slot_at (rr_slots s) x)" if x: "has_slot (rr_slots s) x" for x
    proof (cases "rr_live (rr_slots s) x")
      case True
      let ?e = "(x, sl_generation (slot_at (rr_slots s') x))"
      have "?e \<in> set (rr_queue s')" "rr_valid (rr_slots s') ?e"
        using True live(1) spec(3) by (auto simp: rr_wf_def rr_rotation_def rr_valid_iff)
      with scan None ask [of ?e None] show ?thesis by (auto simp: rr_scanned_def)
    next
      case False
      with x show ?thesis by (auto simp: rr_live_def slot_ready_def split: rr_entry.splits)
    qed
    with spec(5) None show ?thesis by auto
  next
    case (Some z)
    then obtain e y where e: "rr_valid (rr_slots s') e" "rr_answers inner (rr_slots s') e (Some y)"
      using scan by (auto simp: rr_scanned_def)
    then have "has_slot (rr_slots s) (fst e)" using live by (simp add: rr_valid_iff rr_live_def)
    with ask [OF e] spec(5) Some show ?thesis by auto
  qed
qed

lemma rr_on_complete_ok:
  assumes inv: "rr_invar cinvar s paths" and p: "cp_routing c \<in># paths" and h: "cp_completed_at c \<le> horizon"
  shows "\<exists>s' evs. rr_on_complete inner s c = Some (s', evs) \<and>
    rr_invar cinvar s' (paths - {#cp_routing c#})"
proof -
  have wf: "rr_wf s" using inv by (simp add: rr_invar_def)
  obtain x q where x: "cp_routing c = rp_push x q" "has_slot (rr_slots s) x"
    using inv p by (metis rp_path_cases rr_invar_def)
  let ?sl = "slot_at (rr_slots s) x"
  let ?sub = "rp_sub x paths"
  have sl: "slot_ok cinvar ?sl ?sub" using inv x(2) by (simp add: rr_invar_def)
  have q: "q \<in># ?sub" using p x(1) by (simp add: rp_sub_mem)
  let ?c = "c\<lparr>cp_routing := q\<rparr>"
  let ?sl' = "?sl\<lparr>sl_in_flight := saturating_sub (sl_in_flight ?sl) 1\<rparr>"
  have n: "unat (sl_in_flight ?sl') = size (?sub - {#q#})"
    using sl q by (simp add: slot_ok_def unat_saturating_sub size_Diff_singleton)
  have z: "sl_in_flight ?sl' = 0 \<longleftrightarrow> ?sub - {#q#} = {#}"
    using n by (metis size_eq_0_iff_empty unsigned_eq_0_iff)
  have upd: "rr_invar cinvar s' (paths - {#cp_routing c#})"
    if "rr_wf s'" "rr_slots s' = (rr_slots s)[unat x := sl']" "slot_ok cinvar sl' (?sub - {#q#})" for s' sl'
    by (rule rr_invar_update [OF inv _ that(1,2)])
      (use that(3) x p in \<open>auto simp: rp_sub_diff dest: in_diffD\<close>)
  have child: "\<exists>d' evs. sched_on_complete inner d ?c = Some (d', evs) \<and> cinvar d' (?sub - {#q#})"
    if "cinvar d ?sub" for d
    using child.on_complete_ok [of d ?sub ?c] that q h by simp
  show ?thesis
  proof (cases "sl_entry ?sl")
    case (Live d)
    then obtain d' evs where d': "sched_on_complete inner d ?c = Some (d', evs)" "cinvar d' (?sub - {#q#})"
      using child [of d] sl by (fastforce simp: slot_ok_def)
    let ?s' = "s\<lparr>rr_slots := (rr_slots s)[unat x := ?sl'\<lparr>sl_entry := Live d'\<rparr>]\<rparr>"
    have "rr_wf ?s'" by (rule rr_wf_cong [OF wf]) (use x Live in auto)
    with upd [of ?s' "?sl'\<lparr>sl_entry := Live d'\<rparr>"] d' n Live x show ?thesis
      by (simp add: rr_on_complete_def slot_ok_def Let_def)
  next
    case (Draining d)
    then obtain d' evs where d': "sched_on_complete inner d ?c = Some (d', evs)" "cinvar d' (?sub - {#q#})"
      using child [of d] sl by (fastforce simp: slot_ok_def)
    show ?thesis
    proof (cases "?sub - {#q#} = {#}")
      case False
      let ?s' = "s\<lparr>rr_slots := (rr_slots s)[unat x := ?sl'\<lparr>sl_entry := Draining d'\<rparr>]\<rparr>"
      have "rr_wf ?s'" by (rule rr_wf_cong [OF wf]) (use x Draining in auto)
      with upd [of ?s' "?sl'\<lparr>sl_entry := Draining d'\<rparr>"] d' n z Draining x False show ?thesis
        by (simp add: rr_on_complete_def slot_ok_def Let_def)
    next
      case True
      let ?s' = "s\<lparr>rr_slots := (rr_slots s)[unat x := ?sl'\<lparr>sl_entry := Free\<rparr>], rr_free := rr_free s @ [x]\<rparr>"
      have "rr_wf ?s'" by (rule rr_wf_freed [OF wf x(2)]) (simp_all add: Draining)
      with upd [of ?s' "?sl'\<lparr>sl_entry := Free\<rparr>"] d' n z Draining x True show ?thesis
        by (simp add: rr_on_complete_def slot_ok_def Let_def)
    qed
  next
    case Free
    with sl q show ?thesis by (simp add: slot_ok_def)
  qed
qed

end

definition same_slot :: "'c rr_slot \<Rightarrow> 'c rr_slot \<Rightarrow> bool" where
  "same_slot a b \<longleftrightarrow> is_Live (sl_entry b) = is_Live (sl_entry a) \<and>
     is_Draining (sl_entry b) = is_Draining (sl_entry a) \<and>
     sl_generation b = sl_generation a \<and> sl_live_pos b = sl_live_pos a"

lemma same_rotation_all2: "list_all2 same_slot slots slots' \<Longrightarrow> same_rotation slots slots'"
  by (auto simp: same_rotation_def same_slot_def list_all2_conv_all_nth has_slot_def slot_at_def)

lemma rr_register_slots_same:
  "rr_register_slots inner slots sig = Some (slots', sig') \<Longrightarrow> list_all2 same_slot slots slots'"
proof (induction inner slots sig arbitrary: slots' sig' rule: rr_register_slots.induct)
  case (2 inner sl slots sig)
  then show ?case
    by (cases "sl_entry sl") (auto simp: same_slot_def split: Option.bind_splits)
qed simp

context round_robin_node
begin

lemma rr_register_slots_ok:
  assumes "list_all2 (slot_ok cinvar) slots ps" "rr_register_slots inner slots sig = Some (slots', sig')"
  shows "list_all2 (slot_ok cinvar) slots' ps \<and> sig_identity sig' = sig_identity sig \<and>
    unat (sig_next_queue_id sig') \<le> unat (sig_next_queue_id sig) + rr_queues cqueues slots"
  using assms
proof (induction slots ps arbitrary: sig slots' rule: list_all2_induct)
  case Nil
  then show ?case by (simp add: rr_queues_def)
next
  case (Cons sl slots p ps)
  obtain e sig1 slots1 where
    e: "(case sl_entry sl of
          Live c \<Rightarrow> do { (c', sig) \<leftarrow> sched_register inner c sig; Some (Live c', sig) }
        | Draining c \<Rightarrow> do { (c', sig) \<leftarrow> sched_register inner c sig; Some (Draining c', sig) }
        | Free \<Rightarrow> Some (Free, sig)) = Some (e, sig1)"
    and r: "rr_register_slots inner slots sig1 = Some (slots1, sig')"
      "slots' = sl\<lparr>sl_entry := e\<rparr> # slots1"
    using Cons.prems by (auto split: Option.bind_splits)
  have "slot_ok cinvar (sl\<lparr>sl_entry := e\<rparr>) p \<and> sig_identity sig1 = sig_identity sig \<and>
    unat (sig_next_queue_id sig1) \<le> unat (sig_next_queue_id sig) + rr_queues cqueues [sl]"
    using e Cons.hyps(1)
    by (cases "sl_entry sl")
      (auto simp: slot_ok_def rr_queues_def split: Option.bind_splits dest: child.register_ok)
  with Cons.IH [OF r(1)] r(2) show ?case by (auto simp: rr_queues_def)
qed

lemma rr_register_slots_returns:
  assumes "list_all2 (slot_ok cinvar) slots ps"
    "unat (sig_next_queue_id sig) + rr_queues cqueues slots \<le> u64_max"
  shows "rr_register_slots inner slots sig \<noteq> None"
  using assms
proof (induction slots ps arbitrary: sig rule: list_all2_induct)
  case (Cons sl slots p ps)
  let ?step = "case sl_entry sl of
          Live c \<Rightarrow> do { (c', sig) \<leftarrow> sched_register inner c sig; Some (Live c', sig) }
        | Draining c \<Rightarrow> do { (c', sig) \<leftarrow> sched_register inner c sig; Some (Draining c', sig) }
        | Free \<Rightarrow> Some (Free, sig)"
  have child: "\<exists>c' sig1. sched_register inner c sig = Some (c', sig1) \<and>
      unat (sig_next_queue_id sig1) + rr_queues cqueues slots \<le> u64_max"
    if inv: "cinvar c p"
      and le: "unat (sig_next_queue_id sig) + cqueues c + rr_queues cqueues slots \<le> u64_max" for c
  proof -
    obtain c' sig1 where r: "sched_register inner c sig = Some (c', sig1)"
      using child.register_returns [OF inv, of sig] le by auto
    from child.register_ok [OF inv r] le r show ?thesis by auto
  qed
  have "\<exists>e sig1. ?step = Some (e, sig1) \<and> unat (sig_next_queue_id sig1) + rr_queues cqueues slots \<le> u64_max"
  proof (cases "sl_entry sl")
    case (Live c)
    with Cons.hyps(1) Cons.prems child [of c] show ?thesis by (auto simp: slot_ok_def rr_queues_def)
  next
    case (Draining c)
    with Cons.hyps(1) Cons.prems child [of c] show ?thesis by (auto simp: slot_ok_def rr_queues_def)
  next
    case Free
    with Cons.prems show ?thesis by (auto simp: rr_queues_def)
  qed
  then obtain e sig1 where "?step = Some (e, sig1)"
    "unat (sig_next_queue_id sig1) + rr_queues cqueues slots \<le> u64_max" by blast
  with Cons.IH [of sig1] show ?case by auto
qed simp

lemma rr_invar_slots:
  assumes "rr_invar cinvar s paths"
  shows "list_all2 (slot_ok cinvar) (rr_slots s)
    (map (\<lambda>i. rp_sub (word_of_nat i) paths) [0 ..< length (rr_slots s)])"
proof -
  have "length (rr_slots s) \<le> 2 ^ 32" using assms by (simp add: rr_invar_def rr_wf_def rr_slab_def)
  then have "slot_ok cinvar (rr_slots s ! i) (rp_sub (word_of_nat i) paths)" if "i < length (rr_slots s)" for i
    using assms slot_ids [of i "rr_slots s"] that unfolding rr_invar_def by metis
  then show ?thesis by (simp add: list_all2_conv_all_nth)
qed

lemma rr_register_invar:
  assumes inv: "rr_invar cinvar s paths" and r: "rr_register inner s sig = Some (s', sig')"
  shows "rr_invar cinvar s' paths \<and> sig_identity sig' = sig_identity sig \<and>
    unat (sig_next_queue_id sig') \<le> unat (sig_next_queue_id sig) + rr_queues cqueues (rr_slots s)"
proof -
  obtain slots where slots: "rr_register_slots inner (rr_slots s) sig = Some (slots, sig')"
    "s' = s\<lparr>rr_slots := slots\<rparr>"
    using r by (auto simp: rr_register_def split: Option.bind_splits)
  note ok = rr_register_slots_ok [OF rr_invar_slots [OF inv] slots(1)]
  have same: "same_rotation (rr_slots s) slots"
    using rr_register_slots_same [OF slots(1)] by (rule same_rotation_all2)
  have wf: "rr_wf s'" using inv rr_wf_cong [OF _ same] slots(2) by (simp add: rr_invar_def)
  have len: "length slots = length (rr_slots s)" using same by (simp add: same_rotation_def)
  have at: "slot_ok cinvar (slot_at slots x) (rp_sub x paths)" if "has_slot slots x" for x
  proof -
    have "slot_ok cinvar (slots ! unat x) (rp_sub (word_of_nat (unat x)) paths)"
      using conjunct1 [OF ok] that len by (auto simp: list_all2_conv_all_nth has_slot_def)
    then show ?thesis by (simp add: slot_at_def)
  qed
  have "rr_invar cinvar s' paths"
    by (rule rr_invar_update [OF inv len wf]) (use at slots(2) in auto)
  with ok show ?thesis by simp
qed

lemma rr_register_returns:
  "rr_invar cinvar s paths \<Longrightarrow> unat (sig_next_queue_id sig) + rr_queues cqueues (rr_slots s) \<le> u64_max \<Longrightarrow>
   rr_register inner s sig \<noteq> None"
  using rr_register_slots_returns [OF rr_invar_slots, of s paths sig]
  by (auto simp: rr_register_def)

end

sublocale round_robin_node \<subseteq>
  rr: scheduler "round_robin_ops inner" "rr_invar cinvar" horizon "\<lambda>s. rr_queues cqueues (rr_slots s)"
proof
  fix s paths now r s'
  assume "rr_invar cinvar s paths" "sched_update_ready (round_robin_ops inner) s now = (r, s')"
  then show "rr_invar cinvar s' paths" by (auto intro: rr_update_ready_invar)
next
  fix s paths sig s' sig'
  assume "rr_invar cinvar s paths" "sched_register (round_robin_ops inner) s sig = Some (s', sig')"
  then show "rr_invar cinvar s' paths \<and> sig_identity sig' = sig_identity sig \<and>
    unat (sig_next_queue_id sig') \<le> unat (sig_next_queue_id sig) + rr_queues cqueues (rr_slots s)"
    by (intro rr_register_invar) simp_all
qed (simp_all only: rr_ops_simps rr_take_next_ok rr_ready_iff_work rr_on_complete_ok
      rr_register_returns not_False_eq_True)

text \<open>A round robin over serialized periodic leaves.\<close>

interpretation rotating_leaves:
  round_robin_node "bounded_concurrency_ops (periodic_leaf_ops call_make)" "bc_invar pl_invar"
    instant_max "\<lambda>_. 0"
  by (simp add: round_robin_node_def serial_leaf.bc.scheduler_axioms)

section \<open>Membership changes under outstanding work\<close>

lemma rp_sub_absent: "(\<And>p. p \<in># paths \<Longrightarrow> p = [] \<or> last p \<noteq> x) \<Longrightarrow> rp_sub x paths = {#}"
  by (auto simp: rp_sub_def)

lemma rr_add_child_invar:
  assumes inv: "rr_invar cinvar s paths" and add: "rr_add_child s child = Some (cid, s')"
  shows "rp_sub cid paths = {#}" "cinvar child {#} \<Longrightarrow> rr_invar cinvar s' paths"
proof -
  have wf: "rr_wf s" using inv by (simp add: rr_invar_def)
  note spec = rr_add_child_wf [OF wf add]
  show none: "rp_sub cid paths = {#}"
  proof (cases "has_slot (rr_slots s) cid")
    case True
    then show ?thesis using inv spec(2) by (auto simp: rr_invar_def slot_ok_def is_Free_def)
  next
    case False
    then show ?thesis using inv by (intro rp_sub_absent) (auto simp: rr_invar_def)
  qed
  have "slot_ok cinvar (slot_at (rr_slots s') x) (rp_sub x paths)"
    if "cinvar child {#}" "has_slot (rr_slots s') x" for x
  proof (cases "x = cid")
    case True
    with that none spec(5,6) show ?thesis by (simp add: slot_ok_def)
  next
    case False
    with that inv spec(3,4) show ?thesis by (simp add: rr_invar_def)
  qed
  with inv spec(1,3) show "cinvar child {#} \<Longrightarrow> rr_invar cinvar s' paths"
    by (auto simp: rr_invar_def)
qed

lemma rr_remove_child_invar:
  assumes inv: "rr_invar cinvar s paths" and r: "rr_remove_child s cid = Some (removed, s')"
  shows "rr_invar cinvar s' paths" "removed = Some (Detached c) \<Longrightarrow> cinvar c {#} \<and> rp_sub cid paths = {#}"
proof -
  have wf: "rr_wf s" using inv by (simp add: rr_invar_def)
  have "rr_invar cinvar s' paths \<and> (\<forall>c. removed = Some (Detached c) \<longrightarrow> cinvar c {#} \<and> rp_sub cid paths = {#})"
  proof (cases "rr_live (rr_slots s) cid")
    case False
    then show ?thesis using r inv by (simp add: rr_remove_child_absent)
  next
    case True
    then obtain d where d: "sl_entry (slot_at (rr_slots s) cid) = Live d" "has_slot (rr_slots s) cid"
      by (auto simp: rr_live_def is_Live_def)
    let ?busy = "0 < sl_in_flight (slot_at (rr_slots s) cid)"
    have ok: "slot_ok cinvar (slot_at (rr_slots s) cid) (rp_sub cid paths)"
      using inv d(2) by (simp add: rr_invar_def)
    have idle: "?busy \<longleftrightarrow> rp_sub cid paths \<noteq> {#}"
      using ok by (metis slot_ok_def size_eq_0_iff_empty unsigned_eq_0_iff word_neq_0_conv)
    obtain s2 where s2: "rr_remove_child s cid = Some (Some (if ?busy then StillDraining else Detached d), s2)"
      "rr_wf s2" "length (rr_slots s2) = length (rr_slots s)"
      and at: "\<And>x. has_slot (rr_slots s) x \<Longrightarrow>
        sl_entry (slot_at (rr_slots s2) x) = (if x = cid then if ?busy then Draining d else Free
          else sl_entry (slot_at (rr_slots s) x)) \<and>
        sl_in_flight (slot_at (rr_slots s2) x) = sl_in_flight (slot_at (rr_slots s) x)"
      using rr_remove_child_live [OF wf d] by blast
    have "slot_ok cinvar (slot_at (rr_slots s2) x) (rp_sub x paths)"
      if "has_slot (rr_slots s2) x" "slot_ok cinvar (slot_at (rr_slots s) x) (rp_sub x paths)" for x
      using at [of x] that s2(3) d(1) idle by (auto simp: slot_ok_def has_slot_def split: if_splits)
    then have "rr_invar cinvar s2 paths"
      by (intro rr_invar_update [OF inv s2(3,2) refl]) simp_all
    with r s2(1) ok d(1) idle show ?thesis by (auto simp: slot_ok_def)
  qed
  then show "rr_invar cinvar s' paths" "removed = Some (Detached c) \<Longrightarrow> cinvar c {#} \<and> rp_sub cid paths = {#}"
    by blast+
qed

section \<open>Executions\<close>

text \<open>
  The executions of a branch over any child implementation: every public operation, in any
  order, with any completion, also one for nothing outstanding.
\<close>

inductive rr_exec :: "('c, 't, 'm) scheduler_ops \<Rightarrow> 'c round_robin \<Rightarrow> bool" for inner where
  rre_new: "rr_exec inner round_robin_new"
| rre_add: "rr_exec inner s \<Longrightarrow> rr_add_child s child = Some (cid, s') \<Longrightarrow> rr_exec inner s'"
| rre_remove: "rr_exec inner s \<Longrightarrow> rr_remove_child s cid = Some (removed, s') \<Longrightarrow> rr_exec inner s'"
| rre_ready: "rr_exec inner s \<Longrightarrow> rr_update_ready inner s now = (r, s') \<Longrightarrow> rr_exec inner s'"
| rre_take: "rr_exec inner s \<Longrightarrow> rr_take_next inner s = Some (w, s') \<Longrightarrow> rr_exec inner s'"
| rre_complete: "rr_exec inner s \<Longrightarrow> rr_on_complete inner s c = Some (s', evs) \<Longrightarrow> rr_exec inner s'"
| rre_register: "rr_exec inner s \<Longrightarrow> rr_register inner s sig = Some (s', sig') \<Longrightarrow> rr_exec inner s'"

text \<open>
  The executions that complete only what is outstanding, over children that satisfy their own
  invariant when they are attached, with the outstanding paths.
\<close>

inductive rr_run ::
  "('c, 't, 'm) scheduler_ops \<Rightarrow> ('c \<Rightarrow> routing_path multiset \<Rightarrow> bool) \<Rightarrow> instant \<Rightarrow>
   'c round_robin \<Rightarrow> routing_path multiset \<Rightarrow> bool" for inner cinvar horizon where
  rrr_new: "rr_run inner cinvar horizon round_robin_new {#}"
| rrr_add: "rr_run inner cinvar horizon s paths \<Longrightarrow> cinvar child {#} \<Longrightarrow>
    rr_add_child s child = Some (cid, s') \<Longrightarrow> rr_run inner cinvar horizon s' paths"
| rrr_remove: "rr_run inner cinvar horizon s paths \<Longrightarrow> rr_remove_child s cid = Some (removed, s') \<Longrightarrow>
    rr_run inner cinvar horizon s' paths"
| rrr_ready: "rr_run inner cinvar horizon s paths \<Longrightarrow> rr_update_ready inner s now = (r, s') \<Longrightarrow>
    rr_run inner cinvar horizon s' paths"
| rrr_take: "rr_run inner cinvar horizon s paths \<Longrightarrow> size paths < u32_max \<Longrightarrow>
    rr_take_next inner s = Some (w, s') \<Longrightarrow> rr_run inner cinvar horizon s' (taken w paths)"
| rrr_complete: "rr_run inner cinvar horizon s paths \<Longrightarrow> cp_routing c \<in># paths \<Longrightarrow>
    cp_completed_at c \<le> horizon \<Longrightarrow> rr_on_complete inner s c = Some (s', evs) \<Longrightarrow>
    rr_run inner cinvar horizon s' (paths - {#cp_routing c#})"
| rrr_register: "rr_run inner cinvar horizon s paths \<Longrightarrow> rr_register inner s sig = Some (s', sig') \<Longrightarrow>
    rr_run inner cinvar horizon s' paths"

lemma rr_remove_child_wf:
  assumes "rr_wf s" "rr_remove_child s cid = Some (removed, s')"
  shows "rr_wf s'"
proof (cases "rr_live (rr_slots s) cid")
  case False
  then show ?thesis using assms by (simp add: rr_remove_child_absent)
next
  case True
  then obtain d where d: "sl_entry (slot_at (rr_slots s) cid) = Live d" "has_slot (rr_slots s) cid"
    by (auto simp: rr_live_def is_Live_def)
  from rr_remove_child_live [OF assms(1) d] assms(2) show ?thesis by (metis option.inject prod.inject)
qed

lemma rr_on_complete_wf:
  assumes wf: "rr_wf s" and r: "rr_on_complete inner s c = Some (s', evs)"
  shows "rr_wf s'"
proof -
  obtain p q where pop: "rp_pop (cp_routing c) = (p, q)" by fastforce
  show ?thesis
  proof (cases p)
    case None
    with r pop wf show ?thesis by (auto simp: rr_on_complete_def)
  next
    case (Some x)
    note run = r [unfolded rr_on_complete_def Some pop option.case prod.case Let_def]
    show ?thesis
    proof (cases "has_slot (rr_slots s) x")
      case False
      with run wf Some pop show ?thesis by simp
    next
      case has: True
      show ?thesis
      proof (cases "sl_entry (slot_at (rr_slots s) x)")
        case (Live d)
        with run has Some pop wf show ?thesis
          by (auto split: Option.bind_splits intro!: rr_wf_cong)
      next
        case (Draining d)
        with run has Some pop wf show ?thesis
          by (auto split: Option.bind_splits if_splits
              intro!: rr_wf_cong rr_wf_freed same_rotation_update)
      next
        case Free
        with run has Some pop wf show ?thesis by simp
      qed
    qed
  qed
qed

lemma rr_take_next_scanned:
  assumes "rr_wf s" "rr_take_next inner s = Some (w, s')"
  shows "rr_wf s'" "rr_scanned inner (rr_slots s) (rr_queue s) [] w (rr_queue s')"
    "rr_live_ids s' = rr_live_ids s" "same_rotation (rr_slots s) (rr_slots s')"
  using rr_scan_wf [of s "rr_queue s" "[]" _ inner w s'] assms by (simp_all add: rr_take_next_def)

lemma rr_register_wf:
  assumes "rr_wf s" "rr_register inner s sig = Some (s', sig')"
  shows "rr_wf s'"
  using assms rr_wf_cong [OF assms(1) same_rotation_all2 [OF rr_register_slots_same]]
  by (auto simp: rr_register_def split: Option.bind_splits)

lemma rr_exec_wf: "rr_exec inner s \<Longrightarrow> rr_wf s"
  by (induction rule: rr_exec.induct)
    (auto intro: rr_wf_new rr_add_child_wf(1) rr_remove_child_wf rr_update_ready_spec(3)
      rr_take_next_scanned(1) rr_on_complete_wf rr_register_wf)

lemma rr_invar_new: "rr_invar cinvar round_robin_new {#}"
  using rr_wf_new by (simp add: rr_invar_def round_robin_new_def has_slot_def)

lemma rr_run_invar:
  assumes "rr_run inner cinvar horizon s paths" "scheduler inner cinvar horizon cqueues"
  shows "rr_invar cinvar s paths"
proof -
  have node: "round_robin_node inner cinvar horizon cqueues"
    using assms(2) by (simp add: round_robin_node_def)
  show ?thesis
    using assms(1)
  proof (induction rule: rr_run.induct)
    case rrr_new
    show ?case by (rule rr_invar_new)
  next
    case (rrr_take s paths w s')
    then show ?case using round_robin_node.rr_take_next_ok [OF node, of s paths] by auto
  next
    case (rrr_complete s paths c s' evs)
    then show ?case using round_robin_node.rr_on_complete_ok [OF node, of s paths c] by auto
  qed (auto intro: rr_add_child_invar(2) rr_remove_child_invar(1)
      round_robin_node.rr_update_ready_invar [OF node] dest: round_robin_node.rr_register_invar [OF node])
qed

section \<open>Waiting time\<close>

text \<open>The valid entries ahead of child \<open>x\<close> in the rotation.\<close>

definition rr_rank :: "'c round_robin \<Rightarrow> u32 \<Rightarrow> nat" where
  "rr_rank s x = length (takeWhile (\<lambda>e. fst e \<noteq> x) (filter (rr_valid (rr_slots s)) (rr_queue s)))"

text \<open>The work of \<open>n\<close> consecutive calls of \<open>take_next\<close>.\<close>

fun rr_takes ::
  "('c, 't, 'm) scheduler_ops \<Rightarrow> nat \<Rightarrow> 'c round_robin \<Rightarrow>
   (('t, 'm) scheduled_work option list \<times> 'c round_robin) outcome" where
  "rr_takes inner 0 s = Some ([], s)"
| "rr_takes inner (Suc n) s = do {
     (w, s) \<leftarrow> rr_take_next inner s;
     (ws, s) \<leftarrow> rr_takes inner n s;
     Some (w # ws, s)
   }"

definition routed_to :: "u32 \<Rightarrow> ('t, 'm) scheduled_work option \<Rightarrow> bool" where
  "routed_to x w = (case w of None \<Rightarrow> False | Some v \<Rightarrow> sw_routing v \<noteq> [] \<and> last (sw_routing v) = x)"

lemma rr_valid_entries:
  assumes "rr_wf s"
  shows "set (filter (rr_valid (rr_slots s)) (rr_queue s)) =
      (\<lambda>x. (x, sl_generation (slot_at (rr_slots s) x))) ` set (rr_live_ids s)"
    "distinct (filter (rr_valid (rr_slots s)) (rr_queue s))"
    "length (filter (rr_valid (rr_slots s)) (rr_queue s)) = length (rr_live_ids s)"
proof -
  let ?v = "filter (rr_valid (rr_slots s)) (rr_queue s)"
  let ?f = "\<lambda>x. (x, sl_generation (slot_at (rr_slots s) x))"
  show set: "set ?v = ?f ` set (rr_live_ids s)"
    using assms by (force simp: rr_wf_def rr_slab_def rr_rotation_def rr_valid_iff)
  show d: "distinct ?v" using assms by (simp add: rr_wf_def rr_rotation_def)
  have "distinct (rr_live_ids s)" using assms by (simp add: rr_wf_def rr_slab_def)
  moreover have "card (?f ` set (rr_live_ids s)) = card (set (rr_live_ids s))"
    by (rule card_image) (simp add: inj_on_def)
  ultimately show "length ?v = length (rr_live_ids s)"
    using set d by (metis distinct_card)
qed

lemma rr_rank_bound:
  assumes "rr_wf s" "x \<in> set (rr_live_ids s)"
  shows "rr_rank s x < rr_len s"
proof -
  let ?v = "filter (rr_valid (rr_slots s)) (rr_queue s)"
  have "\<exists>e \<in> set ?v. fst e = x" using rr_valid_entries(1) [OF assms(1)] assms(2) by force
  then have "length (takeWhile (\<lambda>e. fst e \<noteq> x) ?v) < length ?v"
    by (metis (mono_tags, lifting) length_takeWhile_le linorder_not_less order_antisym_conv
        takeWhile_eq_all_conv takeWhile_eq_take take_all_iff)
  then show ?thesis using rr_valid_entries(3) [OF assms(1)] by (simp add: rr_rank_def rr_len_def)
qed

lemma rr_scan_untouched:
  assumes "rr_scan inner n s = Some (w, s')" "sl_entry (slot_at (rr_slots s) x) = Live c"
    "sched_take_next inner c = Some (Some y, c')"
  shows "routed_to x w \<or> slot_at (rr_slots s') x = slot_at (rr_slots s) x"
  using assms
proof (induction n arbitrary: s)
  case 0
  then show ?case by simp
next
  case (Suc n)
  show ?case
  proof (cases "rr_queue s")
    case Nil
    with Suc.prems show ?thesis by (simp add: rr_scan.simps)
  next
    case (Cons e q)
    show ?thesis
    proof (cases "rr_valid (rr_slots s) e")
      case False
      from Suc.IH [of "s\<lparr>rr_queue := q, rr_stale := rr_stale s - 1\<rparr>"] Suc.prems
      show ?thesis by (simp add: rr_scan_step(1) [OF Cons False])
    next
      case True
      obtain d where d: "has_slot (rr_slots s) (fst e)" "sl_entry (slot_at (rr_slots s) (fst e)) = Live d"
        using True by (rule rr_valid_entry)
      note step = Suc.prems(1) [unfolded rr_scan_step(2) [OF Cons True d(2)]]
      obtain v d' where v: "sched_take_next inner d = Some (v, d')"
        using step by (auto split: Option.bind_splits)
      show ?thesis
      proof (cases "fst e = x")
        case True
        with step v d Suc.prems(2,3) show ?thesis by (auto simp: routed_to_def)
      next
        case False
        let ?slots = "(rr_slots s)[unat (fst e) := (slot_at (rr_slots s) (fst e))\<lparr>sl_entry := Live d'\<rparr>]"
        have x: "slot_at ?slots x = slot_at (rr_slots s) x" using d False by simp
        show ?thesis
          using step v d False Suc.prems(2,3) x
            Suc.IH [of "s\<lparr>rr_queue := q @ [e], rr_slots := ?slots\<rparr>"]
          by (cases v) auto
      qed
    qed
  qed
qed

lemma rr_answers_unique: "rr_answers inner slots e v \<Longrightarrow> rr_answers inner slots e w \<Longrightarrow> v = w"
  by (auto simp: rr_answers_def)

lemma rr_rank_step:
  assumes wf: "rr_wf s" and x: "x \<in> set (rr_live_ids s)"
    and c: "sl_entry (slot_at (rr_slots s) x) = Live c" "sched_take_next inner c = Some (Some y, c')"
    and t: "rr_take_next inner s = Some (w, s')" and no: "\<not> routed_to x w"
  shows "rr_rank s' x < rr_rank s x"
proof -
  let ?e = "(x, sl_generation (slot_at (rr_slots s) x))"
  let ?valid = "rr_valid (rr_slots s)"
  note spec = rr_take_next_scanned [OF wf t]
  have v: "?valid ?e" "?e \<in> set (rr_queue s)"
    using rr_valid_entries(1) [OF wf] x by (auto simp: set_eq_iff)
  have only: "fst d = x \<longleftrightarrow> d = ?e" if "?valid d" for d
    using that by (auto simp: rr_valid_iff)
  have ask: "rr_answers inner (rr_slots s) ?e (Some y)" using c by (simp add: rr_answers_def)
  obtain pre e post where q: "rr_queue s = pre @ e # post" "?valid e"
    "\<forall>d \<in> set pre. ?valid d \<longrightarrow> rr_answers inner (rr_slots s) d None" "routed_to (fst e) w"
    "rr_queue s' = post @ filter ?valid pre @ [e]"
  proof (cases w)
    case None
    then show thesis using spec(2) v rr_answers_unique [OF ask] by (fastforce simp: rr_scanned_def)
  next
    case (Some z)
    then show thesis using spec(2) that by (auto simp: rr_scanned_def routed_to_def)
  qed
  have ne: "fst e \<noteq> x" using q(4) no by auto
  have "?e \<notin> set pre" using q(3) v(1) rr_answers_unique [OF ask] by auto
  with v ne q(1) have post: "?e \<in> set (filter ?valid post)" by auto
  have ahead: "\<forall>d \<in> set (filter ?valid pre @ [e]). fst d \<noteq> x"
    using \<open>?e \<notin> set pre\<close> ne only by auto
  have "takeWhile (\<lambda>d. fst d \<noteq> x) ((filter ?valid pre @ [e]) @ filter ?valid post) =
      (filter ?valid pre @ [e]) @ takeWhile (\<lambda>d. fst d \<noteq> x) (filter ?valid post)"
    by (rule takeWhile_append2) (use ahead in blast)
  then have "takeWhile (\<lambda>d. fst d \<noteq> x) (filter ?valid (rr_queue s)) =
      filter ?valid pre @ [e] @ takeWhile (\<lambda>d. fst d \<noteq> x) (filter ?valid post)"
    using q(1,2) by simp
  moreover have "rr_valid (rr_slots s') = ?valid"
    using same_rotation_live(3) [OF spec(4)] by auto
  moreover have "takeWhile (\<lambda>d. fst d \<noteq> x) (filter ?valid (rr_queue s')) =
      takeWhile (\<lambda>d. fst d \<noteq> x) (filter ?valid post)"
    using takeWhile_append1 [OF post, of "\<lambda>d. fst d \<noteq> x"] q(5) by simp
  ultimately show ?thesis by (simp add: rr_rank_def)
qed

lemma rr_takes_serves:
  assumes "rr_wf s" "x \<in> set (rr_live_ids s)" "sl_entry (slot_at (rr_slots s) x) = Live c"
    "sched_take_next inner c = Some (Some y, c')" "rr_takes inner n s = Some (ws, s')" "rr_rank s x < n"
  shows "\<exists>w \<in> set ws. routed_to x w"
  using assms
proof (induction n arbitrary: s ws)
  case (Suc n)
  obtain w s1 ws' where t: "rr_take_next inner s = Some (w, s1)" "rr_takes inner n s1 = Some (ws', s')"
    "ws = w # ws'"
    using Suc.prems(5) by (auto split: Option.bind_splits)
  show ?case
  proof (cases "routed_to x w")
    case True
    then show ?thesis using t(3) by simp
  next
    case False
    note spec = rr_take_next_scanned [OF Suc.prems(1) t(1)]
    have "slot_at (rr_slots s1) x = slot_at (rr_slots s) x"
      using rr_scan_untouched [OF t(1) [unfolded rr_take_next_def] Suc.prems(3,4)] False by blast
    then have "\<exists>w \<in> set ws'. routed_to x w"
      using Suc.IH [OF spec(1) _ _ Suc.prems(4) t(2)] Suc.prems spec(3)
        rr_rank_step [OF Suc.prems(1-4) t(1) False] by simp
    then show ?thesis using t(3) by simp
  qed
qed simp

section \<open>Properties\<close>

text \<open>
  C23. The rotation is exact under any churn: after any sequence of the branch's operations, over
  any children, also with completions for nothing outstanding, every live child has exactly one
  current entry in the queue, the counter \<open>stale\<close> is the number of the other entries, and
  the queue is at most twice as long as the number of live children.
\<close>

theorem round_robin_queue_bound:
  assumes "rr_exec inner s"
  shows "length (rr_queue s) \<le> 2 * rr_len s \<and>
    rr_stale s = length (filter (\<lambda>e. \<not> rr_valid (rr_slots s) e) (rr_queue s)) \<and>
    distinct (rr_queue s) \<and>
    set (filter (rr_valid (rr_slots s)) (rr_queue s)) =
      (\<lambda>x. (x, sl_generation (rr_slots s ! unat x))) ` set (rr_live_ids s)"
proof -
  have wf: "rr_wf s" using assms by (rule rr_exec_wf)
  have "length (rr_queue s) = length (filter (rr_valid (rr_slots s)) (rr_queue s)) +
      length (filter (\<lambda>e. \<not> rr_valid (rr_slots s) e) (rr_queue s))"
    by (simp add: sum_length_filter_compl)
  with wf rr_valid_entries [OF wf] show ?thesis
    by (simp add: rr_wf_def rr_len_def stale_count_def rr_rotation_def slot_at_def)
qed

definition rr_example :: "nat periodic_leaf bounded_concurrency round_robin" where
  "rr_example =
     snd (the (rr_add_child
       (snd (the (rr_add_child round_robin_new (bounded_concurrency_new 1 (periodic_leaf_new 0 5 0)))))
       (bounded_concurrency_new 1 (periodic_leaf_new 0 7 100))))"

lemma rr_example_simps:
  "rr_slots rr_example =
     [\<lparr>sl_entry = Live (bounded_concurrency_new 1 (periodic_leaf_new 0 5 0)), sl_generation = 0,
       sl_in_flight = 0, sl_live_pos = 0\<rparr>,
      \<lparr>sl_entry = Live (bounded_concurrency_new 1 (periodic_leaf_new 0 7 100)), sl_generation = 0,
       sl_in_flight = 0, sl_live_pos = 1\<rparr>]"
  "rr_live_ids rr_example = [0, 1]" "rr_queue rr_example = [(0, 0), (1, 0)]" "rr_free rr_example = []"
  by (simp_all add: rr_example_def rr_add_child_def round_robin_new_def vec_pop_def u32_max_def)

lemma rr_example_exec: "rr_exec inner rr_example"
proof -
  let ?a = "bounded_concurrency_new 1 (periodic_leaf_new 0 5 0) :: nat periodic_leaf bounded_concurrency"
  let ?b = "bounded_concurrency_new 1 (periodic_leaf_new 0 7 100) :: nat periodic_leaf bounded_concurrency"
  have 1: "rr_add_child round_robin_new ?a =
      Some (0, snd (the (rr_add_child round_robin_new ?a)))"
    by (simp add: rr_add_child_def round_robin_new_def vec_pop_def u32_max_def)
  have 2: "rr_add_child (snd (the (rr_add_child round_robin_new ?a))) ?b = Some (1, rr_example)"
    by (simp add: rr_example_def rr_add_child_def round_robin_new_def vec_pop_def u32_max_def)
  show ?thesis by (rule rre_add [OF rre_add [OF rre_new 1] 2])
qed

theorem round_robin_queue_bound_witness:
  "rr_exec (bounded_concurrency_ops (periodic_leaf_ops (\<lambda>n. (n, Suc n)))) rr_example \<and>
   length (rr_queue rr_example) \<le> 2 * rr_len rr_example"
  using rr_example_exec round_robin_queue_bound [OF rr_example_exec] by blast

text \<open>
  C22. No live child starves: after any sequence of operations, a live child that has work is
  dispatched by one of the next \<open>len\<close> calls of \<open>take_next\<close>, however much work the other
  children have.
\<close>

theorem round_robin_no_starvation:
  assumes "rr_exec inner s" and "x \<in> set (rr_live_ids s)"
    and "sl_entry (rr_slots s ! unat x) = Live c" and "sched_take_next inner c = Some (Some y, c')"
    and "rr_takes inner (rr_len s) s = Some (ws, s')"
  shows "\<exists>w. Some w \<in> set ws \<and> sw_routing w \<noteq> [] \<and> last (sw_routing w) = x"
proof -
  have wf: "rr_wf s" using assms(1) by (rule rr_exec_wf)
  have "\<exists>w \<in> set ws. routed_to x w"
    using rr_takes_serves [OF wf assms(2) _ assms(4,5) rr_rank_bound [OF wf assms(2)]] assms(3)
    by (simp add: slot_at_def)
  then show ?thesis by (auto simp: routed_to_def split: option.splits)
qed

theorem round_robin_no_starvation_witness:
  "\<exists>ws s'. rr_takes (bounded_concurrency_ops (periodic_leaf_ops (\<lambda>n. (n, Suc n)))) 2 rr_example =
       Some (ws, s') \<and>
     (\<exists>w. Some w \<in> set ws \<and> sw_routing w \<noteq> [] \<and> last (sw_routing w) = 1)"
proof -
  let ?ops = "bounded_concurrency_ops (periodic_leaf_ops (\<lambda>n :: nat. (n, Suc n)))"
  let ?b = "bounded_concurrency_new 1 (periodic_leaf_new 0 7 100) :: nat periodic_leaf bounded_concurrency"
  note defs = bc_take_next_def bounded_concurrency_new_def pl_take_next_def pl_due_def
    periodic_leaf_new_def scheduled_work_new_def rp_empty_def
  obtain y c' where y: "sched_take_next ?ops ?b = Some (Some y, c')" by (simp add: defs)
  obtain ws s' where t: "rr_takes ?ops 2 rr_example = Some (ws, s')"
    by (simp add: numeral_2_eq_2 rr_take_next_def rr_scan.simps rr_example_simps defs has_slot_def
        slot_at_def nth_list_update)
  have "\<exists>w. Some w \<in> set ws \<and> sw_routing w \<noteq> [] \<and> last (sw_routing w) = 1"
    by (rule round_robin_no_starvation [OF rr_example_exec _ _ y])
      (use t in \<open>simp_all add: rr_example_simps rr_len_def numeral_2_eq_2\<close>)
  with t show ?thesis by blast
qed

text \<open>
  C24. A completion never reaches a child that inherited an identity: in any run over children
  that meet the scheduler contract, the identity \<open>add_child\<close> returns has no outstanding path, and
  a child handed back by \<open>remove_child\<close> has nothing in flight and its own
  invariant with nothing outstanding.
\<close>

theorem round_robin_ids_recycled_after_drain:
  assumes "scheduler inner cinvar horizon cqueues" and "rr_run inner cinvar horizon s paths"
  shows "(\<forall>child cid s'. rr_add_child s child = Some (cid, s') \<longrightarrow> (\<forall>p \<in># paths. p \<noteq> [] \<and> last p \<noteq> cid)) \<and>
    (\<forall>cid c s'. rr_remove_child s cid = Some (Some (Detached c), s') \<longrightarrow>
      cinvar c {#} \<and> (\<forall>p \<in># paths. last p \<noteq> cid))"
proof -
  have inv: "rr_invar cinvar s paths" using assms(2,1) by (rule rr_run_invar)
  have ne: "p \<noteq> []" if "p \<in># paths" for p using inv that by (simp add: rr_invar_def)
  have free: "last p \<noteq> x" if sub: "rp_sub x paths = {#}" and p: "p \<in># paths" for x p
  proof
    assume "last p = x"
    then obtain q where "p = rp_push x q" using ne [OF p] by (metis rp_path_cases)
    with rp_sub_mem [of x q paths] sub p show False by simp
  qed
  show ?thesis
    using rr_add_child_invar(1) [OF inv] rr_remove_child_invar(2) [OF inv] ne free by metis
qed

theorem round_robin_ids_recycled_after_drain_witness:
  "\<exists>w s. rr_take_next (bounded_concurrency_ops (periodic_leaf_ops (\<lambda>n. (n, Suc n)))) rr_example =
       Some (Some w, s) \<and> sw_routing w = [0] \<and>
     (\<forall>child cid s'. rr_add_child s child = Some (cid, s') \<longrightarrow> cid \<noteq> 0) \<and>
     (\<forall>c s'. rr_remove_child s 0 \<noteq> Some (Some (Detached c), s'))"
proof -
  let ?ops = "bounded_concurrency_ops (periodic_leaf_ops (\<lambda>n :: nat. (n, Suc n)))"
  let ?run = "rr_run ?ops (bc_invar pl_invar) instant_max"
  let ?a = "bounded_concurrency_new 1 (periodic_leaf_new 0 5 0) :: nat periodic_leaf bounded_concurrency"
  let ?b = "bounded_concurrency_new 1 (periodic_leaf_new 0 7 100) :: nat periodic_leaf bounded_concurrency"
  note defs = bc_take_next_def bounded_concurrency_new_def pl_take_next_def pl_due_def
    periodic_leaf_new_def scheduled_work_new_def rp_empty_def
  have leaf: "bc_invar pl_invar ?a {#}" "bc_invar pl_invar ?b {#}"
    by (simp_all add: bc_invar_def bc_counts_def bounded_concurrency_new_def pl_invar_def)
  have 1: "rr_add_child round_robin_new ?a = Some (0, snd (the (rr_add_child round_robin_new ?a)))"
    by (simp add: rr_add_child_def round_robin_new_def vec_pop_def u32_max_def)
  have 2: "rr_add_child (snd (the (rr_add_child round_robin_new ?a))) ?b = Some (1, rr_example)"
    by (simp add: rr_example_def rr_add_child_def round_robin_new_def vec_pop_def u32_max_def)
  have "?run (snd (the (rr_add_child round_robin_new ?a))) {#}"
    by (rule rrr_add [OF rrr_new _ 1]) (rule leaf)
  then have run: "?run rr_example {#}" by (rule rrr_add [OF _ _ 2]) (rule leaf)
  obtain w s where t: "rr_take_next ?ops rr_example = Some (Some w, s)" "sw_routing w = [0]"
    by (simp add: rr_take_next_def rr_scan.simps rr_example_simps defs has_slot_def slot_at_def
        rp_push_def)
  have "?run s {#[0]#}" using rrr_take [OF run _ t(1)] t(2) by (simp add: u32_max_def)
  from round_robin_ids_recycled_after_drain
      [OF serial_leaf.bc.scheduler_axioms [of "\<lambda>n :: nat. (n, Suc n)"] this] t
  show ?thesis by fastforce
qed

end
