(* ===== verification/Strict_Priority.thy ===== *)
theory Strict_Priority
  imports Round_Robin
begin

text \<open>
  \<open>StrictPriority\<close> (\<open>dispatcher/src/schedulers/strict_priority.rs\<close>): classes of children by an
  8-bit priority, a round robin within each class. The \<open>BTreeMap\<close> of classes is an association
  list in ascending order of its keys, the order its iterators have.
\<close>

section \<open>The branch\<close>

record 'c strict_priority =
  sp_classes :: "(u8 \<times> 'c round_robin) list"

definition strict_priority_new :: "'c strict_priority" where
  "strict_priority_new = \<lparr>sp_classes = []\<rparr>"

text \<open>\<open>BTreeMap::insert\<close> at a key: replaces its value or keeps the order.\<close>

fun btree_insert :: "'k::linorder \<Rightarrow> 'v \<Rightarrow> ('k \<times> 'v) list \<Rightarrow> ('k \<times> 'v) list" where
  "btree_insert k v [] = [(k, v)]"
| "btree_insert k v ((l, w) # rest) =
     (if k < l then (k, v) # (l, w) # rest
      else if k = l then (k, v) # rest
      else (l, w) # btree_insert k v rest)"

definition sp_add_child :: "'c strict_priority \<Rightarrow> 'c \<Rightarrow> u8 \<Rightarrow> ((u8 \<times> u32) \<times> 'c strict_priority) outcome" where
  "sp_add_child s child priority = do {
     let rr = (case map_of (sp_classes s) priority of None \<Rightarrow> round_robin_new | Some rr \<Rightarrow> rr);
     (cid, rr) \<leftarrow> rr_add_child rr child;
     Some ((priority, cid), s\<lparr>sp_classes := btree_insert priority rr (sp_classes s)\<rparr>)
   }"

definition sp_attach_child :: "'c strict_priority \<Rightarrow> 'c \<Rightarrow> u8 \<Rightarrow> ((u8 \<times> u32) \<times> 'c strict_priority) outcome" where
  "sp_attach_child s child priority = sp_add_child s child priority"

definition sp_class_count :: "'c strict_priority \<Rightarrow> nat" where
  "sp_class_count s = length (sp_classes s)"

text \<open>The loop of \<open>update_ready\<close> over the classes.\<close>

fun sp_poll ::
  "('c, 't, 'm) scheduler_ops \<Rightarrow> instant \<Rightarrow> (u8 \<times> 'c round_robin) list \<Rightarrow> bool \<Rightarrow> instant option \<Rightarrow>
   bool \<times> instant option \<times> (u8 \<times> 'c round_robin) list" where
  "sp_poll inner now [] ready next_at = (ready, next_at, [])"
| "sp_poll inner now ((k, rr) # rest) ready next_at =
     (let (r, rr) = rr_update_ready inner rr now;
          (ready, next_at, rest) = sp_poll inner now rest (ready \<or> rd_ready r)
            (min_deadline next_at (rd_next_update_at r))
      in (ready, next_at, (k, rr) # rest))"

definition sp_update_ready ::
  "('c, 't, 'm) scheduler_ops \<Rightarrow> 'c strict_priority \<Rightarrow> instant \<Rightarrow> readiness \<times> 'c strict_priority" where
  "sp_update_ready inner s now =
     (let (ready, next_at, classes) = sp_poll inner now (sp_classes s) False None in
      (\<lparr>rd_ready = ready, rd_next_update_at = next_at, rd_next_cost = None\<rparr>,
       s\<lparr>sp_classes := classes\<rparr>))"

text \<open>The loop of \<open>take_next\<close>, over the classes in descending order.\<close>

fun sp_scan ::
  "('c, 't, 'm) scheduler_ops \<Rightarrow> (u8 \<times> 'c round_robin) list \<Rightarrow>
   (('t, 'm with_priority) scheduled_work option \<times> (u8 \<times> 'c round_robin) list) outcome" where
  "sp_scan inner [] = Some (None, [])"
| "sp_scan inner ((priority, rr) # rest) = do {
     (work, rr) \<leftarrow> rr_take_next inner rr;
     case work of
       Some w \<Rightarrow>
         Some (Some \<lparr>sw_meta = \<lparr>wp_inner = sw_meta w, wp_priority = priority\<rparr>,
                     sw_routing = rp_push (ucast priority) (sw_routing w),
                     sw_payload = sw_payload w\<rparr>,
               (priority, rr) # rest)
     | None \<Rightarrow> do {
         (w, rest) \<leftarrow> sp_scan inner rest;
         Some (w, (priority, rr) # rest)
       }
   }"

definition sp_take_next ::
  "('c, 't, 'm) scheduler_ops \<Rightarrow> 'c strict_priority \<Rightarrow>
   (('t, 'm with_priority) scheduled_work option \<times> 'c strict_priority) outcome" where
  "sp_take_next inner s = do {
     (w, classes) \<leftarrow> sp_scan inner (rev (sp_classes s));
     Some (w, s\<lparr>sp_classes := rev classes\<rparr>)
   }"

definition sp_on_complete ::
  "('c, 't, 'm) scheduler_ops \<Rightarrow> 'c strict_priority \<Rightarrow> 'm with_priority completion \<Rightarrow>
   ('c strict_priority \<times> emitted) outcome" where
  "sp_on_complete inner s completion =
     (case rp_pop (cp_routing completion) of
        (None, _) \<Rightarrow> Some (s, [])
      | (Some prio_tag, routing) \<Rightarrow>
          (let priority = (if unat prio_tag < 256 then ucast prio_tag else 0);
               inner_completion =
                 \<lparr>cp_completed_at = cp_completed_at completion, cp_outcome = cp_outcome completion,
                  cp_latency = cp_latency completion, cp_meta = wp_inner (cp_meta completion),
                  cp_routing = routing\<rparr>
           in case map_of (sp_classes s) priority of
                None \<Rightarrow> Some (s, [])
              | Some rr \<Rightarrow> do {
                  (rr, evs) \<leftarrow> rr_on_complete inner rr inner_completion;
                  Some (s\<lparr>sp_classes := btree_insert priority rr (sp_classes s)\<rparr>, evs)
                }))"

fun sp_register_classes ::
  "('c, 't, 'm) scheduler_ops \<Rightarrow> (u8 \<times> 'c round_robin) list \<Rightarrow> runtime_signals \<Rightarrow>
   ((u8 \<times> 'c round_robin) list \<times> runtime_signals) outcome" where
  "sp_register_classes inner [] sig = Some ([], sig)"
| "sp_register_classes inner ((k, rr) # rest) sig = do {
     (rr, sig) \<leftarrow> rr_register inner rr sig;
     (rest, sig) \<leftarrow> sp_register_classes inner rest sig;
     Some ((k, rr) # rest, sig)
   }"

definition sp_register ::
  "('c, 't, 'm) scheduler_ops \<Rightarrow> 'c strict_priority \<Rightarrow> runtime_signals \<Rightarrow>
   ('c strict_priority \<times> runtime_signals) outcome" where
  "sp_register inner s sig = do {
     (classes, sig) \<leftarrow> sp_register_classes inner (sp_classes s) sig;
     Some (s\<lparr>sp_classes := classes\<rparr>, sig)
   }"

definition strict_priority_ops ::
  "('c, 't, 'm) scheduler_ops \<Rightarrow> ('c strict_priority, 't, 'm with_priority) scheduler_ops" where
  "strict_priority_ops inner = \<lparr>
     sched_update_ready = sp_update_ready inner,
     sched_take_next = sp_take_next inner,
     sched_on_complete = sp_on_complete inner,
     sched_register = sp_register inner\<rparr>"

lemma sp_ops_simps [simp]:
  "sched_update_ready (strict_priority_ops inner) = sp_update_ready inner"
  "sched_take_next (strict_priority_ops inner) = sp_take_next inner"
  "sched_on_complete (strict_priority_ops inner) = sp_on_complete inner"
  "sched_register (strict_priority_ops inner) = sp_register inner"
  by (simp_all add: strict_priority_ops_def)

section \<open>Class maps\<close>

definition btree_sorted :: "('k::linorder \<times> 'v) list \<Rightarrow> bool" where
  "btree_sorted xs \<longleftrightarrow> sorted_wrt (<) (map fst xs)"

lemma btree_insert_keys: "set (map fst (btree_insert k v xs)) = insert k (set (map fst xs))"
  by (induction k v xs rule: btree_insert.induct) auto

lemma btree_insert_sorted: "btree_sorted xs \<Longrightarrow> btree_sorted (btree_insert k v xs)"
proof (induction k v xs rule: btree_insert.induct)
  case (2 k v l w rest)
  then show ?case using btree_insert_keys [of k v rest] by (auto simp: btree_sorted_def)
qed (simp add: btree_sorted_def)

lemma map_of_btree_insert: "map_of (btree_insert k v xs) = (map_of xs)(k \<mapsto> v)"
  by (induction k v xs rule: btree_insert.induct) auto

lemma btree_distinct: "btree_sorted xs \<Longrightarrow> distinct (map fst xs)"
  by (simp add: btree_sorted_def strict_sorted_iff)

lemma btree_mem: "btree_sorted xs \<Longrightarrow> (k, v) \<in> set xs \<longleftrightarrow> map_of xs k = Some v"
  by (simp add: btree_distinct)

text \<open>Class maps with the same keys and related values.\<close>

definition same_classes ::
  "(u8 \<Rightarrow> 'a \<Rightarrow> 'b \<Rightarrow> bool) \<Rightarrow> (u8 \<times> 'a) list \<Rightarrow> (u8 \<times> 'b) list \<Rightarrow> bool" where
  "same_classes P = list_all2 (\<lambda>a b. fst b = fst a \<and> P (fst a) (snd a) (snd b))"

lemma same_classes_keys: "same_classes P xs ys \<Longrightarrow> map fst ys = map fst xs"
  unfolding same_classes_def by (induction rule: list_all2_induct) simp_all

lemma same_classes_rev: "same_classes P xs ys \<Longrightarrow> same_classes P (rev xs) (rev ys)"
  by (simp add: same_classes_def list_all2_rev)

lemma same_classes_values:
  assumes "same_classes P xs ys" "(k, b) \<in> set ys"
  obtains a where "(k, a) \<in> set xs" "P k a b"
proof -
  obtain i where i: "i < length ys" "ys ! i = (k, b)" using assms(2) by (auto simp: in_set_conv_nth)
  then have "i < length xs" "fst (xs ! i) = k" "P k (snd (xs ! i)) b"
    using assms(1) by (auto simp: same_classes_def list_all2_conv_all_nth)
  then show thesis by (intro that [of "snd (xs ! i)"]) (metis nth_mem prod.collapse, assumption)
qed

lemma same_classes_forward:
  assumes "same_classes P xs ys" "(k, a) \<in> set xs"
  shows "\<exists>b. (k, b) \<in> set ys \<and> P k a b"
proof -
  obtain i where i: "i < length xs" "xs ! i = (k, a)" using assms(2) by (auto simp: in_set_conv_nth)
  then have "i < length ys" "fst (ys ! i) = k" "P k a (snd (ys ! i))"
    using assms(1) by (auto simp: same_classes_def list_all2_conv_all_nth)
  then show ?thesis by (metis nth_mem prod.collapse)
qed

lemma sp_poll_spec:
  assumes "sp_poll inner now cs ready next_at = (ready', next_at', cs')"
  shows "same_classes (\<lambda>k a b. b = snd (rr_update_ready inner a now)) cs cs'"
    "ready' \<longleftrightarrow> ready \<or> (\<exists>(k, a) \<in> set cs. rd_ready (fst (rr_update_ready inner a now)))"
proof -
  have "same_classes (\<lambda>k a b. b = snd (rr_update_ready inner a now)) cs cs' \<and>
    (ready' \<longleftrightarrow> ready \<or> (\<exists>(k, a) \<in> set cs. rd_ready (fst (rr_update_ready inner a now))))"
    using assms
  proof (induction inner now cs ready next_at arbitrary: ready' next_at' cs' rule: sp_poll.induct)
    case (2 inner now k rr rest ready next_at)
    obtain r rr' where r: "rr_update_ready inner rr now = (r, rr')" by fastforce
    obtain b t rest' where p: "sp_poll inner now rest (ready \<or> rd_ready r)
        (min_deadline next_at (rd_next_update_at r)) = (b, t, rest')" by (metis prod_cases3)
    from 2(1) [OF r [symmetric] refl p] 2(2) r p show ?case
      by (auto simp: same_classes_def Let_def)
  qed (simp add: same_classes_def)
  then show "same_classes (\<lambda>k a b. b = snd (rr_update_ready inner a now)) cs cs'"
    "ready' \<longleftrightarrow> ready \<or> (\<exists>(k, a) \<in> set cs. rd_ready (fst (rr_update_ready inner a now)))"
    by simp_all
qed

text \<open>A scan asks the classes in order until one has work, and leaves the rest alone.\<close>

lemma sp_scan_spec:
  assumes "sp_scan inner cs = Some (w, cs')"
  shows "(case w of
      None \<Rightarrow> same_classes (\<lambda>k a b. rr_take_next inner a = Some (None, b)) cs cs'
    | Some x \<Rightarrow> (\<exists>pre k a post pre' b y. cs = pre @ (k, a) # post \<and> cs' = pre' @ (k, b) # post \<and>
        same_classes (\<lambda>k a b. rr_take_next inner a = Some (None, b)) pre pre' \<and>
        rr_take_next inner a = Some (Some y, b) \<and>
        x = \<lparr>sw_meta = \<lparr>wp_inner = sw_meta y, wp_priority = k\<rparr>,
             sw_routing = rp_push (ucast k) (sw_routing y), sw_payload = sw_payload y\<rparr>))"
  using assms
proof (induction inner cs arbitrary: w cs' rule: sp_scan.induct)
  case (1 inner)
  then show ?case by (simp add: same_classes_def)
next
  case (2 inner k rr rest)
  obtain v rr' where v: "rr_take_next inner rr = Some (v, rr')"
    using 2(2) by (auto split: Option.bind_splits)
  show ?case
  proof (cases v)
    case (Some y)
    with 2(2) v have "w = Some \<lparr>sw_meta = \<lparr>wp_inner = sw_meta y, wp_priority = k\<rparr>,
             sw_routing = rp_push (ucast k) (sw_routing y), sw_payload = sw_payload y\<rparr>"
      "cs' = (k, rr') # rest" by auto
    with v Some show ?thesis by (fastforce intro: exI [of _ "[]"] simp: same_classes_def)
  next
    case None
    with 2(2) v obtain rest' where r: "sp_scan inner rest = Some (w, rest')" "cs' = (k, rr') # rest'"
      by (auto split: Option.bind_splits)
    note IH = 2(1) [OF v refl None r(1)]
    show ?thesis
    proof (cases w)
      case wn: None
      with IH v None r(2) show ?thesis by (simp add: same_classes_def)
    next
      case (Some x)
      with IH obtain pre l a post pre' b y where *: "rest = pre @ (l, a) # post" "rest' = pre' @ (l, b) # post"
        "same_classes (\<lambda>k a b. rr_take_next inner a = Some (None, b)) pre pre'"
        "rr_take_next inner a = Some (Some y, b)"
        "x = \<lparr>sw_meta = \<lparr>wp_inner = sw_meta y, wp_priority = l\<rparr>,
             sw_routing = rp_push (ucast l) (sw_routing y), sw_payload = sw_payload y\<rparr>"
        by auto
      show ?thesis unfolding Some option.case
        by (rule exI [of _ "(k, rr) # pre"], rule exI [of _ l], rule exI [of _ a], rule exI [of _ post],
            rule exI [of _ "(k, rr') # pre'"], rule exI [of _ b], rule exI [of _ y])
          (use * v None r(2) in \<open>simp add: same_classes_def\<close>)
    qed
  qed
qed

lemma sp_scan_taken:
  assumes "sp_scan inner cs = Some (Some x, cs')"
  obtains k a b y where "(k, a) \<in> set cs" "rr_take_next inner a = Some (Some y, b)"
proof -
  from sp_scan_spec [OF assms] obtain pre k a post b y where
    "cs = pre @ (k, a) # post" "rr_take_next inner a = Some (Some y, b)" by auto
  then show thesis by (intro that [of k a y b]) simp_all
qed

section \<open>The contract\<close>

definition class_tag :: "u8 \<Rightarrow> u32" where
  "class_tag k = ucast k"

definition sp_invar ::
  "('c \<Rightarrow> routing_path multiset \<Rightarrow> bool) \<Rightarrow> 'c strict_priority \<Rightarrow> routing_path multiset \<Rightarrow> bool" where
  "sp_invar cinvar s paths \<longleftrightarrow> btree_sorted (sp_classes s) \<and>
     (\<forall>p \<in># paths. p \<noteq> [] \<and> last p \<in> class_tag ` fst ` set (sp_classes s)) \<and>
     (\<forall>(k, rr) \<in> set (sp_classes s). rr_invar cinvar rr (rp_sub (class_tag k) paths))"

definition sp_queues :: "('c \<Rightarrow> nat) \<Rightarrow> (u8 \<times> 'c round_robin) list \<Rightarrow> nat" where
  "sp_queues cqueues cs = (\<Sum>(k, rr) \<leftarrow> cs. rr_queues cqueues (rr_slots rr))"

lemma unat_class_tag [simp]: "unat (class_tag k) = unat k"
proof -
  have "unat k < 2 ^ 8" using unsigned_less [of k, where 'a = nat] by simp
  then show ?thesis by (simp add: class_tag_def unsigned_ucast_eq take_bit_nat_eq_self)
qed

lemma class_tag_inj [simp]: "class_tag k = class_tag l \<longleftrightarrow> k = l"
  by (simp add: word_unat_eq_iff)

lemma class_tag_decode: "unat k < 256" "ucast (class_tag k) = k"
proof -
  show k: "unat k < 256" using unsigned_less [of k, where 'a = nat] by simp
  then show "ucast (class_tag k) = k"
    by (simp add: word_unat_eq_iff [of _ k] unsigned_ucast_eq take_bit_nat_eq_self)
qed

lemma sp_invarD:
  assumes "sp_invar cinvar s paths"
  shows "btree_sorted (sp_classes s)"
    "(k, rr) \<in> set (sp_classes s) \<Longrightarrow> rr_invar cinvar rr (rp_sub (class_tag k) paths)"
    "p \<in># paths \<Longrightarrow> p \<noteq> []"
    "p \<in># paths \<Longrightarrow> \<exists>k \<in> fst ` set (sp_classes s). last p = class_tag k"
  using assms by (auto simp: sp_invar_def)

locale strict_priority_node =
  round_robin_node inner cinvar horizon cqueues
  for inner :: "('c, 't, 'm) scheduler_ops"
    and cinvar :: "'c \<Rightarrow> routing_path multiset \<Rightarrow> bool"
    and horizon :: instant
    and cqueues :: "'c \<Rightarrow> nat"
begin

lemma sp_scan_ok:
  assumes "\<And>k rr. (k, rr) \<in> set cs \<Longrightarrow> rr_invar cinvar rr (rp_sub (class_tag k) paths)"
    "distinct (map fst cs)" "size paths < u32_max"
  shows "\<exists>w cs'. sp_scan inner cs = Some (w, cs') \<and> map fst cs' = map fst cs \<and>
    (\<forall>x. w = Some x \<longrightarrow> (\<exists>k \<in> fst ` set cs. \<exists>q. sw_routing x = rp_push (class_tag k) q)) \<and>
    (\<forall>(k, rr) \<in> set cs'. rr_invar cinvar rr (rp_sub (class_tag k) (taken w paths)))"
  using assms
proof (induction cs)
  case Nil
  then show ?case by simp
next
  case (Cons c cs)
  obtain k rr where c: "c = (k, rr)" by fastforce
  let ?sub = "rp_sub (class_tag k) paths"
  have "size ?sub < u32_max" using size_rp_sub [of "class_tag k" paths] Cons.prems(3) by simp
  then obtain v rr' where v: "rr_take_next inner rr = Some (v, rr')" "rr_invar cinvar rr' (taken v ?sub)"
    using rr_take_next_ok [of rr ?sub] Cons.prems(1) c by auto
  have fresh: "k \<notin> fst ` set cs" using Cons.prems(2) c by simp
  show ?case
  proof (cases v)
    case (Some y)
    have "rr_invar cinvar r (rp_sub (class_tag l) (add_mset (rp_push (class_tag k) (sw_routing y)) paths))"
      if "(l, r) \<in> set cs" for l r
      using that fresh Cons.prems(1) by (force simp: rev_image_eqI)
    with v Some c show ?thesis by (auto simp: class_tag_def)
  next
    case None
    obtain w cs' where w: "sp_scan inner cs = Some (w, cs')" "map fst cs' = map fst cs"
      "\<forall>x. w = Some x \<longrightarrow> (\<exists>k \<in> fst ` set cs. \<exists>q. sw_routing x = rp_push (class_tag k) q)"
      "\<forall>(k, rr) \<in> set cs'. rr_invar cinvar rr (rp_sub (class_tag k) (taken w paths))"
      using Cons.IH Cons.prems by auto
    have "rp_sub (class_tag k) (taken w paths) = ?sub"
      using w(3) fresh by (cases w) (auto simp: rev_image_eqI)
    with v None c w show ?thesis by auto
  qed
qed

lemma sp_take_next_ok:
  assumes "sp_invar cinvar s paths" "size paths < u32_max"
  shows "\<exists>w s'. sp_take_next inner s = Some (w, s') \<and> sp_invar cinvar s' (taken w paths)"
proof -
  let ?cs = "rev (sp_classes s)"
  have dist: "distinct (map fst ?cs)"
    using assms(1) by (simp add: sp_invar_def btree_distinct rev_map [symmetric])
  have ok: "rr_invar cinvar rr (rp_sub (class_tag k) paths)" if "(k, rr) \<in> set ?cs" for k rr
    using that assms(1) by (auto simp: sp_invar_def)
  obtain w cs' where w: "sp_scan inner ?cs = Some (w, cs')" "map fst cs' = map fst ?cs"
    "\<forall>x. w = Some x \<longrightarrow> (\<exists>k \<in> fst ` set ?cs. \<exists>q. sw_routing x = rp_push (class_tag k) q)"
    "\<forall>(k, rr) \<in> set cs'. rr_invar cinvar rr (rp_sub (class_tag k) (taken w paths))"
    using sp_scan_ok [OF ok dist assms(2)] by blast
  have keys: "map fst (rev cs') = map fst (sp_classes s)" using w(2) by (simp add: rev_map [symmetric])
  then have set: "fst ` set cs' = fst ` set (sp_classes s)" by (metis set_map set_rev)
  have "p \<noteq> [] \<and> last p \<in> class_tag ` fst ` set (sp_classes s)" if "p \<in># taken w paths" for p
  proof (cases "p \<in># paths")
    case True
    then show ?thesis using sp_invarD(3,4) [OF assms(1) True] by blast
  next
    case False
    with that obtain x where x: "w = Some x" "p = sw_routing x" by (cases w) auto
    with w(3) obtain k q where "k \<in> fst ` set ?cs" "p = rp_push (class_tag k) q" by auto
    then show ?thesis by simp
  qed
  then have "sp_invar cinvar (s\<lparr>sp_classes := rev cs'\<rparr>) (taken w paths)"
    using assms(1) w(4) keys set by (simp add: sp_invar_def btree_sorted_def)
  with w(1) show ?thesis by (simp add: sp_take_next_def)
qed

lemma sp_update_ready_spec:
  assumes "sp_update_ready inner s now = (r, s')"
  shows "same_classes (\<lambda>k a b. b = snd (rr_update_ready inner a now)) (sp_classes s) (sp_classes s')"
    "rd_ready r \<longleftrightarrow> (\<exists>(k, a) \<in> set (sp_classes s). rd_ready (fst (rr_update_ready inner a now)))"
proof -
  obtain b t cs where p: "sp_poll inner now (sp_classes s) False None = (b, t, cs)"
    by (metis prod_cases3)
  with assms have "rd_ready r = b" "sp_classes s' = cs" by (auto simp: sp_update_ready_def)
  with sp_poll_spec [OF p] show
    "same_classes (\<lambda>k a b. b = snd (rr_update_ready inner a now)) (sp_classes s) (sp_classes s')"
    "rd_ready r \<longleftrightarrow> (\<exists>(k, a) \<in> set (sp_classes s). rd_ready (fst (rr_update_ready inner a now)))"
    by simp_all
qed

lemma sp_invar_classes:
  assumes inv: "sp_invar cinvar s paths" and same: "same_classes P (sp_classes s) (sp_classes s')"
    and ok: "\<And>k a b. P k a b \<Longrightarrow> rr_invar cinvar a (rp_sub (class_tag k) paths) \<Longrightarrow>
      rr_invar cinvar b (rp_sub (class_tag k) paths)"
  shows "sp_invar cinvar s' paths"
proof -
  have keys: "map fst (sp_classes s') = map fst (sp_classes s)" using same by (rule same_classes_keys)
  then have set: "fst ` set (sp_classes s') = fst ` set (sp_classes s)" by (metis set_map)
  have "rr_invar cinvar b (rp_sub (class_tag k) paths)" if "(k, b) \<in> set (sp_classes s')" for k b
    using same_classes_values [OF same that] ok inv by (fastforce simp: sp_invar_def)
  with inv keys set show ?thesis by (auto simp: sp_invar_def btree_sorted_def)
qed

lemma sp_ready_iff_work:
  assumes inv: "sp_invar cinvar s paths" "size paths < u32_max"
    and u: "sp_update_ready inner s now = (r, s')" and t: "sp_take_next inner s' = Some (w, s'')"
  shows "rd_ready r \<longleftrightarrow> w \<noteq> None"
proof -
  note spec = sp_update_ready_spec [OF u]
  obtain cs where scan: "sp_scan inner (rev (sp_classes s')) = Some (w, cs)"
    using t by (auto simp: sp_take_next_def split: Option.bind_splits)
  have ask: "rd_ready (fst (rr_update_ready inner a now)) \<longleftrightarrow> v \<noteq> None"
    if "(k, a) \<in> set (sp_classes s)" "rr_take_next inner (snd (rr_update_ready inner a now)) = Some (v, d)"
    for k a v d
  proof -
    have "rr_invar cinvar a (rp_sub (class_tag k) paths)" using inv(1) that(1) by (auto simp: sp_invar_def)
    then show ?thesis
      using rr_ready_iff_work [OF _ _ surjective_pairing that(2)] size_rp_sub [of "class_tag k" paths] inv(2)
      by simp
  qed
  show ?thesis
  proof (cases w)
    case None
    then have all: "same_classes (\<lambda>k a b. rr_take_next inner a = Some (None, b)) (rev (sp_classes s')) cs"
      using sp_scan_spec [OF scan] by simp
    have "\<not> rd_ready (fst (rr_update_ready inner a now))" if a: "(k, a) \<in> set (sp_classes s)" for k a
    proof -
      have "(k, snd (rr_update_ready inner a now)) \<in> set (sp_classes s')"
        using same_classes_forward [OF spec(1) a] by blast
      then obtain b where "rr_take_next inner (snd (rr_update_ready inner a now)) = Some (None, b)"
        using same_classes_forward [OF all, of k] by auto
      from ask [OF a this] show ?thesis by simp
    qed
    with spec(2) None show ?thesis by auto
  next
    case (Some x)
    then obtain k b d y where b: "(k, b) \<in> set (sp_classes s')" "rr_take_next inner b = Some (Some y, d)"
      using sp_scan_taken [OF scan [unfolded Some]] unfolding set_rev by metis
    obtain a where "(k, a) \<in> set (sp_classes s)" "b = snd (rr_update_ready inner a now)"
      using same_classes_values [OF spec(1) b(1)] by blast
    with ask [of k a "Some y" d] b(2) spec(2) Some show ?thesis by auto
  qed
qed

lemma sp_on_complete_ok:
  assumes inv: "sp_invar cinvar s paths" and p: "cp_routing c \<in># paths" and h: "cp_completed_at c \<le> horizon"
  shows "\<exists>s' evs. sp_on_complete inner s c = Some (s', evs) \<and>
    sp_invar cinvar s' (paths - {#cp_routing c#})"
proof -
  have "cp_routing c \<noteq> []" and "last (cp_routing c) \<in> class_tag ` fst ` set (sp_classes s)"
    using inv p by (simp_all add: sp_invar_def)
  then obtain k rr where "(k, rr) \<in> set (sp_classes s)" "last (cp_routing c) = class_tag k" by auto
  moreover obtain q where "cp_routing c = rp_push (last (cp_routing c)) q"
    using \<open>cp_routing c \<noteq> []\<close> by (rule rp_path_cases)
  ultimately have k: "(k, rr) \<in> set (sp_classes s)" "cp_routing c = rp_push (class_tag k) q" by simp_all
  have sorted: "btree_sorted (sp_classes s)" using inv by (simp add: sp_invar_def)
  have get: "map_of (sp_classes s) k = Some rr" using k(1) btree_mem [OF sorted] by blast
  let ?c = "\<lparr>cp_completed_at = cp_completed_at c, cp_outcome = cp_outcome c, cp_latency = cp_latency c,
    cp_meta = wp_inner (cp_meta c), cp_routing = q\<rparr>"
  let ?sub = "rp_sub (class_tag k) paths"
  obtain rr' evs where rr': "rr_on_complete inner rr ?c = Some (rr', evs)" "rr_invar cinvar rr' (?sub - {#q#})"
    using rr_on_complete_ok [OF sp_invarD(2) [OF inv k(1)], of ?c] p h k(2) rp_sub_mem [of "class_tag k" q paths]
    by fastforce
  let ?s' = "s\<lparr>sp_classes := btree_insert k rr' (sp_classes s)\<rparr>"
  have "sp_on_complete inner s c = Some (?s', evs)"
    using rr'(1) get by (simp add: sp_on_complete_def k(2) class_tag_decode Let_def)
  moreover have "rr_invar cinvar r (rp_sub (class_tag l) (paths - {#cp_routing c#}))"
    if "(l, r) \<in> set (sp_classes ?s')" for l r
    using that btree_mem [OF btree_insert_sorted [OF sorted], of l r k rr'] btree_mem [OF sorted, of l r]
      sp_invarD(2) [OF inv, of l r] rr'(2) p
    by (auto simp: map_of_btree_insert k(2) rp_sub_diff split: if_splits)
  moreover have "p \<noteq> [] \<and> last p \<in> class_tag ` fst ` set (sp_classes ?s')"
    if "p \<in># paths - {#cp_routing c#}" for p
    using sp_invarD(3,4) [OF inv in_diffD [OF that]] btree_insert_keys [of k rr' "sp_classes s"] by auto
  ultimately have "sp_invar cinvar ?s' (paths - {#cp_routing c#})"
    using btree_insert_sorted [OF sorted] unfolding sp_invar_def by auto
  then show ?thesis using \<open>sp_on_complete inner s c = Some (?s', evs)\<close> by blast
qed

end

context strict_priority_node
begin

lemma sp_register_classes_ok:
  assumes "sp_register_classes inner cs sig = Some (cs', sig')"
    "\<And>k rr. (k, rr) \<in> set cs \<Longrightarrow> rr_invar cinvar rr (rp_sub (class_tag k) paths)"
  shows "same_classes (\<lambda>k a b. rr_invar cinvar b (rp_sub (class_tag k) paths)) cs cs' \<and>
    sig_identity sig' = sig_identity sig \<and>
    unat (sig_next_queue_id sig') \<le> unat (sig_next_queue_id sig) + sp_queues cqueues cs"
  using assms
proof (induction cs arbitrary: sig cs')
  case Nil
  then show ?case by (simp add: same_classes_def sp_queues_def)
next
  case (Cons c cs)
  obtain k rr where c: "c = (k, rr)" by fastforce
  obtain rr' sig1 cs1 where r: "rr_register inner rr sig = Some (rr', sig1)"
    "sp_register_classes inner cs sig1 = Some (cs1, sig')" "cs' = (k, rr') # cs1"
    using Cons.prems(1) c by (auto split: Option.bind_splits)
  have "rr_invar cinvar rr (rp_sub (class_tag k) paths)" using Cons.prems(2) c by simp
  from rr_register_invar [OF this r(1)] Cons.IH [OF r(2)] Cons.prems(2) c r(3) show ?case
    by (auto simp: same_classes_def sp_queues_def)
qed

lemma sp_register_classes_returns:
  assumes "\<And>k rr. (k, rr) \<in> set cs \<Longrightarrow> rr_invar cinvar rr (rp_sub (class_tag k) paths)"
    "unat (sig_next_queue_id sig) + sp_queues cqueues cs \<le> u64_max"
  shows "sp_register_classes inner cs sig \<noteq> None"
  using assms
proof (induction cs arbitrary: sig)
  case (Cons c cs)
  obtain k rr where c: "c = (k, rr)" by fastforce
  have inv: "rr_invar cinvar rr (rp_sub (class_tag k) paths)" using Cons.prems(1) c by simp
  obtain rr' sig1 where r: "rr_register inner rr sig = Some (rr', sig1)"
    using rr_register_returns [OF inv, of sig] Cons.prems(2) c by (auto simp: sp_queues_def)
  have "sp_register_classes inner cs sig1 \<noteq> None"
    using Cons.IH [of sig1] Cons.prems rr_register_invar [OF inv r] c by (auto simp: sp_queues_def)
  with r c show ?case by auto
qed simp

end

sublocale strict_priority_node \<subseteq>
  sp: scheduler "strict_priority_ops inner" "sp_invar cinvar" horizon "\<lambda>s. sp_queues cqueues (sp_classes s)"
proof
  fix s paths now r s'
  assume inv: "sp_invar cinvar s paths"
    and u: "sched_update_ready (strict_priority_ops inner) s now = (r, s')"
  from u have "same_classes (\<lambda>k a b. b = snd (rr_update_ready inner a now)) (sp_classes s) (sp_classes s')"
    by (intro sp_update_ready_spec(1) [of s now r]) simp
  then show "sp_invar cinvar s' paths"
    by (rule sp_invar_classes [OF inv]) (auto intro: rr_update_ready_invar [OF _ surjective_pairing])
next
  fix s paths sig s' sig'
  assume inv: "sp_invar cinvar s paths"
    and r: "sched_register (strict_priority_ops inner) s sig = Some (s', sig')"
  from r obtain cs where cs: "sp_register_classes inner (sp_classes s) sig = Some (cs, sig')"
    "sp_classes s' = cs"
    by (auto simp: sp_register_def split: Option.bind_splits)
  have "\<And>k rr. (k, rr) \<in> set (sp_classes s) \<Longrightarrow> rr_invar cinvar rr (rp_sub (class_tag k) paths)"
    using inv by (auto simp: sp_invar_def)
  note ok = sp_register_classes_ok [OF cs(1) this]
  have "sp_invar cinvar s' paths"
    by (rule sp_invar_classes [OF inv]) (use ok cs(2) in auto)
  with ok show "sp_invar cinvar s' paths \<and> sig_identity sig' = sig_identity sig \<and>
    unat (sig_next_queue_id sig') \<le> unat (sig_next_queue_id sig) + sp_queues cqueues (sp_classes s)"
    by simp
next
  fix s paths and sig :: runtime_signals
  assume inv: "sp_invar cinvar s paths"
    and le: "unat (sig_next_queue_id sig) + sp_queues cqueues (sp_classes s) \<le> u64_max"
  have "\<And>k rr. (k, rr) \<in> set (sp_classes s) \<Longrightarrow> rr_invar cinvar rr (rp_sub (class_tag k) paths)"
    using inv by (auto simp: sp_invar_def)
  from sp_register_classes_returns [OF this le] show "sched_register (strict_priority_ops inner) s sig \<noteq> None"
    by (auto simp: sp_register_def)
qed (simp_all only: sp_ops_simps sp_take_next_ok sp_ready_iff_work sp_on_complete_ok)

text \<open>Priority classes of serialized periodic leaves.\<close>

interpretation prioritized_leaves:
  strict_priority_node "bounded_concurrency_ops (periodic_leaf_ops call_make)" "bc_invar pl_invar"
    instant_max "\<lambda>_. 0"
  by (simp add: strict_priority_node_def rotating_leaves.round_robin_node_axioms)

lemma sp_add_child_invar:
  assumes inv: "sp_invar cinvar s paths" and add: "sp_add_child s child priority = Some (cid, s')"
    and child: "cinvar child {#}"
  shows "sp_invar cinvar s' paths"
proof -
  have sorted: "btree_sorted (sp_classes s)" using inv by (simp add: sp_invar_def)
  obtain rr rr' i where rr: "rr = (case map_of (sp_classes s) priority of None \<Rightarrow> round_robin_new | Some rr \<Rightarrow> rr)"
    "rr_add_child rr child = Some (i, rr')" "sp_classes s' = btree_insert priority rr' (sp_classes s)"
    using add by (auto simp: sp_add_child_def Let_def split: Option.bind_splits)
  have "rr_invar cinvar rr (rp_sub (class_tag priority) paths)"
  proof (cases "map_of (sp_classes s) priority")
    case None
    then have "priority \<notin> fst ` set (sp_classes s)" by (simp add: map_of_eq_None_iff)
    then have "rp_sub (class_tag priority) paths = {#}"
      using sp_invarD(4) [OF inv] by (intro rp_sub_absent) (metis class_tag_inj)
    then show ?thesis using None rr(1) rr_invar_new by simp
  next
    case (Some r)
    then show ?thesis
      using sp_invarD(2) [OF inv, of priority r] rr(1) btree_mem [OF sorted, of priority r] by simp
  qed
  then have new: "rr_invar cinvar rr' (rp_sub (class_tag priority) paths)"
    using rr_add_child_invar(2) [OF _ rr(2)] child by simp
  have "rr_invar cinvar r (rp_sub (class_tag l) paths)" if "(l, r) \<in> set (sp_classes s')" for l r
    using that btree_mem [OF btree_insert_sorted [OF sorted], of l r priority rr']
      btree_mem [OF sorted, of l r] sp_invarD(2) [OF inv, of l r] new
    by (auto simp: map_of_btree_insert rr(3) split: if_splits)
  moreover have "p \<noteq> [] \<and> last p \<in> class_tag ` fst ` set (sp_classes s')" if "p \<in># paths" for p
    using sp_invarD(3,4) [OF inv that] btree_insert_keys [of priority rr' "sp_classes s"] rr(3) by auto
  ultimately show ?thesis
    using btree_insert_sorted [OF sorted, of priority rr'] rr(3) unfolding sp_invar_def by auto
qed

section \<open>Properties\<close>

inductive sp_exec :: "('c, 't, 'm) scheduler_ops \<Rightarrow> 'c strict_priority \<Rightarrow> bool" for inner where
  spe_new: "sp_exec inner strict_priority_new"
| spe_add: "sp_exec inner s \<Longrightarrow> sp_add_child s child k = Some (cid, s') \<Longrightarrow> sp_exec inner s'"
| spe_ready: "sp_exec inner s \<Longrightarrow> sp_update_ready inner s now = (r, s') \<Longrightarrow> sp_exec inner s'"
| spe_take: "sp_exec inner s \<Longrightarrow> sp_take_next inner s = Some (w, s') \<Longrightarrow> sp_exec inner s'"
| spe_complete: "sp_exec inner s \<Longrightarrow> sp_on_complete inner s c = Some (s', evs) \<Longrightarrow> sp_exec inner s'"
| spe_register: "sp_exec inner s \<Longrightarrow> sp_register inner s sig = Some (s', sig') \<Longrightarrow> sp_exec inner s'"

lemma sp_scan_keys: "sp_scan inner cs = Some (w, cs') \<Longrightarrow> map fst cs' = map fst cs"
  by (induction inner cs arbitrary: w cs' rule: sp_scan.induct)
    (auto split: Option.bind_splits option.splits)

lemma sp_register_keys: "sp_register_classes inner cs sig = Some (cs', sig') \<Longrightarrow> map fst cs' = map fst cs"
  by (induction inner cs sig arbitrary: cs' sig' rule: sp_register_classes.induct)
    (auto split: Option.bind_splits)

lemma sp_exec_sorted: "sp_exec inner s \<Longrightarrow> btree_sorted (sp_classes s)"
proof (induction rule: sp_exec.induct)
  case spe_new
  show ?case by (simp add: strict_priority_new_def btree_sorted_def)
next
  case (spe_ready s now r s')
  obtain b t cs where "sp_poll inner now (sp_classes s) False None = (b, t, cs)" by (metis prod_cases3)
  with spe_ready same_classes_keys [OF sp_poll_spec(1) [OF this]] show ?case
    by (auto simp: sp_update_ready_def btree_sorted_def)
next
  case (spe_take s w s')
  then obtain cs where "sp_scan inner (rev (sp_classes s)) = Some (w, cs)" "sp_classes s' = rev cs"
    by (auto simp: sp_take_next_def split: Option.bind_splits)
  with spe_take sp_scan_keys [of inner "rev (sp_classes s)" w cs] show ?case
    by (simp add: btree_sorted_def rev_map [symmetric])
next
  case (spe_complete s c s' evs)
  then show ?case
    by (auto simp: sp_on_complete_def Let_def split: prod.splits option.splits Option.bind_splits if_splits
        intro: btree_insert_sorted)
next
  case (spe_register s sig s' sig')
  then show ?case
    by (auto simp: sp_register_def btree_sorted_def sp_register_keys split: Option.bind_splits)
qed (auto simp: sp_add_child_def Let_def split: Option.bind_splits intro: btree_insert_sorted)

text \<open>
  C27. The highest class with work is served: in any execution, when \<open>take_next\<close> dispatches an
  item of priority \<open>p\<close>, every class of a higher priority was asked and had nothing, no class of a
  lower priority was touched, and the routing path ends with the tag of the class.
\<close>

theorem strict_priority_highest_first:
  assumes "sp_exec inner s" and "sp_take_next inner s = Some (Some w, s')"
  shows "(\<exists>q. sw_routing w = rp_push (ucast (wp_priority (sw_meta w))) q) \<and>
    (\<forall>(k, rr) \<in> set (sp_classes s). wp_priority (sw_meta w) < k \<longrightarrow>
       (\<exists>rr'. rr_take_next inner rr = Some (None, rr'))) \<and>
    (\<forall>(k, rr) \<in> set (sp_classes s). k < wp_priority (sw_meta w) \<longrightarrow> (k, rr) \<in> set (sp_classes s'))"
proof -
  obtain cs where scan: "sp_scan inner (rev (sp_classes s)) = Some (Some w, cs)" "sp_classes s' = rev cs"
    using assms(2) by (auto simp: sp_take_next_def split: Option.bind_splits)
  obtain pre p a post pre' b y where *: "rev (sp_classes s) = pre @ (p, a) # post"
    "cs = pre' @ (p, b) # post"
    "same_classes (\<lambda>k a b. rr_take_next inner a = Some (None, b)) pre pre'"
    "rr_take_next inner a = Some (Some y, b)"
    "w = \<lparr>sw_meta = \<lparr>wp_inner = sw_meta y, wp_priority = p\<rparr>,
             sw_routing = rp_push (ucast p) (sw_routing y), sw_payload = sw_payload y\<rparr>"
    using sp_scan_spec [OF scan(1)] unfolding option.case by (elim exE conjE) (rule that)
  have split: "sp_classes s = rev post @ (p, a) # rev pre" using *(1) by (metis append.assoc append_Cons append_Nil rev.simps(2) rev_append rev_rev_ident)
  have "btree_sorted (sp_classes s)" using assms(1) by (rule sp_exec_sorted)
  then have order: "k < p" if "(k, rr) \<in> set post" for k rr
    using that unfolding btree_sorted_def split by (force simp: sorted_wrt_append)
  from \<open>btree_sorted (sp_classes s)\<close> have order': "p < k" if "(k, rr) \<in> set pre" for k rr
    using that unfolding btree_sorted_def split by (force simp: sorted_wrt_append)
  have "\<exists>rr'. rr_take_next inner rr = Some (None, rr')" if "(k, rr) \<in> set (sp_classes s)" "p < k" for k rr
    using that split order same_classes_forward [OF *(3), of k rr] by fastforce
  moreover have "(k, rr) \<in> set (sp_classes s')" if "(k, rr) \<in> set (sp_classes s)" "k < p" for k rr
    using that split order' *(2) scan(2) by fastforce
  ultimately show ?thesis using *(5) by auto
qed

definition sp_example :: "nat periodic_leaf bounded_concurrency strict_priority" where
  "sp_example =
     snd (the (sp_add_child
       (snd (the (sp_add_child strict_priority_new (bounded_concurrency_new 1 (periodic_leaf_new 0 5 0)) 9)))
       (bounded_concurrency_new 1 (periodic_leaf_new 0 7 100)) 3))"

theorem strict_priority_highest_first_witness:
  "\<exists>w s'. sp_take_next (bounded_concurrency_ops (periodic_leaf_ops (\<lambda>n. (n, Suc n)))) sp_example =
      Some (Some w, s') \<and> wp_priority (sw_meta w) = 9 \<and>
     (\<forall>(k, rr) \<in> set (sp_classes sp_example). k < 9 \<longrightarrow> (k, rr) \<in> set (sp_classes s'))"
proof -
  let ?ops = "bounded_concurrency_ops (periodic_leaf_ops (\<lambda>n :: nat. (n, Suc n)))"
  let ?a = "bounded_concurrency_new 1 (periodic_leaf_new 0 5 0) :: nat periodic_leaf bounded_concurrency"
  let ?b = "bounded_concurrency_new 1 (periodic_leaf_new 0 7 100) :: nat periodic_leaf bounded_concurrency"
  note defs = sp_add_child_def strict_priority_new_def rr_add_child_def round_robin_new_def vec_pop_def
    u32_max_def
  have 1: "sp_add_child strict_priority_new ?a 9 =
      Some ((9, 0), snd (the (sp_add_child strict_priority_new ?a 9)))"
    by (simp add: defs)
  have 2: "sp_add_child (snd (the (sp_add_child strict_priority_new ?a 9))) ?b 3 = Some ((3, 0), sp_example)"
    by (simp add: sp_example_def defs)
  have e: "sp_exec ?ops sp_example" by (rule spe_add [OF spe_add [OF spe_new 1] 2])
  obtain w s' where t: "sp_take_next ?ops sp_example = Some (Some w, s')" "wp_priority (sw_meta w) = 9"
    by (simp add: sp_example_def defs sp_take_next_def rr_take_next_def rr_scan.simps bc_take_next_def
        bounded_concurrency_new_def pl_take_next_def pl_due_def periodic_leaf_new_def scheduled_work_new_def
        rp_empty_def has_slot_def slot_at_def)
  from strict_priority_highest_first [OF e t(1)] t show ?thesis by auto
qed

end
