(* ===== verification/Queue_Discipline.thy ===== *)
theory Queue_Discipline
  imports Strict_Priority
begin

text \<open>
  The trait \<open>QueueDiscipline\<close> (\<open>dispatcher/src/schedulers/bounded_queue.rs\<close>): its dictionary, and
  its contract as a locale. A discipline stores the identities of admitted entries and
  decides the order in which they leave.
\<close>

type_synonym queue_entry_id = u64

record ('d, 'm) discipline_ops =
  disc_push :: "'d \<Rightarrow> queue_entry_id \<Rightarrow> 'm \<Rightarrow> 'd outcome"
  disc_take_next :: "'d \<Rightarrow> queue_entry_id option \<times> 'd"
  disc_remove :: "'d \<Rightarrow> queue_entry_id \<Rightarrow> (bool \<times> 'd) outcome"

text \<open>
  \<open>members d\<close> is the set of identities a well-formed discipline holds. Each identity is returned
  at most once, one that was removed is not returned, and a discipline that holds
  an identity has one to return.
\<close>

locale queue_discipline =
  fixes dops :: "('d, 'm) discipline_ops"
    and dinvar :: "'d \<Rightarrow> bool"
    and members :: "'d \<Rightarrow> queue_entry_id set"
  assumes push_ok:
      "dinvar d \<Longrightarrow> x \<notin> members d \<Longrightarrow>
       \<exists>d'. disc_push dops d x m = Some d' \<and> dinvar d' \<and> members d' = insert x (members d)"
    and take_ok:
      "dinvar d \<Longrightarrow> members d \<noteq> {} \<Longrightarrow>
       \<exists>x d'. disc_take_next dops d = (Some x, d') \<and> x \<in> members d \<and> dinvar d' \<and>
         members d' = members d - {x}"
    and take_empty:
      "dinvar d \<Longrightarrow> members d = {} \<Longrightarrow>
       \<exists>d'. disc_take_next dops d = (None, d') \<and> dinvar d' \<and> members d' = {}"
    and remove_ok:
      "dinvar d \<Longrightarrow>
       \<exists>d'. disc_remove dops d x = Some (x \<in> members d, d') \<and> dinvar d' \<and>
         members d' = members d - {x}"
begin

lemma push_obtain:
  assumes "dinvar d" "x \<notin> members d"
  obtains d' where "disc_push dops d x m = Some d'" "dinvar d'" "members d' = insert x (members d)"
  using push_ok [OF assms] by blast

lemma remove_obtain:
  assumes "dinvar d"
  obtains d' where "disc_remove dops d x = Some (x \<in> members d, d')" "dinvar d'"
    "members d' = members d - {x}"
  using remove_ok [OF assms] by blast

text \<open>\<open>n\<close> consecutive selections, for \<open>n\<close> up to the number of members, are distinct members.\<close>

fun selections :: "nat \<Rightarrow> 'd \<Rightarrow> queue_entry_id option list" where
  "selections 0 d = []"
| "selections (Suc n) d = (let (x, d') = disc_take_next dops d in x # selections n d')"

lemma selections_distinct:
  assumes "dinvar d" "finite (members d)" "n \<le> card (members d)"
  shows "distinct (selections n d) \<and> set (selections n d) \<subseteq> Some ` members d"
  using assms
proof (induction n arbitrary: d)
  case (Suc n)
  then have "members d \<noteq> {}" by auto
  with Suc.prems(1) obtain x d' where x: "disc_take_next dops d = (Some x, d')" "x \<in> members d"
    "dinvar d'" "members d' = members d - {x}"
    using take_ok by blast
  have "distinct (selections n d') \<and> set (selections n d') \<subseteq> Some ` members d'"
    by (rule Suc.IH) (use x Suc.prems in \<open>simp_all add: card_Diff_singleton\<close>)
  with x show ?case by auto
qed simp

end

end
