(* ===== verification/Queue_Fifo.thy ===== *)
theory Queue_Fifo
  imports Queue_Discipline
begin

text \<open>
  \<open>Fifo\<close> (\<open>dispatcher/src/schedulers/queue_fifo.rs\<close>): the first-in, first-out discipline.
\<close>

record fifo =
  ff_entries :: "queue_entry_id list"

definition fifo_new :: fifo where
  "fifo_new = \<lparr>ff_entries = []\<rparr>"

definition fifo_push :: "fifo \<Rightarrow> queue_entry_id \<Rightarrow> 'm \<Rightarrow> fifo outcome" where
  "fifo_push d x meta = Some (d\<lparr>ff_entries := ff_entries d @ [x]\<rparr>)"

definition fifo_take_next :: "fifo \<Rightarrow> queue_entry_id option \<times> fifo" where
  "fifo_take_next d =
     (case ff_entries d of
        [] \<Rightarrow> (None, d)
      | x # rest \<Rightarrow> (Some x, d\<lparr>ff_entries := rest\<rparr>))"

definition fifo_remove :: "fifo \<Rightarrow> queue_entry_id \<Rightarrow> (bool \<times> fifo) outcome" where
  "fifo_remove d x =
     (case position (\<lambda>entry. entry = x) (ff_entries d) of
        None \<Rightarrow> Some (False, d)
      | Some i \<Rightarrow> Some (True, d\<lparr>ff_entries := remove_at (ff_entries d) i\<rparr>))"

definition fifo_ops :: "(fifo, 'm) discipline_ops" where
  "fifo_ops = \<lparr>disc_push = fifo_push, disc_take_next = fifo_take_next, disc_remove = fifo_remove\<rparr>"

definition fifo_invar :: "fifo \<Rightarrow> bool" where
  "fifo_invar d \<longleftrightarrow> distinct (ff_entries d)"

definition fifo_members :: "fifo \<Rightarrow> queue_entry_id set" where
  "fifo_members d = set (ff_entries d)"

lemma fifo_ops_simps [simp]:
  "disc_push fifo_ops = fifo_push" "disc_take_next fifo_ops = fifo_take_next"
  "disc_remove fifo_ops = fifo_remove"
  by (simp_all add: fifo_ops_def)

lemma fifo_remove_eq:
  "fifo_remove d x = Some (x \<in> set (ff_entries d), d\<lparr>ff_entries := remove1 x (ff_entries d)\<rparr>)"
proof (cases "position (\<lambda>entry. entry = x) (ff_entries d)")
  case None
  then have "x \<notin> set (ff_entries d)" by (auto simp: position_None)
  with None show ?thesis by (simp add: fifo_remove_def remove1_idem)
next
  case (Some i)
  then have "x \<in> set (ff_entries d)" using position_Some [OF Some] by auto
  with Some show ?thesis by (simp add: fifo_remove_def remove_at_position [OF Some])
qed

interpretation fifo: queue_discipline fifo_ops fifo_invar fifo_members
proof
  fix d x
  assume "fifo_invar d"
  then show "\<exists>d'. disc_remove fifo_ops d x = Some (x \<in> fifo_members d, d') \<and> fifo_invar d' \<and>
      fifo_members d' = fifo_members d - {x}"
    by (simp add: fifo_remove_eq fifo_invar_def fifo_members_def)
qed (auto simp: fifo_invar_def fifo_members_def fifo_push_def fifo_take_next_def split: list.splits)

end
