(* ===== verification/Queue_Sfq.thy ===== *)
theory Queue_Sfq
  imports Queue_Fifo
begin

text \<open>
  \<open>StochasticFairQueue\<close> (\<open>dispatcher/src/schedulers/queue_sfq.rs\<close>): flows hashed into a fixed
  number of FIFO buckets, served in rotation. The classifier \<open>FnMut(&M) -> F\<close> is a function on
  its captured state, and the hash of a flow key, \<open>hash_one\<close> of the hash builder
  truncated to the width of \<open>usize\<close>, is a parameter.
\<close>

record 'cl sfq =
  sfq_classifier :: 'cl
  sfq_buckets :: "queue_entry_id list list"
  sfq_active :: "nat list"
  sfq_membership :: "queue_entry_id \<rightharpoonup> nat"

definition sfq_with_hash_builder :: "nat \<Rightarrow> 'cl \<Rightarrow> 'cl sfq" where
  "sfq_with_hash_builder bucket_count classifier =
     \<lparr>sfq_classifier = classifier, sfq_buckets = replicate bucket_count [], sfq_active = [],
      sfq_membership = Map.empty\<rparr>"

text \<open>The remainder by the number of buckets; division by zero panics.\<close>

definition sfq_bucket_for :: "('f \<Rightarrow> u64) \<Rightarrow> 'cl sfq \<Rightarrow> 'f \<Rightarrow> nat outcome" where
  "sfq_bucket_for hash_one d flow =
     (if sfq_buckets d = [] then None
      else Some (unat (hash_one flow) mod length (sfq_buckets d)))"

definition sfq_push ::
  "('cl \<Rightarrow> 'm \<Rightarrow> 'f \<times> 'cl) \<Rightarrow> ('f \<Rightarrow> u64) \<Rightarrow> 'cl sfq \<Rightarrow> queue_entry_id \<Rightarrow> 'm \<Rightarrow> 'cl sfq outcome" where
  "sfq_push classify hash_one d x meta = do {
     let (flow, classifier) = classify (sfq_classifier d) meta;
     let d = d\<lparr>sfq_classifier := classifier\<rparr>;
     bucket \<leftarrow> sfq_bucket_for hash_one d flow;
     entries \<leftarrow> vec_get (sfq_buckets d) bucket;
     Some (d\<lparr>sfq_active := (if entries = [] then sfq_active d @ [bucket] else sfq_active d),
             sfq_buckets := (sfq_buckets d)[bucket := entries @ [x]],
             sfq_membership := (sfq_membership d)(x \<mapsto> bucket)\<rparr>)
   }"

definition sfq_take_next :: "'cl sfq \<Rightarrow> queue_entry_id option \<times> 'cl sfq" where
  "sfq_take_next d =
     (case sfq_active d of
        [] \<Rightarrow> (None, d)
      | bucket # active \<Rightarrow>
          (let d = d\<lparr>sfq_active := active\<rparr> in
           case vec_get (sfq_buckets d) bucket of
             None \<Rightarrow> (None, d)
           | Some [] \<Rightarrow> (None, d)
           | Some (x # entries) \<Rightarrow>
               (Some x,
                d\<lparr>sfq_buckets := (sfq_buckets d)[bucket := entries],
                  sfq_membership := (sfq_membership d)(x := None),
                  sfq_active := (if entries \<noteq> [] then active @ [bucket] else active)\<rparr>)))"

definition sfq_remove :: "'cl sfq \<Rightarrow> queue_entry_id \<Rightarrow> (bool \<times> 'cl sfq) outcome" where
  "sfq_remove d x =
     (case sfq_membership d x of
        None \<Rightarrow> Some (False, d)
      | Some bucket \<Rightarrow> do {
          let d = d\<lparr>sfq_membership := (sfq_membership d)(x := None)\<rparr>;
          entries \<leftarrow> vec_get (sfq_buckets d) bucket;
          (case position (\<lambda>entry. entry = x) entries of
             None \<Rightarrow> Some (False, d)
           | Some i \<Rightarrow>
               (let entries = remove_at entries i;
                    d = d\<lparr>sfq_buckets := (sfq_buckets d)[bucket := entries]\<rparr>
                in if entries = [] then
                     (case position (\<lambda>active. active = bucket) (sfq_active d) of
                        None \<Rightarrow> Some (True, d)
                      | Some j \<Rightarrow> Some (True, d\<lparr>sfq_active := remove_at (sfq_active d) j\<rparr>))
                   else Some (True, d)))
        })"

definition sfq_ops ::
  "('cl \<Rightarrow> 'm \<Rightarrow> 'f \<times> 'cl) \<Rightarrow> ('f \<Rightarrow> u64) \<Rightarrow> ('cl sfq, 'm) discipline_ops" where
  "sfq_ops classify hash_one =
     \<lparr>disc_push = sfq_push classify hash_one, disc_take_next = sfq_take_next,
      disc_remove = sfq_remove\<rparr>"

text \<open>
  Membership maps each stored identity to its bucket, buckets have no duplicates, and the
  active rotation is a permutation of the non-empty buckets.
\<close>

definition sfq_invar :: "'cl sfq \<Rightarrow> bool" where
  "sfq_invar d \<longleftrightarrow> sfq_buckets d \<noteq> [] \<and> distinct (sfq_active d) \<and>
     (\<forall>b. b \<in> set (sfq_active d) \<longleftrightarrow> b < length (sfq_buckets d) \<and> sfq_buckets d ! b \<noteq> []) \<and>
     (\<forall>b < length (sfq_buckets d). distinct (sfq_buckets d ! b)) \<and>
     (\<forall>x b. sfq_membership d x = Some b \<longleftrightarrow> b < length (sfq_buckets d) \<and> x \<in> set (sfq_buckets d ! b))"

definition sfq_members :: "'cl sfq \<Rightarrow> queue_entry_id set" where
  "sfq_members d = dom (sfq_membership d)"

lemma sfq_ops_simps [simp]:
  "disc_push (sfq_ops classify hash_one) = sfq_push classify hash_one"
  "disc_take_next (sfq_ops classify hash_one) = sfq_take_next"
  "disc_remove (sfq_ops classify hash_one) = sfq_remove"
  by (simp_all add: sfq_ops_def)

lemma sfq_invarD:
  assumes "sfq_invar d"
  shows "sfq_buckets d \<noteq> []" "distinct (sfq_active d)"
    "b \<in> set (sfq_active d) \<longleftrightarrow> b < length (sfq_buckets d) \<and> sfq_buckets d ! b \<noteq> []"
    "b < length (sfq_buckets d) \<Longrightarrow> distinct (sfq_buckets d ! b)"
    "sfq_membership d x = Some b \<longleftrightarrow> b < length (sfq_buckets d) \<and> x \<in> set (sfq_buckets d ! b)"
  using assms by (simp_all add: sfq_invar_def)

lemma sfq_invar_new: "0 < n \<Longrightarrow> sfq_invar (sfq_with_hash_builder n cl)"
  by (auto simp: sfq_invar_def sfq_with_hash_builder_def)

lemma sfq_push_ok:
  assumes inv: "sfq_invar d" and new: "x \<notin> sfq_members d"
  shows "\<exists>d'. sfq_push classify hash_one d x m = Some d' \<and> sfq_invar d' \<and>
    sfq_members d' = insert x (sfq_members d)"
proof -
  obtain flow cl where c: "classify (sfq_classifier d) m = (flow, cl)" by fastforce
  let ?b = "unat (hash_one flow) mod length (sfq_buckets d)"
  have b: "?b < length (sfq_buckets d)" using inv by (simp add: sfq_invar_def)
  have x: "x \<notin> set (sfq_buckets d ! b)" if "b < length (sfq_buckets d)" for b
    using inv new that by (auto simp: sfq_invar_def sfq_members_def dom_def)
  let ?d = "d\<lparr>sfq_classifier := cl,
      sfq_active := (if sfq_buckets d ! ?b = [] then sfq_active d @ [?b] else sfq_active d),
      sfq_buckets := (sfq_buckets d)[?b := sfq_buckets d ! ?b @ [x]],
      sfq_membership := (sfq_membership d)(x \<mapsto> ?b)\<rparr>"
  have "sfq_push classify hash_one d x m = Some ?d"
    using inv b by (simp add: sfq_push_def c sfq_bucket_for_def vec_get_def sfq_invar_def)
  moreover have "sfq_invar ?d"
    using inv b x by (auto simp: sfq_invar_def nth_list_update)
  ultimately show ?thesis by (auto simp: sfq_members_def)
qed

lemma sfq_take_head:
  assumes inv: "sfq_invar d" and a: "sfq_active d = b # active"
  obtains x entries where "b < length (sfq_buckets d)" "sfq_buckets d ! b = x # entries"
    "sfq_take_next d = (Some x, d\<lparr>sfq_buckets := (sfq_buckets d)[b := entries],
       sfq_membership := (sfq_membership d)(x := None),
       sfq_active := (if entries \<noteq> [] then active @ [b] else active)\<rparr>)"
proof -
  have b: "b < length (sfq_buckets d)" "sfq_buckets d ! b \<noteq> []" using inv a by (auto simp: sfq_invar_def)
  then obtain x entries where "sfq_buckets d ! b = x # entries" by (auto simp: neq_Nil_conv)
  with a b show thesis by (intro that [of x entries]) (simp_all add: sfq_take_next_def vec_get_def)
qed

lemma sfq_take_ok:
  assumes inv: "sfq_invar d" and ne: "sfq_members d \<noteq> {}"
  shows "\<exists>x d'. sfq_take_next d = (Some x, d') \<and> x \<in> sfq_members d \<and> sfq_invar d' \<and>
    sfq_members d' = sfq_members d - {x}"
proof -
  obtain y where "y \<in> sfq_members d" using ne by blast
  then obtain c where "sfq_membership d y = Some c" by (auto simp: sfq_members_def)
  then have "c \<in> set (sfq_active d)" using sfq_invarD(3,5) [OF inv] by auto
  then obtain b active where a: "sfq_active d = b # active" by (cases "sfq_active d") auto
  obtain x entries where x: "b < length (sfq_buckets d)" "sfq_buckets d ! b = x # entries"
    "sfq_take_next d = (Some x, d\<lparr>sfq_buckets := (sfq_buckets d)[b := entries],
       sfq_membership := (sfq_membership d)(x := None),
       sfq_active := (if entries \<noteq> [] then active @ [b] else active)\<rparr>)" (is "_ = (_, ?d)")
    using inv a by (rule sfq_take_head)
  have m: "sfq_membership d x = Some b" using inv x(1,2) by (simp add: sfq_invar_def)
  have others: "x \<notin> set (sfq_buckets d ! c)" if "c < length (sfq_buckets d)" "c \<noteq> b" for c
    using inv m that unfolding sfq_invar_def by (metis option.inject)
  have "sfq_invar ?d"
  proof (unfold sfq_invar_def, intro conjI allI impI)
    fix y c
    show "(c \<in> set (sfq_active ?d)) = (c < length (sfq_buckets ?d) \<and> sfq_buckets ?d ! c \<noteq> [])"
      using sfq_invarD(2) [OF inv] sfq_invarD(3) [OF inv, of c] x(1) a by (auto simp: nth_list_update)
    show "c < length (sfq_buckets ?d) \<Longrightarrow> distinct (sfq_buckets ?d ! c)"
      using sfq_invarD(4) [OF inv, of c] x(1,2) by (auto simp: nth_list_update)
    show "(sfq_membership ?d y = Some c) = (c < length (sfq_buckets ?d) \<and> y \<in> set (sfq_buckets ?d ! c))"
      using sfq_invarD(5) [OF inv, of y c] sfq_invarD(4) [OF inv x(1)] x(1,2) others
      by (auto simp: nth_list_update)
  qed (use sfq_invarD(1,2) [OF inv] a in auto)
  with x(3) m show ?thesis by (auto simp: sfq_members_def)
qed

lemma sfq_remove_ok:
  assumes inv: "sfq_invar d"
  shows "\<exists>d'. sfq_remove d x = Some (x \<in> sfq_members d, d') \<and> sfq_invar d' \<and>
    sfq_members d' = sfq_members d - {x}"
proof (cases "sfq_membership d x")
  case None
  then show ?thesis using inv by (auto simp: sfq_remove_def sfq_members_def)
next
  case (Some b)
  then have b: "b < length (sfq_buckets d)" "x \<in> set (sfq_buckets d ! b)"
    using sfq_invarD(5) [OF inv] by auto
  then obtain i where i: "position (\<lambda>y. y = x) (sfq_buckets d ! b) = Some i"
    by (metis (mono_tags) position_None not_None_eq)
  let ?e = "remove1 x (sfq_buckets d ! b)"
  have "b \<in> set (sfq_active d)" using sfq_invarD(3) [OF inv, of b] b by auto
  then obtain j where j: "position (\<lambda>c. c = b) (sfq_active d) = Some j"
    by (metis (mono_tags) position_None not_None_eq)
  let ?d = "d\<lparr>sfq_membership := (sfq_membership d)(x := None), sfq_buckets := (sfq_buckets d)[b := ?e],
    sfq_active := (if ?e = [] then remove1 b (sfq_active d) else sfq_active d)\<rparr>"
  have run: "sfq_remove d x = Some (True, ?d)"
    using Some b i j
    by (simp add: sfq_remove_def vec_get_def remove_at_position [OF i] remove_at_position [OF j] Let_def)
  have "sfq_invar ?d"
  proof (unfold sfq_invar_def, intro conjI allI impI)
    fix y c
    show "(c \<in> set (sfq_active ?d)) = (c < length (sfq_buckets ?d) \<and> sfq_buckets ?d ! c \<noteq> [])"
      using sfq_invarD(2) [OF inv] sfq_invarD(3) [OF inv, of c] b \<open>b \<in> set (sfq_active d)\<close>
      by (auto simp: nth_list_update)
    show "c < length (sfq_buckets ?d) \<Longrightarrow> distinct (sfq_buckets ?d ! c)"
      using sfq_invarD(4) [OF inv, of c] b by (auto simp: nth_list_update)
    show "(sfq_membership ?d y = Some c) = (c < length (sfq_buckets ?d) \<and> y \<in> set (sfq_buckets ?d ! c))"
    proof (cases "y = x")
      case True
      have "x \<notin> set (sfq_buckets d ! c)" if "c < length (sfq_buckets d)" "c \<noteq> b"
        using that Some sfq_invarD(5) [OF inv, of x c] by auto
      then show ?thesis using True b sfq_invarD(4) [OF inv b(1)] by (auto simp: nth_list_update)
    next
      case False
      then show ?thesis using sfq_invarD(5) [OF inv, of y c] b(1) by (auto simp: nth_list_update)
    qed
  qed (use sfq_invarD(1,2) [OF inv] in auto)
  with run Some show ?thesis by (auto simp: sfq_members_def)
qed

interpretation sfq: queue_discipline "sfq_ops classify hash_one" sfq_invar sfq_members
proof
  fix d :: "'a sfq"
  assume inv: "sfq_invar d" and no: "sfq_members d = {}"
  have "sfq_active d = []"
  proof (rule ccontr)
    assume "sfq_active d \<noteq> []"
    then obtain b where "b \<in> set (sfq_active d)" by (cases "sfq_active d") auto
    then obtain x where "sfq_membership d x = Some b"
      using sfq_invarD(3,5) [OF inv] by (metis last_in_set)
    with no show False by (auto simp: sfq_members_def)
  qed
  with inv no show "\<exists>d'. disc_take_next (sfq_ops classify hash_one) d = (None, d') \<and> sfq_invar d' \<and>
      sfq_members d' = {}"
    by (simp add: sfq_take_next_def)
qed (unfold sfq_ops_simps, (rule sfq_push_ok sfq_take_ok sfq_remove_ok; assumption)+)

section \<open>Fairness\<close>





end
