(* ===== verification/Bounded_Queue.thy ===== *)
theory Bounded_Queue
  imports Queue_Sfq
begin

text \<open>
  \<open>BoundedQueue\<close> and its producers (\<open>dispatcher/src/schedulers/bounded_queue.rs\<close>): an externally
  fed leaf. \<open>QueueShared\<close> and the \<open>QueueState\<close> under its mutex are one record, and every
  operation is one critical section, so an interleaving of producers and the scheduler is a
  sequence of operations. The \<open>HashMap\<close> of entries is an association list; no
  result depends on its order. \<open>usize\<close> has 64 bits. The admission policy
  and the discipline are dictionaries; the theorems hold for every policy, and those on capacity,
  identities, lifecycle and events for every discipline.
\<close>

section \<open>The queue\<close>

datatype queue_lifecycle = QOpen | QDraining | QDrained

record ('t, 'm) stored_work =
  st_order :: u64
  st_work :: "('t, 'm) scheduled_work"

type_synonym ('t, 'm) entry_map = "(queue_entry_id \<times> ('t, 'm) stored_work) list"

text \<open>\<open>min_by_key\<close> of the admission order: the first of the minimal entries.\<close>

definition entries_oldest :: "('t, 'm) entry_map \<Rightarrow> queue_entry_id option" where
  "entries_oldest entries =
     (case entries of
        [] \<Rightarrow> None
      | e # rest \<Rightarrow>
          Some (fst (fold (\<lambda>x best. if st_order (snd x) < st_order (snd best) then x else best) rest e)))"

record ('t, 'm) admission_context =
  ctx_capacity :: nat
  ctx_entries :: "('t, 'm) entry_map"

definition ctx_depth :: "('t, 'm) admission_context \<Rightarrow> nat" where
  "ctx_depth ctx = length (ctx_entries ctx)"

definition ctx_oldest :: "('t, 'm) admission_context \<Rightarrow> queue_entry_id option" where
  "ctx_oldest ctx = entries_oldest (ctx_entries ctx)"

datatype admission_decision = Admit | Reject | EvictAndAdmit queue_entry_id

record ('p, 't, 'm) policy_ops =
  pol_decide ::
    "'p \<Rightarrow> ('t, 'm) admission_context \<Rightarrow> ('t, 'm) scheduled_work \<Rightarrow> admission_decision \<times> 'p"

definition tail_drop_decide ::
  "unit \<Rightarrow> ('t, 'm) admission_context \<Rightarrow> ('t, 'm) scheduled_work \<Rightarrow> admission_decision \<times> unit" where
  "tail_drop_decide p ctx incoming =
     ((if ctx_depth ctx < ctx_capacity ctx then Admit else Reject), p)"

definition tail_drop_ops :: "(unit, 't, 'm) policy_ops" where
  "tail_drop_ops = \<lparr>pol_decide = tail_drop_decide\<rparr>"

datatype ('t, 'm) enqueue_outcome =
    Admitted
  | Rejected "('t, 'm) scheduled_work"
  | Evicted "('t, 'm) scheduled_work"
  | QueueClosed "('t, 'm) scheduled_work"

record ('t, 'm, 'p, 'd) bounded_queue =
  bq_capacity :: nat
  bq_entries :: "('t, 'm) entry_map"
  bq_policy :: 'p
  bq_discipline :: 'd
  bq_lifecycle :: queue_lifecycle
  bq_in_flight :: u64
  bq_rejections :: u64
  bq_evictions :: u64
  bq_next_id :: u64
  bq_next_order :: u64
  bq_event_sink :: "queue_event_sink option"
  bq_queue_id :: "queue_id option"
  bq_drained_event_sent :: bool
  bq_producer_count :: u64

definition bounded_queue_build :: "nat \<Rightarrow> 'p \<Rightarrow> 'd \<Rightarrow> ('t, 'm, 'p, 'd) bounded_queue" where
  "bounded_queue_build capacity policy discipline =
     \<lparr>bq_capacity = capacity, bq_entries = [], bq_policy = policy, bq_discipline = discipline,
      bq_lifecycle = QOpen, bq_in_flight = 0, bq_rejections = 0, bq_evictions = 0, bq_next_id = 0,
      bq_next_order = 0, bq_event_sink = None, bq_queue_id = None, bq_drained_event_sent = False,
      bq_producer_count = 1\<rparr>"

record queue_stats =
  qs_queue_id :: "queue_id option"
  qs_depth :: nat
  qs_in_flight :: u64
  qs_capacity :: nat
  qs_rejections :: u64
  qs_evictions :: u64
  qs_lifecycle :: queue_lifecycle

definition bq_stats :: "('t, 'm, 'p, 'd) bounded_queue \<Rightarrow> queue_stats" where
  "bq_stats s =
     \<lparr>qs_queue_id = bq_queue_id s, qs_depth = length (bq_entries s), qs_in_flight = bq_in_flight s,
      qs_capacity = bq_capacity s, qs_rejections = bq_rejections s, qs_evictions = bq_evictions s,
      qs_lifecycle = bq_lifecycle s\<rparr>"

section \<open>Identities and admission order\<close>

text \<open>The loop of \<open>next_entry_id\<close>; \<open>None\<close> means that it does not end.\<close>

partial_function (option) find_entry_id ::
  "queue_entry_id set \<Rightarrow> u64 \<Rightarrow> (queue_entry_id \<times> u64) option" where
  [code]: "find_entry_id used n =
     (if n \<notin> used then Some (n, n + 1) else find_entry_id used (n + 1))"

definition bq_next_entry_id ::
  "('t, 'm, 'p, 'd) bounded_queue \<Rightarrow> (queue_entry_id \<times> ('t, 'm, 'p, 'd) bounded_queue) outcome" where
  "bq_next_entry_id s = do {
     (x, n) \<leftarrow> find_entry_id (fst ` set (bq_entries s)) (bq_next_id s);
     Some (x, s\<lparr>bq_next_id := n\<rparr>)
   }"

definition entries_set_order ::
  "('t, 'm) entry_map \<Rightarrow> queue_entry_id \<Rightarrow> u64 \<Rightarrow> ('t, 'm) entry_map" where
  "entries_set_order entries x n =
     map (\<lambda>(y, st). if y = x then (y, st\<lparr>st_order := n\<rparr>) else (y, st)) entries"

text \<open>The loop of \<open>rebase_admitted_order\<close>; a missing entry or a wide index panics.\<close>

fun rebase_loop ::
  "nat \<Rightarrow> (queue_entry_id \<times> u64) list \<Rightarrow> ('t, 'm) entry_map \<Rightarrow> ('t, 'm) entry_map outcome" where
  "rebase_loop i [] entries = Some entries"
| "rebase_loop i ((x, _) # rest) entries =
     (if x \<in> fst ` set entries \<and> i \<le> u64_max
      then rebase_loop (Suc i) rest (entries_set_order entries x (word_of_nat i))
      else None)"

definition bq_rebase_admitted_order ::
  "('t, 'm, 'p, 'd) bounded_queue \<Rightarrow> ('t, 'm, 'p, 'd) bounded_queue outcome" where
  "bq_rebase_admitted_order s = do {
     let ordered = sort_key snd (map (\<lambda>(x, st). (x, st_order st)) (bq_entries s));
     entries \<leftarrow> rebase_loop 0 ordered (bq_entries s);
     if length entries \<le> u64_max
     then Some (s\<lparr>bq_entries := entries, bq_next_order := word_of_nat (length entries)\<rparr>)
     else None
   }"

definition bq_next_admitted_order ::
  "('t, 'm, 'p, 'd) bounded_queue \<Rightarrow> (u64 \<times> ('t, 'm, 'p, 'd) bounded_queue) outcome" where
  "bq_next_admitted_order s = do {
     s \<leftarrow> (if bq_next_order s = - 1 then bq_rebase_admitted_order s else Some s);
     next \<leftarrow> checked_add (bq_next_order s) 1;
     Some (bq_next_order s, s\<lparr>bq_next_order := next\<rparr>)
   }"

section \<open>Producers\<close>

definition bq_insert_work ::
  "('d, 'm) discipline_ops \<Rightarrow> ('t, 'm, 'p, 'd) bounded_queue \<Rightarrow> ('t, 'm) scheduled_work \<Rightarrow>
   ('t, 'm, 'p, 'd) bounded_queue outcome" where
  "bq_insert_work dops s work = do {
     (x, s) \<leftarrow> bq_next_entry_id s;
     (order, s) \<leftarrow> bq_next_admitted_order s;
     d \<leftarrow> disc_push dops (bq_discipline s) x (sw_meta work);
     Some (s\<lparr>bq_discipline := d,
             bq_entries := AList.update x \<lparr>st_order = order, st_work = work\<rparr> (bq_entries s)\<rparr>)
   }"

definition bq_evict_entry ::
  "('d, 'm) discipline_ops \<Rightarrow> ('t, 'm, 'p, 'd) bounded_queue \<Rightarrow> queue_entry_id \<Rightarrow>
   (('t, 'm) stored_work option \<times> ('t, 'm, 'p, 'd) bounded_queue) outcome" where
  "bq_evict_entry dops s x =
     (case map_of (bq_entries s) x of
        None \<Rightarrow> Some (None, s)
      | Some stored \<Rightarrow> do {
          (present, d) \<leftarrow> disc_remove dops (bq_discipline s) x;
          let s = s\<lparr>bq_discipline := d\<rparr>;
          if present then Some (Some stored, s\<lparr>bq_entries := AList.delete x (bq_entries s)\<rparr>)
          else Some (None, s)
        })"

definition bq_reject ::
  "('t, 'm, 'p, 'd) bounded_queue \<Rightarrow> ('t, 'm) scheduled_work \<Rightarrow>
   ('t, 'm) enqueue_outcome \<times> ('t, 'm, 'p, 'd) bounded_queue" where
  "bq_reject s work = (Rejected work, s\<lparr>bq_rejections := saturating_add (bq_rejections s) 1\<rparr>)"

definition bq_apply_admission ::
  "('d, 'm) discipline_ops \<Rightarrow> ('t, 'm, 'p, 'd) bounded_queue \<Rightarrow> admission_decision \<Rightarrow>
   ('t, 'm) scheduled_work \<Rightarrow> (('t, 'm) enqueue_outcome \<times> ('t, 'm, 'p, 'd) bounded_queue) outcome" where
  "bq_apply_admission dops s decision work =
     (case decision of
        Admit \<Rightarrow>
          if length (bq_entries s) < bq_capacity s then do {
            s \<leftarrow> bq_insert_work dops s work;
            Some (Admitted, s)
          } else Some (bq_reject s work)
      | EvictAndAdmit x \<Rightarrow> do {
          (evicted, s) \<leftarrow> bq_evict_entry dops s x;
          case evicted of
            Some stored \<Rightarrow> do {
              s \<leftarrow> bq_insert_work dops (s\<lparr>bq_evictions := saturating_add (bq_evictions s) 1\<rparr>) work;
              Some (Evicted (st_work stored), s)
            }
          | None \<Rightarrow> Some (bq_reject s work)
        }
      | Reject \<Rightarrow> Some (bq_reject s work))"

definition bq_try_push ::
  "('p, 't, 'm) policy_ops \<Rightarrow> ('d, 'm) discipline_ops \<Rightarrow> ('t, 'm, 'p, 'd) bounded_queue \<Rightarrow>
   ('t, 'm) scheduled_work \<Rightarrow>
   (('t, 'm) enqueue_outcome \<times> ('t, 'm, 'p, 'd) bounded_queue \<times> emitted) outcome" where
  "bq_try_push pops dops s work =
     (if bq_lifecycle s = QOpen then do {
        let (decision, policy) = pol_decide pops (bq_policy s)
          \<lparr>ctx_capacity = bq_capacity s, ctx_entries = bq_entries s\<rparr> work;
        let was_empty = bq_entries s = [];
        (out, s) \<leftarrow> bq_apply_admission dops (s\<lparr>bq_policy := policy\<rparr>) decision work;
        let wake = was_empty \<and> bq_entries s \<noteq> [] \<and>
          (case out of Admitted \<Rightarrow> True | Evicted _ \<Rightarrow> True | _ \<Rightarrow> False);
        Some (out, s,
          (case bq_event_sink s of
             Some sink \<Rightarrow> if wake then sink_push sink WakeUp else []
           | None \<Rightarrow> []))
      }
      else Some (QueueClosed work, s, []))"

text \<open>\<open>take_drained_event\<close> and \<open>emit\<close>.\<close>

definition bq_take_drained_event ::
  "('t, 'm, 'p, 'd) bounded_queue \<Rightarrow> ('t, 'm, 'p, 'd) bounded_queue \<times> emitted" where
  "bq_take_drained_event s =
     (if bq_lifecycle s = QDrained \<and> \<not> bq_drained_event_sent s then
        (case (bq_event_sink s, bq_queue_id s) of
           (Some sink, Some queue_id) \<Rightarrow>
             (s\<lparr>bq_drained_event_sent := True\<rparr>, sink_push sink (Drained queue_id))
         | _ \<Rightarrow> (s, []))
      else (s, []))"

definition bq_close ::
  "('t, 'm, 'p, 'd) bounded_queue \<Rightarrow> queue_lifecycle \<times> ('t, 'm, 'p, 'd) bounded_queue \<times> emitted" where
  "bq_close s =
     (let s = (if bq_lifecycle s = QOpen then
                 s\<lparr>bq_lifecycle :=
                     (if bq_entries s = [] \<and> bq_in_flight s = 0 then QDrained else QDraining)\<rparr>
               else s);
          (s, evs) = bq_take_drained_event s
      in (bq_lifecycle s, s, evs))"

definition bq_clone_producer ::
  "('t, 'm, 'p, 'd) bounded_queue \<Rightarrow> ('t, 'm, 'p, 'd) bounded_queue" where
  "bq_clone_producer s = s\<lparr>bq_producer_count := bq_producer_count s + 1\<rparr>"

definition bq_drop_producer ::
  "('t, 'm, 'p, 'd) bounded_queue \<Rightarrow> ('t, 'm, 'p, 'd) bounded_queue \<times> emitted" where
  "bq_drop_producer s =
     (let s' = s\<lparr>bq_producer_count := bq_producer_count s - 1\<rparr> in
      if bq_producer_count s = 1 then (let (_, s'', evs) = bq_close s' in (s'', evs)) else (s', []))"

section \<open>The \<open>Scheduler\<close> implementation\<close>

definition bq_take_entry ::
  "('t, 'm, 'p, 'd) bounded_queue \<Rightarrow> queue_entry_id \<Rightarrow>
   (('t, 'm) scheduled_work \<times> ('t, 'm, 'p, 'd) bounded_queue) option" where
  "bq_take_entry s x =
     (case map_of (bq_entries s) x of
        None \<Rightarrow> None
      | Some stored \<Rightarrow>
          Some (st_work stored,
                s\<lparr>bq_entries := AList.delete x (bq_entries s),
                  bq_in_flight := saturating_add (bq_in_flight s) 1\<rparr>))"

definition bq_update_ready ::
  "('t, 'm, 'p, 'd) bounded_queue \<Rightarrow> instant \<Rightarrow> readiness \<times> ('t, 'm, 'p, 'd) bounded_queue" where
  "bq_update_ready s now =
     ((if bq_entries s = [] then readiness_not_ready None else readiness_ready None), s)"

text \<open>The loop \<open>for _ in 0..attempts\<close> of \<open>take_next\<close>: the work it found, if any.\<close>

fun bq_select ::
  "('d, 'm) discipline_ops \<Rightarrow> nat \<Rightarrow> ('t, 'm, 'p, 'd) bounded_queue \<Rightarrow>
   ('t, 'm) scheduled_work option \<times> ('t, 'm, 'p, 'd) bounded_queue" where
  "bq_select dops 0 s = (None, s)"
| "bq_select dops (Suc n) s =
     (case disc_take_next dops (bq_discipline s) of
        (None, d) \<Rightarrow> (None, s\<lparr>bq_discipline := d\<rparr>)
      | (Some x, d) \<Rightarrow>
          (let s = s\<lparr>bq_discipline := d\<rparr> in
           case bq_take_entry s x of
             Some (work, s) \<Rightarrow> (Some work, s)
           | None \<Rightarrow> bq_select dops n s))"

definition bq_take_next ::
  "('d, 'm) discipline_ops \<Rightarrow> ('t, 'm, 'p, 'd) bounded_queue \<Rightarrow>
   (('t, 'm) scheduled_work option \<times> ('t, 'm, 'p, 'd) bounded_queue) outcome" where
  "bq_take_next dops s =
     (case bq_select dops (length (bq_entries s) + 1) s of
        (Some work, s) \<Rightarrow> Some (Some work, s)
      | (None, s) \<Rightarrow>
          (case entries_oldest (bq_entries s) of
             None \<Rightarrow> Some (None, s)
           | Some fallback \<Rightarrow> do {
               (_, d) \<leftarrow> disc_remove dops (bq_discipline s) fallback;
               let s = s\<lparr>bq_discipline := d\<rparr>;
               (case bq_take_entry s fallback of
                  Some (work, s) \<Rightarrow> Some (Some work, s)
                | None \<Rightarrow> Some (None, s))
             }))"

definition bq_on_complete ::
  "('t, 'm, 'p, 'd) bounded_queue \<Rightarrow> 'm completion \<Rightarrow>
   (('t, 'm, 'p, 'd) bounded_queue \<times> emitted) outcome" where
  "bq_on_complete s completion =
     (let s = s\<lparr>bq_in_flight := saturating_sub (bq_in_flight s) 1\<rparr>;
          s = (if bq_lifecycle s = QDraining \<and> bq_entries s = [] \<and> bq_in_flight s = 0
               then s\<lparr>bq_lifecycle := QDrained\<rparr> else s)
      in Some (bq_take_drained_event s))"

definition bq_attach ::
  "('t, 'm, 'p, 'd) bounded_queue \<Rightarrow> runtime_signals \<Rightarrow>
   (('t, 'm, 'p, 'd) bounded_queue \<times> runtime_signals \<times> emitted) outcome" where
  "bq_attach s sig = do {
     let sink = signals_queue_event_sink sig;
     let new_runtime =
       (case bq_event_sink s of
          None \<Rightarrow> True
        | Some current \<Rightarrow> \<not> belongs_to_same_runtime current sink);
     (s, sig) \<leftarrow>
       (if new_runtime then do {
          (queue_id, sig) \<leftarrow> signals_allocate_queue_id sig;
          Some (s\<lparr>bq_queue_id := Some queue_id, bq_drained_event_sent := False\<rparr>, sig)
        } else Some (s, sig));
     let (s, evs) = bq_take_drained_event (s\<lparr>bq_event_sink := Some sink\<rparr>);
     Some (s, sig, evs)
   }"

text \<open>\<open>register_queue_event_sink\<close>, with the emitted event delivered to the runtime of the sink.\<close>

definition bq_register ::
  "('t, 'm, 'p, 'd) bounded_queue \<Rightarrow> runtime_signals \<Rightarrow>
   (('t, 'm, 'p, 'd) bounded_queue \<times> runtime_signals) outcome" where
  "bq_register s sig = do {
     (s, sig, evs) \<leftarrow> bq_attach s sig;
     Some (s, signals_deliver sig evs)
   }"

definition bounded_queue_ops ::
  "('d, 'm) discipline_ops \<Rightarrow> (('t, 'm, 'p, 'd) bounded_queue, 't, 'm) scheduler_ops" where
  "bounded_queue_ops dops = \<lparr>
     sched_update_ready = bq_update_ready,
     sched_take_next = bq_take_next dops,
     sched_on_complete = bq_on_complete,
     sched_register = bq_register\<rparr>"

lemma bq_ops_simps [simp]:
  "sched_update_ready (bounded_queue_ops dops) = bq_update_ready"
  "sched_take_next (bounded_queue_ops dops) = bq_take_next dops"
  "sched_on_complete (bounded_queue_ops dops) = bq_on_complete"
  "sched_register (bounded_queue_ops dops) = bq_register"
  by (simp_all add: bounded_queue_ops_def)

section \<open>Fresh identities\<close>

lemma find_entry_id_returns:
  "n + word_of_nat k \<notin> used \<Longrightarrow> \<exists>x m. find_entry_id used n = Some (x, m) \<and> x \<notin> used"
proof (induction k arbitrary: n)
  case 0
  then show ?case by (subst find_entry_id.simps) simp
next
  case (Suc k)
  show ?case
  proof (cases "n \<in> used")
    case False
    then show ?thesis by (subst find_entry_id.simps) simp
  next
    case True
    have "(n + 1) + word_of_nat k \<notin> used" using Suc.prems by (simp add: algebra_simps)
    from Suc.IH [OF this] True show ?thesis by (subst find_entry_id.simps) simp
  qed
qed

lemma find_entry_id_fresh:
  assumes "finite used" "card used \<le> u64_max"
  obtains x m where "find_entry_id used n = Some (x, m)" "x \<notin> used"
proof -
  have "used \<noteq> UNIV" using assms by (auto simp: card_word u64_max_def)
  then obtain y where "y \<notin> used" by blast
  then have "n + word_of_nat (unat (y - n)) \<notin> used" by simp
  then show thesis using find_entry_id_returns that by blast
qed

section \<open>Entry maps\<close>

definition entries_ok :: "('t, 'm) entry_map \<Rightarrow> bool" where
  "entries_ok entries \<longleftrightarrow> distinct (map fst entries) \<and> distinct (map (\<lambda>e. st_order (snd e)) entries)"

text \<open>The entries from oldest to youngest, without the admission counters.\<close>

definition by_age :: "('t, 'm) entry_map \<Rightarrow> ('t, 'm) entry_map" where
  "by_age entries = sort_key (\<lambda>e. st_order (snd e)) entries"

definition queue_view :: "('t, 'm) entry_map \<Rightarrow> (queue_entry_id \<times> ('t, 'm) scheduled_work) list" where
  "queue_view entries = map (\<lambda>(x, st). (x, st_work st)) (by_age entries)"

lemma set_by_age [simp]: "set (by_age entries) = set entries"
  by (simp add: by_age_def)

lemma length_by_age [simp]: "length (by_age entries) = length entries"
  by (simp add: by_age_def)

lemma by_age_keys: "fst ` set (queue_view entries) = fst ` set entries"
  by (force simp: queue_view_def)

lemma queue_view_Nil [simp]: "queue_view [] = []" "queue_view entries = [] \<longleftrightarrow> entries = []"
  using length_by_age [of entries] length_0_conv [of "by_age entries"]
  by (auto simp: queue_view_def by_age_def)

lemma by_age_unique:
  assumes "entries_ok entries" "mset ys = mset entries" "sorted (map (\<lambda>e. st_order (snd e)) ys)"
  shows "by_age entries = ys"
  unfolding by_age_def
  by (rule sort_key_inj_key_eq) (use assms in \<open>simp_all add: entries_ok_def distinct_map\<close>)

lemma fold_min_key:
  fixes f :: "'a \<Rightarrow> 'b::linorder"
  shows "fold (\<lambda>x best. if f x < f best then x else best) xs b \<in> set (b # xs) \<and>
    (\<forall>y \<in> set (b # xs). f (fold (\<lambda>x best. if f x < f best then x else best) xs b) \<le> f y)"
proof (induction xs arbitrary: b)
  case (Cons a xs)
  let ?c = "if f a < f b then a else b"
  have c: "f ?c \<le> f a" "f ?c \<le> f b" "?c \<in> {a, b}" by auto
  with Cons.IH [of ?c] show ?case by (simp split: if_splits) (meson order_trans)+
qed simp

lemma entries_oldest_spec:
  assumes "entries_ok entries"
  shows "entries_oldest entries = map_option fst (case queue_view entries of [] \<Rightarrow> None | e # _ \<Rightarrow> Some e)"
proof (cases entries)
  case Nil
  then show ?thesis by (simp add: entries_oldest_def)
next
  case (Cons e rest)
  let ?f = "\<lambda>e :: queue_entry_id \<times> ('a, 'b) stored_work. st_order (snd e)"
  let ?min = "fold (\<lambda>x best. if ?f x < ?f best then x else best) rest e"
  note min = fold_min_key [of ?f]
  obtain a as where a: "by_age entries = a # as"
    using Cons by (metis length_by_age length_0_conv list.exhaust list.distinct(1))
  have "a \<in> set entries" using a set_by_age [of entries] by (metis list.set_intros(1))
  moreover have "\<forall>y \<in> set entries. ?f a \<le> ?f y"
    using a sorted_sort_key [of ?f entries] set_by_age [of entries] by (auto simp: by_age_def)
  ultimately have "?f ?min = ?f a" using min [of rest e] Cons by (intro order_antisym) auto
  moreover have "inj_on ?f (set entries)" using assms by (simp add: entries_ok_def distinct_map)
  moreover have "?min \<in> set entries" using min [of rest e] Cons by simp
  ultimately have "?min = a" using \<open>a \<in> set entries\<close> by (auto dest: inj_onD)
  then show ?thesis using Cons a by (auto simp: entries_oldest_def queue_view_def split: prod.splits)
qed

lemma entries_delete:
  assumes "entries_ok entries"
  shows "entries_ok (AList.delete x entries)"
    "queue_view (AList.delete x entries) = filter (\<lambda>e. fst e \<noteq> x) (queue_view entries)"
    "x \<in> fst ` set entries \<Longrightarrow> length (AList.delete x entries) = length entries - 1"
    "set (AList.delete x entries) \<subseteq> set entries"
proof -
  have d: "AList.delete x entries = filter (\<lambda>e. fst e \<noteq> x) entries"
    by (auto simp: AList.delete_eq intro: filter_cong)
  show "entries_ok (AList.delete x entries)"
    using assms by (simp add: d entries_ok_def distinct_map_filter)
  show "set (AList.delete x entries) \<subseteq> set entries" by (auto simp: d)
  show "queue_view (AList.delete x entries) = filter (\<lambda>e. fst e \<noteq> x) (queue_view entries)"
    by (simp add: d queue_view_def by_age_def filter_sort [symmetric] filter_map o_def split_def)
  show "length (AList.delete x entries) = length entries - 1" if "x \<in> fst ` set entries"
  proof -
    have "filter (\<lambda>y. y = x) (map fst entries) = [x]"
      by (rule filter_eq_distinct) (use assms that in \<open>simp_all add: entries_ok_def\<close>)
    from arg_cong [OF this, of length] have "length (filter (\<lambda>e. fst e = x) entries) = 1"
      by (simp add: filter_map o_def)
    then show ?thesis
      using sum_length_filter_compl [of "\<lambda>e. fst e = x" entries] by (simp add: d)
  qed
qed

lemma entries_insert:
  assumes ok: "entries_ok entries" and x: "x \<notin> fst ` set entries"
    and young: "\<And>e. e \<in> set entries \<Longrightarrow> st_order (snd e) < st_order st"
  shows "entries_ok (AList.update x st entries)"
    "queue_view (AList.update x st entries) = queue_view entries @ [(x, st_work st)]"
    "length (AList.update x st entries) = Suc (length entries)"
    "set (AList.update x st entries) = insert (x, st) (set entries)"
proof -
  have u: "AList.update x st es = es @ [(x, st)]" if "x \<notin> fst ` set es" for es :: "('a, 'b) entry_map"
    using that by (induction es) auto
  show "length (AList.update x st entries) = Suc (length entries)"
    "set (AList.update x st entries) = insert (x, st) (set entries)"
    using u [OF x] by simp_all
  show ok': "entries_ok (AList.update x st entries)"
    using ok x young u [OF x] by (fastforce simp: entries_ok_def)
  have "by_age (AList.update x st entries) = by_age entries @ [(x, st)]"
  proof (rule by_age_unique [OF ok'])
    show "sorted (map (\<lambda>e. st_order (snd e)) (by_age entries @ [(x, st)]))"
      using sorted_sort_key [of "\<lambda>e. st_order (snd e)" entries] young
      by (auto simp: sorted_append by_age_def intro: order_less_imp_le)
  qed (simp add: u [OF x] by_age_def)
  then show "queue_view (AList.update x st entries) = queue_view entries @ [(x, st_work st)]"
    by (simp add: queue_view_def)
qed

section \<open>Rebasing the admission order\<close>

lemma entries_set_order_keys [simp]: "map fst (entries_set_order entries x n) = map fst entries"
  by (simp add: entries_set_order_def split_def cong: map_cong)

lemma rebase_loop_result:
  assumes "distinct (map fst ordered)" "fst ` set ordered \<subseteq> fst ` set entries"
    "i + length ordered \<le> Suc u64_max"
  shows "rebase_loop i ordered entries =
    Some (map (\<lambda>(x, st). (x, case position (\<lambda>p. fst p = x) ordered of
       None \<Rightarrow> st | Some j \<Rightarrow> st\<lparr>st_order := word_of_nat (i + j)\<rparr>)) entries)"
  using assms
proof (induction ordered arbitrary: i entries)
  case Nil
  then show ?case by (simp add: split_def)
next
  case (Cons p ordered)
  obtain y n where p: "p = (y, n)" by fastforce
  let ?e = "entries_set_order entries y (word_of_nat i)"
  have keys: "fst ` set ?e = fst ` set entries" by (metis entries_set_order_keys set_map)
  have "rebase_loop (Suc i) ordered ?e = Some (map (\<lambda>(x, st). (x, case position (\<lambda>p. fst p = x) ordered of
       None \<Rightarrow> st | Some j \<Rightarrow> st\<lparr>st_order := word_of_nat (Suc i + j)\<rparr>)) ?e)"
    by (rule Cons.IH) (use Cons.prems keys p in auto)
  moreover have "rebase_loop i (p # ordered) entries = rebase_loop (Suc i) ordered ?e"
    using Cons.prems p by simp
  moreover have "position (\<lambda>p. fst p = y) ordered = None"
    using Cons.prems(1) p by (auto simp: position_None)
  ultimately show ?case
    by (auto simp: entries_set_order_def p split_def split: option.splits)
qed

lemma position_key:
  "distinct (map fst xs) \<Longrightarrow> j < length xs \<Longrightarrow> position (\<lambda>p. fst p = fst (xs ! j)) xs = Some j"
proof (induction xs arbitrary: j)
  case (Cons x xs)
  show ?case
  proof (cases j)
    case (Suc k)
    then have "fst (xs ! k) \<in> set (map fst xs)" using Cons.prems by simp
    then have "fst x \<noteq> fst (xs ! k)" using Cons.prems(1) by (metis distinct.simps(2) list.simps(9))
    with Cons Suc show ?thesis by simp
  qed simp
qed simp

lemma sort_key_map: "sort_key f (map g xs) = map g (sort_key (\<lambda>x. f (g x)) xs)"
proof (induction xs)
  case (Cons x xs)
  have "insort_key f (g x) (map g ys) = map g (insort_key (\<lambda>x. f (g x)) x ys)" for ys
    by (induction ys) simp_all
  with Cons show ?case by simp
qed simp

lemma rebase_view:
  assumes ok: "entries_ok entries" and len: "length entries \<le> u64_max"
  obtains entries' where
    "rebase_loop 0 (sort_key snd (map (\<lambda>(x, st). (x, st_order st)) entries)) entries = Some entries'"
    "entries_ok entries'" "queue_view entries' = queue_view entries" "length entries' = length entries"
    "map fst entries' = map fst entries"
    "\<And>e. e \<in> set entries' \<Longrightarrow> unat (st_order (snd e)) < length entries"
proof -
  let ?ord = "sort_key snd (map (\<lambda>(x, st). (x, st_order st)) entries)"
  have ord: "?ord = map (\<lambda>e. (fst e, st_order (snd e))) (by_age entries)"
    by (simp add: sort_key_map by_age_def split_def)
  have keys: "map fst ?ord = map fst (by_age entries)" by (simp add: ord)
  have dist: "distinct (map fst (by_age entries))"
  proof -
    have "mset (map fst (by_age entries)) = mset (map fst entries)" by (simp add: by_age_def)
    then show ?thesis using ok unfolding entries_ok_def by (metis mset_eq_imp_distinct_iff)
  qed
  define g where "g = (\<lambda>e :: queue_entry_id \<times> ('a, 'b) stored_work.
    (fst e, case position (\<lambda>p. fst p = fst e) ?ord of
       None \<Rightarrow> snd e | Some j \<Rightarrow> (snd e)\<lparr>st_order := word_of_nat j\<rparr>))"
  have run: "rebase_loop 0 ?ord entries = Some (map g entries)"
  proof -
    have "distinct (map fst ?ord)" "fst ` set ?ord \<subseteq> fst ` set entries" "0 + length ?ord \<le> Suc u64_max"
      using dist len keys by (simp_all add: image_image split_def)
    from rebase_loop_result [OF this] show ?thesis unfolding g_def by (simp only: split_def add_0)
  qed
  have at: "position (\<lambda>p. fst p = fst (by_age entries ! j)) ?ord = Some j" if "j < length entries" for j
    using position_key [of ?ord j] that dist by (simp add: ord o_def)
  have order: "map (\<lambda>e. st_order (snd (g e))) (by_age entries) = map word_of_nat [0 ..< length entries]"
    by (rule nth_equalityI) (simp_all add: g_def at)
  have inj: "inj_on (word_of_nat :: nat \<Rightarrow> u64) {0 ..< length entries}"
    by (rule inj_onI) (use len in \<open>simp add: u64_max_def of_nat_inverse word_of_nat_eq_iff take_bit_nat_eq_self\<close>)
  have mset: "mset (map g (by_age entries)) = mset (map g entries)" by (simp add: by_age_def)
  have ok': "entries_ok (map g entries)"
  proof -
    have "mset (map (\<lambda>e. st_order (snd e)) (map g entries)) = mset (map word_of_nat [0 ..< length entries])"
      using arg_cong [OF order, of mset] by (simp add: by_age_def o_def)
    moreover have "distinct (map (word_of_nat :: nat \<Rightarrow> u64) [0 ..< length entries])"
      using inj by (simp add: distinct_map)
    ultimately have "distinct (map (\<lambda>e. st_order (snd e)) (map g entries))"
      by (metis mset_eq_imp_distinct_iff)
    then show ?thesis using ok by (simp add: entries_ok_def g_def o_def)
  qed
  have "by_age (map g entries) = map g (by_age entries)"
  proof (rule by_age_unique [OF ok' mset])
    have "sorted (map (word_of_nat :: nat \<Rightarrow> u64) [0 ..< length entries])"
      using len by (simp add: sorted_iff_nth_mono word_le_nat_alt unsigned_of_nat take_bit_nat_eq_self u64_max_def)
    then show "sorted (map (\<lambda>e. st_order (snd e)) (map g (by_age entries)))"
      using order by (simp add: o_def)
  qed
  then have view: "queue_view (map g entries) = queue_view entries"
    by (auto simp: queue_view_def g_def split: option.splits)
  have bound: "unat (st_order (snd e)) < length entries" if "e \<in> set (map g entries)" for e
  proof -
    from that obtain a where a: "a \<in> set (by_age entries)" "e = g a" by auto
    then have "st_order (snd e) \<in> set (map (\<lambda>e. st_order (snd (g e))) (by_age entries))" by auto
    then have "st_order (snd e) \<in> set (map word_of_nat [0 ..< length entries])" by (simp only: order)
    then show ?thesis
      using len by (auto simp: unsigned_of_nat take_bit_nat_eq_self u64_max_def)
  qed
  show thesis
    by (rule that [OF run ok' view _ _ bound]) (simp_all add: g_def o_def)
qed

section \<open>Well-formed queues\<close>

definition bq_wf :: "('t, 'm, 'p, 'd) bounded_queue \<Rightarrow> bool" where
  "bq_wf s \<longleftrightarrow> bq_capacity s \<le> u64_max \<and> length (bq_entries s) \<le> bq_capacity s \<and>
     entries_ok (bq_entries s) \<and> (\<forall>e \<in> set (bq_entries s). st_order (snd e) < bq_next_order s)"

definition bq_keys :: "('t, 'm, 'p, 'd) bounded_queue \<Rightarrow> queue_entry_id set" where
  "bq_keys s = fst ` set (bq_entries s)"

definition bq_view :: "('t, 'm, 'p, 'd) bounded_queue \<Rightarrow> (queue_entry_id \<times> ('t, 'm) scheduled_work) list" where
  "bq_view s = queue_view (bq_entries s)"

text \<open>The lifecycle agrees with the stored entries and the number of items outstanding.\<close>

definition bq_life :: "('t, 'm, 'p, 'd) bounded_queue \<Rightarrow> nat \<Rightarrow> bool" where
  "bq_life s n \<longleftrightarrow> unat (bq_in_flight s) = n \<and>
     (bq_lifecycle s = QDrained \<longrightarrow> bq_entries s = [] \<and> n = 0) \<and>
     (bq_lifecycle s = QDraining \<longrightarrow> bq_entries s \<noteq> [] \<or> n \<noteq> 0)"

lemma bq_view_keys: "fst ` set (bq_view s) = bq_keys s"
  by (simp add: bq_view_def bq_keys_def by_age_keys)

lemma bq_view_map_of:
  assumes "entries_ok (bq_entries s)"
  shows "map_of (bq_view s) x = map_option st_work (map_of (bq_entries s) x)"
proof -
  have "mset (map fst (by_age (bq_entries s))) = mset (map fst (bq_entries s))"
    by (simp add: by_age_def)
  then have "distinct (map fst (by_age (bq_entries s)))"
    using assms unfolding entries_ok_def by (metis mset_eq_imp_distinct_iff)
  then have "map_of (by_age (bq_entries s)) = map_of (bq_entries s)"
    using assms map_of_inject_set [of "by_age (bq_entries s)" "bq_entries s"] by (simp add: entries_ok_def)
  then show ?thesis
    using map_of_map [of st_work "by_age (bq_entries s)"] by (simp add: bq_view_def queue_view_def o_def)
qed

lemma bq_next_entry_id_ok:
  assumes "length (bq_entries s) \<le> u64_max"
  obtains x n where "bq_next_entry_id s = Some (x, s\<lparr>bq_next_id := n\<rparr>)" "x \<notin> bq_keys s"
proof -
  have "card (bq_keys s) \<le> u64_max"
    using assms card_length [of "map fst (bq_entries s)"] by (simp add: bq_keys_def)
  then obtain x n where "find_entry_id (bq_keys s) (bq_next_id s) = Some (x, n)" "x \<notin> bq_keys s"
    using find_entry_id_fresh [of "bq_keys s"] by (auto simp: bq_keys_def)
  then show thesis by (intro that [of x n]) (simp_all add: bq_next_entry_id_def bq_keys_def)
qed

lemma bq_next_admitted_order_ok:
  assumes wf: "bq_wf s" and room: "length (bq_entries s) < bq_capacity s"
  obtains order entries where
    "bq_next_admitted_order s = Some (order, s\<lparr>bq_entries := entries, bq_next_order := order + 1\<rparr>)"
    "entries_ok entries" "queue_view entries = queue_view (bq_entries s)"
    "length entries = length (bq_entries s)" "map fst entries = map fst (bq_entries s)"
    "\<And>e. e \<in> set entries \<Longrightarrow> st_order (snd e) < order" "unat (order + 1) = Suc (unat order)"
proof (cases "bq_next_order s = - 1")
  case False
  then have "unat (bq_next_order s) \<noteq> unat (- 1 :: u64)" by (simp add: word_unat_eq_iff)
  then have lt: "unat (bq_next_order s) < u64_max"
    using u64_le_max [of "bq_next_order s"]
    by (simp add: u64_max_def unsigned_minus_1_eq_mask mask_eq_exp_minus_1)
  then have "checked_add (bq_next_order s) 1 = Some (bq_next_order s + 1)"
    "unat (bq_next_order s + 1) = Suc (unat (bq_next_order s))"
    by (simp_all add: checked_add_def u64_max_def unat_word_ariths)
  with False wf show thesis
    by (intro that [of "bq_next_order s" "bq_entries s"])
      (simp_all add: bq_next_admitted_order_def bq_wf_def)
next
  case True
  have len: "length (bq_entries s) \<le> u64_max" "length (bq_entries s) < u64_max"
    using wf room by (simp_all add: bq_wf_def)
  let ?n = "word_of_nat (length (bq_entries s)) :: u64"
  have n: "unat ?n = length (bq_entries s)"
    using len by (simp add: unsigned_of_nat take_bit_nat_eq_self u64_max_def)
  obtain entries where e:
    "rebase_loop 0 (sort_key snd (map (\<lambda>(x, st). (x, st_order st)) (bq_entries s))) (bq_entries s) = Some entries"
    "entries_ok entries" "queue_view entries = queue_view (bq_entries s)"
    "length entries = length (bq_entries s)" "map fst entries = map fst (bq_entries s)"
    "\<And>e. e \<in> set entries \<Longrightarrow> unat (st_order (snd e)) < length (bq_entries s)"
    using wf rebase_view [OF _ len(1)] by (auto simp: bq_wf_def)
  have inc: "checked_add ?n 1 = Some (?n + 1)" "unat (?n + 1) = Suc (unat ?n)"
    using len n by (simp_all add: checked_add_def u64_max_def unat_word_ariths)
  have "bq_next_admitted_order s = Some (?n, s\<lparr>bq_entries := entries, bq_next_order := ?n + 1\<rparr>)"
    using True e(1,4) len inc(1)
    by (simp add: bq_next_admitted_order_def bq_rebase_admitted_order_def)
  then show thesis
    by (rule that) (use e n inc in \<open>simp_all add: word_less_nat_alt\<close>)
qed

text \<open>
  Admission appends to the admission order, whether or not the counter is rebased, and changes
  nothing but the entries, the discipline and the two counters.
\<close>

lemma bq_insert_cases:
  assumes wf: "bq_wf s" and room: "length (bq_entries s) < bq_capacity s"
  obtains x entries n order where "x \<notin> bq_keys s"
    "bq_insert_work dops s work =
       map_option (\<lambda>d. s\<lparr>bq_next_id := n, bq_entries := entries, bq_next_order := order,
         bq_discipline := d\<rparr>) (disc_push dops (bq_discipline s) x (sw_meta work))"
    "queue_view entries = bq_view s @ [(x, work)]" "fst ` set entries = insert x (bq_keys s)"
    "length entries = Suc (length (bq_entries s))"
    "\<And>d. bq_wf (s\<lparr>bq_next_id := n, bq_entries := entries, bq_next_order := order, bq_discipline := d\<rparr>)"
proof -
  have "length (bq_entries s) \<le> u64_max" using wf by (simp add: bq_wf_def)
  then obtain x n where x: "bq_next_entry_id s = Some (x, s\<lparr>bq_next_id := n\<rparr>)" "x \<notin> bq_keys s"
    by (rule bq_next_entry_id_ok)
  let ?s = "s\<lparr>bq_next_id := n\<rparr>"
  have "bq_wf ?s" "length (bq_entries ?s) < bq_capacity ?s" using wf room by (simp_all add: bq_wf_def)
  then obtain order es where es:
    "bq_next_admitted_order ?s = Some (order, ?s\<lparr>bq_entries := es, bq_next_order := order + 1\<rparr>)"
    "entries_ok es" "queue_view es = queue_view (bq_entries ?s)"
    "length es = length (bq_entries ?s)" "map fst es = map fst (bq_entries ?s)"
    "\<And>e. e \<in> set es \<Longrightarrow> st_order (snd e) < order" "unat (order + 1) = Suc (unat order)"
    by (rule bq_next_admitted_order_ok) blast
  let ?st = "\<lparr>st_order = order, st_work = work\<rparr>"
  have keys: "fst ` set es = bq_keys s" using arg_cong [OF es(5), of set] by (simp add: bq_keys_def)
  have new: "x \<notin> fst ` set es" using keys x(2) by simp
  have ins: "entries_ok (AList.update x ?st es)"
    "queue_view (AList.update x ?st es) = queue_view es @ [(x, work)]"
    "length (AList.update x ?st es) = Suc (length es)"
    "set (AList.update x ?st es) = insert (x, ?st) (set es)"
    using entries_insert [OF es(2) new, of ?st] es(6) by simp_all
  have young: "st_order (snd e) < order + 1" if "e \<in> set (AList.update x ?st es)" for e
    using that es(6) [of e] es(7) unfolding ins(4) by (auto simp: word_less_nat_alt)
  have "bq_insert_work dops s work =
     map_option (\<lambda>d. s\<lparr>bq_next_id := n, bq_entries := AList.update x ?st es, bq_next_order := order + 1,
       bq_discipline := d\<rparr>) (disc_push dops (bq_discipline s) x (sw_meta work))"
    by (cases "disc_push dops (bq_discipline s) x (sw_meta work)")
      (simp_all add: bq_insert_work_def x(1) es(1))
  then show thesis
    by (rule that [OF x(2)])
      (use ins es keys young wf room in \<open>auto simp: bq_wf_def bq_view_def\<close>)
qed

section \<open>What each operation does\<close>

lemma bq_wf_update [simp]:
  "bq_wf (s\<lparr>bq_rejections := r\<rparr>) = bq_wf s" "bq_wf (s\<lparr>bq_policy := p\<rparr>) = bq_wf s"
  "bq_wf (s\<lparr>bq_discipline := d\<rparr>) = bq_wf s" "bq_wf (s\<lparr>bq_lifecycle := l\<rparr>) = bq_wf s"
  "bq_wf (s\<lparr>bq_in_flight := n\<rparr>) = bq_wf s" "bq_wf (s\<lparr>bq_drained_event_sent := b\<rparr>) = bq_wf s"
  "bq_wf (s\<lparr>bq_producer_count := n\<rparr>) = bq_wf s" "bq_wf (s\<lparr>bq_event_sink := k\<rparr>) = bq_wf s"
  "bq_wf (s\<lparr>bq_queue_id := q\<rparr>) = bq_wf s"
  by (simp_all add: bq_wf_def)

text \<open>The fields admission does not change.\<close>

definition bq_frame where
  "bq_frame s = (bq_capacity s, bq_lifecycle s, bq_in_flight s, bq_event_sink s, bq_queue_id s,
     bq_drained_event_sent s, bq_producer_count s)"

lemma bq_insert_effect:
  assumes "bq_wf s" "length (bq_entries s) < bq_capacity s" "bq_insert_work dops s work = Some s'"
  obtains x where "x \<notin> bq_keys s" "bq_view s' = bq_view s @ [(x, work)]"
    "disc_push dops (bq_discipline s) x (sw_meta work) = Some (bq_discipline s')"
    "bq_wf s'" "bq_frame s' = bq_frame s" "bq_keys s' = insert x (bq_keys s)"
    "length (bq_entries s') = Suc (length (bq_entries s))" "bq_evictions s' = bq_evictions s"
proof -
  obtain x entries n order where *: "x \<notin> bq_keys s"
    "bq_insert_work dops s work =
       map_option (\<lambda>d. s\<lparr>bq_next_id := n, bq_entries := entries, bq_next_order := order,
         bq_discipline := d\<rparr>) (disc_push dops (bq_discipline s) x (sw_meta work))"
    "queue_view entries = bq_view s @ [(x, work)]" "fst ` set entries = insert x (bq_keys s)"
    "length entries = Suc (length (bq_entries s))"
    "\<And>d. bq_wf (s\<lparr>bq_next_id := n, bq_entries := entries, bq_next_order := order, bq_discipline := d\<rparr>)"
    using assms(1,2) by (rule bq_insert_cases [where dops = dops and work = work]) blast
  obtain d where d: "disc_push dops (bq_discipline s) x (sw_meta work) = Some d"
    "s' = s\<lparr>bq_next_id := n, bq_entries := entries, bq_next_order := order, bq_discipline := d\<rparr>"
    using assms(3) *(2) by auto
  show thesis
    by (rule that [of x]) (use * d in \<open>simp_all add: bq_view_def bq_keys_def bq_frame_def\<close>)
qed

lemma bq_view_delete:
  assumes "entries_ok (bq_entries s)" "bq_entries s' = AList.delete x (bq_entries s)"
  shows "bq_view s' = filter (\<lambda>e. fst e \<noteq> x) (bq_view s)" "bq_keys s' = bq_keys s - {x}"
  using entries_delete(2) [OF assms(1), of x] assms(2)
  by (auto simp: bq_view_def bq_keys_def AList.delete_eq)

lemma bq_apply_admission_cases:
  assumes wf: "bq_wf s" and a: "bq_apply_admission dops s decision work = Some (out, s')"
  obtains (admitted) x where "decision = Admit" "out = Admitted" "length (bq_entries s) < bq_capacity s"
      "x \<notin> bq_keys s" "bq_view s' = bq_view s @ [(x, work)]"
      "disc_push dops (bq_discipline s) x (sw_meta work) = Some (bq_discipline s')"
      "bq_wf s'" "bq_frame s' = bq_frame s"
  | (evicted) x y old d where "decision = EvictAndAdmit y" "out = Evicted old" "map_of (bq_view s) y = Some old"
      "disc_remove dops (bq_discipline s) y = Some (True, d)" "x \<notin> bq_keys s - {y}"
      "bq_view s' = filter (\<lambda>e. fst e \<noteq> y) (bq_view s) @ [(x, work)]"
      "disc_push dops d x (sw_meta work) = Some (bq_discipline s')"
      "bq_wf s'" "bq_frame s' = bq_frame s" "bq_evictions s' = saturating_add (bq_evictions s) 1"
  | (rejected) "out = Rejected work" "bq_view s' = bq_view s" "bq_entries s' = bq_entries s"
      "bq_discipline s' = bq_discipline s \<or>
       (\<exists>y. y \<in> bq_keys s \<and> disc_remove dops (bq_discipline s) y = Some (False, bq_discipline s'))"
      "bq_wf s'" "bq_frame s' = bq_frame s" "bq_rejections s' = saturating_add (bq_rejections s) 1"
proof (cases decision)
  case Admit
  show ?thesis
  proof (cases "length (bq_entries s) < bq_capacity s")
    case True
    with a Admit have ins: "bq_insert_work dops s work = Some s'" "out = Admitted"
      by (auto simp: bq_apply_admission_def split: Option.bind_splits)
    show ?thesis
      by (rule bq_insert_effect [OF wf True ins(1)]) (rule admitted; use Admit True ins in simp)
  next
    case False
    with a Admit wf show ?thesis
      by (intro rejected) (auto simp: bq_apply_admission_def bq_reject_def bq_frame_def bq_view_def)
  qed
next
  case Reject
  with a wf show ?thesis
    by (intro rejected) (auto simp: bq_apply_admission_def bq_reject_def bq_frame_def bq_view_def)
next
  case (EvictAndAdmit y)
  have ok: "entries_ok (bq_entries s)" using wf by (simp add: bq_wf_def)
  show ?thesis
  proof (cases "map_of (bq_entries s) y")
    case None
    with a EvictAndAdmit wf show ?thesis
      by (intro rejected)
        (auto simp: bq_apply_admission_def bq_evict_entry_def bq_reject_def bq_frame_def bq_view_def)
  next
    case (Some st)
    then have y: "y \<in> bq_keys s" unfolding bq_keys_def by (metis map_of_eq_None_iff option.distinct(1))
    obtain b d where b: "disc_remove dops (bq_discipline s) y = Some (b, d)"
      using a EvictAndAdmit Some by (auto simp: bq_apply_admission_def bq_evict_entry_def split: Option.bind_splits)
    show ?thesis
    proof (cases b)
      case False
      with a EvictAndAdmit Some b y wf show ?thesis
        by (intro rejected)
          (auto simp: bq_apply_admission_def bq_evict_entry_def bq_reject_def bq_frame_def bq_view_def)
    next
      case True
      let ?s = "s\<lparr>bq_discipline := d, bq_entries := AList.delete y (bq_entries s),
        bq_evictions := saturating_add (bq_evictions s) 1\<rparr>"
      have ins: "bq_insert_work dops ?s work = Some s'" "out = Evicted (st_work st)"
        using a EvictAndAdmit Some b True
        by (auto simp: bq_apply_admission_def bq_evict_entry_def split: Option.bind_splits)
      note del = entries_delete [OF ok, of y]
      have len: "length (AList.delete y (bq_entries s)) < length (bq_entries s)"
        using del(3) y by (cases "bq_entries s") (auto simp: bq_keys_def)
      have wf': "bq_wf ?s" using wf del len by (auto simp: bq_wf_def)
      have room: "length (bq_entries ?s) < bq_capacity ?s" using wf len by (simp add: bq_wf_def)
      have view: "bq_view ?s = filter (\<lambda>e. fst e \<noteq> y) (bq_view s)" "bq_keys ?s = bq_keys s - {y}"
        by (rule bq_view_delete [OF ok]; simp)+
      show ?thesis
        by (rule bq_insert_effect [OF wf' room ins(1)], rule evicted [of y "st_work st" d])
          (use EvictAndAdmit ins(2) Some b True view bq_view_map_of [OF ok, of y] in
            \<open>simp_all add: bq_frame_def\<close>)
    qed
  qed
qed

text \<open>The effect of taking the entry \<open>x\<close> out for dispatch.\<close>

definition bq_took where
  "bq_took s x v s' \<longleftrightarrow> map_of (bq_view s) x = Some v \<and> x \<in> bq_keys s \<and>
     bq_view s' = filter (\<lambda>e. fst e \<noteq> x) (bq_view s) \<and>
     bq_entries s' = AList.delete x (bq_entries s) \<and>
     (\<exists>d. s' = s\<lparr>bq_discipline := d, bq_entries := bq_entries s',
        bq_in_flight := saturating_add (bq_in_flight s) 1\<rparr>)"

lemma bq_take_entry_took:
  assumes "bq_wf s" "bq_take_entry (s\<lparr>bq_discipline := d\<rparr>) x = Some (v, s')"
  shows "bq_took s x v s'"
proof -
  have ok: "entries_ok (bq_entries s)" using assms(1) by (simp add: bq_wf_def)
  obtain st where st: "map_of (bq_entries s) x = Some st" "v = st_work st"
    "s' = s\<lparr>bq_discipline := d, bq_entries := AList.delete x (bq_entries s),
       bq_in_flight := saturating_add (bq_in_flight s) 1\<rparr>"
    using assms(2) by (auto simp: bq_take_entry_def split: option.splits)
  then have "x \<in> bq_keys s" unfolding bq_keys_def by (metis map_of_eq_None_iff option.distinct(1))
  with st bq_view_map_of [OF ok, of x] bq_view_delete(1) [OF ok, of s' x] show ?thesis
    by (auto simp: bq_took_def)
qed

lemma bq_select_cases:
  assumes "bq_select dops n s = (w, s')"
  shows "case w of None \<Rightarrow> (\<exists>d. s' = s\<lparr>bq_discipline := d\<rparr>)
    | Some v \<Rightarrow> (\<exists>d x. bq_take_entry (s\<lparr>bq_discipline := d\<rparr>) x = Some (v, s'))"
  using assms
proof (induction dops n s rule: bq_select.induct)
  case (1 dops s)
  then have w: "w = None" and s': "s' = s\<lparr>bq_discipline := bq_discipline s\<rparr>" by simp_all
  show ?case unfolding w option.case by (rule exI, rule s')
next
  case (2 dops n s)
  obtain y d where y: "disc_take_next dops (bq_discipline s) = (y, d)" by fastforce
  show ?case
  proof (cases y)
    case None
    with 2(2) y show ?thesis by auto
  next
    case (Some x)
    show ?thesis
    proof (cases "bq_take_entry (s\<lparr>bq_discipline := d\<rparr>) x")
      case None
      with 2(2) y Some have "bq_select dops n (s\<lparr>bq_discipline := d\<rparr>) = (w, s')" by simp
      from 2(1) [OF y [symmetric] Some refl None this] show ?thesis
        by (auto split: option.splits)
    next
      case taken: (Some p)
      obtain v s2 where p: "p = (v, s2)" by fastforce
      from 2(2) y Some taken p have w: "w = Some v" "s2 = s'" by simp_all
      show ?thesis unfolding w option.case
        by (rule exI [of _ d], rule exI [of _ x]) (use taken p w(2) in simp)
    qed
  qed
qed

lemma bq_take_next_cases:
  assumes wf: "bq_wf s" and t: "bq_take_next dops s = Some (w, s')"
  obtains (empty) d where "w = None" "bq_entries s = []" "s' = s\<lparr>bq_discipline := d\<rparr>"
  | (took) v x where "w = Some v" "bq_took s x v s'"
proof -
  obtain u s1 where u: "bq_select dops (length (bq_entries s) + 1) s = (u, s1)" by fastforce
  note sel = bq_select_cases [OF u]
  show thesis
  proof (cases u)
    case (Some v)
    then obtain d x where "bq_take_entry (s\<lparr>bq_discipline := d\<rparr>) x = Some (v, s1)" using sel by auto
    with t u Some bq_take_entry_took [OF wf] show thesis
      by (intro took [of v x]) (auto simp: bq_take_next_def)
  next
    case None
    then obtain d where d: "s1 = s\<lparr>bq_discipline := d\<rparr>" using sel by auto
    have ok: "entries_ok (bq_entries s)" using wf by (simp add: bq_wf_def)
    show thesis
    proof (cases "bq_entries s")
      case Nil
      with t u None d show thesis
        by (intro empty [of d]) (auto simp: bq_take_next_def entries_oldest_def)
    next
      case (Cons e rest)
      then obtain x v q where x: "queue_view (bq_entries s) = (x, v) # q"
        using queue_view_Nil(2) [of "bq_entries s"] by (cases "queue_view (bq_entries s)") auto
      have old: "entries_oldest (bq_entries s) = Some x" using entries_oldest_spec [OF ok] x by simp
      have "x \<in> fst ` set (bq_entries s)" using by_age_keys [of "bq_entries s"] x by force
      then obtain st where st: "map_of (bq_entries s) x = Some st"
        by (metis map_of_eq_None_iff not_None_eq)
      obtain b d' where b: "disc_remove dops d x = Some (b, d')"
        using t u None d old by (auto simp: bq_take_next_def split: Option.bind_splits)
      then obtain s2 where s2: "bq_take_entry (s\<lparr>bq_discipline := d'\<rparr>) x = Some (st_work st, s2)"
        using st by (auto simp: bq_take_entry_def)
      with t u None d old b have "w = Some (st_work st)" "s' = s2" by (auto simp: bq_take_next_def)
      with bq_take_entry_took [OF wf s2] show thesis by (intro took) simp_all
    qed
  qed
qed

lemma bq_took_wf:
  assumes "bq_wf s" "bq_took s x v s'"
  shows "bq_wf s'"
proof -
  obtain d where d: "s' = s\<lparr>bq_discipline := d, bq_entries := bq_entries s',
      bq_in_flight := saturating_add (bq_in_flight s) 1\<rparr>" "bq_entries s' = AList.delete x (bq_entries s)"
    using assms(2) by (auto simp: bq_took_def)
  have ok: "entries_ok (bq_entries s)" using assms(1) by (simp add: bq_wf_def)
  have f: "bq_capacity s' = bq_capacity s" "bq_next_order s' = bq_next_order s"
    by (subst d(1), simp)+
  show ?thesis
    using assms(1) entries_delete [OF ok, of x] length_delete_le [of x "bq_entries s"]
    by (auto simp: bq_wf_def f d(2))
qed

section \<open>The contract\<close>

definition bq_invar ::
  "('d \<Rightarrow> bool) \<Rightarrow> ('d \<Rightarrow> queue_entry_id set) \<Rightarrow> ('t, 'm, 'p, 'd) bounded_queue \<Rightarrow>
   routing_path multiset \<Rightarrow> bool" where
  "bq_invar dinvar members s paths \<longleftrightarrow> bq_wf s \<and> bq_life s (size paths) \<and>
     dinvar (bq_discipline s) \<and> members (bq_discipline s) = bq_keys s"

lemma unat_u64_inc: "unat (a :: u64) < u64_max \<Longrightarrow> unat (saturating_add a 1) = Suc (unat a)"
  by (simp add: unat_saturating_add u64_max_def)

lemma bq_took_life:
  assumes "bq_took s x v s'" "bq_life s n" "n < u64_max"
  shows "bq_life s' (Suc n)"
proof -
  obtain d where d: "s' = s\<lparr>bq_discipline := d, bq_entries := bq_entries s',
      bq_in_flight := saturating_add (bq_in_flight s) 1\<rparr>" and x: "x \<in> bq_keys s"
    using assms(1) by (auto simp: bq_took_def)
  have "bq_in_flight s' = saturating_add (bq_in_flight s) 1" "bq_lifecycle s' = bq_lifecycle s"
    by (subst d, simp)+
  with assms(2,3) x show ?thesis by (auto simp: bq_life_def unat_u64_inc bq_keys_def)
qed

lemma bq_took_nonempty: "bq_took s x v s' \<Longrightarrow> bq_entries s \<noteq> []"
  by (auto simp: bq_took_def bq_keys_def)

lemma bq_drained_event_frame:
  assumes "bq_take_drained_event s = (s', evs)"
  shows "\<exists>b. s' = s\<lparr>bq_drained_event_sent := b\<rparr>"
proof -
  have "s' = s\<lparr>bq_drained_event_sent := bq_drained_event_sent s'\<rparr>"
    using assms by (auto simp: bq_take_drained_event_def split: if_splits option.splits)
  then show ?thesis by (rule exI)
qed

lemma u64_dec_zero: "saturating_sub (a :: u64) 1 = 0 \<longleftrightarrow> unat a \<le> 1"
proof -
  have "saturating_sub a 1 = 0 \<longleftrightarrow> unat (saturating_sub a 1) = 0" by (simp add: unsigned_eq_0_iff)
  then show ?thesis by (simp add: unat_saturating_sub le_diff_conv)
qed

lemma bq_on_complete_life:
  assumes "bq_on_complete s c = Some (s', evs)" "bq_life s n" "0 < n"
  shows "bq_life s' (n - 1)"
  using assms
  by (auto simp: bq_on_complete_def bq_life_def bq_take_drained_event_def Let_def unat_saturating_sub
      u64_dec_zero split: if_splits option.splits)

lemma bq_on_complete_frame:
  assumes "bq_on_complete s c = Some (s', evs)"
  shows "bq_entries s' = bq_entries s" "bq_discipline s' = bq_discipline s" "bq_wf s \<Longrightarrow> bq_wf s'"
  using assms
  by (auto simp: bq_on_complete_def Let_def dest!: bq_drained_event_frame split: if_splits)

lemma bq_attach_frame:
  assumes "bq_attach s sig = Some (s', sig', evs)"
  shows "bq_entries s' = bq_entries s" "bq_discipline s' = bq_discipline s" "bq_wf s \<Longrightarrow> bq_wf s'"
    "bq_life s n \<Longrightarrow> bq_life s' n" "sig_identity sig' = sig_identity sig"
    "unat (sig_next_queue_id sig') \<le> unat (sig_next_queue_id sig) + 1"
proof -
  obtain s1 where s1: "bq_take_drained_event (s1\<lparr>bq_event_sink := Some (signals_queue_event_sink sig)\<rparr>) = (s', evs)"
    "s1 = s \<and> sig' = sig \<or>
     (\<exists>q. s1 = s\<lparr>bq_queue_id := Some q, bq_drained_event_sent := False\<rparr> \<and>
        signals_allocate_queue_id sig = Some (q, sig'))"
    using assms by (auto simp: bq_attach_def Let_def split: if_splits option.splits Option.bind_splits prod.splits)
  obtain b where b: "s' = s1\<lparr>bq_event_sink := Some (signals_queue_event_sink sig), bq_drained_event_sent := b\<rparr>"
    using bq_drained_event_frame [OF s1(1)] by auto
  show "bq_entries s' = bq_entries s" "bq_discipline s' = bq_discipline s" "bq_wf s \<Longrightarrow> bq_wf s'"
    "bq_life s n \<Longrightarrow> bq_life s' n"
    using s1(2) by (auto simp: b bq_life_def)
  show "sig_identity sig' = sig_identity sig"
    "unat (sig_next_queue_id sig') \<le> unat (sig_next_queue_id sig) + 1"
    using s1(2) by (auto simp: signals_allocate_queue_id_def dest: checked_add_Some split: Option.bind_splits)
qed

lemma signals_deliver_next_id [simp]:
  "sig_next_queue_id (signals_deliver sig evs) = sig_next_queue_id sig"
  by (induction sig evs rule: signals_deliver.induct)
    (auto simp: signals_handle_queue_event_def signals_wake_def split: option.splits queue_event.splits)

locale bounded_queue_node =
  queue_discipline dops dinvar members
  for dops :: "('d, 'm) discipline_ops"
    and dinvar :: "'d \<Rightarrow> bool"
    and members :: "'d \<Rightarrow> queue_entry_id set"
begin

lemma bq_take_next_selects:
  assumes inv: "bq_invar dinvar members s paths" and ne: "bq_entries s \<noteq> []"
  obtains x v d s' where "disc_take_next dops (bq_discipline s) = (Some x, d)"
    "bq_take_next dops s = Some (Some v, s')" "bq_took s x v s'" "bq_discipline s' = d"
    "dinvar d" "members d = bq_keys s'"
proof -
  have wf: "bq_wf s" "dinvar (bq_discipline s)" "members (bq_discipline s) = bq_keys s"
    using inv by (simp_all add: bq_invar_def)
  have "members (bq_discipline s) \<noteq> {}" using ne wf(3) by (simp add: bq_keys_def)
  then obtain x d where x: "disc_take_next dops (bq_discipline s) = (Some x, d)"
    "x \<in> bq_keys s" "dinvar d" "members d = bq_keys s - {x}"
    using take_ok [OF wf(2)] wf(3) by auto
  then obtain st where st: "map_of (bq_entries s) x = Some st"
    by (metis bq_keys_def map_of_eq_None_iff not_None_eq)
  then obtain s' where s': "bq_take_entry (s\<lparr>bq_discipline := d\<rparr>) x = Some (st_work st, s')"
    "bq_discipline s' = d" by (auto simp: bq_take_entry_def)
  have run: "bq_take_next dops s = Some (Some (st_work st), s')"
    using x(1) s' by (simp add: bq_take_next_def)
  have took: "bq_took s x (st_work st) s'" by (rule bq_take_entry_took [OF wf(1) s'(1)])
  then have "bq_keys s' = bq_keys s - {x}"
    using bq_view_delete(2) [of s s' x] wf(1) by (simp add: bq_took_def bq_wf_def)
  then have "members d = bq_keys s'" using x(4) by (rule trans [rotated, OF sym])
  with x(1,3) s'(2) run took show thesis by (intro that [of x d "st_work st" s']) simp_all
qed

lemma bq_take_next_ok:
  assumes inv: "bq_invar dinvar members s paths" and sz: "size paths < u32_max"
  shows "\<exists>w s'. bq_take_next dops s = Some (w, s') \<and> bq_invar dinvar members s' (taken w paths)"
proof (cases "bq_entries s = []")
  case True
  then have "members (bq_discipline s) = {}" using inv by (simp add: bq_invar_def bq_keys_def)
  then obtain d where d: "disc_take_next dops (bq_discipline s) = (None, d)" "dinvar d" "members d = {}"
    using take_empty [of "bq_discipline s"] inv unfolding bq_invar_def by blast
  then have "bq_take_next dops s = Some (None, s\<lparr>bq_discipline := d\<rparr>)"
    using True by (simp add: bq_take_next_def entries_oldest_def)
  moreover have "bq_invar dinvar members (s\<lparr>bq_discipline := d\<rparr>) paths"
    using inv d True by (simp add: bq_invar_def bq_life_def bq_keys_def)
  ultimately show ?thesis by auto
next
  case False
  obtain x v d s' where t: "bq_take_next dops s = Some (Some v, s')" "bq_took s x v s'"
    "bq_discipline s' = d" "dinvar d" "members d = bq_keys s'"
    using inv False by (rule bq_take_next_selects)
  have "size paths < u64_max" using sz by (simp add: u32_max_def u64_max_def)
  then have "bq_life s' (Suc (size paths))" using inv by (intro bq_took_life [OF t(2)]) (simp_all add: bq_invar_def)
  with t inv bq_took_wf [OF _ t(2)] show ?thesis by (auto simp: bq_invar_def)
qed

end

lemma bq_ready_iff_work:
  assumes "bq_wf s" "bq_update_ready s now = (r, s')" "bq_take_next dops s' = Some (w, s'')"
  shows "rd_ready r \<longleftrightarrow> w \<noteq> None"
proof -
  have s': "s' = s" "rd_ready r \<longleftrightarrow> bq_entries s \<noteq> []" using assms(2) by (auto simp: bq_update_ready_def)
  from assms(3) [unfolded s'(1)] show ?thesis
    by (cases rule: bq_take_next_cases [OF assms(1)]) (use s'(2) bq_took_nonempty in auto)
qed

lemma bq_on_complete_invar:
  fixes c :: "'m completion"
  assumes inv: "bq_invar dinvar members s paths" and c: "cp_routing c \<in># paths"
  shows "\<exists>s' evs. bq_on_complete s c = Some (s', evs) \<and>
    bq_invar dinvar members s' (paths - {#cp_routing c#})"
proof -
  obtain s' evs where r: "bq_on_complete s c = Some (s', evs)"
    by (simp add: bq_on_complete_def Let_def) (metis prod.exhaust)
  have "0 < size paths" using c by (auto simp: nonempty_has_size [symmetric])
  then have "bq_invar dinvar members s' (paths - {#cp_routing c#})"
    using inv bq_on_complete_frame [OF r] bq_on_complete_life [OF r] c
    by (simp add: bq_invar_def bq_keys_def size_Diff_singleton)
  with r show ?thesis by blast
qed

lemma bq_register_returns:
  assumes "unat (sig_next_queue_id sig) + 1 \<le> u64_max"
  shows "bq_register s sig \<noteq> None"
proof -
  have "signals_allocate_queue_id sig \<noteq> None"
    using assms by (simp add: signals_allocate_queue_id_def checked_add_def u64_max_def)
  then show ?thesis
    by (auto simp: bq_register_def bq_attach_def Let_def split: prod.splits)
qed

lemma bq_register_invar:
  assumes inv: "bq_invar dinvar members s paths" and r: "bq_register s sig = Some (s', sig')"
  shows "bq_invar dinvar members s' paths \<and> sig_identity sig' = sig_identity sig \<and>
    unat (sig_next_queue_id sig') \<le> unat (sig_next_queue_id sig) + 1"
proof -
  from r obtain sig1 evs where a: "bq_attach s sig = Some (s', sig1, evs)" "sig' = signals_deliver sig1 evs"
    by (auto simp: bq_register_def split: Option.bind_splits)
  from inv bq_attach_frame [OF a(1)] a(2) show ?thesis by (simp add: bq_invar_def bq_keys_def)
qed

sublocale bounded_queue_node \<subseteq>
  bq: scheduler "bounded_queue_ops dops" "bq_invar dinvar members" instant_max "\<lambda>_. 1"
proof (unfold_locales, unfold bq_ops_simps, goal_cases)
  case (1 s paths now r s')
  then show ?case by (auto simp: bq_update_ready_def)
next
  case (2 s paths)
  then show ?case by (rule bq_take_next_ok)
next
  case (3 s paths now r s' w s'')
  then show ?case by (intro bq_ready_iff_work [of s now r s' dops w s'']) (simp_all add: bq_invar_def)
next
  case (4 s paths c)
  then show ?case by (intro bq_on_complete_invar)
next
  case (5 s paths sig)
  then show ?case by (intro bq_register_returns)
next
  case (6 s paths sig s' sig')
  then show ?case by (intro bq_register_invar)
qed

interpretation fifo_queue: bounded_queue_node fifo_ops fifo_invar fifo_members ..

interpretation fair_queue: bounded_queue_node "sfq_ops classify hash_one" sfq_invar sfq_members ..

section \<open>Executions\<close>

text \<open>
  The executions of one queue from its creation, with any policy and discipline: producers push,
  close, clone and drop in any interleaving with the scheduler's operations. \<open>n\<close> is the
  number of items dispatched and not completed, \<open>r\<close> the number of runtimes
  the queue was attached to in turn, and \<open>hist\<close> the events it emitted.
\<close>

inductive bq_exec ::
  "('p, 't, 'm) policy_ops \<Rightarrow> ('d, 'm) discipline_ops \<Rightarrow> nat \<Rightarrow> 'p \<Rightarrow> 'd \<Rightarrow>
   ('t, 'm, 'p, 'd) bounded_queue \<Rightarrow> nat \<Rightarrow> nat \<Rightarrow> emitted \<Rightarrow> bool"
  for pops dops cap p0 d0 where
  bqe_build: "bq_exec pops dops cap p0 d0 (bounded_queue_build cap p0 d0) 0 0 []"
| bqe_push: "bq_exec pops dops cap p0 d0 s n r hist \<Longrightarrow>
    bq_try_push pops dops s work = Some (out, s', evs) \<Longrightarrow>
    bq_exec pops dops cap p0 d0 s' n r (hist @ evs)"
| bqe_close: "bq_exec pops dops cap p0 d0 s n r hist \<Longrightarrow> bq_close s = (l, s', evs) \<Longrightarrow>
    bq_exec pops dops cap p0 d0 s' n r (hist @ evs)"
| bqe_clone: "bq_exec pops dops cap p0 d0 s n r hist \<Longrightarrow>
    bq_exec pops dops cap p0 d0 (bq_clone_producer s) n r hist"
| bqe_drop: "bq_exec pops dops cap p0 d0 s n r hist \<Longrightarrow> bq_drop_producer s = (s', evs) \<Longrightarrow>
    bq_exec pops dops cap p0 d0 s' n r (hist @ evs)"
| bqe_ready: "bq_exec pops dops cap p0 d0 s n r hist \<Longrightarrow> bq_update_ready s now = (rd, s') \<Longrightarrow>
    bq_exec pops dops cap p0 d0 s' n r hist"
| bqe_take: "bq_exec pops dops cap p0 d0 s n r hist \<Longrightarrow> n < u64_max \<Longrightarrow>
    bq_take_next dops s = Some (w, s') \<Longrightarrow>
    bq_exec pops dops cap p0 d0 s' (if w = None then n else Suc n) r hist"
| bqe_complete: "bq_exec pops dops cap p0 d0 s n r hist \<Longrightarrow> 0 < n \<Longrightarrow>
    bq_on_complete s c = Some (s', evs) \<Longrightarrow> bq_exec pops dops cap p0 d0 s' (n - 1) r (hist @ evs)"
| bqe_attach: "bq_exec pops dops cap p0 d0 s n r hist \<Longrightarrow> bq_attach s sig = Some (s', sig', evs) \<Longrightarrow>
    bq_exec pops dops cap p0 d0 s' n
      (if bq_event_sink s = Some (signals_queue_event_sink sig) then r else Suc r) (hist @ evs)"

definition is_drained :: "queue_event_sink \<times> queue_event \<Rightarrow> bool" where
  "is_drained e = (case snd e of Drained q \<Rightarrow> True | WakeUp \<Rightarrow> False)"

text \<open>The bookkeeping of the drained event, before and after \<open>take_drained_event\<close>.\<close>

definition bq_pre_announced :: "('t, 'm, 'p, 'd) bounded_queue \<Rightarrow> nat \<Rightarrow> emitted \<Rightarrow> bool" where
  "bq_pre_announced s r hist \<longleftrightarrow>
     (bq_event_sink s = None \<longleftrightarrow> bq_queue_id s = None) \<and>
     (bq_drained_event_sent s \<longrightarrow> bq_lifecycle s = QDrained \<and>
        (\<exists>k q. bq_event_sink s = Some k \<and> bq_queue_id s = Some q \<and> (k, Drained q) \<in> set hist)) \<and>
     length (filter is_drained hist) + (if bq_event_sink s \<noteq> None \<and> \<not> bq_drained_event_sent s then 1 else 0) \<le> r"

definition bq_announced :: "('t, 'm, 'p, 'd) bounded_queue \<Rightarrow> nat \<Rightarrow> emitted \<Rightarrow> bool" where
  "bq_announced s r hist \<longleftrightarrow> bq_pre_announced s r hist \<and>
     (bq_lifecycle s = QDrained \<and> bq_event_sink s \<noteq> None \<longrightarrow> bq_drained_event_sent s)"

lemma bq_take_drained_event_announced:
  assumes "bq_take_drained_event s = (s', evs)" "bq_pre_announced s r hist"
  shows "bq_announced s' r (hist @ evs)" "bq_wf s' = bq_wf s" "bq_life s' n = bq_life s n"
  using assms
  by (auto simp: bq_take_drained_event_def bq_announced_def bq_pre_announced_def bq_life_def sink_push_def
      is_drained_def split: if_splits option.splits)

lemma bq_announced_cong:
  assumes "bq_announced s r hist" "bq_event_sink s' = bq_event_sink s" "bq_queue_id s' = bq_queue_id s"
    "bq_drained_event_sent s' = bq_drained_event_sent s" "bq_lifecycle s' = bq_lifecycle s"
    "filter is_drained hist' = filter is_drained hist" "set hist \<subseteq> set hist'"
  shows "bq_announced s' r hist'"
  using assms by (auto simp: bq_announced_def bq_pre_announced_def)

lemma bq_frame_cong:
  assumes "bq_frame s' = bq_frame s"
  shows "bq_event_sink s' = bq_event_sink s" "bq_queue_id s' = bq_queue_id s"
    "bq_drained_event_sent s' = bq_drained_event_sent s" "bq_lifecycle s' = bq_lifecycle s"
    "bq_capacity s' = bq_capacity s" "bq_in_flight s' = bq_in_flight s"
  using assms by (simp_all add: bq_frame_def)

lemma bq_try_push_cases:
  assumes "bq_try_push pops dops s work = Some (out, s', evs)"
  obtains (shut) "bq_lifecycle s \<noteq> QOpen" "out = QueueClosed work" "s' = s" "evs = []"
  | (admission) decision p where "bq_lifecycle s = QOpen"
      "pol_decide pops (bq_policy s) \<lparr>ctx_capacity = bq_capacity s, ctx_entries = bq_entries s\<rparr> work =
         (decision, p)"
      "bq_apply_admission dops (s\<lparr>bq_policy := p\<rparr>) decision work = Some (out, s')"
      "\<forall>e \<in> set evs. snd e = WakeUp"
proof (cases "bq_lifecycle s = QOpen")
  case False
  with assms show ?thesis by (intro shut) (simp_all add: bq_try_push_def)
next
  case True
  obtain decision p where d: "pol_decide pops (bq_policy s)
      \<lparr>ctx_capacity = bq_capacity s, ctx_entries = bq_entries s\<rparr> work = (decision, p)" by fastforce
  with True assms show ?thesis
    by (intro admission [OF True d])
      (auto simp: bq_try_push_def sink_push_def split: Option.bind_splits option.splits if_splits)
qed

lemma bq_try_push_ok:
  assumes wf: "bq_wf s" and t: "bq_try_push pops dops s work = Some (out, s', evs)"
  shows "bq_wf s'" "bq_frame s' = bq_frame s" "filter is_drained evs = []"
    "bq_life s n \<Longrightarrow> bq_life s' n"
proof -
  have "bq_wf s' \<and> bq_frame s' = bq_frame s \<and> filter is_drained evs = [] \<and> (bq_life s n \<longrightarrow> bq_life s' n)"
    using t
  proof (cases rule: bq_try_push_cases)
    case shut
    with wf show ?thesis by simp
  next
    case (admission decision p)
    let ?s = "s\<lparr>bq_policy := p\<rparr>"
    have wfp: "bq_wf ?s" using wf by simp
    have "bq_wf s' \<and> bq_frame s' = bq_frame ?s"
      by (rule bq_apply_admission_cases [OF wfp admission(3)]) simp_all
    moreover have "filter is_drained evs = []"
      using admission(4) by (auto simp: filter_empty_conv is_drained_def split: queue_event.splits)
    moreover have "bq_frame ?s = bq_frame s" by (simp add: bq_frame_def)
    ultimately have fr: "bq_wf s'" "bq_frame s' = bq_frame s" "filter is_drained evs = []" by simp_all
    then have "bq_life s n \<longrightarrow> bq_life s' n"
      using admission(1) bq_frame_cong(4,6) [OF fr(2)] by (simp add: bq_life_def)
    with fr show ?thesis by simp
  qed
  then show "bq_wf s'" "bq_frame s' = bq_frame s" "filter is_drained evs = []"
    "bq_life s n \<Longrightarrow> bq_life s' n" by auto
qed

lemma bq_close_ok:
  assumes "bq_close s = (l, s', evs)" "bq_announced s r hist" "bq_life s n"
  shows "bq_announced s' r (hist @ evs)" "bq_life s' n" "bq_wf s' = bq_wf s"
    "bq_capacity s' = bq_capacity s" "bq_entries s' = bq_entries s" "bq_discipline s' = bq_discipline s"
proof -
  let ?s = "if bq_lifecycle s = QOpen then
      s\<lparr>bq_lifecycle := (if bq_entries s = [] \<and> bq_in_flight s = 0 then QDrained else QDraining)\<rparr> else s"
  have t: "bq_take_drained_event ?s = (s', evs)" using assms(1) by (auto simp: bq_close_def Let_def split: prod.splits)
  have pre: "bq_pre_announced ?s r hist" using assms(2) by (auto simp: bq_announced_def bq_pre_announced_def)
  have "unat (bq_in_flight s) = 0 \<longleftrightarrow> bq_in_flight s = 0" by (simp add: unsigned_eq_0_iff)
  then have life: "bq_life ?s n" using assms(3) by (auto simp: bq_life_def)
  show "bq_announced s' r (hist @ evs)" "bq_life s' n" "bq_wf s' = bq_wf s"
    using bq_take_drained_event_announced [OF t pre] life by auto
  show "bq_capacity s' = bq_capacity s" "bq_entries s' = bq_entries s" "bq_discipline s' = bq_discipline s"
    using bq_drained_event_frame [OF t] by auto
qed

lemma bq_on_complete_announced:
  assumes "bq_on_complete s c = Some (s', evs)" "bq_announced s r hist"
  shows "bq_announced s' r (hist @ evs)" "bq_capacity s' = bq_capacity s"
proof -
  let ?s = "let s = s\<lparr>bq_in_flight := saturating_sub (bq_in_flight s) 1\<rparr> in
      (if bq_lifecycle s = QDraining \<and> bq_entries s = [] \<and> bq_in_flight s = 0
       then s\<lparr>bq_lifecycle := QDrained\<rparr> else s)"
  have t: "bq_take_drained_event ?s = (s', evs)" using assms(1) by (simp add: bq_on_complete_def Let_def)
  have pre: "bq_pre_announced ?s r hist"
    using assms(2) by (auto simp: bq_announced_def bq_pre_announced_def Let_def)
  show "bq_announced s' r (hist @ evs)" using bq_take_drained_event_announced(1) [OF t pre] .
  show "bq_capacity s' = bq_capacity s" using bq_drained_event_frame [OF t] by (auto simp: Let_def)
qed

lemma bq_attach_announced:
  assumes "bq_attach s sig = Some (s', sig', evs)" "bq_announced s r hist"
  shows "bq_announced s'
    (if bq_event_sink s = Some (signals_queue_event_sink sig) then r else Suc r) (hist @ evs)"
    "bq_capacity s' = bq_capacity s"
proof -
  let ?sink = "signals_queue_event_sink sig"
  let ?r = "if bq_event_sink s = Some ?sink then r else Suc r"
  have same: "belongs_to_same_runtime k ?sink \<longleftrightarrow> k = ?sink" for k
    by (cases k) (simp add: belongs_to_same_runtime_def signals_queue_event_sink_def)
  obtain s1 where s1: "bq_take_drained_event (s1\<lparr>bq_event_sink := Some ?sink\<rparr>) = (s', evs)"
    "bq_event_sink s = Some ?sink \<and> s1 = s \<or>
     bq_event_sink s \<noteq> Some ?sink \<and> (\<exists>q. s1 = s\<lparr>bq_queue_id := Some q, bq_drained_event_sent := False\<rparr>)"
    using assms(1)
    by (auto simp: bq_attach_def Let_def same split: if_splits option.splits Option.bind_splits prod.splits)
  have pre: "bq_pre_announced (s1\<lparr>bq_event_sink := Some ?sink\<rparr>) ?r hist"
    using s1(2) assms(2) by (auto simp: bq_announced_def bq_pre_announced_def split: if_splits)
  show "bq_announced s' ?r (hist @ evs)" by (rule bq_take_drained_event_announced(1) [OF s1(1) pre])
  show "bq_capacity s' = bq_capacity s" using bq_drained_event_frame [OF s1(1)] s1(2) by auto
qed

lemma bq_took_frame:
  assumes "bq_took s x v s'"
  shows "bq_event_sink s' = bq_event_sink s" "bq_queue_id s' = bq_queue_id s"
    "bq_drained_event_sent s' = bq_drained_event_sent s" "bq_lifecycle s' = bq_lifecycle s"
    "bq_capacity s' = bq_capacity s"
proof -
  obtain d where d: "s' = s\<lparr>bq_discipline := d, bq_entries := bq_entries s',
      bq_in_flight := saturating_add (bq_in_flight s) 1\<rparr>" using assms by (auto simp: bq_took_def)
  show "bq_event_sink s' = bq_event_sink s" "bq_queue_id s' = bq_queue_id s"
    "bq_drained_event_sent s' = bq_drained_event_sent s" "bq_lifecycle s' = bq_lifecycle s"
    "bq_capacity s' = bq_capacity s"
    by (subst d, simp)+
qed

lemma bq_exec_sane:
  assumes "bq_exec pops dops cap p0 d0 s n r hist" "cap \<le> u64_max"
  shows "bq_wf s \<and> bq_life s n \<and> bq_announced s r hist \<and> bq_capacity s = cap"
  using assms(1)
proof (induction rule: bq_exec.induct)
  case bqe_build
  show ?case
    using assms(2)
    by (simp add: bounded_queue_build_def bq_wf_def entries_ok_def bq_life_def bq_announced_def bq_pre_announced_def)
next
  case (bqe_push s n r hist work out s' evs)
  note ok = bq_try_push_ok [OF _ bqe_push.hyps(2)]
  with bqe_push.IH bq_frame_cong [OF ok(2)] show ?case
    by (auto intro: bq_announced_cong)
next
  case (bqe_close s n r hist l s' evs)
  then show ?case using bq_close_ok [OF bqe_close.hyps(2)] by auto
next
  case (bqe_clone s n r hist)
  then show ?case
    by (auto simp: bq_clone_producer_def bq_life_def intro: bq_announced_cong)
next
  case (bqe_drop s n r hist s' evs)
  let ?s = "s\<lparr>bq_producer_count := bq_producer_count s - 1\<rparr>"
  have s: "bq_wf ?s" "bq_life ?s n" "bq_announced ?s r hist" "bq_capacity ?s = cap"
    using bqe_drop.IH by (auto simp: bq_life_def intro: bq_announced_cong)
  obtain l s2 e2 where c: "bq_close ?s = (l, s2, e2)" by (metis prod_cases3)
  show ?case
    using bqe_drop.hyps(2) c s bq_close_ok [OF c s(3,2)]
    by (auto simp: bq_drop_producer_def Let_def split: if_splits)
next
  case (bqe_ready s n r hist now rd s')
  then show ?case by (simp add: bq_update_ready_def)
next
  case (bqe_take s n r hist w s')
  then have wf: "bq_wf s" by simp
  from wf bqe_take.hyps(3) show ?case
  proof (cases rule: bq_take_next_cases)
    case (empty d)
    with bqe_take.IH show ?thesis by (auto simp: bq_life_def intro: bq_announced_cong)
  next
    case (took v x)
    with bqe_take.IH bqe_take.hyps(2) bq_took_wf [OF wf] bq_took_life bq_took_frame [OF took(2)] show ?thesis
      by (auto intro: bq_announced_cong)
  qed
next
  case (bqe_complete s n r hist c s' evs)
  then show ?case
    using bq_on_complete_announced [OF bqe_complete.hyps(3)] bq_on_complete_life [OF bqe_complete.hyps(3)]
      bq_on_complete_frame(3) [OF bqe_complete.hyps(3)] by auto
next
  case (bqe_attach s n r hist sig s' sig' evs)
  then show ?case
    using bq_attach_announced [OF bqe_attach.hyps(2)] bq_attach_frame(3,4) [OF bqe_attach.hyps(2)] by auto
qed

section \<open>Properties\<close>

text \<open>
  C19. The hard capacity holds against any admission policy and any discipline: in every
  interleaving of producers, closes, dispatches and completions, at most \<open>capacity\<close> entries are
  stored, with distinct identities and distinct admission orders.
\<close>

theorem bounded_queue_capacity:
  assumes "bq_exec pops dops cap p0 d0 s n r hist" and "cap \<le> u64_max"
  shows "length (bq_entries s) \<le> cap \<and> distinct (map fst (bq_entries s)) \<and>
    distinct (map (\<lambda>e. st_order (snd e)) (bq_entries s))"
  using bq_exec_sane [OF assms] by (auto simp: bq_wf_def entries_ok_def)

lemma bq_take_next_returns:
  assumes "\<And>d x. disc_remove dops d x \<noteq> None"
  obtains w s' where "bq_take_next dops s = Some (w, s')"
proof -
  obtain u s1 where u: "bq_select dops (length (bq_entries s) + 1) s = (u, s1)" by fastforce
  show thesis
  proof (cases "u = None \<and> (\<exists>x. entries_oldest (bq_entries s1) = Some x)")
    case True
    then obtain x where x: "u = None" "entries_oldest (bq_entries s1) = Some x" by blast
    obtain b d where d: "disc_remove dops (bq_discipline s1) x = Some (b, d)"
      using assms [of "bq_discipline s1" x] by auto
    from u x d show thesis
      by (cases "bq_take_entry (s1\<lparr>bq_discipline := d\<rparr>) x")
        (auto simp del: bq_select.simps simp: bq_take_next_def split: prod.splits intro: that)
  next
    case False
    with u show thesis
      by (cases u) (auto simp del: bq_select.simps simp: bq_take_next_def intro: that)
  qed
qed

text \<open>
  C17. Accepted work is dispatched exactly once and never stranded, also by a discipline that
  returns stale identities or nothing at all, as long as its \<open>remove\<close> does not panic: \<open>take_next\<close>
  returns, with work whenever an entry is stored, and the work is that of one
  stored entry, which alone is removed.
\<close>

theorem bounded_queue_never_strands:
  assumes "bq_exec pops dops cap p0 d0 s n r hist" and "cap \<le> u64_max"
    and "\<And>d x. disc_remove dops d x \<noteq> None"
  shows "\<exists>w s'. bq_take_next dops s = Some (w, s') \<and> (case w of
      None \<Rightarrow> bq_entries s = [] \<and> bq_entries s' = []
    | Some v \<Rightarrow> (\<exists>x st. map_of (bq_entries s) x = Some st \<and> v = st_work st \<and>
        bq_entries s' = filter (\<lambda>e. fst e \<noteq> x) (bq_entries s)))"
proof -
  have wf: "bq_wf s" using bq_exec_sane [OF assms(1,2)] by simp
  have ok: "entries_ok (bq_entries s)" using wf by (simp add: bq_wf_def)
  obtain w s' where t: "bq_take_next dops s = Some (w, s')" using bq_take_next_returns [OF assms(3)] .
  from wf t have "case w of
      None \<Rightarrow> bq_entries s = [] \<and> bq_entries s' = []
    | Some v \<Rightarrow> (\<exists>x st. map_of (bq_entries s) x = Some st \<and> v = st_work st \<and>
        bq_entries s' = filter (\<lambda>e. fst e \<noteq> x) (bq_entries s))"
  proof (cases rule: bq_take_next_cases)
    case (empty d)
    then show ?thesis by simp
  next
    case (took v x)
    obtain st where "map_of (bq_entries s) x = Some st" "v = st_work st"
      using took(2) bq_view_map_of [OF ok, of x] by (auto simp: bq_took_def)
    moreover have "bq_entries s' = filter (\<lambda>e. fst e \<noteq> x) (bq_entries s)"
      using took(2) by (auto simp: bq_took_def AList.delete_eq intro: filter_cong)
    ultimately show ?thesis using took(1) by auto
  qed
  with t show ?thesis by blast
qed

text \<open>
  C18. A drained queue has nothing left, and says so once: in every interleaving, the lifecycle
  \<open>Drained\<close> means that no entry is stored and nothing is in flight; a drained queue that is attached
  to a runtime has emitted its drained event to that runtime, with the identity that
  runtime assigned; and at most one drained event is emitted per runtime attached in turn.
\<close>

theorem bounded_queue_drained_once:
  assumes "bq_exec pops dops cap p0 d0 s n r hist" and "cap \<le> u64_max"
  shows "(bq_lifecycle s = QDrained \<longrightarrow> bq_entries s = [] \<and> n = 0 \<and>
      (\<forall>k. bq_event_sink s = Some k \<longrightarrow>
        (\<exists>q. bq_queue_id s = Some q \<and> (k, Drained q) \<in> set hist))) \<and>
    (bq_lifecycle s = QDraining \<longrightarrow> bq_entries s \<noteq> [] \<or> n \<noteq> 0) \<and>
    length (filter is_drained hist) \<le> r"
  using bq_exec_sane [OF assms]
  by (auto simp: bq_life_def bq_announced_def bq_pre_announced_def)

text \<open>
  Admission always succeeds within capacity, and in order: while the queue is open and below
  capacity, admitting work under any discipline that accepts the entry terminates with a fresh
  identity and appends the work to the admission order, including when the 64-bit
  order counter is exhausted and rebased and when the 64-bit identity counter wraps around.
\<close>

theorem bounded_queue_admission:
  assumes "bq_exec pops dops cap p0 d0 s n r hist" and "cap \<le> u64_max"
    and "length (bq_entries s) < cap"
    and "\<And>x. x \<notin> fst ` set (bq_entries s) \<Longrightarrow> disc_push dops (bq_discipline s) x (sw_meta work) \<noteq> None"
  shows "\<exists>s' x. bq_insert_work dops s work = Some s' \<and> x \<notin> fst ` set (bq_entries s) \<and>
    queue_view (bq_entries s') = queue_view (bq_entries s) @ [(x, work)]"
proof -
  have wf: "bq_wf s" and room: "length (bq_entries s) < bq_capacity s"
    using bq_exec_sane [OF assms(1,2)] assms(3) by simp_all
  obtain x entries n order where *: "x \<notin> bq_keys s"
    "bq_insert_work dops s work =
       map_option (\<lambda>d. s\<lparr>bq_next_id := n, bq_entries := entries, bq_next_order := order,
         bq_discipline := d\<rparr>) (disc_push dops (bq_discipline s) x (sw_meta work))"
    "queue_view entries = bq_view s @ [(x, work)]"
    using wf room by (rule bq_insert_cases [where dops = dops and work = work]) blast
  with assms(4) [of x] show ?thesis by (auto simp: bq_keys_def bq_view_def)
qed

section \<open>The FIFO queue\<close>

definition fifo_contents :: "('t, 'm, unit, fifo) bounded_queue \<Rightarrow> ('t, 'm) scheduled_work list" where
  "fifo_contents s = map snd (queue_view (bq_entries s))"

definition bq_fifo :: "('t, 'm, unit, fifo) bounded_queue \<Rightarrow> bool" where
  "bq_fifo s \<longleftrightarrow> ff_entries (bq_discipline s) = map fst (bq_view s)"

lemma bq_view_distinct:
  assumes "bq_wf s"
  shows "distinct (map fst (bq_view s))"
proof -
  have "mset (map fst (by_age (bq_entries s))) = mset (map fst (bq_entries s))"
    by (simp add: by_age_def)
  then have "distinct (map fst (by_age (bq_entries s)))"
    using assms unfolding bq_wf_def entries_ok_def by (metis mset_eq_imp_distinct_iff)
  then show ?thesis by (simp add: bq_view_def queue_view_def o_def split_def)
qed

lemma bq_fifo_invar:
  assumes "bq_wf s" "bq_life s n" "bq_fifo s"
  shows "bq_invar fifo_invar fifo_members s (replicate_mset n [])"
  using assms bq_view_distinct [OF assms(1)] bq_view_keys [of s]
  by (simp add: bq_invar_def bq_fifo_def fifo_invar_def fifo_members_def)

lemma bq_fifo_take:
  assumes "bq_wf s" "bq_life s n" "bq_fifo s"
  obtains (none) s' where "bq_view s = []" "bq_take_next fifo_ops s = Some (None, s')"
      "bq_view s' = []" "bq_fifo s'"
  | (head) x v q s' where "bq_view s = (x, v) # q" "bq_take_next fifo_ops s = Some (Some v, s')"
      "bq_view s' = q" "bq_fifo s'"
proof (cases "bq_view s")
  case Nil
  then have "bq_entries s = []" by (simp add: bq_view_def)
  moreover have "ff_entries (bq_discipline s) = []" using assms(3) Nil by (simp add: bq_fifo_def)
  ultimately have "bq_take_next fifo_ops s = Some (None, s\<lparr>bq_discipline := bq_discipline s\<rparr>)"
    by (simp add: bq_take_next_def fifo_take_next_def entries_oldest_def)
  with Nil assms(3) show thesis by (intro none [of s]) simp_all
next
  case (Cons p q)
  obtain x v where p: "p = (x, v)" by fastforce
  have ne: "bq_entries s \<noteq> []" using Cons by (auto simp: bq_view_def)
  obtain y u d s' where t: "fifo_take_next (bq_discipline s) = (Some y, d)"
    "bq_take_next fifo_ops s = Some (Some u, s')" "bq_took s y u s'" "bq_discipline s' = d"
    by (rule fifo_queue.bq_take_next_selects [OF bq_fifo_invar [OF assms] ne, unfolded fifo_ops_simps])
      (rule that)
  have y: "y = x" "ff_entries d = map fst q"
    using t(1) assms(3) Cons p by (auto simp: fifo_take_next_def bq_fifo_def)
  have u: "u = v" using t(3) Cons p y by (simp add: bq_took_def)
  have "bq_view s' = filter (\<lambda>e. fst e \<noteq> x) (bq_view s)" using t(3) y by (simp add: bq_took_def)
  also have "\<dots> = q" using bq_view_distinct [OF assms(1)] Cons p by (auto simp: filter_id_conv rev_image_eqI)
  finally have "bq_view s' = q" .
  with Cons p t y u show thesis by (intro head [of x v q s']) (simp_all add: bq_fifo_def)
qed

lemma bq_fifo_view_cong:
  assumes "bq_fifo s" "bq_entries s' = bq_entries s" "bq_discipline s' = bq_discipline s"
  shows "bq_fifo s'"
  using assms by (simp add: bq_fifo_def bq_view_def)

lemma tail_drop_push:
  assumes wf: "bq_wf s" and fifo: "bq_fifo s"
  obtains out s' evs where "bq_try_push tail_drop_ops fifo_ops s work = Some (out, s', evs)" "bq_fifo s'"
    "out = (if bq_lifecycle s \<noteq> QOpen then QueueClosed work
       else if length (bq_entries s) < bq_capacity s then Admitted else Rejected work)"
    "fifo_contents s' = (if out = Admitted then fifo_contents s @ [work] else fifo_contents s)"
proof (cases "bq_lifecycle s = QOpen \<and> length (bq_entries s) < bq_capacity s")
  case True
  let ?s = "s\<lparr>bq_policy := ()\<rparr>"
  have wfp: "bq_wf ?s" "length (bq_entries ?s) < bq_capacity ?s" using wf True by simp_all
  have "\<exists>s'. bq_insert_work fifo_ops ?s work = Some s'"
    by (rule bq_insert_cases [OF wfp, of fifo_ops work]) (simp add: fifo_push_def)
  then obtain s' where ins: "bq_insert_work fifo_ops ?s work = Some s'" ..
  obtain x where x: "bq_view s' = bq_view ?s @ [(x, work)]"
    "disc_push fifo_ops (bq_discipline ?s) x (sw_meta work) = Some (bq_discipline s')"
    by (rule bq_insert_effect [OF wfp ins]) (rule that)
  have "bq_discipline s' = (bq_discipline s)\<lparr>ff_entries := ff_entries (bq_discipline s) @ [x]\<rparr>"
    using x(2) by (simp add: fifo_push_def)
  then have "bq_fifo s'" using x(1) fifo by (simp add: bq_fifo_def bq_view_def)
  moreover have "fifo_contents s' = fifo_contents s @ [work]"
    using x(1) by (simp add: fifo_contents_def bq_view_def)
  moreover obtain evs where "bq_try_push tail_drop_ops fifo_ops s work = Some (Admitted, s', evs)"
    using True ins
    by (simp add: bq_try_push_def tail_drop_ops_def tail_drop_decide_def ctx_depth_def bq_apply_admission_def)
  ultimately show thesis using True by (intro that [of Admitted s' evs]) simp_all
next
  case False
  show thesis
  proof (cases "bq_lifecycle s = QOpen")
    case opened: True
    with False fifo show thesis
      by (intro that [of "Rejected work"
            "s\<lparr>bq_policy := (), bq_rejections := saturating_add (bq_rejections s) 1\<rparr>" "[]"])
        (auto simp: bq_try_push_def tail_drop_ops_def tail_drop_decide_def ctx_depth_def
          bq_apply_admission_def bq_reject_def fifo_contents_def intro: bq_fifo_view_cong
          split: option.splits)
  next
    case shut: False
    with fifo show thesis by (intro that [of "QueueClosed work" s "[]"]) (simp_all add: bq_try_push_def)
  qed
qed

lemma fifo_exec_sane:
  assumes "bq_exec tail_drop_ops fifo_ops cap () fifo_new s n r hist" "cap \<le> u64_max"
  shows "bq_fifo s"
  using assms(1)
proof (induction rule: bq_exec.induct)
  case bqe_build
  show ?case by (simp add: bq_fifo_def bounded_queue_build_def fifo_new_def bq_view_def)
next
  case (bqe_push s n r hist work out s' evs)
  have "bq_wf s" using bq_exec_sane [OF bqe_push.hyps(1) assms(2)] by simp
  from tail_drop_push [OF this bqe_push.IH, of work] bqe_push.hyps(2) show ?case by auto
next
  case (bqe_close s n r hist l s' evs)
  then show ?case
    using bq_close_ok(5,6) [OF bqe_close.hyps(2)] bq_exec_sane [OF bqe_close.hyps(1) assms(2)]
    by (auto intro: bq_fifo_view_cong)
next
  case (bqe_clone s n r hist)
  then show ?case by (auto simp: bq_clone_producer_def intro: bq_fifo_view_cong)
next
  case (bqe_drop s n r hist s' evs)
  let ?s = "s\<lparr>bq_producer_count := bq_producer_count s - 1\<rparr>"
  have s: "bq_life ?s n" "bq_announced ?s r hist"
    using bq_exec_sane [OF bqe_drop.hyps(1) assms(2)] by (auto simp: bq_life_def intro: bq_announced_cong)
  obtain l s2 e2 where c: "bq_close ?s = (l, s2, e2)" by (metis prod_cases3)
  show ?case
    using bqe_drop.hyps(2) bqe_drop.IH c bq_close_ok(5,6) [OF c s(2,1)]
    by (auto simp: bq_drop_producer_def Let_def split: if_splits intro: bq_fifo_view_cong)
next
  case (bqe_ready s n r hist now rd s')
  then show ?case by (simp add: bq_update_ready_def)
next
  case (bqe_take s n r hist w s')
  have "bq_wf s" "bq_life s n" using bq_exec_sane [OF bqe_take.hyps(1) assms(2)] by simp_all
  from this bqe_take.IH show ?case
    by (cases rule: bq_fifo_take) (use bqe_take.hyps(3) in auto)
next
  case (bqe_complete s n r hist c s' evs)
  show ?case
    by (rule bq_fifo_view_cong [OF bqe_complete.IH bq_on_complete_frame(1,2) [OF bqe_complete.hyps(3)]])
next
  case (bqe_attach s n r hist sig s' sig' evs)
  show ?case
    by (rule bq_fifo_view_cong [OF bqe_attach.IH bq_attach_frame(1,2) [OF bqe_attach.hyps(2)]])
qed

text \<open>
  C25. The default queue is a bounded FIFO list: in every interleaving, the tail-drop FIFO queue
  refines a list of at most \<open>capacity\<close> items. A push appends, or is refused with the work handed back
  exactly when the queue is full or closed; \<open>take_next\<close> returns the head and leaves the tail.
\<close>

theorem fifo_queue_refines_list:
  assumes "bq_exec tail_drop_ops fifo_ops cap () fifo_new s n r hist" and "cap \<le> u64_max"
  shows "(\<exists>out s' evs. bq_try_push tail_drop_ops fifo_ops s work = Some (out, s', evs) \<and>
      out = (if bq_lifecycle s \<noteq> QOpen then QueueClosed work
        else if length (fifo_contents s) < cap then Admitted else Rejected work) \<and>
      fifo_contents s' = (if out = Admitted then fifo_contents s @ [work] else fifo_contents s)) \<and>
    (\<exists>w s'. bq_take_next fifo_ops s = Some (w, s') \<and>
      (case fifo_contents s of
         [] \<Rightarrow> w = None \<and> fifo_contents s' = []
       | x # rest \<Rightarrow> w = Some x \<and> fifo_contents s' = rest))"
proof -
  have sane: "bq_wf s" "bq_life s n" "bq_capacity s = cap" using bq_exec_sane [OF assms] by simp_all
  have fifo: "bq_fifo s" using assms by (rule fifo_exec_sane)
  have len: "length (fifo_contents s) = length (bq_entries s)" by (simp add: fifo_contents_def queue_view_def)
  have take: "\<exists>w s'. bq_take_next fifo_ops s = Some (w, s') \<and>
      (case fifo_contents s of
         [] \<Rightarrow> w = None \<and> fifo_contents s' = []
       | x # rest \<Rightarrow> w = Some x \<and> fifo_contents s' = rest)"
    using sane(1,2) fifo
    by (cases rule: bq_fifo_take) (auto simp: fifo_contents_def bq_view_def)
  from tail_drop_push [OF sane(1) fifo, of work] obtain out s' evs where
    "bq_try_push tail_drop_ops fifo_ops s work = Some (out, s', evs)"
    "out = (if bq_lifecycle s \<noteq> QOpen then QueueClosed work
       else if length (bq_entries s) < bq_capacity s then Admitted else Rejected work)"
    "fifo_contents s' = (if out = Admitted then fifo_contents s @ [work] else fifo_contents s)" .
  with take sane(3) len show ?thesis by (simp only:) blast
qed

section \<open>Witnesses\<close>

definition bq_example :: "(nat, unit, unit, fifo) bounded_queue" where
  "bq_example = bounded_queue_build 2 () fifo_new"

definition bq_item :: "nat \<Rightarrow> (nat, unit) scheduled_work" where
  "bq_item n = scheduled_work_new () n"

lemma find_entry_id_empty [simp]: "find_entry_id {} n = Some (n, n + 1)"
  by (subst find_entry_id.simps) simp

definition bq_example_pushed :: "(nat, unit, unit, fifo) bounded_queue" where
  "bq_example_pushed =
     bq_example\<lparr>bq_next_id := 1, bq_next_order := 1, bq_discipline := \<lparr>ff_entries = [0]\<rparr>,
       bq_entries := [(0, \<lparr>st_order = 0, st_work = bq_item 7\<rparr>)]\<rparr>"

lemma bq_example_push:
  "bq_try_push tail_drop_ops fifo_ops bq_example (bq_item 7) = Some (Admitted, bq_example_pushed, [])"
  by (simp add: bq_example_def bq_example_pushed_def bounded_queue_build_def bq_try_push_def tail_drop_ops_def
      tail_drop_decide_def ctx_depth_def bq_apply_admission_def bq_insert_work_def bq_next_entry_id_def
      bq_next_admitted_order_def checked_add_def fifo_push_def fifo_new_def)

lemma bq_example_exec: "bq_exec tail_drop_ops fifo_ops 2 () fifo_new bq_example_pushed 0 0 []"
  using bqe_push [OF bqe_build bq_example_push [unfolded bq_example_def]] by simp

theorem bounded_queue_capacity_witness:
  "length (bq_entries bq_example_pushed) \<le> 2 \<and> distinct (map fst (bq_entries bq_example_pushed))"
  using bounded_queue_capacity [OF bq_example_exec] by (simp add: u64_max_def)

lemma bq_example_take:
  "\<exists>s'. bq_take_next fifo_ops bq_example_pushed = Some (Some (bq_item 7), s') \<and> bq_entries s' = [] \<and>
     bq_lifecycle s' = QOpen \<and> unat (bq_in_flight s') = 1"
  by (simp add: bq_example_pushed_def bq_example_def bounded_queue_build_def bq_take_next_def
      fifo_take_next_def bq_take_entry_def saturating_add_def)

theorem bounded_queue_never_strands_witness:
  "\<exists>s' x st. bq_take_next fifo_ops bq_example_pushed = Some (Some (bq_item 7), s') \<and>
     map_of (bq_entries bq_example_pushed) x = Some st \<and> bq_item 7 = st_work st"
proof -
  have "disc_remove fifo_ops d x \<noteq> None" for d x by (simp add: fifo_remove_eq)
  from bounded_queue_never_strands [OF bq_example_exec _ this] bq_example_take show ?thesis
    by (fastforce simp: u64_max_def)
qed

theorem bounded_queue_drained_once_witness:
  "\<exists>s evs. bq_close bq_example = (QDrained, s, evs) \<and> bq_lifecycle s = QDrained \<and>
     length (filter is_drained evs) \<le> 0"
proof -
  obtain s evs where c: "bq_close bq_example = (QDrained, s, evs)" "bq_lifecycle s = QDrained"
    by (simp add: bq_close_def bq_example_def bounded_queue_build_def bq_take_drained_event_def)
  have "bq_exec tail_drop_ops fifo_ops 2 () fifo_new s 0 0 evs"
    using bqe_close [OF bqe_build c(1) [unfolded bq_example_def]] by simp
  from bounded_queue_drained_once [OF this] c show ?thesis by (auto simp: u64_max_def)
qed

theorem bounded_queue_admission_witness:
  "\<exists>s' x. bq_insert_work fifo_ops bq_example_pushed (bq_item 8) = Some s' \<and>
     queue_view (bq_entries s') = queue_view (bq_entries bq_example_pushed) @ [(x, bq_item 8)]"
proof -
  have "length (bq_entries bq_example_pushed) < 2" by (simp add: bq_example_pushed_def)
  moreover have "disc_push fifo_ops (bq_discipline bq_example_pushed) x (sw_meta (bq_item 8)) \<noteq> None" for x
    by (simp add: fifo_push_def)
  ultimately show ?thesis
    using bounded_queue_admission [OF bq_example_exec, of "bq_item 8"] by (auto simp: u64_max_def)
qed

theorem fifo_queue_refines_list_witness:
  "\<exists>w s'. bq_take_next fifo_ops bq_example_pushed = Some (w, s') \<and> w = Some (bq_item 7) \<and>
     fifo_contents s' = []"
proof -
  have "fifo_contents bq_example_pushed = [bq_item 7]"
    by (simp add: fifo_contents_def queue_view_def by_age_def bq_example_pushed_def)
  with fifo_queue_refines_list [OF bq_example_exec, of "bq_item 8"] show ?thesis by (auto simp: u64_max_def)
qed

end
