(* ===== verification/Runtime.thy ===== *)
theory Runtime
  imports Bounded_Queue
begin

text \<open>
  The runtime that drives a tree of schedulers (\<open>dispatcher/src/runtime.rs\<close> and
  \<open>stats.rs\<close>), with the feature \<open>runtime-events\<close> on.

  What the driver owns is the record \<open>runtime\<close>. What it shares with handles, producers and
  payloads, the mutex-protected root and shutdown flag, the signals, the cell of a manual
  clock and the state of the world outside, is the record \<open>shared\<close>. One \<open>poll\<close> of the
  future \<open>Runtime::next\<close> is the function \<open>next_poll\<close>.

  Three things are not code of the crate and are parameters, bundled in the record
  \<open>runtime_env\<close>: the steps other threads take before the driver gets a lock
  (\<open>env_other\<close>), \<open>FuturesUnordered::poll_next\<close> (\<open>env_poll_next\<close>) and \<open>Instant::now\<close>
  (\<open>env_instant_now\<close>). The locale \<open>runtime_driver\<close> names what the runtime relies on: a root
  that meets the scheduler contract, other threads that keep it and never withdraw a
  shutdown or swallow a waker, and a futures set that returns exactly what polling one of its
  members returned.
\<close>

section \<open>Clocks\<close>

record manual_clock =
  mc_epoch :: instant
  mc_offset_nanos :: u64

definition manual_clock_new :: "instant \<Rightarrow> manual_clock" where
  "manual_clock_new now = \<lparr>mc_epoch = now, mc_offset_nanos = 0\<rparr>"

definition mc_now :: "manual_clock \<Rightarrow> instant outcome" where
  "mc_now c = checked_add_instant (mc_epoch c) (unat (mc_offset_nanos c))"

definition mc_advance :: "manual_clock \<Rightarrow> duration \<Rightarrow> manual_clock" where
  "mc_advance c by_nanos =
     c\<lparr>mc_offset_nanos := saturating_add (mc_offset_nanos c) (clamp_u64 by_nanos)\<rparr>"

definition mc_advance_to :: "manual_clock \<Rightarrow> instant \<Rightarrow> manual_clock" where
  "mc_advance_to c to =
     (let target = clamp_u64 (duration_since to (mc_epoch c))
      in c\<lparr>mc_offset_nanos := max (mc_offset_nanos c) target\<rparr>)"

datatype clock_config = ConfigWallclock | ConfigVirtual duration | ConfigManual manual_clock

datatype runtime_clock = Wallclock | Virtual instant duration | Manual

record runtime_config =
  cfg_global_max_in_flight :: nat
  cfg_clock :: clock_config

section \<open>The state of the runtime\<close>

datatype sleep_hint = Observed instant | Emitted instant

fun hint_deadline :: "sleep_hint \<Rightarrow> instant" where
  "hint_deadline (Observed deadline) = deadline"
| "hint_deadline (Emitted deadline) = deadline"

text \<open>\<open>Result<Vec<Ev>, Err>\<close>.\<close>

type_synonym ('ev, 'err) work_result = "'err + 'ev list"

datatype ('ev, 'err) runtime_output =
    OutWork "('ev, 'err) work_result" duration
  | OutRuntime runtime_event
  | OutSleepUntil instant
  | OutShutdown

datatype 'a poll = Pending | is_Ready: Ready (the_ready: 'a)

record ('t, 'm) in_flight =
  inf_start :: instant
  inf_work :: "('t, 'm) scheduled_work option"

record ('m, 'ev, 'err) completed_work =
  cw_start :: instant
  cw_meta :: 'm
  cw_result :: "('ev, 'err) work_result"
  cw_routing :: routing_path

record stats_cells =
  cell_dispatched :: u64
  cell_in_flight :: u64
  cell_output_queued :: nat

record output_queue_stats =
  oqs_queued :: nat
  oqs_capacity :: "nat option"
  oqs_dropped :: u64

record runtime_stats =
  rst_in_flight :: u64
  rst_dispatched :: u64
  rst_output_queue :: output_queue_stats

record ('t, 'm, 'ev, 'err) runtime =
  rt_config :: runtime_config
  rt_clock :: runtime_clock
  rt_sleep_hint :: "sleep_hint option"
  rt_in_flight :: "('t, 'm) in_flight list"
  rt_completion :: "'m completion list"
  rt_output :: "('ev, 'err) runtime_output list"
  rt_stats :: stats_cells

record ('s, 'w) shared =
  sh_root :: 's
  sh_shutdown :: bool
  sh_signals :: runtime_signals
  sh_clock :: manual_clock
  sh_world :: 'w

record ('s, 't, 'm, 'ev, 'err, 'w) runtime_env =
  env_other :: "('s, 'w) shared \<Rightarrow> ('s, 'w) shared"
  env_poll_next ::
    "('t, 'm) in_flight list \<Rightarrow> ('s, 'w) shared \<Rightarrow>
     (('m, 'ev, 'err) completed_work option poll \<times> ('t, 'm) in_flight list \<times> ('s, 'w) shared) outcome"
  env_instant_now :: "('s, 'w) shared \<Rightarrow> instant \<times> ('s, 'w) shared"

text \<open>
  \<open>InFlight::poll\<close>, for a payload future polled by \<open>poll_payload\<close>; the \<open>expect\<close> on
  work that already completed panics.
\<close>

definition in_flight_poll ::
  "('t \<Rightarrow> ('s, 'w) shared \<Rightarrow> (('ev, 'err) work_result poll \<times> 't \<times> ('s, 'w) shared) outcome) \<Rightarrow>
   ('t, 'm) in_flight \<Rightarrow> ('s, 'w) shared \<Rightarrow>
   (('m, 'ev, 'err) completed_work poll \<times> ('t, 'm) in_flight \<times> ('s, 'w) shared) outcome" where
  "in_flight_poll poll_payload this sh = do {
     work \<leftarrow> inf_work this;
     let this = this\<lparr>inf_work := None\<rparr>;
     (p, payload, sh) \<leftarrow> poll_payload (sw_payload work) sh;
     case p of
       Pending \<Rightarrow> Some (Pending, this\<lparr>inf_work := Some (work\<lparr>sw_payload := payload\<rparr>)\<rparr>, sh)
     | Ready result \<Rightarrow>
         Some (Ready \<lparr>cw_start = inf_start this, cw_meta = sw_meta work, cw_result = result,
                      cw_routing = sw_routing work\<rparr>, this, sh)
   }"

section \<open>Construction and handles\<close>

definition runtime_new ::
  "('s, 't, 'm) scheduler_ops \<Rightarrow> runtime_config \<Rightarrow> 's \<Rightarrow> nat \<Rightarrow> instant \<Rightarrow> 'w \<Rightarrow>
   (('t, 'm, 'ev, 'err) runtime \<times> ('s, 'w) shared) outcome" where
  "runtime_new ops config tree identity now world = do {
     (tree, signals) \<leftarrow> sched_register ops tree (signals_default identity);
     Some (\<lparr>rt_config = config,
             rt_clock = (case cfg_clock config of
                           ConfigWallclock \<Rightarrow> Wallclock
                         | ConfigVirtual increment \<Rightarrow> Virtual now increment
                         | ConfigManual clock \<Rightarrow> Manual),
             rt_sleep_hint = None, rt_in_flight = [], rt_completion = [], rt_output = [],
             rt_stats = \<lparr>cell_dispatched = 0, cell_in_flight = 0, cell_output_queued = 0\<rparr>\<rparr>,
           \<lparr>sh_root = tree, sh_shutdown = False, sh_signals = signals,
             sh_clock = (case cfg_clock config of
                           ConfigManual clock \<Rightarrow> clock | _ \<Rightarrow> manual_clock_new now),
             sh_world = world\<rparr>)
   }"

definition rt_manual_clock :: "('t, 'm, 'ev, 'err) runtime \<Rightarrow> ('s, 'w) shared \<Rightarrow> manual_clock option" where
  "rt_manual_clock rt sh =
     (case rt_clock rt of Manual \<Rightarrow> Some (sh_clock sh) | _ \<Rightarrow> None)"

definition graceful_shutdown :: "('s, 'w) shared \<Rightarrow> ('s, 'w) shared" where
  "graceful_shutdown sh =
     (let sh = sh\<lparr>sh_shutdown := True\<rparr> in sh\<lparr>sh_signals := signals_wake (sh_signals sh)\<rparr>)"

definition handle_stats :: "stats_cells \<Rightarrow> runtime_stats" where
  "handle_stats st =
     \<lparr>rst_in_flight = cell_in_flight st, rst_dispatched = cell_dispatched st,
      rst_output_queue =
        \<lparr>oqs_queued = cell_output_queued st, oqs_capacity = None, oqs_dropped = 0\<rparr>\<rparr>"

text \<open>
  \<open>with_root_mut\<close>: the closure gets the root and the sink of the runtime, from which it
  registers the subtrees it attaches; the driver is woken afterwards. The root is one type of
  the model, so the downcast is the caller's choice \<open>downcast\<close>.
\<close>

definition with_root_mut ::
  "bool \<Rightarrow> ('s \<Rightarrow> runtime_signals \<Rightarrow> ('r \<times> 's \<times> runtime_signals) outcome) \<Rightarrow> ('s, 'w) shared \<Rightarrow>
   ('r option \<times> ('s, 'w) shared) outcome" where
  "with_root_mut downcast f sh = do {
     (result, sh) \<leftarrow>
       (if downcast then do {
          (r, tree, signals) \<leftarrow> f (sh_root sh) (sh_signals sh);
          Some (Some r, sh\<lparr>sh_root := tree, sh_signals := signals\<rparr>)
        } else Some (None, sh));
     Some (result, sh\<lparr>sh_signals := signals_wake (sh_signals sh)\<rparr>)
   }"

text \<open>\<open>RuntimeMutationContext::register\<close> and \<open>RuntimeRootMut::add_child_with\<close>.\<close>

definition mutation_register ::
  "('c, 't, 'm) scheduler_ops \<Rightarrow> 'c \<Rightarrow> runtime_signals \<Rightarrow> ('c \<times> runtime_signals) outcome" where
  "mutation_register inner child signals = sched_register inner child signals"

definition root_add_child_with ::
  "('c, 't, 'm) scheduler_ops \<Rightarrow> ('s \<Rightarrow> 'c \<Rightarrow> 'a \<Rightarrow> ('i \<times> 's) outcome) \<Rightarrow> 'c \<Rightarrow> 'a \<Rightarrow>
   's \<Rightarrow> runtime_signals \<Rightarrow> ('i \<times> 's \<times> runtime_signals) outcome" where
  "root_add_child_with inner attach_child child args tree signals = do {
     (child, signals) \<leftarrow> mutation_register inner child signals;
     (i, tree) \<leftarrow> attach_child tree child args;
     Some (i, tree, signals)
   }"

section \<open>One poll of \<open>Runtime::next\<close>\<close>

definition clock_now ::
  "('s, 't, 'm, 'ev, 'err, 'w) runtime_env \<Rightarrow> runtime_clock \<Rightarrow> ('s, 'w) shared \<Rightarrow>
   (instant \<times> runtime_clock \<times> ('s, 'w) shared) outcome" where
  "clock_now env clock sh =
     (case clock of
        Wallclock \<Rightarrow> (let (now, sh) = env_instant_now env sh in Some (now, clock, sh))
      | Virtual now increment \<Rightarrow> do {
          now \<leftarrow> checked_add_instant now increment;
          Some (now, Virtual now increment, sh)
        }
      | Manual \<Rightarrow> do { now \<leftarrow> mc_now (sh_clock sh); Some (now, clock, sh) })"

definition clock_observe ::
  "('s, 't, 'm, 'ev, 'err, 'w) runtime_env \<Rightarrow> runtime_clock \<Rightarrow> ('s, 'w) shared \<Rightarrow>
   (instant \<times> ('s, 'w) shared) outcome" where
  "clock_observe env clock sh =
     (case clock of
        Wallclock \<Rightarrow> Some (env_instant_now env sh)
      | Virtual now increment \<Rightarrow> Some (now, sh)
      | Manual \<Rightarrow> do { now \<leftarrow> mc_now (sh_clock sh); Some (now, sh) })"

datatype ('t, 'm) shared_next_result =
  NextWork "('t, 'm) scheduled_work" | NextSleepUntil instant | NextNothing

definition shared_next ::
  "('s, 't, 'm) scheduler_ops \<Rightarrow> 's \<Rightarrow> instant \<Rightarrow> (('t, 'm) shared_next_result \<times> 's) outcome" where
  "shared_next ops tree now = do {
     let (r, tree) = sched_update_ready ops tree now;
     (work, tree) \<leftarrow> (if rd_ready r then sched_take_next ops tree else Some (None, tree));
     Some (case work of
             Some w \<Rightarrow> NextWork w
           | None \<Rightarrow> (case rd_next_update_at r of None \<Rightarrow> NextNothing | Some t \<Rightarrow> NextSleepUntil t),
           tree)
   }"

text \<open>The loop that hands the pending completions to the root, under the lock.\<close>

fun deliver_completions ::
  "('s, 't, 'm) scheduler_ops \<Rightarrow> 'm completion list \<Rightarrow> 's \<Rightarrow> runtime_signals \<Rightarrow>
   ('s \<times> runtime_signals) outcome" where
  "deliver_completions ops [] tree signals = Some (tree, signals)"
| "deliver_completions ops (completion # rest) tree signals = do {
     (tree, evs) \<leftarrow> sched_on_complete ops tree completion;
     deliver_completions ops rest tree (signals_deliver signals evs)
   }"

text \<open>
  The loop \<open>while !shutdown && in_flight.len() < global_max_in_flight\<close>, entered when the
  runtime is not shutting down.
\<close>

function dispatch_loop ::
  "('s, 't, 'm) scheduler_ops \<Rightarrow> nat \<Rightarrow> instant \<Rightarrow> 's \<Rightarrow> ('t, 'm) in_flight list \<Rightarrow>
   sleep_hint option \<Rightarrow> u64 \<Rightarrow>
   ('s \<times> ('t, 'm) in_flight list \<times> sleep_hint option \<times> u64) outcome" where
  "dispatch_loop ops cap now tree in_flight hint dispatched =
     (if length in_flight < cap then do {
        (r, tree) \<leftarrow> shared_next ops tree now;
        case r of
          NextWork work \<Rightarrow>
            dispatch_loop ops cap now tree
              (in_flight @ [\<lparr>inf_start = now, inf_work = Some work\<rparr>]) hint (dispatched + 1)
        | NextSleepUntil v \<Rightarrow>
            Some (tree, in_flight,
                  (if (case hint of None \<Rightarrow> True | Some h \<Rightarrow> v < hint_deadline h)
                   then Some (Observed v) else hint), dispatched)
        | NextNothing \<Rightarrow> Some (tree, in_flight, None, dispatched)
      } else Some (tree, in_flight, hint, dispatched))"
  by pat_completeness auto

termination
  by (relation "measure (\<lambda>(ops, cap, now, tree, in_flight, hint, dispatched). cap - length in_flight)")
    auto

declare dispatch_loop.simps [simp del]

definition completion_of ::
  "instant \<Rightarrow> instant \<Rightarrow> ('m, 'ev, 'err) completed_work \<Rightarrow> 'm completion" where
  "completion_of completed_at now completed =
     \<lparr>cp_completed_at = completed_at,
      cp_outcome = (case cw_result completed of Inr _ \<Rightarrow> Succeeded | Inl _ \<Rightarrow> Failed),
      cp_latency = duration_since now (cw_start completed), cp_meta = cw_meta completed,
      cp_routing = cw_routing completed\<rparr>"

text \<open>
  \<open>drain_completed\<close> polls the in-flight set until nothing more is ready. It ends because each
  turn removes a member, which is a promise of the futures set and not of this code.
\<close>

partial_function (option) drain_completed ::
  "('s, 't, 'm, 'ev, 'err, 'w) runtime_env \<Rightarrow> instant \<Rightarrow> bool \<Rightarrow> ('t, 'm, 'ev, 'err) runtime \<Rightarrow>
   ('t, 'm) in_flight list \<Rightarrow> ('s, 'w) shared \<Rightarrow>
   (bool \<times> ('t, 'm, 'ev, 'err) runtime \<times> ('t, 'm) in_flight list \<times> ('s, 'w) shared) outcome" where
  "drain_completed env now progress rt in_flight sh = do {
     (p, in_flight, sh) \<leftarrow> env_poll_next env in_flight sh;
     case p of
       Ready (Some completed) \<Rightarrow> do {
         (completed_at, sh) \<leftarrow> clock_observe env (rt_clock rt) sh;
         let completion = completion_of completed_at now completed;
         let rt = rt\<lparr>rt_completion := rt_completion rt @ [completion],
                     rt_output := rt_output rt @ [OutWork (cw_result completed) (cp_latency completion)]\<rparr>;
         drain_completed env now True rt in_flight sh
       }
     | _ \<Rightarrow> Some (progress, rt, in_flight, sh)
   }"

text \<open>
  One turn of the loop \<open>while progress\<close> of \<open>poll\<close>, which returns an output or ends with the
  value of \<open>progress\<close>: first what it does before the clock is read.
\<close>

datatype 'o turn = Return 'o | Turn bool

definition forward_completions ::
  "('s, 't, 'm) scheduler_ops \<Rightarrow> ('s, 't, 'm, 'ev, 'err, 'w) runtime_env \<Rightarrow>
   ('t, 'm, 'ev, 'err) runtime \<Rightarrow> ('s, 'w) shared \<Rightarrow>
   (('t, 'm, 'ev, 'err) runtime \<times> ('s, 'w) shared) outcome" where
  "forward_completions ops env rt sh =
     (if rt_completion rt = [] then Some (rt, sh)
      else do {
        let sh = env_other env sh;
        (tree, signals) \<leftarrow> deliver_completions ops (rt_completion rt) (sh_root sh) (sh_signals sh);
        Some (rt\<lparr>rt_completion := []\<rparr>, sh\<lparr>sh_root := tree, sh_signals := signals\<rparr>)
      })"

definition collect_events ::
  "('s, 't, 'm, 'ev, 'err, 'w) runtime_env \<Rightarrow> ('t, 'm, 'ev, 'err) runtime \<Rightarrow> ('s, 'w) shared \<Rightarrow>
   ('t, 'm, 'ev, 'err) runtime \<times> ('s, 'w) shared" where
  "collect_events env rt sh =
     (let sh = env_other env sh;
          (events, signals) = signals_take_events (sh_signals sh)
      in (rt\<lparr>rt_output := rt_output rt @ map OutRuntime events\<rparr>, sh\<lparr>sh_signals := signals\<rparr>))"

text \<open>\<open>sleep_hint.filter(|hint| now < hint.deadline())\<close>.\<close>

definition retain_hint :: "instant \<Rightarrow> sleep_hint option \<Rightarrow> sleep_hint option" where
  "retain_hint now hint =
     (case hint of None \<Rightarrow> None | Some h \<Rightarrow> if now < hint_deadline h then Some h else None)"

definition store_in_flight :: "stats_cells \<Rightarrow> ('t, 'm) in_flight list \<Rightarrow> stats_cells" where
  "store_in_flight st in_flight = st\<lparr>cell_in_flight := word_of_nat (length in_flight)\<rparr>"

definition dispatch_section ::
  "('s, 't, 'm) scheduler_ops \<Rightarrow> ('s, 't, 'm, 'ev, 'err, 'w) runtime_env \<Rightarrow> instant \<Rightarrow>
   ('t, 'm, 'ev, 'err) runtime \<Rightarrow> sleep_hint option \<Rightarrow> ('s, 'w) shared \<Rightarrow>
   (bool \<times> sleep_hint option \<times> ('t, 'm, 'ev, 'err) runtime \<times> ('s, 'w) shared) outcome" where
  "dispatch_section ops env now rt hint sh =
     (if length (rt_in_flight rt) < cfg_global_max_in_flight (rt_config rt) then do {
        let sh = env_other env sh;
        if sh_shutdown sh then Some (True, hint, rt, sh)
        else do {
          (tree, in_flight, hint, dispatched) \<leftarrow>
            dispatch_loop ops (cfg_global_max_in_flight (rt_config rt)) now (sh_root sh)
              (rt_in_flight rt) hint (cell_dispatched (rt_stats rt));
          Some (False, hint,
                rt\<lparr>rt_in_flight := in_flight,
                   rt_stats := (rt_stats rt)\<lparr>cell_dispatched := dispatched\<rparr>\<rparr>,
                sh\<lparr>sh_root := tree\<rparr>)
        }
      } else Some (False, hint, rt, sh))"

definition next_turn ::
  "('s, 't, 'm) scheduler_ops \<Rightarrow> ('s, 't, 'm, 'ev, 'err, 'w) runtime_env \<Rightarrow>
   ('t, 'm, 'ev, 'err) runtime \<Rightarrow> ('s, 'w) shared \<Rightarrow>
   (('ev, 'err) runtime_output turn \<times> ('t, 'm, 'ev, 'err) runtime \<times> ('s, 'w) shared) outcome" where
  "next_turn ops env rt sh = do {
     (rt, sh) \<leftarrow> forward_completions ops env rt sh;
     let (rt, sh) = collect_events env rt sh;
     case rt_output rt of
       out # rest \<Rightarrow>
         Some (Return out,
               rt\<lparr>rt_output := rest,
                  rt_stats := (rt_stats rt)\<lparr>cell_output_queued := length rest\<rparr>\<rparr>, sh)
     | [] \<Rightarrow> do {
         (now, clock, sh) \<leftarrow> clock_now env (rt_clock rt) sh;
         let rt = rt\<lparr>rt_clock := clock\<rparr>;
         let hint = retain_hint now (rt_sleep_hint rt);
         (shutdown, hint, rt, sh) \<leftarrow> dispatch_section ops env now rt hint sh;
         let hint = (if shutdown then None else hint);
         let rt = rt\<lparr>rt_stats := store_in_flight (rt_stats rt) (rt_in_flight rt)\<rparr>;
         (progress, rt, in_flight, sh) \<leftarrow>
           drain_completed env now False (rt\<lparr>rt_in_flight := []\<rparr>) (rt_in_flight rt) sh;
         let rt = rt\<lparr>rt_stats := (store_in_flight (rt_stats rt) in_flight)
                                  \<lparr>cell_output_queued := length (rt_output rt)\<rparr>,
                     rt_in_flight := in_flight, rt_sleep_hint := hint\<rparr>;
         if shutdown \<and> in_flight = [] \<and> rt_output rt = [] \<and> rt_completion rt = [] then
           Some (Return OutShutdown, rt\<lparr>rt_sleep_hint := None\<rparr>, sh)
         else
           case hint of
             Some (Observed deadline) \<Rightarrow>
               if rt_output rt = [] then
                 Some (Return (OutSleepUntil deadline),
                       rt\<lparr>rt_sleep_hint := Some (Emitted deadline)\<rparr>, sh)
               else Some (Turn progress, rt, sh)
           | _ \<Rightarrow> Some (Turn progress, rt, sh)
       }
   }"

partial_function (option) next_loop ::
  "('s, 't, 'm) scheduler_ops \<Rightarrow> ('s, 't, 'm, 'ev, 'err, 'w) runtime_env \<Rightarrow> bool \<Rightarrow>
   ('t, 'm, 'ev, 'err) runtime \<Rightarrow> ('s, 'w) shared \<Rightarrow>
   (('ev, 'err) runtime_output poll \<times> ('t, 'm, 'ev, 'err) runtime \<times> ('s, 'w) shared) outcome" where
  "next_loop ops env progress rt sh =
     (if progress then do {
        (t, rt, sh) \<leftarrow> next_turn ops env rt sh;
        case t of
          Return out \<Rightarrow> Some (Ready out, rt, sh)
        | Turn progress \<Rightarrow> next_loop ops env progress rt sh
      } else Some (Pending, rt, sh))"

definition next_poll ::
  "('s, 't, 'm) scheduler_ops \<Rightarrow> ('s, 't, 'm, 'ev, 'err, 'w) runtime_env \<Rightarrow> nat \<Rightarrow>
   ('t, 'm, 'ev, 'err) runtime \<Rightarrow> ('s, 'w) shared \<Rightarrow>
   (('ev, 'err) runtime_output poll \<times> ('t, 'm, 'ev, 'err) runtime \<times> ('s, 'w) shared) outcome" where
  "next_poll ops env waker rt sh =
     next_loop ops env True rt
       (sh\<lparr>sh_signals := signals_register_waker (sh_signals sh) waker\<rparr>)"

section \<open>What the runtime relies on\<close>

definition loaded :: "('t, 'm) in_flight list \<Rightarrow> bool" where
  "loaded xs \<longleftrightarrow> (\<forall>x \<in> set xs. inf_work x \<noteq> None)"

definition inf_path :: "('t, 'm) in_flight \<Rightarrow> routing_path" where
  "inf_path x = sw_routing (the (inf_work x))"

definition inf_paths :: "('t, 'm) in_flight list \<Rightarrow> routing_path multiset" where
  "inf_paths xs = image_mset inf_path (mset xs)"

definition cp_paths :: "'m completion list \<Rightarrow> routing_path multiset" where
  "cp_paths cs = image_mset cp_routing (mset cs)"

text \<open>The members of a futures set after some of them were polled and are still pending.\<close>

inductive members_polled ::
  "('t \<Rightarrow> ('s, 'w) shared \<Rightarrow> (('ev, 'err) work_result poll \<times> 't \<times> ('s, 'w) shared) outcome) \<Rightarrow>
   ('t, 'm) in_flight list \<Rightarrow> ('s, 'w) shared \<Rightarrow> ('t, 'm) in_flight list \<Rightarrow> ('s, 'w) shared \<Rightarrow> bool"
  for poll_payload xs sh where
  polled_none: "members_polled poll_payload xs sh xs sh"
| polled_one: "members_polled poll_payload xs sh ys sh' \<Longrightarrow> k < length ys \<Longrightarrow>
    in_flight_poll poll_payload (ys ! k) sh' = Some (Pending, y, sh'') \<Longrightarrow>
    members_polled poll_payload xs sh (ys[k := y]) sh''"

text \<open>
  What other threads may change of the shared state: a shutdown is not withdrawn, the runtime
  keeps its identity, a waker leaves its slot only by being called, and a manual clock keeps
  its epoch.
\<close>

definition signals_keep :: "runtime_signals \<Rightarrow> runtime_signals \<Rightarrow> bool" where
  "signals_keep a b \<longleftrightarrow>
     sig_identity b = sig_identity a \<and>
     (\<exists>ws. sig_woken b = sig_woken a @ ws \<and>
       (\<forall>w. sig_waker a = Some w \<longrightarrow> sig_waker b = Some w \<or> w \<in> set ws))"

definition shared_keeps :: "('s, 'w) shared \<Rightarrow> ('s, 'w) shared \<Rightarrow> bool" where
  "shared_keeps a b \<longleftrightarrow>
     (sh_shutdown a \<longrightarrow> sh_shutdown b) \<and> signals_keep (sh_signals a) (sh_signals b) \<and>
     mc_epoch (sh_clock b) = mc_epoch (sh_clock a)"

locale futures_set =
  fixes poll_next ::
      "('t, 'm) in_flight list \<Rightarrow> ('s, 'w) shared \<Rightarrow>
       (('m, 'ev, 'err) completed_work option poll \<times> ('t, 'm) in_flight list \<times> ('s, 'w) shared) outcome"
    and poll_payload ::
      "'t \<Rightarrow> ('s, 'w) shared \<Rightarrow> (('ev, 'err) work_result poll \<times> 't \<times> ('s, 'w) shared) outcome"
  assumes poll_next_panics:
      "poll_next xs sh = None \<Longrightarrow>
       \<exists>ys sh' y. members_polled poll_payload xs sh ys sh' \<and> y \<in> set ys \<and>
         in_flight_poll poll_payload y sh' = None"
    and poll_next_pending:
      "poll_next xs sh = Some (Pending, zs, sh') \<Longrightarrow>
       \<exists>ys. members_polled poll_payload xs sh ys sh' \<and> mset zs = mset ys"
    and poll_next_empty:
      "poll_next xs sh = Some (Ready None, zs, sh') \<Longrightarrow> xs = [] \<and> zs = [] \<and> sh' = sh"
    and poll_next_ready:
      "poll_next xs sh = Some (Ready (Some c), zs, sh') \<Longrightarrow>
       \<exists>ys sh1 y y'. members_polled poll_payload xs sh ys sh1 \<and> y \<in> set ys \<and>
         in_flight_poll poll_payload y sh1 = Some (Ready c, y', sh') \<and> mset ys = add_mset y (mset zs)"

locale runtime_driver =
  scheduler ops invar horizon queues +
  futures_set "env_poll_next env" poll_payload
  for ops :: "('s, 't, 'm) scheduler_ops" and invar horizon queues
    and env :: "('s, 't, 'm, 'ev, 'err, 'w) runtime_env"
    and poll_payload ::
      "'t \<Rightarrow> ('s, 'w) shared \<Rightarrow> (('ev, 'err) work_result poll \<times> 't \<times> ('s, 'w) shared) outcome" +
  assumes horizon_max: "horizon \<le> instant_max"
    and other_keeps: "shared_keeps sh (env_other env sh)"
    and other_invar: "invar (sh_root sh) paths \<Longrightarrow> invar (sh_root (env_other env sh)) paths"
    and payload_returns: "poll_payload t sh \<noteq> None"
    and payload_keeps: "poll_payload t sh = Some (p, t', sh') \<Longrightarrow> shared_keeps sh sh'"
    and payload_invar:
      "poll_payload t sh = Some (p, t', sh') \<Longrightarrow> invar (sh_root sh) paths \<Longrightarrow>
       invar (sh_root sh') paths"
    and now_world: "env_instant_now env sh = (now, sh') \<Longrightarrow> \<exists>w. sh' = sh\<lparr>sh_world := w\<rparr>"
    and now_horizon: "env_instant_now env sh = (now, sh') \<Longrightarrow> now \<le> horizon"

section \<open>Signals and the shared state\<close>

lemma signals_keep_refl [simp]: "signals_keep a a"
  by (simp add: signals_keep_def)

lemma signals_keep_trans [trans]: "signals_keep a b \<Longrightarrow> signals_keep b c \<Longrightarrow> signals_keep a c"
proof -
  assume "signals_keep a b" "signals_keep b c"
  then obtain u v where *: "sig_woken b = sig_woken a @ u" "sig_woken c = sig_woken b @ v"
      "sig_identity c = sig_identity a"
      "\<forall>w. sig_waker a = Some w \<longrightarrow> sig_waker b = Some w \<or> w \<in> set u"
      "\<forall>w. sig_waker b = Some w \<longrightarrow> sig_waker c = Some w \<or> w \<in> set v"
    by (auto simp: signals_keep_def)
  then have "sig_woken c = sig_woken a @ (u @ v) \<and>
      (\<forall>w. sig_waker a = Some w \<longrightarrow> sig_waker c = Some w \<or> w \<in> set (u @ v))" by auto
  with * show ?thesis unfolding signals_keep_def by blast
qed

lemma signals_keep_wake [simp]: "signals_keep a (signals_wake a)"
  by (auto simp: signals_keep_def signals_wake_def split: option.split)

lemma signals_keep_events [simp]:
  "signals_keep a (a\<lparr>sig_events := es\<rparr>)" "signals_keep (a\<lparr>sig_events := es\<rparr>) b = signals_keep a b"
  by (simp_all add: signals_keep_def)

lemma signals_keep_handle: "signals_keep a (signals_handle_queue_event a e)"
  by (cases e)
    (simp_all add: signals_handle_queue_event_def signals_keep_trans [OF signals_keep_events(1) signals_keep_wake])

lemma signals_keep_deliver [simp]: "signals_keep a (signals_deliver a evs)"
proof (induction a evs rule: signals_deliver.induct)
  case (2 a sink event rest)
  then show ?case
    using signals_keep_trans [OF signals_keep_handle [of a event]] by auto
qed simp

lemma shared_keeps_refl [simp]: "shared_keeps a a"
  by (simp add: shared_keeps_def)

lemma shared_keeps_trans [trans]: "shared_keeps a b \<Longrightarrow> shared_keeps b c \<Longrightarrow> shared_keeps a c"
  by (auto simp: shared_keeps_def intro: signals_keep_trans)

lemma shared_keeps_root [simp]:
  "shared_keeps a (b\<lparr>sh_root := t\<rparr>) = shared_keeps a b"
  "shared_keeps a (b\<lparr>sh_world := w\<rparr>) = shared_keeps a b"
  by (simp_all add: shared_keeps_def)

lemma shared_keeps_signals:
  "signals_keep (sh_signals a) s \<Longrightarrow> shared_keeps a (a\<lparr>sh_signals := s\<rparr>)"
  by (simp add: shared_keeps_def)

lemma graceful_shutdown_keeps: "shared_keeps sh (graceful_shutdown sh)"
  by (simp add: graceful_shutdown_def shared_keeps_def)

section \<open>Paths in flight\<close>

lemma inf_paths_simps [simp]:
  "inf_paths [] = {#}" "inf_paths (x # xs) = add_mset (inf_path x) (inf_paths xs)"
  "inf_paths (xs @ ys) = inf_paths xs + inf_paths ys" "size (inf_paths xs) = length xs"
  by (simp_all add: inf_paths_def)

lemma cp_paths_simps [simp]:
  "cp_paths [] = {#}" "cp_paths (c # cs) = add_mset (cp_routing c) (cp_paths cs)"
  "cp_paths (cs @ ds) = cp_paths cs + cp_paths ds" "size (cp_paths cs) = length cs"
  by (simp_all add: cp_paths_def)

lemma loaded_simps [simp]:
  "loaded []" "loaded (x # xs) \<longleftrightarrow> inf_work x \<noteq> None \<and> loaded xs"
  "loaded (xs @ ys) \<longleftrightarrow> loaded xs \<and> loaded ys"
  by (auto simp: loaded_def)

lemma in_flight_poll_SomeD:
  assumes "in_flight_poll poll_payload x sh = Some (r, y, sh')"
  obtains w p t' where "inf_work x = Some w" "poll_payload (sw_payload w) sh = Some (p, t', sh')"
    "r = (case p of
       Pending \<Rightarrow> Pending
     | Ready result \<Rightarrow> Ready \<lparr>cw_start = inf_start x, cw_meta = sw_meta w, cw_result = result,
                               cw_routing = sw_routing w\<rparr>)"
    "y = (case p of Pending \<Rightarrow> x\<lparr>inf_work := Some (w\<lparr>sw_payload := t'\<rparr>)\<rparr> | _ \<Rightarrow> x\<lparr>inf_work := None\<rparr>)"
proof -
  from assms obtain w where w: "inf_work x = Some w"
    by (cases "inf_work x") (simp_all add: in_flight_poll_def)
  with assms obtain p t' sh1 where p: "poll_payload (sw_payload w) sh = Some (p, t', sh1)"
    by (cases "poll_payload (sw_payload w) sh") (auto simp: in_flight_poll_def)
  from assms w p show thesis
    by (cases p) (auto simp: in_flight_poll_def intro: that)
qed

lemma in_flight_poll_pending:
  assumes "in_flight_poll poll_payload x sh = Some (Pending, y, sh')"
  obtains t t' where "poll_payload t sh = Some (Pending, t', sh')" "inf_work x \<noteq> None"
    "inf_work y \<noteq> None" "inf_path y = inf_path x" "inf_start y = inf_start x"
proof -
  from assms obtain w p t' where "inf_work x = Some w"
      "poll_payload (sw_payload w) sh = Some (p, t', sh')" "p = Pending"
      "y = x\<lparr>inf_work := Some (w\<lparr>sw_payload := t'\<rparr>)\<rparr>"
    by (rule in_flight_poll_SomeD) (simp split: poll.splits)
  then show thesis by (intro that [of "sw_payload w" t']) (simp_all add: inf_path_def)
qed

lemma in_flight_poll_ready:
  assumes "in_flight_poll poll_payload x sh = Some (Ready c, y, sh')"
  obtains t t' where "poll_payload t sh = Some (Ready (cw_result c), t', sh')"
    "inf_path x = cw_routing c" "cw_start c = inf_start x"
proof -
  from assms obtain w p t' r where "inf_work x = Some w"
      "poll_payload (sw_payload w) sh = Some (p, t', sh')" "p = Ready r"
      "c = \<lparr>cw_start = inf_start x, cw_meta = sw_meta w, cw_result = r, cw_routing = sw_routing w\<rparr>"
    by (rule in_flight_poll_SomeD) (simp split: poll.splits)
  then show thesis by (intro that [of "sw_payload w" t']) (simp_all add: inf_path_def)
qed

lemma in_flight_poll_panics:
  assumes "in_flight_poll poll_payload x sh = None" and "inf_work x \<noteq> None"
  obtains t where "poll_payload t sh = None"
proof -
  from assms(2) obtain w where w: "inf_work x = Some w" by auto
  have "poll_payload (sw_payload w) sh = None"
  proof (rule ccontr)
    assume "poll_payload (sw_payload w) sh \<noteq> None"
    then obtain p t' sh' where "poll_payload (sw_payload w) sh = Some (p, t', sh')" by auto
    with assms(1) w show False by (cases p) (simp_all add: in_flight_poll_def)
  qed
  then show thesis by (rule that)
qed

lemma inf_paths_map: "inf_paths xs = mset (map inf_path xs)"
  by (simp add: inf_paths_def)

lemma inf_paths_update:
  assumes "k < length xs" and "inf_path y = inf_path (xs ! k)"
  shows "inf_paths (xs[k := y]) = inf_paths xs"
proof -
  have "map inf_path (xs[k := y]) = (map inf_path xs)[k := map inf_path xs ! k]"
    using assms by (simp add: map_update)
  then show ?thesis by (simp only: inf_paths_map list_update_id)
qed

text \<open>The steps of the environment, which keep the shared state and the root's invariant.\<close>

definition undisturbed ::
  "('s \<Rightarrow> routing_path multiset \<Rightarrow> bool) \<Rightarrow> ('s, 'w) shared \<Rightarrow> ('s, 'w) shared \<Rightarrow> bool" where
  "undisturbed invar a b \<longleftrightarrow>
     shared_keeps a b \<and> (\<forall>paths. invar (sh_root a) paths \<longrightarrow> invar (sh_root b) paths)"

lemma undisturbed_refl [simp]: "undisturbed invar a a"
  by (simp add: undisturbed_def)

lemma undisturbed_trans [trans]:
  "undisturbed invar a b \<Longrightarrow> undisturbed invar b c \<Longrightarrow> undisturbed invar a c"
  by (auto simp: undisturbed_def intro: shared_keeps_trans)

lemma undisturbed_world [simp]: "undisturbed invar a (b\<lparr>sh_world := w\<rparr>) = undisturbed invar a b"
  by (simp add: undisturbed_def)

definition queueable :: "('ev, 'err) runtime_output \<Rightarrow> bool" where
  "queueable out \<longleftrightarrow> (case out of OutWork _ _ \<Rightarrow> True | OutRuntime _ \<Rightarrow> True | _ \<Rightarrow> False)"

text \<open>What the driver owns and shares, between two polls.\<close>

definition rt_invar ::
  "('s \<Rightarrow> routing_path multiset \<Rightarrow> bool) \<Rightarrow> instant \<Rightarrow> ('t, 'm, 'ev, 'err) runtime \<Rightarrow>
   ('s, 'w) shared \<Rightarrow> bool" where
  "rt_invar invar horizon rt sh \<longleftrightarrow>
     length (rt_in_flight rt) \<le> cfg_global_max_in_flight (rt_config rt) \<and>
     0 < cfg_global_max_in_flight (rt_config rt) \<and> cfg_global_max_in_flight (rt_config rt) \<le> u32_max \<and>
     (\<forall>out \<in> set (rt_output rt). queueable out) \<and>
     loaded (rt_in_flight rt) \<and>
     (\<forall>c \<in> set (rt_completion rt). cp_completed_at c \<le> horizon) \<and>
     invar (sh_root sh) (inf_paths (rt_in_flight rt) + cp_paths (rt_completion rt))"

text \<open>The clock can be read once more without leaving the horizon.\<close>

definition clock_in_range ::
  "instant \<Rightarrow> ('t, 'm, 'ev, 'err) runtime \<Rightarrow> ('s, 'w) shared \<Rightarrow> bool" where
  "clock_in_range horizon rt sh \<longleftrightarrow>
     (case rt_clock rt of
        Wallclock \<Rightarrow> True
      | Virtual now increment \<Rightarrow> now + increment \<le> horizon
      | Manual \<Rightarrow> mc_epoch (sh_clock sh) + u64_max \<le> horizon)"

text \<open>The clock can be observed without leaving the horizon.\<close>

definition clock_within :: "instant \<Rightarrow> runtime_clock \<Rightarrow> ('s, 'w) shared \<Rightarrow> bool" where
  "clock_within horizon clock sh \<longleftrightarrow>
     (case clock of
        Wallclock \<Rightarrow> True
      | Virtual now increment \<Rightarrow> now \<le> horizon
      | Manual \<Rightarrow> mc_epoch (sh_clock sh) + u64_max \<le> horizon)"

lemma clock_within_cong:
  "undisturbed invar sh sh' \<Longrightarrow> clock_within horizon clock sh \<Longrightarrow> clock_within horizon clock sh'"
  by (simp add: undisturbed_def clock_within_def shared_keeps_def split: runtime_clock.splits)

lemma clock_in_range_cong:
  "shared_keeps sh sh' \<Longrightarrow> rt_clock rt' = rt_clock rt \<Longrightarrow> clock_in_range h rt sh \<Longrightarrow>
   clock_in_range h rt' sh'"
  by (auto simp: clock_in_range_def shared_keeps_def split: runtime_clock.splits)

section \<open>The phases of a poll\<close>

context runtime_driver
begin

lemma members_polled_ok:
  assumes "members_polled poll_payload xs sh ys sh'" and "loaded xs"
  shows "length ys = length xs \<and> inf_paths ys = inf_paths xs \<and> loaded ys \<and> undisturbed invar sh sh'"
  using assms
proof (induction rule: members_polled.induct)
  case (polled_one ys sh' k y sh'')
  from polled_one.hyps(3) obtain t t' where t: "poll_payload t sh' = Some (Pending, t', sh'')"
    "inf_work y \<noteq> None" "inf_path y = inf_path (ys ! k)"
    by (rule in_flight_poll_pending)
  have "undisturbed invar sh' sh''"
    using payload_keeps [OF t(1)] payload_invar [OF t(1)] by (simp add: undisturbed_def)
  moreover have "loaded (ys[k := y])"
    using polled_one t(2) set_update_subset_insert [of ys k y] by (auto simp: loaded_def)
  ultimately show ?case
    using polled_one t(3) undisturbed_trans by (fastforce simp: inf_paths_update)
qed simp

lemma poll_next_obtain:
  assumes "loaded xs"
  obtains (idle) p zs sh' where "env_poll_next env xs sh = Some (p, zs, sh')"
      "p = Pending \<or> p = Ready None" "length zs = length xs" "inf_paths zs = inf_paths xs"
      "loaded zs" "undisturbed invar sh sh'"
  | (finished) c zs sh' where "env_poll_next env xs sh = Some (Ready (Some c), zs, sh')"
      "length xs = Suc (length zs)" "inf_paths xs = add_mset (cw_routing c) (inf_paths zs)"
      "loaded zs" "undisturbed invar sh sh'"
proof (cases "env_poll_next env xs sh")
  case None
  then obtain ys sh' y where y: "members_polled poll_payload xs sh ys sh'" "y \<in> set ys"
    "in_flight_poll poll_payload y sh' = None" using poll_next_panics by blast
  with members_polled_ok [OF y(1) assms] have "inf_work y \<noteq> None" by (auto simp: loaded_def)
  with y(3) obtain t where "poll_payload t sh' = None" by (rule in_flight_poll_panics)
  with payload_returns show thesis by blast
next
  case (Some a)
  then obtain p zs sh' where a: "env_poll_next env xs sh = Some (p, zs, sh')" by (cases a) auto
  consider "p = Pending" | "p = Ready None" | c where "p = Ready (Some c)"
    by (cases p) auto
  then show thesis
  proof cases
    case 1
    with a obtain ys where ys: "members_polled poll_payload xs sh ys sh'" "mset zs = mset ys"
      using poll_next_pending by blast
    with members_polled_ok [OF ys(1) assms] 1 a show thesis
      by (intro idle [of p zs sh'])
        (auto simp: inf_paths_def loaded_def dest: mset_eq_setD mset_eq_length)
  next
    case 2
    with a have "xs = [] \<and> zs = [] \<and> sh' = sh" using poll_next_empty by blast
    with 2 a show thesis by (intro idle [of p zs sh']) auto
  next
    case 3
    with a obtain ys sh1 y y' where y: "members_polled poll_payload xs sh ys sh1" "y \<in> set ys"
        "in_flight_poll poll_payload y sh1 = Some (Ready c, y', sh')" "mset ys = add_mset y (mset zs)"
      using poll_next_ready by blast
    from y(3) obtain t t' where t: "poll_payload t sh1 = Some (Ready (cw_result c), t', sh')"
        "inf_path y = cw_routing c"
      by (rule in_flight_poll_ready)
    have "undisturbed invar sh1 sh'"
      using payload_keeps [OF t(1)] payload_invar [OF t(1)] by (simp add: undisturbed_def)
    with members_polled_ok [OF y(1) assms] have kept: "undisturbed invar sh sh'" "loaded ys"
        "length ys = length xs" "inf_paths ys = inf_paths xs"
      using undisturbed_trans by blast+
    have "loaded zs" using kept(2) arg_cong [OF y(4), of set_mset] by (auto simp: loaded_def)
    moreover have "length xs = Suc (length zs)" using kept(3) arg_cong [OF y(4), of size] by simp
    moreover have "inf_paths xs = add_mset (cw_routing c) (inf_paths zs)"
      using kept(4) y(4) t(2) by (simp add: inf_paths_def)
    ultimately show thesis using a 3 kept(1) by (intro finished [of c zs sh']) auto
  qed
qed

lemma deliver_completions_ok:
  assumes "invar tree (paths + cp_paths cs)" and "\<forall>c \<in> set cs. cp_completed_at c \<le> horizon"
  obtains tree' signals' where "deliver_completions ops cs tree signals = Some (tree', signals')"
    "invar tree' paths" "signals_keep signals signals'"
  using assms
proof (induction cs arbitrary: tree signals thesis)
  case (Cons c cs)
  have "cp_routing c \<in># paths + cp_paths (c # cs)" "cp_completed_at c \<le> horizon"
    using Cons.prems(3) by auto
  with Cons.prems(2) obtain tree1 evs where 1: "sched_on_complete ops tree c = Some (tree1, evs)"
      "invar tree1 (paths + cp_paths (c # cs) - {#cp_routing c#})"
    by (rule on_complete_obtain)
  have "invar tree1 (paths + cp_paths cs)" using 1(2) by simp
  moreover have "\<forall>c \<in> set cs. cp_completed_at c \<le> horizon" using Cons.prems(3) by simp
  ultimately obtain tree' signals'
    where 2: "deliver_completions ops cs tree1 (signals_deliver signals evs) = Some (tree', signals')"
      "invar tree' paths" "signals_keep (signals_deliver signals evs) signals'"
    using Cons.IH by blast
  have "signals_keep signals signals'" using signals_keep_trans [OF signals_keep_deliver 2(3)] .
  with 1(1) 2 show ?case by (intro Cons.prems(1)) auto
qed simp

end

definition is_work :: "('ev, 'err) runtime_output \<Rightarrow> bool" where
  "is_work out \<longleftrightarrow> (case out of OutWork _ _ \<Rightarrow> True | _ \<Rightarrow> False)"

lemma is_work_simps [simp]:
  "is_work (OutWork r l)" "\<not> is_work (OutRuntime e)" "\<not> is_work (OutSleepUntil t)" "\<not> is_work OutShutdown"
  by (simp_all add: is_work_def)

text \<open>How a dispatch loop may change the deadline it started from: forget it, keep it or advance it.\<close>

definition hint_step :: "sleep_hint option \<Rightarrow> sleep_hint option \<Rightarrow> bool" where
  "hint_step a b \<longleftrightarrow>
     b = None \<or> b = a \<or>
     (\<exists>v. b = Some (Observed v) \<and> (\<forall>h. a = Some h \<longrightarrow> v < hint_deadline h))"

lemma hint_step_refl [simp]: "hint_step a a" "hint_step a None"
  by (simp_all add: hint_step_def)

context runtime_driver
begin

lemma shared_next_ok:
  assumes inv: "invar tree paths" and sz: "size paths < u32_max"
  obtains (work) w tree' where "shared_next ops tree now = Some (NextWork w, tree')"
      "invar tree' (add_mset (sw_routing w) paths)"
  | (sleep) t tree' where "shared_next ops tree now = Some (NextSleepUntil t, tree')"
      "invar tree' paths"
  | (nothing) tree' where "shared_next ops tree now = Some (NextNothing, tree')" "invar tree' paths"
proof -
  obtain r tree1 where u: "sched_update_ready ops tree now = (r, tree1)" by fastforce
  have inv1: "invar tree1 paths" using update_ready_ok [OF inv u] .
  show thesis
  proof (cases "rd_ready r")
    case True
    with inv sz u obtain w tree2 where "sched_take_next ops tree1 = Some (Some w, tree2)"
        "invar tree2 (add_mset (sw_routing w) paths)" by (rule ready_takes)
    with True u show thesis by (intro work [of w tree2]) (simp_all add: shared_next_def)
  next
    case False
    show thesis
    proof (cases "rd_next_update_at r")
      case None
      with False u have "shared_next ops tree now = Some (NextNothing, tree1)"
        by (simp add: shared_next_def)
      then show thesis using inv1 by (rule nothing)
    next
      case (Some t)
      with False u have "shared_next ops tree now = Some (NextSleepUntil t, tree1)"
        by (simp add: shared_next_def)
      then show thesis using inv1 by (rule sleep)
    qed
  qed
qed

lemma dispatch_loop_ok:
  assumes "invar tree (inf_paths fl)" and "loaded fl" and "length fl \<le> cap" and "cap \<le> u32_max"
  shows "\<exists>tree' new hint'.
    dispatch_loop ops cap now tree fl hint n = Some (tree', fl @ new, hint', n + word_of_nat (length new)) \<and>
    invar tree' (inf_paths (fl @ new)) \<and> loaded new \<and> length (fl @ new) \<le> cap \<and> hint_step hint hint'"
  using assms
proof (induction "cap - length fl" arbitrary: tree fl n rule: less_induct)
  case less
  show ?case
  proof (cases "length fl < cap")
    case False
    with less.prems show ?thesis
      by (intro exI [of _ tree] exI [of _ "[]"] exI [of _ hint]) (simp add: dispatch_loop.simps)
  next
    case True
    with less.prems(4) have sz: "size (inf_paths fl) < u32_max" by simp
    from less.prems(1) sz show ?thesis
    proof (cases rule: shared_next_ok [where now = now])
      case (work w tree1)
      let ?x = "\<lparr>inf_start = now, inf_work = Some w\<rparr>"
      have "cap - length (fl @ [?x]) < cap - length fl" using True by simp
      moreover have "invar tree1 (inf_paths (fl @ [?x]))" using work(2) by (simp add: inf_path_def)
      ultimately obtain tree' new hint' where ih:
          "dispatch_loop ops cap now tree1 (fl @ [?x]) hint (n + 1) =
             Some (tree', (fl @ [?x]) @ new, hint', n + 1 + word_of_nat (length new))"
          "invar tree' (inf_paths ((fl @ [?x]) @ new))" "loaded new" "length ((fl @ [?x]) @ new) \<le> cap"
          "hint_step hint hint'"
        using less.hyps [of "fl @ [?x]" tree1 "n + 1"] less.prems True by auto
      have step: "dispatch_loop ops cap now tree fl hint n =
          dispatch_loop ops cap now tree1 (fl @ [?x]) hint (n + 1)"
        using True work(1) by (subst dispatch_loop.simps) simp
      show ?thesis
        using ih by (intro exI [of _ tree'] exI [of _ "?x # new"] exI [of _ hint'])
          (simp add: step add.assoc add.commute)
    next
      case (sleep t tree1)
      let ?h = "if (case hint of None \<Rightarrow> True | Some h \<Rightarrow> t < hint_deadline h)
        then Some (Observed t) else hint"
      have "hint_step hint ?h" by (auto simp: hint_step_def split: option.splits)
      with sleep True less.prems show ?thesis
        by (intro exI [of _ tree1] exI [of _ "[]"] exI [of _ ?h])
          (subst dispatch_loop.simps, simp)
    next
      case (nothing tree1)
      with True less.prems show ?thesis
        by (intro exI [of _ tree1] exI [of _ "[]"] exI)
          (subst dispatch_loop.simps, auto)
    qed
  qed
qed

lemma clock_observe_ok:
  assumes "clock_within horizon clock sh"
  obtains t sh' where "clock_observe env clock sh = Some (t, sh')" "t \<le> horizon"
    "undisturbed invar sh sh'"
proof (cases clock)
  case Wallclock
  obtain t sh' where t: "env_instant_now env sh = (t, sh')" by fastforce
  with now_world [OF t] now_horizon [OF t] Wallclock show thesis
    by (intro that [of t sh']) (auto simp: clock_observe_def clock_within_def)
next
  case (Virtual t i)
  with assms show thesis by (intro that [of t sh]) (auto simp: clock_observe_def clock_within_def)
next
  case Manual
  with assms u64_le_max [of "mc_offset_nanos (sh_clock sh)"] horizon_max show thesis
    by (intro that [of "mc_epoch (sh_clock sh) + unat (mc_offset_nanos (sh_clock sh))" sh])
      (auto simp: clock_observe_def clock_within_def mc_now_def checked_add_instant_def)
qed

lemma clock_now_ok:
  assumes "clock_in_range horizon rt sh"
  obtains now clock sh' where "clock_now env (rt_clock rt) sh = Some (now, clock, sh')"
    "now \<le> horizon" "undisturbed invar sh sh'"
    "clock_within horizon clock sh'"
proof (cases "rt_clock rt")
  case Wallclock
  obtain t sh' where t: "env_instant_now env sh = (t, sh')" by fastforce
  with now_world [OF t] now_horizon [OF t] Wallclock show thesis
    by (intro that [of t Wallclock sh']) (auto simp: clock_now_def clock_within_def)
next
  case (Virtual t i)
  with assms horizon_max show thesis
    by (intro that [of "t + i" "Virtual (t + i) i" sh])
      (auto simp: clock_now_def clock_within_def clock_in_range_def checked_add_instant_def)
next
  case Manual
  with assms u64_le_max [of "mc_offset_nanos (sh_clock sh)"] horizon_max show thesis
    by (intro that [of "mc_epoch (sh_clock sh) + unat (mc_offset_nanos (sh_clock sh))" Manual sh])
      (auto simp: clock_now_def clock_within_def clock_in_range_def mc_now_def checked_add_instant_def)
qed

lemma drain_completed_ok:
  assumes "loaded fl"
    and "clock_within horizon (rt_clock rt) sh"
  shows "\<exists>cs outs fl' sh'.
    drain_completed env now progress rt fl sh =
      Some (progress \<or> cs \<noteq> [],
        rt\<lparr>rt_completion := rt_completion rt @ cs, rt_output := rt_output rt @ outs\<rparr>, fl', sh') \<and>
    length outs = length cs \<and> (\<forall>out \<in> set outs. is_work out) \<and>
    (\<forall>c \<in> set cs. cp_completed_at c \<le> horizon) \<and>
    inf_paths fl = inf_paths fl' + cp_paths cs \<and> loaded fl' \<and> undisturbed invar sh sh'"
  using assms
proof (induction "length fl" arbitrary: progress rt fl sh rule: less_induct)
  case less
  from less.prems(1) show ?case
  proof (cases rule: poll_next_obtain [where sh = sh])
    case (idle p zs sh')
    have "drain_completed env now progress rt fl sh = Some (progress, rt, zs, sh')"
      using idle(1,2) by (subst drain_completed.simps) auto
    with idle show ?thesis
      by (intro exI [of _ "[]"] exI [of _ zs] exI [of _ sh']) auto
  next
    case (finished c zs sh1)
    have "clock_within horizon (rt_clock rt) sh1"
      using clock_within_cong [OF finished(5) less.prems(2)] .
    then obtain t sh2
      where t: "clock_observe env (rt_clock rt) sh1 = Some (t, sh2)" "t \<le> horizon"
        "undisturbed invar sh1 sh2"
      by (rule clock_observe_ok)
    let ?c = "completion_of t now c"
    let ?o = "OutWork (cw_result c) (cp_latency ?c)"
    let ?rt = "rt\<lparr>rt_completion := rt_completion rt @ [?c], rt_output := rt_output rt @ [?o]\<rparr>"
    have kept: "undisturbed invar sh sh2" using undisturbed_trans [OF finished(5) t(3)] .
    have step: "drain_completed env now progress rt fl sh = drain_completed env now True ?rt zs sh2"
      using finished(1) t(1) by (subst drain_completed.simps) (simp add: Let_def)
    have cl: "clock_within horizon (rt_clock ?rt) sh2"
      using clock_within_cong [OF kept less.prems(2)] by simp
    have "length zs < length fl" using finished(2) by simp
    from less.hyps [OF this finished(4) cl, of True] obtain cs outs fl' sh' where ih:
        "drain_completed env now True ?rt zs sh2 =
          Some (True \<or> cs \<noteq> [],
            ?rt\<lparr>rt_completion := rt_completion ?rt @ cs, rt_output := rt_output ?rt @ outs\<rparr>, fl', sh')"
        "length outs = length cs" "\<forall>out \<in> set outs. is_work out"
        "\<forall>c \<in> set cs. cp_completed_at c \<le> horizon"
        "inf_paths zs = inf_paths fl' + cp_paths cs" "loaded fl'" "undisturbed invar sh2 sh'"
      by (elim exE conjE) (rule that)
    have "undisturbed invar sh sh'" using undisturbed_trans [OF kept ih(7)] .
    with ih finished(3) t(2) show ?thesis
      by (intro exI [of _ "?c # cs"] exI [of _ "?o # outs"] exI [of _ fl'] exI [of _ sh'])
        (simp add: step completion_of_def)
  qed
qed

end

section \<open>One turn\<close>

definition works :: "('ev, 'err) runtime_output list \<Rightarrow> nat" where
  "works outs = length (filter is_work outs)"

text \<open>
  The books of the runtime: \<open>n\<close> items were dispatched, none of them after a shutdown, and every
  item is in flight, has its output queued, or is one of the \<open>e\<close> outputs handed to the driver.
\<close>

definition accounted ::
  "bool \<Rightarrow> ('t, 'm, 'ev, 'err) runtime \<Rightarrow> nat \<Rightarrow> ('t, 'm, 'ev, 'err) runtime \<Rightarrow> bool" where
  "accounted down rt e rt' \<longleftrightarrow>
     (\<exists>n. cell_dispatched (rt_stats rt') = cell_dispatched (rt_stats rt) + word_of_nat n \<and>
       works (rt_output rt') + length (rt_in_flight rt') + e =
         works (rt_output rt) + length (rt_in_flight rt) + n \<and>
       (down \<longrightarrow> n = 0))"

lemma accounted_trans:
  assumes "accounted a rt e rt1" and "accounted b rt1 e' rt2" and "a \<longrightarrow> b"
  shows "accounted a rt (e + e') rt2"
proof -
  from assms obtain n n' where
    "cell_dispatched (rt_stats rt1) = cell_dispatched (rt_stats rt) + word_of_nat n"
    "works (rt_output rt1) + length (rt_in_flight rt1) + e =
       works (rt_output rt) + length (rt_in_flight rt) + n"
    "cell_dispatched (rt_stats rt2) = cell_dispatched (rt_stats rt1) + word_of_nat n'"
    "works (rt_output rt2) + length (rt_in_flight rt2) + e' =
       works (rt_output rt1) + length (rt_in_flight rt1) + n'"
    "a \<longrightarrow> n = 0" "b \<longrightarrow> n' = 0"
    by (auto simp: accounted_def)
  with assms(3) show ?thesis unfolding accounted_def by (intro exI [of _ "n + n'"]) auto
qed

text \<open>
  What one turn does: the oldest queued output leaves first, work outputs are counted, a
  shutdown is reported only when everything has drained, and a turn without progress leaves
  nothing the driver has not been told.
\<close>

definition turn_spec ::
  "('t, 'm, 'ev, 'err) runtime \<Rightarrow> ('s, 'w) shared \<Rightarrow> ('ev, 'err) runtime_output turn \<Rightarrow>
   ('t, 'm, 'ev, 'err) runtime \<Rightarrow> ('s, 'w) shared \<Rightarrow> bool" where
  "turn_spec rt sh t rt' sh' \<longleftrightarrow>
     rt_config rt' = rt_config rt \<and> length (rt_completion rt') \<le> works (rt_output rt') \<and>
     (case t of
        Return out \<Rightarrow>
          accounted (sh_shutdown sh) rt (of_bool (is_work out)) rt' \<and>
          (rt_output rt \<noteq> [] \<longrightarrow>
             (\<exists>es. out # rt_output rt' = rt_output rt @ map OutRuntime es)) \<and>
          (out = OutShutdown \<longrightarrow>
             sh_shutdown sh' \<and> rt_in_flight rt' = [] \<and> rt_output rt' = [] \<and> rt_completion rt' = []) \<and>
          (\<forall>d. out = OutSleepUntil d \<longrightarrow>
             rt_sleep_hint rt' = Some (Emitted d) \<and> rt_output rt' = [] \<and>
             (sh_shutdown sh \<longrightarrow> rt_in_flight rt \<noteq> []) \<and>
             (\<forall>t i b. rt_clock rt = Virtual t i \<and> rt_sleep_hint rt = Some (Emitted b) \<longrightarrow>
                d < b \<or> b \<le> t + i))
      | Turn progress \<Rightarrow>
          accounted (sh_shutdown sh) rt 0 rt' \<and> (progress \<longleftrightarrow> rt_output rt' \<noteq> []) \<and> rt_output rt = [] \<and>
          (\<not> progress \<longrightarrow> rt_completion rt' = [] \<and>
             (\<forall>d. rt_sleep_hint rt' \<noteq> Some (Observed d)) \<and>
             (sh_shutdown sh \<longrightarrow> rt_in_flight rt' \<noteq> [])))"

lemma works_simps [simp]:
  "works [] = 0" "works (x # xs) = of_bool (is_work x) + works xs" "works (xs @ ys) = works xs + works ys"
  "works (map OutRuntime es) = 0"
  by (simp_all add: works_def comp_def)

lemma works_all: "\<forall>out \<in> set outs. is_work out \<Longrightarrow> works outs = length outs"
  by (simp add: works_def filter_True)

lemma queueable_simps [simp]:
  "queueable (OutWork r l)" "queueable (OutRuntime e)" "\<not> queueable (OutSleepUntil t)"
  "\<not> queueable OutShutdown"
  by (simp_all add: queueable_def)

lemma is_work_queueable: "is_work out \<Longrightarrow> queueable out"
  by (cases out) simp_all

context runtime_driver
begin

lemma other_undisturbed [simp]: "undisturbed invar sh (env_other env sh)"
  using other_keeps other_invar by (simp add: undisturbed_def)

lemma forward_completions_ok:
  assumes "rt_invar invar horizon rt sh"
  obtains sh' where "forward_completions ops env rt sh = Some (rt\<lparr>rt_completion := []\<rparr>, sh')"
    "shared_keeps sh sh'" "invar (sh_root sh') (inf_paths (rt_in_flight rt))"
proof (cases "rt_completion rt = []")
  case True
  then have "rt\<lparr>rt_completion := []\<rparr> = rt" by (cases rt) simp
  with True assms show thesis
    by (intro that [of sh]) (simp_all add: forward_completions_def rt_invar_def)
next
  case False
  let ?sh = "env_other env sh"
  have "invar (sh_root ?sh) (inf_paths (rt_in_flight rt) + cp_paths (rt_completion rt))"
    using assms other_invar by (simp add: rt_invar_def)
  moreover have "\<forall>c \<in> set (rt_completion rt). cp_completed_at c \<le> horizon"
    using assms by (simp add: rt_invar_def)
  ultimately obtain tree signals
    where d: "deliver_completions ops (rt_completion rt) (sh_root ?sh) (sh_signals ?sh) = Some (tree, signals)"
      "invar tree (inf_paths (rt_in_flight rt))" "signals_keep (sh_signals ?sh) signals"
    by (rule deliver_completions_ok)
  have "shared_keeps sh (?sh\<lparr>sh_root := tree, sh_signals := signals\<rparr>)"
    using shared_keeps_trans [OF other_keeps shared_keeps_signals [OF d(3)]]
    by (simp add: shared_keeps_def)
  with False d show thesis
    by (intro that [of "?sh\<lparr>sh_root := tree, sh_signals := signals\<rparr>"])
      (simp_all add: forward_completions_def)
qed

lemma collect_events_ok:
  obtains es sh' where "collect_events env rt sh = (rt\<lparr>rt_output := rt_output rt @ map OutRuntime es\<rparr>, sh')"
    "undisturbed invar sh sh'" "sh_shutdown sh' = sh_shutdown (env_other env sh)"
proof -
  let ?sh = "env_other env sh"
  let ?sig = "(sh_signals ?sh)\<lparr>sig_events := []\<rparr>"
  have "undisturbed invar ?sh (?sh\<lparr>sh_signals := ?sig\<rparr>)"
    by (simp add: undisturbed_def shared_keeps_def)
  then have "undisturbed invar sh (?sh\<lparr>sh_signals := ?sig\<rparr>)"
    by (rule undisturbed_trans [OF other_undisturbed])
  then show thesis
    by (intro that [of "sig_events (sh_signals ?sh)" "?sh\<lparr>sh_signals := ?sig\<rparr>"])
      (simp_all add: collect_events_def signals_take_events_def Let_def)
qed

lemma dispatch_section_ok:
  assumes "length (rt_in_flight rt) \<le> cfg_global_max_in_flight (rt_config rt)"
    and "cfg_global_max_in_flight (rt_config rt) \<le> u32_max"
    and "loaded (rt_in_flight rt)" and "invar (sh_root sh) (inf_paths (rt_in_flight rt))"
  obtains shutdown hint' new sh' where
    "dispatch_section ops env now rt hint sh = Some (shutdown, hint',
       rt\<lparr>rt_in_flight := rt_in_flight rt @ new,
          rt_stats := (rt_stats rt)\<lparr>cell_dispatched :=
            cell_dispatched (rt_stats rt) + word_of_nat (length new)\<rparr>\<rparr>, sh')"
    "invar (sh_root sh') (inf_paths (rt_in_flight rt @ new))" "loaded new"
    "length (rt_in_flight rt @ new) \<le> cfg_global_max_in_flight (rt_config rt)"
    "shared_keeps sh sh'" "shutdown \<longrightarrow> sh_shutdown sh'"
    "sh_shutdown sh \<longrightarrow> new = [] \<and>
       (shutdown \<or> length (rt_in_flight rt) = cfg_global_max_in_flight (rt_config rt))"
    "hint_step hint hint'"
proof -
  have same: "rt\<lparr>rt_in_flight := rt_in_flight rt @ [],
      rt_stats := (rt_stats rt)\<lparr>cell_dispatched :=
        cell_dispatched (rt_stats rt) + word_of_nat (length [])\<rparr>\<rparr> = rt"
    by (cases rt) simp
  consider (full) "length (rt_in_flight rt) = cfg_global_max_in_flight (rt_config rt)"
    | (down) "length (rt_in_flight rt) < cfg_global_max_in_flight (rt_config rt)"
        "sh_shutdown (env_other env sh)"
    | (run) "length (rt_in_flight rt) < cfg_global_max_in_flight (rt_config rt)"
        "\<not> sh_shutdown (env_other env sh)"
    using assms(1) by linarith
  then show thesis
  proof cases
    case full
    with assms same show thesis
      by (intro that [where shutdown = False and hint' = hint and new = "[]" and sh' = sh])
        (simp_all only: dispatch_section_def, simp_all)
  next
    case down
    with assms same other_invar other_keeps show thesis
      by (intro that [where shutdown = True and hint' = hint and new = "[]" and sh' = "env_other env sh"])
        (simp_all only: dispatch_section_def, simp_all)
  next
    case run
    have "invar (sh_root (env_other env sh)) (inf_paths (rt_in_flight rt))"
      using assms(4) by (rule other_invar)
    from dispatch_loop_ok [OF this assms(3,1,2), of now hint "cell_dispatched (rt_stats rt)"]
    obtain tree new hint' where d:
        "dispatch_loop ops (cfg_global_max_in_flight (rt_config rt)) now (sh_root (env_other env sh))
           (rt_in_flight rt) hint (cell_dispatched (rt_stats rt)) =
         Some (tree, rt_in_flight rt @ new, hint', cell_dispatched (rt_stats rt) + word_of_nat (length new))"
        "invar tree (inf_paths (rt_in_flight rt @ new))" "loaded new"
        "length (rt_in_flight rt @ new) \<le> cfg_global_max_in_flight (rt_config rt)"
        "hint_step hint hint'"
      by (elim exE conjE) (rule that)
    have "\<not> sh_shutdown sh" using run(2) other_keeps [of sh] by (auto simp: shared_keeps_def)
    with run d other_keeps show thesis
      by (intro that [where shutdown = False and hint' = hint' and new = new
            and sh' = "(env_other env sh)\<lparr>sh_root := tree\<rparr>"])
        (simp_all add: dispatch_section_def)
  qed
qed

end

context runtime_driver
begin

lemma next_turn_queued:
  assumes "forward_completions ops env rt sh = Some (rt1, sh1)"
    and "collect_events env rt1 sh1 = (rt2, sh2)" and "rt_output rt2 = out # rest"
  shows "next_turn ops env rt sh = Some (Return out, rt2\<lparr>rt_output := rest,
    rt_stats := (rt_stats rt2)\<lparr>cell_output_queued := length rest\<rparr>\<rparr>, sh2)"
  using assms by (simp add: next_turn_def)

text \<open>The state a turn without queued outputs ends with, before it decides what to return.\<close>

lemma next_turn_idle:
  assumes inv: "rt_invar invar horizon rt sh" and cl: "clock_in_range horizon rt sh"
    and f: "forward_completions ops env rt sh = Some (rt\<lparr>rt_completion := []\<rparr>, sh1)"
      "shared_keeps sh sh1" "invar (sh_root sh1) (inf_paths (rt_in_flight rt))"
    and c: "collect_events env (rt\<lparr>rt_completion := []\<rparr>) sh1 = (rt\<lparr>rt_completion := []\<rparr>, sh2)"
      "undisturbed invar sh1 sh2"
    and empty: "rt_output rt = []"
  obtains shutdown hint rt' sh' cs new outs fl where
    "next_turn ops env rt sh =
       (if shutdown \<and> rt_in_flight rt' = [] \<and> rt_output rt' = [] \<and> rt_completion rt' = [] then
           Some (Return OutShutdown, rt'\<lparr>rt_sleep_hint := None\<rparr>, sh')
         else
           case hint of
             Some (Observed deadline) \<Rightarrow>
               if rt_output rt' = [] then
                 Some (Return (OutSleepUntil deadline),
                       rt'\<lparr>rt_sleep_hint := Some (Emitted deadline)\<rparr>, sh')
               else Some (Turn (cs \<noteq> []), rt', sh')
           | _ \<Rightarrow> Some (Turn (cs \<noteq> []), rt', sh'))"
    "rt_sleep_hint rt' = hint" "rt_completion rt' = cs" "rt_output rt' = outs"
    "rt_in_flight rt' = fl" "rt_config rt' = rt_config rt"
    "cell_dispatched (rt_stats rt') = cell_dispatched (rt_stats rt) + word_of_nat (length new)"
    "length outs = length cs" "\<forall>out \<in> set outs. is_work out"
    "\<forall>c \<in> set cs. cp_completed_at c \<le> horizon"
    "inf_paths (rt_in_flight rt @ new) = inf_paths fl + cp_paths cs" "loaded fl"
    "length (rt_in_flight rt @ new) \<le> cfg_global_max_in_flight (rt_config rt)"
    "invar (sh_root sh') (inf_paths fl + cp_paths cs)" "shared_keeps sh sh'"
    "shutdown \<longrightarrow> sh_shutdown sh'"
    "sh_shutdown sh \<longrightarrow> new = [] \<and>
       (shutdown \<or> length (rt_in_flight rt) = cfg_global_max_in_flight (rt_config rt))"
    "shutdown \<longrightarrow> hint = None" 
    "\<forall>t i. rt_clock rt = Virtual t i \<longrightarrow> hint = None \<or> hint_step (retain_hint (t + i) (rt_sleep_hint rt)) hint"
proof -
  let ?rt1 = "rt\<lparr>rt_completion := []\<rparr>"
  have k2: "shared_keeps sh sh2" using f(2) c(2) shared_keeps_trans by (auto simp: undisturbed_def)
  have "clock_in_range horizon ?rt1 sh2" using clock_in_range_cong [OF k2 _ cl, of ?rt1] by simp
  then obtain now clock sh3 where n: "clock_now env (rt_clock ?rt1) sh2 = Some (now, clock, sh3)"
      "undisturbed invar sh2 sh3" "clock_within horizon clock sh3"
    by (rule clock_now_ok)
  let ?rt2 = "?rt1\<lparr>rt_clock := clock\<rparr>"
  let ?hint0 = "retain_hint now (rt_sleep_hint rt)"
  have "invar (sh_root sh3) (inf_paths (rt_in_flight ?rt2))"
    using f(3) c(2) n(2) by (simp add: undisturbed_def)
  moreover have "length (rt_in_flight ?rt2) \<le> cfg_global_max_in_flight (rt_config ?rt2)"
    "cfg_global_max_in_flight (rt_config ?rt2) \<le> u32_max" "loaded (rt_in_flight ?rt2)"
    using inv by (simp_all add: rt_invar_def)
  ultimately obtain shutdown hint new sh4 where d:
    "dispatch_section ops env now ?rt2 ?hint0 sh3 = Some (shutdown, hint,
       ?rt2\<lparr>rt_in_flight := rt_in_flight ?rt2 @ new,
          rt_stats := (rt_stats ?rt2)\<lparr>cell_dispatched :=
            cell_dispatched (rt_stats ?rt2) + word_of_nat (length new)\<rparr>\<rparr>, sh4)"
    "invar (sh_root sh4) (inf_paths (rt_in_flight ?rt2 @ new))" "loaded new"
    "length (rt_in_flight ?rt2 @ new) \<le> cfg_global_max_in_flight (rt_config ?rt2)"
    "shared_keeps sh3 sh4" "shutdown \<longrightarrow> sh_shutdown sh4"
    "sh_shutdown sh3 \<longrightarrow> new = [] \<and>
       (shutdown \<or> length (rt_in_flight ?rt2) = cfg_global_max_in_flight (rt_config ?rt2))"
    "hint_step ?hint0 hint"
    by (elim dispatch_section_ok [where hint = ?hint0])
  let ?rt3 = "?rt2\<lparr>rt_stats := (rt_stats rt)\<lparr>
      cell_dispatched := cell_dispatched (rt_stats rt) + word_of_nat (length new),
      cell_in_flight := word_of_nat (length (rt_in_flight rt @ new))\<rparr>, rt_in_flight := []\<rparr>"
  have ld: "loaded (rt_in_flight rt @ new)" using inv d(3) by (simp add: rt_invar_def)
  have cw: "clock_within horizon (rt_clock ?rt3) sh4"
    using n(3) d(5) by (simp add: clock_within_def shared_keeps_def split: runtime_clock.splits)
  from drain_completed_ok [OF ld cw, of now False] obtain cs outs fl sh' where dr:
    "drain_completed env now False ?rt3 (rt_in_flight rt @ new) sh4 =
      Some (False \<or> cs \<noteq> [],
        ?rt3\<lparr>rt_completion := rt_completion ?rt3 @ cs, rt_output := rt_output ?rt3 @ outs\<rparr>, fl, sh')"
    "length outs = length cs" "\<forall>out \<in> set outs. is_work out"
    "\<forall>c \<in> set cs. cp_completed_at c \<le> horizon"
    "inf_paths (rt_in_flight rt @ new) = inf_paths fl + cp_paths cs" "loaded fl"
    "undisturbed invar sh4 sh'"
    by (elim exE conjE) (rule that)
  let ?hint = "if shutdown then None else hint"
  let ?rt' = "?rt3\<lparr>rt_completion := cs, rt_output := outs,
      rt_stats := (store_in_flight (rt_stats ?rt3) fl)\<lparr>cell_output_queued := length outs\<rparr>,
      rt_in_flight := fl, rt_sleep_hint := ?hint\<rparr>"
  have k: "shared_keeps sh2 sh3" "shared_keeps sh4 sh'" using n(2) dr(7) by (simp_all add: undisturbed_def)
  have kept: "shared_keeps sh sh3" "shared_keeps sh sh'"
    using shared_keeps_trans k k2 d(5) by blast+
  have inv': "invar (sh_root sh') (inf_paths fl + cp_paths cs)"
    using d(2) dr(5,7) by (simp add: undisturbed_def)
  have down: "shutdown \<longrightarrow> sh_shutdown sh'" "sh_shutdown sh \<longrightarrow> sh_shutdown sh3"
    using d(6) k(2) kept(1) by (auto simp: shared_keeps_def)
  have eq: "next_turn ops env rt sh =
       (if shutdown \<and> rt_in_flight ?rt' = [] \<and> rt_output ?rt' = [] \<and> rt_completion ?rt' = [] then
           Some (Return OutShutdown, ?rt'\<lparr>rt_sleep_hint := None\<rparr>, sh')
         else
           case ?hint of
             Some (Observed deadline) \<Rightarrow>
               if rt_output ?rt' = [] then
                 Some (Return (OutSleepUntil deadline),
                       ?rt'\<lparr>rt_sleep_hint := Some (Emitted deadline)\<rparr>, sh')
               else Some (Turn (cs \<noteq> []), ?rt', sh')
           | _ \<Rightarrow> Some (Turn (cs \<noteq> []), ?rt', sh'))"
    using f(1) c(1) empty n(1) d(1) dr(1) by (simp add: next_turn_def store_in_flight_def Let_def split: option.split sleep_hint.split)
  have virt: "\<forall>t i. rt_clock rt = Virtual t i \<longrightarrow>
      ?hint = None \<or> hint_step (retain_hint (t + i) (rt_sleep_hint rt)) ?hint"
    using n(1) d(8) by (auto simp: clock_now_def checked_add_instant_def split: if_splits)
  show thesis
    by (rule that [where shutdown = shutdown and hint = ?hint and rt' = ?rt' and sh' = sh' and cs = cs
          and new = new and outs = outs and fl = fl, OF eq])
      (use d(4,7) dr(2-6) kept inv' down virt in \<open>simp_all add: store_in_flight_def\<close>)
qed

end

context runtime_driver
begin

lemma next_turn_ok:
  assumes inv: "rt_invar invar horizon rt sh"
    and range: "rt_output rt = [] \<longrightarrow> clock_in_range horizon rt sh"
  obtains t rt' sh' where "next_turn ops env rt sh = Some (t, rt', sh')"
    "rt_invar invar horizon rt' sh'" "shared_keeps sh sh'" "turn_spec rt sh t rt' sh'"
proof -
  let ?rt1 = "rt\<lparr>rt_completion := []\<rparr>"
  from inv obtain sh1 where f: "forward_completions ops env rt sh = Some (?rt1, sh1)"
      "shared_keeps sh sh1" "invar (sh_root sh1) (inf_paths (rt_in_flight rt))"
    by (rule forward_completions_ok)
  obtain es sh2 where c:
      "collect_events env ?rt1 sh1 = (?rt1\<lparr>rt_output := rt_output ?rt1 @ map OutRuntime es\<rparr>, sh2)"
      "undisturbed invar sh1 sh2"
    by (rule collect_events_ok)
  have k2: "shared_keeps sh sh2" using f(2) c(2) shared_keeps_trans by (auto simp: undisturbed_def)
  show thesis
  proof (cases "rt_output rt @ map OutRuntime es")
    case (Cons out rest)
    let ?rt' = "?rt1\<lparr>rt_output := rest,
      rt_stats := (rt_stats rt)\<lparr>cell_output_queued := length rest\<rparr>\<rparr>"
    have eq: "next_turn ops env rt sh = Some (Return out, ?rt', sh2)"
      using next_turn_queued [OF f(1) c(1)] Cons by simp
    have q: "\<forall>o' \<in> set (out # rest). queueable o'"
      using inv by (auto simp: rt_invar_def Cons [symmetric])
    have w: "works (out # rest) = works (rt_output rt)" by (simp only: Cons [symmetric]) simp
    have "rt_invar invar horizon ?rt' sh2"
      using inv q f(3) c(2) by (simp add: rt_invar_def undisturbed_def)
    moreover have "accounted (sh_shutdown sh) rt (of_bool (is_work out)) ?rt'"
      using w unfolding accounted_def by (intro exI [of _ 0]) simp
    moreover have "\<exists>es. out # rest = rt_output rt @ map OutRuntime es" using Cons [symmetric] by blast
    ultimately have "rt_invar invar horizon ?rt' sh2" "turn_spec rt sh (Return out) ?rt' sh2"
      using q by (auto simp: turn_spec_def)
    then show thesis using eq k2 by (intro that)
  next
    case Nil
    then have empty: "rt_output rt = []" "es = []" by auto
    with range have cl: "clock_in_range horizon rt sh" by simp
    have c': "collect_events env ?rt1 sh1 = (?rt1, sh2)" using c(1) empty by (cases rt) simp
    obtain shutdown hint rt' sh' cs new outs fl where t:
      "next_turn ops env rt sh =
         (if shutdown \<and> rt_in_flight rt' = [] \<and> rt_output rt' = [] \<and> rt_completion rt' = [] then
             Some (Return OutShutdown, rt'\<lparr>rt_sleep_hint := None\<rparr>, sh')
           else
             case hint of
               Some (Observed deadline) \<Rightarrow>
                 if rt_output rt' = [] then
                   Some (Return (OutSleepUntil deadline),
                         rt'\<lparr>rt_sleep_hint := Some (Emitted deadline)\<rparr>, sh')
                 else Some (Turn (cs \<noteq> []), rt', sh')
             | _ \<Rightarrow> Some (Turn (cs \<noteq> []), rt', sh'))"
      "rt_sleep_hint rt' = hint" "rt_completion rt' = cs" "rt_output rt' = outs"
      "rt_in_flight rt' = fl" "rt_config rt' = rt_config rt"
      "cell_dispatched (rt_stats rt') = cell_dispatched (rt_stats rt) + word_of_nat (length new)"
      "length outs = length cs" "\<forall>out \<in> set outs. is_work out"
      "\<forall>c \<in> set cs. cp_completed_at c \<le> horizon"
      "inf_paths (rt_in_flight rt @ new) = inf_paths fl + cp_paths cs" "loaded fl"
      "length (rt_in_flight rt @ new) \<le> cfg_global_max_in_flight (rt_config rt)"
      "invar (sh_root sh') (inf_paths fl + cp_paths cs)" "shared_keeps sh sh'"
      "shutdown \<longrightarrow> sh_shutdown sh'"
      "sh_shutdown sh \<longrightarrow> new = [] \<and>
         (shutdown \<or> length (rt_in_flight rt) = cfg_global_max_in_flight (rt_config rt))"
      "shutdown \<longrightarrow> hint = None"
      "\<forall>t i. rt_clock rt = Virtual t i \<longrightarrow> hint = None \<or> hint_step (retain_hint (t + i) (rt_sleep_hint rt)) hint"
      by (rule next_turn_idle [OF inv cl f c' c(2) empty(1)])
    have len: "length (rt_in_flight rt) + length new = length fl + length cs"
      using arg_cong [OF t(11), of size] by simp
    have q: "\<forall>out \<in> set outs. queueable out" using t(9) is_work_queueable by blast
    have inv': "rt_invar invar horizon (rt'\<lparr>rt_sleep_hint := h\<rparr>) sh'" for h
      using inv t(3-6,10,12-14) len q by (simp add: rt_invar_def)
    have acc: "accounted (sh_shutdown sh) rt 0 (rt'\<lparr>rt_sleep_hint := h\<rparr>)" for h
      using t(4,5,7,8,17) empty works_all [OF t(9)] len unfolding accounted_def
      by (intro exI [of _ "length new"]) auto
    have same: "rt'\<lparr>rt_sleep_hint := hint\<rparr> = rt'" using t(2) by (cases rt') simp
    note facts = t(3-6,8,16,17) inv empty works_all [OF t(9)]
    consider (down) "shutdown" "fl = []" "outs = []" "cs = []"
      | (sleep) d where "\<not> (shutdown \<and> fl = [] \<and> outs = [] \<and> cs = [])" "hint = Some (Observed d)" "outs = []"
      | (on) "\<not> (shutdown \<and> fl = [] \<and> outs = [] \<and> cs = [])" "outs = [] \<longrightarrow> (\<forall>d. hint \<noteq> Some (Observed d))"
      by blast
    then show thesis
    proof cases
      case down
      then have "turn_spec rt sh (Return OutShutdown) (rt'\<lparr>rt_sleep_hint := None\<rparr>) sh'"
        using facts acc [of None] by (auto simp: turn_spec_def)
      with down t(1,3-5,15) inv' [of None] show thesis by (intro that) simp_all
    next
      case sleep
      then have "turn_spec rt sh (Return (OutSleepUntil d)) (rt'\<lparr>rt_sleep_hint := Some (Emitted d)\<rparr>) sh'"
        using facts acc [of "Some (Emitted d)"] t(18,19)
        by (auto simp: turn_spec_def rt_invar_def hint_step_def retain_hint_def)
      with sleep t(1,3-5,15) inv' [of "Some (Emitted d)"] show thesis by (intro that) auto
    next
      case on
      then have "turn_spec rt sh (Turn (cs \<noteq> [])) rt' sh'"
        using facts q t(2) acc [of hint] len by (auto simp: turn_spec_def same rt_invar_def)
      moreover have "next_turn ops env rt sh = Some (Turn (cs \<noteq> []), rt', sh')"
        using on t(1,3-5) by (auto split: option.split sleep_hint.split)
      ultimately show thesis using t(15) inv' [of hint] by (intro that) (simp_all add: same)
    qed
  qed
qed

end

section \<open>One poll\<close>

definition poll_spec ::
  "('t, 'm, 'ev, 'err) runtime \<Rightarrow> ('s, 'w) shared \<Rightarrow> ('ev, 'err) runtime_output poll \<Rightarrow>
   ('t, 'm, 'ev, 'err) runtime \<Rightarrow> ('s, 'w) shared \<Rightarrow> bool" where
  "poll_spec rt sh p rt' sh' \<longleftrightarrow>
     rt_config rt' = rt_config rt \<and> length (rt_completion rt') \<le> works (rt_output rt') \<and>
     accounted (sh_shutdown sh) rt (case p of Ready out \<Rightarrow> of_bool (is_work out) | Pending \<Rightarrow> 0) rt' \<and>
     (rt_output rt \<noteq> [] \<longrightarrow>
        (\<exists>out es. p = Ready out \<and> out # rt_output rt' = rt_output rt @ map OutRuntime es)) \<and>
     (p = Ready OutShutdown \<longrightarrow>
        sh_shutdown sh' \<and> rt_in_flight rt' = [] \<and> rt_output rt' = [] \<and> rt_completion rt' = []) \<and>
     (\<forall>d. p = Ready (OutSleepUntil d) \<longrightarrow>
        rt_sleep_hint rt' = Some (Emitted d) \<and> rt_output rt' = [] \<and>
        (sh_shutdown sh \<longrightarrow> rt_in_flight rt \<noteq> []) \<and>
        (\<forall>t i b. rt_clock rt = Virtual t i \<and> rt_sleep_hint rt = Some (Emitted b) \<longrightarrow>
           d < b \<or> b \<le> t + i)) \<and>
     (p = Pending \<longrightarrow>
        rt_output rt' = [] \<and> rt_completion rt' = [] \<and>
        (\<forall>d. rt_sleep_hint rt' \<noteq> Some (Observed d)) \<and> (sh_shutdown sh \<longrightarrow> rt_in_flight rt' \<noteq> []))"

lemma next_loop_simps:
  "next_loop ops env False rt sh = Some (Pending, rt, sh)"
  "next_turn ops env rt sh = Some (Return out, rt', sh') \<Longrightarrow>
   next_loop ops env True rt sh = Some (Ready out, rt', sh')"
  "next_turn ops env rt sh = Some (Turn progress, rt', sh') \<Longrightarrow>
   next_loop ops env True rt sh = next_loop ops env progress rt' sh'"
  by (subst next_loop.simps, simp)+


context runtime_driver
begin

text \<open>The loop of \<open>poll\<close> ends after at most two turns: progress queues an output, which leaves next.\<close>

lemma next_loop_ok:
  assumes inv: "rt_invar invar horizon rt sh" and cl: "clock_in_range horizon rt sh"
  obtains p rt' sh' where "next_loop ops env True rt sh = Some (p, rt', sh')"
    "rt_invar invar horizon rt' sh'" "shared_keeps sh sh'" "poll_spec rt sh p rt' sh'"
proof -
  have cl': "rt_output rt = [] \<longrightarrow> clock_in_range horizon rt sh" using cl by simp
  obtain t rt1 sh1 where t: "next_turn ops env rt sh = Some (t, rt1, sh1)"
      "rt_invar invar horizon rt1 sh1" "shared_keeps sh sh1" "turn_spec rt sh t rt1 sh1"
    by (rule next_turn_ok [OF inv cl'])
  consider (ret) out where "t = Return out" | (idle) "t = Turn False" | (again) "t = Turn True"
    by (cases t) auto
  then show thesis
  proof cases
    case ret
    with t show thesis
      by (intro that [of "Ready out" rt1 sh1]) (auto simp: next_loop_simps turn_spec_def poll_spec_def)
  next
    case idle
    with t show thesis
      by (intro that [of Pending rt1 sh1]) (auto simp: next_loop_simps turn_spec_def poll_spec_def)
  next
    case again
    with t(4) have out: "rt_output rt1 \<noteq> []" by (simp add: turn_spec_def)
    then have out': "rt_output rt1 = [] \<longrightarrow> clock_in_range horizon rt1 sh1" by simp
    obtain t' rt2 sh2 where t': "next_turn ops env rt1 sh1 = Some (t', rt2, sh2)"
        "rt_invar invar horizon rt2 sh2" "shared_keeps sh1 sh2" "turn_spec rt1 sh1 t' rt2 sh2"
      by (rule next_turn_ok [OF t(2) out'])
    from t'(4) out obtain o' where o': "t' = Return o'" by (cases t') (auto simp: turn_spec_def)
    have "queueable o'" using t(2) t'(4) out o'
      by (cases "rt_output rt1") (auto simp: turn_spec_def rt_invar_def)
    moreover have "accounted (sh_shutdown sh) rt (of_bool (is_work o')) rt2"
      using accounted_trans [of "sh_shutdown sh" rt 0 rt1 "sh_shutdown sh1"] t(3,4) t'(4) again o'
      by (auto simp: turn_spec_def shared_keeps_def)
    ultimately have "poll_spec rt sh (Ready o') rt2 sh2"
      using t(4) t'(4) again o' out by (auto simp: turn_spec_def poll_spec_def)
    moreover have "next_loop ops env True rt sh = Some (Ready o', rt2, sh2)"
      using t(1) t'(1) again o' by (simp add: next_loop_simps)
    ultimately show thesis using t'(2) shared_keeps_trans [OF t(3) t'(3)] by (intro that)
  qed
qed

end

section \<open>Executions\<close>

fun polled :: "'a poll \<Rightarrow> 'a list" where
  "polled Pending = []"
| "polled (Ready x) = [x]"

text \<open>
  The executions of a runtime: the driver polls, with any wakers and as long as the clock stays
  within the horizon, in any interleaving with handles that request a shutdown and with
  the other threads. \<open>outs\<close> are the outputs the driver got.
\<close>

inductive rt_exec ::
  "('s, 't, 'm) scheduler_ops \<Rightarrow> ('s, 't, 'm, 'ev, 'err, 'w) runtime_env \<Rightarrow> instant \<Rightarrow> runtime_config \<Rightarrow>
   's \<Rightarrow> ('t, 'm, 'ev, 'err) runtime \<Rightarrow> ('s, 'w) shared \<Rightarrow> ('ev, 'err) runtime_output list \<Rightarrow> bool"
  for ops env horizon config tree where
  rte_new: "runtime_new ops config tree identity now world = Some (rt, sh) \<Longrightarrow>
    rt_exec ops env horizon config tree rt sh []"
| rte_poll: "rt_exec ops env horizon config tree rt sh outs \<Longrightarrow> clock_in_range horizon rt sh \<Longrightarrow>
    next_poll ops env waker rt sh = Some (p, rt', sh') \<Longrightarrow>
    rt_exec ops env horizon config tree rt' sh' (outs @ polled p)"
| rte_shutdown: "rt_exec ops env horizon config tree rt sh outs \<Longrightarrow>
    rt_exec ops env horizon config tree rt (graceful_shutdown sh) outs"
| rte_other: "rt_exec ops env horizon config tree rt sh outs \<Longrightarrow>
    rt_exec ops env horizon config tree rt (env_other env sh) outs"

text \<open>What holds between the steps of an execution.\<close>

definition rt_sound ::
  "('s \<Rightarrow> routing_path multiset \<Rightarrow> bool) \<Rightarrow> instant \<Rightarrow> runtime_config \<Rightarrow>
   ('t, 'm, 'ev, 'err) runtime \<Rightarrow> ('s, 'w) shared \<Rightarrow> ('ev, 'err) runtime_output list \<Rightarrow> bool" where
  "rt_sound invar horizon config rt sh outs \<longleftrightarrow>
     rt_invar invar horizon rt sh \<and> rt_config rt = config \<and>
     length (rt_completion rt) \<le> works (rt_output rt) \<and>
     cell_dispatched (rt_stats rt) =
       word_of_nat (works outs + works (rt_output rt) + length (rt_in_flight rt)) \<and>
     (OutShutdown \<in> set outs \<longrightarrow>
        sh_shutdown sh \<and> rt_in_flight rt = [] \<and> works (rt_output rt) = 0)"

lemma register_waker_keeps_root [simp]:
  "rt_invar invar horizon rt (sh\<lparr>sh_signals := s\<rparr>) = rt_invar invar horizon rt sh"
  "clock_in_range horizon rt (sh\<lparr>sh_signals := s\<rparr>) = clock_in_range horizon rt sh"
  "poll_spec rt (sh\<lparr>sh_signals := s\<rparr>) p rt' sh' = poll_spec rt sh p rt' sh'"
  by (simp_all add: rt_invar_def clock_in_range_def poll_spec_def split: runtime_clock.split)

lemma graceful_shutdown_simps [simp]:
  "rt_invar invar horizon rt (graceful_shutdown sh) = rt_invar invar horizon rt sh"
  "sh_shutdown (graceful_shutdown sh)"
  by (simp_all add: rt_invar_def graceful_shutdown_def)

lemma works_polled: "works (polled p) = (case p of Ready out \<Rightarrow> of_bool (is_work out) | Pending \<Rightarrow> 0)"
  by (cases p) simp_all

context runtime_driver
begin

lemma next_poll_ok:
  assumes "rt_invar invar horizon rt sh" and "clock_in_range horizon rt sh"
  obtains p rt' sh' where "next_poll ops env waker rt sh = Some (p, rt', sh')"
    "rt_invar invar horizon rt' sh'" "poll_spec rt sh p rt' sh'"
    "shared_keeps (sh\<lparr>sh_signals := signals_register_waker (sh_signals sh) waker\<rparr>) sh'"
proof -
  let ?sh = "sh\<lparr>sh_signals := signals_register_waker (sh_signals sh) waker\<rparr>"
  obtain p rt' sh' where "next_loop ops env True rt ?sh = Some (p, rt', sh')"
    "rt_invar invar horizon rt' sh'" "shared_keeps ?sh sh'" "poll_spec rt ?sh p rt' sh'"
    by (rule next_loop_ok [of rt ?sh]) (simp_all add: assms)
  then show thesis by (intro that [of p rt' sh']) (simp_all add: next_poll_def)
qed

lemma poll_sound:
  assumes s: "rt_sound invar horizon config rt sh outs" and inv: "rt_invar invar horizon rt' sh'"
    and spec: "poll_spec rt sh p rt' sh'" and keeps: "sh_shutdown sh \<longrightarrow> sh_shutdown sh'"
  shows "rt_sound invar horizon config rt' sh' (outs @ polled p)"
proof -
  from spec obtain n where n: "cell_dispatched (rt_stats rt') = cell_dispatched (rt_stats rt) + word_of_nat n"
      "works (rt_output rt') + length (rt_in_flight rt') + works (polled p) =
         works (rt_output rt) + length (rt_in_flight rt) + n" "sh_shutdown sh \<longrightarrow> n = 0"
    by (auto simp: poll_spec_def accounted_def works_polled)
  have "works (outs @ polled p) + works (rt_output rt') + length (rt_in_flight rt') =
      works outs + works (rt_output rt) + length (rt_in_flight rt) + n"
    using n(2) by simp
  with n(1) s have "cell_dispatched (rt_stats rt') =
      word_of_nat (works (outs @ polled p) + works (rt_output rt') + length (rt_in_flight rt'))"
    by (simp only: rt_sound_def of_nat_add)
  moreover have "OutShutdown \<in> set (outs @ polled p) \<Longrightarrow>
      sh_shutdown sh' \<and> rt_in_flight rt' = [] \<and> works (rt_output rt') = 0"
    using s n spec keeps by (cases p) (auto simp: rt_sound_def poll_spec_def)
  ultimately show ?thesis using s inv spec by (simp add: rt_sound_def poll_spec_def)
qed

lemma exec_sound:
  assumes "rt_exec ops env horizon config tree rt sh outs"
    and "invar tree {#}" and "0 < cfg_global_max_in_flight config"
    and "cfg_global_max_in_flight config \<le> u32_max"
  shows "rt_sound invar horizon config rt sh outs"
  using assms
proof (induction rule: rt_exec.induct)
  case (rte_new identity now world rt sh)
  from rte_new.hyps obtain tree' sig where reg:
      "sched_register ops tree (signals_default identity) = Some (tree', sig)"
    by (cases "sched_register ops tree (signals_default identity)") (auto simp: runtime_new_def)
  with register_ok [OF rte_new.prems(1) reg] rte_new show ?case
    by (auto simp: runtime_new_def rt_sound_def rt_invar_def)
next
  case (rte_poll rt sh outs waker p rt' sh')
  then have s: "rt_sound invar horizon config rt sh outs" by simp
  then have "rt_invar invar horizon rt sh" by (simp add: rt_sound_def)
  from next_poll_ok [OF this rte_poll.hyps(2), of waker] rte_poll.hyps(3)
  have "rt_invar invar horizon rt' sh'" "poll_spec rt sh p rt' sh'" "sh_shutdown sh \<longrightarrow> sh_shutdown sh'"
    by (auto simp: shared_keeps_def)
  with s show ?case by (rule poll_sound)
next
  case (rte_shutdown rt sh outs)
  then show ?case by (simp add: rt_sound_def)
next
  case (rte_other rt sh outs)
  then show ?case using other_keeps [of sh] other_invar
    by (auto simp: rt_sound_def rt_invar_def shared_keeps_def)
qed

end

section \<open>A futures set\<close>

text \<open>
  A set that polls its members in the order they were pushed meets the contract, for any
  payload; so the contract of \<open>futures_set\<close> can be met.
\<close>

fun poll_members ::
  "('t \<Rightarrow> ('s, 'w) shared \<Rightarrow> (('ev, 'err) work_result poll \<times> 't \<times> ('s, 'w) shared) outcome) \<Rightarrow>
   ('t, 'm) in_flight list \<Rightarrow> ('t, 'm) in_flight list \<Rightarrow> ('s, 'w) shared \<Rightarrow>
   (('m, 'ev, 'err) completed_work option poll \<times> ('t, 'm) in_flight list \<times> ('s, 'w) shared) outcome" where
  "poll_members poll_payload before [] sh = Some (Pending, before, sh)"
| "poll_members poll_payload before (x # xs) sh = do {
     (p, y, sh) \<leftarrow> in_flight_poll poll_payload x sh;
     case p of
       Pending \<Rightarrow> poll_members poll_payload (before @ [y]) xs sh
     | Ready c \<Rightarrow> Some (Ready (Some c), before @ xs, sh)
   }"

definition poll_in_order ::
  "('t \<Rightarrow> ('s, 'w) shared \<Rightarrow> (('ev, 'err) work_result poll \<times> 't \<times> ('s, 'w) shared) outcome) \<Rightarrow>
   ('t, 'm) in_flight list \<Rightarrow> ('s, 'w) shared \<Rightarrow>
   (('m, 'ev, 'err) completed_work option poll \<times> ('t, 'm) in_flight list \<times> ('s, 'w) shared) outcome" where
  "poll_in_order poll_payload xs sh =
     (if xs = [] then Some (Ready None, [], sh) else poll_members poll_payload [] xs sh)"

lemma poll_members_spec:
  assumes "members_polled poll_payload all sh0 (before @ xs) sh"
  shows "case poll_members poll_payload before xs sh of
      None \<Rightarrow> \<exists>ys sh' y. members_polled poll_payload all sh0 ys sh' \<and> y \<in> set ys \<and>
        in_flight_poll poll_payload y sh' = None
    | Some (p, zs, sh') \<Rightarrow>
        (case p of
           Pending \<Rightarrow> members_polled poll_payload all sh0 zs sh'
         | Ready c \<Rightarrow> (\<exists>d ys sh1 y y'. c = Some d \<and> members_polled poll_payload all sh0 ys sh1 \<and>
             y \<in> set ys \<and> in_flight_poll poll_payload y sh1 = Some (Ready d, y', sh') \<and>
             mset ys = add_mset y (mset zs)))"
  using assms
proof (induction xs arbitrary: before sh)
  case Nil
  then show ?case by simp
next
  case (Cons x xs)
  show ?case
  proof (cases "in_flight_poll poll_payload x sh")
    case None
    with Cons.prems show ?thesis by simp (metis in_set_conv_decomp)
  next
    case (Some a)
    then obtain p y sh' where a: "in_flight_poll poll_payload x sh = Some (p, y, sh')" by (cases a) auto
    show ?thesis
    proof (cases p)
      case Pending
      have "in_flight_poll poll_payload ((before @ x # xs) ! length before) sh = Some (Pending, y, sh')"
        using a Pending by simp
      then have "members_polled poll_payload all sh0 ((before @ x # xs)[length before := y]) sh'"
        by (intro polled_one [OF Cons.prems]) simp_all
      then have "members_polled poll_payload all sh0 ((before @ [y]) @ xs) sh'" by simp
      from Cons.IH [OF this] a Pending show ?thesis by simp
    next
      case (Ready c)
      with Cons.prems a show ?thesis
        by simp (rule exI, rule exI, rule conjI, assumption, rule exI [of _ x], simp)
    qed
  qed
qed

lemma poll_in_order_spec:
  "case poll_in_order poll_payload xs sh of
      None \<Rightarrow> \<exists>ys sh' y. members_polled poll_payload xs sh ys sh' \<and> y \<in> set ys \<and>
        in_flight_poll poll_payload y sh' = None
    | Some (p, zs, sh') \<Rightarrow>
        (case p of
           Pending \<Rightarrow> members_polled poll_payload xs sh zs sh'
         | Ready None \<Rightarrow> xs = [] \<and> zs = [] \<and> sh' = sh
         | Ready (Some d) \<Rightarrow> (\<exists>ys sh1 y y'. members_polled poll_payload xs sh ys sh1 \<and>
             y \<in> set ys \<and> in_flight_poll poll_payload y sh1 = Some (Ready d, y', sh') \<and>
             mset ys = add_mset y (mset zs)))"
proof (cases "xs = []")
  case False
  then show ?thesis
    using poll_members_spec [of poll_payload xs sh "[]" xs sh, simplified, OF polled_none]
    by (auto simp: poll_in_order_def split: option.splits poll.splits)
qed (simp add: poll_in_order_def)

interpretation in_order: futures_set "poll_in_order poll_payload" poll_payload
proof (unfold_locales, goal_cases)
  case (1 xs sh)
  then show ?case using poll_in_order_spec [of poll_payload xs sh] by simp
next
  case (2 xs sh zs sh')
  then show ?case using poll_in_order_spec [of poll_payload xs sh] by auto
next
  case (3 xs sh zs sh')
  then show ?case using poll_in_order_spec [of poll_payload xs sh] by simp
next
  case (4 xs sh c zs sh')
  then show ?case using poll_in_order_spec [of poll_payload xs sh] by simp
qed

section \<open>A runtime over a periodic leaf\<close>

text \<open>
  Payloads that count down before they are ready, a wall clock that ticks with every reading,
  and no other thread.
\<close>

definition poll_countdown ::
  "nat \<Rightarrow> ('s, nat) shared \<Rightarrow> ((nat, 'err) work_result poll \<times> nat \<times> ('s, nat) shared) outcome" where
  "poll_countdown n sh = Some (if n = 0 then Ready (Inr [0]) else Pending, n - 1, sh)"

definition countdown_env :: "('s, nat, 'm, nat, 'err, nat) runtime_env" where
  "countdown_env =
     \<lparr>env_other = (\<lambda>sh. sh), env_poll_next = poll_in_order poll_countdown,
      env_instant_now = (\<lambda>sh. (min (sh_world sh) instant_max, sh\<lparr>sh_world := Suc (sh_world sh)\<rparr>))\<rparr>"

lemma countdown_env_simps [simp]:
  "env_other countdown_env sh = sh" "env_poll_next countdown_env = poll_in_order poll_countdown"
  "env_instant_now countdown_env sh = (min (sh_world sh) instant_max, sh\<lparr>sh_world := Suc (sh_world sh)\<rparr>)"
  by (simp_all add: countdown_env_def)

interpretation ticking: runtime_driver "periodic_leaf_ops call_make" pl_invar instant_max "\<lambda>_. 0"
  countdown_env poll_countdown
proof -
  have "futures_set (env_poll_next countdown_env) poll_countdown"
    by (simp add: in_order.futures_set_axioms)
  then show "runtime_driver (periodic_leaf_ops call_make) pl_invar instant_max (\<lambda>_. 0)
      countdown_env poll_countdown"
    by (intro runtime_driver.intro leaf.scheduler_axioms runtime_driver_axioms.intro)
      (auto simp: poll_countdown_def)
qed

section \<open>Properties\<close>

text \<open>
  C1. The runtime is a correct driver: over any root that meets the scheduler contract, with any
  futures and any other threads that keep theirs, every poll in every execution returns
  without a panic; at most \<open>global_max_in_flight\<close> items are in flight; and each dispatched
  path is either in flight or has its completion pending, so every completion
  reaches the root exactly once.
\<close>

theorem runtime_drives_contract:
  assumes "runtime_driver ops invar horizon queues env poll_payload"
    and "rt_exec ops env horizon config tree rt sh outs" and "invar tree {#}"
    and "0 < cfg_global_max_in_flight config" and "cfg_global_max_in_flight config \<le> u32_max"
    and "clock_in_range horizon rt sh"
  shows "\<exists>p rt' sh'. next_poll ops env waker rt sh = Some (p, rt', sh') \<and>
    length (rt_in_flight rt') \<le> cfg_global_max_in_flight config \<and>
    invar (sh_root sh') (inf_paths (rt_in_flight rt') + cp_paths (rt_completion rt'))"
proof -
  have "rt_sound invar horizon config rt sh outs"
    using runtime_driver.exec_sound [OF assms(1-5)] .
  then have inv: "rt_invar invar horizon rt sh" and cfg: "rt_config rt = config"
    by (simp_all add: rt_sound_def)
  obtain p rt' sh' where "next_poll ops env waker rt sh = Some (p, rt', sh')"
      "rt_invar invar horizon rt' sh'" "poll_spec rt sh p rt' sh'"
    by (rule runtime_driver.next_poll_ok [OF assms(1) inv assms(6)])
  with cfg show ?thesis by (auto simp: rt_invar_def poll_spec_def)
qed

text \<open>
  C2. No output is lost or made up: in every execution, the number of items dispatched, as the
  64-bit statistics counter has it, is the number of work outputs the driver got plus those queued
  plus the items in flight.
\<close>

theorem runtime_accounting:
  assumes "runtime_driver ops invar horizon queues env poll_payload"
    and "rt_exec ops env horizon config tree rt sh outs" and "invar tree {#}"
    and "0 < cfg_global_max_in_flight config" and "cfg_global_max_in_flight config \<le> u32_max"
  shows "rst_dispatched (handle_stats (rt_stats rt)) =
    word_of_nat (works outs + works (rt_output rt) + length (rt_in_flight rt))"
  using runtime_driver.exec_sound [OF assms] by (simp add: rt_sound_def handle_stats_def)

text \<open>
  C3. Shutdown is graceful and sticky: once the driver got \<open>Shutdown\<close>, a shutdown was requested, nothing
  is in flight, no completion is pending and no work output is queued; and in such a state
  the next poll returns \<open>Shutdown\<close> again, or a runtime event that came in the meantime.
\<close>

theorem runtime_shutdown_sticky:
  assumes "runtime_driver ops invar horizon queues env poll_payload"
    and "rt_exec ops env horizon config tree rt sh outs" and "invar tree {#}"
    and "0 < cfg_global_max_in_flight config" and "cfg_global_max_in_flight config \<le> u32_max"
    and "clock_in_range horizon rt sh"
  shows "(OutShutdown \<in> set outs \<longrightarrow>
      sh_shutdown sh \<and> rt_in_flight rt = [] \<and> rt_completion rt = [] \<and> works (rt_output rt) = 0) \<and>
    (sh_shutdown sh \<and> rt_in_flight rt = [] \<and> works (rt_output rt) = 0 \<longrightarrow>
      (\<exists>out rt' sh'. next_poll ops env waker rt sh = Some (Ready out, rt', sh') \<and>
        (out = OutShutdown \<or> (\<exists>e. out = OutRuntime e))))"
proof -
  have s: "rt_sound invar horizon config rt sh outs"
    using runtime_driver.exec_sound [OF assms(1-5)] .
  then have inv: "rt_invar invar horizon rt sh" by (simp add: rt_sound_def)
  obtain p rt' sh' where p: "next_poll ops env waker rt sh = Some (p, rt', sh')"
      "rt_invar invar horizon rt' sh'" "poll_spec rt sh p rt' sh'"
    by (rule runtime_driver.next_poll_ok [OF assms(1) inv assms(6)])
  have "\<exists>out. p = Ready out \<and> (out = OutShutdown \<or> (\<exists>e. out = OutRuntime e))"
    if down: "sh_shutdown sh" "rt_in_flight rt = []" "works (rt_output rt) = 0"
  proof (cases p)
    case Pending
    with p(3) down show ?thesis by (auto simp: poll_spec_def accounted_def)
  next
    case (Ready out)
    with p(3) down have "\<not> is_work out" by (auto simp: poll_spec_def accounted_def)
    with Ready p(3) down show ?thesis by (cases out) (auto simp: poll_spec_def)
  qed
  with s p(1) show ?thesis by (auto simp: rt_sound_def)
qed



text \<open>
  The manual clock is exact and monotone: advancing adds the duration, moving to an instant takes the
  later of the two, and both stop at the last offset the 64-bit counter holds.
\<close>

theorem manual_clock_exact:
  assumes "mc_epoch c + u64_max \<le> instant_max" and "mc_now c = Some t"
  shows "mc_now (mc_advance c d) = Some (min (t + d) (mc_epoch c + u64_max)) \<and>
    mc_now (mc_advance_to c to) = Some (max t (min to (mc_epoch c + u64_max)))"
proof -
  have t: "t = mc_epoch c + unat (mc_offset_nanos c)"
    using assms(2) by (auto simp: mc_now_def checked_add_instant_def split: if_splits)
  have "unat (mc_offset_nanos (mc_advance c d)) = min (unat (mc_offset_nanos c) + min d u64_max) u64_max"
    by (simp add: mc_advance_def unat_saturating_add unat_clamp_u64 u64_max_def)
  moreover have "unat (mc_offset_nanos (mc_advance_to c to)) =
      max (unat (mc_offset_nanos c)) (min (duration_since to (mc_epoch c)) u64_max)"
    by (simp add: mc_advance_to_def max_def word_le_nat_alt unat_clamp_u64)
  ultimately show ?thesis
    using assms(1) u64_le_max [of "mc_offset_nanos c"]
    by (auto simp: mc_now_def checked_add_instant_def t mc_advance_def mc_advance_to_def
        duration_since_def min_def max_def Let_def)
qed

section \<open>Witnesses\<close>

abbreviation tick_ops :: "(nat periodic_leaf, nat, unit) scheduler_ops" where
  "tick_ops \<equiv> periodic_leaf_ops (\<lambda>n. (n, n))"

definition tick_config :: runtime_config where
  "tick_config = \<lparr>cfg_global_max_in_flight = 2, cfg_clock = ConfigVirtual 1\<rparr>"

definition tick_runtime :: "(nat, unit, nat, unit) runtime" where
  "tick_runtime =
     \<lparr>rt_config = tick_config, rt_clock = Virtual 0 1, rt_sleep_hint = None, rt_in_flight = [],
      rt_completion = [], rt_output = [],
      rt_stats = \<lparr>cell_dispatched = 0, cell_in_flight = 0, cell_output_queued = 0\<rparr>\<rparr>"

definition tick_shared :: "duration \<Rightarrow> nat \<Rightarrow> (nat periodic_leaf, nat) shared" where
  "tick_shared i n =
     \<lparr>sh_root = periodic_leaf_new 0 i n, sh_shutdown = False, sh_signals = signals_default 0,
      sh_clock = manual_clock_new 0, sh_world = 0\<rparr>"

lemma tick_exec:
  "rt_exec tick_ops countdown_env instant_max tick_config (periodic_leaf_new 0 i n)
     tick_runtime (tick_shared i n) []"
  by (rule rte_new [of _ _ _ 0 0 0])
    (simp add: runtime_new_def tick_config_def tick_runtime_def tick_shared_def pl_register_def)

lemma tick_invar: "pl_invar (periodic_leaf_new 0 i n) {#}"
  by (simp add: pl_invar_def)

lemma tick_cap: "0 < cfg_global_max_in_flight tick_config" "cfg_global_max_in_flight tick_config \<le> u32_max"
  by (simp_all add: tick_config_def u32_max_def)

lemma tick_clock: "clock_in_range instant_max tick_runtime sh"
  by (simp add: clock_in_range_def tick_runtime_def instant_max_def)

lemmas tick_driver = ticking.runtime_driver_axioms [where call_make = "\<lambda>n. (n, n)"]

lemma tick_dispatch:
  "dispatch_loop tick_ops 2 1 (periodic_leaf_new 0 i n) [] None 0 =
     (case checked_add_instant 1 i of
        Some t \<Rightarrow>
          if t \<le> 1 then dispatch_loop tick_ops 2 1 (periodic_leaf_new 0 i n) [] None 0
          else Some ((periodic_leaf_new 1 i n)\<lparr>pl_next_due := At t\<rparr>,
            [\<lparr>inf_start = 1, inf_work = Some (scheduled_work_new () n)\<rparr>], Some (Observed t), 1)
      | None \<Rightarrow> Some ((periodic_leaf_new 1 i n)\<lparr>pl_next_due := Never\<rparr>,
            [\<lparr>inf_start = 1, inf_work = Some (scheduled_work_new () n)\<rparr>], None, 1))"
  by (simp add: dispatch_loop.simps shared_next_def pl_update_ready_def pl_take_next_def pl_due_def
      periodic_leaf_new_def Let_def split: option.split)

lemma tick_drain:
  "drain_completed countdown_env now progress rt
     [\<lparr>inf_start = t, inf_work = Some (scheduled_work_new () (Suc n))\<rparr>] sh =
   Some (progress, rt, [\<lparr>inf_start = t, inf_work = Some (scheduled_work_new () n)\<rparr>], sh)"
  by (subst drain_completed.simps)
    (simp add: poll_in_order_def in_flight_poll_def poll_countdown_def scheduled_work_new_def)

lemmas tick_simps = next_turn_def forward_completions_def collect_events_def tick_runtime_def
  tick_shared_def tick_config_def clock_now_def checked_add_instant_def instant_max_def
  dispatch_section_def signals_take_events_def signals_default_def signals_register_waker_def
  tick_drain retain_hint_def store_in_flight_def Let_def

text \<open>One tick in five: the leaf gives work, and the driver is told when the next is due.\<close>

lemma tick_sleeps:
  "\<exists>rt sh. next_poll tick_ops countdown_env 7 tick_runtime (tick_shared 5 (Suc n)) =
      Some (Ready (OutSleepUntil 6), rt, sh) \<and> length (rt_in_flight rt) = 1 \<and>
      rt_output rt = [] \<and> rst_in_flight (handle_stats (rt_stats rt)) = 1"
proof -
  have "\<exists>rt sh. next_turn tick_ops countdown_env tick_runtime
      ((tick_shared 5 (Suc n))\<lparr>sh_signals :=
        signals_register_waker (sh_signals (tick_shared 5 (Suc n))) 7\<rparr>) =
      Some (Return (OutSleepUntil 6), rt, sh) \<and> length (rt_in_flight rt) = 1 \<and>
      rt_output rt = [] \<and> cell_in_flight (rt_stats rt) = 1"
    by (simp add: tick_simps tick_dispatch del: One_nat_def)
  then show ?thesis by (auto simp: next_poll_def next_loop_simps handle_stats_def)
qed


theorem runtime_drives_contract_witness:
  "\<exists>p rt' sh'. next_poll tick_ops countdown_env 7 tick_runtime (tick_shared 5 3) = Some (p, rt', sh') \<and>
     length (rt_in_flight rt') \<le> 2"
  using runtime_drives_contract [OF tick_driver tick_exec tick_invar tick_cap tick_clock, of 7 5 3]
  by (auto simp: tick_config_def)

theorem runtime_accounting_witness:
  "\<exists>rt sh. next_poll tick_ops countdown_env 7 tick_runtime (tick_shared 5 3) =
      Some (Ready (OutSleepUntil 6), rt, sh) \<and> rst_dispatched (handle_stats (rt_stats rt)) = 1"
proof -
  obtain rt sh where p: "next_poll tick_ops countdown_env 7 tick_runtime (tick_shared 5 3) =
      Some (Ready (OutSleepUntil 6), rt, sh)" "length (rt_in_flight rt) = 1" "rt_output rt = []"
    using tick_sleeps [of 2] by (auto simp: numeral_eq_Suc)
  from runtime_accounting [OF tick_driver rte_poll [OF tick_exec tick_clock p(1)] tick_invar tick_cap]
  have "rst_dispatched (handle_stats (rt_stats rt)) = 1" using p(2,3) by simp
  with p(1) show ?thesis by blast
qed

theorem runtime_shutdown_sticky_witness:
  "\<exists>out rt sh. next_poll tick_ops countdown_env 7 tick_runtime (graceful_shutdown (tick_shared 5 3)) =
      Some (Ready out, rt, sh) \<and> (out = OutShutdown \<or> (\<exists>e. out = OutRuntime e))"
  using runtime_shutdown_sticky [OF tick_driver rte_shutdown [OF tick_exec] tick_invar tick_cap tick_clock, of 5 3 7]
  by (auto simp: tick_runtime_def)



theorem manual_clock_exact_witness:
  "mc_now (mc_advance (manual_clock_new 3) 4) = Some 7 \<and> mc_now (mc_advance_to (manual_clock_new 3) 9) = Some 9"
  using manual_clock_exact [of "manual_clock_new 3" 3 4 9]
  by (simp add: manual_clock_new_def mc_now_def checked_add_instant_def u64_max_def instant_max_def)

end
