(* ===== verification/Text.thy ===== *)
theory Text
  imports Prelude "HOL-Library.Sublist"
begin

text \<open>
  What the code uses of Rust's \<open>str\<close>, of \<open>String::from_utf8_lossy\<close> and of \<open>serde_json::Value\<close>. A string is the
  list of its UTF-8 bytes, as in Rust, so a search for an ASCII character is one for a byte. The lemmas
  relate the searches from either end to \<open>split\<close>.
\<close>

definition str_trim_end_matches :: "char \<Rightarrow> string \<Rightarrow> string" where
  "str_trim_end_matches c s = rev (dropWhile ((=) c) (rev s))"

definition str_starts_with :: "char \<Rightarrow> string \<Rightarrow> bool" where
  "str_starts_with c s \<longleftrightarrow> s \<noteq> [] \<and> hd s = c"

definition str_strip_prefix :: "string \<Rightarrow> string \<Rightarrow> string option" where
  "str_strip_prefix p s = (if prefix p s then Some (drop (length p) s) else None)"

definition str_split_once :: "char \<Rightarrow> string \<Rightarrow> (string \<times> string) option" where
  "str_split_once c s =
     (case dropWhile ((\<noteq>) c) s of [] \<Rightarrow> None | _ # after \<Rightarrow> Some (takeWhile ((\<noteq>) c) s, after))"

definition str_rsplit_once :: "char \<Rightarrow> string \<Rightarrow> (string \<times> string) option" where
  "str_rsplit_once c s = map_option (\<lambda>(after, before). (rev before, rev after)) (str_split_once c (rev s))"

fun str_split :: "char \<Rightarrow> string \<Rightarrow> string list" where
  "str_split c [] = [[]]"
| "str_split c (x # xs) =
     (if x = c then [] # str_split c xs
      else case str_split c xs of [] \<Rightarrow> [[x]] | s # ss \<Rightarrow> (x # s) # ss)"

text \<open>\<open>str::trim\<close> removes the characters with the Unicode property \<open>White_Space\<close>, here by their encodings.\<close>

definition byte :: "nat \<Rightarrow> char" where
  "byte n = char_of n"

definition white_space :: "string list" where
  "white_space =
     map (\<lambda>n. [byte n]) [9, 10, 11, 12, 13, 32] @
     [[byte 0xC2, byte 0x85], [byte 0xC2, byte 0xA0], [byte 0xE1, byte 0x9A, byte 0x80]] @
     map (\<lambda>n. [byte 0xE2, byte 0x80, byte n])
       [0x80, 0x81, 0x82, 0x83, 0x84, 0x85, 0x86, 0x87, 0x88, 0x89, 0x8A, 0xA8, 0xA9, 0xAF] @
     [[byte 0xE2, byte 0x81, byte 0x9F], [byte 0xE3, byte 0x80, byte 0x80]]"

definition starts_white :: "string list \<Rightarrow> string \<Rightarrow> nat" where
  "starts_white ws s = (case find (\<lambda>w. prefix w s) ws of Some w \<Rightarrow> length w | None \<Rightarrow> 0)"

function trim_start_of :: "string list \<Rightarrow> string \<Rightarrow> string" where
  "trim_start_of ws s =
     (let n = starts_white ws s in if n = 0 then s else trim_start_of ws (drop n s))"
  by pat_completeness auto

termination
proof (relation "measure (length \<circ> snd)")
  fix ws :: "string list" and s :: string and n
  assume n: "n = starts_white ws s" "n \<noteq> 0"
  then obtain w where "find (\<lambda>w. prefix w s) ws = Some w" "n = length w"
    by (auto simp: starts_white_def split: option.splits)
  then have "prefix w s" by (auto simp: find_Some_iff)
  then have "n \<le> length s" using \<open>n = length w\<close> prefix_length_le by blast
  with n(2) show "((ws, drop n s), ws, s) \<in> measure (length \<circ> snd)" by auto
qed simp

declare trim_start_of.simps [simp del]

definition str_trim :: "string \<Rightarrow> string" where
  "str_trim s = rev (trim_start_of (map rev white_space) (rev (trim_start_of white_space s)))"

text \<open>\<open>u64::from_str\<close>: an optional plus sign, then decimal digits whose value fits.\<close>

definition is_ascii_digit :: "char \<Rightarrow> bool" where
  "is_ascii_digit c \<longleftrightarrow> 48 \<le> (of_char c :: nat) \<and> (of_char c :: nat) \<le> 57"

definition digits_value :: "string \<Rightarrow> nat" where
  "digits_value s = foldl (\<lambda>n c. 10 * n + (of_char c - 48)) 0 s"

definition parse_u64 :: "string \<Rightarrow> nat option" where
  "parse_u64 s =
     (let digits = (if str_starts_with (CHR ''+'') s then tl s else s) in
      if digits \<noteq> [] \<and> list_all is_ascii_digit digits \<and> digits_value digits \<le> u64_max
      then Some (digits_value digits) else None)"

text \<open>
  \<open>String::from_utf8_lossy\<close>: each well-formed sequence is kept, each maximal prefix of one that is not
  completed becomes U+FFFD. \<open>utf8_next\<close> gives the number of bytes of the first sequence and whether it is
  well formed, by the table of the Unicode standard.
\<close>

definition cont_from :: "nat \<Rightarrow> nat \<Rightarrow> string \<Rightarrow> bool" where
  "cont_from lo hi s \<longleftrightarrow> (case s of [] \<Rightarrow> False | c # _ \<Rightarrow> lo \<le> (of_char c :: nat) \<and> (of_char c :: nat) \<le> hi)"

definition utf8_next :: "char \<Rightarrow> string \<Rightarrow> nat \<times> bool" where
  "utf8_next c s =
     (let b = of_char c :: nat;
          second = (if b = 0xE0 then (0xA0, 0xBF) else if b = 0xED then (0x80, 0x9F)
                    else if b = 0xF0 then (0x90, 0xBF) else if b = 0xF4 then (0x80, 0x8F) else (0x80, 0xBF));
          ok2 = cont_from (fst second) (snd second) s;
          ok3 = cont_from 0x80 0xBF (drop 1 s); ok4 = cont_from 0x80 0xBF (drop 2 s) in
      if b < 0x80 then (1, True)
      else if 0xC2 \<le> b \<and> b \<le> 0xDF then (if ok2 then (2, True) else (1, False))
      else if 0xE0 \<le> b \<and> b \<le> 0xEF then
        (if \<not> ok2 then (1, False) else if \<not> ok3 then (2, False) else (3, True))
      else if 0xF0 \<le> b \<and> b \<le> 0xF4 then
        (if \<not> ok2 then (1, False) else if \<not> ok3 then (2, False) else if \<not> ok4 then (3, False) else (4, True))
      else (1, False))"

lemma utf8_next_pos: "0 < fst (utf8_next c s)"
  by (simp add: utf8_next_def Let_def)

definition replacement_character :: string where
  "replacement_character = [byte 0xEF, byte 0xBF, byte 0xBD]"

function from_utf8_lossy :: "string \<Rightarrow> string" where
  "from_utf8_lossy s =
     (case s of
        [] \<Rightarrow> []
      | c # cs \<Rightarrow>
          let (n, ok) = utf8_next c cs in
          (if ok then take n s else replacement_character) @ from_utf8_lossy (drop n s))"
  by pat_completeness auto

termination
proof (relation "measure length")
  fix s :: string and c cs x n ok
  assume "s = c # cs" "x = utf8_next c cs" "(n, ok) = x"
  then have "0 < n" using utf8_next_pos [of c cs] by (metis fst_conv)
  with \<open>s = c # cs\<close> show "(drop n s, s) \<in> measure length" by simp
qed simp

declare from_utf8_lossy.simps [simp del]

section \<open>JSON values\<close>

text \<open>
  \<open>serde_json::Value\<close>. An object is an association list read by its first entry for a key; numbers, which
  no code here reads, keep their text.
\<close>

datatype json = JNull | JBool bool | JNumber string | JString string
  | JArray "json list" | JObject "(string \<times> json) list"

fun json_get :: "json \<Rightarrow> string \<Rightarrow> json option" where
  "json_get (JObject m) k = map_of m k"
| "json_get _ k = None"

fun json_as_str :: "json \<Rightarrow> string option" where
  "json_as_str (JString s) = Some s"
| "json_as_str _ = None"

fun json_as_array :: "json \<Rightarrow> json list option" where
  "json_as_array (JArray xs) = Some xs"
| "json_as_array _ = None"

definition json_is_null :: "json \<Rightarrow> bool" where
  "json_is_null v \<longleftrightarrow> v = JNull"

section \<open>Lemmas\<close>

lemma str_split_nonempty [simp]: "str_split c s \<noteq> []"
  by (induction s) (auto split: list.splits)

lemma str_split_no_sep: "c \<notin> set s \<Longrightarrow> str_split c s = [s]"
  by (induction s) auto

lemma str_split_append:
  "str_split c (s @ c # t) = str_split c s @ str_split c t"
proof (induction s)
  case (Cons x s)
  then show ?case by (cases "str_split c s") (auto split: list.splits)
qed simp

lemma str_split_segments: "seg \<in> set (str_split c s) \<Longrightarrow> c \<notin> set seg"
proof (induction s arbitrary: seg)
  case (Cons x s)
  then show ?case by (cases "str_split c s") (auto split: if_splits)
qed simp

text \<open>\<open>join\<close> is the inverse of \<open>split\<close>.\<close>

fun str_join :: "char \<Rightarrow> string list \<Rightarrow> string" where
  "str_join c [] = []"
| "str_join c [s] = s"
| "str_join c (s # ss) = s @ c # str_join c ss"

lemma str_join_Cons: "ss \<noteq> [] \<Longrightarrow> str_join c (s # ss) = s @ c # str_join c ss"
  by (cases ss) simp_all

lemma str_join_split [simp]: "str_join c (str_split c s) = s"
proof (induction s)
  case (Cons x s)
  show ?case
  proof (cases "str_split c s")
    case (Cons y ys)
    with \<open>str_join c (str_split c s) = s\<close> show ?thesis by (cases ys) (auto simp: str_join_Cons)
  qed simp
qed simp

lemma str_split_join:
  "ss \<noteq> [] \<Longrightarrow> \<forall>s \<in> set ss. c \<notin> set s \<Longrightarrow> str_split c (str_join c ss) = ss"
proof (induction ss rule: str_join.induct)
  case (3 c s t ts)
  then show ?case by (simp add: str_split_append str_split_no_sep)
qed (simp_all add: str_split_no_sep)

lemma str_split_once_Some:
  "str_split_once c s = Some (a, b) \<longleftrightarrow> s = a @ c # b \<and> c \<notin> set a"
proof
  assume "str_split_once c s = Some (a, b)"
  then have ab: "dropWhile ((\<noteq>) c) s = c # b" "a = takeWhile ((\<noteq>) c) s"
    by (auto simp: str_split_once_def dropWhile_eq_Cons_conv split: list.splits)
  have "s = takeWhile ((\<noteq>) c) s @ dropWhile ((\<noteq>) c) s" by simp
  then show "s = a @ c # b \<and> c \<notin> set a" unfolding ab using set_takeWhileD by fastforce
next
  assume "s = a @ c # b \<and> c \<notin> set a"
  then show "str_split_once c s = Some (a, b)"
    by (auto simp: str_split_once_def takeWhile_append dropWhile_append)
qed

lemma str_split_once_None: "str_split_once c s = None \<longleftrightarrow> c \<notin> set s"
proof -
  have "c \<in> set s \<longleftrightarrow> (\<exists>a b. s = a @ c # b \<and> c \<notin> set a)"
    by (rule in_set_conv_decomp_first)
  also have "\<dots> \<longleftrightarrow> str_split_once c s \<noteq> None" 
    unfolding str_split_once_Some [symmetric] by auto
  finally show ?thesis by blast
qed

lemma str_rsplit_once_Some:
  "str_rsplit_once c s = Some (a, b) \<longleftrightarrow> s = a @ c # b \<and> c \<notin> set b"
proof -
  have "str_rsplit_once c s = Some (a, b) \<longleftrightarrow> str_split_once c (rev s) = Some (rev b, rev a)"
    by (force simp: str_rsplit_once_def)
  also have "\<dots> \<longleftrightarrow> rev s = rev b @ c # rev a \<and> c \<notin> set b" by (simp add: str_split_once_Some)
  also have "rev s = rev b @ c # rev a \<longleftrightarrow> s = a @ c # b"
    by (metis append.assoc append_Cons append_Nil rev.simps(2) rev_append rev_rev_ident)
  finally show ?thesis .
qed

lemma str_rsplit_once_None: "str_rsplit_once c s = None \<longleftrightarrow> c \<notin> set s"
  by (simp add: str_rsplit_once_def str_split_once_None)

text \<open>What follows the last separator is the last segment.\<close>

lemma str_rsplit_last:
  "(case str_rsplit_once c s of Some (_, b) \<Rightarrow> b | None \<Rightarrow> s) = last (str_split c s)"
proof (cases "str_rsplit_once c s")
  case None
  then have "c \<notin> set s" by (simp add: str_rsplit_once_None)
  with None show ?thesis by (simp add: str_split_no_sep)
next
  case (Some p)
  then obtain a b where p: "p = (a, b)" "s = a @ c # b" "c \<notin> set b"
    by (cases p) (simp add: str_rsplit_once_Some)
  with Some show ?thesis by (simp add: str_split_append str_split_no_sep)
qed

lemma str_trim_end_not_last: "str_trim_end_matches c s \<noteq> [] \<Longrightarrow> last (str_trim_end_matches c s) \<noteq> c"
  using hd_dropWhile [of "(=) c" "rev s"] by (auto simp: str_trim_end_matches_def last_rev)

lemma str_trim_end_split: "\<exists>n. s = str_trim_end_matches c s @ replicate n c"
proof -
  have "rev s = takeWhile ((=) c) (rev s) @ dropWhile ((=) c) (rev s)" by simp
  moreover have "takeWhile ((=) c) (rev s) = replicate (length (takeWhile ((=) c) (rev s))) c"
    by (metis (mono_tags) replicate_eqI set_takeWhileD)
  ultimately have "s = rev (dropWhile ((=) c) (rev s)) @ rev (replicate (length (takeWhile ((=) c) (rev s))) c)"
    by (metis rev_append rev_rev_ident)
  then show ?thesis by (auto simp: str_trim_end_matches_def)
qed

end
