(* ===== verification/OData.thy ===== *)
theory OData
  imports Text
begin

text \<open>
  OData identifiers (\<open>core/src/odata.rs\<close>): resource paths, entity tags and the \<open>@odata.type\<close> of a document. The
  properties relate the code's searches for a slash or a dot to the segments of a path and of a type name.
\<close>

type_synonym odata_id = string
type_synonym odata_etag = string

definition service_root :: odata_id where
  "service_root = ''/redfish/v1''"

definition last_segment :: "odata_id \<Rightarrow> string option" where
  "last_segment self =
     (let path = str_trim_end_matches (CHR ''/'') self in
      case str_rsplit_once (CHR ''/'') path of
        Some (_, v) \<Rightarrow> Some v
      | None \<Rightarrow> if path \<noteq> [] then Some path else None)"

definition is_path_prefix :: "odata_id \<Rightarrow> odata_id \<Rightarrow> bool" where
  "is_path_prefix self other =
     (let pre = str_trim_end_matches (CHR ''/'') self in
      if pre = [] then str_starts_with (CHR ''/'') self \<and> str_starts_with (CHR ''/'') other
      else case str_strip_prefix pre other of
        None \<Rightarrow> False
      | Some suf \<Rightarrow> suf = [] \<or> str_starts_with (CHR ''/'') suf)"

record odata_type =
  ot_namespace :: "string list"
  ot_type_name :: string

definition odata_type_parse_from :: "json \<Rightarrow> odata_type option" where
  "odata_type_parse_from v = do {
     v \<leftarrow> json_get v ''@odata.type'';
     v \<leftarrow> json_as_str v;
     v \<leftarrow> str_strip_prefix ''#'' v;
     (case vec_pop (str_split (CHR ''.'') v) of
        (Some type_name, all) \<Rightarrow> Some \<lparr>ot_namespace = all, ot_type_name = type_name\<rparr>
      | (None, _) \<Rightarrow> None)
   }"

section \<open>Paths and their segments\<close>

lemma str_split_slashes: "str_split c (t @ replicate n c) = str_split c t @ replicate n []"
proof (induction n arbitrary: t)
  case (Suc n)
  have "t @ replicate (Suc n) c = (t @ replicate n c) @ c # []"
    by (simp add: replicate_append_same)
  then have "str_split c (t @ replicate (Suc n) c) = str_split c (t @ replicate n c) @ [[]]"
    by (simp only: str_split_append str_split.simps)
  with Suc show ?case by (simp add: replicate_append_same)
qed simp

lemma str_split_last_ne:
  assumes "t \<noteq> []" and "last t \<noteq> c"
  shows "last (str_split c t) \<noteq> []"
proof
  assume *: "last (str_split c t) = []"
  show False
  proof (cases "str_rsplit_once c t")
    case None
    then have "c \<notin> set t" by (simp add: str_rsplit_once_None)
    with * assms(1) show False by (simp add: str_split_no_sep)
  next
    case (Some p)
    then obtain a b where p: "t = a @ c # b" "c \<notin> set b" by (cases p) (auto simp: str_rsplit_once_Some)
    with * have "b = []" by (simp add: str_split_append str_split_no_sep)
    with p(1) assms(2) show False by simp
  qed
qed

text \<open>A path is its trimmed form and slashes; the trimmed form ends in a segment that is not empty.\<close>

lemma path_cases:
  obtains (slashes) n where "p = replicate n (CHR ''/'')" "str_trim_end_matches (CHR ''/'') p = []"
  | (path) t n where "str_trim_end_matches (CHR ''/'') p = t" "t \<noteq> []" "p = t @ replicate n (CHR ''/'')"
      "str_split (CHR ''/'') p = str_split (CHR ''/'') t @ replicate n []" "last (str_split (CHR ''/'') t) \<noteq> []"
proof -
  obtain n where n: "p = str_trim_end_matches (CHR ''/'') p @ replicate n (CHR ''/'')"
    using str_trim_end_split [of p "CHR ''/''"] by blast
  show thesis
  proof (cases "str_trim_end_matches (CHR ''/'') p = []")
    case True
    with n show thesis by (intro slashes [of n]) simp_all
  next
    case False
    then have "last (str_split (CHR ''/'') (str_trim_end_matches (CHR ''/'') p)) \<noteq> []"
      by (intro str_split_last_ne str_trim_end_not_last)
    then show thesis
      using n False str_split_slashes [of "CHR ''/''" "str_trim_end_matches (CHR ''/'') p" n]
      by (intro path [of "str_trim_end_matches (CHR ''/'') p" n]) simp_all
  qed
qed

text \<open>The segments of a prefix that ends at a slash or at the end of the path.\<close>

lemma split_prefix_iff:
  "prefix (str_split c t) (str_split c s) \<longleftrightarrow> s = t \<or> (\<exists>r. s = t @ c # r)"
proof
  assume "prefix (str_split c t) (str_split c s)"
  then obtain rest where r: "str_split c s = str_split c t @ rest" by (auto elim: prefixE)
  have s: "s = str_join c (str_split c t @ rest)" using str_join_split [of c s] r by simp
  have join: "str_join c (xs @ ys) = str_join c xs @ c # str_join c ys" if "xs \<noteq> []" "ys \<noteq> []" for xs ys
    using that by (induction xs rule: str_join.induct) (auto simp: str_join_Cons)
  show "s = t \<or> (\<exists>r. s = t @ c # r)"
  proof (cases rest)
    case (Cons x xs)
    with s join [of "str_split c t" rest] show ?thesis by auto
  qed (use s in simp)
next
  assume "s = t \<or> (\<exists>r. s = t @ c # r)"
  then show "prefix (str_split c t) (str_split c s)" by (auto simp: str_split_append)
qed

lemma strip_prefix_slash:
  "(case str_strip_prefix t s of None \<Rightarrow> False | Some suf \<Rightarrow> suf = [] \<or> str_starts_with c suf) \<longleftrightarrow>
   s = t \<or> (\<exists>r. s = t @ c # r)"
  by (auto simp: str_strip_prefix_def str_starts_with_def prefix_def split: if_splits)
    (metis list.collapse)

text \<open>The last segment of a path is its last segment that is not empty, and there is none only when all are.\<close>

theorem odata_last_segment:
  "last_segment p =
     (let segs = filter (\<lambda>seg. seg \<noteq> []) (str_split (CHR ''/'') p) in
      if segs = [] then None else Some (last segs))"
proof (cases p rule: path_cases)
  case (slashes n)
  have "str_split (CHR ''/'') p = [] # replicate n []"
    using str_split_slashes [of "CHR ''/''" "[]" n] slashes(1) by simp
  with slashes(2) show ?thesis
    by (simp add: last_segment_def str_rsplit_once_def str_split_once_def filter_empty_conv)
next
  case (path t n)
  have segs: "filter (\<lambda>seg. seg \<noteq> []) (str_split (CHR ''/'') p) = filter (\<lambda>seg. seg \<noteq> []) (str_split (CHR ''/'') t)"
    using path(4) by (simp add: filter_empty_conv)
  obtain ys y where ys: "str_split (CHR ''/'') t = ys @ [y]" "y \<noteq> []"
    using path(5) by (cases "str_split (CHR ''/'') t" rule: rev_cases) auto
  have "last_segment p = Some (last (str_split (CHR ''/'') t))"
    using path(1,2) str_rsplit_last [where c = "CHR ''/''" and s = t]
    by (cases "str_rsplit_once (CHR ''/'') t") (auto simp: last_segment_def)
  with segs ys show ?thesis by (simp add: filter_empty_conv)
qed

text \<open>
  The prefix test is the one on segments: but for the slashes at its end, the first path's segments are
  the first segments of the second; a path of slashes only is a prefix of every absolute path.
\<close>

theorem odata_path_prefix_segments:
  "is_path_prefix p q \<longleftrightarrow>
     (if str_trim_end_matches (CHR ''/'') p = [] then p \<noteq> [] \<and> str_starts_with (CHR ''/'') q
      else prefix (str_split (CHR ''/'') (str_trim_end_matches (CHR ''/'') p)) (str_split (CHR ''/'') q))"
proof (cases p rule: path_cases)
  case (slashes n)
  then show ?thesis by (cases n) (auto simp: is_path_prefix_def str_starts_with_def)
next
  case (path t n)
  then show ?thesis by (simp add: is_path_prefix_def strip_prefix_slash split_prefix_iff)
qed

text \<open>Every path but the empty one is a prefix of itself.\<close>

lemma path_prefix_refl: "is_path_prefix p p \<longleftrightarrow> p \<noteq> []"
proof (cases p rule: path_cases)
  case (slashes n)
  then show ?thesis by (cases n) (auto simp: is_path_prefix_def str_starts_with_def)
next
  case (path t n)
  then show ?thesis
    by (cases n) (auto simp: is_path_prefix_def strip_prefix_slash)
qed

text \<open>
  The type of a document is the one its \<open>@odata.type\<close> spells: namespace and name, joined by dots after a
  number sign, parse back to exactly these, and nothing else parses.
\<close>

theorem odata_type_roundtrip:
  "odata_type_parse_from v = Some \<lparr>ot_namespace = ns, ot_type_name = name\<rparr> \<longleftrightarrow>
     json_get v ''@odata.type'' = Some (JString (CHR ''#'' # str_join (CHR ''.'') (ns @ [name]))) \<and>
     (\<forall>seg \<in> set (ns @ [name]). CHR ''.'' \<notin> set seg)"
proof
  assume "odata_type_parse_from v = Some \<lparr>ot_namespace = ns, ot_type_name = name\<rparr>"
  then obtain j s t where j: "json_get v ''@odata.type'' = Some j" "json_as_str j = Some s"
      "str_strip_prefix ''#'' s = Some t" "str_split (CHR ''.'') t = ns @ [name]"
    by (auto simp: odata_type_parse_from_def vec_pop_def split: Option.bind_splits if_splits)
  have "j = JString s" using j(2) by (cases j) simp_all
  moreover have "s = CHR ''#'' # t"
    using j(3) by (auto simp: str_strip_prefix_def prefix_def split: if_splits)
  moreover have "t = str_join (CHR ''.'') (ns @ [name])" using str_join_split [of "CHR ''.''" t] j(4) by simp
  moreover have "\<forall>seg \<in> set (ns @ [name]). CHR ''.'' \<notin> set seg"
    using str_split_segments [where c = "CHR ''.''" and s = t] j(4) by auto
  ultimately show "json_get v ''@odata.type'' = Some (JString (CHR ''#'' # str_join (CHR ''.'') (ns @ [name]))) \<and>
      (\<forall>seg \<in> set (ns @ [name]). CHR ''.'' \<notin> set seg)" using j(1) by simp
next
  assume *: "json_get v ''@odata.type'' = Some (JString (CHR ''#'' # str_join (CHR ''.'') (ns @ [name]))) \<and>
      (\<forall>seg \<in> set (ns @ [name]). CHR ''.'' \<notin> set seg)"
  then have "str_split (CHR ''.'') (str_join (CHR ''.'') (ns @ [name])) = ns @ [name]"
    by (intro str_split_join) auto
  with * show "odata_type_parse_from v = Some \<lparr>ot_namespace = ns, ot_type_name = name\<rparr>"
    by (simp add: odata_type_parse_from_def str_strip_prefix_def vec_pop_def)
qed

theorem odata_type_roundtrip_witness:
  "odata_type_parse_from (JObject [(''@odata.type'', JString ''#Task.v1_4_3.Task'')]) =
     Some \<lparr>ot_namespace = [''Task'', ''v1_4_3''], ot_type_name = ''Task''\<rparr>"
  by (subst odata_type_roundtrip) simp

end
