(* ===== verification/Success_Message.thy ===== *)
theory Success_Message
  imports OData
begin

text \<open>
  Success messages (\<open>bmc-http/src/response.rs\<close>): what a response body that is a Redfish message reports. The code
  folds over status objects and messages with a record of what they name; the properties give the
  result as the documentation does, by what the body contains.
\<close>

datatype outcome_code = Success | Created | NoOperation | ResetRequired

definition message_key :: "string \<Rightarrow> string" where
  "message_key id_text = (case str_rsplit_once (CHR ''.'') id_text of Some (_, k) \<Rightarrow> k | None \<Rightarrow> id_text)"

definition success_code_of :: "string \<Rightarrow> outcome_code option" where
  "success_code_of message_id =
     (let k = message_key message_id in
      if k = ''Success'' then Some Success
      else if k = ''Created'' then Some Created
      else if k = ''NoOperation'' then Some NoOperation
      else if k = ''ResetRequired'' \<and> hd (str_split (CHR ''.'') message_id) = ''Base'' then Some ResetRequired
      else None)"

fun precedence :: "outcome_code \<Rightarrow> nat" where
  "precedence NoOperation = 0"
| "precedence Success = 1"
| "precedence ResetRequired = 2"
| "precedence Created = 3"

definition allows :: "outcome_code \<Rightarrow> string \<Rightarrow> bool" where
  "allows code severity =
     (if severity = ''OK'' then True
      else if severity = ''Warning'' then code = NoOperation \<or> code = ResetRequired
      else False)"

record names =
  nm_listed :: bool
  nm_code :: "outcome_code option"
  nm_no_operation :: bool
  nm_other :: bool

definition names_default :: names where
  "names_default = \<lparr>nm_listed = False, nm_code = None, nm_no_operation = False, nm_other = False\<rparr>"

definition names_name :: "names \<Rightarrow> outcome_code \<Rightarrow> names" where
  "names_name self code =
     (let self = self\<lparr>nm_no_operation := nm_no_operation self \<or> code = NoOperation\<rparr> in
      if (case nm_code self of None \<Rightarrow> True | Some named \<Rightarrow> precedence named < precedence code)
      then self\<lparr>nm_code := Some code\<rparr> else self)"

definition names_add :: "names \<Rightarrow> names \<Rightarrow> names" where
  "names_add self other =
     (let self = (case nm_code other of Some code \<Rightarrow> names_name self code | None \<Rightarrow> self);
          self = self\<lparr>nm_no_operation := nm_no_operation self \<or> nm_no_operation other\<rparr>
      in self\<lparr>nm_other := nm_other self \<or> nm_other other\<rparr>)"

definition severities :: "json \<Rightarrow> string option list" where
  "severities message =
     map (\<lambda>property. Option.bind (json_get message property) json_as_str) [''MessageSeverity'', ''Severity'']"

fun scan_messages :: "names \<Rightarrow> json list \<Rightarrow> names option" where
  "scan_messages names [] = Some names"
| "scan_messages names (message # rest) =
     (if Some ''Critical'' \<in> set (severities message) then None
      else do {
        message_id \<leftarrow> json_get message ''MessageId'';
        message_id \<leftarrow> json_as_str message_id;
        scan_messages
          (case success_code_of message_id of
             Some code \<Rightarrow>
               (let names = names_name names code in
                names\<lparr>nm_other := nm_other names \<or>
                  (\<exists>s \<in> set (severities message). case s of None \<Rightarrow> False | Some severity \<Rightarrow> \<not> allows code severity)\<rparr>)
           | None \<Rightarrow> names\<lparr>nm_other := True\<rparr>)
          rest
      })"

text \<open>A property that is present and not null.\<close>

definition get_present :: "json \<Rightarrow> string \<Rightarrow> json option" where
  "get_present v property =
     (case json_get v property of
        None \<Rightarrow> None
      | Some x \<Rightarrow> if json_is_null x then None else Some x)"

definition messages :: "json \<Rightarrow> names option" where
  "messages v =
     (case get_present v ''@Message.ExtendedInfo'' of
        None \<Rightarrow> Some names_default
      | Some ms \<Rightarrow> do {
          ms \<leftarrow> json_as_array ms;
          scan_messages (names_default\<lparr>nm_listed := True\<rparr>) ms
        })"

record report_result =
  rp_code :: outcome_code
  rp_qualified :: bool

fun scan_statuses :: "json list \<Rightarrow> names \<Rightarrow> names \<Rightarrow> (names \<times> names) option" where
  "scan_statuses [] named status_codes = Some (named, status_codes)"
| "scan_statuses (status # rest) named status_codes = do {
     status_messages \<leftarrow> messages status;
     code \<leftarrow> json_get status ''code'';
     code \<leftarrow> json_as_str code;
     code \<leftarrow> success_code_of code;
     scan_statuses rest (names_add named status_messages) (names_name status_codes code)
   }"

definition statuses :: "json \<Rightarrow> json list" where
  "statuses body = List.map_filter (get_present body) [''error'', ''Success'']"

definition report :: "json \<Rightarrow> report_result option" where
  "report body = do {
     body_messages \<leftarrow> messages body;
     (named, status_codes) \<leftarrow> scan_statuses (statuses body) body_messages names_default;
     let named = names_add named status_codes;
     code \<leftarrow> (case nm_code status_codes of
        Some code \<Rightarrow> Some (Some code)
      | None \<Rightarrow> if nm_listed body_messages then Some (nm_code body_messages) else None);
     let mixed = (if code = Some NoOperation then nm_code named \<noteq> Some NoOperation else nm_no_operation named);
     Some \<lparr>rp_code = (case code of Some c \<Rightarrow> c | None \<Rightarrow> Success),
           rp_qualified = (code = None \<or> nm_other named \<or> mixed)\<rparr>
   }"

definition success_code :: "json \<Rightarrow> outcome_code option" where
  "success_code body = map_option rp_code (report body)"

definition strict_success_code :: "json \<Rightarrow> outcome_code option" where
  "strict_success_code body =
     (case report body of
        None \<Rightarrow> None
      | Some r \<Rightarrow> if \<not> rp_qualified r then Some (rp_code r) else None)"

definition is_message_envelope :: "json \<Rightarrow> bool" where
  "is_message_envelope body \<longleftrightarrow>
     (\<exists>property \<in> set [''error'', ''Success'', ''@Message.ExtendedInfo'']. get_present body property \<noteq> None)"

section \<open>What a body contains\<close>

definition message_list :: "json \<Rightarrow> json list" where
  "message_list v = (case get_present v ''@Message.ExtendedInfo'' of Some (JArray ms) \<Rightarrow> ms | _ \<Rightarrow> [])"

definition named_by :: "json \<Rightarrow> outcome_code option" where
  "named_by message = do {
     i \<leftarrow> json_get message ''MessageId''; i \<leftarrow> json_as_str i; success_code_of i }"

definition status_names :: "json \<Rightarrow> outcome_code option" where
  "status_names status = do {
     c \<leftarrow> json_get status ''code''; c \<leftarrow> json_as_str c; success_code_of c }"

text \<open>A message that does not make the body a failure: not critical, and with an identity.\<close>

definition readable_message :: "json \<Rightarrow> bool" where
  "readable_message message \<longleftrightarrow>
     Some ''Critical'' \<notin> set (severities message) \<and>
     (case json_get message ''MessageId'' of Some (JString _) \<Rightarrow> True | _ \<Rightarrow> False)"

definition readable :: "json \<Rightarrow> bool" where
  "readable v \<longleftrightarrow>
     (case get_present v ''@Message.ExtendedInfo'' of
        None \<Rightarrow> True
      | Some (JArray ms) \<Rightarrow> list_all readable_message ms
      | _ \<Rightarrow> False)"

text \<open>A message that names an outcome with no severity worse than the outcome's.\<close>

definition plain_message :: "json \<Rightarrow> bool" where
  "plain_message message \<longleftrightarrow>
     (\<exists>code. named_by message = Some code \<and>
        (\<forall>s \<in> set (severities message). case s of None \<Rightarrow> True | Some severity \<Rightarrow> allows code severity))"

definition codes_in :: "json \<Rightarrow> outcome_code list" where
  "codes_in v = List.map_filter named_by (message_list v)"

definition codes_of_statuses :: "json \<Rightarrow> outcome_code list" where
  "codes_of_statuses body = List.map_filter status_names (statuses body)"

text \<open>The codes that the status objects and all messages of a body name, and all those messages.\<close>

definition all_codes :: "json \<Rightarrow> outcome_code list" where
  "all_codes body = codes_in body @ concat (map codes_in (statuses body)) @ codes_of_statuses body"

definition all_messages :: "json \<Rightarrow> json list" where
  "all_messages body = message_list body @ concat (map message_list (statuses body))"

definition well_formed :: "json \<Rightarrow> bool" where
  "well_formed body \<longleftrightarrow>
     readable body \<and> list_all (\<lambda>s. readable s \<and> status_names s \<noteq> None) (statuses body)"

text \<open>Codes are ordered by their precedence.\<close>

instantiation outcome_code :: linorder
begin

definition less_eq_outcome_code :: "outcome_code \<Rightarrow> outcome_code \<Rightarrow> bool" where
  "c \<le> d \<longleftrightarrow> precedence c \<le> precedence d"

definition less_outcome_code :: "outcome_code \<Rightarrow> outcome_code \<Rightarrow> bool" where
  "c < d \<longleftrightarrow> precedence c < precedence d"

instance
proof
  show "c = d" if "c \<le> d" "d \<le> c" for c d :: outcome_code
    using that by (cases c; cases d) (simp_all add: less_eq_outcome_code_def)
qed (auto simp: less_eq_outcome_code_def less_outcome_code_def)

end

definition best :: "outcome_code set \<Rightarrow> outcome_code option" where
  "best C = (if C = {} then None else Some (Max C))"

lemma no_operation_least: "NoOperation \<le> c"
  by (simp add: less_eq_outcome_code_def)

section \<open>The record of names\<close>

text \<open>A record summarises a set of codes: its best one, and whether \<open>NoOperation\<close> is one of them.\<close>

definition summary :: "names \<Rightarrow> outcome_code set \<Rightarrow> bool" where
  "summary n C \<longleftrightarrow> finite C \<and> nm_code n = best C \<and> (nm_no_operation n \<longleftrightarrow> NoOperation \<in> C)"

lemma summary_default: "summary names_default {}"
  by (simp add: summary_def names_default_def best_def)

lemma summary_update [simp]:
  "summary (n\<lparr>nm_other := b\<rparr>) C = summary n C" "summary (n\<lparr>nm_listed := b\<rparr>) C = summary n C"
  by (simp_all add: summary_def)

lemma names_name_frame [simp]:
  "nm_other (names_name n c) = nm_other n" "nm_listed (names_name n c) = nm_listed n"
  "nm_no_operation (names_name n c) = (nm_no_operation n \<or> NoOperation = c)"
  "nm_code (names_name n c) = (case nm_code n of None \<Rightarrow> Some c | Some m \<Rightarrow> Some (if c \<le> m then m else c))"
  by (auto simp: names_name_def Let_def less_eq_outcome_code_def split: option.split)

lemma summary_name: "summary n C \<Longrightarrow> summary (names_name n c) (insert c C)"
  by (cases "C = {}") (auto simp: summary_def best_def max_def)

lemma summary_add:
  assumes a: "summary a A" and b: "summary b B"
  shows "summary (names_add a b) (A \<union> B)"
proof (cases "B = {}")
  case True
  then have "nm_code b = None" "\<not> nm_no_operation b" using b by (simp_all add: summary_def best_def)
  with a True show ?thesis by (simp add: names_add_def summary_def)
next
  case False
  then have "nm_code b = Some (Max B)" "nm_no_operation b = (NoOperation \<in> B)" "finite B"
    using b by (simp_all add: summary_def best_def)
  moreover have "summary (names_name a (Max B)) (insert (Max B) A)" using a by (rule summary_name)
  moreover have "best (insert (Max B) A) = best (A \<union> B)"
    using a False \<open>finite B\<close> by (cases "A = {}") (auto simp: best_def summary_def Max_Un max.commute)
  moreover have "Max B \<in> B" using False \<open>finite B\<close> by simp
  ultimately show ?thesis using a by (auto simp: names_add_def summary_def)
qed

lemma names_add_frame [simp]:
  "nm_other (names_add a b) = (nm_other a \<or> nm_other b)" "nm_listed (names_add a b) = nm_listed a"
  by (simp_all add: names_add_def Let_def split: option.split)

lemma readable_id:
  assumes "readable_message m"
  obtains i where "json_get m ''MessageId'' = Some (JString i)" "named_by m = success_code_of i"
  using assms by (auto simp: readable_message_def named_by_def split: option.splits json.splits)

lemma scan_messages_ok:
  assumes "list_all readable_message ms" and "summary n C"
  shows "\<exists>n'. scan_messages n ms = Some n' \<and> summary n' (C \<union> set (List.map_filter named_by ms)) \<and>
    nm_other n' = (nm_other n \<or> \<not> list_all plain_message ms) \<and> nm_listed n' = nm_listed n"
  using assms
proof (induction ms arbitrary: n C)
  case (Cons m ms)
  obtain i where i: "json_get m ''MessageId'' = Some (JString i)" "named_by m = success_code_of i"
    using Cons.prems(1) by (auto elim: readable_id)
  have crit: "Some ''Critical'' \<notin> set (severities m)" using Cons.prems(1) by (simp add: readable_message_def)
  have rest: "list_all readable_message ms" using Cons.prems(1) by simp
  show ?case
  proof (cases "success_code_of i")
    case None
    with Cons.IH [OF rest, of "n\<lparr>nm_other := True\<rparr>" C] Cons.prems(2) i crit show ?thesis
      by (auto simp: map_filter_simps plain_message_def)
  next
    case (Some c)
    let ?bad = "\<exists>s \<in> set (severities m). case s of None \<Rightarrow> False | Some severity \<Rightarrow> \<not> allows c severity"
    have plain: "plain_message m \<longleftrightarrow> \<not> ?bad"
      using i(2) Some by (auto simp: plain_message_def split: option.splits)
    have "summary ((names_name n c)\<lparr>nm_other := nm_other n \<or> ?bad\<rparr>) (insert c C)"
      using Cons.prems(2) by (simp add: summary_name)
    from Cons.IH [OF rest this] Some i crit plain show ?thesis
      by (auto simp: map_filter_simps Let_def)
  qed
qed (simp add: map_filter_simps)

lemma scan_messages_fail: "\<not> list_all readable_message ms \<Longrightarrow> scan_messages n ms = None"
proof (induction ms arbitrary: n)
  case (Cons m ms)
  show ?case
  proof (cases "readable_message m")
    case True
    then show ?thesis using Cons by (auto elim!: readable_id)
  next
    case False
    then show ?thesis
      by (auto simp: readable_message_def split: option.splits json.splits)
  qed
qed simp

lemma messages_ok:
  assumes "readable v"
  shows "\<exists>n. messages v = Some n \<and> summary n (set (codes_in v)) \<and>
    nm_other n = (\<not> list_all plain_message (message_list v)) \<and>
    nm_listed n = (get_present v ''@Message.ExtendedInfo'' \<noteq> None)"
proof (cases "get_present v ''@Message.ExtendedInfo''")
  case None
  then show ?thesis using summary_default
    by (simp add: messages_def codes_in_def message_list_def map_filter_simps names_default_def)
next
  case (Some x)
  then obtain ms where ms: "x = JArray ms" "list_all readable_message ms"
    using assms by (auto simp: readable_def split: json.splits)
  have "summary (names_default\<lparr>nm_listed := True\<rparr>) {}" using summary_default by simp
  from scan_messages_ok [OF ms(2) this] Some ms(1)
  show ?thesis by (auto simp: messages_def codes_in_def message_list_def names_default_def)
qed

lemma messages_fail: "\<not> readable v \<Longrightarrow> messages v = None"
  by (auto simp: readable_def messages_def scan_messages_fail split: option.splits json.splits)

lemma scan_statuses_ok:
  assumes "list_all (\<lambda>s. readable s \<and> status_names s \<noteq> None) ss" and "summary named A" and "summary codes B"
  shows "\<exists>named' codes'. scan_statuses ss named codes = Some (named', codes') \<and>
    summary named' (A \<union> set (concat (map codes_in ss))) \<and>
    summary codes' (B \<union> set (List.map_filter status_names ss)) \<and>
    nm_other named' = (nm_other named \<or> \<not> list_all plain_message (concat (map message_list ss))) \<and>
    nm_other codes' = nm_other codes"
  using assms
proof (induction ss arbitrary: named codes A B)
  case (Cons s ss)
  obtain n where n: "messages s = Some n" "summary n (set (codes_in s))"
      "nm_other n = (\<not> list_all plain_message (message_list s))"
    using Cons.prems(1) messages_ok [of s] by auto
  obtain j i c where c: "json_get s ''code'' = Some j" "json_as_str j = Some i" "success_code_of i = Some c"
      "status_names s = Some c"
    using Cons.prems(1) by (auto simp: status_names_def split: Option.bind_splits)
  have "list_all (\<lambda>s. readable s \<and> status_names s \<noteq> None) ss" using Cons.prems(1) by simp
  from Cons.IH [OF this summary_add [OF Cons.prems(2) n(2)] summary_name [OF Cons.prems(3), of c]] n c
  show ?case by (auto simp: map_filter_simps Un_assoc)
qed (simp add: map_filter_simps)

lemma scan_statuses_fail:
  "\<not> list_all (\<lambda>s. readable s \<and> status_names s \<noteq> None) ss \<Longrightarrow> scan_statuses ss named codes = None"
proof (induction ss arbitrary: named codes)
  case (Cons s ss)
  show ?case
  proof (cases "readable s \<and> status_names s \<noteq> None")
    case True
    then show ?thesis using Cons by (auto split: Option.bind_splits)
  next
    case False
    then show ?thesis
      by (auto simp: messages_fail status_names_def split: Option.bind_splits)
  qed
qed simp

section \<open>The report\<close>

lemma best_no_operation: "finite C \<Longrightarrow> best C = Some NoOperation \<longleftrightarrow> C = {NoOperation}"
proof
  assume C: "finite C" "best C = Some NoOperation"
  then have ne: "C \<noteq> {}" and m: "Max C = NoOperation" by (auto simp: best_def split: if_splits)
  have "c = NoOperation" if "c \<in> C" for c
    using Max_ge [OF C(1) that] no_operation_least [of c] m by simp
  with ne show "C = {NoOperation}" by blast
qed (simp add: best_def)

lemma best_mem: "finite C \<Longrightarrow> best C = Some c \<Longrightarrow> c \<in> C"
  using Max_in by (fastforce simp: best_def split: if_splits)

text \<open>Both ways in which the code looks for \<open>NoOperation\<close> beside another code say that there are two of them.\<close>

lemma mixed_iff:
  assumes "finite C" and "code \<in> C"
  shows "(if code = NoOperation then best C \<noteq> Some NoOperation else NoOperation \<in> C) \<longleftrightarrow>
    \<not> (NoOperation \<notin> C \<or> C \<subseteq> {NoOperation})"
  using assms by (auto simp: best_no_operation)

lemma status_codes_empty: "well_formed body \<Longrightarrow> codes_of_statuses body = [] \<longleftrightarrow> statuses body = []"
  by (cases "statuses body") (auto simp: well_formed_def codes_of_statuses_def map_filter_simps)

lemma report_fail: "\<not> well_formed body \<Longrightarrow> report body = None"
  using messages_fail [of body] scan_statuses_fail [of "statuses body"]
  by (auto simp: well_formed_def report_def split: Option.bind_splits)

lemma report_ok:
  assumes wf: "well_formed body"
  shows "report body =
    (let code = best (set (if statuses body \<noteq> [] then codes_of_statuses body else codes_in body)) in
     if statuses body = [] \<and> get_present body ''@Message.ExtendedInfo'' = None then None
     else Some \<lparr>rp_code = (case code of Some c \<Rightarrow> c | None \<Rightarrow> Success),
       rp_qualified = (code = None \<or> \<not> list_all plain_message (all_messages body) \<or>
         \<not> (NoOperation \<notin> set (all_codes body) \<or> set (all_codes body) \<subseteq> {NoOperation}))\<rparr>)"
proof -
  have "readable body" "list_all (\<lambda>s. readable s \<and> status_names s \<noteq> None) (statuses body)"
    using wf by (simp_all add: well_formed_def)
  obtain n where n: "messages body = Some n" "summary n (set (codes_in body))"
      "nm_other n = (\<not> list_all plain_message (message_list body))"
      "nm_listed n = (get_present body ''@Message.ExtendedInfo'' \<noteq> None)"
    using messages_ok [OF \<open>readable body\<close>] by blast
  obtain named sc where s: "scan_statuses (statuses body) n names_default = Some (named, sc)"
      "summary named (set (codes_in body) \<union> set (concat (map codes_in (statuses body))))"
      "summary sc (set (codes_of_statuses body))"
      "nm_other named = (nm_other n \<or> \<not> list_all plain_message (concat (map message_list (statuses body))))"
      "nm_other sc = False"
    using scan_statuses_ok [OF \<open>list_all _ (statuses body)\<close> n(2) summary_default]
    by (auto simp: codes_of_statuses_def names_default_def)
  let ?all = "set (all_codes body)"
  have all: "summary (names_add named sc) ?all"
    using summary_add [OF s(2,3)] by (simp add: all_codes_def Un_assoc)
  have other: "nm_other (names_add named sc) = (\<not> list_all plain_message (all_messages body))"
    using n(3) s(4,5) by (auto simp: all_messages_def)
  let ?code = "best (set (if statuses body \<noteq> [] then codes_of_statuses body else codes_in body))"
  have codes: "nm_code sc = best (set (codes_of_statuses body))" "nm_code n = best (set (codes_in body))"
    "nm_code (names_add named sc) = best ?all" "nm_no_operation (names_add named sc) = (NoOperation \<in> ?all)"
    using s(3) n(2) all by (simp_all add: summary_def)
  have mixed: "(if ?code = Some NoOperation then best ?all \<noteq> Some NoOperation else NoOperation \<in> ?all) \<longleftrightarrow>
      \<not> (NoOperation \<notin> ?all \<or> ?all \<subseteq> {NoOperation})" if ne: "?code \<noteq> None"
  proof -
    obtain c where c: "?code = Some c" using ne by blast
    then have "c \<in> ?all" using best_mem [OF _ c] by (auto simp: all_codes_def split: if_splits)
    from mixed_iff [OF _ this] c show ?thesis by simp
  qed
  have none: "statuses body = [] \<longleftrightarrow> best (set (codes_of_statuses body)) = None"
    using status_codes_empty [OF wf] by (simp add: best_def)
  show ?thesis
  proof (cases "statuses body = []")
    case True
    then have st: "nm_code sc = None" using none codes(1) by simp
    show ?thesis
    proof (cases "best (set (codes_in body))")
      case None
      with True st n s(1) codes other show ?thesis by (simp add: report_def Let_def del: names_add_frame scan_statuses.simps)
    next
      case (Some c)
      with True st n s(1) codes other mixed show ?thesis
        by (cases "c = NoOperation") (simp_all add: report_def Let_def del: names_add_frame scan_statuses.simps)
    qed
  next
    case False
    then obtain c where c: "best (set (codes_of_statuses body)) = Some c" using none by blast
    with False n s(1) codes other mixed show ?thesis
      by (cases "c = NoOperation") (simp_all add: report_def Let_def del: names_add_frame scan_statuses.simps)
  qed
qed

lemma success_code_eq:
  "success_code body =
     (if \<not> well_formed body then None
      else if statuses body \<noteq> [] then best (set (codes_of_statuses body))
      else if get_present body ''@Message.ExtendedInfo'' = None then None
      else if codes_in body = [] then Some Success
      else best (set (codes_in body)))"
proof (cases "well_formed body")
  case True
  have "statuses body \<noteq> [] \<Longrightarrow> codes_of_statuses body \<noteq> []" using status_codes_empty [OF True] by simp
  with True show ?thesis
    by (auto simp: success_code_def report_ok best_def Let_def)
qed (simp add: success_code_def report_fail)

text \<open>
  C32. The code a body reports is the one the documentation gives. A body is not a success when a message is
  critical or has no identity, or a status object names no success code. Otherwise it reports the
  highest code of its status objects, or without one the highest its messages name, \<open>Success\<close> if they
  name none; a body with neither reports nothing.
\<close>

theorem success_code_spec:
  "success_code body =
     (if \<not> well_formed body then None
      else if statuses body \<noteq> [] then best (set (codes_of_statuses body))
      else if get_present body ''@Message.ExtendedInfo'' = None then None
      else if codes_in body = [] then Some Success
      else best (set (codes_in body)))"
  by (rule success_code_eq)

text \<open>
  The strict code is that code, when a status object or a message names it, every message names an outcome
  and has no severity worse than its outcome's, and \<open>NoOperation\<close> is not named beside another code.
\<close>

theorem strict_success_code_spec:
  "strict_success_code body =
     (if (statuses body = [] \<longrightarrow> codes_in body \<noteq> []) \<and> list_all plain_message (all_messages body) \<and>
         (NoOperation \<in> set (all_codes body) \<longrightarrow> set (all_codes body) \<subseteq> {NoOperation})
      then success_code body else None)"
proof (cases "well_formed body")
  case True
  have "statuses body \<noteq> [] \<Longrightarrow> codes_of_statuses body \<noteq> []" using status_codes_empty [OF True] by simp
  with True show ?thesis
    by (auto simp: strict_success_code_def success_code_def report_ok best_def Let_def)
qed (simp add: strict_success_code_def success_code_def report_fail)

theorem strict_success_code_spec_witness:
  "strict_success_code (JObject [(''@Message.ExtendedInfo'',
     JArray [JObject [(''MessageId'', JString ''Base.1.8.Success''), (''MessageSeverity'', JString ''OK'')]])]) =
   Some Success"
  by (subst strict_success_code_spec)
    (simp add: success_code_eq well_formed_def readable_def readable_message_def statuses_def get_present_def
      json_is_null_def codes_in_def message_list_def all_codes_def all_messages_def codes_of_statuses_def
      plain_message_def severities_def named_by_def success_code_of_def message_key_def str_rsplit_once_def
      str_split_once_def allows_def map_filter_simps best_def)

text \<open>\<open>NoOperation\<close> beside \<open>ResetRequired\<close> is refused too, although both are warnings of the Base registry.\<close>

lemma strict_no_operation_reset:
  "strict_success_code (JObject [(''@Message.ExtendedInfo'',
     JArray [JObject [(''MessageId'', JString ''Base.1.8.NoOperation'')],
             JObject [(''MessageId'', JString ''Base.1.8.ResetRequired'')]])]) = None"
  by (simp add: strict_success_code_def report_def messages_def get_present_def json_is_null_def severities_def
      success_code_of_def message_key_def str_rsplit_once_def str_split_once_def names_default_def names_name_def
      statuses_def map_filter_simps names_add_def)

end
