(* ===== verification/Response.thy ===== *)
theory Response
  imports Success_Message
begin

text \<open>
  Decoding of HTTP responses (\<open>bmc-http/src/response.rs\<close>, with the response types of \<open>core/src/lib.rs\<close> and the error
  classes of \<open>core/src/bmc.rs\<close>). URLs, header values, the JSON parser and the deserializer of the
  requested type belong to other crates: they are the fields of \<open>http_env\<close>, and every theorem holds for all of them.
\<close>

record ('url, 'origin, 'hv, 'je, 'de, 't) http_env =
  env_join :: "'url \<Rightarrow> string \<Rightarrow> 'url option"
  env_origin :: "'url \<Rightarrow> 'origin"
  env_path :: "'url \<Rightarrow> string"
  env_query :: "'url \<Rightarrow> string option"
  env_to_str :: "'hv \<Rightarrow> string option"
  env_is_success :: "nat \<Rightarrow> bool"
  env_show_status :: "nat \<Rightarrow> string"
  env_from_slice :: "string \<Rightarrow> 'je + json"
  env_deserialize :: "json \<Rightarrow> 'de + 't"

type_synonym 'hv header_map = "string \<Rightarrow> 'hv option"

datatype ('url, 'je, 'de) modification_decode_error =
    InvalidResponse 'url nat string
  | Json 'je
  | Decode 'de

datatype bmc_error_class = HttpResponse nat | ResponseParse | Transport | OtherError

fun error_class :: "('url, 'je, 'de) modification_decode_error \<Rightarrow> bmc_error_class" where
  "error_class (InvalidResponse url status txt) = HttpResponse status"
| "error_class (Json e) = ResponseParse"
| "error_class (Decode e) = ResponseParse"

fun response_body :: "('url, 'je, 'de) modification_decode_error \<Rightarrow> string option" where
  "response_body (InvalidResponse url status txt) = Some txt"
| "response_body (Json e) = None"
| "response_body (Decode e) = None"

fun into_decode_error ::
  "('url, 'je, 'de) modification_decode_error \<Rightarrow> ('url, 'je, 'de) modification_decode_error + 'de" where
  "into_decode_error (Decode e) = Inr e"
| "into_decode_error other = Inl other"

record async_task =
  at_location :: odata_id
  at_retry_after :: "duration option"
  at_task :: "odata_id option"

datatype 't modification_response = Entity 't | Task async_task | Message json | Empty

fun map_entity :: "('t \<Rightarrow> 'u) \<Rightarrow> 't modification_response \<Rightarrow> 'u modification_response" where
  "map_entity f (Entity entity) = Entity (f entity)"
| "map_entity f (Task task) = Task task"
| "map_entity f (Message message) = Message message"
| "map_entity f Empty = Empty"

fun try_map_entity :: "('t \<Rightarrow> 'e + 'u) \<Rightarrow> 't modification_response \<Rightarrow> 'e + 'u modification_response" where
  "try_map_entity f (Entity entity) = (case f entity of Inl e \<Rightarrow> Inl e | Inr u \<Rightarrow> Inr (Entity u))"
| "try_map_entity f (Task task) = Inr (Task task)"
| "try_map_entity f (Message message) = Inr (Message message)"
| "try_map_entity f Empty = Inr Empty"

section \<open>Headers and references\<close>

definition odata_path_from_url :: "('url, 'origin, 'hv, 'je, 'de, 't) http_env \<Rightarrow> 'url \<Rightarrow> string" where
  "odata_path_from_url env url =
     env_path env url @ (case env_query env url of Some query \<Rightarrow> CHR ''?'' # query | None \<Rightarrow> [])"

definition same_origin_reference ::
  "('url, 'origin, 'hv, 'je, 'de, 't) http_env \<Rightarrow> string \<Rightarrow> 'url \<Rightarrow> nat \<Rightarrow> string \<Rightarrow>
   ('url, 'je, 'de) modification_decode_error + odata_id" where
  "same_origin_reference env raw response_url status what =
     (let invalid_response = (\<lambda>problem. InvalidResponse response_url status (what @ '' '' @ problem));
          raw = str_trim raw in
      if raw = [] \<or> str_starts_with (CHR ''#'') raw
      then Inl (invalid_response ''does not identify a resource'')
      else case env_join env response_url raw of
        None \<Rightarrow> Inl (invalid_response ''is not a valid URI reference'')
      | Some resolved \<Rightarrow>
          if env_origin env resolved \<noteq> env_origin env response_url
          then Inl (invalid_response ''resolves to a different origin'')
          else Inr (odata_path_from_url env resolved))"

definition location_from_headers ::
  "('url, 'origin, 'hv, 'je, 'de, 't) http_env \<Rightarrow> 'hv header_map \<Rightarrow> 'url \<Rightarrow> nat \<Rightarrow>
   ('url, 'je, 'de) modification_decode_error + odata_id option" where
  "location_from_headers env headers response_url status =
     (case headers ''location'' of
        None \<Rightarrow> Inr None
      | Some value \<Rightarrow>
          (case env_to_str env value of
             None \<Rightarrow> Inl (InvalidResponse response_url status ''Location header is not valid text'')
           | Some raw \<Rightarrow>
               (case same_origin_reference env raw response_url status ''Location header'' of
                  Inl e \<Rightarrow> Inl e
                | Inr i \<Rightarrow> Inr (Some i))))"

definition etag_from_headers ::
  "('url, 'origin, 'hv, 'je, 'de, 't) http_env \<Rightarrow> 'hv header_map \<Rightarrow> odata_etag option" where
  "etag_from_headers env headers = Option.bind (headers ''etag'') (env_to_str env)"

definition task_from_body ::
  "('url, 'origin, 'hv, 'je, 'de, 't) http_env \<Rightarrow> string \<Rightarrow> 'url \<Rightarrow> odata_id option" where
  "task_from_body env body response_url =
     (case env_from_slice env body of
        Inl _ \<Rightarrow> None
      | Inr value \<Rightarrow>
          let is_task = (case odata_type_parse_from value of
               None \<Rightarrow> False
             | Some t \<Rightarrow> vec_get (ot_namespace t) 0 = Some ''Task'' \<and> ot_type_name t = ''Task'') in
          if \<not> is_task then None
          else do {
            i \<leftarrow> json_get value ''@odata.id'';
            i \<leftarrow> json_as_str i;
            (case same_origin_reference env i response_url 202 ''Task @odata.id'' of
               Inl _ \<Rightarrow> None | Inr r \<Rightarrow> Some r)
          })"

definition retry_after_from_headers ::
  "('url, 'origin, 'hv, 'je, 'de, 't) http_env \<Rightarrow> 'hv header_map \<Rightarrow> duration option" where
  "retry_after_from_headers env headers = do {
     value \<leftarrow> headers ''retry-after'';
     v \<leftarrow> env_to_str env value;
     secs \<leftarrow> parse_u64 (str_trim v);
     Some (from_secs secs)
   }"

definition inject_etag :: "odata_etag \<Rightarrow> json \<Rightarrow> json" where
  "inject_etag etag body =
     (case body of
        JObject obj \<Rightarrow> JObject (AList.update ''@odata.etag'' (JString etag) obj)
      | _ \<Rightarrow> body)"

definition entity_reference ::
  "('url, 'origin, 'hv, 'je, 'de, 't) http_env \<Rightarrow> odata_id \<Rightarrow> 'de + 't" where
  "entity_reference env location = env_deserialize env (JObject [(''@odata.id'', JString location)])"

section \<open>Responses\<close>

text \<open>The body of a \<open>200\<close> or \<open>201\<close>: the tag of the header goes into a resource that names itself.\<close>

definition tagged_body ::
  "('url, 'origin, 'hv, 'je, 'de, 't) http_env \<Rightarrow> 'hv header_map \<Rightarrow> json \<Rightarrow> json" where
  "tagged_body env headers value =
     (if json_get value ''@odata.id'' \<noteq> None
      then (case etag_from_headers env headers of Some etag \<Rightarrow> inject_etag etag value | None \<Rightarrow> value)
      else value)"

definition decode_body ::
  "('url, 'origin, 'hv, 'je, 'de, 't) http_env \<Rightarrow> 'url \<Rightarrow> nat \<Rightarrow> 'hv header_map \<Rightarrow> string \<Rightarrow>
   ('url, 'je, 'de) modification_decode_error + odata_id option \<Rightarrow>
   ('url, 'je, 'de) modification_decode_error + 't modification_response" where
  "decode_body env url status headers body location =
     (case env_from_slice env body of
        Inl e \<Rightarrow> Inl (Json e)
      | Inr value \<Rightarrow>
          let value = tagged_body env headers value in
          (case env_deserialize env value of
             Inr entity \<Rightarrow> Inr (Entity entity)
           | Inl err \<Rightarrow>
               if success_code value \<noteq> None then
                 (case location of
                    Inl e \<Rightarrow> Inl e
                  | Inr None \<Rightarrow> Inr (Message value)
                  | Inr (Some l) \<Rightarrow>
                      (case entity_reference env l of
                         Inr entity \<Rightarrow> Inr (Entity entity)
                       | Inl _ \<Rightarrow> Inr (Message value)))
               else if is_message_envelope value
               then Inl (InvalidResponse url status (from_utf8_lossy body))
               else Inl (Decode err)))"

definition entity_at ::
  "('url, 'origin, 'hv, 'je, 'de, 't) http_env \<Rightarrow>
   ('url, 'je, 'de) modification_decode_error + odata_id option \<Rightarrow>
   ('url, 'je, 'de) modification_decode_error + 't modification_response" where
  "entity_at env location =
     (case location of
        Inl e \<Rightarrow> Inl e
      | Inr None \<Rightarrow> Inr Empty
      | Inr (Some l) \<Rightarrow>
          (case entity_reference env l of
             Inr entity \<Rightarrow> Inr (Entity entity)
           | Inl e \<Rightarrow> Inl (Decode e)))"

definition decode_modification ::
  "('url, 'origin, 'hv, 'je, 'de, 't) http_env \<Rightarrow> 'url \<Rightarrow> nat \<Rightarrow> 'hv header_map \<Rightarrow> string \<Rightarrow>
   ('url, 'je, 'de) modification_decode_error + 't modification_response" where
  "decode_modification env url status headers body =
     (if \<not> env_is_success env status then Inl (InvalidResponse url status (from_utf8_lossy body))
      else
        let location = location_from_headers env headers url status in
        if status = 204 then Inr Empty
        else if status = 202 then
          let task = task_from_body env body url in
          (case location of
             Inl e \<Rightarrow> Inl e
           | Inr found \<Rightarrow>
               (case (case found of Some l \<Rightarrow> Some l | None \<Rightarrow> task) of
                  None \<Rightarrow> Inl (InvalidResponse url status ''202 Accepted without Location header'')
                | Some task_location \<Rightarrow>
                    Inr (Task \<lparr>at_location = task_location,
                           at_retry_after = retry_after_from_headers env headers, at_task = task\<rparr>)))
        else if status = 200 \<or> status = 201 then
          (if body \<noteq> [] then decode_body env url status headers body location
           else entity_at env location)
        else Inl (InvalidResponse url status
               (''Unexpected successful status code: '' @ env_show_status env status)))"


section \<open>The origin of references\<close>

text \<open>A path that some URL of the response's origin has.\<close>

definition on_origin :: "('url, 'origin, 'hv, 'je, 'de, 't) http_env \<Rightarrow> 'url \<Rightarrow> odata_id \<Rightarrow> bool" where
  "on_origin env url i \<longleftrightarrow> (\<exists>u. env_origin env u = env_origin env url \<and> i = odata_path_from_url env u)"

lemma same_origin_reference_ok: "same_origin_reference env raw url status what = Inr i \<Longrightarrow> on_origin env url i"
  by (auto simp: same_origin_reference_def on_origin_def Let_def split: if_splits option.splits)

lemma location_on_origin: "location_from_headers env headers url status = Inr (Some i) \<Longrightarrow> on_origin env url i"
  by (auto simp: location_from_headers_def intro: same_origin_reference_ok split: option.splits sum.splits)






section \<open>Entity tags\<close>

lemma json_get_inject:
  "json_get (inject_etag etag v) k =
     (case v of JObject _ \<Rightarrow> if k = ''@odata.etag'' then Some (JString etag) else json_get v k | _ \<Rightarrow> json_get v k)"
  by (cases v) (auto simp: inject_etag_def update_conv')

lemma get_present_inject:
  "k \<noteq> ''@odata.etag'' \<Longrightarrow> get_present (inject_etag etag v) k = get_present v k"
  by (cases v) (simp_all add: get_present_def json_get_inject)

lemma message_body_inject:
  "success_code (inject_etag etag v) = success_code v"
  "is_message_envelope (inject_etag etag v) = is_message_envelope v"
proof -
  have g: "get_present (inject_etag etag v) ''error'' = get_present v ''error''"
    "get_present (inject_etag etag v) ''Success'' = get_present v ''Success''"
    "get_present (inject_etag etag v) ''@Message.ExtendedInfo'' = get_present v ''@Message.ExtendedInfo''"
    by (simp_all add: get_present_inject)
  then have s: "statuses (inject_etag etag v) = statuses v" "message_list (inject_etag etag v) = message_list v"
    "readable (inject_etag etag v) = readable v"
    by (simp_all add: statuses_def message_list_def readable_def map_filter_simps split: option.split)
  then show "success_code (inject_etag etag v) = success_code v"
    using g by (simp add: success_code_eq well_formed_def codes_of_statuses_def codes_in_def)
  show "is_message_envelope (inject_etag etag v) = is_message_envelope v"
    using g by (simp add: is_message_envelope_def)
qed

lemma message_body_tagged:
  "success_code (tagged_body env headers v) = success_code v"
  "is_message_envelope (tagged_body env headers v) = is_message_envelope v"
  by (simp_all add: tagged_body_def message_body_inject split: option.split)

text \<open>
  The tag of the header becomes the \<open>@odata.etag\<close> of a body that names its \<open>@odata.id\<close>, replacing one that
  is there; no other property changes, and neither does what the body reports as a message.
\<close>

theorem response_etag_injected:
  assumes "json_get v ''@odata.id'' = Some i" and "etag_from_headers env headers = Some etag"
  shows "json_get (tagged_body env headers v) ''@odata.etag'' = Some (JString etag) \<and>
    (\<forall>k. k \<noteq> ''@odata.etag'' \<longrightarrow> json_get (tagged_body env headers v) k = json_get v k) \<and>
    success_code (tagged_body env headers v) = success_code v"
proof -
  obtain m where "v = JObject m" using assms(1) by (cases v) simp_all
  with assms show ?thesis using message_body_tagged(1) [of env headers v]
    by (simp add: tagged_body_def json_get_inject)
qed

section \<open>Outcomes\<close>

lemma decode_body_cases:
  assumes "decode_body env url status headers body location = Inr r"
  obtains v where "env_from_slice env body = Inr v" "r \<noteq> Empty" "\<forall>t. r \<noteq> Task t"
    "\<forall>m. r = Message m \<longrightarrow> m = tagged_body env headers v \<and> success_code m \<noteq> None \<and>
       (\<exists>err. env_deserialize env m = Inl err)"
    "\<forall>x. r = Entity x \<longrightarrow> env_deserialize env (tagged_body env headers v) = Inr x \<or>
       (\<exists>l. location = Inr (Some l) \<and> entity_reference env l = Inr x)"
proof -
  obtain v where v: "env_from_slice env body = Inr v"
    using assms by (auto simp: decode_body_def split: sum.splits)
  show thesis
    by (rule that [OF v])
      (use assms v in \<open>auto simp: decode_body_def Let_def split: sum.splits option.splits if_splits\<close>)
qed

text \<open>
  C30. A response is reported as a success only when it is one: its status is \<open>200\<close>, \<open>201\<close>, \<open>202\<close> or \<open>204\<close>; a
  task comes from a \<open>202\<close>; a message is a body that reports a success code and is not of the requested type; an
  entity is the body, or the reference to a resource of the same origin; and an empty outcome has no body.
\<close>

theorem response_success_sound:
  assumes "decode_modification env url status headers body = Inr r"
  shows "env_is_success env status \<and> status \<in> {200, 201, 202, 204} \<and>
    (case r of
       Empty \<Rightarrow> status = 204 \<or> body = []
     | Task t \<Rightarrow> status = 202
     | Message m \<Rightarrow> success_code m \<noteq> None \<and> (\<exists>err. env_deserialize env m = Inl err) \<and>
         (\<exists>v. env_from_slice env body = Inr v \<and> m = tagged_body env headers v)
     | Entity x \<Rightarrow>
         (\<exists>v. env_from_slice env body = Inr v \<and> env_deserialize env (tagged_body env headers v) = Inr x) \<or>
         (\<exists>l. on_origin env url l \<and> entity_reference env l = Inr x))"
proof -
  let ?loc = "location_from_headers env headers url status"
  have succ: "env_is_success env status" using assms by (auto simp: decode_modification_def split: if_splits)
  consider "status = 204" "r = Empty" | t where "status = 202" "r = Task t"
    | "status = 200 \<or> status = 201" "body \<noteq> []" "decode_body env url status headers body ?loc = Inr r"
    | "status = 200 \<or> status = 201" "body = []" "entity_at env ?loc = Inr r"
    using assms succ by (auto simp: decode_modification_def Let_def split: if_splits sum.splits option.splits)
  then show ?thesis
  proof cases
    case 3
    from 3(3) obtain v where v: "env_from_slice env body = Inr v" "r \<noteq> Empty" "\<forall>t. r \<noteq> Task t"
      "\<forall>m. r = Message m \<longrightarrow> m = tagged_body env headers v \<and> success_code m \<noteq> None \<and>
         (\<exists>err. env_deserialize env m = Inl err)"
      "\<forall>x. r = Entity x \<longrightarrow> env_deserialize env (tagged_body env headers v) = Inr x \<or>
         (\<exists>l. ?loc = Inr (Some l) \<and> entity_reference env l = Inr x)" by (rule decode_body_cases)
    then show ?thesis using succ 3(1) by (cases r) (auto intro: location_on_origin)
  next
    case 4
    then consider "r = Empty" | l x where "?loc = Inr (Some l)" "entity_reference env l = Inr x" "r = Entity x"
      by (auto simp: entity_at_def split: sum.splits option.splits)
    then show ?thesis
    proof cases
      case (2 l x)
      have "on_origin env url l" using 2(1) by (rule location_on_origin)
      with 2 4 succ show ?thesis by auto
    qed (use 4 succ in auto)
  qed (use succ in auto)
qed

text \<open>
  C31. A response that is not a success is an error with its status and its body: one with an unsuccessful
  status, and also a \<open>200\<close> or \<open>201\<close> whose body is a message that does not report a success and is
  not of the requested type.
\<close>

theorem response_failure_reported:
  assumes "\<not> env_is_success env status \<or>
    (status \<in> {200, 201} \<and> body \<noteq> [] \<and> env_from_slice env body = Inr v \<and>
     env_deserialize env (tagged_body env headers v) = Inl err \<and> is_message_envelope v \<and> success_code v = None)"
  shows "\<exists>e. decode_modification env url status headers body = Inl e \<and>
    error_class e = HttpResponse status \<and> response_body e = Some (from_utf8_lossy body)"
  using assms by (auto simp: decode_modification_def decode_body_def Let_def message_body_tagged)

text \<open>
  A \<open>Location\<close> that the outcome does not need cannot spoil it: neither a \<open>204\<close> nor a \<open>200\<close> or
  \<open>201\<close> whose body is of the requested type depends on that header, malformed or of another origin as it may be.
\<close>

theorem response_location_irrelevant:
  assumes "status = 204 \<or>
    (status \<in> {200, 201} \<and> body \<noteq> [] \<and> env_from_slice env body = Inr v \<and>
     env_deserialize env (tagged_body env headers v) = Inr x)"
  shows "decode_modification env url status (headers(''location'' := value)) body =
    decode_modification env url status headers body"
proof -
  have "tagged_body env (headers(''location'' := value)) v = tagged_body env headers v"
    by (simp add: tagged_body_def etag_from_headers_def)
  with assms show ?thesis by (auto simp: decode_modification_def decode_body_def Let_def)
qed

section \<open>Witnesses\<close>

text \<open>
  A small world: URLs are an origin and a path, references that start with a slash stay on the origin and
  others name one; two documents parse, and every object with an \<open>@odata.id\<close> is of the requested type.
\<close>

definition demo_env :: "(string \<times> string, string, string, unit, unit, json) http_env" where
  "demo_env =
     \<lparr>env_join = (\<lambda>u raw. if str_starts_with (CHR ''/'') raw then Some (fst u, raw) else Some (raw, ''/'')),
      env_origin = fst, env_path = snd, env_query = (\<lambda>u. None), env_to_str = Some,
      env_is_success = (\<lambda>s. 200 \<le> s \<and> s < 300), env_show_status = (\<lambda>s. []),
      env_from_slice = (\<lambda>b. if b = ''S'' then Inr (JObject [(''@odata.id'', JString ''/s'')])
        else if b = ''E'' then Inr (JObject [(''error'', JObject [(''code'', JString ''Base.1.8.GeneralError'')])])
        else Inl ()),
      env_deserialize = (\<lambda>v. if json_get v ''@odata.id'' = None then Inl () else Inr v)\<rparr>"

lemma demo_env_simps [simp]:
  "env_join demo_env = (\<lambda>u raw. if str_starts_with (CHR ''/'') raw then Some (fst u, raw) else Some (raw, ''/''))"
  "env_origin demo_env = fst" "env_path demo_env = snd" "env_query demo_env = (\<lambda>u. None)"
  "env_to_str demo_env = Some" "env_is_success demo_env = (\<lambda>s. 200 \<le> s \<and> s < 300)"
  "env_from_slice demo_env = (\<lambda>b. if b = ''S'' then Inr (JObject [(''@odata.id'', JString ''/s'')])
     else if b = ''E'' then Inr (JObject [(''error'', JObject [(''code'', JString ''Base.1.8.GeneralError'')])])
     else Inl ())"
  "env_deserialize demo_env = (\<lambda>v. if json_get v ''@odata.id'' = None then Inl () else Inr v)"
  by (simp_all add: demo_env_def)




theorem response_etag_injected_witness:
  "json_get (tagged_body demo_env [''etag'' \<mapsto> ''W1''] (JObject [(''@odata.id'', JString ''/s'')])) ''@odata.etag'' =
     Some (JString ''W1'')"
  using response_etag_injected [of "JObject [(''@odata.id'', JString ''/s'')]" "JString ''/s''" demo_env
      "[''etag'' \<mapsto> ''W1'']" "''W1''"]
  by (simp add: etag_from_headers_def)

theorem response_success_sound_witness:
  "decode_modification demo_env (''bmc'', ''/x'') 200 Map.empty ''S'' = Inr (Entity (JObject [(''@odata.id'', JString ''/s'')])) \<and>
   (200::nat) \<in> {200, 201, 202, 204}"
proof -
  have "decode_modification demo_env (''bmc'', ''/x'') 200 Map.empty ''S'' =
      Inr (Entity (JObject [(''@odata.id'', JString ''/s'')]))"
    by (simp add: decode_modification_def decode_body_def tagged_body_def etag_from_headers_def)
  with response_success_sound [OF this] show ?thesis by blast
qed

theorem response_failure_reported_witness:
  "\<exists>e. decode_modification demo_env (''bmc'', ''/x'') 200 Map.empty ''E'' = Inl e \<and> error_class e = HttpResponse 200"
proof -
  let ?v = "JObject [(''error'', JObject [(''code'', JString ''Base.1.8.GeneralError'')])]"
  have "tagged_body demo_env (Map.empty :: string header_map) ?v = ?v" by (simp add: tagged_body_def)
  moreover have "is_message_envelope ?v" "success_code ?v = None"
    by (simp_all add: is_message_envelope_def get_present_def json_is_null_def success_code_def report_def
        messages_def statuses_def map_filter_simps success_code_of_def message_key_def str_rsplit_once_def
        str_split_once_def)
  ultimately show ?thesis
    using response_failure_reported [of demo_env 200 "''E''" ?v Map.empty "()" "(''bmc'', ''/x'')"] by auto
qed

theorem response_location_irrelevant_witness:
  "decode_modification demo_env (''bmc'', ''/x'') 204 [''location'' \<mapsto> ''evil''] '''' = Inr Empty"
  using response_location_irrelevant [of 204 "''''" demo_env undefined Map.empty undefined "(''bmc'', ''/x'')" "Some ''evil''"]
  by (simp add: decode_modification_def)

end
