(* ===== verification/Bmc_Trait.thy ===== *)
theory Bmc_Trait
  imports Response
begin

text \<open>
  What the layers over a transport share (\<open>core/src/bmc.rs\<close>, \<open>raw.rs\<close>, \<open>repair.rs\<close>): what a layer can ask of
  a transport's error, the failure of a repaired read, documents read as JSON, and decoding after a repair.

  A layer's operation takes the operations of the transport it calls as arguments, each at the type the
  layer calls it at, and passes the transport's state through them in the order of its calls. A repair
  rewrites a document; \<open>None\<close> is a repair that does not return. Deserialization into a model type is the
  argument \<open>decode\<close>.
\<close>

record ('e, 'de) error_ops =
  eo_error_class :: "'e \<Rightarrow> bmc_error_class"
  eo_response_body :: "'e \<Rightarrow> string option"
  eo_into_decode_error :: "'e \<Rightarrow> 'e + 'de"
  eo_from_decode_error :: "'de \<Rightarrow> 'e"

datatype ('e, 'de) repair_error = TransportFailed 'e | DecodeFailed 'de

definition from_transport :: "('e \<Rightarrow> 'e + 'de) \<Rightarrow> 'e \<Rightarrow> ('e, 'de) repair_error" where
  "from_transport into error = (case into error of Inr d \<Rightarrow> DecodeFailed d | Inl e \<Rightarrow> TransportFailed e)"

text \<open>\<open>BmcError\<close> for \<open>RepairError\<close>.\<close>

fun repair_error_class :: "('e, 'de) error_ops \<Rightarrow> ('e, 'de) repair_error \<Rightarrow> bmc_error_class" where
  "repair_error_class eo (TransportFailed error) = eo_error_class eo error"
| "repair_error_class eo (DecodeFailed _) = ResponseParse"

fun repair_response_body :: "('e, 'de) error_ops \<Rightarrow> ('e, 'de) repair_error \<Rightarrow> string option" where
  "repair_response_body eo (TransportFailed error) = eo_response_body eo error"
| "repair_response_body eo (DecodeFailed _) = None"

fun repair_into_decode_error ::
  "('e, 'de) error_ops \<Rightarrow> ('e, 'de) repair_error \<Rightarrow> ('e, 'de) repair_error + 'de" where
  "repair_into_decode_error eo (TransportFailed error) =
     (case eo_into_decode_error eo error of Inl e \<Rightarrow> Inl (TransportFailed e) | Inr d \<Rightarrow> Inr d)"
| "repair_into_decode_error eo (DecodeFailed error) = Inr error"

section \<open>Documents as JSON\<close>

record raw =
  raw_id :: odata_id
  raw_etag :: "odata_etag option"
  raw_value :: json

definition raw_deserialize :: "json \<Rightarrow> raw" where
  "raw_deserialize v =
     (let text = (\<lambda>key. json_get v key \<bind> json_as_str) in
      \<lparr>raw_id = (case text ''@odata.id'' of Some s \<Rightarrow> s | None \<Rightarrow> []),
       raw_etag = text ''@odata.etag'', raw_value = v\<rparr>)"

type_synonym repair = "json \<Rightarrow> json option"

definition no_repair :: repair where
  "no_repair document = Some document"

definition decode_raw ::
  "(json \<Rightarrow> 'de + 't) \<Rightarrow> 'e + raw \<Rightarrow> repair \<Rightarrow> (('e, 'de) repair_error + 't) option" where
  "decode_raw decode r repair =
     (case r of
        Inl e \<Rightarrow> Some (Inl (TransportFailed e))
      | Inr r \<Rightarrow> do {
          document \<leftarrow> repair (raw_value r);
          Some (case decode document of Inl d \<Rightarrow> Inl (DecodeFailed d) | Inr t \<Rightarrow> Inr t)
        })"

section \<open>Streams\<close>

text \<open>A stream is the list of the items it has delivered.\<close>

record 't stream_event =
  se_last_event_id :: "string option"
  se_data :: 't

definition without_event_ids :: "('e + 't) list \<Rightarrow> ('e + 't stream_event) list" where
  "without_event_ids items =
     map (\<lambda>item. case item of
       Inl e \<Rightarrow> Inl e | Inr t \<Rightarrow> Inr \<lparr>se_last_event_id = None, se_data = t\<rparr>) items"

text \<open>What a layer over a layer asks of an error is what the transport says of its own.\<close>

lemma repair_error_transparent:
  assumes "eo_into_decode_error eo e = Inl e'"
  shows "repair_into_decode_error eo (TransportFailed e) = Inl (TransportFailed e')"
    "from_transport (eo_into_decode_error eo) e = TransportFailed e'"
  using assms by (simp_all add: from_transport_def)

end
