(* ===== verification/Slot_Chain.thy ===== *)
theory Slot_Chain
  imports Prelude
begin

text \<open>
  Doubly linked lists in a vector of slots, as both lists of the HTTP cache keep them
  (\<open>bmc-http/src/cache.rs\<close>): what the ghost list, whose ends have no neighbour, and the clock ring,
  whose ends are neighbours, have in common.

  A heap of slots is a map from slots to an element and the links to its neighbours. A
  link is of type \<open>'l\<close>, and \<open>lk\<close> is the link to a slot: \<open>Some\<close> for the ghost list, the
  identity for the ring. \<open>chain lk h p xs n\<close> says that the slots of \<open>xs\<close> hold its elements
  and are linked in order, from \<open>p\<close> before the first to \<open>n\<close> after the last.
\<close>

section \<open>Linked segments\<close>

fun first :: "(nat \<Rightarrow> 'l) \<Rightarrow> (nat \<times> 'e) list \<Rightarrow> 'l \<Rightarrow> 'l" where
  "first lk [] n = n"
| "first lk (x # xs) n = lk (fst x)"

fun final :: "(nat \<Rightarrow> 'l) \<Rightarrow> 'l \<Rightarrow> (nat \<times> 'e) list \<Rightarrow> 'l" where
  "final lk p [] = p"
| "final lk p (x # xs) = final lk (lk (fst x)) xs"

fun chain ::
  "(nat \<Rightarrow> 'l) \<Rightarrow> (nat \<Rightarrow> ('e \<times> 'l \<times> 'l) option) \<Rightarrow> 'l \<Rightarrow> (nat \<times> 'e) list \<Rightarrow> 'l \<Rightarrow> bool" where
  "chain lk h p [] n \<longleftrightarrow> True"
| "chain lk h p (x # xs) n \<longleftrightarrow>
     h (fst x) = Some (snd x, p, first lk xs n) \<and> chain lk h (lk (fst x)) xs n"

definition set_next :: "nat \<Rightarrow> 'l \<Rightarrow> (nat \<Rightarrow> ('e \<times> 'l \<times> 'l) option) \<Rightarrow> nat \<Rightarrow> ('e \<times> 'l \<times> 'l) option" where
  "set_next s n h = h(s := map_option (\<lambda>(e, p, _). (e, p, n)) (h s))"

definition set_prev :: "nat \<Rightarrow> 'l \<Rightarrow> (nat \<Rightarrow> ('e \<times> 'l \<times> 'l) option) \<Rightarrow> nat \<Rightarrow> ('e \<times> 'l \<times> 'l) option" where
  "set_prev s p h = h(s := map_option (\<lambda>(e, _, n). (e, p, n)) (h s))"

abbreviation slots_of :: "(nat \<times> 'e) list \<Rightarrow> nat set" where
  "slots_of xs \<equiv> fst ` set xs"

lemma first_append: "first lk (xs @ ys) n = first lk xs (first lk ys n)"
  by (cases xs) simp_all

lemma final_append: "final lk p (xs @ ys) = final lk (final lk p xs) ys"
  by (induction xs arbitrary: p) simp_all

lemma final_nonempty: "xs \<noteq> [] \<Longrightarrow> final lk p xs = lk (fst (last xs))"
  by (induction xs arbitrary: p) auto

lemma chain_append:
  "chain lk h p (xs @ ys) n \<longleftrightarrow> chain lk h p xs (first lk ys n) \<and> chain lk h (final lk p xs) ys n"
  by (induction xs arbitrary: p) (auto simp: first_append)

lemma chain_cong:
  "(\<And>s. s \<in> slots_of xs \<Longrightarrow> h s = h' s) \<Longrightarrow> chain lk h p xs n = chain lk h' p xs n"
  by (induction xs arbitrary: p) auto

lemma chain_update_other [simp]:
  "s \<notin> slots_of xs \<Longrightarrow> chain lk (h(s := v)) p xs n = chain lk h p xs n"
  by (rule chain_cong) auto

lemma chain_set_other [simp]:
  "s \<notin> slots_of xs \<Longrightarrow> chain lk (set_next s v h) p xs n = chain lk h p xs n"
  "s \<notin> slots_of xs \<Longrightarrow> chain lk (set_prev s v h) p xs n = chain lk h p xs n"
  by (simp_all add: set_next_def set_prev_def)

lemma chain_lookup: "chain lk h p xs n \<Longrightarrow> (s, e) \<in> set xs \<Longrightarrow> \<exists>a b. h s = Some (e, a, b)"
  by (induction xs arbitrary: p) auto

text \<open>Relinking one end of a segment.\<close>

lemma chain_set_last_next:
  assumes "chain lk h p xs n" and "xs \<noteq> []" and "distinct (map fst xs)"
  shows "chain lk (set_next (fst (last xs)) m h) p xs m"
proof -
  obtain ys x where xs: "xs = ys @ [x]" using assms(2) by (cases xs rule: rev_cases) auto
  have "fst x \<notin> slots_of ys" using assms(3) xs by auto
  with assms(1) show ?thesis by (simp add: xs chain_append) (simp add: set_next_def)
qed

lemma chain_set_hd_prev:
  assumes "chain lk h p xs n" and "xs \<noteq> []" and "distinct (map fst xs)"
  shows "chain lk (set_prev (fst (hd xs)) q h) q xs n"
proof -
  obtain x ys where xs: "xs = x # ys" using assms(2) by (cases xs) auto
  have "fst x \<notin> slots_of ys" using assms(3) xs by auto
  with assms(1) show ?thesis by (simp add: xs) (simp add: set_prev_def)
qed

section \<open>Slots in use and free slots\<close>

definition slab_ok :: "'n option list \<Rightarrow> nat list \<Rightarrow> nat list \<Rightarrow> bool" where
  "slab_ok cells free used \<longleftrightarrow>
     distinct (free @ used) \<and> set (free @ used) = {..<length cells} \<and>
     (\<forall>s \<in> set free. cells ! s = None)"

lemma slab_ok_used: "slab_ok cells free used \<Longrightarrow> s \<in> set used \<Longrightarrow> s < length cells"
  by (auto simp: slab_ok_def)

lemma slab_ok_length: "slab_ok cells free used \<Longrightarrow> length free + length used = length cells"
  using distinct_card [of "free @ used"] by (simp add: slab_ok_def)

lemma slab_ok_perm:
  "slab_ok cells free used \<Longrightarrow> mset used' = mset used \<Longrightarrow> slab_ok cells free used'"
  by (auto simp: slab_ok_def dest: mset_eq_imp_distinct_iff mset_eq_setD)

lemma slab_ok_update:
  "slab_ok cells free used \<Longrightarrow> s \<in> set used \<Longrightarrow> slab_ok (cells[s := c]) free used"
  by (auto simp: slab_ok_def) (metis disjoint_iff nth_list_update_neq)

lemma slab_ok_release:
  assumes "slab_ok cells free (as @ s # bs)"
  shows "slab_ok (cells[s := None]) (free @ [s]) (as @ bs)"
proof -
  have "s < length cells" using slab_ok_used [OF assms] by simp
  then have "\<forall>t \<in> set (free @ [s]). cells[s := None] ! t = None"
    using assms by (auto simp: slab_ok_def nth_list_update)
  with assms show ?thesis by (auto simp: slab_ok_def)
qed

lemma slab_ok_take:
  assumes "slab_ok cells (free @ [s]) used"
  shows "slab_ok (cells[s := c]) free (used @ [s])"
proof -
  have "\<forall>t \<in> set free. cells[s := c] ! t = None"
  proof
    fix t
    assume t: "t \<in> set free"
    then have "t \<noteq> s" "cells ! t = None" using assms by (auto simp: slab_ok_def)
    then show "cells[s := c] ! t = None" by simp
  qed
  with assms show ?thesis by (auto simp: slab_ok_def)
qed

lemma slab_ok_grow:
  assumes "slab_ok cells [] used"
  shows "slab_ok (cells @ [None]) [length cells] used"
proof -
  have "set used = {..<length cells}" "distinct used" using assms by (simp_all add: slab_ok_def)
  then show ?thesis by (simp add: slab_ok_def lessThan_Suc nth_append)
qed

text \<open>\<open>acquire_slot\<close>, as both lists have it: the last free slot, or a new one below the capacity.\<close>

definition slab_acquire :: "nat \<Rightarrow> 'n option list \<Rightarrow> nat list \<Rightarrow> (nat \<times> 'n option list \<times> nat list) option" where
  "slab_acquire capacity cells free =
     (case vec_pop free of
        (Some s, free) \<Rightarrow> Some (s, cells, free)
      | (None, free) \<Rightarrow>
          if length cells < capacity then Some (length cells, cells @ [None], free) else None)"

lemma slab_acquire_ok:
  assumes ok: "slab_ok cells free used" and room: "length used < capacity" and "length cells \<le> capacity"
  obtains s cells' free' where "slab_acquire capacity cells free = Some (s, cells', free')"
    "s \<notin> set used" "s < length cells'" "cells' ! s = None" "length cells' \<le> capacity"
    "cells' = cells \<or> cells' = cells @ [None]"
    "\<forall>c. slab_ok (cells'[s := c]) free' (used @ [s])"
proof (cases free rule: rev_cases)
  case Nil
  then have len: "length used = length cells" using slab_ok_length [OF ok] by simp
  have grown: "slab_ok (cells @ [None]) ([] @ [length cells]) used"
    using ok Nil slab_ok_grow [of cells used] by simp
  show thesis
  proof (rule that [of "length cells" "cells @ [None]" "[]"])
    show "\<forall>c. slab_ok ((cells @ [None])[length cells := c]) [] (used @ [length cells])"
      using slab_ok_take [OF grown] by blast
    show "length cells \<notin> set used" using slab_ok_used [OF ok] by blast
  qed (use Nil len room in \<open>auto simp: slab_acquire_def vec_pop_def\<close>)
next
  case (snoc fs s)
  then have "s < length cells" "cells ! s = None" "s \<notin> set used" using ok by (auto simp: slab_ok_def)
  with snoc assms(3) slab_ok_take [OF ok [unfolded snoc]] show thesis
    by (intro that [of s cells fs]) (auto simp: slab_acquire_def vec_pop_def)
qed

end
