(* ===== verification/Ghost_List.thy ===== *)
theory Ghost_List
  imports Slot_Chain
begin

text \<open>
  \<open>GhostList\<close> (\<open>bmc-http/src/cache.rs\<close>): the keys of evicted pages, oldest first, in a doubly linked
  list over a vector of slots that grows on demand. Indexing past the vector, an underflow of
  \<open>size\<close> and the \<open>debug_assert\<close> of \<open>insert_at_tail\<close> panic (\<open>None\<close>). The locale \<open>slot_queue\<close>
  is what the cache relies on: the list is a queue of slots and keys from which any slot can be removed;
  the interpretation shows that the linked slots are one.
\<close>

record 'k ghost_node =
  gn_key :: 'k
  gn_prev :: "nat option"
  gn_next :: "nat option"

record 'k ghost_list =
  gl_entries :: "'k ghost_node option list"
  gl_capacity :: nat
  gl_head :: "nat option"
  gl_tail :: "nat option"
  gl_free_slots :: "nat list"
  gl_size :: nat

definition ghost_list_new :: "nat \<Rightarrow> 'k ghost_list" where
  "ghost_list_new capacity =
     \<lparr>gl_entries = [], gl_capacity = capacity, gl_head = None, gl_tail = None,
      gl_free_slots = [], gl_size = 0\<rparr>"

definition gl_acquire_slot :: "'k ghost_list \<Rightarrow> nat option \<times> 'k ghost_list" where
  "gl_acquire_slot g =
     (case vec_pop (gl_free_slots g) of
        (Some slot, free) \<Rightarrow> (Some slot, g\<lparr>gl_free_slots := free\<rparr>)
      | (None, _) \<Rightarrow>
          if length (gl_entries g) < gl_capacity g then
            let g = g\<lparr>gl_entries := gl_entries g @ [None]\<rparr> in (Some (length (gl_entries g) - 1), g)
          else (None, g))"

text \<open>
  \<open>if let Some(ref mut node) = self.entries[i]\<close> followed by an assignment to one of its links: the
  index panics when it is out of range, an empty slot is left alone.
\<close>

definition gl_modify ::
  "('k ghost_node \<Rightarrow> 'k ghost_node) \<Rightarrow> nat \<Rightarrow> 'k ghost_list \<Rightarrow> 'k ghost_list outcome" where
  "gl_modify f i g =
     (if i < length (gl_entries g)
      then Some (g\<lparr>gl_entries := (gl_entries g)[i := map_option f (gl_entries g ! i)]\<rparr>)
      else None)"

text \<open>\<open>self.entries[i].take()\<close>: the node, and the list with the slot emptied.\<close>

definition gl_take :: "nat \<Rightarrow> 'k ghost_list \<Rightarrow> ('k ghost_node option \<times> 'k ghost_list) outcome" where
  "gl_take i g =
     (if i < length (gl_entries g)
      then Some (gl_entries g ! i, g\<lparr>gl_entries := (gl_entries g)[i := None]\<rparr>)
      else None)"

definition gl_shrink :: "nat \<Rightarrow> 'k ghost_list \<Rightarrow> 'k ghost_list outcome" where
  "gl_shrink slot g =
     (if gl_size g = 0 then None
      else Some (g\<lparr>gl_free_slots := gl_free_slots g @ [slot], gl_size := gl_size g - 1\<rparr>))"

definition gl_insert_at_tail :: "'k ghost_list \<Rightarrow> 'k \<Rightarrow> (nat option \<times> 'k ghost_list) outcome" where
  "gl_insert_at_tail g key =
     (if \<not> gl_size g < gl_capacity g then None
      else case gl_acquire_slot g of
        (None, g) \<Rightarrow> Some (None, g)
      | (Some slot, g) \<Rightarrow> do {
          let new_node = \<lparr>gn_key = key, gn_prev = gl_tail g, gn_next = None\<rparr>;
          g \<leftarrow> (case gl_tail g of
                 Some old_tail \<Rightarrow> gl_modify (\<lambda>n. n\<lparr>gn_next := Some slot\<rparr>) old_tail g
               | None \<Rightarrow> Some (g\<lparr>gl_head := Some slot\<rparr>));
          let g = g\<lparr>gl_tail := Some slot\<rparr>;
          if slot < length (gl_entries g) then
            Some (Some slot,
                  g\<lparr>gl_entries := (gl_entries g)[slot := Some new_node], gl_size := gl_size g + 1\<rparr>)
          else None
        })"

definition gl_remove_lru :: "'k ghost_list \<Rightarrow> ('k option \<times> 'k ghost_list) outcome" where
  "gl_remove_lru g =
     (case gl_head g of
        None \<Rightarrow> Some (None, g)
      | Some head_slot \<Rightarrow> do {
          (node, g) \<leftarrow> gl_take head_slot g;
          case node of
            None \<Rightarrow> Some (None, g)
          | Some head_node \<Rightarrow> do {
              g \<leftarrow> gl_shrink head_slot g;
              if gl_size g = 0 then
                Some (Some (gn_key head_node), g\<lparr>gl_head := None, gl_tail := None\<rparr>)
              else do {
                let g = g\<lparr>gl_head := gn_next head_node\<rparr>;
                g \<leftarrow> (case gl_head g of
                       Some new_head \<Rightarrow> gl_modify (\<lambda>n. n\<lparr>gn_prev := None\<rparr>) new_head g
                     | None \<Rightarrow> Some g);
                Some (Some (gn_key head_node), g)
              }
            }
        })"

definition gl_remove :: "'k ghost_list \<Rightarrow> nat \<Rightarrow> (bool \<times> 'k ghost_list) outcome" where
  "gl_remove g slot = do {
     (taken, g) \<leftarrow> gl_take slot g;
     case taken of
       None \<Rightarrow> Some (False, g)
     | Some node \<Rightarrow> do {
         g \<leftarrow> gl_shrink slot g;
         if gl_size g = 0 then Some (True, g\<lparr>gl_head := None, gl_tail := None\<rparr>)
         else do {
           g \<leftarrow> (case gn_prev node of
                  Some prev_slot \<Rightarrow> gl_modify (\<lambda>n. n\<lparr>gn_next := gn_next node\<rparr>) prev_slot g
                | None \<Rightarrow> Some (g\<lparr>gl_head := gn_next node\<rparr>));
           g \<leftarrow> (case gn_next node of
                  Some next_slot \<Rightarrow> gl_modify (\<lambda>n. n\<lparr>gn_prev := gn_prev node\<rparr>) next_slot g
                | None \<Rightarrow> Some (g\<lparr>gl_tail := gn_prev node\<rparr>));
           Some (True, g)
         }
       }
   }"

section \<open>The interface\<close>

text \<open>\<open>ok q xs\<close>: the list \<open>q\<close> holds the keys of \<open>xs\<close> in its slots, oldest first.\<close>

locale slot_queue =
  fixes ok :: "'q \<Rightarrow> (nat \<times> 'k) list \<Rightarrow> bool"
    and capacity :: "'q \<Rightarrow> nat"
    and insert_at_tail :: "'q \<Rightarrow> 'k \<Rightarrow> (nat option \<times> 'q) outcome"
    and remove_lru :: "'q \<Rightarrow> ('k option \<times> 'q) outcome"
    and remove_slot :: "'q \<Rightarrow> nat \<Rightarrow> (bool \<times> 'q) outcome"
  assumes ok_distinct: "ok q xs \<Longrightarrow> distinct (map fst xs)"
    and insert_ok:
      "ok q xs \<Longrightarrow> length xs < capacity q \<Longrightarrow>
       \<exists>s q'. insert_at_tail q k = Some (Some s, q') \<and> ok q' (xs @ [(s, k)]) \<and> capacity q' = capacity q"
    and lru_empty: "ok q [] \<Longrightarrow> remove_lru q = Some (None, q)"
    and lru_ok:
      "ok q ((s, k) # xs) \<Longrightarrow>
       \<exists>q'. remove_lru q = Some (Some k, q') \<and> ok q' xs \<and> capacity q' = capacity q"
    and remove_ok:
      "ok q (xs @ (s, k) # ys) \<Longrightarrow>
       \<exists>q'. remove_slot q s = Some (True, q') \<and> ok q' (xs @ ys) \<and> capacity q' = capacity q"
begin

lemma insert_obtain:
  assumes "ok q xs" and "length xs < capacity q"
  obtains s q' where "insert_at_tail q k = Some (Some s, q')" "ok q' (xs @ [(s, k)])"
    "capacity q' = capacity q" "s \<notin> fst ` set xs"
proof -
  obtain s q' where i: "insert_at_tail q k = Some (Some s, q')" "ok q' (xs @ [(s, k)])"
    "capacity q' = capacity q" using insert_ok [OF assms] by blast
  moreover have "s \<notin> fst ` set xs" using ok_distinct [OF i(2)] by auto
  ultimately show thesis by (rule that)
qed

lemma remove_obtain:
  assumes "ok q xs" and "(s, k) \<in> set xs"
  obtains q' where "remove_slot q s = Some (True, q')" "ok q' (filter (\<lambda>x. fst x \<noteq> s) xs)"
    "capacity q' = capacity q"
proof -
  obtain as bs where xs: "xs = as @ (s, k) # bs" using assms(2) by (auto simp: in_set_conv_decomp)
  have "filter (\<lambda>x. fst x \<noteq> s) as = as" "filter (\<lambda>x. fst x \<noteq> s) bs = bs"
    using ok_distinct [OF assms(1)] xs by (auto intro!: filter_True)
  with xs have "filter (\<lambda>x. fst x \<noteq> s) xs = as @ bs" by simp
  with assms(1) xs remove_ok [of q as s k bs] show thesis by (auto intro: that)
qed

end

section \<open>The linked slots are a queue\<close>

definition ghost_cell :: "'k ghost_node \<Rightarrow> 'k \<times> nat option \<times> nat option" where
  "ghost_cell n = (gn_key n, gn_prev n, gn_next n)"

definition ghost_heap :: "'k ghost_node option list \<Rightarrow> nat \<Rightarrow> ('k \<times> nat option \<times> nat option) option" where
  "ghost_heap es s = (if s < length es then map_option ghost_cell (es ! s) else None)"

definition ghost_ok :: "'k ghost_list \<Rightarrow> (nat \<times> 'k) list \<Rightarrow> bool" where
  "ghost_ok g xs \<longleftrightarrow>
     chain Some (ghost_heap (gl_entries g)) None xs None \<and>
     gl_head g = first Some xs None \<and> gl_tail g = final Some None xs \<and> gl_size g = length xs \<and>
     slab_ok (gl_entries g) (gl_free_slots g) (map fst xs) \<and> length (gl_entries g) \<le> gl_capacity g"

lemma ghost_heap_update:
  "s < length es \<Longrightarrow> ghost_heap (es[s := x]) = (ghost_heap es)(s := map_option ghost_cell x)"
  by (auto simp: ghost_heap_def fun_eq_iff nth_list_update)

lemma ghost_heap_grow: "cells = es \<or> cells = es @ [None] \<Longrightarrow> ghost_heap cells = ghost_heap es"
  by (auto simp: ghost_heap_def fun_eq_iff nth_append)

lemma ghost_heap_relink:
  assumes "s < length es"
  shows "ghost_heap (es[s := map_option (\<lambda>n. n\<lparr>gn_next := v\<rparr>) (es ! s)]) = set_next s v (ghost_heap es)"
    "ghost_heap (es[s := map_option (\<lambda>n. n\<lparr>gn_prev := v\<rparr>) (es ! s)]) = set_prev s v (ghost_heap es)"
  using assms
  by (cases "es ! s"; simp add: ghost_heap_update set_next_def set_prev_def ghost_heap_def ghost_cell_def)+

lemma gl_acquire_eq:
  "gl_acquire_slot g =
     (case slab_acquire (gl_capacity g) (gl_entries g) (gl_free_slots g) of
        None \<Rightarrow> (None, g)
      | Some (s, cells, free) \<Rightarrow> (Some s, g\<lparr>gl_entries := cells, gl_free_slots := free\<rparr>))"
  by (cases g) (auto simp: gl_acquire_slot_def slab_acquire_def vec_pop_def)

lemma ghost_okD:
  assumes "ghost_ok g xs"
  shows "distinct (map fst xs)" "\<And>x. x \<in> set xs \<Longrightarrow> fst x < length (gl_entries g)"
  using assms by (auto simp: ghost_ok_def slab_ok_def)

lemma ghost_lookup:
  assumes "ghost_ok g (xs @ (s, k) # ys)"
  shows "gl_entries g ! s =
    Some \<lparr>gn_key = k, gn_prev = final Some None xs, gn_next = first Some ys None\<rparr>"
proof -
  have "ghost_heap (gl_entries g) s = Some (k, final Some None xs, first Some ys None)"
    using assms by (simp add: ghost_ok_def chain_append)
  then show ?thesis by (auto simp: ghost_heap_def ghost_cell_def split: if_splits)
qed

lemma ghost_insert_ok:
  assumes ok: "ghost_ok g xs" and room: "length xs < gl_capacity g"
  shows "\<exists>s g'. gl_insert_at_tail g k = Some (Some s, g') \<and> ghost_ok g' (xs @ [(s, k)]) \<and>
    gl_capacity g' = gl_capacity g"
proof -
  have slab: "slab_ok (gl_entries g) (gl_free_slots g) (map fst xs)" "length (gl_entries g) \<le> gl_capacity g"
    and ch: "chain Some (ghost_heap (gl_entries g)) None xs None"
    using ok by (simp_all add: ghost_ok_def)
  have "length (map fst xs) < gl_capacity g" using room by simp
  with slab(1) obtain s cells free where a:
      "slab_acquire (gl_capacity g) (gl_entries g) (gl_free_slots g) = Some (s, cells, free)"
      "s \<notin> set (map fst xs)" "s < length cells" "cells ! s = None" "length cells \<le> gl_capacity g"
      "cells = gl_entries g \<or> cells = gl_entries g @ [None]"
      "\<forall>c. slab_ok (cells[s := c]) free (map fst xs @ [s])"
    using slab(2) by (rule slab_acquire_ok)
  have heap: "ghost_heap cells = ghost_heap (gl_entries g)" using a(6) by (rule ghost_heap_grow)
  have sz: "gl_size g < gl_capacity g" using ok room by (simp add: ghost_ok_def)
  show ?thesis
  proof (cases xs rule: rev_cases)
    case Nil
    with ok have "gl_tail g = None" by (simp add: ghost_ok_def)
    with Nil ok sz a heap show ?thesis
      by (auto simp: gl_insert_at_tail_def gl_acquire_eq ghost_ok_def ghost_heap_update ghost_cell_def)
  next
    case (snoc ys x)
    let ?t = "fst x" and ?node = "\<lparr>gn_key = k, gn_prev = Some (fst x), gn_next = None\<rparr>"
    let ?cells = "cells[?t := map_option (\<lambda>n. n\<lparr>gn_next := Some s\<rparr>) (cells ! ?t)]"
    have tail: "gl_tail g = Some ?t" using ok snoc by (simp add: ghost_ok_def final_append)
    have t: "?t < length cells" "?t \<noteq> s" using ghost_okD(2) [OF ok, of x] a(2,6) snoc by auto
    have "chain Some (set_next ?t (Some s) (ghost_heap cells)) None xs (Some s)"
      using chain_set_last_next [OF ch _ ghost_okD(1) [OF ok]] snoc heap by simp
    moreover have "ghost_heap (?cells[s := Some ?node]) =
        (set_next ?t (Some s) (ghost_heap cells))(s \<mapsto> (k, Some ?t, None))"
      using a(3) ghost_heap_relink(1) [OF t(1)] ghost_heap_update [of s ?cells "Some ?node"]
      by (simp add: ghost_cell_def)
    ultimately have "chain Some (ghost_heap (?cells[s := Some ?node])) None (xs @ [(s, k)]) None"
      using a(2) snoc by (simp add: chain_append final_append)
    moreover have "slab_ok (?cells[s := Some ?node]) free (map fst (xs @ [(s, k)]))"
      using slab_ok_update [OF a(7) [rule_format], of ?t "Some ?node"] snoc
      by (subst list_update_swap [OF t(2)]) simp
    ultimately show ?thesis
      using ok sz a tail t snoc
      by (auto simp: gl_insert_at_tail_def gl_acquire_eq gl_modify_def ghost_ok_def first_append final_append)
  qed
qed

lemma ghost_release:
  assumes ok: "ghost_ok g (xs @ (s, k) # ys)"
  obtains g1 where "gl_take s g = Some (Some \<lparr>gn_key = k, gn_prev = final Some None xs,
      gn_next = first Some ys None\<rparr>, g\<lparr>gl_entries := (gl_entries g)[s := None]\<rparr>)"
    "gl_shrink s (g\<lparr>gl_entries := (gl_entries g)[s := None]\<rparr>) = Some g1"
    "chain Some (ghost_heap (gl_entries g1)) None xs (Some s)"
    "chain Some (ghost_heap (gl_entries g1)) (Some s) ys None"
    "slab_ok (gl_entries g1) (gl_free_slots g1) (map fst (xs @ ys))"
    "gl_size g1 = length (xs @ ys)" "length (gl_entries g1) \<le> gl_capacity g1"
    "gl_capacity g1 = gl_capacity g" "gl_head g1 = gl_head g" "gl_tail g1 = gl_tail g"
proof -
  have s: "s < length (gl_entries g)" "s \<notin> slots_of xs" "s \<notin> slots_of ys"
    using ghost_okD(1) [OF ok] ghost_okD(2) [OF ok, of "(s, k)"] by auto
  have slab: "slab_ok (gl_entries g) (gl_free_slots g) (map fst xs @ s # map fst ys)"
    using ok by (simp add: ghost_ok_def)
  show thesis
    by (rule that [of "g\<lparr>gl_entries := (gl_entries g)[s := None],
          gl_free_slots := gl_free_slots g @ [s], gl_size := gl_size g - 1\<rparr>"])
      (use ok s slab_ok_release [OF slab] ghost_lookup [OF ok] in
        \<open>auto simp: gl_take_def gl_shrink_def ghost_ok_def chain_append ghost_heap_update\<close>)
qed

text \<open>Joining the neighbours of a removed slot: first the one before it, then the one after.\<close>

lemma ghost_join_prev:
  assumes ch: "chain Some (ghost_heap (gl_entries g)) None xs (Some s)"
      "chain Some (ghost_heap (gl_entries g)) (Some s) ys None"
    and slab: "slab_ok (gl_entries g) (gl_free_slots g) (map fst (xs @ ys))"
    and head: "xs \<noteq> [] \<Longrightarrow> gl_head g = first Some xs None"
  obtains g' where "(case final Some None xs of
       Some prev_slot \<Rightarrow> gl_modify (\<lambda>n. n\<lparr>gn_next := first Some ys None\<rparr>) prev_slot g
     | None \<Rightarrow> Some (g\<lparr>gl_head := first Some ys None\<rparr>)) = Some g'"
    "chain Some (ghost_heap (gl_entries g')) None xs (first Some ys None)"
    "chain Some (ghost_heap (gl_entries g')) (Some s) ys None"
    "slab_ok (gl_entries g') (gl_free_slots g') (map fst (xs @ ys))"
    "gl_head g' = first Some (xs @ ys) None" "gl_tail g' = gl_tail g" "gl_size g' = gl_size g"
    "gl_capacity g' = gl_capacity g" "length (gl_entries g') = length (gl_entries g)"
proof (cases xs rule: rev_cases)
  case Nil
  with assms show thesis by (intro that [of "g\<lparr>gl_head := first Some ys None\<rparr>"]) auto
next
  case (snoc zs x)
  have x: "fst x < length (gl_entries g)" "fst x \<notin> slots_of ys" "distinct (map fst xs)"
    using slab snoc by (auto simp: slab_ok_def)
  have "chain Some (set_next (fst x) (first Some ys None) (ghost_heap (gl_entries g))) None xs (first Some ys None)"
    using chain_set_last_next [OF ch(1) _ x(3)] snoc by simp
  with x ch(2) slab_ok_update [OF slab, of "fst x"] snoc head show thesis
    by (intro that [of "g\<lparr>gl_entries := (gl_entries g)[fst x :=
            map_option (\<lambda>n. n\<lparr>gn_next := first Some ys None\<rparr>) (gl_entries g ! fst x)]\<rparr>"])
      (simp_all add: gl_modify_def final_append first_append ghost_heap_relink)
qed

lemma ghost_join_next:
  assumes ch: "chain Some (ghost_heap (gl_entries g)) None xs (first Some ys None)"
      "chain Some (ghost_heap (gl_entries g)) (Some s) ys None"
    and slab: "slab_ok (gl_entries g) (gl_free_slots g) (map fst (xs @ ys))"
    and tail: "ys \<noteq> [] \<Longrightarrow> gl_tail g = final Some None ys"
  obtains g' where "(case first Some ys None of
       Some next_slot \<Rightarrow> gl_modify (\<lambda>n. n\<lparr>gn_prev := final Some None xs\<rparr>) next_slot g
     | None \<Rightarrow> Some (g\<lparr>gl_tail := final Some None xs\<rparr>)) = Some g'"
    "chain Some (ghost_heap (gl_entries g')) None (xs @ ys) None"
    "slab_ok (gl_entries g') (gl_free_slots g') (map fst (xs @ ys))"
    "gl_tail g' = final Some None (xs @ ys)" "gl_head g' = gl_head g" "gl_size g' = gl_size g"
    "gl_capacity g' = gl_capacity g" "length (gl_entries g') = length (gl_entries g)"
proof (cases ys)
  case Nil
  with assms show thesis by (intro that [of "g\<lparr>gl_tail := final Some None xs\<rparr>"]) auto
next
  case (Cons y zs)
  have y: "fst y < length (gl_entries g)" "fst y \<notin> slots_of xs" "distinct (map fst ys)"
    using slab Cons by (auto simp: slab_ok_def)
  have "chain Some (set_prev (fst y) (final Some None xs) (ghost_heap (gl_entries g))) (final Some None xs) ys None"
    using chain_set_hd_prev [OF ch(2) _ y(3)] Cons by simp
  with y ch(1) slab_ok_update [OF slab, of "fst y"] Cons tail show thesis
    by (intro that [of "g\<lparr>gl_entries := (gl_entries g)[fst y :=
            map_option (\<lambda>n. n\<lparr>gn_prev := final Some None xs\<rparr>) (gl_entries g ! fst y)]\<rparr>"])
      (simp_all add: gl_modify_def final_append chain_append ghost_heap_relink)
qed

lemma ghost_remove_ok:
  assumes ok: "ghost_ok g (xs @ (s, k) # ys)"
  shows "\<exists>g'. gl_remove g s = Some (True, g') \<and> ghost_ok g' (xs @ ys) \<and> gl_capacity g' = gl_capacity g"
proof -
  obtain g1 where r: "gl_take s g = Some (Some \<lparr>gn_key = k, gn_prev = final Some None xs,
      gn_next = first Some ys None\<rparr>, g\<lparr>gl_entries := (gl_entries g)[s := None]\<rparr>)"
    "gl_shrink s (g\<lparr>gl_entries := (gl_entries g)[s := None]\<rparr>) = Some g1"
    and ch: "chain Some (ghost_heap (gl_entries g1)) None xs (Some s)"
    "chain Some (ghost_heap (gl_entries g1)) (Some s) ys None"
    and slab: "slab_ok (gl_entries g1) (gl_free_slots g1) (map fst (xs @ ys))"
    and sz: "gl_size g1 = length (xs @ ys)" "length (gl_entries g1) \<le> gl_capacity g1"
      "gl_capacity g1 = gl_capacity g" "gl_head g1 = gl_head g" "gl_tail g1 = gl_tail g"
    by (rule ghost_release [OF ok])
  show ?thesis
  proof (cases "xs @ ys = []")
    case True
    with r ch slab sz show ?thesis by (simp add: gl_remove_def ghost_ok_def)
  next
    case False
    have head: "xs \<noteq> [] \<Longrightarrow> gl_head g1 = first Some xs None"
      using ok sz(4) by (cases xs) (simp_all add: ghost_ok_def)
    obtain g2 where 2: "(case final Some None xs of
         Some prev_slot \<Rightarrow> gl_modify (\<lambda>n. n\<lparr>gn_next := first Some ys None\<rparr>) prev_slot g1
       | None \<Rightarrow> Some (g1\<lparr>gl_head := first Some ys None\<rparr>)) = Some g2"
      "chain Some (ghost_heap (gl_entries g2)) None xs (first Some ys None)"
      "chain Some (ghost_heap (gl_entries g2)) (Some s) ys None"
      "slab_ok (gl_entries g2) (gl_free_slots g2) (map fst (xs @ ys))"
      "gl_head g2 = first Some (xs @ ys) None" "gl_tail g2 = gl_tail g1" "gl_size g2 = gl_size g1"
      "gl_capacity g2 = gl_capacity g1" "length (gl_entries g2) = length (gl_entries g1)"
      by (rule ghost_join_prev [OF ch slab head])
    have tail: "ys \<noteq> [] \<Longrightarrow> gl_tail g2 = final Some None ys"
      using ok sz(5) 2(6) by (simp add: ghost_ok_def final_append final_nonempty)
    obtain g3 where 3: "(case first Some ys None of
         Some next_slot \<Rightarrow> gl_modify (\<lambda>n. n\<lparr>gn_prev := final Some None xs\<rparr>) next_slot g2
       | None \<Rightarrow> Some (g2\<lparr>gl_tail := final Some None xs\<rparr>)) = Some g3"
      "chain Some (ghost_heap (gl_entries g3)) None (xs @ ys) None"
      "slab_ok (gl_entries g3) (gl_free_slots g3) (map fst (xs @ ys))"
      "gl_tail g3 = final Some None (xs @ ys)" "gl_head g3 = gl_head g2" "gl_size g3 = gl_size g2"
      "gl_capacity g3 = gl_capacity g2" "length (gl_entries g3) = length (gl_entries g2)"
      by (rule ghost_join_next [OF 2(2-4) tail])
    have "gl_remove g s = Some (True, g3)"
      using r sz(1) False 2(1) 3(1) by (auto simp: gl_remove_def cong: option.case_cong)
    with 2 3 sz show ?thesis by (simp add: ghost_ok_def)
  qed
qed

lemma ghost_lru_ok:
  assumes ok: "ghost_ok g ((s, k) # xs)"
  shows "\<exists>g'. gl_remove_lru g = Some (Some k, g') \<and> ghost_ok g' xs \<and> gl_capacity g' = gl_capacity g"
proof -
  have ok': "ghost_ok g ([] @ (s, k) # xs)" using ok by simp
  have head: "gl_head g = Some s" using ok by (simp add: ghost_ok_def)
  obtain g1 where r: "gl_take s g = Some (Some \<lparr>gn_key = k, gn_prev = final Some None ([] :: (nat \<times> 'a) list),
      gn_next = first Some xs None\<rparr>, g\<lparr>gl_entries := (gl_entries g)[s := None]\<rparr>)"
    "gl_shrink s (g\<lparr>gl_entries := (gl_entries g)[s := None]\<rparr>) = Some g1"
    and ch: "chain Some (ghost_heap (gl_entries g1)) (Some s) xs None"
    and slab: "slab_ok (gl_entries g1) (gl_free_slots g1) (map fst ([] @ xs))"
    and sz: "gl_size g1 = length ([] @ xs)" "length (gl_entries g1) \<le> gl_capacity g1"
      "gl_capacity g1 = gl_capacity g" "gl_head g1 = gl_head g" "gl_tail g1 = gl_tail g"
    by (rule ghost_release [OF ok'])
  show ?thesis
  proof (cases xs)
    case Nil
    with r ch slab sz head show ?thesis by (simp add: gl_remove_lru_def ghost_ok_def)
  next
    case (Cons y ys)
    let ?g = "g1\<lparr>gl_head := first Some xs None\<rparr>"
    have "xs \<noteq> [] \<Longrightarrow> gl_tail ?g = final Some None xs"
      using ok sz(5) by (simp add: ghost_ok_def final_nonempty)
    then obtain g3 where 3: "(case first Some xs None of
         Some next_slot \<Rightarrow> gl_modify (\<lambda>n. n\<lparr>gn_prev := final Some None ([] :: (nat \<times> 'a) list)\<rparr>) next_slot ?g
       | None \<Rightarrow> Some (?g\<lparr>gl_tail := final Some None ([] :: (nat \<times> 'a) list)\<rparr>)) = Some g3"
      "chain Some (ghost_heap (gl_entries g3)) None ([] @ xs) None"
      "slab_ok (gl_entries g3) (gl_free_slots g3) (map fst ([] @ xs))"
      "gl_tail g3 = final Some None ([] @ xs)" "gl_head g3 = gl_head ?g" "gl_size g3 = gl_size ?g"
      "gl_capacity g3 = gl_capacity ?g" "length (gl_entries g3) = length (gl_entries ?g)"
      using ch slab by (elim ghost_join_next [where xs = "[]" and s = s and g = ?g, rotated -1]) simp_all
    have "gl_remove_lru g = Some (Some k, g3)"
      using r sz(1) Cons head 3(1) by (simp add: gl_remove_lru_def)
    with 3 sz show ?thesis by (simp add: ghost_ok_def)
  qed
qed

lemma ghost_ok_new: "ghost_ok (ghost_list_new capacity) []"
  by (simp add: ghost_ok_def ghost_list_new_def slab_ok_def)

interpretation ghost: slot_queue ghost_ok gl_capacity gl_insert_at_tail gl_remove_lru gl_remove
proof
  show "ghost_ok q [] \<Longrightarrow> gl_remove_lru q = Some (None, q)" for q :: "'a ghost_list"
    by (simp add: gl_remove_lru_def ghost_ok_def)
qed (fact ghost_okD(1) ghost_insert_ok ghost_lru_ok ghost_remove_ok)+

end
