(* ===== verification/Clock_List.thy ===== *)
theory Clock_List
  imports Slot_Chain
begin

text \<open>
  \<open>ClockList\<close> (\<open>bmc-http/src/cache.rs\<close>): the resident pages of the cache, in a circular doubly linked
  list over a vector of slots, with the clock's hand at its head. A method that returns \<open>&mut\<close>
  returns the entry together with the function that writes it back. The locale \<open>slot_ring\<close> is what
  the cache relies on: a list of entries from the hand on, of which the head can be removed or
  passed over and any slot be read and written; the interpretation shows that the linked slots are one.
\<close>

record ('k, 'v) cache_entry =
  ce_key :: 'k
  ce_value :: 'v
  ce_ref_bit :: bool

definition cache_entry_new :: "'k \<Rightarrow> 'v \<Rightarrow> ('k, 'v) cache_entry" where
  "cache_entry_new key value = \<lparr>ce_key = key, ce_value = value, ce_ref_bit = False\<rparr>"

record ('k, 'v) clock_node =
  cn_entry :: "('k, 'v) cache_entry"
  cn_prev :: nat
  cn_next :: nat

record ('k, 'v) clock_list =
  cl_nodes :: "('k, 'v) clock_node option list"
  cl_capacity :: nat
  cl_hand :: "nat option"
  cl_free_slots :: "nat list"
  cl_size :: nat

definition clock_list_new :: "nat \<Rightarrow> ('k, 'v) clock_list" where
  "clock_list_new capacity =
     \<lparr>cl_nodes = [], cl_capacity = capacity, cl_hand = None, cl_free_slots = [], cl_size = 0\<rparr>"

definition cl_acquire_slot :: "('k, 'v) clock_list \<Rightarrow> nat option \<times> ('k, 'v) clock_list" where
  "cl_acquire_slot c =
     (case vec_pop (cl_free_slots c) of
        (Some slot, free) \<Rightarrow> (Some slot, c\<lparr>cl_free_slots := free\<rparr>)
      | (None, _) \<Rightarrow>
          if length (cl_nodes c) < cl_capacity c then
            let c = c\<lparr>cl_nodes := cl_nodes c @ [None]\<rparr> in (Some (length (cl_nodes c) - 1), c)
          else (None, c))"

text \<open>\<open>self.nodes.get(i).and_then(Option::as_ref)\<close> and an assignment through \<open>get_mut\<close>.\<close>

definition cl_node :: "('k, 'v) clock_list \<Rightarrow> nat \<Rightarrow> ('k, 'v) clock_node option" where
  "cl_node c i = (if i < length (cl_nodes c) then cl_nodes c ! i else None)"

definition cl_modify ::
  "(('k, 'v) clock_node \<Rightarrow> ('k, 'v) clock_node) \<Rightarrow> nat \<Rightarrow> ('k, 'v) clock_list \<Rightarrow> ('k, 'v) clock_list" where
  "cl_modify f i c =
     (case cl_node c i of None \<Rightarrow> c | Some n \<Rightarrow> c\<lparr>cl_nodes := (cl_nodes c)[i := Some (f n)]\<rparr>)"

definition cl_insert_at_tail ::
  "('k, 'v) clock_list \<Rightarrow> 'k \<Rightarrow> 'v \<Rightarrow> (('k \<times> 'v + nat) \<times> ('k, 'v) clock_list) outcome" where
  "cl_insert_at_tail c key value =
     (case (case cl_hand c of
              Some hand \<Rightarrow>
                (case cl_node c hand of Some node \<Rightarrow> Some (Some (cn_prev node, hand)) | None \<Rightarrow> None)
            | None \<Rightarrow> Some None) of
        None \<Rightarrow> Some (Inl (key, value), c)
      | Some links \<Rightarrow>
          (case cl_acquire_slot c of
             (None, c) \<Rightarrow> Some (Inl (key, value), c)
           | (Some slot, c) \<Rightarrow>
               let (prev, next) = (case links of Some l \<Rightarrow> l | None \<Rightarrow> (slot, slot)) in
               if \<not> slot < length (cl_nodes c) then None
               else
                 let c = c\<lparr>cl_nodes := (cl_nodes c)[slot :=
                       Some \<lparr>cn_entry = cache_entry_new key value, cn_prev = prev, cn_next = next\<rparr>]\<rparr>;
                     c = (case links of
                            Some _ \<Rightarrow>
                              cl_modify (\<lambda>n. n\<lparr>cn_prev := slot\<rparr>) next
                                (cl_modify (\<lambda>n. n\<lparr>cn_next := slot\<rparr>) prev c)
                          | None \<Rightarrow> c\<lparr>cl_hand := Some slot\<rparr>)
                 in Some (Inr slot, c\<lparr>cl_size := cl_size c + 1\<rparr>)))"

definition cl_get_mut ::
  "('k, 'v) clock_list \<Rightarrow> nat \<Rightarrow> (('k, 'v) cache_entry \<times> (('k, 'v) cache_entry \<Rightarrow> ('k, 'v) clock_list)) option" where
  "cl_get_mut c slot =
     map_option (\<lambda>node. (cn_entry node, \<lambda>e. cl_modify (\<lambda>n. n\<lparr>cn_entry := e\<rparr>) slot c)) (cl_node c slot)"

definition cl_get :: "('k, 'v) clock_list \<Rightarrow> nat \<Rightarrow> ('k, 'v) cache_entry option" where
  "cl_get c slot = map_option cn_entry (cl_node c slot)"

definition cl_get_head_page ::
  "('k, 'v) clock_list \<Rightarrow> (('k, 'v) cache_entry \<times> (('k, 'v) cache_entry \<Rightarrow> ('k, 'v) clock_list)) option" where
  "cl_get_head_page c = (case cl_hand c of None \<Rightarrow> None | Some hand \<Rightarrow> cl_get_mut c hand)"

definition cl_remove_head_page ::
  "('k, 'v) clock_list \<Rightarrow> (('k, 'v) cache_entry option \<times> ('k, 'v) clock_list) outcome" where
  "cl_remove_head_page c =
     (case cl_hand c of
        None \<Rightarrow> Some (None, c)
      | Some hand \<Rightarrow>
          (case cl_node c hand of
             None \<Rightarrow> Some (None, c)
           | Some node \<Rightarrow>
               if cl_size c = 0 then None
               else
                 let c = c\<lparr>cl_nodes := (cl_nodes c)[hand := None],
                           cl_free_slots := cl_free_slots c @ [hand], cl_size := cl_size c - 1\<rparr>;
                     c = (if cl_size c = 0 then c\<lparr>cl_hand := None\<rparr>
                          else (cl_modify (\<lambda>n. n\<lparr>cn_prev := cn_prev node\<rparr>) (cn_next node)
                                  (cl_modify (\<lambda>n. n\<lparr>cn_next := cn_next node\<rparr>) (cn_prev node) c))
                               \<lparr>cl_hand := Some (cn_next node)\<rparr>)
                 in Some (Some (cn_entry node), c)))"

definition cl_advance_hand :: "('k, 'v) clock_list \<Rightarrow> ('k, 'v) clock_list" where
  "cl_advance_hand c =
     (case cl_hand c of
        None \<Rightarrow> c
      | Some hand \<Rightarrow>
          (case cl_node c hand of None \<Rightarrow> c | Some node \<Rightarrow> c\<lparr>cl_hand := Some (cn_next node)\<rparr>))"

section \<open>The interface\<close>

text \<open>\<open>ok c xs\<close>: the ring \<open>c\<close> holds the entries of \<open>xs\<close> in its slots, from the hand on.\<close>

definition write_slot :: "nat \<Rightarrow> 'e \<Rightarrow> (nat \<times> 'e) list \<Rightarrow> (nat \<times> 'e) list" where
  "write_slot s e xs = map (\<lambda>x. if fst x = s then (s, e) else x) xs"

lemma write_slot_simps [simp]:
  "map fst (write_slot s e xs) = map fst xs" "length (write_slot s e xs) = length xs"
  "write_slot s e (xs @ ys) = write_slot s e xs @ write_slot s e ys"
  "write_slot s e (x # xs) = (if fst x = s then (s, e) else x) # write_slot s e xs"
  "write_slot s e [] = []" "write_slot s e xs = [] \<longleftrightarrow> xs = []"
  by (auto simp: write_slot_def)

lemma write_slot_id: "s \<notin> fst ` set xs \<Longrightarrow> write_slot s e xs = xs"
  by (induction xs) auto

locale slot_ring =
  fixes ok :: "'c \<Rightarrow> (nat \<times> ('k, 'v) cache_entry) list \<Rightarrow> bool"
    and capacity :: "'c \<Rightarrow> nat"
    and insert_at_tail :: "'c \<Rightarrow> 'k \<Rightarrow> 'v \<Rightarrow> (('k \<times> 'v + nat) \<times> 'c) outcome"
    and get_mut :: "'c \<Rightarrow> nat \<Rightarrow> (('k, 'v) cache_entry \<times> (('k, 'v) cache_entry \<Rightarrow> 'c)) option"
    and get_head_page :: "'c \<Rightarrow> (('k, 'v) cache_entry \<times> (('k, 'v) cache_entry \<Rightarrow> 'c)) option"
    and remove_head_page :: "'c \<Rightarrow> (('k, 'v) cache_entry option \<times> 'c) outcome"
    and advance_hand :: "'c \<Rightarrow> 'c"
  assumes ok_distinct: "ok c xs \<Longrightarrow> distinct (map fst xs)"
    and insert_ok:
      "ok c xs \<Longrightarrow> length xs < capacity c \<Longrightarrow>
       \<exists>s c'. insert_at_tail c k v = Some (Inr s, c') \<and> ok c' (xs @ [(s, cache_entry_new k v)]) \<and>
         capacity c' = capacity c"
    and get_mut_ok:
      "ok c xs \<Longrightarrow> (s, e) \<in> set xs \<Longrightarrow>
       \<exists>put. get_mut c s = Some (e, put) \<and>
         (\<forall>e'. ok (put e') (write_slot s e' xs) \<and> capacity (put e') = capacity c)"
    and head_ok:
      "ok c ((s, e) # xs) \<Longrightarrow>
       \<exists>put. get_head_page c = Some (e, put) \<and>
         (\<forall>e'. ok (put e') ((s, e') # xs) \<and> capacity (put e') = capacity c)"
    and remove_head_ok:
      "ok c ((s, e) # xs) \<Longrightarrow>
       \<exists>c'. remove_head_page c = Some (Some e, c') \<and> ok c' xs \<and> capacity c' = capacity c"
    and advance_ok: "ok c (x # xs) \<Longrightarrow> ok (advance_hand c) (xs @ [x])"
    and advance_capacity: "capacity (advance_hand c) = capacity c"
begin

lemma insert_obtain:
  assumes "ok c xs" and "length xs < capacity c"
  obtains s c' where "insert_at_tail c k v = Some (Inr s, c')" "ok c' (xs @ [(s, cache_entry_new k v)])"
    "capacity c' = capacity c" "s \<notin> fst ` set xs"
proof -
  obtain s c' where i: "insert_at_tail c k v = Some (Inr s, c')" "ok c' (xs @ [(s, cache_entry_new k v)])"
    "capacity c' = capacity c" using insert_ok [OF assms] by blast
  moreover have "s \<notin> fst ` set xs" using ok_distinct [OF i(2)] by auto
  ultimately show thesis by (rule that)
qed

end

section \<open>The linked slots are a ring\<close>

definition clock_cell :: "('k, 'v) clock_node \<Rightarrow> ('k, 'v) cache_entry \<times> nat \<times> nat" where
  "clock_cell n = (cn_entry n, cn_prev n, cn_next n)"

definition clock_heap ::
  "('k, 'v) clock_node option list \<Rightarrow> nat \<Rightarrow> (('k, 'v) cache_entry \<times> nat \<times> nat) option" where
  "clock_heap ns s = (if s < length ns then map_option clock_cell (ns ! s) else None)"

definition clock_ok :: "('k, 'v) clock_list \<Rightarrow> (nat \<times> ('k, 'v) cache_entry) list \<Rightarrow> bool" where
  "clock_ok c xs \<longleftrightarrow>
     cl_hand c = first Some xs None \<and>
     (xs \<noteq> [] \<longrightarrow> chain id (clock_heap (cl_nodes c)) (fst (last xs)) xs (fst (hd xs))) \<and>
     cl_size c = length xs \<and> slab_ok (cl_nodes c) (cl_free_slots c) (map fst xs) \<and>
     length (cl_nodes c) \<le> cl_capacity c"

lemma clock_heap_update:
  "s < length ns \<Longrightarrow> clock_heap (ns[s := x]) = (clock_heap ns)(s := map_option clock_cell x)"
  by (auto simp: clock_heap_def fun_eq_iff nth_list_update)

lemma clock_heap_grow: "cells = ns \<or> cells = ns @ [None] \<Longrightarrow> clock_heap cells = clock_heap ns"
  by (auto simp: clock_heap_def fun_eq_iff nth_append)

lemma cl_node_heap: "clock_heap (cl_nodes c) s = map_option clock_cell (cl_node c s)"
  by (simp add: clock_heap_def cl_node_def)

lemma cl_modify_heap:
  "clock_heap (cl_nodes (cl_modify (\<lambda>n. n\<lparr>cn_next := v\<rparr>) s c)) = set_next s v (clock_heap (cl_nodes c))"
  "clock_heap (cl_nodes (cl_modify (\<lambda>n. n\<lparr>cn_prev := v\<rparr>) s c)) = set_prev s v (clock_heap (cl_nodes c))"
  "clock_heap (cl_nodes (cl_modify (\<lambda>n. n\<lparr>cn_entry := e\<rparr>) s c)) =
     (clock_heap (cl_nodes c))(s := map_option (\<lambda>(_, p, n). (e, p, n)) (clock_heap (cl_nodes c) s))"
  by (cases "cl_node c s";
      auto simp: cl_modify_def set_next_def set_prev_def cl_node_heap clock_cell_def clock_heap_update
        cl_node_def split: if_splits)+

lemma cl_modify_frame [simp]:
  "cl_hand (cl_modify f s c) = cl_hand c" "cl_size (cl_modify f s c) = cl_size c"
  "cl_free_slots (cl_modify f s c) = cl_free_slots c" "cl_capacity (cl_modify f s c) = cl_capacity c"
  "length (cl_nodes (cl_modify f s c)) = length (cl_nodes c)"
  by (simp_all add: cl_modify_def split: option.split)

lemma cl_modify_slab:
  "slab_ok (cl_nodes c) free used \<Longrightarrow> slab_ok (cl_nodes (cl_modify f s c)) free used"
  by (auto simp: cl_modify_def cl_node_def slab_ok_def nth_list_update split: option.split if_splits)

lemma cl_acquire_eq:
  "cl_acquire_slot c =
     (case slab_acquire (cl_capacity c) (cl_nodes c) (cl_free_slots c) of
        None \<Rightarrow> (None, c)
      | Some (s, cells, free) \<Rightarrow> (Some s, c\<lparr>cl_nodes := cells, cl_free_slots := free\<rparr>))"
  by (cases c) (auto simp: cl_acquire_slot_def slab_acquire_def vec_pop_def)

lemma clock_okD:
  assumes "clock_ok c xs"
  shows "distinct (map fst xs)" "\<And>x. x \<in> set xs \<Longrightarrow> fst x < length (cl_nodes c)"
  using assms by (auto simp: clock_ok_def slab_ok_def)

lemma clock_head:
  assumes "clock_ok c (x # xs)"
  shows "cl_hand c = Some (fst x)"
    "cl_node c (fst x) = Some \<lparr>cn_entry = snd x, cn_prev = fst (last (x # xs)), cn_next = first id xs (fst x)\<rparr>"
proof -
  have "clock_heap (cl_nodes c) (fst x) = Some (snd x, fst (last (x # xs)), first id xs (fst x))"
    and "cl_hand c = Some (fst x)"
    using assms by (simp_all add: clock_ok_def)
  then show "cl_hand c = Some (fst x)"
    "cl_node c (fst x) = Some \<lparr>cn_entry = snd x, cn_prev = fst (last (x # xs)), cn_next = first id xs (fst x)\<rparr>"
    by (auto simp: cl_node_heap clock_cell_def)
qed

lemma first_write [simp]: "first lk (write_slot s e xs) n = first lk xs n"
  by (cases xs) simp_all

lemma chain_write:
  assumes "chain lk h p xs n" and "distinct (map fst xs)"
  shows "chain lk (h(s := map_option (\<lambda>(_, p, n). (e, p, n)) (h s))) p (write_slot s e xs) n"
  using assms
proof (induction xs arbitrary: p)
  case (Cons x xs)
  show ?case
  proof (cases "fst x = s")
    case True
    with Cons.prems have s: "s \<notin> slots_of xs" by auto
    have "chain lk (h(s := v)) (lk s) xs n" for v using Cons.prems True s by simp
    with Cons.prems True s show ?thesis by (simp add: write_slot_id del: fun_upd_apply) simp
  qed (use Cons in simp)
qed simp

lemma clock_insert_ok:
  assumes ok: "clock_ok c xs" and room: "length xs < cl_capacity c"
  shows "\<exists>s c'. cl_insert_at_tail c k v = Some (Inr s, c') \<and>
    clock_ok c' (xs @ [(s, cache_entry_new k v)]) \<and> cl_capacity c' = cl_capacity c"
proof -
  have slab: "slab_ok (cl_nodes c) (cl_free_slots c) (map fst xs)" "length (cl_nodes c) \<le> cl_capacity c"
    using ok by (simp_all add: clock_ok_def)
  have "length (map fst xs) < cl_capacity c" using room by simp
  with slab(1) obtain s cells free where a:
      "slab_acquire (cl_capacity c) (cl_nodes c) (cl_free_slots c) = Some (s, cells, free)"
      "s \<notin> set (map fst xs)" "s < length cells" "cells ! s = None" "length cells \<le> cl_capacity c"
      "cells = cl_nodes c \<or> cells = cl_nodes c @ [None]"
      "\<forall>x. slab_ok (cells[s := x]) free (map fst xs @ [s])"
    using slab(2) by (rule slab_acquire_ok)
  have heap: "clock_heap cells = clock_heap (cl_nodes c)" using a(6) by (rule clock_heap_grow)
  let ?e = "cache_entry_new k v"
  show ?thesis
  proof (cases xs)
    case Nil
    with ok have "cl_hand c = None" by (simp add: clock_ok_def)
    with Nil ok a heap show ?thesis
      by (auto simp: cl_insert_at_tail_def cl_acquire_eq clock_ok_def clock_heap_update clock_cell_def)
  next
    case (Cons x ys)
    let ?z = "fst (last xs)" and ?a = "fst x"
    let ?c1 = "c\<lparr>cl_free_slots := free, cl_nodes :=
        cells[s := Some \<lparr>cn_entry = ?e, cn_prev = ?z, cn_next = ?a\<rparr>]\<rparr>"
    let ?c2 = "cl_modify (\<lambda>n. n\<lparr>cn_prev := s\<rparr>) ?a (cl_modify (\<lambda>n. n\<lparr>cn_next := s\<rparr>) ?z ?c1)"
    have hd: "cl_hand c = Some ?a" "cl_node c ?a = Some \<lparr>cn_entry = snd x, cn_prev = ?z, cn_next = first id ys ?a\<rparr>"
      using clock_head [of c x ys] ok Cons by simp_all
    have dist: "distinct (map fst xs)" using clock_okD(1) [OF ok] .
    have ne: "?z \<noteq> s" "?a \<noteq> s" "xs \<noteq> []" using a(2) Cons last_in_set [of xs] by auto
    let ?h = "clock_heap (cl_nodes c)"
    have ch: "chain id ?h ?z xs ?a" using ok Cons by (simp add: clock_ok_def)
    let ?H = "set_prev ?a s (set_next ?z s (?h(s \<mapsto> (?e, ?z, ?a))))"
    have "chain id (set_prev ?a s (set_next ?z s ?h)) s xs s"
      using chain_set_hd_prev [OF chain_set_last_next [OF ch ne(3) dist] ne(3) dist, of s s] Cons by simp
    moreover have "?H t = set_prev ?a s (set_next ?z s ?h) t" if "t \<in> slots_of xs" for t
      using that a(2) ne by (auto simp: set_prev_def set_next_def)
    ultimately have "chain id ?H s xs s" by (simp cong: chain_cong)
    moreover have "?H s = Some (?e, ?z, ?a)" using ne by (simp add: set_prev_def set_next_def)
    ultimately have "chain id ?H s (xs @ [(s, ?e)]) ?a"
      using ne(3) by (simp add: chain_append final_nonempty)
    moreover have "clock_heap (cl_nodes ?c2) = ?H"
      using a(3) heap by (simp add: cl_modify_heap clock_heap_update clock_cell_def)
    moreover have "slab_ok (cl_nodes ?c2) free (map fst (xs @ [(s, ?e)]))"
      using a(7) by (intro cl_modify_slab) simp
    moreover have "cl_insert_at_tail c k v = Some (Inr s, ?c2\<lparr>cl_size := cl_size ?c2 + 1\<rparr>)"
      using a hd by (simp add: cl_insert_at_tail_def cl_acquire_eq Let_def)
    ultimately show ?thesis using ok a(5) Cons hd(1) by (auto simp: clock_ok_def)
  qed
qed

lemma clock_remove_head_ok:
  assumes ok: "clock_ok c ((a, e) # xs)"
  shows "\<exists>c'. cl_remove_head_page c = Some (Some e, c') \<and> clock_ok c' xs \<and> cl_capacity c' = cl_capacity c"
proof -
  have hd: "cl_hand c = Some a"
      "cl_node c a = Some \<lparr>cn_entry = e, cn_prev = fst (last ((a, e) # xs)), cn_next = first id xs a\<rparr>"
    using clock_head [OF ok] by simp_all
  have ad: "a < length (cl_nodes c)" "a \<notin> slots_of xs" "distinct (map fst xs)"
    using clock_okD(1) [OF ok] clock_okD(2) [OF ok, of "(a, e)"] by auto
  let ?c1 = "c\<lparr>cl_nodes := (cl_nodes c)[a := None], cl_free_slots := cl_free_slots c @ [a],
      cl_size := cl_size c - 1\<rparr>"
  have slab: "slab_ok (cl_nodes ?c1) (cl_free_slots ?c1) (map fst xs)"
    using slab_ok_release [of "cl_nodes c" "cl_free_slots c" "[]" a "map fst xs"] ok by (simp add: clock_ok_def)
  show ?thesis
  proof (cases "xs = []")
    case True
    with ok hd slab show ?thesis by (auto simp: cl_remove_head_page_def clock_ok_def)
  next
    case False
    let ?z = "fst (last xs)" and ?b = "fst (hd xs)"
    let ?c2 = "cl_modify (\<lambda>n. n\<lparr>cn_prev := ?z\<rparr>) ?b (cl_modify (\<lambda>n. n\<lparr>cn_next := ?b\<rparr>) ?z ?c1)"
    let ?h = "(clock_heap (cl_nodes c))(a := None)"
    have links: "fst (last ((a, e) # xs)) = ?z" "first id xs a = ?b" using False by (cases xs; simp)+
    have "chain id ?h a xs a" using ok False ad(2) by (simp add: clock_ok_def)
    from chain_set_hd_prev [OF chain_set_last_next [OF this False ad(3)] False ad(3)]
    have "chain id (clock_heap (cl_nodes ?c2)) ?z xs ?b"
      using ad(1) by (simp add: cl_modify_heap clock_heap_update)
    moreover have "slab_ok (cl_nodes ?c2) (cl_free_slots ?c2) (map fst xs)"
      using slab by (simp add: cl_modify_slab)
    moreover have "cl_remove_head_page c = Some (Some e, ?c2\<lparr>cl_hand := Some ?b\<rparr>)"
      using ok hd False links by (simp add: cl_remove_head_page_def clock_ok_def Let_def)
    moreover have "first Some xs None = Some ?b" using False by (cases xs) simp_all
    ultimately show ?thesis using ok False by (auto simp: clock_ok_def)
  qed
qed

lemma clock_advance_ok:
  assumes ok: "clock_ok c (x # xs)"
  shows "clock_ok (cl_advance_hand c) (xs @ [x])"
proof -
  let ?h = "clock_heap (cl_nodes c)"
  have ch: "?h (fst x) = Some (snd x, fst (last (x # xs)), first id xs (fst x))" "chain id ?h (fst x) xs (fst x)"
    using ok by (simp_all add: clock_ok_def)
  have "final id (fst x) xs = fst (last (x # xs))" by (cases "xs = []") (simp_all add: final_nonempty)
  moreover have "fst (hd (xs @ [x])) = first id xs (fst x)" by (cases xs) simp_all
  ultimately have "chain id ?h (fst (last (xs @ [x]))) (xs @ [x]) (fst (hd (xs @ [x])))"
    using ch by (simp add: chain_append)
  moreover have "slab_ok (cl_nodes c) (cl_free_slots c) (map fst (xs @ [x]))"
    by (rule slab_ok_perm [of _ _ "map fst (x # xs)"]) (use ok in \<open>simp_all add: clock_ok_def\<close>)
  moreover have "first Some (xs @ [x]) None = Some (first id xs (fst x))" by (cases xs) simp_all
  moreover have "cl_advance_hand c = c\<lparr>cl_hand := Some (first id xs (fst x))\<rparr>"
    using clock_head [OF ok] by (simp add: cl_advance_hand_def)
  moreover have "cl_size c = length (xs @ [x])" "length (cl_nodes c) \<le> cl_capacity c"
    using ok by (simp_all add: clock_ok_def)
  ultimately show ?thesis by (simp add: clock_ok_def)
qed

lemma clock_write_ok:
  assumes ok: "clock_ok c xs" and mem: "(s, e) \<in> set xs"
  shows "\<exists>put. cl_get_mut c s = Some (e, put) \<and>
    (\<forall>e'. clock_ok (put e') (write_slot s e' xs) \<and> cl_capacity (put e') = cl_capacity c)"
proof -
  have ne: "xs \<noteq> []" using mem by auto
  have ch: "chain id (clock_heap (cl_nodes c)) (fst (last xs)) xs (fst (hd xs))"
    using ok ne by (simp add: clock_ok_def)
  obtain n where n: "cl_node c s = Some n" "cn_entry n = e"
    using chain_lookup [OF ch mem] by (auto simp: cl_node_heap clock_cell_def)
  have ends: "fst (last (write_slot s e' xs)) = fst (last xs)" "fst (hd (write_slot s e' xs)) = fst (hd xs)" for e'
    using ne by (simp_all add: write_slot_def last_map hd_map)
  have "clock_ok (cl_modify (\<lambda>n. n\<lparr>cn_entry := e'\<rparr>) s c) (write_slot s e' xs)" for e'
    using ok ne chain_write [OF ch clock_okD(1) [OF ok], of s e'] cl_modify_slab [of c "cl_free_slots c" "map fst xs"]
    by (simp add: clock_ok_def cl_modify_heap ends)
  with n show ?thesis by (auto simp: cl_get_mut_def)
qed

lemma clock_get: "clock_ok c xs \<Longrightarrow> (s, e) \<in> set xs \<Longrightarrow> cl_get c s = Some e"
  using clock_write_ok by (fastforce simp: cl_get_def cl_get_mut_def)

lemma clock_ok_new: "clock_ok (clock_list_new capacity) []"
  by (simp add: clock_ok_def clock_list_new_def slab_ok_def)

interpretation clock: slot_ring clock_ok cl_capacity cl_insert_at_tail cl_get_mut cl_get_head_page
  cl_remove_head_page cl_advance_hand
proof
  fix c :: "('a, 'b) clock_list" and s e xs
  assume ok: "clock_ok c ((s, e) # xs)"
  have "s \<notin> fst ` set xs" using clock_okD(1) [OF ok] by simp
  with clock_write_ok [OF ok, of s e] clock_head(1) [OF ok]
  show "\<exists>put. cl_get_head_page c = Some (e, put) \<and>
      (\<forall>e'. clock_ok (put e') ((s, e') # xs) \<and> cl_capacity (put e') = cl_capacity c)"
    by (simp add: cl_get_head_page_def write_slot_id)
next
  show "cl_capacity (cl_advance_hand c) = cl_capacity c" for c :: "('a, 'b) clock_list"
    by (simp add: cl_advance_hand_def split: option.split)
qed (fact clock_okD(1) clock_insert_ok clock_write_ok clock_remove_head_ok clock_advance_ok)+

end
