(* ===== verification/Car_Spec.thy ===== *)
theory Car_Spec
  imports Clock_List
begin

text \<open>
  The specification of the HTTP cache: the algorithm CAR (clock with adaptive replacement) of Bansal and
  Modha, which \<open>bmc-http/src/cache.rs\<close> names as its specification, on lists. \<open>cs_t1\<close> and \<open>cs_t2\<close> are
  the clocks from their hands on, \<open>cs_b1\<close> and \<open>cs_b2\<close> the keys of demoted pages, oldest first. The lemmas show
  that the search for a victim ends and that every operation keeps the sizes within the bounds the
  paper calls I1 to I7, with no key in two places.
\<close>

record ('k, 'v) car_spec =
  cs_c :: nat
  cs_p :: nat
  cs_t1 :: "('k, 'v) cache_entry list"
  cs_t2 :: "('k, 'v) cache_entry list"
  cs_b1 :: "'k list"
  cs_b2 :: "'k list"

definition spec_new :: "nat \<Rightarrow> ('k, 'v) car_spec" where
  "spec_new c = \<lparr>cs_c = c, cs_p = 0, cs_t1 = [], cs_t2 = [], cs_b1 = [], cs_b2 = []\<rparr>"

definition unreferenced :: "('k, 'v) cache_entry \<Rightarrow> ('k, 'v) cache_entry" where
  "unreferenced e = e\<lparr>ce_ref_bit := False\<rparr>"

text \<open>
  The paper's \<open>replace()\<close>: the page to demote, whether it comes from T1, and the clocks without it. A
  referenced page of T1 moves to the tail of T2, one of T2 loses its bit and is passed over.
\<close>

function spec_victim ::
  "nat \<Rightarrow> ('k, 'v) cache_entry list \<Rightarrow> ('k, 'v) cache_entry list \<Rightarrow>
   (bool \<times> ('k, 'v) cache_entry \<times> ('k, 'v) cache_entry list \<times> ('k, 'v) cache_entry list) option" where
  "spec_victim p t1 t2 =
     (if max 1 p \<le> length t1 then
        (case t1 of
           [] \<Rightarrow> None
         | e # es \<Rightarrow>
             if \<not> ce_ref_bit e then Some (True, e, es, t2)
             else spec_victim p es (t2 @ [unreferenced e]))
      else
        (case t2 of
           [] \<Rightarrow> None
         | e # es \<Rightarrow>
             if \<not> ce_ref_bit e then Some (False, e, t1, es)
             else spec_victim p t1 (es @ [unreferenced e])))"
  by pat_completeness auto

termination
  by (relation "measure (\<lambda>(p, t1, t2). length (filter ce_ref_bit (t1 @ t2)))") (auto simp: unreferenced_def)

declare spec_victim.simps [simp del]

definition spec_replace :: "('k, 'v) car_spec \<Rightarrow> (('k, 'v) cache_entry \<times> ('k, 'v) car_spec) option" where
  "spec_replace a =
     (case spec_victim (cs_p a) (cs_t1 a) (cs_t2 a) of
        None \<Rightarrow> None
      | Some (from_t1, e, t1, t2) \<Rightarrow>
          Some (e, if from_t1 then a\<lparr>cs_t1 := t1, cs_t2 := t2, cs_b1 := cs_b1 a @ [ce_key e]\<rparr>
                   else a\<lparr>cs_t1 := t1, cs_t2 := t2, cs_b2 := cs_b2 a @ [ce_key e]\<rparr>))"

text \<open>Lines 6 to 9 of the paper, for a key that is in neither ghost list.\<close>

definition spec_discard :: "'k \<Rightarrow> ('k, 'v) car_spec \<Rightarrow> ('k, 'v) car_spec" where
  "spec_discard k a =
     (if k \<in> set (cs_b1 a) \<union> set (cs_b2 a) then a
      else if length (cs_t1 a) + length (cs_b1 a) = cs_c a then a\<lparr>cs_b1 := tl (cs_b1 a)\<rparr>
      else if length (cs_t1 a) + length (cs_t2 a) + length (cs_b1 a) + length (cs_b2 a) = 2 * cs_c a
        then a\<lparr>cs_b2 := tl (cs_b2 a)\<rparr>
      else a)"

text \<open>Lines 12 to 20: where the requested page goes, and how the target \<open>p\<close> adapts.\<close>

definition spec_place :: "'k \<Rightarrow> 'v \<Rightarrow> ('k, 'v) car_spec \<Rightarrow> ('k, 'v) car_spec" where
  "spec_place k v a =
     (if k \<in> set (cs_b1 a) then
        a\<lparr>cs_p := min (cs_p a + max 1 (length (cs_b2 a) div length (cs_b1 a))) (cs_c a),
          cs_b1 := remove1 k (cs_b1 a), cs_t2 := cs_t2 a @ [cache_entry_new k v]\<rparr>
      else if k \<in> set (cs_b2 a) then
        a\<lparr>cs_p := cs_p a - max 1 (length (cs_b1 a) div length (cs_b2 a)),
          cs_b2 := remove1 k (cs_b2 a), cs_t2 := cs_t2 a @ [cache_entry_new k v]\<rparr>
      else a\<lparr>cs_t1 := cs_t1 a @ [cache_entry_new k v]\<rparr>)"

definition on_page :: "'k \<Rightarrow> (('k, 'v) cache_entry \<Rightarrow> ('k, 'v) cache_entry) \<Rightarrow>
    ('k, 'v) cache_entry list \<Rightarrow> ('k, 'v) cache_entry list" where
  "on_page k f es = map (\<lambda>e. if ce_key e = k then f e else e) es"

definition resident :: "('k, 'v) car_spec \<Rightarrow> 'k set" where
  "resident a = ce_key ` set (cs_t1 a @ cs_t2 a)"

definition spec_touch :: "'k \<Rightarrow> (('k, 'v) cache_entry \<Rightarrow> ('k, 'v) cache_entry) \<Rightarrow>
    ('k, 'v) car_spec \<Rightarrow> ('k, 'v) car_spec" where
  "spec_touch k f a = a\<lparr>cs_t1 := on_page k f (cs_t1 a), cs_t2 := on_page k f (cs_t2 a)\<rparr>"

definition spec_put :: "('k, 'v) car_spec \<Rightarrow> 'k \<Rightarrow> 'v \<Rightarrow> ('k, 'v) cache_entry option \<times> ('k, 'v) car_spec" where
  "spec_put a k v =
     (if cs_c a = 0 then (None, a)
      else if k \<in> resident a then (None, spec_touch k (\<lambda>e. e\<lparr>ce_value := v, ce_ref_bit := True\<rparr>) a)
      else if length (cs_t1 a) + length (cs_t2 a) = cs_c a then
        (case spec_replace a of
           None \<Rightarrow> (None, a)
         | Some (e, a) \<Rightarrow> (Some e, spec_place k v (spec_discard k a)))
      else (None, spec_place k v a))"

definition spec_lookup :: "('k, 'v) car_spec \<Rightarrow> 'k \<Rightarrow> 'v option" where
  "spec_lookup a k = map_of (map (\<lambda>e. (ce_key e, ce_value e)) (cs_t1 a @ cs_t2 a)) k"

definition spec_get :: "('k, 'v) car_spec \<Rightarrow> 'k \<Rightarrow> 'v option \<times> ('k, 'v) car_spec" where
  "spec_get a k = (spec_lookup a k, spec_touch k (\<lambda>e. e\<lparr>ce_ref_bit := True\<rparr>) a)"

section \<open>The invariants of the paper\<close>

definition all_keys :: "('k, 'v) car_spec \<Rightarrow> 'k list" where
  "all_keys a = map ce_key (cs_t1 a) @ map ce_key (cs_t2 a) @ cs_b1 a @ cs_b2 a"

definition spec_ok :: "('k, 'v) car_spec \<Rightarrow> bool" where
  "spec_ok a \<longleftrightarrow>
     distinct (all_keys a) \<and> cs_p a \<le> cs_c a \<and>
     length (cs_t1 a) + length (cs_t2 a) \<le> cs_c a \<and> length (cs_t1 a) + length (cs_b1 a) \<le> cs_c a \<and>
     length (all_keys a) \<le> 2 * cs_c a \<and>
     (length (cs_t1 a) + length (cs_t2 a) < cs_c a \<longrightarrow> cs_b1 a = [] \<and> cs_b2 a = [])"

lemma spec_ok_new: "spec_ok (spec_new c)"
  by (simp add: spec_ok_def spec_new_def all_keys_def)

text \<open>
  The pages of both clocks other than the victim stay, up to their bits and the clock they are in.
\<close>

abbreviation pages :: "('k, 'v) cache_entry list \<Rightarrow> ('k \<times> 'v) multiset" where
  "pages es \<equiv> image_mset (\<lambda>e. (ce_key e, ce_value e)) (mset es)"

lemma unreferenced_simps [simp]:
  "ce_key (unreferenced e) = ce_key e" "ce_value (unreferenced e) = ce_value e"
  "\<not> ce_ref_bit (unreferenced e)"
  by (simp_all add: unreferenced_def)

lemma spec_victim_ok:
  assumes "p \<le> length t1 + length t2" and "0 < length t1 + length t2"
  shows "\<exists>b e t1' t2'. spec_victim p t1 t2 = Some (b, e, t1', t2') \<and>
    pages (t1 @ t2) = add_mset (ce_key e, ce_value e) (pages (t1' @ t2')) \<and>
    length t1' + of_bool b \<le> length t1"
  using assms
proof (induction p t1 t2 rule: spec_victim.induct)
  case (1 p t1 t2)
  show ?case
  proof (cases "max 1 p \<le> length t1")
    case True
    then obtain e es where t1: "t1 = e # es" by (cases t1) auto
    show ?thesis
    proof (cases "ce_ref_bit e")
      case False
      with True t1 show ?thesis by (subst spec_victim.simps) auto
    next
      case True': True
      have "\<exists>b x t1' t2'. spec_victim p es (t2 @ [unreferenced e]) = Some (b, x, t1', t2') \<and>
          pages (es @ t2 @ [unreferenced e]) = add_mset (ce_key x, ce_value x) (pages (t1' @ t2')) \<and>
          length t1' + of_bool b \<le> length es"
        using "1.IH"(1) [OF True t1] True' "1.prems" t1 by simp
      then show ?thesis
        by (subst spec_victim.simps) (use True t1 True' in auto)
    qed
  next
    case False
    then have "t2 \<noteq> []" using "1.prems" by (cases t1) auto
    then obtain e es where t2: "t2 = e # es" by (cases t2) auto
    show ?thesis
    proof (cases "ce_ref_bit e")
      case False': False
      with False t2 show ?thesis by (subst spec_victim.simps) auto
    next
      case True
      have "\<exists>b x t1' t2'. spec_victim p t1 (es @ [unreferenced e]) = Some (b, x, t1', t2') \<and>
          pages (t1 @ es @ [unreferenced e]) = add_mset (ce_key x, ce_value x) (pages (t1' @ t2')) \<and>
          length t1' + of_bool b \<le> length t1"
        using "1.IH"(2) [OF False t2] True "1.prems" t2 by simp
      then show ?thesis
        by (subst spec_victim.simps) (use False t2 True in auto)
    qed
  qed
qed

lemma pages_keys: "image_mset fst (pages es) = mset (map ce_key es)"
  by (simp add: image_mset.compositionality comp_def)

lemma pages_size: "size (pages es) = length es"
  by simp

lemma spec_replace_ok:
  assumes ok: "spec_ok a" and full: "length (cs_t1 a) + length (cs_t2 a) = cs_c a" "0 < cs_c a"
  obtains e a' where "spec_replace a = Some (e, a')" "cs_c a' = cs_c a" "cs_p a' = cs_p a"
    "pages (cs_t1 a @ cs_t2 a) = add_mset (ce_key e, ce_value e) (pages (cs_t1 a' @ cs_t2 a'))"
    "mset (all_keys a') = mset (all_keys a)" "ce_key e \<in> set (cs_b1 a' @ cs_b2 a')"
    "length (cs_t1 a') + length (cs_b1 a') \<le> cs_c a"
    "Suc (length (cs_t1 a') + length (cs_t2 a')) = cs_c a"
proof -
  have "cs_p a \<le> length (cs_t1 a) + length (cs_t2 a)" "0 < length (cs_t1 a) + length (cs_t2 a)"
    using ok full by (simp_all add: spec_ok_def)
  from spec_victim_ok [OF this] obtain b e t1 t2 where v:
      "spec_victim (cs_p a) (cs_t1 a) (cs_t2 a) = Some (b, e, t1, t2)"
      "pages (cs_t1 a @ cs_t2 a) = add_mset (ce_key e, ce_value e) (pages (t1 @ t2))"
      "length t1 + of_bool b \<le> length (cs_t1 a)" by blast
  have len: "Suc (length t1 + length t2) = cs_c a"
    using arg_cong [OF v(2), of size] full by simp
  have keys: "mset (map ce_key (cs_t1 a @ cs_t2 a)) = add_mset (ce_key e) (mset (map ce_key (t1 @ t2)))"
    using arg_cong [OF v(2), of "image_mset fst"] by (simp add: image_mset.compositionality comp_def)
  let ?a = "if b then a\<lparr>cs_t1 := t1, cs_t2 := t2, cs_b1 := cs_b1 a @ [ce_key e]\<rparr>
    else a\<lparr>cs_t1 := t1, cs_t2 := t2, cs_b2 := cs_b2 a @ [ce_key e]\<rparr>"
  show thesis
  proof (rule that [of e ?a])
    show "spec_replace a = Some (e, ?a)" using v(1) by (simp add: spec_replace_def)
    show "mset (all_keys ?a) = mset (all_keys a)" using keys by (auto simp: all_keys_def)
    show "length (cs_t1 ?a) + length (cs_b1 ?a) \<le> cs_c a" using ok v(3) by (auto simp: spec_ok_def)
  qed (use v(2) len in auto)
qed

lemma all_keys_length:
  "length (all_keys a) = length (cs_t1 a) + length (cs_t2 a) + length (cs_b1 a) + length (cs_b2 a)"
  by (simp add: all_keys_def)

lemma distinct_mset: "mset xs = mset ys \<Longrightarrow> distinct xs = distinct ys"
  by (metis mset_eq_imp_distinct_iff)

text \<open>The states between \<open>replace\<close> and the placement of the requested page.\<close>

definition mid_ok :: "'k \<Rightarrow> ('k, 'v) car_spec \<Rightarrow> bool" where
  "mid_ok k a \<longleftrightarrow>
     distinct (all_keys a) \<and> k \<notin> resident a \<and> cs_p a \<le> cs_c a \<and>
     length (cs_t1 a) + length (cs_t2 a) < cs_c a \<and>
     length (all_keys a) + of_bool (k \<notin> set (cs_b1 a @ cs_b2 a)) \<le> 2 * cs_c a \<and>
     length (cs_t1 a) + length (cs_b1 a) + of_bool (k \<notin> set (cs_b1 a @ cs_b2 a)) \<le> cs_c a \<and>
     (Suc (length (cs_t1 a) + length (cs_t2 a)) < cs_c a \<longrightarrow> cs_b1 a = [] \<and> cs_b2 a = [])"

lemma spec_discard_ok:
  assumes "distinct (all_keys a)" and "k \<notin> resident a" and "cs_p a \<le> cs_c a"
    and "Suc (length (cs_t1 a) + length (cs_t2 a)) = cs_c a"
    and "length (all_keys a) \<le> 2 * cs_c a" and "length (cs_t1 a) + length (cs_b1 a) \<le> cs_c a"
  shows "mid_ok k (spec_discard k a)"
proof (cases "k \<in> set (cs_b1 a) \<union> set (cs_b2 a)")
  case True
  with assms show ?thesis by (simp add: mid_ok_def spec_discard_def)
next
  case False
  have tl: "distinct (map ce_key (cs_t1 a) @ map ce_key (cs_t2 a) @ tl (cs_b1 a) @ cs_b2 a)"
      "distinct (map ce_key (cs_t1 a) @ map ce_key (cs_t2 a) @ cs_b1 a @ tl (cs_b2 a))"
    using assms(1) by (cases "cs_b1 a"; cases "cs_b2 a"; simp add: all_keys_def)+
  have sub: "set (tl (cs_b1 a)) \<subseteq> set (cs_b1 a)" "set (tl (cs_b2 a)) \<subseteq> set (cs_b2 a)"
    by (cases "cs_b1 a"; simp; blast) (cases "cs_b2 a"; simp; blast)
  consider (b1) "length (cs_t1 a) + length (cs_b1 a) = cs_c a"
    | (b2) "length (cs_t1 a) + length (cs_b1 a) \<noteq> cs_c a"
        "length (cs_t1 a) + length (cs_t2 a) + length (cs_b1 a) + length (cs_b2 a) = 2 * cs_c a"
    | (none) "length (cs_t1 a) + length (cs_b1 a) \<noteq> cs_c a"
        "length (cs_t1 a) + length (cs_t2 a) + length (cs_b1 a) + length (cs_b2 a) \<noteq> 2 * cs_c a"
    by blast
  then show ?thesis
  proof cases
    case b1
    then have "spec_discard k a = a\<lparr>cs_b1 := tl (cs_b1 a)\<rparr>" using False by (simp add: spec_discard_def)
    with b1 assms False tl(1) sub show ?thesis
      by (auto simp: mid_ok_def all_keys_def resident_def)
  next
    case b2
    then have "spec_discard k a = a\<lparr>cs_b2 := tl (cs_b2 a)\<rparr>" using False by (simp add: spec_discard_def)
    with b2 assms False tl(2) sub show ?thesis
      by (auto simp: mid_ok_def all_keys_def resident_def)
  next
    case none
    then have "spec_discard k a = a" using False by (simp add: spec_discard_def)
    with none assms False show ?thesis
      by (auto simp: mid_ok_def all_keys_def resident_def)
  qed
qed

lemma all_keys_resident: "set (all_keys a) = resident a \<union> set (cs_b1 a) \<union> set (cs_b2 a)"
  by (auto simp: all_keys_def resident_def)

lemma cache_entry_new_simps [simp]:
  "ce_key (cache_entry_new k v) = k" "ce_value (cache_entry_new k v) = v" "\<not> ce_ref_bit (cache_entry_new k v)"
  by (simp_all add: cache_entry_new_def)

lemma spec_place_keys:
  assumes "distinct (all_keys a)" and "k \<notin> resident a"
  shows "mset (all_keys (spec_place k v a)) =
    (if k \<in> set (cs_b1 a @ cs_b2 a) then mset (all_keys a) else add_mset k (mset (all_keys a)))"
  using assms by (auto simp: spec_place_def all_keys_def)

lemma spec_place_ok:
  assumes mid: "mid_ok k a"
  shows "spec_ok (spec_place k v a)"
proof -
  have d: "distinct (all_keys a)" "k \<notin> resident a" using mid by (simp_all add: mid_ok_def)
  note keys = spec_place_keys [OF d, of v]
  have "distinct (all_keys (spec_place k v a))"
  proof (cases "k \<in> set (cs_b1 a @ cs_b2 a)")
    case True
    with keys have "mset (all_keys (spec_place k v a)) = mset (all_keys a)" by simp
    then show ?thesis using d(1) distinct_mset by blast
  next
    case False
    with keys have "mset (all_keys (spec_place k v a)) = mset (k # all_keys a)" by simp
    moreover have "distinct (k # all_keys a)" using d False by (simp add: all_keys_resident)
    ultimately show ?thesis using distinct_mset by blast
  qed
  moreover have "length (all_keys (spec_place k v a)) =
      length (all_keys a) + of_bool (k \<notin> set (cs_b1 a @ cs_b2 a))"
    using arg_cong [OF keys, of size] by (simp split: if_splits)
  moreover have "k \<in> set xs \<Longrightarrow> length (remove1 k xs) = length xs - 1 \<and> 0 < length xs" for xs
    by (auto simp: length_remove1 dest: length_pos_if_in_set)
  ultimately show ?thesis
    using mid by (auto simp: spec_ok_def mid_ok_def spec_place_def)
qed

lemma on_page_key: "(\<And>e. ce_key (f e) = ce_key e) \<Longrightarrow> map ce_key (on_page k f es) = map ce_key es"
  by (simp add: on_page_def)

lemma on_page_length [simp]: "length (on_page k f es) = length es"
  by (simp add: on_page_def)

lemma spec_touch_ok:
  assumes "\<And>e. ce_key (f e) = ce_key e"
  shows "spec_ok (spec_touch k f a) = spec_ok a"
  using on_page_key [of f] assms by (simp add: spec_ok_def spec_touch_def all_keys_def)

lemma on_page_append [simp]: "on_page k f (xs @ ys) = on_page k f xs @ on_page k f ys"
  by (simp add: on_page_def)

lemma spec_touch_simps [simp]:
  "cs_c (spec_touch k f a) = cs_c a" "cs_p (spec_touch k f a) = cs_p a"
  "cs_b1 (spec_touch k f a) = cs_b1 a" "cs_b2 (spec_touch k f a) = cs_b2 a"
  by (simp_all add: spec_touch_def)

lemma lookup_on_page:
  "map_of (map (\<lambda>e. (ce_key e, ce_value e)) (on_page k (\<lambda>e. e\<lparr>ce_value := v, ce_ref_bit := b\<rparr>) es)) =
     (if k \<in> ce_key ` set es then (map_of (map (\<lambda>e. (ce_key e, ce_value e)) es))(k \<mapsto> v)
      else map_of (map (\<lambda>e. (ce_key e, ce_value e)) es))"
  "map_of (map (\<lambda>e. (ce_key e, ce_value e)) (on_page k (\<lambda>e. e\<lparr>ce_ref_bit := b\<rparr>) es)) =
     map_of (map (\<lambda>e. (ce_key e, ce_value e)) es)"
  by (induction es) (auto simp: on_page_def fun_eq_iff)

lemma spec_lookup_touch:
  "k \<in> resident a \<Longrightarrow>
   spec_lookup (spec_touch k (\<lambda>e. e\<lparr>ce_value := v, ce_ref_bit := b\<rparr>) a) = (spec_lookup a)(k \<mapsto> v)"
  "spec_lookup (spec_touch k (\<lambda>e. e\<lparr>ce_ref_bit := b\<rparr>) a) = spec_lookup a"
  using lookup_on_page(1) [of k b v "cs_t1 a @ cs_t2 a"] lookup_on_page(2) [of k b "cs_t1 a @ cs_t2 a"]
  by (simp_all add: spec_lookup_def [abs_def] spec_touch_def resident_def)

lemma spec_lookup_iff:
  assumes "distinct (all_keys a)"
  shows "spec_lookup a k = Some v \<longleftrightarrow> (k, v) \<in># pages (cs_t1 a @ cs_t2 a)"
proof -
  have "map fst (map (\<lambda>e. (ce_key e, ce_value e)) (cs_t1 a @ cs_t2 a)) = map ce_key (cs_t1 a) @ map ce_key (cs_t2 a)"
    by simp
  then have "distinct (map fst (map (\<lambda>e. (ce_key e, ce_value e)) (cs_t1 a @ cs_t2 a)))"
    using assms by (auto simp: all_keys_def comp_def)
  then have "spec_lookup a k = Some v \<longleftrightarrow>
      (k, v) \<in> set (map (\<lambda>e. (ce_key e, ce_value e)) (cs_t1 a @ cs_t2 a))"
    unfolding spec_lookup_def by (rule map_of_eq_Some_iff)
  then show ?thesis by (simp add: image_Un)
qed

lemma spec_lookup_resident: "spec_lookup a k = None \<longleftrightarrow> k \<notin> resident a"
  by (auto simp: spec_lookup_def resident_def map_of_eq_None_iff image_image)

lemma spec_discard_pages:
  "cs_t1 (spec_discard k a) = cs_t1 a" "cs_t2 (spec_discard k a) = cs_t2 a" "cs_c (spec_discard k a) = cs_c a"
  by (simp_all add: spec_discard_def)

lemma spec_place_c: "cs_c (spec_place k v a) = cs_c a"
  by (simp add: spec_place_def)

lemma spec_put_cases:
  assumes ok: "spec_ok a"
  obtains (off) "cs_c a = 0" "spec_put a k v = (None, a)"
  | (hit) "0 < cs_c a" "k \<in> resident a"
      "spec_put a k v = (None, spec_touch k (\<lambda>e. e\<lparr>ce_value := v, ce_ref_bit := True\<rparr>) a)"
  | (full) e a1 where "0 < cs_c a" "k \<notin> resident a" "length (cs_t1 a) + length (cs_t2 a) = cs_c a"
      "spec_replace a = Some (e, a1)" "spec_put a k v = (Some e, spec_place k v (spec_discard k a1))"
      "mid_ok k (spec_discard k a1)" "cs_c a1 = cs_c a"
      "pages (cs_t1 a @ cs_t2 a) = add_mset (ce_key e, ce_value e) (pages (cs_t1 a1 @ cs_t2 a1))"
  | (room) "0 < cs_c a" "k \<notin> resident a" "length (cs_t1 a) + length (cs_t2 a) < cs_c a"
      "spec_put a k v = (None, spec_place k v a)" "mid_ok k a"
proof -
  consider "cs_c a = 0" | "0 < cs_c a" "k \<in> resident a"
    | "0 < cs_c a" "k \<notin> resident a" "length (cs_t1 a) + length (cs_t2 a) = cs_c a"
    | "0 < cs_c a" "k \<notin> resident a" "length (cs_t1 a) + length (cs_t2 a) < cs_c a"
    using ok by (fastforce simp: spec_ok_def)
  then show thesis
  proof cases
    case 1
    then show thesis by (intro off) (simp_all add: spec_put_def)
  next
    case 2
    then show thesis by (intro hit) (simp_all add: spec_put_def)
  next
    case 3
    obtain e a1 where r: "spec_replace a = Some (e, a1)" "cs_c a1 = cs_c a" "cs_p a1 = cs_p a"
      "pages (cs_t1 a @ cs_t2 a) = add_mset (ce_key e, ce_value e) (pages (cs_t1 a1 @ cs_t2 a1))"
      "mset (all_keys a1) = mset (all_keys a)"
      "length (cs_t1 a1) + length (cs_b1 a1) \<le> cs_c a" "Suc (length (cs_t1 a1) + length (cs_t2 a1)) = cs_c a"
      by (rule spec_replace_ok [OF ok 3(3,1)])
    have "mset (map ce_key (cs_t1 a @ cs_t2 a)) = add_mset (ce_key e) (mset (map ce_key (cs_t1 a1 @ cs_t2 a1)))"
      unfolding pages_keys [symmetric] r(4) by simp
    then have "resident a = insert (ce_key e) (resident a1)"
      unfolding resident_def by (metis list.set_map set_mset_add_mset_insert set_mset_mset)
    then have "k \<notin> resident a1" using 3(2) by blast
    moreover have "distinct (all_keys a1)" "length (all_keys a1) \<le> 2 * cs_c a1" "cs_p a1 \<le> cs_c a1"
      using ok distinct_mset [OF r(5)] mset_eq_length [OF r(5)] r(2,3) by (simp_all add: spec_ok_def)
    ultimately have "mid_ok k (spec_discard k a1)"
      using r(2,6,7) by (intro spec_discard_ok) simp_all
    with 3 r show thesis by (intro full [of e a1]) (simp_all add: spec_put_def)
  next
    case 4
    have "mid_ok k a" using ok 4 by (auto simp: mid_ok_def spec_ok_def all_keys_def)
    with 4 show thesis by (intro room) (simp_all add: spec_put_def)
  qed
qed

lemma spec_put_ok:
  assumes ok: "spec_ok a"
  shows "spec_ok (snd (spec_put a k v)) \<and> cs_c (snd (spec_put a k v)) = cs_c a"
  using ok
proof (cases rule: spec_put_cases [where k = k and v = v])
  case hit
  then show ?thesis using ok by (simp add: spec_touch_ok)
next
  case (full e a1)
  then show ?thesis using spec_place_ok [of k "spec_discard k a1" v]
    by (simp add: spec_place_c spec_discard_pages)
next
  case room
  then show ?thesis using spec_place_ok [of k a v] by (simp add: spec_place_c)
qed (use ok in simp)

lemma spec_place_pages:
  "pages (cs_t1 (spec_place k v a) @ cs_t2 (spec_place k v a)) = add_mset (k, v) (pages (cs_t1 a @ cs_t2 a))"
  by (simp add: spec_place_def)

text \<open>Maps and the multisets of their pairs.\<close>

lemma map_add_pair:
  assumes "\<And>k v. f k = Some v \<longleftrightarrow> (k, v) \<in># M" and "f k = None"
  shows "(f(k \<mapsto> v)) k' = Some v' \<longleftrightarrow> (k', v') \<in># add_mset (k, v) M"
proof (cases "k' = k")
  case True
  have "(k, v') \<notin># M" using assms(1) [of k v'] assms(2) by simp
  with True show ?thesis by auto
next
  case False
  with assms(1) [of k' v'] show ?thesis by simp
qed

lemma map_drop_pair:
  assumes "\<And>k v. f k = Some v \<longleftrightarrow> (k, v) \<in># add_mset (x, y) M" and "\<And>w. (x, w) \<notin># M"
  shows "(f(x := None)) k' = Some v' \<longleftrightarrow> (k', v') \<in># M"
  using assms(1) [of k' v'] assms(2) by auto

text \<open>What the cache holds after a put: the new value, and everything else but the evicted page.\<close>

lemma spec_put_lookup:
  assumes ok: "spec_ok a" and c: "0 < cs_c a" and put: "spec_put a k v = (ev, a')"
  shows "spec_lookup a' = (case ev of None \<Rightarrow> spec_lookup a | Some e \<Rightarrow> (spec_lookup a)(ce_key e := None))(k \<mapsto> v) \<and>
    (\<forall>e. ev = Some e \<longrightarrow> spec_lookup a (ce_key e) = Some (ce_value e) \<and> ce_key e \<noteq> k \<and>
      spec_lookup a k = None \<and> length (cs_t1 a) + length (cs_t2 a) = cs_c a)"
proof -
  have d: "distinct (all_keys a)" "distinct (all_keys a')"
    using ok spec_put_ok [OF ok, of k v] put by (simp_all add: spec_ok_def)
  note iff = spec_lookup_iff [OF d(1)] spec_lookup_iff [OF d(2)]
  have eqI: "spec_lookup a' = f" if "\<And>k' v'. f k' = Some v' \<longleftrightarrow> (k', v') \<in># pages (cs_t1 a' @ cs_t2 a')" for f
    using that iff(2) by (intro ext) (metis option.exhaust)
  from ok show ?thesis
  proof (cases rule: spec_put_cases [where k = k and v = v])
    case hit
    then have "spec_lookup a' = (spec_lookup a)(k \<mapsto> v)" using put by (auto simp: spec_lookup_touch)
    with hit put show ?thesis by auto
  next
    case (full e a1)
    have "(ce_key e, ce_value e) \<in># pages (cs_t1 a @ cs_t2 a)" using full(8) by simp
    then have e: "spec_lookup a (ce_key e) = Some (ce_value e)" using iff(1) by blast
    have k: "spec_lookup a k = None" using full(2) by (simp add: spec_lookup_resident)
    have pg: "pages (cs_t1 a' @ cs_t2 a') = add_mset (k, v) (pages (cs_t1 a1 @ cs_t2 a1))"
      using put full(5) spec_place_pages [of k v "spec_discard k a1"] by (simp add: spec_discard_pages)
    have nd: "(ce_key e, w) \<notin># pages (cs_t1 a1 @ cs_t2 a1)" for w
    proof
      assume "(ce_key e, w) \<in># pages (cs_t1 a1 @ cs_t2 a1)"
      then have "ce_key e \<in># image_mset fst (pages (cs_t1 a1 @ cs_t2 a1))" by force
      then have "0 < count (image_mset fst (pages (cs_t1 a1 @ cs_t2 a1))) (ce_key e)"
        by (simp only: count_greater_zero_iff)
      then have "count (image_mset fst (pages (cs_t1 a @ cs_t2 a))) (ce_key e) \<ge> 2"
        unfolding full(8) by (simp only: image_mset_add_mset count_add_mset fst_conv refl if_True)
      moreover have "count (mset (map ce_key (cs_t1 a @ cs_t2 a))) (ce_key e) \<le> 1"
        using d(1) distinct_count_atmost_1 [of "map ce_key (cs_t1 a @ cs_t2 a)"]
        by (auto simp: all_keys_def)
      ultimately show False unfolding pages_keys by linarith
    qed
    have "((spec_lookup a)(ce_key e := None)) k' = Some v' \<longleftrightarrow>
        (k', v') \<in># pages (cs_t1 a1 @ cs_t2 a1)" for k' v'
      using iff(1) [unfolded full(8)] nd by (rule map_drop_pair)
    then have "((spec_lookup a)(ce_key e := None, k \<mapsto> v)) k' = Some v' \<longleftrightarrow>
        (k', v') \<in># pages (cs_t1 a' @ cs_t2 a')" for k' v'
      unfolding pg by (rule map_add_pair) (use k in auto)
    then have "spec_lookup a' = (spec_lookup a)(ce_key e := None, k \<mapsto> v)" by (rule eqI)
    with put full e k show ?thesis by auto
  next
    case room
    have k: "spec_lookup a k = None" using room(2) by (simp add: spec_lookup_resident)
    have pg: "pages (cs_t1 a' @ cs_t2 a') = add_mset (k, v) (pages (cs_t1 a @ cs_t2 a))"
      using put room(4) spec_place_pages [of k v a] by simp
    have "((spec_lookup a)(k \<mapsto> v)) k' = Some v' \<longleftrightarrow> (k', v') \<in># pages (cs_t1 a' @ cs_t2 a')" for k' v'
      unfolding pg using iff(1) k by (rule map_add_pair)
    then have "spec_lookup a' = (spec_lookup a)(k \<mapsto> v)" by (rule eqI)
    with put room show ?thesis by auto
  qed (use c in simp)
qed

end
