(* ===== verification/Car_Cache.thy ===== *)
theory Car_Cache
  imports Ghost_List Car_Spec
begin

text \<open>
  \<open>CarCache\<close> (\<open>bmc-http/src/cache.rs\<close>): the HTTP cache over two clock rings, two ghost lists and an
  index from keys to slots. Every panic of the code, the debug assertions included, is \<open>None\<close>. The
  main lemma is a simulation: related to a state of the specification \<open>Car_Spec\<close>, every
  operation returns and ends in a related state, so the slots, links and the index implement the
  paper's algorithm on lists.
\<close>

datatype location = LocT1 nat | LocT2 nat | LocB1 nat | LocB2 nat

record ('k, 'v) car_cache =
  cc_c :: nat
  cc_p :: nat
  cc_t1 :: "('k, 'v) clock_list"
  cc_t2 :: "('k, 'v) clock_list"
  cc_b1 :: "'k ghost_list"
  cc_b2 :: "'k ghost_list"
  cc_index :: "'k \<Rightarrow> location option"

definition car_with_hasher :: "nat \<Rightarrow> ('k, 'v) car_cache" where
  "car_with_hasher capacity =
     \<lparr>cc_c = capacity, cc_p = 0, cc_t1 = clock_list_new capacity, cc_t2 = clock_list_new capacity,
      cc_b1 = ghost_list_new (min (capacity + 1) u64_max),
      cc_b2 = ghost_list_new (min (capacity + 1) u64_max), cc_index = Map.empty\<rparr>"

definition car_get :: "('k, 'v) car_cache \<Rightarrow> 'k \<Rightarrow> 'v option \<times> ('k, 'v) car_cache" where
  "car_get cc key =
     (case cc_index cc key of
        Some (LocT1 slot) \<Rightarrow>
          (case cl_get_mut (cc_t1 cc) slot of
             Some (entry, put) \<Rightarrow> (Some (ce_value entry), cc\<lparr>cc_t1 := put (entry\<lparr>ce_ref_bit := True\<rparr>)\<rparr>)
           | None \<Rightarrow> (None, cc))
      | Some (LocT2 slot) \<Rightarrow>
          (case cl_get_mut (cc_t2 cc) slot of
             Some (entry, put) \<Rightarrow> (Some (ce_value entry), cc\<lparr>cc_t2 := put (entry\<lparr>ce_ref_bit := True\<rparr>)\<rparr>)
           | None \<Rightarrow> (None, cc))
      | _ \<Rightarrow> (None, cc))"

text \<open>\<open>if let Some(location) = self.index.get_mut(key) { *location = l }\<close>\<close>

definition index_set :: "('k \<Rightarrow> location option) \<Rightarrow> 'k \<Rightarrow> location \<Rightarrow> 'k \<Rightarrow> location option" where
  "index_set idx key l = (case idx key of Some _ \<Rightarrow> idx(key \<mapsto> l) | None \<Rightarrow> idx)"

definition car_move_to_t2 :: "('k, 'v) car_cache \<Rightarrow> 'k \<Rightarrow> 'v \<Rightarrow> ('k, 'v) car_cache outcome" where
  "car_move_to_t2 cc key value = do {
     (r, t2) \<leftarrow> cl_insert_at_tail (cc_t2 cc) key value;
     let cc = cc\<lparr>cc_t2 := t2\<rparr>;
     case r of
       Inr t2_slot \<Rightarrow>
         (case cl_get t2 t2_slot of
            Some moved \<Rightarrow> Some (cc\<lparr>cc_index := index_set (cc_index cc) (ce_key moved) (LocT2 t2_slot)\<rparr>)
          | None \<Rightarrow> Some cc)
     | Inl (key, _) \<Rightarrow> Some (cc\<lparr>cc_index := (cc_index cc)(key := None)\<rparr>)
   }"

definition car_try_replace_from_t1 ::
  "('k, 'v) car_cache \<Rightarrow> (('k, 'v) cache_entry option \<times> ('k, 'v) car_cache) outcome" where
  "car_try_replace_from_t1 cc =
     (case cl_get_head_page (cc_t1 cc) of
        None \<Rightarrow> Some (None, cc)
      | Some (head_entry, put) \<Rightarrow>
          if ce_ref_bit head_entry = False then do {
            (removed, t1) \<leftarrow> cl_remove_head_page (cc_t1 cc);
            let cc = cc\<lparr>cc_t1 := t1\<rparr>;
            case removed of
              Some entry \<Rightarrow> do {
                (b1_slot, b1) \<leftarrow> gl_insert_at_tail (cc_b1 cc) (ce_key entry);
                let cc = cc\<lparr>cc_b1 := b1\<rparr>;
                Some (Some entry,
                  cc\<lparr>cc_index :=
                       (case b1_slot of
                          Some s \<Rightarrow> index_set (cc_index cc) (ce_key entry) (LocB1 s)
                        | None \<Rightarrow> (cc_index cc)(ce_key entry := None))\<rparr>)
              }
            | None \<Rightarrow> Some (None, cc)
          } else do {
            (removed, t1) \<leftarrow> cl_remove_head_page (put (head_entry\<lparr>ce_ref_bit := False\<rparr>));
            let cc = cc\<lparr>cc_t1 := t1\<rparr>;
            case removed of
              Some entry \<Rightarrow> do { cc \<leftarrow> car_move_to_t2 cc (ce_key entry) (ce_value entry); Some (None, cc) }
            | None \<Rightarrow> Some (None, cc)
          })"

definition car_try_replace_from_t2 ::
  "('k, 'v) car_cache \<Rightarrow> (('k, 'v) cache_entry option \<times> ('k, 'v) car_cache) outcome" where
  "car_try_replace_from_t2 cc =
     (case cl_get_head_page (cc_t2 cc) of
        None \<Rightarrow> Some (None, cc)
      | Some (head_entry, put) \<Rightarrow>
          if ce_ref_bit head_entry = False then do {
            (removed, t2) \<leftarrow> cl_remove_head_page (cc_t2 cc);
            let cc = cc\<lparr>cc_t2 := t2\<rparr>;
            case removed of
              Some entry \<Rightarrow> do {
                (b2_slot, b2) \<leftarrow> gl_insert_at_tail (cc_b2 cc) (ce_key entry);
                let cc = cc\<lparr>cc_b2 := b2\<rparr>;
                Some (Some entry,
                  cc\<lparr>cc_index :=
                       (case b2_slot of
                          Some s \<Rightarrow> index_set (cc_index cc) (ce_key entry) (LocB2 s)
                        | None \<Rightarrow> (cc_index cc)(ce_key entry := None))\<rparr>)
              }
            | None \<Rightarrow> Some (None, cc)
          } else Some (None, cc\<lparr>cc_t2 := put (head_entry\<lparr>ce_ref_bit := False\<rparr>)\<rparr>))"

partial_function (option) car_replace ::
  "('k, 'v) car_cache \<Rightarrow> (('k, 'v) cache_entry \<times> ('k, 'v) car_cache) outcome" where
  "car_replace cc =
     (if max 1 (cc_p cc) \<le> cl_size (cc_t1 cc) then do {
        (found, cc) \<leftarrow> car_try_replace_from_t1 cc;
        case found of
          Some e \<Rightarrow> Some (e, cc)
        | None \<Rightarrow> car_replace cc
      } else do {
        (found, cc) \<leftarrow> car_try_replace_from_t2 cc;
        case found of
          Some e \<Rightarrow> Some (e, cc)
        | None \<Rightarrow> car_replace (cc\<lparr>cc_t2 := cl_advance_hand (cc_t2 cc)\<rparr>)
      })"

text \<open>The hit of \<open>put\<close>: the entry at the key's location in T1 or T2, written in place.\<close>

definition car_refresh :: "('k, 'v) car_cache \<Rightarrow> 'k \<Rightarrow> 'v \<Rightarrow> ('k, 'v) car_cache option" where
  "car_refresh cc key value =
     (case cc_index cc key of
        Some (LocT1 slot) \<Rightarrow>
          map_option (\<lambda>(entry, put). cc\<lparr>cc_t1 := put (entry\<lparr>ce_ref_bit := True, ce_value := value\<rparr>)\<rparr>)
            (cl_get_mut (cc_t1 cc) slot)
      | Some (LocT2 slot) \<Rightarrow>
          map_option (\<lambda>(entry, put). cc\<lparr>cc_t2 := put (entry\<lparr>ce_ref_bit := True, ce_value := value\<rparr>)\<rparr>)
            (cl_get_mut (cc_t2 cc) slot)
      | _ \<Rightarrow> None)"

text \<open>
  Lines 6 to 9: the discards for a key that is in neither ghost list. The product \<open>2 * self.c\<close> overflows on
  a capacity of more than half of \<open>usize\<close>; the sums stay below it.
\<close>

definition car_discard :: "('k, 'v) car_cache \<Rightarrow> bool \<Rightarrow> ('k, 'v) car_cache outcome" where
  "car_discard cc in_ghosts =
     (if \<not> in_ghosts \<and> cl_size (cc_t1 cc) + gl_size (cc_b1 cc) = cc_c cc then do {
        (discarded, b1) \<leftarrow> gl_remove_lru (cc_b1 cc);
        let cc = cc\<lparr>cc_b1 := b1\<rparr>;
        Some (case discarded of
                Some key \<Rightarrow> cc\<lparr>cc_index := (cc_index cc)(key := None)\<rparr> | None \<Rightarrow> cc)
      } else if \<not> in_ghosts \<and> u64_max < 2 * cc_c cc then None
      else if \<not> in_ghosts \<and>
          cl_size (cc_t1 cc) + cl_size (cc_t2 cc) + gl_size (cc_b1 cc) + gl_size (cc_b2 cc) = 2 * cc_c cc then do {
        (discarded, b2) \<leftarrow> gl_remove_lru (cc_b2 cc);
        let cc = cc\<lparr>cc_b2 := b2\<rparr>;
        Some (case discarded of
                Some key \<Rightarrow> cc\<lparr>cc_index := (cc_index cc)(key := None)\<rparr> | None \<Rightarrow> cc)
      } else Some cc)"

text \<open>Lines 12 to 20: the dispatch on the key's location.\<close>

definition car_place ::
  "('k, 'v) car_cache \<Rightarrow> location option \<Rightarrow> 'k \<Rightarrow> 'v \<Rightarrow> ('k, 'v) car_cache outcome" where
  "car_place cc loc key value =
     (case loc of
        Some (LocB1 slot) \<Rightarrow> do {
          let delta = (if 0 < gl_size (cc_b1 cc) then max 1 (gl_size (cc_b2 cc) div gl_size (cc_b1 cc)) else 1);
          let cc = cc\<lparr>cc_p := min (cc_p cc + delta) (cc_c cc)\<rparr>;
          (_, b1) \<leftarrow> gl_remove (cc_b1 cc) slot;
          car_move_to_t2 (cc\<lparr>cc_b1 := b1\<rparr>) key value
        }
      | Some (LocB2 slot) \<Rightarrow> do {
          let delta = (if 0 < gl_size (cc_b2 cc) then max 1 (gl_size (cc_b1 cc) div gl_size (cc_b2 cc)) else 1);
          let cc = cc\<lparr>cc_p := cc_p cc - delta\<rparr>;
          (_, b2) \<leftarrow> gl_remove (cc_b2 cc) slot;
          car_move_to_t2 (cc\<lparr>cc_b2 := b2\<rparr>) key value
        }
      | None \<Rightarrow> do {
          (r, t1) \<leftarrow> cl_insert_at_tail (cc_t1 cc) key value;
          let cc = cc\<lparr>cc_t1 := t1\<rparr>;
          Some (case r of
                  Inr t1_slot \<Rightarrow> cc\<lparr>cc_index := (cc_index cc)(key \<mapsto> LocT1 t1_slot)\<rparr> | Inl _ \<Rightarrow> cc)
        }
      | _ \<Rightarrow> None)"

definition in_ghosts :: "location option \<Rightarrow> bool" where
  "in_ghosts loc = (case loc of Some (LocB1 _) \<Rightarrow> True | Some (LocB2 _) \<Rightarrow> True | _ \<Rightarrow> False)"

definition car_put ::
  "('k, 'v) car_cache \<Rightarrow> 'k \<Rightarrow> 'v \<Rightarrow> (('k \<times> 'v) option \<times> ('k, 'v) car_cache) outcome" where
  "car_put cc key value =
     (if cc_c cc = 0 then Some (None, cc)
      else case car_refresh cc key value of
        Some cc \<Rightarrow> Some (None, cc)
      | None \<Rightarrow>
          if \<not> (cl_size (cc_t1 cc) + cl_size (cc_t2 cc) = cc_c cc \<or>
                gl_size (cc_b1 cc) + gl_size (cc_b2 cc) = 0) then None
          else do {
            (evicted, loc, cc) \<leftarrow>
              (if cl_size (cc_t1 cc) + cl_size (cc_t2 cc) = cc_c cc then do {
                 (evicted, cc) \<leftarrow> car_replace cc;
                 let loc = cc_index cc key;
                 cc \<leftarrow> car_discard cc (in_ghosts loc);
                 Some (Some evicted, loc, cc)
               } else Some (None, None, cc));
            cc \<leftarrow> car_place cc loc key value;
            Some (map_option (\<lambda>e. (ce_key e, ce_value e)) evicted, cc)
          })"

definition car_len :: "('k, 'v) car_cache \<Rightarrow> nat" where
  "car_len cc = cl_size (cc_t1 cc) + cl_size (cc_t2 cc)"

definition car_is_empty :: "('k, 'v) car_cache \<Rightarrow> bool" where
  "car_is_empty cc \<longleftrightarrow> car_len cc = 0"

text \<open>
  The cache of the HTTP client holds \<open>Box<dyn Any>\<close>: a value with the identity of its type, which a
  \<open>downcast_ref\<close> to another type does not give back.
\<close>

type_synonym ('t, 'v) any_box = "'t \<times> 'v"

definition downcast_ref :: "'t \<Rightarrow> ('t, 'v) any_box \<Rightarrow> 'v option" where
  "downcast_ref ty b = (if fst b = ty then Some (snd b) else None)"

definition car_get_typed ::
  "('k, ('t, 'v) any_box) car_cache \<Rightarrow> 't \<Rightarrow> 'k \<Rightarrow> 'v option \<times> ('k, ('t, 'v) any_box) car_cache" where
  "car_get_typed cc ty key =
     (let (r, cc) = car_get cc key in
      (case r of None \<Rightarrow> None | Some b \<Rightarrow> downcast_ref ty b, cc))"

definition car_put_typed ::
  "('k, ('t, 'v) any_box) car_cache \<Rightarrow> 't \<Rightarrow> 'k \<Rightarrow> 'v \<Rightarrow>
   ('k option \<times> ('k, ('t, 'v) any_box) car_cache) outcome" where
  "car_put_typed cc ty key value = do {
     (evicted, cc) \<leftarrow> car_put cc key (ty, value);
     Some (map_option fst evicted, cc)
   }"

section \<open>The index\<close>

text \<open>The index is the map of a multiset of pairs in which no key occurs twice.\<close>

definition idx_ok :: "('k \<Rightarrow> location option) \<Rightarrow> ('k \<times> location) multiset \<Rightarrow> bool" where
  "idx_ok idx M \<longleftrightarrow>
     (\<forall>k l. idx k = Some l \<longleftrightarrow> (k, l) \<in># M) \<and> (\<forall>k. count (image_mset fst M) k \<le> 1)"

lemma idx_lookup: "idx_ok idx (add_mset (k, l) M) \<Longrightarrow> idx k = Some l"
  by (simp add: idx_ok_def)

lemma idx_once:
  assumes "idx_ok idx (add_mset (k, l) M)"
  shows "(k, l') \<notin># M" "count (image_mset fst M) k = 0"
proof -
  have "count (image_mset fst (add_mset (k, l) M)) k \<le> 1" using assms unfolding idx_ok_def by blast
  then show c: "count (image_mset fst M) k = 0" by simp
  then have "k \<notin># image_mset fst M" unfolding not_in_iff .
  then show "(k, l') \<notin># M" by force
qed

lemma idx_counts:
  assumes "idx_ok idx (add_mset (k, l) M)"
  shows "count (image_mset fst M) k' \<le> 1"
proof -
  have "count (image_mset fst (add_mset (k, l) M)) k' \<le> 1" using assms unfolding idx_ok_def by blast
  moreover have "count (image_mset fst M) k' \<le> count (image_mset fst (add_mset (k, l) M)) k'"
    by (simp only: image_mset_add_mset count_add_mset) simp
  ultimately show ?thesis by (rule order_trans [rotated])
qed

lemma idx_move:
  assumes ok: "idx_ok idx (add_mset (k, l) M)"
  shows "idx_ok (index_set idx k l') (add_mset (k, l') M)"
proof -
  have "index_set idx k l' = idx(k \<mapsto> l')" using idx_lookup [OF ok] by (simp add: index_set_def)
  moreover have "(idx(k \<mapsto> l')) j = Some m \<longleftrightarrow> (j, m) \<in># add_mset (k, l') M" for j m
    using ok idx_once(1) [OF ok, of m] by (cases "j = k") (auto simp: idx_ok_def)
  moreover have "count (image_mset fst (add_mset (k, l') M)) j \<le> 1" for j
    using ok by (simp add: idx_ok_def)
  ultimately show ?thesis unfolding idx_ok_def by simp
qed

lemma idx_drop:
  assumes ok: "idx_ok idx (add_mset (k, l) M)"
  shows "idx_ok (idx(k := None)) M"
  using ok idx_once(1) [OF ok] idx_counts [OF ok] by (auto simp: idx_ok_def)

lemma idx_add:
  assumes "idx_ok idx M" and "idx k = None"
  shows "idx_ok (idx(k \<mapsto> l)) (add_mset (k, l) M)"
proof -
  have "(k, l') \<notin># M" for l' using assms by (metis idx_ok_def option.distinct(1))
  then have "k \<notin># image_mset fst M" by force
  then have "count (image_mset fst M) k = 0" unfolding not_in_iff .
  moreover have "(k, l') \<notin># M" for l' using assms by (metis idx_ok_def option.distinct(1))
  ultimately show ?thesis using assms(1) by (auto simp: idx_ok_def)
qed

section \<open>The simulation\<close>

definition locs :: "(nat \<times> ('k, 'v) cache_entry) list \<Rightarrow> (nat \<times> ('k, 'v) cache_entry) list \<Rightarrow>
    (nat \<times> 'k) list \<Rightarrow> (nat \<times> 'k) list \<Rightarrow> ('k \<times> location) multiset" where
  "locs x1 x2 y1 y2 =
     mset (map (\<lambda>x. (ce_key (snd x), LocT1 (fst x))) x1) + mset (map (\<lambda>x. (ce_key (snd x), LocT2 (fst x))) x2) +
     mset (map (\<lambda>y. (snd y, LocB1 (fst y))) y1) + mset (map (\<lambda>y. (snd y, LocB2 (fst y))) y2)"

lemma locs_simps:
  "locs (x # x1) x2 y1 y2 = add_mset (ce_key (snd x), LocT1 (fst x)) (locs x1 x2 y1 y2)"
  "locs (x1 @ [x]) x2 y1 y2 = add_mset (ce_key (snd x), LocT1 (fst x)) (locs x1 x2 y1 y2)"
  "locs x1 (x # x2) y1 y2 = add_mset (ce_key (snd x), LocT2 (fst x)) (locs x1 x2 y1 y2)"
  "locs x1 (x2 @ [x]) y1 y2 = add_mset (ce_key (snd x), LocT2 (fst x)) (locs x1 x2 y1 y2)"
  "locs x1 x2 (y # y1) y2 = add_mset (snd y, LocB1 (fst y)) (locs x1 x2 y1 y2)"
  "locs x1 x2 (y1 @ [y]) y2 = add_mset (snd y, LocB1 (fst y)) (locs x1 x2 y1 y2)"
  "locs x1 x2 (zs @ y # y1) y2 = add_mset (snd y, LocB1 (fst y)) (locs x1 x2 (zs @ y1) y2)"
  "locs x1 x2 y1 (y # y2) = add_mset (snd y, LocB2 (fst y)) (locs x1 x2 y1 y2)"
  "locs x1 x2 y1 (y2 @ [y]) = add_mset (snd y, LocB2 (fst y)) (locs x1 x2 y1 y2)"
  "locs x1 x2 y1 (zs @ y # y2) = add_mset (snd y, LocB2 (fst y)) (locs x1 x2 y1 (zs @ y2))"
  by (simp_all add: locs_def)

lemma locs_mem:
  "(k, l) \<in># locs x1 x2 y1 y2 \<longleftrightarrow>
     (case l of
        LocT1 s \<Rightarrow> \<exists>e. (s, e) \<in> set x1 \<and> ce_key e = k
      | LocT2 s \<Rightarrow> \<exists>e. (s, e) \<in> set x2 \<and> ce_key e = k
      | LocB1 s \<Rightarrow> (s, k) \<in> set y1
      | LocB2 s \<Rightarrow> (s, k) \<in> set y2)"
  by (cases l) (auto simp: locs_def image_iff Bex_def)

lemma locs_keys:
  "image_mset fst (locs x1 x2 y1 y2) =
     mset (map (ce_key \<circ> snd) x1 @ map (ce_key \<circ> snd) x2 @ map snd y1 @ map snd y2)"
  by (simp add: locs_def image_mset.compositionality comp_def)

text \<open>
  The slots of the four lists, their capacities, and the index of their keys; \<open>Q\<close> holds the key of a page
  that has left its list and is not yet in another one.
\<close>

definition car_ok ::
  "('k, 'v) car_cache \<Rightarrow> (nat \<times> ('k, 'v) cache_entry) list \<Rightarrow> (nat \<times> ('k, 'v) cache_entry) list \<Rightarrow>
   (nat \<times> 'k) list \<Rightarrow> (nat \<times> 'k) list \<Rightarrow> ('k \<times> location) multiset \<Rightarrow> bool" where
  "car_ok cc x1 x2 y1 y2 Q \<longleftrightarrow>
     clock_ok (cc_t1 cc) x1 \<and> clock_ok (cc_t2 cc) x2 \<and> ghost_ok (cc_b1 cc) y1 \<and> ghost_ok (cc_b2 cc) y2 \<and>
     cl_capacity (cc_t1 cc) = cc_c cc \<and> cl_capacity (cc_t2 cc) = cc_c cc \<and>
     gl_capacity (cc_b1 cc) = Suc (cc_c cc) \<and> gl_capacity (cc_b2 cc) = Suc (cc_c cc) \<and>
     idx_ok (cc_index cc) (Q + locs x1 x2 y1 y2)"

definition same_params :: "('k, 'v) car_cache \<Rightarrow> ('k, 'v) car_cache \<Rightarrow> bool" where
  "same_params cc' cc \<longleftrightarrow> cc_c cc' = cc_c cc \<and> cc_p cc' = cc_p cc"

lemma same_params_trans: "same_params c b \<Longrightarrow> same_params b a \<Longrightarrow> same_params c a"
  by (simp add: same_params_def)

lemma entry_new_unreferenced: "cache_entry_new (ce_key e) (ce_value e) = unreferenced e"
  by (simp add: cache_entry_new_def unreferenced_def)

lemma move_to_t2_ok:
  assumes ok: "car_ok cc x1 x2 y1 y2 {#(k, l)#}" and room: "length x2 < cc_c cc"
  shows "\<exists>s cc'. car_move_to_t2 cc k v = Some cc' \<and> same_params cc' cc \<and>
    car_ok cc' x1 (x2 @ [(s, cache_entry_new k v)]) y1 y2 {#}"
proof -
  obtain s t2 where i: "cl_insert_at_tail (cc_t2 cc) k v = Some (Inr s, t2)"
      "clock_ok t2 (x2 @ [(s, cache_entry_new k v)])" "cl_capacity t2 = cl_capacity (cc_t2 cc)"
    using clock.insert_ok [of "cc_t2 cc" x2 k v] ok room by (auto simp: car_ok_def)
  have "cl_get t2 s = Some (cache_entry_new k v)" by (rule clock_get [OF i(2)]) simp
  moreover have "idx_ok (index_set (cc_index cc) k (LocT2 s)) (add_mset (k, LocT2 s) (locs x1 x2 y1 y2))"
    using ok by (intro idx_move [of _ _ l]) (simp add: car_ok_def)
  ultimately show ?thesis using ok i
    by (intro exI [of _ s]) (simp add: car_move_to_t2_def car_ok_def same_params_def locs_simps)
qed

lemma try_t1_found:
  assumes ok: "car_ok cc ((s, e) # x1) x2 y1 y2 {#}" and bit: "\<not> ce_ref_bit e" and room: "length y1 \<le> cc_c cc"
  shows "\<exists>s' cc'. car_try_replace_from_t1 cc = Some (Some e, cc') \<and> same_params cc' cc \<and>
    car_ok cc' x1 x2 (y1 @ [(s', ce_key e)]) y2 {#}"
proof -
  have t1: "clock_ok (cc_t1 cc) ((s, e) # x1)" using ok by (simp add: car_ok_def)
  obtain put where h: "cl_get_head_page (cc_t1 cc) = Some (e, put)" using clock.head_ok [OF t1] by blast
  obtain t1' where r: "cl_remove_head_page (cc_t1 cc) = Some (Some e, t1')" "clock_ok t1' x1"
      "cl_capacity t1' = cl_capacity (cc_t1 cc)" using clock.remove_head_ok [OF t1] by blast
  obtain s' b1 where i: "gl_insert_at_tail (cc_b1 cc) (ce_key e) = Some (Some s', b1)"
      "ghost_ok b1 (y1 @ [(s', ce_key e)])" "gl_capacity b1 = gl_capacity (cc_b1 cc)"
    using ghost.insert_ok [of "cc_b1 cc" y1 "ce_key e"] ok room by (auto simp: car_ok_def)
  have "idx_ok (index_set (cc_index cc) (ce_key e) (LocB1 s')) (add_mset (ce_key e, LocB1 s') (locs x1 x2 y1 y2))"
    using ok by (intro idx_move [of _ _ "LocT1 s"]) (simp add: car_ok_def locs_simps)
  then show ?thesis using ok bit h r i
    by (intro exI [of _ s']) (simp add: car_try_replace_from_t1_def car_ok_def same_params_def locs_simps)
qed

lemma try_t1_passed:
  assumes ok: "car_ok cc ((s, e) # x1) x2 y1 y2 {#}" and bit: "ce_ref_bit e" and room: "length x2 < cc_c cc"
  shows "\<exists>s' cc'. car_try_replace_from_t1 cc = Some (None, cc') \<and> same_params cc' cc \<and>
    car_ok cc' x1 (x2 @ [(s', unreferenced e)]) y1 y2 {#}"
proof -
  have t1: "clock_ok (cc_t1 cc) ((s, e) # x1)" using ok by (simp add: car_ok_def)
  obtain put where h: "cl_get_head_page (cc_t1 cc) = Some (e, put)"
      "\<And>e'. clock_ok (put e') ((s, e') # x1) \<and> cl_capacity (put e') = cl_capacity (cc_t1 cc)"
    using clock.head_ok [OF t1] by blast
  obtain t1' where r: "cl_remove_head_page (put (unreferenced e)) = Some (Some (unreferenced e), t1')"
      "clock_ok t1' x1" "cl_capacity t1' = cl_capacity (cc_t1 cc)"
    using clock.remove_head_ok [of "put (unreferenced e)" s "unreferenced e" x1] h(2) by auto
  let ?cc = "cc\<lparr>cc_t1 := t1'\<rparr>"
  have "car_ok ?cc x1 x2 y1 y2 {#(ce_key e, LocT1 s)#}"
    using ok r by (simp add: car_ok_def locs_simps)
  then obtain s' cc' where m: "car_move_to_t2 ?cc (ce_key e) (ce_value e) = Some cc'" "same_params cc' ?cc"
      "car_ok cc' x1 (x2 @ [(s', unreferenced e)]) y1 y2 {#}"
    using move_to_t2_ok [of ?cc x1 x2 y1 y2 "ce_key e" "LocT1 s" "ce_value e"] room
    by (auto simp: entry_new_unreferenced)
  with bit h(1) r show ?thesis
    by (intro exI [of _ s'] exI [of _ cc'])
      (simp add: car_try_replace_from_t1_def same_params_def unreferenced_def [symmetric])
qed

lemma try_t2_found:
  assumes ok: "car_ok cc x1 ((s, e) # x2) y1 y2 {#}" and bit: "\<not> ce_ref_bit e" and room: "length y2 \<le> cc_c cc"
  shows "\<exists>s' cc'. car_try_replace_from_t2 cc = Some (Some e, cc') \<and> same_params cc' cc \<and>
    car_ok cc' x1 x2 y1 (y2 @ [(s', ce_key e)]) {#}"
proof -
  have t2: "clock_ok (cc_t2 cc) ((s, e) # x2)" using ok by (simp add: car_ok_def)
  obtain put where h: "cl_get_head_page (cc_t2 cc) = Some (e, put)" using clock.head_ok [OF t2] by blast
  obtain t2' where r: "cl_remove_head_page (cc_t2 cc) = Some (Some e, t2')" "clock_ok t2' x2"
      "cl_capacity t2' = cl_capacity (cc_t2 cc)" using clock.remove_head_ok [OF t2] by blast
  obtain s' b2 where i: "gl_insert_at_tail (cc_b2 cc) (ce_key e) = Some (Some s', b2)"
      "ghost_ok b2 (y2 @ [(s', ce_key e)])" "gl_capacity b2 = gl_capacity (cc_b2 cc)"
    using ghost.insert_ok [of "cc_b2 cc" y2 "ce_key e"] ok room by (auto simp: car_ok_def)
  have "idx_ok (index_set (cc_index cc) (ce_key e) (LocB2 s')) (add_mset (ce_key e, LocB2 s') (locs x1 x2 y1 y2))"
    using ok by (intro idx_move [of _ _ "LocT2 s"]) (simp add: car_ok_def locs_simps)
  then show ?thesis using ok bit h r i
    by (intro exI [of _ s']) (simp add: car_try_replace_from_t2_def car_ok_def same_params_def locs_simps)
qed

lemma try_t2_passed:
  assumes ok: "car_ok cc x1 ((s, e) # x2) y1 y2 {#}" and bit: "ce_ref_bit e"
  shows "\<exists>cc'. car_try_replace_from_t2 cc = Some (None, cc') \<and>
    same_params (cc'\<lparr>cc_t2 := cl_advance_hand (cc_t2 cc')\<rparr>) cc \<and>
    car_ok (cc'\<lparr>cc_t2 := cl_advance_hand (cc_t2 cc')\<rparr>) x1 (x2 @ [(s, unreferenced e)]) y1 y2 {#}"
proof -
  have t2: "clock_ok (cc_t2 cc) ((s, e) # x2)" using ok by (simp add: car_ok_def)
  obtain put where h: "cl_get_head_page (cc_t2 cc) = Some (e, put)"
      "\<And>e'. clock_ok (put e') ((s, e') # x2) \<and> cl_capacity (put e') = cl_capacity (cc_t2 cc)"
    using clock.head_ok [OF t2] by blast
  have "clock_ok (cl_advance_hand (put (unreferenced e))) (x2 @ [(s, unreferenced e)])"
    using h(2) clock.advance_ok by blast
  with ok bit h show ?thesis
    by (simp add: car_try_replace_from_t2_def car_ok_def same_params_def locs_simps clock.advance_capacity
        unreferenced_def [symmetric])
qed

lemma replace_ok:
  assumes "car_ok cc x1 x2 y1 y2 {#}" and "cc_p cc = p" and "map snd x1 = t1" and "map snd x2 = t2"
    and "length x1 + length x2 \<le> cc_c cc" and "length y1 \<le> cc_c cc" and "length y2 \<le> cc_c cc"
    and "spec_victim p t1 t2 = Some (b, e, t1', t2')"
  shows "\<exists>cc' x1' x2' y1' y2'. car_replace cc = Some (e, cc') \<and> same_params cc' cc \<and>
    car_ok cc' x1' x2' y1' y2' {#} \<and> map snd x1' = t1' \<and> map snd x2' = t2' \<and>
    map snd y1' = map snd y1 @ (if b then [ce_key e] else []) \<and>
    map snd y2' = map snd y2 @ (if b then [] else [ce_key e])"
  using assms
proof (induction p t1 t2 arbitrary: cc x1 x2 rule: spec_victim.induct)
  case (1 p t1 t2)
  note prems = "1.prems"
  have size: "cl_size (cc_t1 cc) = length t1" using prems(1,3) by (auto simp: car_ok_def clock_ok_def)
  show ?case
  proof (cases "max 1 p \<le> length t1")
    case big: True
    then obtain x xs where t1: "t1 = x # xs" by (cases t1) auto
    then obtain s x1' where x1: "x1 = (s, x) # x1'" "map snd x1' = xs" using prems(3) by auto
    have loop: "max 1 (cc_p cc) \<le> cl_size (cc_t1 cc)" using big size prems(2) by simp
    show ?thesis
    proof (cases "ce_ref_bit x")
      case False
      have "spec_victim p t1 t2 = Some (True, x, xs, t2)"
        using big t1 False by (subst spec_victim.simps) simp
      then have v: "b" "e = x" "t1' = xs" "t2' = t2" using prems(8) by simp_all
      obtain s' cc' where t: "car_try_replace_from_t1 cc = Some (Some x, cc')" "same_params cc' cc"
          "car_ok cc' x1' x2 (y1 @ [(s', ce_key x)]) y2 {#}"
        using try_t1_found [of cc s x x1' x2 y1 y2] prems(1,6) x1 False by blast
      have "car_replace cc = Some (x, cc')"
        by (subst car_replace.simps) (simp only: loop if_True t(1) bind.bind_lunit case_prod_conv option.case)
      then show ?thesis using v x1(2) prems(4) t
        by - (rule exI [where x = cc'], rule exI [where x = x1'], rule exI [where x = x2],
            rule exI [where x = "y1 @ [(s', ce_key x)]"], rule exI [where x = y2], simp)
    next
      case True
      obtain s' cc' where t: "car_try_replace_from_t1 cc = Some (None, cc')" "same_params cc' cc"
          "car_ok cc' x1' (x2 @ [(s', unreferenced x)]) y1 y2 {#}"
        using try_t1_passed [of cc s x x1' x2 y1 y2] prems(1,5) x1 True by fastforce
      have "spec_victim p xs (t2 @ [unreferenced x]) = Some (b, e, t1', t2')"
        using prems(8) big t1 True by (subst (asm) spec_victim.simps) simp
      moreover have "car_replace cc = car_replace cc'"
        by (subst car_replace.simps) (simp only: loop if_True t(1) bind.bind_lunit case_prod_conv option.case)
      ultimately show ?thesis
        using "1.IH"(1) [OF big t1 _ t(3)] t(2) True x1 prems(2-7) by (simp add: same_params_def)
    qed
  next
    case small: False
    have loop: "\<not> max 1 (cc_p cc) \<le> cl_size (cc_t1 cc)" using small size prems(2) by simp
    have "t2 \<noteq> []" using prems(8) small by (subst (asm) spec_victim.simps) (auto split: list.splits)
    then obtain x xs where t2: "t2 = x # xs" by (cases t2) auto
    then obtain s x2' where x2: "x2 = (s, x) # x2'" "map snd x2' = xs" using prems(4) by auto
    show ?thesis
    proof (cases "ce_ref_bit x")
      case False
      have "spec_victim p t1 t2 = Some (False, x, t1, xs)"
        using t2 False by (subst spec_victim.simps) (simp only: small if_False list.case not_False_eq_True if_True)
      then have v: "\<not> b" "e = x" "t1' = t1" "t2' = xs" using prems(8) by simp_all
      obtain s' cc' where t: "car_try_replace_from_t2 cc = Some (Some x, cc')" "same_params cc' cc"
          "car_ok cc' x1 x2' y1 (y2 @ [(s', ce_key x)]) {#}"
        using try_t2_found [of cc x1 s x x2' y1 y2] prems(1,7) x2 False by blast
      have "car_replace cc = Some (x, cc')"
        by (subst car_replace.simps) (simp only: loop if_False t(1) bind.bind_lunit case_prod_conv option.case)
      then show ?thesis using v x2(2) prems(3) t
        by - (rule exI [where x = cc'], rule exI [where x = x1], rule exI [where x = x2'], rule exI [where x = y1],
            rule exI [where x = "y2 @ [(s', ce_key x)]"], simp)
    next
      case True
      obtain cc' where t: "car_try_replace_from_t2 cc = Some (None, cc')"
          "same_params (cc'\<lparr>cc_t2 := cl_advance_hand (cc_t2 cc')\<rparr>) cc"
          "car_ok (cc'\<lparr>cc_t2 := cl_advance_hand (cc_t2 cc')\<rparr>) x1 (x2' @ [(s, unreferenced x)]) y1 y2 {#}"
        using try_t2_passed [of cc x1 s x x2' y1 y2] prems(1) x2 True by blast
      have "spec_victim p t1 (xs @ [unreferenced x]) = Some (b, e, t1', t2')"
        using prems(8) t2 True
        by (subst (asm) spec_victim.simps) (simp only: small if_False list.case not_True_eq_False)
      moreover have "car_replace cc = car_replace (cc'\<lparr>cc_t2 := cl_advance_hand (cc_t2 cc')\<rparr>)"
        by (subst car_replace.simps) (simp only: loop if_False t(1) bind.bind_lunit case_prod_conv option.case)
      ultimately show ?thesis
        using "1.IH"(2) [OF small t2 _ t(3)] t(2) True x2 prems(2-7) by (simp add: same_params_def)
    qed
  qed
qed

definition car_view ::
  "('k, 'v) car_cache \<Rightarrow> (nat \<times> ('k, 'v) cache_entry) list \<Rightarrow> (nat \<times> ('k, 'v) cache_entry) list \<Rightarrow>
   (nat \<times> 'k) list \<Rightarrow> (nat \<times> 'k) list \<Rightarrow> ('k, 'v) car_spec" where
  "car_view cc x1 x2 y1 y2 =
     \<lparr>cs_c = cc_c cc, cs_p = cc_p cc, cs_t1 = map snd x1, cs_t2 = map snd x2,
      cs_b1 = map snd y1, cs_b2 = map snd y2\<rparr>"

definition car_rel :: "('k, 'v) car_cache \<Rightarrow> ('k, 'v) car_spec \<Rightarrow> bool" where
  "car_rel cc a \<longleftrightarrow> (\<exists>x1 x2 y1 y2. car_ok cc x1 x2 y1 y2 {#} \<and> a = car_view cc x1 x2 y1 y2)"

lemma car_relI: "car_ok cc x1 x2 y1 y2 {#} \<Longrightarrow> a = car_view cc x1 x2 y1 y2 \<Longrightarrow> car_rel cc a"
  unfolding car_rel_def by blast

lemma car_relE:
  assumes "car_rel cc a"
  obtains x1 x2 y1 y2 where "car_ok cc x1 x2 y1 y2 {#}" "a = car_view cc x1 x2 y1 y2"
  using assms unfolding car_rel_def by blast

lemma car_view_simps [simp]:
  "cs_c (car_view cc x1 x2 y1 y2) = cc_c cc" "cs_p (car_view cc x1 x2 y1 y2) = cc_p cc"
  "cs_t1 (car_view cc x1 x2 y1 y2) = map snd x1" "cs_t2 (car_view cc x1 x2 y1 y2) = map snd x2"
  "cs_b1 (car_view cc x1 x2 y1 y2) = map snd y1" "cs_b2 (car_view cc x1 x2 y1 y2) = map snd y2"
  by (simp_all add: car_view_def)

lemma car_rel_sizes:
  assumes "car_rel cc a"
  shows "cl_size (cc_t1 cc) = length (cs_t1 a)" "cl_size (cc_t2 cc) = length (cs_t2 a)"
    "gl_size (cc_b1 cc) = length (cs_b1 a)" "gl_size (cc_b2 cc) = length (cs_b2 a)"
    "cc_c cc = cs_c a" "cc_p cc = cs_p a"
  using assms by (auto elim!: car_relE simp: car_ok_def clock_ok_def ghost_ok_def)

lemma car_replace_refines:
  assumes rel: "car_rel cc a" and ok: "spec_ok a" and full: "length (cs_t1 a) + length (cs_t2 a) = cs_c a"
    and r: "spec_replace a = Some (e, a')"
  shows "\<exists>cc'. car_replace cc = Some (e, cc') \<and> car_rel cc' a'"
proof -
  obtain x1 x2 y1 y2 where v: "car_ok cc x1 x2 y1 y2 {#}" "a = car_view cc x1 x2 y1 y2"
    using rel by (rule car_relE)
  obtain b t1 t2 where vic: "spec_victim (cs_p a) (cs_t1 a) (cs_t2 a) = Some (b, e, t1, t2)"
      "a' = (if b then a\<lparr>cs_t1 := t1, cs_t2 := t2, cs_b1 := cs_b1 a @ [ce_key e]\<rparr>
         else a\<lparr>cs_t1 := t1, cs_t2 := t2, cs_b2 := cs_b2 a @ [ce_key e]\<rparr>)"
    using r by (auto simp: spec_replace_def split: option.splits)
  have "length x1 + length x2 \<le> cc_c cc" "length y1 \<le> cc_c cc" "length y2 \<le> cc_c cc"
    using ok full v(2) by (simp_all add: spec_ok_def all_keys_def)
  from replace_ok [OF v(1) refl refl refl this] vic(1) v(2)
  obtain cc' x1' x2' y1' y2' where c: "car_replace cc = Some (e, cc')" "same_params cc' cc"
      "car_ok cc' x1' x2' y1' y2' {#}" "map snd x1' = t1" "map snd x2' = t2"
      "map snd y1' = map snd y1 @ (if b then [ce_key e] else [])"
      "map snd y2' = map snd y2 @ (if b then [] else [ce_key e])"
    by fastforce
  have "a' = car_view cc' x1' x2' y1' y2'"
    using c v(2) vic(2) by (simp add: car_view_def same_params_def)
  with c show ?thesis by (blast intro: car_relI)
qed

text \<open>Where the index has a key.\<close>

lemma car_keys_distinct:
  assumes "car_ok cc x1 x2 y1 y2 {#}"
  shows "distinct (all_keys (car_view cc x1 x2 y1 y2))"
proof -
  have keys: "image_mset fst (locs x1 x2 y1 y2) = mset (all_keys (car_view cc x1 x2 y1 y2))"
    by (simp add: locs_keys all_keys_def)
  have "count (mset (all_keys (car_view cc x1 x2 y1 y2))) k \<le> 1" for k
    unfolding keys [symmetric] using assms unfolding car_ok_def idx_ok_def by simp
  then show ?thesis
    unfolding distinct_count_atmost_1 by (metis One_nat_def count_mset_0_iff le_SucE le_zero_eq)
qed

lemma index_cases:
  assumes ok: "car_ok cc x1 x2 y1 y2 {#}"
  obtains (T1) s e where "cc_index cc k = Some (LocT1 s)" "(s, e) \<in> set x1" "ce_key e = k"
  | (T2) s e where "cc_index cc k = Some (LocT2 s)" "(s, e) \<in> set x2" "ce_key e = k"
  | (B1) s ys zs where "cc_index cc k = Some (LocB1 s)" "y1 = ys @ (s, k) # zs"
  | (B2) s ys zs where "cc_index cc k = Some (LocB2 s)" "y2 = ys @ (s, k) # zs"
  | (none) "cc_index cc k = None" "k \<notin> set (all_keys (car_view cc x1 x2 y1 y2))"
proof -
  have idx: "cc_index cc k = Some l \<longleftrightarrow> (k, l) \<in># locs x1 x2 y1 y2" for l
    using ok by (simp add: car_ok_def idx_ok_def)
  show thesis
  proof (cases "cc_index cc k")
    case None
    then have "\<forall>l. (k, l) \<notin># locs x1 x2 y1 y2" using idx by simp
    then have "k \<notin># image_mset fst (locs x1 x2 y1 y2)" by force
    then have "k \<notin> set (all_keys (car_view cc x1 x2 y1 y2))"
      unfolding locs_keys by (auto simp: all_keys_def)
    with None show thesis by (rule none)
  next
    case (Some l)
    then have mem: "(k, l) \<in># locs x1 x2 y1 y2" using idx by simp
    show thesis
    proof (cases l)
      case (LocB1 s)
      with mem have "(s, k) \<in> set y1" by (simp add: locs_mem)
      then show thesis using B1 Some LocB1 by (meson in_set_conv_decomp)
    next
      case (LocB2 s)
      with mem have "(s, k) \<in> set y2" by (simp add: locs_mem)
      then show thesis using B2 Some LocB2 by (meson in_set_conv_decomp)
    qed (use mem Some T1 T2 in \<open>auto simp: locs_mem\<close>)
  qed
qed

lemma in_ghosts_iff:
  assumes rel: "car_rel cc a"
  shows "in_ghosts (cc_index cc k) \<longleftrightarrow> k \<in> set (cs_b1 a) \<union> set (cs_b2 a)"
    and "k \<notin> set (all_keys a) \<Longrightarrow> cc_index cc k = None"
proof -
  obtain x1 x2 y1 y2 where v: "car_ok cc x1 x2 y1 y2 {#}" "a = car_view cc x1 x2 y1 y2"
    using rel by (rule car_relE)
  note d = car_keys_distinct [OF v(1)]
  from v(1) show "in_ghosts (cc_index cc k) \<longleftrightarrow> k \<in> set (cs_b1 a) \<union> set (cs_b2 a)"
  proof (cases rule: index_cases [where k = k])
    case (T1 s e)
    then have "k \<in> ce_key ` set (map snd x1)" by force
    with d T1(1) v(2) show ?thesis by (auto simp: in_ghosts_def all_keys_def)
  next
    case (T2 s e)
    then have "k \<in> ce_key ` set (map snd x2)" by force
    with d T2(1) v(2) show ?thesis by (auto simp: in_ghosts_def all_keys_def)
  next
    case none
    with v(2) show ?thesis by (auto simp: in_ghosts_def all_keys_def)
  qed (use v(2) in \<open>auto simp: in_ghosts_def\<close>)
  from v(1) show "k \<notin> set (all_keys a) \<Longrightarrow> cc_index cc k = None"
    by (cases rule: index_cases [where k = k]) (use v(2) in \<open>force simp: all_keys_def\<close>)+
qed

text \<open>A discard drops the oldest ghost, if there is one, and its key from the index.\<close>

lemma discard_b1:
  assumes ok: "car_ok cc x1 x2 y1 y2 {#}"
  obtains b1 gone where "gl_remove_lru (cc_b1 cc) = Some (gone, b1)"
    "gone = (case y1 of [] \<Rightarrow> None | y # _ \<Rightarrow> Some (snd y))"
    "car_ok (case gone of Some k \<Rightarrow> cc\<lparr>cc_b1 := b1, cc_index := (cc_index cc)(k := None)\<rparr>
       | None \<Rightarrow> cc\<lparr>cc_b1 := b1\<rparr>) x1 x2 (tl y1) y2 {#}"
proof (cases y1)
  case Nil
  then have "gl_remove_lru (cc_b1 cc) = Some (None, cc_b1 cc)"
    using ok by (intro ghost.lru_empty) (simp add: car_ok_def)
  with Nil ok show thesis by (intro that [of None "cc_b1 cc"]) (simp_all add: car_ok_def)
next
  case (Cons y ys)
  obtain b1 where "gl_remove_lru (cc_b1 cc) = Some (Some (snd y), b1)" "ghost_ok b1 ys"
      "gl_capacity b1 = gl_capacity (cc_b1 cc)"
    using ghost.lru_ok [of "cc_b1 cc" "fst y" "snd y" ys] ok Cons by (auto simp: car_ok_def)
  moreover have "idx_ok ((cc_index cc)(snd y := None)) (locs x1 x2 ys y2)"
    using ok Cons by (intro idx_drop [of _ _ "LocB1 (fst y)"]) (simp add: car_ok_def locs_simps)
  ultimately show thesis using ok Cons by (intro that [of "Some (snd y)" b1]) (simp_all add: car_ok_def)
qed

lemma discard_b2:
  assumes ok: "car_ok cc x1 x2 y1 y2 {#}"
  obtains b2 gone where "gl_remove_lru (cc_b2 cc) = Some (gone, b2)"
    "gone = (case y2 of [] \<Rightarrow> None | y # _ \<Rightarrow> Some (snd y))"
    "car_ok (case gone of Some k \<Rightarrow> cc\<lparr>cc_b2 := b2, cc_index := (cc_index cc)(k := None)\<rparr>
       | None \<Rightarrow> cc\<lparr>cc_b2 := b2\<rparr>) x1 x2 y1 (tl y2) {#}"
proof (cases y2)
  case Nil
  then have "gl_remove_lru (cc_b2 cc) = Some (None, cc_b2 cc)"
    using ok by (intro ghost.lru_empty) (simp add: car_ok_def)
  with Nil ok show thesis by (intro that [of None "cc_b2 cc"]) (simp_all add: car_ok_def)
next
  case (Cons y ys)
  obtain b2 where "gl_remove_lru (cc_b2 cc) = Some (Some (snd y), b2)" "ghost_ok b2 ys"
      "gl_capacity b2 = gl_capacity (cc_b2 cc)"
    using ghost.lru_ok [of "cc_b2 cc" "fst y" "snd y" ys] ok Cons by (auto simp: car_ok_def)
  moreover have "idx_ok ((cc_index cc)(snd y := None)) (locs x1 x2 y1 ys)"
    using ok Cons by (intro idx_drop [of _ _ "LocB2 (fst y)"]) (simp add: car_ok_def locs_simps)
  ultimately show thesis using ok Cons by (intro that [of "Some (snd y)" b2]) (simp_all add: car_ok_def)
qed

lemma car_discard_refines:
  assumes rel: "car_rel cc a" and c: "2 * cs_c a \<le> u64_max"
  shows "\<exists>cc'. car_discard cc (in_ghosts (cc_index cc k)) = Some cc' \<and> cc_index cc' k = cc_index cc k \<and>
    car_rel cc' (spec_discard k a)"
proof -
  note sz = car_rel_sizes [OF rel] and gh = in_ghosts_iff(1) [OF rel, of k]
  obtain x1 x2 y1 y2 where v: "car_ok cc x1 x2 y1 y2 {#}" "a = car_view cc x1 x2 y1 y2"
    using rel by (rule car_relE)
  consider (ghost) "in_ghosts (cc_index cc k)"
    | (keep) "\<not> in_ghosts (cc_index cc k)" "length (cs_t1 a) + length (cs_b1 a) \<noteq> cs_c a"
        "length (cs_t1 a) + length (cs_t2 a) + length (cs_b1 a) + length (cs_b2 a) \<noteq> 2 * cs_c a"
    | (b1) "\<not> in_ghosts (cc_index cc k)" "length (cs_t1 a) + length (cs_b1 a) = cs_c a"
    | (b2) "\<not> in_ghosts (cc_index cc k)" "length (cs_t1 a) + length (cs_b1 a) \<noteq> cs_c a"
        "length (cs_t1 a) + length (cs_t2 a) + length (cs_b1 a) + length (cs_b2 a) = 2 * cs_c a"
    by blast
  then show ?thesis
  proof cases
    case ghost
    with rel gh show ?thesis by (simp add: car_discard_def spec_discard_def)
  next
    case keep
    with rel gh c show ?thesis by (simp add: car_discard_def spec_discard_def sz)
  next
    case b1
    obtain b1 gone where d: "gl_remove_lru (cc_b1 cc) = Some (gone, b1)"
        "gone = (case y1 of [] \<Rightarrow> None | y # _ \<Rightarrow> Some (snd y))"
        "car_ok (case gone of Some k \<Rightarrow> cc\<lparr>cc_b1 := b1, cc_index := (cc_index cc)(k := None)\<rparr>
           | None \<Rightarrow> cc\<lparr>cc_b1 := b1\<rparr>) x1 x2 (tl y1) y2 {#}" by (rule discard_b1 [OF v(1)])
    let ?cc = "case gone of Some k \<Rightarrow> cc\<lparr>cc_b1 := b1, cc_index := (cc_index cc)(k := None)\<rparr>
           | None \<Rightarrow> cc\<lparr>cc_b1 := b1\<rparr>"
    have "k \<noteq> snd y" if "y1 = y # ys" for y ys using that gh b1(1) v(2) by auto
    then have "cc_index ?cc k = cc_index cc k" using d(2) by (auto split: list.splits)
    moreover have "spec_discard k a = car_view ?cc x1 x2 (tl y1) y2"
      using b1 gh v(2) by (simp add: spec_discard_def car_view_def map_tl split: option.split)
    moreover have "car_discard cc (in_ghosts (cc_index cc k)) = Some ?cc"
      using b1 d(1) by (simp add: car_discard_def sz split: option.split)
    ultimately show ?thesis using d(3) by (blast intro: car_relI)
  next
    case b2
    obtain b2 gone where d: "gl_remove_lru (cc_b2 cc) = Some (gone, b2)"
        "gone = (case y2 of [] \<Rightarrow> None | y # _ \<Rightarrow> Some (snd y))"
        "car_ok (case gone of Some k \<Rightarrow> cc\<lparr>cc_b2 := b2, cc_index := (cc_index cc)(k := None)\<rparr>
           | None \<Rightarrow> cc\<lparr>cc_b2 := b2\<rparr>) x1 x2 y1 (tl y2) {#}" by (rule discard_b2 [OF v(1)])
    let ?cc = "case gone of Some k \<Rightarrow> cc\<lparr>cc_b2 := b2, cc_index := (cc_index cc)(k := None)\<rparr>
           | None \<Rightarrow> cc\<lparr>cc_b2 := b2\<rparr>"
    have "k \<noteq> snd y" if "y2 = y # ys" for y ys using that gh b2(1) v(2) by auto
    then have "cc_index ?cc k = cc_index cc k" using d(2) by (auto split: list.splits)
    moreover have "spec_discard k a = car_view ?cc x1 x2 y1 (tl y2)"
      using b2 gh v(2) by (simp add: spec_discard_def car_view_def map_tl split: option.split)
    moreover have "car_discard cc (in_ghosts (cc_index cc k)) = Some ?cc"
      using b2 c d(1) by (simp add: car_discard_def sz split: option.split)
    ultimately show ?thesis using d(3) by (blast intro: car_relI)
  qed
qed

text \<open>Placing the requested page: back into T2 from a ghost list, or at the tail of T1.\<close>

lemma remove1_middle: "k \<notin> set xs \<Longrightarrow> remove1 k (xs @ k # ys) = xs @ ys"
  by (simp add: remove1_append)

lemma car_place_refines:
  assumes rel: "car_rel cc a" and mid: "mid_ok k a"
  shows "\<exists>cc'. car_place cc (cc_index cc k) k v = Some cc' \<and> car_rel cc' (spec_place k v a)"
proof -
  obtain x1 x2 y1 y2 where w: "car_ok cc x1 x2 y1 y2 {#}" "a = car_view cc x1 x2 y1 y2"
    using rel by (rule car_relE)
  have sz: "gl_size (cc_b1 cc) = length y1" "gl_size (cc_b2 cc) = length y2"
    using w(1) by (simp_all add: car_ok_def ghost_ok_def)
  have room: "length x1 < cc_c cc" "length x2 < cc_c cc" using mid w(2) by (simp_all add: mid_ok_def)
  have d: "distinct (all_keys a)" and k: "k \<notin> resident a" using mid by (simp_all add: mid_ok_def)
  from w(1) show ?thesis
  proof (cases rule: index_cases [where k = k])
    case (T1 s e)
    then have "k \<in> resident a" using w(2) by (force simp: resident_def)
    with k show ?thesis by blast
  next
    case (T2 s e)
    then have "k \<in> resident a" using w(2) by (force simp: resident_def)
    with k show ?thesis by blast
  next
    case (B1 s ys zs)
    let ?p = "min (cc_p cc + max 1 (length y2 div length y1)) (cc_c cc)"
    have g: "ghost_ok (cc_b1 cc) (ys @ (s, k) # zs)" using w(1) B1(2) by (simp add: car_ok_def)
    obtain b1 where r: "gl_remove (cc_b1 cc) s = Some (True, b1)" "ghost_ok b1 (ys @ zs)"
        "gl_capacity b1 = gl_capacity (cc_b1 cc)" using ghost.remove_ok [OF g] by blast
    let ?cc = "cc\<lparr>cc_p := ?p, cc_b1 := b1\<rparr>"
    have "car_ok ?cc x1 x2 (ys @ zs) y2 {#(k, LocB1 s)#}"
      using w(1) r B1(2) by (simp add: car_ok_def locs_simps)
    then obtain s' cc' where m: "car_move_to_t2 ?cc k v = Some cc'" "same_params cc' ?cc"
        "car_ok cc' x1 (x2 @ [(s', cache_entry_new k v)]) (ys @ zs) y2 {#}"
      using move_to_t2_ok [of ?cc x1 x2 "ys @ zs" "y2" k "LocB1 s" v] room(2) by auto
    have "car_place cc (cc_index cc k) k v = Some cc'"
      using B1 r(1) m(1) sz by (simp add: car_place_def Let_def)
    moreover have "k \<notin> set (map snd ys)" using d w(2) B1(2) by (auto simp: all_keys_def)
    then have "spec_place k v a = car_view cc' x1 (x2 @ [(s', cache_entry_new k v)]) (ys @ zs) y2"
      using m(2) w(2) B1(2) remove1_middle [of k "map snd ys" "map snd zs"]
      by (simp add: spec_place_def car_view_def same_params_def)
    ultimately show ?thesis using m(3) by (blast intro: car_relI)
  next
    case (B2 s ys zs)
    let ?p = "cc_p cc - max 1 (length y1 div length y2)"
    have g: "ghost_ok (cc_b2 cc) (ys @ (s, k) # zs)" using w(1) B2(2) by (simp add: car_ok_def)
    obtain b2 where r: "gl_remove (cc_b2 cc) s = Some (True, b2)" "ghost_ok b2 (ys @ zs)"
        "gl_capacity b2 = gl_capacity (cc_b2 cc)" using ghost.remove_ok [OF g] by blast
    let ?cc = "cc\<lparr>cc_p := ?p, cc_b2 := b2\<rparr>"
    have "car_ok ?cc x1 x2 y1 (ys @ zs) {#(k, LocB2 s)#}"
      using w(1) r B2(2) by (simp add: car_ok_def locs_simps)
    then obtain s' cc' where m: "car_move_to_t2 ?cc k v = Some cc'" "same_params cc' ?cc"
        "car_ok cc' x1 (x2 @ [(s', cache_entry_new k v)]) y1 (ys @ zs) {#}"
      using move_to_t2_ok [of ?cc x1 x2 "y1" "ys @ zs" k "LocB2 s" v] room(2) by auto
    have "car_place cc (cc_index cc k) k v = Some cc'"
      using B2 r(1) m(1) sz by (simp add: car_place_def Let_def)
    moreover have "k \<notin> set (map snd ys)" "k \<notin> set (map snd y1)" using d w(2) B2(2) by (auto simp: all_keys_def)
    then have "spec_place k v a = car_view cc' x1 (x2 @ [(s', cache_entry_new k v)]) y1 (ys @ zs)"
      using m(2) w(2) B2(2) remove1_middle [of k "map snd ys" "map snd zs"]
      by (simp add: spec_place_def car_view_def same_params_def)
    ultimately show ?thesis using m(3) by (blast intro: car_relI)
  next
    case none
    obtain s t1 where i: "cl_insert_at_tail (cc_t1 cc) k v = Some (Inr s, t1)"
        "clock_ok t1 (x1 @ [(s, cache_entry_new k v)])" "cl_capacity t1 = cl_capacity (cc_t1 cc)"
      using clock.insert_ok [of "cc_t1 cc" x1 k v] w(1) room(1) by (auto simp: car_ok_def)
    let ?cc = "cc\<lparr>cc_t1 := t1, cc_index := (cc_index cc)(k \<mapsto> LocT1 s)\<rparr>"
    have "idx_ok ((cc_index cc)(k \<mapsto> LocT1 s)) (add_mset (k, LocT1 s) (locs x1 x2 y1 y2))"
      using w(1) none(1) by (intro idx_add) (simp_all add: car_ok_def)
    then have "car_ok ?cc (x1 @ [(s, cache_entry_new k v)]) x2 y1 y2 {#}"
      using w(1) i by (simp add: car_ok_def locs_simps)
    moreover have "spec_place k v a = car_view ?cc (x1 @ [(s, cache_entry_new k v)]) x2 y1 y2"
      using none(2) w(2) by (simp add: spec_place_def car_view_def all_keys_def)
    moreover have "car_place cc (cc_index cc k) k v = Some ?cc"
      using none(1) i(1) by (simp add: car_place_def)
    ultimately show ?thesis by (blast intro: car_relI)
  qed
qed

text \<open>A hit writes the entry in its slot, which is the page of the key.\<close>

lemma write_slot_on_page:
  assumes "distinct (map fst xs)" and "distinct (map (ce_key \<circ> snd) xs)" and "(s, e) \<in> set xs" and "ce_key e = k"
  shows "map snd (write_slot s (f e) xs) = on_page k f (map snd xs)"
proof -
  have "fst x = s \<longleftrightarrow> ce_key (snd x) = k" "fst x = s \<Longrightarrow> snd x = e" if "x \<in> set xs" for x
    using assms that by (metis comp_apply distinct_map fst_conv inj_onD snd_conv)+
  then show ?thesis by (auto simp: write_slot_def on_page_def)
qed

lemma on_page_id: "k \<notin> ce_key ` set es \<Longrightarrow> on_page k f es = es"
  by (auto simp: on_page_def intro!: map_idI)

lemma write_slot_loc:
  assumes "distinct (map fst xs)" and "(s, e) \<in> set xs" and "ce_key e' = ce_key e"
  shows "map (\<lambda>x. (ce_key (snd x), L (fst x))) (write_slot s e' xs) = map (\<lambda>x. (ce_key (snd x), L (fst x))) xs"
proof -
  have "snd x = e" if "x \<in> set xs" "fst x = s" for x
    using assms(1,2) that by (metis distinct_map fst_conv inj_onD snd_conv)
  then show ?thesis using assms(3) by (auto simp: write_slot_def)
qed

lemma touch_t1:
  assumes ok: "car_ok cc x1 x2 y1 y2 {#}" and mem: "(s, e) \<in> set x1" "ce_key e = k"
    and key: "\<And>e. ce_key (f e) = ce_key e"
  obtains put where "cl_get_mut (cc_t1 cc) s = Some (e, put)"
    "car_rel (cc\<lparr>cc_t1 := put (f e)\<rparr>) (spec_touch k f (car_view cc x1 x2 y1 y2))"
proof -
  have t: "clock_ok (cc_t1 cc) x1" using ok by (simp add: car_ok_def)
  obtain put where p: "cl_get_mut (cc_t1 cc) s = Some (e, put)"
      "\<And>e'. clock_ok (put e') (write_slot s e' x1) \<and> cl_capacity (put e') = cl_capacity (cc_t1 cc)"
    using clock.get_mut_ok [OF t mem(1)] by blast
  note slots = clock.ok_distinct [OF t] and d = car_keys_distinct [OF ok]
  have "distinct (map (ce_key \<circ> snd) x1)" using d by (simp add: all_keys_def)
  note pg = write_slot_on_page [where f = f, OF slots this mem]
  have "k \<in> ce_key ` set (map snd x1)" using mem by force
  then have "on_page k f (map snd x2) = map snd x2" using d by (intro on_page_id) (auto simp: all_keys_def)
  with pg have "spec_touch k f (car_view cc x1 x2 y1 y2) =
      car_view (cc\<lparr>cc_t1 := put (f e)\<rparr>) (write_slot s (f e) x1) x2 y1 y2"
    by (simp add: spec_touch_def car_view_def)
  moreover have "locs (write_slot s (f e) x1) x2 y1 y2 = locs x1 x2 y1 y2"
    unfolding locs_def by (simp only: write_slot_loc [OF slots mem(1) key])
  then have "car_ok (cc\<lparr>cc_t1 := put (f e)\<rparr>) (write_slot s (f e) x1) x2 y1 y2 {#}"
    using ok p(2) by (simp add: car_ok_def)
  ultimately show thesis using p(1) by (intro that) (auto intro: car_relI)
qed

lemma touch_t2:
  assumes ok: "car_ok cc x1 x2 y1 y2 {#}" and mem: "(s, e) \<in> set x2" "ce_key e = k"
    and key: "\<And>e. ce_key (f e) = ce_key e"
  obtains put where "cl_get_mut (cc_t2 cc) s = Some (e, put)"
    "car_rel (cc\<lparr>cc_t2 := put (f e)\<rparr>) (spec_touch k f (car_view cc x1 x2 y1 y2))"
proof -
  have t: "clock_ok (cc_t2 cc) x2" using ok by (simp add: car_ok_def)
  obtain put where p: "cl_get_mut (cc_t2 cc) s = Some (e, put)"
      "\<And>e'. clock_ok (put e') (write_slot s e' x2) \<and> cl_capacity (put e') = cl_capacity (cc_t2 cc)"
    using clock.get_mut_ok [OF t mem(1)] by blast
  note slots = clock.ok_distinct [OF t] and d = car_keys_distinct [OF ok]
  have "distinct (map (ce_key \<circ> snd) x2)" using d by (simp add: all_keys_def)
  note pg = write_slot_on_page [where f = f, OF slots this mem]
  have "k \<in> ce_key ` set (map snd x2)" using mem by force
  then have "on_page k f (map snd x1) = map snd x1" using d by (intro on_page_id) (auto simp: all_keys_def)
  with pg have "spec_touch k f (car_view cc x1 x2 y1 y2) =
      car_view (cc\<lparr>cc_t2 := put (f e)\<rparr>) x1 (write_slot s (f e) x2) y1 y2"
    by (simp add: spec_touch_def car_view_def)
  moreover have "locs x1 (write_slot s (f e) x2) y1 y2 = locs x1 x2 y1 y2"
    unfolding locs_def by (simp only: write_slot_loc [OF slots mem(1) key])
  then have "car_ok (cc\<lparr>cc_t2 := put (f e)\<rparr>) x1 (write_slot s (f e) x2) y1 y2 {#}"
    using ok p(2) by (simp add: car_ok_def)
  ultimately show thesis using p(1) by (intro that) (auto intro: car_relI)
qed

lemma spec_lookup_mem:
  assumes "distinct (all_keys a)" and "e \<in> set (cs_t1 a @ cs_t2 a)"
  shows "spec_lookup a (ce_key e) = Some (ce_value e)"
  unfolding spec_lookup_iff [OF assms(1)] using assms(2) by force

lemma spec_touch_id: "k \<notin> resident a \<Longrightarrow> spec_touch k f a = a"
  by (simp add: spec_touch_def resident_def on_page_id image_Un)

lemma car_rel_distinct: "car_rel cc a \<Longrightarrow> distinct (all_keys a)"
  by (auto elim!: car_relE dest: car_keys_distinct)

text \<open>
  A key of the index is a page in T1 or T2, where its slot can be written; or it is not resident.
\<close>

lemma hit_cases:
  assumes rel: "car_rel cc a" and key: "\<And>e. ce_key (f e) = ce_key e"
  obtains (T1) s e put where "cc_index cc k = Some (LocT1 s)" "cl_get_mut (cc_t1 cc) s = Some (e, put)"
      "car_rel (cc\<lparr>cc_t1 := put (f e)\<rparr>) (spec_touch k f a)" "spec_lookup a k = Some (ce_value e)" "k \<in> resident a"
  | (T2) s e put where "cc_index cc k = Some (LocT2 s)" "cl_get_mut (cc_t2 cc) s = Some (e, put)"
      "car_rel (cc\<lparr>cc_t2 := put (f e)\<rparr>) (spec_touch k f a)" "spec_lookup a k = Some (ce_value e)" "k \<in> resident a"
  | (miss) "\<forall>s. cc_index cc k \<noteq> Some (LocT1 s) \<and> cc_index cc k \<noteq> Some (LocT2 s)" "k \<notin> resident a"
proof -
  obtain x1 x2 y1 y2 where v: "car_ok cc x1 x2 y1 y2 {#}" "a = car_view cc x1 x2 y1 y2"
    using rel by (rule car_relE)
  note d = car_rel_distinct [OF rel]
  from v(1) show thesis
  proof (cases rule: index_cases [where k = k])
    case (T1 s e)
    have e: "e \<in> set (cs_t1 a @ cs_t2 a)" using T1(2) v(2) by force
    obtain put where "cl_get_mut (cc_t1 cc) s = Some (e, put)"
        "car_rel (cc\<lparr>cc_t1 := put (f e)\<rparr>) (spec_touch k f (car_view cc x1 x2 y1 y2))"
      by (rule touch_t1 [OF v(1) T1(2,3) key])
    with that(1) [of s e put] T1 v(2) e spec_lookup_mem [OF d e] show thesis by (auto simp: resident_def)
  next
    case (T2 s e)
    have e: "e \<in> set (cs_t1 a @ cs_t2 a)" using T2(2) v(2) by force
    obtain put where "cl_get_mut (cc_t2 cc) s = Some (e, put)"
        "car_rel (cc\<lparr>cc_t2 := put (f e)\<rparr>) (spec_touch k f (car_view cc x1 x2 y1 y2))"
      by (rule touch_t2 [OF v(1) T2(2,3) key])
    with that(2) [of s e put] T2 v(2) e spec_lookup_mem [OF d e] show thesis by (auto simp: resident_def)
  next
    case none
    with v(2) show thesis by (intro that(3)) (auto simp: all_keys_def resident_def)
  next
    case (B1 s ys zs)
    then have "k \<in> set (cs_b1 a)" using v(2) by simp
    then show thesis using d B1 by (intro that(3)) (auto simp: all_keys_def resident_def)
  next
    case (B2 s ys zs)
    then have "k \<in> set (cs_b2 a)" using v(2) by simp
    then show thesis using d B2 by (intro that(3)) (auto simp: all_keys_def resident_def)
  qed
qed

lemma car_get_miss:
  "\<forall>s. cc_index cc k \<noteq> Some (LocT1 s) \<and> cc_index cc k \<noteq> Some (LocT2 s) \<Longrightarrow>
   car_get cc k = (None, cc) \<and> car_refresh cc k v = None"
  by (auto simp: car_get_def car_refresh_def split: option.splits location.splits)

lemma car_get_refines:
  assumes rel: "car_rel cc a"
  shows "fst (car_get cc k) = fst (spec_get a k)" "car_rel (snd (car_get cc k)) (snd (spec_get a k))"
proof -
  have key: "ce_key (e\<lparr>ce_ref_bit := True\<rparr>) = ce_key e" for e :: "('a, 'b) cache_entry" by simp
  have "fst (car_get cc k) = fst (spec_get a k) \<and> car_rel (snd (car_get cc k)) (snd (spec_get a k))"
    using rel key
  proof (cases rule: hit_cases [where k = k])
    case miss
    then show ?thesis using rel car_get_miss [OF miss(1)] spec_lookup_resident [of a k]
      by (simp add: spec_get_def spec_touch_id)
  qed (simp_all add: car_get_def spec_get_def)
  then show "fst (car_get cc k) = fst (spec_get a k)" "car_rel (snd (car_get cc k)) (snd (spec_get a k))"
    by blast+
qed

lemma car_refresh_refines:
  assumes rel: "car_rel cc a"
  shows "k \<in> resident a \<Longrightarrow> \<exists>cc'. car_refresh cc k v = Some cc' \<and>
      car_rel cc' (spec_touch k (\<lambda>e. e\<lparr>ce_value := v, ce_ref_bit := True\<rparr>) a)"
    and "k \<notin> resident a \<Longrightarrow> car_refresh cc k v = None"
proof -
  let ?f = "\<lambda>e. e\<lparr>ce_value := v, ce_ref_bit := True\<rparr>"
  have key: "ce_key (?f e) = ce_key e" for e :: "('a, 'b) cache_entry" by simp
  have f: "e\<lparr>ce_ref_bit := True, ce_value := v\<rparr> = ?f e" for e :: "('a, 'b) cache_entry" by simp
  have "(k \<in> resident a \<longrightarrow> (\<exists>cc'. car_refresh cc k v = Some cc' \<and> car_rel cc' (spec_touch k ?f a))) \<and>
      (k \<notin> resident a \<longrightarrow> car_refresh cc k v = None)"
    using rel key
  proof (cases rule: hit_cases [where k = k])
    case (T1 s e put)
    then show ?thesis by (simp add: car_refresh_def f)
  next
    case (T2 s e put)
    then show ?thesis by (simp add: car_refresh_def f)
  next
    case miss
    then show ?thesis using car_get_miss [OF miss(1), of v] by simp
  qed
  then show "k \<in> resident a \<Longrightarrow> \<exists>cc'. car_refresh cc k v = Some cc' \<and> car_rel cc' (spec_touch k ?f a)"
    "k \<notin> resident a \<Longrightarrow> car_refresh cc k v = None" by blast+
qed

lemma car_put_refines:
  assumes rel: "car_rel cc a" and ok: "spec_ok a" and c: "2 * cs_c a \<le> u64_max"
  shows "\<exists>cc'. car_put cc k v = Some (map_option (\<lambda>e. (ce_key e, ce_value e)) (fst (spec_put a k v)), cc') \<and>
    car_rel cc' (snd (spec_put a k v))"
proof -
  note sz = car_rel_sizes [OF rel]
  from ok show ?thesis
  proof (cases rule: spec_put_cases [where k = k and v = v])
    case off
    with rel sz show ?thesis by (simp add: car_put_def)
  next
    case hit
    obtain cc' where "car_refresh cc k v = Some cc'"
        "car_rel cc' (spec_touch k (\<lambda>e. e\<lparr>ce_value := v, ce_ref_bit := True\<rparr>) a)"
      using car_refresh_refines(1) [OF rel hit(2)] by blast
    with hit sz show ?thesis by (simp add: car_put_def)
  next
    case (full e a1)
    obtain cc1 where r: "car_replace cc = Some (e, cc1)" "car_rel cc1 a1"
      using car_replace_refines [OF rel ok full(3,4)] by blast
    have "2 * cs_c a1 \<le> u64_max" using c full(7) by simp
    then obtain cc2 where d: "car_discard cc1 (in_ghosts (cc_index cc1 k)) = Some cc2"
        "cc_index cc2 k = cc_index cc1 k" "car_rel cc2 (spec_discard k a1)"
      using car_discard_refines [OF r(2)] by blast
    obtain cc3 where p: "car_place cc2 (cc_index cc1 k) k v = Some cc3"
        "car_rel cc3 (spec_place k v (spec_discard k a1))"
      using car_place_refines [OF d(3) full(6), of v] d(2) by auto
    have "car_put cc k v = Some (Some (ce_key e, ce_value e), cc3)"
      using full(1,3) sz r(1) d(1) p(1) car_refresh_refines(2) [OF rel full(2), of v]
      by (simp add: car_put_def)
    with p(2) full(5) show ?thesis by simp
  next
    case room
    have empty: "cs_b1 a = []" "cs_b2 a = []" using ok room(3) by (simp_all add: spec_ok_def)
    then have "k \<notin> set (all_keys a)" using room(2) by (simp add: all_keys_resident)
    then have "cc_index cc k = None" by (rule in_ghosts_iff(2) [OF rel])
    then obtain cc1 where p: "car_place cc None k v = Some cc1" "car_rel cc1 (spec_place k v a)"
      using car_place_refines [OF rel room(5), of v] by auto
    have "car_put cc k v = Some (None, cc1)"
      using room(1,3) sz empty p(1) car_refresh_refines(2) [OF rel room(2), of v]
      by (simp add: car_put_def)
    with p(2) room(4) show ?thesis by simp
  qed
qed

lemma car_new_rel:
  assumes "2 * c \<le> u64_max"
  shows "car_rel (car_with_hasher c) (spec_new c)"
proof (rule car_relI)
  have "min (Suc c) u64_max = Suc c" using assms by (cases c) (auto simp: u64_max_def)
  then show "car_ok (car_with_hasher c) [] [] [] [] {#}"
    by (simp add: car_ok_def car_with_hasher_def clock_ok_new ghost_ok_new idx_ok_def locs_def
        clock_list_new_def [THEN arg_cong [where f = cl_capacity]]
        ghost_list_new_def [THEN arg_cong [where f = gl_capacity]])
qed (simp add: spec_new_def car_view_def car_with_hasher_def)

section \<open>Sequences of operations\<close>

datatype ('k, 'v) car_op = Get 'k | Put 'k 'v

datatype ('k, 'v) car_out = Got "'v option" | Evicts "('k \<times> 'v) option"

fun car_step :: "('k, 'v) car_cache \<Rightarrow> ('k, 'v) car_op \<Rightarrow> (('k, 'v) car_out \<times> ('k, 'v) car_cache) outcome" where
  "car_step cc (Get k) = (let (r, cc) = car_get cc k in Some (Got r, cc))"
| "car_step cc (Put k v) = do { (r, cc) \<leftarrow> car_put cc k v; Some (Evicts r, cc) }"

fun car_run :: "('k, 'v) car_cache \<Rightarrow> ('k, 'v) car_op list \<Rightarrow>
    (('k, 'v) car_out list \<times> ('k, 'v) car_cache) outcome" where
  "car_run cc [] = Some ([], cc)"
| "car_run cc (oper # ops) = do {
     (out, cc) \<leftarrow> car_step cc oper; (outs, cc) \<leftarrow> car_run cc ops; Some (out # outs, cc) }"

fun spec_step :: "('k, 'v) car_spec \<Rightarrow> ('k, 'v) car_op \<Rightarrow> ('k, 'v) car_out \<times> ('k, 'v) car_spec" where
  "spec_step a (Get k) = (let (r, a) = spec_get a k in (Got r, a))"
| "spec_step a (Put k v) =
     (let (r, a) = spec_put a k v in (Evicts (map_option (\<lambda>e. (ce_key e, ce_value e)) r), a))"

fun spec_run :: "('k, 'v) car_spec \<Rightarrow> ('k, 'v) car_op list \<Rightarrow> ('k, 'v) car_out list \<times> ('k, 'v) car_spec" where
  "spec_run a [] = ([], a)"
| "spec_run a (oper # ops) =
     (let (out, a) = spec_step a oper; (outs, a) = spec_run a ops in (out # outs, a))"

lemma spec_step_ok:
  "spec_ok a \<Longrightarrow> spec_ok (snd (spec_step a oper)) \<and> cs_c (snd (spec_step a oper)) = cs_c a"
  by (cases oper) (use spec_put_ok [of a] in \<open>auto simp: spec_get_def spec_touch_ok case_prod_unfold Let_def\<close>)

lemma car_step_refines:
  assumes "car_rel cc a" and "spec_ok a" and "2 * cs_c a \<le> u64_max"
  shows "\<exists>cc'. car_step cc oper = Some (fst (spec_step a oper), cc') \<and> car_rel cc' (snd (spec_step a oper))"
proof (cases oper)
  case (Get k)
  with car_get_refines [OF assms(1), of k] show ?thesis by (auto simp: case_prod_unfold Let_def)
next
  case (Put k v)
  with car_put_refines [OF assms, of k v] show ?thesis by (auto simp: case_prod_unfold Let_def)
qed

lemma car_run_refines:
  assumes "car_rel cc a" and "spec_ok a" and "2 * cs_c a \<le> u64_max"
  shows "\<exists>cc'. car_run cc ops = Some (fst (spec_run a ops), cc') \<and> car_rel cc' (snd (spec_run a ops)) \<and>
    spec_ok (snd (spec_run a ops)) \<and> cs_c (snd (spec_run a ops)) = cs_c a"
  using assms
proof (induction ops arbitrary: cc a)
  case (Cons oper ops)
  obtain cc1 where s: "car_step cc oper = Some (fst (spec_step a oper), cc1)" "car_rel cc1 (snd (spec_step a oper))"
    using car_step_refines [OF Cons.prems] by blast
  have ok: "spec_ok (snd (spec_step a oper))" "cs_c (snd (spec_step a oper)) = cs_c a"
    using spec_step_ok [OF Cons.prems(2)] by blast+
  from Cons.IH [OF s(2) ok(1)] ok(2) Cons.prems(3) s(1) show ?case by (auto simp: case_prod_unfold Let_def)
qed simp

lemma car_run_returns:
  assumes "2 * c \<le> u64_max"
  obtains cc where "car_run (car_with_hasher c) ops = Some (fst (spec_run (spec_new c) ops), cc)"
    "car_rel cc (snd (spec_run (spec_new c) ops))" "spec_ok (snd (spec_run (spec_new c) ops))"
    "cs_c (snd (spec_run (spec_new c) ops)) = c"
proof -
  have "2 * cs_c (spec_new c) \<le> u64_max" using assms by (simp add: spec_new_def)
  from car_run_refines [OF car_new_rel [OF assms] spec_ok_new this, of ops] that show thesis
    by (auto simp: spec_new_def)
qed

lemma car_reach:
  assumes "2 * c \<le> u64_max" and "car_run (car_with_hasher c) ops = Some (outs, cc)"
  obtains a where "car_rel cc a" "spec_ok a" "cs_c a = c" "a = snd (spec_run (spec_new c) ops)"
  by (rule car_run_returns [OF assms(1), of ops]) (use assms(2) that in auto)


text \<open>The last value put for each key, whatever the cache did.\<close>

fun last_put :: "('k \<Rightarrow> 'v option) \<Rightarrow> ('k, 'v) car_op list \<Rightarrow> 'k \<Rightarrow> 'v option" where
  "last_put m [] = m"
| "last_put m (Get k # ops) = last_put m ops"
| "last_put m (Put k v # ops) = last_put (m(k \<mapsto> v)) ops"

lemma spec_put_coherent:
  assumes ok: "spec_ok a" and sub: "spec_lookup a \<subseteq>\<^sub>m m"
  shows "spec_lookup (snd (spec_put a k v)) \<subseteq>\<^sub>m m(k \<mapsto> v)"
proof (cases "cs_c a = 0")
  case True
  then have "spec_lookup a = Map.empty" using ok by (simp add: spec_ok_def spec_lookup_def fun_eq_iff)
  with True show ?thesis by (simp add: spec_put_def)
next
  case False
  obtain ev a' where p: "spec_put a k v = (ev, a')" by fastforce
  have "spec_lookup a' = (case ev of None \<Rightarrow> spec_lookup a | Some e \<Rightarrow> (spec_lookup a)(ce_key e := None))(k \<mapsto> v)"
    using spec_put_lookup [OF ok _ p] False by blast
  moreover have "(case ev of None \<Rightarrow> spec_lookup a | Some e \<Rightarrow> (spec_lookup a)(ce_key e := None)) \<subseteq>\<^sub>m m"
    using sub by (auto simp: map_le_def split: option.split if_splits)
  ultimately show ?thesis using p by (auto simp: map_le_def)
qed

lemma spec_run_coherent:
  assumes "spec_ok a" and "spec_lookup a \<subseteq>\<^sub>m m"
  shows "spec_lookup (snd (spec_run a ops)) \<subseteq>\<^sub>m last_put m ops"
  using assms
proof (induction ops arbitrary: a m)
  case (Cons oper ops)
  have ok: "spec_ok (snd (spec_step a oper))" using spec_step_ok [OF Cons.prems(1)] by blast
  show ?case
  proof (cases oper)
    case (Get k)
    have "spec_lookup (snd (spec_step a oper)) = spec_lookup a"
      using Get by (simp add: spec_get_def spec_lookup_touch)
    with Cons.IH [OF ok] Cons.prems Get show ?thesis by (simp add: case_prod_unfold Let_def)
  next
    case (Put k v)
    have "spec_lookup (snd (spec_step a oper)) \<subseteq>\<^sub>m m(k \<mapsto> v)"
      using Put spec_put_coherent [OF Cons.prems] by (simp add: case_prod_unfold Let_def)
    with Cons.IH [OF ok] Put show ?thesis by (simp add: case_prod_unfold Let_def)
  qed
qed simp

lemma car_put_effect:
  assumes c: "2 * c \<le> u64_max" "0 < c" and run: "car_run (car_with_hasher c) ops = Some (outs, cc)"
  shows "\<exists>ev cc'. car_put cc k v = Some (ev, cc') \<and>
    (\<forall>j. fst (car_get cc' j) =
       (if j = k then Some v else if \<exists>w. ev = Some (j, w) then None else fst (car_get cc j))) \<and>
    (\<forall>j w. ev = Some (j, w) \<longrightarrow>
       fst (car_get cc j) = Some w \<and> j \<noteq> k \<and> fst (car_get cc k) = None \<and> car_len cc = c)"
proof -
  obtain a where a: "car_rel cc a" "spec_ok a" "cs_c a = c" by (rule car_reach [OF c(1) run])
  obtain ev a' where p: "spec_put a k v = (ev, a')" by fastforce
  have "2 * cs_c a \<le> u64_max" using c(1) a(3) by simp
  from car_put_refines [OF a(1,2) this, of k v] p obtain cc' where
      put: "car_put cc k v = Some (map_option (\<lambda>e. (ce_key e, ce_value e)) ev, cc')" and rel': "car_rel cc' a'"
    by auto
  have gets: "fst (car_get cc' j) = spec_lookup a' j" "fst (car_get cc j) = spec_lookup a j" for j
    using car_get_refines(1) [OF rel', of j] car_get_refines(1) [OF a(1), of j] by (simp_all add: spec_get_def)
  have len: "car_len cc = length (cs_t1 a) + length (cs_t2 a)"
    using car_rel_sizes [OF a(1)] by (simp add: car_len_def)
  have "0 < cs_c a" using c(2) a(3) by simp
  from spec_put_lookup [OF a(2) this p] put show ?thesis
    unfolding len a(3) [symmetric] by (cases ev) (auto simp: gets)
qed

section \<open>The interface\<close>

text \<open>
  What a client of the cache relies on: a get returns what is held and changes nothing, a put returns and
  makes the pair held, and may drop others but never alters them.
\<close>

locale keyed_cache =
  fixes cache_ok :: "'c \<Rightarrow> bool"
    and holds :: "'c \<Rightarrow> 'k \<Rightarrow> 'v option"
    and get_value :: "'c \<Rightarrow> 'k \<Rightarrow> 'v option \<times> 'c"
    and put_value :: "'c \<Rightarrow> 'k \<Rightarrow> 'v \<Rightarrow> (('k \<times> 'v) option \<times> 'c) outcome"
  assumes get_law: "cache_ok c \<Longrightarrow>
      fst (get_value c k) = holds c k \<and> cache_ok (snd (get_value c k)) \<and> holds (snd (get_value c k)) = holds c"
    and put_law: "cache_ok c \<Longrightarrow>
      \<exists>ev c'. put_value c k v = Some (ev, c') \<and> cache_ok c' \<and> holds c' \<subseteq>\<^sub>m (holds c)(k \<mapsto> v)"
begin

text \<open>What a predicate on pairs says of everything held survives gets, and puts of pairs that satisfy it.\<close>

lemma get_all:
  assumes "cache_ok c" and "\<forall>j w. holds c j = Some w \<longrightarrow> P j w"
  shows "\<forall>j w. holds (snd (get_value c k)) j = Some w \<longrightarrow> P j w"
    "fst (get_value c k) = Some v \<Longrightarrow> P k v" "cache_ok (snd (get_value c k))"
  using get_law [OF assms(1), of k] assms(2) by auto

lemma put_all:
  assumes "cache_ok c" and "\<forall>j w. holds c j = Some w \<longrightarrow> P j w" and "P k v"
  obtains ev c' where "put_value c k v = Some (ev, c')" "cache_ok c'" "\<forall>j w. holds c' j = Some w \<longrightarrow> P j w"
proof -
  obtain ev c' where p: "put_value c k v = Some (ev, c')" "cache_ok c'" "holds c' \<subseteq>\<^sub>m (holds c)(k \<mapsto> v)"
    using put_law [OF assms(1), of k v] by blast
  have "P j w" if held: "holds c' j = Some w" for j w
  proof -
    have "((holds c)(k \<mapsto> v)) j = Some w" using p(3) held by (metis domI map_le_def)
    with assms(2,3) show ?thesis by (auto split: if_splits)
  qed
  with p show thesis by (intro that) auto
qed

end

definition car_usable :: "('k, 'v) car_cache \<Rightarrow> bool" where
  "car_usable cc \<longleftrightarrow> (\<exists>a. car_rel cc a \<and> spec_ok a \<and> 2 * cs_c a \<le> u64_max)"

definition car_holds :: "('k, 'v) car_cache \<Rightarrow> 'k \<Rightarrow> 'v option" where
  "car_holds cc k = fst (car_get cc k)"

lemma car_holds_spec: "car_rel cc a \<Longrightarrow> car_holds cc = spec_lookup a"
  by (simp add: fun_eq_iff car_holds_def car_get_refines spec_get_def)

interpretation car: keyed_cache car_usable car_holds car_get car_put
proof
  fix cc :: "('k, 'v) car_cache" and k v
  assume "car_usable cc"
  then obtain a where a: "car_rel cc a" "spec_ok a" "2 * cs_c a \<le> u64_max" by (auto simp: car_usable_def)
  have get: "car_rel (snd (car_get cc k)) (snd (spec_get a k))" "spec_ok (snd (spec_get a k))"
    "spec_lookup (snd (spec_get a k)) = spec_lookup a" "cs_c (snd (spec_get a k)) = cs_c a"
    using car_get_refines(2) [OF a(1)] a(2) by (simp_all add: spec_get_def spec_touch_ok spec_lookup_touch)
  then show "fst (car_get cc k) = car_holds cc k \<and> car_usable (snd (car_get cc k)) \<and>
      car_holds (snd (car_get cc k)) = car_holds cc"
    using a(3) car_holds_spec [OF get(1)] car_holds_spec [OF a(1)]
    by (auto simp: car_usable_def car_holds_def fun_eq_iff)
  obtain cc' where put: "car_put cc k v = Some (map_option (\<lambda>e. (ce_key e, ce_value e)) (fst (spec_put a k v)), cc')"
      "car_rel cc' (snd (spec_put a k v))" using car_put_refines [OF a] by blast
  have "spec_lookup (snd (spec_put a k v)) \<subseteq>\<^sub>m (spec_lookup a)(k \<mapsto> v)"
    using spec_put_coherent [OF a(2) map_le_refl] .
  with put spec_put_ok [OF a(2), of k v] a(3) car_holds_spec [OF put(2)] car_holds_spec [OF a(1)]
  show "\<exists>ev cc'. car_put cc k v = Some (ev, cc') \<and> car_usable cc' \<and> car_holds cc' \<subseteq>\<^sub>m (car_holds cc)(k \<mapsto> v)"
    by (auto simp: car_usable_def)
qed

lemma car_usable_new: "2 * c \<le> u64_max \<Longrightarrow> car_usable (car_with_hasher c)"
  using car_new_rel spec_ok_new by (fastforce simp: car_usable_def spec_new_def)

lemma car_holds_new: "car_holds (car_with_hasher c) k = None"
  by (simp add: car_holds_def car_get_def car_with_hasher_def)

section \<open>The properties\<close>

text \<open>
  C14. The cache implements CAR: on every sequence of gets and puts, from the empty cache, no operation
  panics or loops, and it gives the same hits, values and evictions as the specification on lists.
\<close>

theorem car_cache_refines:
  assumes "2 * c \<le> u64_max"
  shows "map_option fst (car_run (car_with_hasher c) ops) = Some (fst (spec_run (spec_new c) ops))"
  by (rule car_run_returns [OF assms, of ops]) simp

theorem car_cache_refines_witness:
  "map_option fst (car_run (car_with_hasher 1) [Put (1::nat) ''a'', Get 1, Put 2 ''b'', Get 1, Get 2, Put 1 ''c'', Get 2]) =
     Some [Evicts None, Got (Some ''a''), Evicts (Some (1, ''a'')), Got None, Got (Some ''b''),
       Evicts (Some (2, ''b'')), Got None]"
proof -
  have "2 * (1::nat) \<le> u64_max" by (simp add: u64_max_def)
  from car_cache_refines [OF this, of "[Put (1::nat) ''a'', Get 1, Put 2 ''b'', Get 1, Get 2, Put 1 ''c'', Get 2]"]
  show ?thesis
    by (simp add: spec_new_def spec_put_def spec_get_def resident_def spec_place_def spec_touch_def spec_lookup_def
        on_page_def spec_replace_def spec_discard_def spec_victim.simps unreferenced_def cache_entry_new_def)
qed

text \<open>
  After a put the key has the new value, and every other key what it had, except the one the put
  returns as evicted. A put evicts only when the cache is full and the key is not in it, and the pair
  it returns is one the cache held.
\<close>

theorem car_put_then_get:
  assumes "2 * c \<le> u64_max" and "0 < c" and "car_run (car_with_hasher c) ops = Some (outs, cc)"
  shows "\<exists>ev cc'. car_put cc k v = Some (ev, cc') \<and>
    (\<forall>j. fst (car_get cc' j) =
       (if j = k then Some v else if \<exists>w. ev = Some (j, w) then None else fst (car_get cc j))) \<and>
    (\<forall>j w. ev = Some (j, w) \<longrightarrow>
       fst (car_get cc j) = Some w \<and> j \<noteq> k \<and> fst (car_get cc k) = None \<and> car_len cc = c)"
  using assms by (rule car_put_effect)

theorem car_put_then_get_witness:
  "\<exists>ev cc cc'. car_run (car_with_hasher 1) [Put (1::nat) ''a''] = Some ([Evicts None], cc) \<and>
     car_put cc 2 ''b'' = Some (ev, cc') \<and> fst (car_get cc' 2) = Some ''b''"
proof -
  have c: "2 * (1::nat) \<le> u64_max" "0 < (1::nat)" by (simp_all add: u64_max_def)
  obtain cc where run: "car_run (car_with_hasher 1) [Put (1::nat) ''a''] = Some ([Evicts None], cc)"
    by (rule car_run_returns [OF c(1), of "[Put (1::nat) ''a'']"])
      (simp add: spec_new_def spec_put_def resident_def spec_place_def)
  from car_put_then_get [OF c run, of 2 "''b''"] run show ?thesis by auto
qed



text \<open>C16. A get that hits returns the value of the last put for its key: nothing stale is ever served.\<close>

theorem car_cache_coherent:
  assumes "2 * c \<le> u64_max" and "car_run (car_with_hasher c) ops = Some (outs, cc)"
    and "fst (car_get cc k) = Some v"
  shows "last_put Map.empty ops k = Some v"
proof -
  obtain a where a: "car_rel cc a" "a = snd (spec_run (spec_new c) ops)" by (rule car_reach [OF assms(1,2)])
  have "spec_lookup (spec_new c) \<subseteq>\<^sub>m Map.empty" by (simp add: spec_lookup_def spec_new_def map_le_def dom_def)
  from spec_run_coherent [OF spec_ok_new this, of ops] have "spec_lookup a \<subseteq>\<^sub>m last_put Map.empty ops"
    by (simp add: a(2))
  moreover have "spec_lookup a k = Some v" using assms(3) car_get_refines(1) [OF a(1), of k]
    by (simp add: spec_get_def)
  ultimately show ?thesis by (metis domI map_le_def)
qed

theorem car_cache_coherent_witness:
  "\<exists>outs cc. car_run (car_with_hasher 1) [Put (1::nat) ''a'', Put 1 ''b''] = Some (outs, cc) \<and>
     (\<forall>v. fst (car_get cc 1) = Some v \<longrightarrow> v = ''b'')"
proof -
  let ?ops = "[Put (1::nat) ''a'', Put 1 ''b'']"
  have c: "2 * (1::nat) \<le> u64_max" by (simp add: u64_max_def)
  obtain outs cc where run: "car_run (car_with_hasher 1) ?ops = Some (outs, cc)"
    by (rule car_run_returns [OF c, of ?ops])
  from car_cache_coherent [OF c run, of 1] run show ?thesis by auto
qed

text \<open>
  The typed front: a value put with a type is what a get at that type returns next, a get at another type
  returns nothing, and the key of the evicted entry is what \<open>put\<close> evicted.
\<close>

theorem car_typed_roundtrip:
  assumes c: "2 * c \<le> u64_max" "0 < c" and run: "car_run (car_with_hasher c) ops = Some (outs, cc)"
  shows "\<exists>gone cc'. car_put_typed cc ty k v = Some (gone, cc') \<and>
    (\<forall>ty'. fst (car_get_typed cc' ty' k) = (if ty' = ty then Some v else None)) \<and>
    (\<forall>ty' j. gone = Some j \<longrightarrow> fst (car_get_typed cc' ty' j) = None)"
proof -
  obtain ev cc' where put: "car_put cc k (ty, v) = Some (ev, cc')"
    and get: "\<And>j. fst (car_get cc' j) =
       (if j = k then Some (ty, v) else if \<exists>w. ev = Some (j, w) then None else fst (car_get cc j))"
    and ev: "\<And>j w. ev = Some (j, w) \<Longrightarrow> j \<noteq> k"
    using car_put_effect [OF c run, of k "(ty, v)"] by blast
  have "fst (car_get_typed cc' ty' k) = (if ty' = ty then Some v else None)" for ty'
    using get [of k] by (auto simp: car_get_typed_def downcast_ref_def case_prod_unfold Let_def)
  moreover have "fst (car_get_typed cc' ty' j) = None" if gone: "map_option fst ev = Some j" for ty' j
  proof -
    obtain w where "ev = Some (j, w)" using gone by auto
    with ev [of j w] get [of j] show ?thesis by (simp add: car_get_typed_def case_prod_unfold Let_def)
  qed
  ultimately show ?thesis using put by (simp add: car_put_typed_def)
qed

theorem car_typed_roundtrip_witness:
  "\<exists>gone cc'. car_put_typed (car_with_hasher 4) ''System'' (7::nat) (42::nat) = Some (gone, cc') \<and>
     fst (car_get_typed cc' ''System'' 7) = Some 42 \<and> fst (car_get_typed cc' ''Chassis'' 7) = None"
proof -
  have c: "2 * (4::nat) \<le> u64_max" "0 < (4::nat)" by (simp_all add: u64_max_def)
  have run: "car_run (car_with_hasher 4 :: (nat, (string, nat) any_box) car_cache) [] = Some ([], car_with_hasher 4)"
    by simp
  from car_typed_roundtrip [OF c run, of "''System''" 7 42] show ?thesis by auto
qed

end
