(* ===== verification/Http_Bmc.thy ===== *)
theory Http_Bmc
  imports Bmc_Trait Car_Cache
begin

text \<open>
  \<open>HttpBmc\<close> and \<open>RedfishEndpoint\<close> (\<open>bmc-http/src/lib.rs\<close>) and the credentials they send
  (\<open>bmc-http/src/credentials.rs\<close>). An operation either fails before transport or sends one request to the client, a
  parameter; a read that may be cached has a part before its request and a part after the answer, and
  reads interleave in any order. The \<open>url\<close> crate is the record \<open>url_ops\<close>. A poisoned lock needs a panic
  under it, which here is \<open>None\<close> and is shown not to happen.
\<close>

section \<open>Credentials\<close>

datatype bmc_credentials =
    UsernamePassword string "string option"
  | Token string
  | Anonymous

definition credentials_username_password :: "string \<Rightarrow> string option \<Rightarrow> bmc_credentials" where
  "credentials_username_password username password = UsernamePassword username password"

definition credentials_new :: "string \<Rightarrow> string \<Rightarrow> bmc_credentials" where
  "credentials_new username password = credentials_username_password username (Some password)"

fun credentials_display :: "bmc_credentials \<Rightarrow> string" where
  "credentials_display (UsernamePassword username _) =
     ''BmcCredentials::UsernamePassword(username: '' @ username @ '', password: [REDACTED])''"
| "credentials_display (Token _) = ''BmcCredentials::Token(token: [REDACTED])''"
| "credentials_display Anonymous = ''BmcCredentials::Anonymous''"

section \<open>The endpoint\<close>

text \<open>What the code calls of \<open>url::Url\<close>; a failed \<open>join\<close> gives its message.\<close>

record ('url, 'origin) url_ops =
  uo_join :: "'url \<Rightarrow> string \<Rightarrow> string + 'url"
  uo_origin :: "'url \<Rightarrow> 'origin"
  uo_query :: "'url \<Rightarrow> string option"
  uo_set_path :: "'url \<Rightarrow> string \<Rightarrow> 'url"
  uo_set_query :: "'url \<Rightarrow> string option \<Rightarrow> 'url"
  uo_show :: "'url \<Rightarrow> string"

record 'url redfish_endpoint =
  ep_base_url :: 'url

definition with_path :: "('url, 'origin) url_ops \<Rightarrow> 'url redfish_endpoint \<Rightarrow> string \<Rightarrow> 'url" where
  "with_path uo self path = uo_set_path uo (ep_base_url self) path"

definition with_odata_id :: "('url, 'origin) url_ops \<Rightarrow> 'url redfish_endpoint \<Rightarrow> odata_id \<Rightarrow> 'url" where
  "with_odata_id uo self i =
     (let (path, query) = (case str_split_once (CHR ''?'') i of
            Some (path, query) \<Rightarrow> (path, Some query)
          | None \<Rightarrow> (i, None));
          url = with_path uo self path
      in uo_set_query uo url query)"

definition with_odata_id_and_query ::
  "('url, 'origin) url_ops \<Rightarrow> 'url redfish_endpoint \<Rightarrow> odata_id \<Rightarrow> string \<Rightarrow> 'url" where
  "with_odata_id_and_query uo self i query =
     (let url = with_odata_id uo self i in
      case uo_query uo url of
        Some existing \<Rightarrow>
          if existing \<noteq> [] then uo_set_query uo url (Some (existing @ ''&'' @ query))
          else uo_set_query uo url (Some query)
      | None \<Rightarrow> uo_set_query uo url (Some query))"

definition with_path_and_query ::
  "('url, 'origin) url_ops \<Rightarrow> 'url redfish_endpoint \<Rightarrow> string \<Rightarrow> string \<Rightarrow> 'url" where
  "with_path_and_query uo self path query = uo_set_query uo (with_path uo self path) (Some query)"

record rejected_uri_reference_error =
  re_reason :: string

definition with_same_origin_uri_reference ::
  "('url, 'origin) url_ops \<Rightarrow> 'url redfish_endpoint \<Rightarrow> string \<Rightarrow> rejected_uri_reference_error + 'url" where
  "with_same_origin_uri_reference uo self uri =
     (case uo_join uo (ep_base_url self) uri of
        Inl source \<Rightarrow>
          Inl \<lparr>re_reason = ''service URI reference `'' @ uri @ ''` could not be resolved against '' @
                 ''BMC endpoint `'' @ uo_show uo (ep_base_url self) @ ''`: '' @ source\<rparr>
      | Inr resolved \<Rightarrow>
          if uo_origin uo resolved \<noteq> uo_origin uo (ep_base_url self)
          then Inl \<lparr>re_reason = ''service URI reference `'' @ uri @ ''` resolved to `'' @ uo_show uo resolved @
                 ''`, which is not same-origin with BMC endpoint `'' @ uo_show uo (ep_base_url self) @ ''`''\<rparr>
          else Inr resolved)"

section \<open>The client and its requests\<close>

text \<open>
  What the code calls of the client's errors and of the entities it reads, and the requests it can
  make of it: one constructor for each method of the trait \<open>HttpClient\<close>, with the arguments it is given.
\<close>

record ('e, 'de, 'v) client_ops =
  co_is_cached :: "'e \<Rightarrow> bool"
  co_cache_miss :: 'e
  co_rejected_uri_reference :: "rejected_uri_reference_error \<Rightarrow> 'e"
  co_into_decode_error :: "'e \<Rightarrow> 'e + 'de"
  co_etag :: "'v \<Rightarrow> odata_etag option"

datatype ('url, 'b, 'r, 'h) request =
    ReqGet 'url bmc_credentials "odata_etag option" 'h "'r option"
  | ReqPoll 'url bmc_credentials 'h
  | ReqPost 'url 'b bmc_credentials 'h
  | ReqPostSession 'url 'b 'h
  | ReqMultipartUpdate 'url 'b bmc_credentials 'h
  | ReqHttpPushUriUpdate 'url 'b bmc_credentials 'h
  | ReqPatch 'url odata_etag 'b bmc_credentials 'h
  | ReqDelete 'url bmc_credentials 'h
  | ReqSse 'url bmc_credentials 'h
  | ReqSseEvents 'url bmc_credentials 'h "string option"

fun request_url :: "('url, 'b, 'r, 'h) request \<Rightarrow> 'url" where
  "request_url (ReqGet url _ _ _ _) = url"
| "request_url (ReqPoll url _ _) = url"
| "request_url (ReqPost url _ _ _) = url"
| "request_url (ReqPostSession url _ _) = url"
| "request_url (ReqMultipartUpdate url _ _ _) = url"
| "request_url (ReqHttpPushUriUpdate url _ _ _) = url"
| "request_url (ReqPatch url _ _ _ _) = url"
| "request_url (ReqDelete url _ _) = url"
| "request_url (ReqSse url _ _) = url"
| "request_url (ReqSseEvents url _ _ _) = url"

fun request_credentials :: "('url, 'b, 'r, 'h) request \<Rightarrow> bmc_credentials option" where
  "request_credentials (ReqGet _ c _ _ _) = Some c"
| "request_credentials (ReqPoll _ c _) = Some c"
| "request_credentials (ReqPost _ _ c _) = Some c"
| "request_credentials (ReqPostSession _ _ _) = None"
| "request_credentials (ReqMultipartUpdate _ _ c _) = Some c"
| "request_credentials (ReqHttpPushUriUpdate _ _ c _) = Some c"
| "request_credentials (ReqPatch _ _ _ c _) = Some c"
| "request_credentials (ReqDelete _ c _) = Some c"
| "request_credentials (ReqSse _ c _) = Some c"
| "request_credentials (ReqSseEvents _ c _ _) = Some c"

section \<open>The client of a BMC\<close>

record ('url, 'h, 'ty, 'v) http_bmc =
  hb_redfish_endpoint :: "'url redfish_endpoint"
  hb_credentials :: bmc_credentials
  hb_cache :: "('url, ('ty, 'v) any_box) car_cache"
  hb_custom_headers :: 'h
  hb_cache_enabled :: bool

record cache_settings =
  ca_capacity :: nat

definition cache_settings_default :: cache_settings where
  "cache_settings_default = \<lparr>ca_capacity = 100\<rparr>"

definition with_capacity :: "nat \<Rightarrow> cache_settings" where
  "with_capacity capacity = \<lparr>ca_capacity = capacity\<rparr>"

definition with_custom_headers ::
  "'url \<Rightarrow> bmc_credentials \<Rightarrow> cache_settings \<Rightarrow> 'h \<Rightarrow> ('url, 'h, 'ty, 'v) http_bmc" where
  "with_custom_headers redfish_endpoint credentials settings custom_headers =
     \<lparr>hb_redfish_endpoint = \<lparr>ep_base_url = redfish_endpoint\<rparr>, hb_credentials = credentials,
      hb_cache = car_with_hasher (ca_capacity settings), hb_custom_headers = custom_headers,
      hb_cache_enabled = (0 < ca_capacity settings)\<rparr>"

definition set_credentials ::
  "bmc_credentials \<Rightarrow> ('url, 'h, 'ty, 'v) http_bmc \<Rightarrow> ('url, 'h, 'ty, 'v) http_bmc" where
  "set_credentials credentials self = self\<lparr>hb_credentials := credentials\<rparr>"

text \<open>
  \<open>get_with_cache\<close>, up to the request and from its answer on. What the future holds across the \<open>await\<close> is
  the record \<open>pending_get\<close>.
\<close>

record ('url, 'ty, 'v) pending_get =
  pg_cache_key :: 'url
  pg_type :: 'ty
  pg_cached :: "'v option"
  pg_etag :: "odata_etag option"

definition get_with_cache_start ::
  "('e, 'de, 'v) client_ops \<Rightarrow> 'ty \<Rightarrow> 'url \<Rightarrow> 'r option \<Rightarrow> ('url, 'h, 'ty, 'v) http_bmc \<Rightarrow>
   ('url, 'b, 'r, 'h) request \<times> ('url, 'ty, 'v) pending_get \<times> ('url, 'h, 'ty, 'v) http_bmc" where
  "get_with_cache_start co ty endpoint_url repair self =
     (let (cached, self) =
            (if hb_cache_enabled self then
               let (r, cache) = car_get_typed (hb_cache self) ty endpoint_url in (r, self\<lparr>hb_cache := cache\<rparr>)
             else (None, self));
          etag = Option.bind cached (co_etag co)
      in (ReqGet endpoint_url (hb_credentials self) etag (hb_custom_headers self) repair,
          \<lparr>pg_cache_key = endpoint_url, pg_type = ty, pg_cached = cached, pg_etag = etag\<rparr>, self))"

definition get_with_cache_finish ::
  "('e, 'de, 'v) client_ops \<Rightarrow> ('url, 'ty, 'v) pending_get \<Rightarrow> 'e + 'v \<Rightarrow> ('url, 'h, 'ty, 'v) http_bmc \<Rightarrow>
   (('e + 'v) \<times> ('url, 'h, 'ty, 'v) http_bmc) outcome" where
  "get_with_cache_finish co pg answer self =
     (case answer of
        Inr response \<Rightarrow>
          if \<not> hb_cache_enabled self then Some (Inr response, self)
          else if co_etag co response \<noteq> None then do {
            (_, cache) \<leftarrow> car_put_typed (hb_cache self) (pg_type pg) (pg_cache_key pg) response;
            Some (Inr response, self\<lparr>hb_cache := cache\<rparr>)
          } else Some (Inr response, self)
      | Inl e \<Rightarrow>
          if co_is_cached co e
          then Some (case pg_cached pg of Some v \<Rightarrow> Inr v | None \<Rightarrow> Inl (co_cache_miss co), self)
          else Some (Inl e, self))"

text \<open>
  The reads of the trait \<open>Bmc\<close>: \<open>get\<close>, \<open>expand\<close> and \<open>filter\<close> with no repair, their repaired forms
  with one, whose failures \<open>from_transport\<close> (of \<open>co_into_decode_error\<close>) classifies.
\<close>

definition bmc_get where
  "bmc_get uo co ty i self =
     get_with_cache_start co ty (with_odata_id uo (hb_redfish_endpoint self) i) None self"

definition bmc_expand where
  "bmc_expand uo co ty i query self =
     get_with_cache_start co ty (with_odata_id_and_query uo (hb_redfish_endpoint self) i query) None self"

definition bmc_filter where
  "bmc_filter uo co ty i query self =
     get_with_cache_start co ty (with_odata_id_and_query uo (hb_redfish_endpoint self) i query) None self"

definition bmc_get_repaired where
  "bmc_get_repaired uo co ty i repair self =
     get_with_cache_start co ty (with_odata_id uo (hb_redfish_endpoint self) i) (Some repair) self"

definition bmc_expand_repaired where
  "bmc_expand_repaired uo co ty i query repair self =
     get_with_cache_start co ty (with_odata_id_and_query uo (hb_redfish_endpoint self) i query) (Some repair) self"

definition bmc_filter_repaired where
  "bmc_filter_repaired uo co ty i query repair self =
     get_with_cache_start co ty (with_odata_id_and_query uo (hb_redfish_endpoint self) i query) (Some repair) self"

definition bmc_create where
  "bmc_create uo i v self =
     ReqPost (with_odata_id uo (hb_redfish_endpoint self) i) v (hb_credentials self) (hb_custom_headers self)"

definition bmc_create_session where
  "bmc_create_session uo i v self =
     ReqPostSession (with_odata_id uo (hb_redfish_endpoint self) i) v (hb_custom_headers self)"

definition bmc_update where
  "bmc_update uo i etag v self =
     ReqPatch (with_odata_id uo (hb_redfish_endpoint self) i)
       (case etag of Some e \<Rightarrow> e | None \<Rightarrow> ''*'') v (hb_credentials self) (hb_custom_headers self)"

definition bmc_delete where
  "bmc_delete uo i self =
     ReqDelete (with_odata_id uo (hb_redfish_endpoint self) i) (hb_credentials self) (hb_custom_headers self)"

text \<open>The operations on a reference the service provides, which is resolved or rejected first.\<close>

definition at_reference ::
  "('url, 'origin) url_ops \<Rightarrow> ('e, 'de, 'v) client_ops \<Rightarrow> string \<Rightarrow> ('url, 'h, 'ty, 'v) http_bmc \<Rightarrow>
   ('url \<Rightarrow> ('url, 'b, 'r, 'h) request) \<Rightarrow> 'e + ('url, 'b, 'r, 'h) request" where
  "at_reference uo co uri self send =
     (case with_same_origin_uri_reference uo (hb_redfish_endpoint self) uri of
        Inl e \<Rightarrow> Inl (co_rejected_uri_reference co e)
      | Inr endpoint_url \<Rightarrow> Inr (send endpoint_url))"

definition bmc_action where
  "bmc_action uo co target params self =
     at_reference uo co target self (\<lambda>url. ReqPost url params (hb_credentials self) (hb_custom_headers self))"

definition bmc_multipart_update where
  "bmc_multipart_update uo co uri update self =
     at_reference uo co uri self (\<lambda>url. ReqMultipartUpdate url update (hb_credentials self) (hb_custom_headers self))"

definition bmc_http_push_uri_update where
  "bmc_http_push_uri_update uo co uri update self =
     at_reference uo co uri self (\<lambda>url. ReqHttpPushUriUpdate url update (hb_credentials self) (hb_custom_headers self))"

definition bmc_stream where
  "bmc_stream uo co uri self =
     at_reference uo co uri self (\<lambda>url. ReqSse url (hb_credentials self) (hb_custom_headers self))"

definition bmc_stream_events where
  "bmc_stream_events uo co uri last_event_id self =
     at_reference uo co uri self (\<lambda>url. ReqSseEvents url (hb_credentials self) (hb_custom_headers self) last_event_id)"

definition bmc_poll where
  "bmc_poll uo co uri self =
     at_reference uo co uri self (\<lambda>url. ReqPoll url (hb_credentials self) (hb_custom_headers self))"

lemma credentials_redacted:
  "credentials_display (UsernamePassword u p) = credentials_display (UsernamePassword u p')"
  "credentials_display (Token t) = credentials_display (Token t')"
  by simp_all

section \<open>Executions\<close>

datatype 'r read_op =
    RGet odata_id | RExpand odata_id string | RFilter odata_id string
  | RGetRepaired odata_id 'r | RExpandRepaired odata_id string 'r | RFilterRepaired odata_id string 'r

fun run_read where
  "run_read uo co ty (RGet i) self = bmc_get uo co ty i self"
| "run_read uo co ty (RExpand i q) self = bmc_expand uo co ty i q self"
| "run_read uo co ty (RFilter i q) self = bmc_filter uo co ty i q self"
| "run_read uo co ty (RGetRepaired i r) self = bmc_get_repaired uo co ty i r self"
| "run_read uo co ty (RExpandRepaired i q r) self = bmc_expand_repaired uo co ty i q r self"
| "run_read uo co ty (RFilterRepaired i q r) self = bmc_filter_repaired uo co ty i q r self"

datatype 'b write_op =
    WCreate odata_id 'b | WCreateSession odata_id 'b | WUpdate odata_id "odata_etag option" 'b | WDelete odata_id
  | WAction string 'b | WMultipartUpdate string 'b | WHttpPushUriUpdate string 'b
  | WStream string | WStreamEvents string "string option" | WPoll string

fun run_write where
  "run_write uo co (WCreate i v) self = Inr (bmc_create uo i v self)"
| "run_write uo co (WCreateSession i v) self = Inr (bmc_create_session uo i v self)"
| "run_write uo co (WUpdate i etag v) self = Inr (bmc_update uo i etag v self)"
| "run_write uo co (WDelete i) self = Inr (bmc_delete uo i self)"
| "run_write uo co (WAction target v) self = bmc_action uo co target v self"
| "run_write uo co (WMultipartUpdate uri v) self = bmc_multipart_update uo co uri v self"
| "run_write uo co (WHttpPushUriUpdate uri v) self = bmc_http_push_uri_update uo co uri v self"
| "run_write uo co (WStream uri) self = bmc_stream uo co uri self"
| "run_write uo co (WStreamEvents uri last_id) self = bmc_stream_events uo co uri last_id self"
| "run_write uo co (WPoll uri) self = bmc_poll uo co uri self"

text \<open>
  The client with its reads in flight, in any order; \<open>bw_sent\<close> are the requests it made and
  \<open>bw_received\<close> the entities that answered reads, with the URL and the type of the read.
\<close>

record ('url, 'b, 'r, 'h, 'ty, 'v) bmc_world =
  bw_bmc :: "('url, 'h, 'ty, 'v) http_bmc"
  bw_pending :: "('url, 'ty, 'v) pending_get list"
  bw_sent :: "('url, 'b, 'r, 'h) request list"
  bw_received :: "('url \<times> 'ty \<times> 'v) list"

inductive bmc_exec ::
  "('url, 'origin) url_ops \<Rightarrow> ('e, 'de, 'v) client_ops \<Rightarrow> 'url \<Rightarrow> cache_settings \<Rightarrow>
   ('url, 'b, 'r, 'h, 'ty, 'v) bmc_world \<Rightarrow> bool"
  for uo :: "('url, 'origin) url_ops" and co :: "('e, 'de, 'v) client_ops" and url settings where
  bmc_new:
    "bmc_exec uo co url settings
       \<lparr>bw_bmc = with_custom_headers url credentials settings headers, bw_pending = [], bw_sent = [], bw_received = []\<rparr>"
| bmc_read:
    "bmc_exec uo co url settings w \<Longrightarrow> run_read uo co ty oper (bw_bmc w) = (req, pg, bmc) \<Longrightarrow>
     bmc_exec uo co url settings
       (w\<lparr>bw_bmc := bmc, bw_pending := pg # bw_pending w, bw_sent := req # bw_sent w\<rparr>)"
| bmc_answer:
    "bmc_exec uo co url settings w \<Longrightarrow> bw_pending w = xs @ pg # ys \<Longrightarrow>
     get_with_cache_finish co pg answer (bw_bmc w) = Some (result, bmc) \<Longrightarrow>
     bmc_exec uo co url settings
       (w\<lparr>bw_bmc := bmc, bw_pending := xs @ ys,
          bw_received := (case answer of Inr v \<Rightarrow> [(pg_cache_key pg, pg_type pg, v)] | Inl _ \<Rightarrow> []) @ bw_received w\<rparr>)"
| bmc_write:
    "bmc_exec uo co url settings w \<Longrightarrow> run_write uo co woper (bw_bmc w) = Inr req \<Longrightarrow>
     bmc_exec uo co url settings (w\<lparr>bw_sent := req # bw_sent w\<rparr>)"
| bmc_login:
    "bmc_exec uo co url settings w \<Longrightarrow>
     bmc_exec uo co url settings (w\<lparr>bw_bmc := set_credentials credentials (bw_bmc w)\<rparr>)"

text \<open>Every read is the one operation at some URL that keeps the endpoint's origin.\<close>

lemma run_read_cases:
  assumes "run_read uo co ty oper self = (req, pg, self')"
  obtains endpoint_url repair where "get_with_cache_start co ty endpoint_url repair self = (req, pg, self')"
    "(\<exists>i. endpoint_url = with_odata_id uo (hb_redfish_endpoint self) i) \<or>
     (\<exists>i q. endpoint_url = with_odata_id_and_query uo (hb_redfish_endpoint self) i q)"
proof -
  note defs = bmc_get_def bmc_expand_def bmc_filter_def bmc_get_repaired_def bmc_expand_repaired_def
    bmc_filter_repaired_def
  have "\<exists>url repair. get_with_cache_start co ty url repair self = (req, pg, self') \<and>
      ((\<exists>i. url = with_odata_id uo (hb_redfish_endpoint self) i) \<or>
       (\<exists>i q. url = with_odata_id_and_query uo (hb_redfish_endpoint self) i q))"
    using assms by (cases oper) (auto simp: defs)
  then show thesis using that by blast
qed

subsection \<open>Frames\<close>

lemma get_start_frame:
  assumes "get_with_cache_start co ty url repair self = (req, pg, self')"
  shows "hb_redfish_endpoint self' = hb_redfish_endpoint self" "hb_cache_enabled self' = hb_cache_enabled self"
    "request_url req = url" "pg_cache_key pg = url" "pg_type pg = ty"
    "pg_etag pg = Option.bind (pg_cached pg) (co_etag co)"
  using assms by (auto simp: get_with_cache_start_def Let_def case_prod_unfold split: if_splits)

lemma get_finish_frame:
  assumes "get_with_cache_finish co pg answer self = Some (result, self')"
  shows "hb_redfish_endpoint self' = hb_redfish_endpoint self" "hb_cache_enabled self' = hb_cache_enabled self"
  using assms
  by (auto simp: get_with_cache_finish_def split: sum.splits if_splits Option.bind_splits)

subsection \<open>The origin\<close>

lemma endpoint_origin:
  assumes "\<And>u p. uo_origin uo (uo_set_path uo u p) = uo_origin uo u"
    and "\<And>u q. uo_origin uo (uo_set_query uo u q) = uo_origin uo u"
  shows "uo_origin uo (with_odata_id uo ep i) = uo_origin uo (ep_base_url ep)"
    "uo_origin uo (with_odata_id_and_query uo ep i q) = uo_origin uo (ep_base_url ep)"
  using assms by (simp_all add: with_odata_id_def with_odata_id_and_query_def with_path_def Let_def
      split: option.split prod.split)

lemma at_reference_origin:
  "at_reference uo co uri self send = Inr req \<Longrightarrow>
   \<exists>u. req = send u \<and> uo_origin uo u = uo_origin uo (ep_base_url (hb_redfish_endpoint self))"
  by (auto simp: at_reference_def with_same_origin_uri_reference_def split: sum.splits if_splits)

lemma run_write_origin:
  assumes "\<And>u p. uo_origin uo (uo_set_path uo u p) = uo_origin uo u"
    and "\<And>u q. uo_origin uo (uo_set_query uo u q) = uo_origin uo u"
    and "run_write uo co woper self = Inr req"
  shows "uo_origin uo (request_url req) = uo_origin uo (ep_base_url (hb_redfish_endpoint self))"
  using assms(3) endpoint_origin [where uo = uo, OF assms(1,2)]
  by (cases woper)
    (auto simp: bmc_create_def bmc_create_session_def bmc_update_def bmc_delete_def bmc_action_def
      bmc_multipart_update_def bmc_http_push_uri_update_def bmc_stream_def bmc_stream_events_def bmc_poll_def
      dest!: at_reference_origin)

lemma run_read_origin:
  assumes "\<And>u p. uo_origin uo (uo_set_path uo u p) = uo_origin uo u"
    and "\<And>u q. uo_origin uo (uo_set_query uo u q) = uo_origin uo u"
    and run: "run_read uo co ty oper self = (req, pg, self')"
  shows "uo_origin uo (request_url req) = uo_origin uo (ep_base_url (hb_redfish_endpoint self))"
    and "hb_redfish_endpoint self' = hb_redfish_endpoint self"
proof -
  obtain u r where u: "get_with_cache_start co ty u r self = (req, pg, self')"
      "(\<exists>i. u = with_odata_id uo (hb_redfish_endpoint self) i) \<or>
       (\<exists>i q. u = with_odata_id_and_query uo (hb_redfish_endpoint self) i q)" 
    using run by (rule run_read_cases)
  have "uo_origin uo u = uo_origin uo (ep_base_url (hb_redfish_endpoint self))"
    using u(2) endpoint_origin [where uo = uo, OF assms(1,2)] by auto
  with get_start_frame [OF u(1)]
  show "uo_origin uo (request_url req) = uo_origin uo (ep_base_url (hb_redfish_endpoint self))"
    "hb_redfish_endpoint self' = hb_redfish_endpoint self" by simp_all
qed

text \<open>
  C7. Credentials and custom headers go to the BMC only: in every run, whatever identifiers and references
  the service provided, each request the client sends has a URL of the configured endpoint's origin,
  given that setting the path or the query of a URL leaves its origin.
\<close>

theorem bmc_requests_same_origin:
  assumes "\<And>u p. uo_origin uo (uo_set_path uo u p) = uo_origin uo u"
    and "\<And>u q. uo_origin uo (uo_set_query uo u q) = uo_origin uo u"
    and "bmc_exec uo co url settings w" and "req \<in> set (bw_sent w)"
  shows "uo_origin uo (request_url req) = uo_origin uo url"
proof -
  from assms(3) have "ep_base_url (hb_redfish_endpoint (bw_bmc w)) = url \<and>
      (\<forall>req \<in> set (bw_sent w). uo_origin uo (request_url req) = uo_origin uo url)"
  proof induction
    case (bmc_read w ty oper req pg bmc)
    with run_read_origin [where uo = uo, OF assms(1,2) bmc_read.hyps(2)] show ?case by simp
  next
    case (bmc_answer w xs pg ys answer result bmc)
    then show ?case using get_finish_frame(1) by fastforce
  next
    case (bmc_write w woper req)
    with run_write_origin [where uo = uo, OF assms(1,2) bmc_write.hyps(2)] show ?case by simp
  qed (simp_all add: with_custom_headers_def set_credentials_def)
  with assms(4) show ?thesis by blast
qed

subsection \<open>The cache\<close>

text \<open>
  What the cache holds and the reads in flight have kept was received for the same URL and type, and has a tag.
\<close>

definition genuine :: "('e, 'de, 'v) client_ops \<Rightarrow> ('url \<times> 'ty \<times> 'v) list \<Rightarrow> 'url \<Rightarrow> ('ty, 'v) any_box \<Rightarrow> bool" where
  "genuine co received url b \<longleftrightarrow> (url, fst b, snd b) \<in> set received \<and> co_etag co (snd b) \<noteq> None"

definition bmc_invar :: "('e, 'de, 'v) client_ops \<Rightarrow> ('url, 'b, 'r, 'h, 'ty, 'v) bmc_world \<Rightarrow> bool" where
  "bmc_invar co w \<longleftrightarrow>
     car_usable (hb_cache (bw_bmc w)) \<and>
     (\<forall>url b. car_holds (hb_cache (bw_bmc w)) url = Some b \<longrightarrow> genuine co (bw_received w) url b) \<and>
     (\<forall>pg \<in> set (bw_pending w). pg_etag pg = Option.bind (pg_cached pg) (co_etag co) \<and>
        (\<forall>v. pg_cached pg = Some v \<longrightarrow> genuine co (bw_received w) (pg_cache_key pg) (pg_type pg, v)))"

lemma genuine_mono: "genuine co received url b \<Longrightarrow> set received \<subseteq> set received' \<Longrightarrow> genuine co received' url b"
  by (auto simp: genuine_def)

lemma car_get_typed_all:
  assumes "car_usable c" and "\<forall>j w. car_holds c j = Some w \<longrightarrow> P j w" and "car_get_typed c ty url = (r, c')"
  shows "car_usable c'" "\<forall>j w. car_holds c' j = Some w \<longrightarrow> P j w" "r = Some v \<Longrightarrow> P url (ty, v)"
proof -
  have c': "c' = snd (car_get c url)"
    and r: "r = (case fst (car_get c url) of None \<Rightarrow> None | Some b \<Rightarrow> downcast_ref ty b)"
    using assms(3) by (auto simp: car_get_typed_def Let_def case_prod_unfold)
  note all = car.get_all [OF assms(1,2), of url]
  show "car_usable c'" "\<forall>j w. car_holds c' j = Some w \<longrightarrow> P j w" unfolding c' by (rule all(3), rule all(1))
  show "P url (ty, v)" if some: "r = Some v"
  proof -
    have "fst (car_get c url) = Some (ty, v)"
      using some r by (auto simp: downcast_ref_def split: option.splits if_splits)
    then show ?thesis by (rule all(2))
  qed
qed

lemma get_start_invar:
  assumes inv: "bmc_invar co w" and start: "get_with_cache_start co ty url repair (bw_bmc w) = (req, pg, bmc)"
  shows "bmc_invar co (w\<lparr>bw_bmc := bmc, bw_pending := pg # bw_pending w, bw_sent := reqs\<rparr>)"
proof -
  let ?c = "hb_cache (bw_bmc w)"
  have c: "car_usable ?c" "\<forall>j b. car_holds ?c j = Some b \<longrightarrow> genuine co (bw_received w) j b"
    using inv by (simp_all add: bmc_invar_def)
  have "car_usable (hb_cache bmc) \<and> (\<forall>j b. car_holds (hb_cache bmc) j = Some b \<longrightarrow> genuine co (bw_received w) j b) \<and>
      (\<forall>v. pg_cached pg = Some v \<longrightarrow> genuine co (bw_received w) url (ty, v))"
  proof (cases "hb_cache_enabled (bw_bmc w)")
    case True
    obtain r c' where g: "car_get_typed ?c ty url = (r, c')" by fastforce
    have "hb_cache bmc = c'" "pg_cached pg = r"
      using start True g by (auto simp: get_with_cache_start_def Let_def)
    with car_get_typed_all [OF c g] show ?thesis by simp
  next
    case False
    then show ?thesis using start c by (auto simp: get_with_cache_start_def)
  qed
  with inv get_start_frame [OF start] show ?thesis by (simp add: bmc_invar_def)
qed

lemma get_finish_total:
  assumes inv: "bmc_invar co w"
  obtains result bmc where "get_with_cache_finish co pg answer (bw_bmc w) = Some (result, bmc)"
    "result = (case answer of
        Inr v \<Rightarrow> Inr v
      | Inl e \<Rightarrow> if co_is_cached co e then case pg_cached pg of Some v \<Rightarrow> Inr v | None \<Rightarrow> Inl (co_cache_miss co)
                else Inl e)"
    "car_usable (hb_cache bmc)"
    "\<forall>url b. car_holds (hb_cache bmc) url = Some b \<longrightarrow>
       genuine co ((case answer of Inr v \<Rightarrow> [(pg_cache_key pg, pg_type pg, v)] | Inl _ \<Rightarrow> []) @ bw_received w) url b"
proof -
  let ?c = "hb_cache (bw_bmc w)"
  let ?rcv = "(case answer of Inr v \<Rightarrow> [(pg_cache_key pg, pg_type pg, v)] | Inl _ \<Rightarrow> []) @ bw_received w"
  have c: "car_usable ?c" "\<forall>j b. car_holds ?c j = Some b \<longrightarrow> genuine co ?rcv j b"
    using inv genuine_mono [of co "bw_received w"] by (auto simp: bmc_invar_def)
  consider (put) v where "answer = Inr v" "hb_cache_enabled (bw_bmc w)" "co_etag co v \<noteq> None"
    | (keep) "\<And>v. answer = Inr v \<Longrightarrow> \<not> hb_cache_enabled (bw_bmc w) \<or> co_etag co v = None" by blast
  then show thesis
  proof cases
    case (put v)
    have "genuine co ?rcv (pg_cache_key pg) (pg_type pg, v)" using put by (simp add: genuine_def)
    then obtain ev c' where p: "car_put ?c (pg_cache_key pg) (pg_type pg, v) = Some (ev, c')" "car_usable c'"
        "\<forall>j b. car_holds c' j = Some b \<longrightarrow> genuine co ?rcv j b"
      by (rule car.put_all [OF c])
    show thesis
      by (rule that [of "Inr v" "(bw_bmc w)\<lparr>hb_cache := c'\<rparr>"])
        (use put p in \<open>simp_all add: get_with_cache_finish_def car_put_typed_def\<close>)
  next
    case keep
    show thesis
      by (rule that [of _ "bw_bmc w"])
        (use keep c in \<open>auto simp: get_with_cache_finish_def split: sum.split\<close>)
  qed
qed

lemma bmc_exec_invar:
  assumes "2 * ca_capacity settings \<le> u64_max" and "bmc_exec uo co url settings w"
  shows "bmc_invar co w"
  using assms(2)
proof induction
  case (bmc_new credentials headers)
  show ?case using car_usable_new [OF assms(1)]
    by (simp add: bmc_invar_def with_custom_headers_def car_holds_new)
next
  case (bmc_read w ty oper req pg bmc)
  obtain u r where "get_with_cache_start co ty u r (bw_bmc w) = (req, pg, bmc)"
    using bmc_read.hyps(2) by (rule run_read_cases)
  with bmc_read.IH show ?case by (rule get_start_invar)
next
  case (bmc_answer w xs pg ys answer result bmc)
  let ?rcv = "(case answer of Inr v \<Rightarrow> [(pg_cache_key pg, pg_type pg, v)] | Inl _ \<Rightarrow> []) @ bw_received w"
  obtain result' bmc' where "get_with_cache_finish co pg answer (bw_bmc w) = Some (result', bmc')"
      "car_usable (hb_cache bmc')" "\<forall>url b. car_holds (hb_cache bmc') url = Some b \<longrightarrow> genuine co ?rcv url b"
    by (rule get_finish_total [OF bmc_answer.IH])
  then have "car_usable (hb_cache bmc)" "\<forall>url b. car_holds (hb_cache bmc) url = Some b \<longrightarrow> genuine co ?rcv url b"
    using bmc_answer.hyps(3) by simp_all
  moreover have "\<forall>p \<in> set (xs @ ys). pg_etag p = Option.bind (pg_cached p) (co_etag co) \<and>
      (\<forall>v. pg_cached p = Some v \<longrightarrow> genuine co ?rcv (pg_cache_key p) (pg_type p, v))"
    using bmc_answer.IH bmc_answer.hyps(2) genuine_mono [of co "bw_received w"] by (fastforce simp: bmc_invar_def)
  ultimately show ?case by (simp add: bmc_invar_def)
qed (simp_all add: bmc_invar_def set_credentials_def)

text \<open>
  C6. Reads through the cache are sound in every interleaving, whatever it evicted meanwhile: an answer to a read
  in flight always gives a result; an entity in it is the answer's, or, for a \<open>304\<close>, one the service sent
  before for the same URL and type, with the tag this request sent. A request that sent a tag always
  has that entity, so its \<open>304\<close> is never a cache miss; a request without one has nothing cached.
\<close>

theorem bmc_conditional_reads_sound:
  assumes "2 * ca_capacity settings \<le> u64_max" and "bmc_exec uo co url settings w" and "pg \<in> set (bw_pending w)"
  shows "\<exists>result bmc. get_with_cache_finish co pg answer (bw_bmc w) = Some (result, bmc) \<and>
    (\<forall>v. result = Inr v \<longrightarrow> answer = Inr v \<or>
       (pg_cache_key pg, pg_type pg, v) \<in> set (bw_received w) \<and> co_etag co v = pg_etag pg \<and> pg_etag pg \<noteq> None) \<and>
    (\<forall>e. answer = Inl e \<and> co_is_cached co e \<longrightarrow> (pg_etag pg \<noteq> None \<longleftrightarrow> (\<exists>v. result = Inr v)))"
proof -
  have inv: "bmc_invar co w" using assms(1,2) by (rule bmc_exec_invar)
  have pg: "pg_etag pg = Option.bind (pg_cached pg) (co_etag co)"
    "\<And>v. pg_cached pg = Some v \<Longrightarrow> genuine co (bw_received w) (pg_cache_key pg) (pg_type pg, v)"
    using inv assms(3) by (auto simp: bmc_invar_def)
  obtain result bmc where f: "get_with_cache_finish co pg answer (bw_bmc w) = Some (result, bmc)"
    "result = (case answer of
        Inr v \<Rightarrow> Inr v
      | Inl e \<Rightarrow> if co_is_cached co e then case pg_cached pg of Some v \<Rightarrow> Inr v | None \<Rightarrow> Inl (co_cache_miss co)
                else Inl e)" by (rule get_finish_total [OF inv])
  show ?thesis
  proof (cases "pg_cached pg")
    case None
    with f pg(1) show ?thesis by (auto split: sum.splits)
  next
    case (Some v)
    with pg(2) [OF Some] f pg(1) show ?thesis by (auto simp: genuine_def split: sum.splits)
  qed
qed

text \<open>
  C33. An identifier from a response leads back to the URL it came from: the path and the query that decoding took
  from a URL become the path and the query of the request, given that a URL's path has no question mark.
\<close>

theorem bmc_identifier_roundtrip:
  assumes "CHR ''?'' \<notin> set (env_path env u)"
  shows "with_odata_id uo ep (odata_path_from_url env u) =
    uo_set_query uo (uo_set_path uo (ep_base_url ep) (env_path env u)) (env_query env u)"
proof (cases "env_query env u")
  case None
  with assms have "str_split_once (CHR ''?'') (odata_path_from_url env u) = None"
    by (simp add: odata_path_from_url_def str_split_once_None)
  with None show ?thesis by (simp add: with_odata_id_def with_path_def odata_path_from_url_def)
next
  case (Some q)
  with assms have "str_split_once (CHR ''?'') (odata_path_from_url env u) = Some (env_path env u, q)"
    by (simp add: odata_path_from_url_def str_split_once_Some)
  with Some show ?thesis by (simp add: with_odata_id_def with_path_def)
qed

section \<open>Witnesses\<close>

text \<open>URLs as origin, path and query; entities that are their own tag.\<close>

type_synonym demo_url = "string \<times> string \<times> string option"

definition demo_urls :: "(demo_url, string) url_ops" where
  "demo_urls =
     \<lparr>uo_join = (\<lambda>u s. if str_starts_with (CHR ''/'') s then Inr (fst u, s, None) else Inr (s, ''/'', None)),
      uo_origin = fst, uo_query = (\<lambda>u. snd (snd u)), uo_set_path = (\<lambda>u p. (fst u, p, snd (snd u))),
      uo_set_query = (\<lambda>u q. (fst u, fst (snd u), q)), uo_show = (\<lambda>u. fst u @ fst (snd u))\<rparr>"

definition demo_client :: "(bool, unit, string) client_ops" where
  "demo_client =
     \<lparr>co_is_cached = (\<lambda>e. e), co_cache_miss = False, co_rejected_uri_reference = (\<lambda>_. False),
      co_into_decode_error = Inl, co_etag = Some\<rparr>"

lemma demo_urls_simps [simp]:
  "uo_join demo_urls = (\<lambda>u s. if str_starts_with (CHR ''/'') s then Inr (fst u, s, None) else Inr (s, ''/'', None))"
  "uo_origin demo_urls = fst" "uo_query demo_urls = (\<lambda>u. snd (snd u))"
  "uo_set_path demo_urls = (\<lambda>u p. (fst u, p, snd (snd u)))"
  "uo_set_query demo_urls = (\<lambda>u q. (fst u, fst (snd u), q))"
  "co_is_cached demo_client = (\<lambda>e. e)" "co_cache_miss demo_client = False" "co_etag demo_client = Some"
  by (simp_all add: demo_urls_def demo_client_def)

type_synonym demo_world = "(demo_url, unit, unit, unit, unit, string) bmc_world"

text \<open>A read of \<open>/s\<close>, answered, and another one in flight.\<close>

lemma demo_run:
  "\<exists>w :: demo_world. bmc_exec demo_urls demo_client (''bmc'', ''/'', None) (with_capacity 2) w \<and>
     bw_sent w \<noteq> [] \<and> (\<exists>pg. pg \<in> set (bw_pending w) \<and> pg_etag pg = Some ''v1'')"
proof -
  let ?x = "bmc_exec demo_urls demo_client (''bmc'', ''/'', None) (with_capacity 2) :: demo_world \<Rightarrow> bool"
  let ?url = "(''bmc'', ''/s'', None) :: demo_url"
  let ?b0 = "with_custom_headers (''bmc'', ''/'', None) Anonymous (with_capacity 2) ()"
  let ?w0 = "\<lparr>bw_bmc = ?b0, bw_pending = [], bw_sent = [], bw_received = []\<rparr> :: demo_world"
  have url: "with_odata_id demo_urls \<lparr>ep_base_url = (''bmc'', ''/'', None)\<rparr> ''/s'' = ?url"
    by (simp add: with_odata_id_def with_path_def str_split_once_def)
  have w0: "?x ?w0" by (rule bmc_new)
  obtain req0 :: "(demo_url, unit, unit, unit) request" and pg0 b1 where
      r0: "run_read demo_urls demo_client () (RGet ''/s'') ?b0 = (req0, pg0, b1)"
    by (metis prod_cases3)
  then have s0: "get_with_cache_start demo_client () ?url None ?b0 = (req0, pg0, b1)"
    by (simp add: bmc_get_def with_custom_headers_def url)
  let ?w1 = "?w0\<lparr>bw_bmc := b1, bw_pending := [pg0], bw_sent := [req0]\<rparr>"
  have w1: "?x ?w1" using bmc_read [OF w0, of "()" "RGet ''/s''" req0 pg0 b1] r0 by simp
  have b1: "b1 = ?b0" "pg_cache_key pg0 = ?url" "pg_type pg0 = ()"
    using s0 by (auto simp: get_with_cache_start_def with_custom_headers_def with_capacity_def car_get_typed_def
        car_get_def car_with_hasher_def)
  have run: "car_run (car_with_hasher 2 :: (demo_url, (unit, string) any_box) car_cache) [] = Some ([], car_with_hasher 2)"
    by simp
  obtain ev c' where p: "car_put_typed (car_with_hasher 2) () ?url ''v1'' = Some (ev, c')"
      "fst (car_get_typed c' () ?url) = Some ''v1''"
    using car_put_effect [OF _ _ run, of ?url "((), ''v1'')"]
    by (auto simp: u64_max_def car_put_typed_def car_get_typed_def downcast_ref_def Let_def case_prod_unfold)
  let ?b2 = "?b0\<lparr>hb_cache := c'\<rparr>"
  have f: "get_with_cache_finish demo_client pg0 (Inr ''v1'') ?b0 = Some (Inr ''v1'', ?b2)"
    using p b1 by (simp add: get_with_cache_finish_def with_custom_headers_def with_capacity_def)
  let ?w2 = "?w1\<lparr>bw_bmc := ?b2, bw_pending := [], bw_received := [(?url, (), ''v1'')]\<rparr>"
  have w2: "?x ?w2" using bmc_answer [OF w1, of "[]" pg0 "[]" "Inr ''v1''"] f b1 by simp
  obtain req :: "(demo_url, unit, unit, unit) request" and pg b3 where
      r2: "run_read demo_urls demo_client () (RGet ''/s'') ?b2 = (req, pg, b3)"
    by (metis prod_cases3)
  then have "get_with_cache_start demo_client () ?url None ?b2 = (req, pg, b3)"
    by (simp add: bmc_get_def with_custom_headers_def url)
  moreover have "hb_cache_enabled ?b2" by (simp add: with_custom_headers_def with_capacity_def)
  ultimately have tag: "pg_etag pg = Some ''v1''"
    using p(2) by (auto simp: get_with_cache_start_def Let_def case_prod_unfold)
  have "?x (?w2\<lparr>bw_bmc := b3, bw_pending := [pg], bw_sent := [req, req0]\<rparr>)"
    using bmc_read [OF w2, of "()" "RGet ''/s''" req pg b3] r2 by simp
  with tag show ?thesis by (intro exI conjI) (assumption, simp_all)
qed

theorem bmc_requests_same_origin_witness:
  "\<exists>(w :: demo_world) req. req \<in> set (bw_sent w) \<and> uo_origin demo_urls (request_url req) = ''bmc''"
proof -
  obtain w :: demo_world and req where
      "bmc_exec demo_urls demo_client (''bmc'', ''/'', None) (with_capacity 2) w" "req \<in> set (bw_sent w)"
    using demo_run by (metis list.set_intros(1) neq_Nil_conv)
  then show ?thesis
    using bmc_requests_same_origin [of demo_urls demo_client "(''bmc'', ''/'', None)" "with_capacity 2" w req] by auto
qed

theorem bmc_conditional_reads_sound_witness:
  "\<exists>(w :: demo_world) pg result bmc.
     get_with_cache_finish demo_client pg (Inl True) (bw_bmc w) = Some (result, bmc) \<and> (\<exists>v. result = Inr v)"
proof -
  obtain w :: demo_world and pg where
      w: "bmc_exec demo_urls demo_client (''bmc'', ''/'', None) (with_capacity 2) w" "pg \<in> set (bw_pending w)"
      "pg_etag pg = Some ''v1''"
    using demo_run by blast
  have cap: "2 * ca_capacity (with_capacity 2) \<le> u64_max" by (simp add: with_capacity_def u64_max_def)
  from bmc_conditional_reads_sound [OF cap w(1,2), of "Inl True"] w(3) show ?thesis by auto
qed

theorem bmc_identifier_roundtrip_witness:
  "with_odata_id demo_urls \<lparr>ep_base_url = (''bmc'', ''/'', None)\<rparr> (odata_path_from_url demo_env (''bmc'', ''/t'')) =
     (''bmc'', ''/t'', None)"
  using bmc_identifier_roundtrip [of demo_env "(''bmc'', ''/t'')" demo_urls "\<lparr>ep_base_url = (''bmc'', ''/'', None)\<rparr>"]
  by simp

end
