(* ===== verification/Json_Edit.thy ===== *)
theory Json_Edit
  imports Text
begin

text \<open>
  What the repairs of the quirks crate use of \<open>serde_json::Map\<close>, of \<open>Value::pointer\<close> and of Rust's \<open>str\<close>:
  edits of an object by key, reads and writes through a JSON pointer, searches for a text and slices at
  character boundaries. No code reads the order of an object's entries, so an insertion of a new key puts
  it last. The lemmas read every edit through \<open>map_of\<close>.
\<close>

section \<open>Objects\<close>

named_theorems obj_simps \<open>edits of an object, read by key\<close>

type_synonym json_map = "(string \<times> json) list"

fun json_as_object :: "json \<Rightarrow> json_map option" where
  "json_as_object (JObject m) = Some m"
| "json_as_object _ = None"

definition obj_contains_key :: "json_map \<Rightarrow> string \<Rightarrow> bool" where
  "obj_contains_key m k \<longleftrightarrow> map_of m k \<noteq> None"

definition obj_insert :: "string \<Rightarrow> json \<Rightarrow> json_map \<Rightarrow> json_map" where
  "obj_insert k v m = AList.update k v m"

definition obj_remove :: "string \<Rightarrow> json_map \<Rightarrow> json_map" where
  "obj_remove k m = AList.delete k m"

definition obj_retain :: "(string \<Rightarrow> bool) \<Rightarrow> json_map \<Rightarrow> json_map" where
  "obj_retain p m = filter (p \<circ> fst) m"

text \<open>\<open>map.entry(k).or_insert(v)\<close>.\<close>

definition obj_or_insert :: "string \<Rightarrow> json \<Rightarrow> json_map \<Rightarrow> json_map" where
  "obj_or_insert k v m = (if obj_contains_key m k then m else obj_insert k v m)"

text \<open>A change in place through \<open>map.get_mut(k)\<close>, and of each value through \<open>map.values_mut()\<close>.\<close>

definition obj_modify :: "string \<Rightarrow> (json \<Rightarrow> json) \<Rightarrow> json_map \<Rightarrow> json_map" where
  "obj_modify k f m = AList.map_entry k f m"

definition obj_map_values :: "(json \<Rightarrow> json) \<Rightarrow> json_map \<Rightarrow> json_map" where
  "obj_map_values f m = map (\<lambda>kv. (fst kv, f (snd kv))) m"

fun on_object :: "(json_map \<Rightarrow> json_map) \<Rightarrow> json \<Rightarrow> json" where
  "on_object f (JObject m) = JObject (f m)"
| "on_object f v = v"

text \<open>The keys of an object are distinct, at every depth.\<close>

lemma size_obj_value [termination_simp]:
  fixes m :: json_map
  shows "kv \<in> set m \<Longrightarrow> size (snd kv) < Suc (size_list (size_prod (\<lambda>_. 0) size) m)"
  by (induction m) auto

fun json_wf :: "json \<Rightarrow> bool" where
  "json_wf (JObject m) \<longleftrightarrow> distinct (map fst m) \<and> (\<forall>kv \<in> set m. json_wf (snd kv))"
| "json_wf (JArray xs) \<longleftrightarrow> (\<forall>v \<in> set xs. json_wf v)"
| "json_wf v \<longleftrightarrow> True"

section \<open>JSON pointers\<close>

text \<open>
  A pointer is empty or starts with a slash; its tokens, with \<open>~1\<close> for a slash and \<open>~0\<close> for a tilde, are
  keys of objects or indices of arrays.
\<close>

fun str_replace2 :: "char \<Rightarrow> char \<Rightarrow> char \<Rightarrow> string \<Rightarrow> string" where
  "str_replace2 a b c (x # y # s) =
     (if x = a \<and> y = b then c # str_replace2 a b c s else x # str_replace2 a b c (y # s))"
| "str_replace2 a b c s = s"

definition pointer_token :: "string \<Rightarrow> string" where
  "pointer_token s = str_replace2 (CHR ''~'') (CHR ''0'') (CHR ''~'')
     (str_replace2 (CHR ''~'') (CHR ''1'') (CHR ''/'') s)"

definition pointer_tokens :: "string \<Rightarrow> string list option" where
  "pointer_tokens p =
     (if p = [] then Some []
      else if str_starts_with (CHR ''/'') p then Some (map pointer_token (tl (str_split (CHR ''/'') p)))
      else None)"

definition parse_index :: "string \<Rightarrow> nat option" where
  "parse_index s =
     (if str_starts_with (CHR ''+'') s \<or> str_starts_with (CHR ''0'') s \<and> length s \<noteq> 1 then None
      else parse_u64 s)"

fun json_step :: "json \<Rightarrow> string \<Rightarrow> json option" where
  "json_step (JObject m) t = map_of m t"
| "json_step (JArray xs) t =
     (case parse_index t of Some i \<Rightarrow> if i < length xs then Some (xs ! i) else None | None \<Rightarrow> None)"
| "json_step _ t = None"

fun json_at :: "string list \<Rightarrow> json \<Rightarrow> json option" where
  "json_at [] v = Some v"
| "json_at (t # ts) v = (case json_step v t of Some c \<Rightarrow> json_at ts c | None \<Rightarrow> None)"

definition json_pointer :: "json \<Rightarrow> string \<Rightarrow> json option" where
  "json_pointer v p = (case pointer_tokens p of Some ts \<Rightarrow> json_at ts v | None \<Rightarrow> None)"

text \<open>A change in place through \<open>Value::pointer_mut\<close>.\<close>

fun json_modify_at :: "string list \<Rightarrow> (json \<Rightarrow> json) \<Rightarrow> json \<Rightarrow> json" where
  "json_modify_at [] f v = f v"
| "json_modify_at (t # ts) f (JObject m) = JObject (obj_modify t (json_modify_at ts f) m)"
| "json_modify_at (t # ts) f (JArray xs) =
     (case parse_index t of
        Some i \<Rightarrow> if i < length xs then JArray (xs[i := json_modify_at ts f (xs ! i)]) else JArray xs
      | None \<Rightarrow> JArray xs)"
| "json_modify_at (t # ts) f v = v"

definition json_pointer_modify :: "string \<Rightarrow> (json \<Rightarrow> json) \<Rightarrow> json \<Rightarrow> json" where
  "json_pointer_modify p f v = (case pointer_tokens p of Some ts \<Rightarrow> json_modify_at ts f v | None \<Rightarrow> v)"

section \<open>Text\<close>

text \<open>\<open>split_once\<close> for a text.\<close>

fun str_split_at :: "string \<Rightarrow> string \<Rightarrow> (string \<times> string) option" where
  "str_split_at p [] = (if p = [] then Some ([], []) else None)"
| "str_split_at p (c # s) =
     (if prefix p (c # s) then Some ([], drop (length p) (c # s))
      else map_option (\<lambda>(before, after). (c # before, after)) (str_split_at p s))"

text \<open>An index is at a character boundary unless the byte there continues a character.\<close>

definition is_char_boundary :: "nat \<Rightarrow> string \<Rightarrow> bool" where
  "is_char_boundary i s \<longleftrightarrow>
     i = length s \<or> i < length s \<and> \<not> (0x80 \<le> (of_char (s ! i) :: nat) \<and> (of_char (s ! i) :: nat) < 0xC0)"

definition split_at_checked :: "nat \<Rightarrow> string \<Rightarrow> (string \<times> string) option" where
  "split_at_checked i s = (if is_char_boundary i s then Some (take i s, drop i s) else None)"

definition str_get_from :: "nat \<Rightarrow> string \<Rightarrow> string option" where
  "str_get_from i s = (if is_char_boundary i s then Some (drop i s) else None)"

definition str_get_to :: "nat \<Rightarrow> string \<Rightarrow> string option" where
  "str_get_to i s = (if is_char_boundary i s then Some (take i s) else None)"

definition to_ascii_lowercase :: "char \<Rightarrow> char" where
  "to_ascii_lowercase c =
     (let n = of_char c :: nat in if 65 \<le> n \<and> n \<le> 90 then char_of (n + 32) else c)"

definition eq_ignore_ascii_case :: "string \<Rightarrow> string \<Rightarrow> bool" where
  "eq_ignore_ascii_case s t \<longleftrightarrow> map to_ascii_lowercase s = map to_ascii_lowercase t"

text \<open>\<open>to_string\<close> of an unsigned integer.\<close>

fun nat_to_string :: "nat \<Rightarrow> string" where
  "nat_to_string n =
     (if n < 10 then [char_of (48 + n)] else nat_to_string (n div 10) @ [char_of (48 + n mod 10)])"

declare nat_to_string.simps [simp del]

section \<open>Lemmas\<close>

lemma obj_get_insert [obj_simps]: "map_of (obj_insert k v m) j = (if j = k then Some v else map_of m j)"
  by (simp add: obj_insert_def update_conv')

lemma obj_get_remove [obj_simps]: "map_of (obj_remove k m) j = (if j = k then None else map_of m j)"
  by (simp add: obj_remove_def delete_conv')

lemma obj_get_retain [obj_simps]: "map_of (obj_retain p m) j = (if p j then map_of m j else None)"
  by (induction m) (auto simp: obj_retain_def)

lemma obj_get_or_insert [obj_simps]:
  "map_of (obj_or_insert k v m) j =
     (if j = k then Some (case map_of m k of Some w \<Rightarrow> w | None \<Rightarrow> v) else map_of m j)"
  by (auto simp: obj_or_insert_def obj_contains_key_def obj_get_insert)

lemma obj_get_modify [obj_simps]:
  "map_of (obj_modify k f m) j = (if j = k then map_option f (map_of m k) else map_of m j)"
  by (auto simp: obj_modify_def map_of_map_entry split: option.splits)

lemma obj_get_map_values [obj_simps]: "map_of (obj_map_values f m) j = map_option f (map_of m j)"
  by (induction m) (auto simp: obj_map_values_def)

lemma json_get_on_object: "json_get (on_object f v) k =
  (case v of JObject m \<Rightarrow> map_of (f m) k | _ \<Rightarrow> None)"
  by (cases v) auto

lemma obj_modify_id: "(\<And>v. map_of m k = Some v \<Longrightarrow> f v = v) \<Longrightarrow> obj_modify k f m = m"
  by (induction m) (auto simp: obj_modify_def split: if_splits)

lemma obj_remove_id: "map_of m k = None \<Longrightarrow> obj_remove k m = m"
  by (simp add: obj_remove_def map_of_eq_None_iff)

lemma obj_insert_same: "map_of m k = Some v \<Longrightarrow> obj_insert k v m = m"
  by (induction m) (auto simp: obj_insert_def split: if_splits)

lemma obj_retain_idem [simp]: "obj_retain p (obj_retain p m) = obj_retain p m"
  by (simp add: obj_retain_def comp_def)

text \<open>The values an edit leaves in an object are old ones or what it puts there.\<close>

lemma obj_value_insert: "kv \<in> set (obj_insert k v m) \<Longrightarrow> kv \<in> set m \<or> kv = (k, v)"
  by (induction m) (auto simp: obj_insert_def split: if_splits)

lemma obj_value_modify:
  "kv \<in> set (obj_modify k f m) \<Longrightarrow> kv \<in> set m \<or> (\<exists>v. (k, v) \<in> set m \<and> kv = (k, f v))"
  by (induction m) (auto simp: obj_modify_def split: if_splits)

lemma obj_value_sub:
  "set (obj_remove k m) \<subseteq> set m" "set (obj_retain p m) \<subseteq> set m"
  by (auto simp: obj_remove_def obj_retain_def AList.delete_eq)

lemma obj_distinct:
  assumes "distinct (map fst m)"
  shows "distinct (map fst (obj_insert k v m))" "distinct (map fst (obj_remove k m))"
    "distinct (map fst (obj_retain p m))" "distinct (map fst (obj_modify k f m))"
    "distinct (map fst (obj_or_insert k v m))" "distinct (map fst (obj_map_values g m))"
  using assms
  by (simp_all add: obj_insert_def distinct_update obj_remove_def distinct_delete obj_retain_def
      distinct_map_filter obj_modify_def distinct_map_entry obj_or_insert_def obj_map_values_def
      comp_def)

text \<open>When an edit changes nothing.\<close>

named_theorems edit_fixed \<open>when an edit leaves an object as it is\<close>

lemma obj_modify_fixed [edit_fixed]:
  "obj_modify k f m = m \<longleftrightarrow> (\<forall>v. map_of m k = Some v \<longrightarrow> f v = v)"
proof
  show "obj_modify k f m = m" if "\<forall>v. map_of m k = Some v \<longrightarrow> f v = v"
    using that by (intro obj_modify_id) auto
qed (metis obj_get_modify option.map(2) option.inject)

lemma obj_remove_fixed [edit_fixed]: "obj_remove k m = m \<longleftrightarrow> map_of m k = None"
  by (metis obj_get_remove obj_remove_id)

lemma obj_insert_fixed [edit_fixed]: "obj_insert k v m = m \<longleftrightarrow> map_of m k = Some v"
  by (metis obj_get_insert obj_insert_same)

lemma obj_or_insert_fixed [edit_fixed]: "obj_or_insert k v m = m \<longleftrightarrow> map_of m k \<noteq> None"
  by (auto simp: obj_or_insert_def obj_contains_key_def edit_fixed)

lemma obj_retain_fixed [edit_fixed]: "obj_retain p m = m \<longleftrightarrow> (\<forall>k \<in> fst ` set m. p k)"
  by (auto simp: obj_retain_def filter_id_conv)

lemma on_object_fixed [edit_fixed]:
  "on_object g v = v \<longleftrightarrow> (\<forall>m. v = JObject m \<longrightarrow> g m = m)"
  by (cases v) auto

lemma json_as_object_Some [simp]: "json_as_object v = Some m \<longleftrightarrow> v = JObject m"
  by (cases v) auto

lemma json_as_str_Some [simp]: "json_as_str v = Some s \<longleftrightarrow> v = JString s"
  by (cases v) auto

lemma on_object_other: "json_as_object v = None \<Longrightarrow> on_object g v = v"
  by (cases v) auto

end
