(* ===== verification/Quirk_Fixes.thy ===== *)
theory Quirk_Fixes
  imports Json_Edit
begin

text \<open>
  The rewrites of \<open>quirks/src/fixes.rs\<close>: each takes one document and returns it repaired. Whether a text
  is a GUID (\<open>uuid::Uuid::parse_str\<close>) and whether it is an RFC 3339 time (\<open>OffsetDateTime::parse\<close>) are the
  business of libraries: the two tests are parameters.
\<close>

record text_ops =
  guid_ok :: "string \<Rightarrow> bool"
  datetime_ok :: "string \<Rightarrow> bool"

type_synonym json_fix = "json \<Rightarrow> json"

section \<open>The rewrites\<close>

definition add_default_update_service_name :: json_fix where
  "add_default_update_service_name v =
     (case v of
        JObject obj \<Rightarrow> JObject (obj_or_insert ''Name'' (JString ''Unnamed update service'') obj)
      | _ \<Rightarrow> v)"

definition advertise_multipart_http_push_uri :: json_fix where
  "advertise_multipart_http_push_uri v =
     (let advertised =
        (case json_get v ''MultipartHttpPushUri'' \<bind> json_as_str of
           Some uri \<Rightarrow> str_trim uri \<noteq> [] | None \<Rightarrow> False)
      in
      if advertised then v
      else (case json_get v ''@odata.id'' \<bind> json_as_str of
              None \<Rightarrow> v
            | Some service \<Rightarrow>
                let upload = str_trim_end_matches (CHR ''/'') service @ ''/upload'' in
                on_object (obj_insert ''MultipartHttpPushUri'' (JString upload)) v))"

definition remove_wrong_release_date :: json_fix where
  "remove_wrong_release_date v =
     (case v of
        JObject obj \<Rightarrow>
          JObject (case map_of obj ''ReleaseDate'' of
                     Some (JString date) \<Rightarrow>
                       if date = ''00:00:00Z'' \<or> date = ''0000-00-00T00:00:00Z''
                       then obj_remove ''ReleaseDate'' obj else obj
                   | _ \<Rightarrow> obj)
      | _ \<Rightarrow> v)"

definition remove_invalid_contained_by_fields :: json_fix where
  "remove_invalid_contained_by_fields v =
     on_object (obj_modify ''Links'' (on_object (obj_modify ''ContainedBy''
       (on_object (obj_retain (\<lambda>k. k = ''@odata.id'')))))) v"

definition certificates_as_reference :: json_fix where
  "certificates_as_reference v =
     on_object (obj_modify ''Certificates'' (on_object (obj_retain (\<lambda>k. k = ''@odata.id'')))) v"

definition add_default_chassis_type :: json_fix where
  "add_default_chassis_type v =
     (case v of JObject obj \<Rightarrow> JObject (obj_or_insert ''ChassisType'' (JString ''Other'') obj) | _ \<Rightarrow> v)"

definition add_default_chassis_name :: json_fix where
  "add_default_chassis_name v =
     (case v of JObject obj \<Rightarrow> JObject (obj_or_insert ''Name'' (JString ''Unnamed chassis'') obj) | _ \<Rightarrow> v)"

definition normalize_empty_uuid_field :: json_fix where
  "normalize_empty_uuid_field v =
     on_object (obj_modify ''UUID''
       (\<lambda>uuid. if json_as_str uuid = Some [] then JNull else uuid)) v"

definition normalize_invalid_uuid_field :: "text_ops \<Rightarrow> json_fix" where
  "normalize_invalid_uuid_field T v =
     on_object (obj_modify ''UUID''
       (\<lambda>uuid. case json_as_str uuid of
          Some s \<Rightarrow> if \<not> guid_ok T s then JNull else uuid
        | None \<Rightarrow> uuid)) v"

definition advertise_bluefield_nvidia_chassis_reset :: json_fix where
  "advertise_bluefield_nvidia_chassis_reset v =
     (case (json_get v ''Id'' \<bind> json_as_str, json_get v ''@odata.id'' \<bind> json_as_str) of
        (Some i, Some chassis_id) \<Rightarrow>
          if i = ''BlueField_0'' then
            let target = chassis_id @ ''/Actions/Oem/NvidiaChassis.Reset'' in
            on_object
              (obj_modify ''Actions''
                 (on_object
                    (obj_modify ''Oem''
                       (on_object (obj_or_insert ''#NvidiaChassis.Reset'' (JObject [(''target'', JString target)])))
                     \<circ> obj_or_insert ''Oem'' (JObject [])))
               \<circ> obj_or_insert ''Actions'' (JObject [])) v
          else v
      | _ \<Rightarrow> v)"

definition normalize_empty_network_adapter_controllers :: json_fix where
  "normalize_empty_network_adapter_controllers v =
     on_object (\<lambda>obj.
       if map_of obj ''Controllers'' = Some (JObject []) then obj_insert ''Controllers'' (JArray []) obj
       else obj) v"

definition remove_wrong_last_reset_time :: json_fix where
  "remove_wrong_last_reset_time v =
     (case v of
        JObject obj \<Rightarrow>
          JObject (case map_of obj ''LastResetTime'' of
                     Some (JString date) \<Rightarrow>
                       if prefix ''0000-00-00'' date then obj_remove ''LastResetTime'' obj else obj
                   | _ \<Rightarrow> obj)
      | _ \<Rightarrow> v)"

definition with_seconds :: "text_ops \<Rightarrow> string \<Rightarrow> string option" where
  "with_seconds T date = do {
     (minutes, offset) \<leftarrow> split_at_checked 16 date;
     let fixed = minutes @ '':00'' @ offset;
     (if datetime_ok T fixed then Some fixed else None)
   }"

definition add_password_expiration_seconds :: "text_ops \<Rightarrow> json_fix" where
  "add_password_expiration_seconds T v =
     (case v of
        JObject obj \<Rightarrow>
          JObject (obj_modify ''PasswordExpiration''
            (\<lambda>d. case d of
               JString date \<Rightarrow> (case with_seconds T date of Some fixed \<Rightarrow> JString fixed | None \<Rightarrow> d)
             | _ \<Rightarrow> d) obj)
      | _ \<Rightarrow> v)"

definition vera_rubin_boot_order_entry_reference :: "string \<Rightarrow> string" where
  "vera_rubin_boot_order_entry_reference entry =
     (case str_split_at '': '' entry of Some (reference, _) \<Rightarrow> reference | None \<Rightarrow> entry)"

definition normalize_vera_rubin_composite_boot_order :: json_fix where
  "normalize_vera_rubin_composite_boot_order v =
     on_object (obj_modify ''Boot'' (on_object (obj_modify ''BootOrder''
       (\<lambda>boot_order. case boot_order of
          JArray entries \<Rightarrow>
            JArray (map (\<lambda>entry. case entry of
              JString entry \<Rightarrow> JString (vera_rubin_boot_order_entry_reference entry) | _ \<Rightarrow> entry) entries)
        | _ \<Rightarrow> boot_order)))) v"

definition append_default_account_type :: json_fix where
  "append_default_account_type v =
     (case v of
        JObject obj \<Rightarrow> JObject (obj_or_insert ''AccountTypes'' (JArray [JString ''Redfish'']) obj)
      | _ \<Rightarrow> v)"

definition normalize_pem_chain_type :: json_fix where
  "normalize_pem_chain_type v =
     (if json_get v ''CertificateType'' \<bind> json_as_str = Some ''PEMChain''
      then on_object (obj_insert ''CertificateType'' (JString ''PEMchain'')) v else v)"

text \<open>The nested function \<open>normalize\<close> of \<open>normalize_dpu_certificate_collection_stubs\<close>.\<close>

definition certificate_collection :: "json_map \<Rightarrow> bool" where
  "certificate_collection obj \<longleftrightarrow>
     (case map_of obj ''@odata.type'' \<bind> json_as_str of
        Some odata_type \<Rightarrow> prefix ''#CertificateCollection.'' odata_type | None \<Rightarrow> False)"

definition stub_reference :: "json_map \<Rightarrow> json option" where
  "stub_reference obj =
     (if certificate_collection obj \<and> \<not> obj_contains_key obj ''Name'' then map_of obj ''@odata.id''
      else None)"

fun normalize_stubs :: json_fix where
  "normalize_stubs (JObject obj) =
     (case stub_reference obj of
        Some odata_id \<Rightarrow> JObject (obj_insert ''@odata.id'' odata_id [])
      | None \<Rightarrow> JObject (map (\<lambda>kv. (fst kv, normalize_stubs (snd kv))) obj))"
| "normalize_stubs (JArray values) = JArray (map normalize_stubs values)"
| "normalize_stubs v = v"

definition normalize_dpu_certificate_collection_stubs :: json_fix where
  "normalize_dpu_certificate_collection_stubs v = normalize_stubs v"

definition normalize_power_shelf_states :: json_fix where
  "normalize_power_shelf_states v =
     json_pointer_modify ''/Status/State''
       (\<lambda>state. if json_as_str state = Some ''Standby'' then JString ''StandbySpare''
                else if json_as_str state = Some ''Sleep'' then JString ''StandbyOffline''
                else state) v"

definition remove_invalid_power_supply_location_indicator_active :: json_fix where
  "remove_invalid_power_supply_location_indicator_active v =
     on_object (\<lambda>obj.
       case map_of obj ''LocationIndicatorActive'' of
         Some (JObject _) \<Rightarrow> obj_remove ''LocationIndicatorActive'' obj
       | _ \<Rightarrow> obj) v"

end
