(* ===== verification/Quirk_Platform.thy ===== *)
theory Quirk_Platform
  imports Quirk_Fixes
begin

text \<open>
  The quirks of an endpoint (\<open>quirks/src/platform.rs\<close>): the evidence its service root carries, the table of
  rules, and the classification, which collects the quirks of every rule the evidence matches. The last
  section shows that classification is exactly the union of the rules, that the rules of two platforms
  that need opposite handling never meet, and that no quirk of the enum is dead.
\<close>

section \<open>Evidence\<close>

record root_evidence =
  re_vendor :: "string option"
  re_product :: "string option"
  re_redfish_version :: "string option"
  re_ami_rtp_version :: "string option"
  re_ami_oem :: bool

definition from_root :: "json \<Rightarrow> root_evidence" where
  "from_root root =
     (let text = (\<lambda>p. json_pointer root p \<bind> json_as_str) in
      \<lparr>re_vendor = text ''/Vendor'',
       re_product = text ''/Product'',
       re_redfish_version = text ''/RedfishVersion'',
       re_ami_rtp_version = text ''/Oem/Ami/RtpVersion'',
       re_ami_oem = (json_pointer root ''/Oem/Ami'' \<noteq> None)\<rparr>)"

definition vendor_is :: "root_evidence \<Rightarrow> string \<Rightarrow> bool" where
  "vendor_is root vendor \<longleftrightarrow> re_vendor root = Some vendor"

definition product_is :: "root_evidence \<Rightarrow> string \<Rightarrow> bool" where
  "product_is root product \<longleftrightarrow> re_product root = Some product"

definition redfish_version_is :: "root_evidence \<Rightarrow> string \<Rightarrow> bool" where
  "redfish_version_is root version \<longleftrightarrow> re_redfish_version root = Some version"

definition ami_rtp_version_is :: "root_evidence \<Rightarrow> string \<Rightarrow> bool" where
  "ami_rtp_version_is root version \<longleftrightarrow> re_ami_rtp_version root = Some version"

section \<open>Quirks and rules\<close>

datatype quirk =
    FilteredLogEntriesCount | NoAccountTypeInAccounts | IncompleteAccountServiceCertificateCollection
   | FwInventoryWrongReleaseDate | JobLocationInCreateResponse | InvalidContainedByFields
   | AnnotatedChassisCertificatesLink | MissingRootNavProperties | MissingChassisTypeField
   | MissingChassisNameField | EmptyUuidField | InvalidChassisUuidField | DpuOemComputerSystem
   | MissingUpdateServiceNameField | CertificateTypeWrongPemChainCase
   | ComputerSystemsWrongLastResetTime | EmptyNetworkAdapterControllers | SseNoMemberId
   | SseEmptyLogEntry | SseWrongTimestampOffset | SseMissingEventType | SseMissingEnvelopeIds
   | CompositeBootOrderEntries | WrongComputerSystemMembers | WrongManagerMembers
   | ResetToDefaultsTypeParameter | PowerSupplyLocationIndicatorObject | PowerShelfStates
   | ExpandIsNotWorkingProperly | NullableMembers | RejectsOwnEtag | RejectsWildcardEtag
   | SuccessAsExtendedInfoError | PasswordExpirationWithoutSeconds | AcceptedUpdateWithoutTask
   | AcceptedActionWithoutTask | AnnotationOnlyUpdateReply | UnadvertisedNvidiaChassisReset
   | UnadvertisedMultipartHttpPushUri

record platform_rule =
  pr_covers :: "root_evidence \<Rightarrow> bool"
  pr_quirks :: "quirk list"

definition platform_rules :: "platform_rule list" where
  "platform_rules = [
    \<lparr>pr_covers = (\<lambda>root. vendor_is root ''HPE''),
      pr_quirks = [NoAccountTypeInAccounts, RejectsWildcardEtag, SuccessAsExtendedInfoError]\<rparr>,
    \<lparr>pr_covers = (\<lambda>root. vendor_is root ''Dell''),
      pr_quirks = [FwInventoryWrongReleaseDate, JobLocationInCreateResponse,
          ComputerSystemsWrongLastResetTime, EmptyNetworkAdapterControllers, SseWrongTimestampOffset,
          InvalidChassisUuidField]\<rparr>,
    \<lparr>pr_covers = (\<lambda>root. vendor_is root ''AMI'' \<or> (vendor_is root ''Lenovo'' \<and>
          re_ami_oem root)),
      pr_quirks = [RejectsOwnEtag]\<rparr>,
    \<lparr>pr_covers = (\<lambda>root. vendor_is root ''Lenovo'' \<and> re_ami_oem root),
      pr_quirks = [UnadvertisedMultipartHttpPushUri]\<rparr>,
    \<lparr>pr_covers = (\<lambda>root. vendor_is root ''Lenovo'' \<and> \<not> re_ami_oem root),
      pr_quirks = [PasswordExpirationWithoutSeconds, AnnotationOnlyUpdateReply]\<rparr>,
    \<lparr>pr_covers = (\<lambda>root. vendor_is root ''AMI'' \<and> redfish_version_is root ''1.11.0''),
      pr_quirks = [InvalidContainedByFields, AnnotatedChassisCertificatesLink, MissingRootNavProperties,
          MissingChassisTypeField, MissingChassisNameField, MissingUpdateServiceNameField,
          CertificateTypeWrongPemChainCase, WrongComputerSystemMembers, WrongManagerMembers,
          ExpandIsNotWorkingProperly, UnadvertisedMultipartHttpPushUri]\<rparr>,
    \<lparr>pr_covers = (\<lambda>root. vendor_is root ''AMI'' \<and> ami_rtp_version_is root ''13.09.1''),
      pr_quirks = [ExpandIsNotWorkingProperly]\<rparr>,
    \<lparr>pr_covers = (\<lambda>root. vendor_is root ''NVIDIA''),
      pr_quirks = [SseNoMemberId, SseMissingEventType]\<rparr>,
    \<lparr>pr_covers = (\<lambda>root. vendor_is root ''NVIDIA'' \<and> \<not> product_is root ''P3809''),
      pr_quirks = [FilteredLogEntriesCount]\<rparr>,
    \<lparr>pr_covers = (\<lambda>root. vendor_is root ''NVIDIA'' \<and> product_is root ''VR NVL72''),
      pr_quirks = [SseEmptyLogEntry, SseMissingEnvelopeIds, CompositeBootOrderEntries]\<rparr>,
    \<lparr>pr_covers = (\<lambda>root. vendor_is root ''NVIDIA'' \<and> product_is root ''GB BMC''),
      pr_quirks = [ExpandIsNotWorkingProperly, IncompleteAccountServiceCertificateCollection]\<rparr>,
    \<lparr>pr_covers = (\<lambda>root. vendor_is root ''Nvidia'' \<and> (product_is root ''Nvidia-BMCMezz'' \<or>
          product_is root ''BlueField-3 DPU'' \<or> product_is root ''BlueField-4'')),
      pr_quirks = [IncompleteAccountServiceCertificateCollection, EmptyUuidField, InvalidChassisUuidField,
          DpuOemComputerSystem, NullableMembers]\<rparr>,
    \<lparr>pr_covers = (\<lambda>root. vendor_is root ''WIWYNN''),
      pr_quirks = [SseNoMemberId, SseMissingEventType, InvalidChassisUuidField]\<rparr>,
    \<lparr>pr_covers = (\<lambda>root. vendor_is root ''Supermicro''),
      pr_quirks = [AcceptedUpdateWithoutTask, AcceptedActionWithoutTask]\<rparr>,
    \<lparr>pr_covers = (\<lambda>root. vendor_is root ''Nvidia'' \<and> (product_is root
          ''BlueField-4'' \<or> product_is root ''B4240V'')),
      pr_quirks = [UnadvertisedNvidiaChassisReset]\<rparr>,
    \<lparr>pr_covers = (\<lambda>root. case re_vendor root of Some vendor \<Rightarrow>
          prefix ''LITE-ON'' vendor | None \<Rightarrow> False),
      pr_quirks = [ResetToDefaultsTypeParameter, PowerSupplyLocationIndicatorObject,
          PowerShelfStates]\<rparr>,
    \<lparr>pr_covers = (\<lambda>root. re_vendor root = None \<and> redfish_version_is root ''1.9.0''),
      pr_quirks = [PowerShelfStates]\<rparr>]"

section \<open>Classification\<close>

record bmc_quirks =
  bq_quirks :: "quirk list"

fun add_quirks :: "quirk list \<Rightarrow> quirk list \<Rightarrow> quirk list" where
  "add_quirks [] quirks = quirks"
| "add_quirks (q # qs) quirks = add_quirks qs (if q \<in> set quirks then quirks else quirks @ [q])"

definition classify :: "root_evidence \<Rightarrow> bmc_quirks" where
  "classify evidence =
     \<lparr>bq_quirks =
        fold (\<lambda>rule quirks. add_quirks (pr_quirks rule) quirks)
          (filter (\<lambda>rule. pr_covers rule evidence) platform_rules) []\<rparr>"

definition has :: "bmc_quirks \<Rightarrow> quirk \<Rightarrow> bool" where
  "has bq q \<longleftrightarrow> q \<in> set (bq_quirks bq)"

section \<open>The predicates\<close>

definition bug_filtered_log_entries_count :: "bmc_quirks \<Rightarrow> bool" where
  "bug_filtered_log_entries_count q = has q FilteredLogEntriesCount"

definition bug_no_account_type_in_accounts :: "bmc_quirks \<Rightarrow> bool" where
  "bug_no_account_type_in_accounts q = has q NoAccountTypeInAccounts"

definition bug_incomplete_account_service_certificate_collection :: "bmc_quirks \<Rightarrow> bool" where
  "bug_incomplete_account_service_certificate_collection q = has q IncompleteAccountServiceCertificateCollection"

definition fw_inventory_wrong_release_date :: "bmc_quirks \<Rightarrow> bool" where
  "fw_inventory_wrong_release_date q = has q FwInventoryWrongReleaseDate"

definition bug_job_location_in_create_response :: "bmc_quirks \<Rightarrow> bool" where
  "bug_job_location_in_create_response q = has q JobLocationInCreateResponse"

definition bug_invalid_contained_by_fields :: "bmc_quirks \<Rightarrow> bool" where
  "bug_invalid_contained_by_fields q = has q InvalidContainedByFields"

definition bug_annotated_chassis_certificates_link :: "bmc_quirks \<Rightarrow> bool" where
  "bug_annotated_chassis_certificates_link q = has q AnnotatedChassisCertificatesLink"

definition bug_missing_root_nav_properties :: "bmc_quirks \<Rightarrow> bool" where
  "bug_missing_root_nav_properties q = has q MissingRootNavProperties"

definition bug_missing_chassis_type_field :: "bmc_quirks \<Rightarrow> bool" where
  "bug_missing_chassis_type_field q = has q MissingChassisTypeField"

definition bug_missing_chassis_name_field :: "bmc_quirks \<Rightarrow> bool" where
  "bug_missing_chassis_name_field q = has q MissingChassisNameField"

definition bug_power_shelf_states :: "bmc_quirks \<Rightarrow> bool" where
  "bug_power_shelf_states q = has q PowerShelfStates"

definition bug_empty_uuid_field :: "bmc_quirks \<Rightarrow> bool" where
  "bug_empty_uuid_field q = has q EmptyUuidField"

definition bug_invalid_chassis_uuid_field :: "bmc_quirks \<Rightarrow> bool" where
  "bug_invalid_chassis_uuid_field q = has q InvalidChassisUuidField"

definition bug_dpu_oem_computer_system :: "bmc_quirks \<Rightarrow> bool" where
  "bug_dpu_oem_computer_system q = has q DpuOemComputerSystem"

definition bug_missing_update_service_name_field :: "bmc_quirks \<Rightarrow> bool" where
  "bug_missing_update_service_name_field q = has q MissingUpdateServiceNameField"

definition certificate_type_wrong_pem_chain_case :: "bmc_quirks \<Rightarrow> bool" where
  "certificate_type_wrong_pem_chain_case q = has q CertificateTypeWrongPemChainCase"

definition computer_systems_wrong_last_reset_time :: "bmc_quirks \<Rightarrow> bool" where
  "computer_systems_wrong_last_reset_time q = has q ComputerSystemsWrongLastResetTime"

definition bug_empty_network_adapter_controllers :: "bmc_quirks \<Rightarrow> bool" where
  "bug_empty_network_adapter_controllers q = has q EmptyNetworkAdapterControllers"

definition event_service_sse_no_member_id :: "bmc_quirks \<Rightarrow> bool" where
  "event_service_sse_no_member_id q = has q SseNoMemberId"

definition event_service_sse_empty_log_entry :: "bmc_quirks \<Rightarrow> bool" where
  "event_service_sse_empty_log_entry q = has q SseEmptyLogEntry"

definition event_service_sse_wrong_timestamp_offset :: "bmc_quirks \<Rightarrow> bool" where
  "event_service_sse_wrong_timestamp_offset q = has q SseWrongTimestampOffset"

definition event_service_sse_missing_event_type :: "bmc_quirks \<Rightarrow> bool" where
  "event_service_sse_missing_event_type q = has q SseMissingEventType"

definition event_service_sse_missing_envelope_ids :: "bmc_quirks \<Rightarrow> bool" where
  "event_service_sse_missing_envelope_ids q = has q SseMissingEnvelopeIds"

definition vera_rubin_composite_boot_order_entries :: "bmc_quirks \<Rightarrow> bool" where
  "vera_rubin_composite_boot_order_entries q = has q CompositeBootOrderEntries"

definition expand_is_not_working_properly :: "bmc_quirks \<Rightarrow> bool" where
  "expand_is_not_working_properly q = has q ExpandIsNotWorkingProperly"

definition bug_nullable_members :: "bmc_quirks \<Rightarrow> bool" where
  "bug_nullable_members q = has q NullableMembers"

definition bug_rejects_own_etag :: "bmc_quirks \<Rightarrow> bool" where
  "bug_rejects_own_etag q = has q RejectsOwnEtag"

definition bug_rejects_wildcard_etag :: "bmc_quirks \<Rightarrow> bool" where
  "bug_rejects_wildcard_etag q = has q RejectsWildcardEtag"

definition bug_success_as_extended_info_error :: "bmc_quirks \<Rightarrow> bool" where
  "bug_success_as_extended_info_error q = has q SuccessAsExtendedInfoError"

definition bug_password_expiration_without_seconds :: "bmc_quirks \<Rightarrow> bool" where
  "bug_password_expiration_without_seconds q = has q PasswordExpirationWithoutSeconds"

definition bug_accepted_update_without_task :: "bmc_quirks \<Rightarrow> bool" where
  "bug_accepted_update_without_task q = has q AcceptedUpdateWithoutTask"

definition bug_accepted_action_without_task :: "bmc_quirks \<Rightarrow> bool" where
  "bug_accepted_action_without_task q = has q AcceptedActionWithoutTask"

definition bug_annotation_only_update_reply :: "bmc_quirks \<Rightarrow> bool" where
  "bug_annotation_only_update_reply q = has q AnnotationOnlyUpdateReply"

definition bug_unadvertised_nvidia_chassis_reset :: "bmc_quirks \<Rightarrow> bool" where
  "bug_unadvertised_nvidia_chassis_reset q = has q UnadvertisedNvidiaChassisReset"

definition bug_unadvertised_multipart_http_push_uri :: "bmc_quirks \<Rightarrow> bool" where
  "bug_unadvertised_multipart_http_push_uri q = has q UnadvertisedMultipartHttpPushUri"

definition filter_computer_system_odata_ids :: "bmc_quirks \<Rightarrow> (string \<Rightarrow> bool) option" where
  "filter_computer_system_odata_ids q =
     (if has q WrongComputerSystemMembers
      then Some (\<lambda>odata_id. suffix ''/DGX'' odata_id \<or> suffix ''/HGX_Baseboard_0'' odata_id) else None)"

definition filter_manager_odata_ids :: "bmc_quirks \<Rightarrow> (string \<Rightarrow> bool) option" where
  "filter_manager_odata_ids q =
     (if has q WrongManagerMembers
      then Some (\<lambda>odata_id. suffix ''/BMC'' odata_id \<or> suffix ''/HGX_BMC_0'' odata_id \<or>
                            suffix ''/HGX_FabricManager_0'' odata_id)
      else None)"

definition is_liteon :: "string option \<Rightarrow> bool" where
  "is_liteon manufacturer \<longleftrightarrow>
     (case manufacturer of
        Some m \<Rightarrow> eq_ignore_ascii_case m ''LITE-ON TECHNOLOGY CORP.'' | None \<Rightarrow> False)"

definition bug_reset_to_defaults_type_parameter :: "bmc_quirks \<Rightarrow> string option \<Rightarrow> bool" where
  "bug_reset_to_defaults_type_parameter q manager_manufacturer \<longleftrightarrow>
     has q ResetToDefaultsTypeParameter \<or> is_liteon manager_manufacturer"

definition power_supply_location_indicator_repair :: "bmc_quirks \<Rightarrow> string option \<Rightarrow> json_fix option" where
  "power_supply_location_indicator_repair q chassis_manufacturer =
     (if has q PowerSupplyLocationIndicatorObject \<or> is_liteon chassis_manufacturer
      then Some remove_invalid_power_supply_location_indicator_active else None)"

section \<open>What classification gives\<close>

lemma set_add_quirks [simp]: "set (add_quirks qs acc) = set qs \<union> set acc"
  by (induction qs arbitrary: acc) auto

lemma distinct_add_quirks [simp]: "distinct (add_quirks qs acc) = distinct acc"
  by (induction qs arbitrary: acc) auto

lemma set_fold_add_quirks:
  "set (fold (\<lambda>rule quirks. add_quirks (pr_quirks rule) quirks) rules acc) =
     (\<Union>rule \<in> set rules. set (pr_quirks rule)) \<union> set acc"
  by (induction rules arbitrary: acc) auto

lemma distinct_fold_add_quirks:
  "distinct (fold (\<lambda>rule quirks. add_quirks (pr_quirks rule) quirks) rules acc) = distinct acc"
  by (induction rules arbitrary: acc) auto

lemma has_classify:
  "has (classify evidence) q \<longleftrightarrow> (\<exists>rule \<in> set platform_rules. pr_covers rule evidence \<and> q \<in> set (pr_quirks rule))"
  by (auto simp: has_def classify_def set_fold_add_quirks)

lemma distinct_classify: "distinct (bq_quirks (classify evidence))"
  by (simp add: classify_def distinct_fold_add_quirks)

text \<open>
  Classification is the table: an endpoint has a quirk exactly when some rule whose condition its
  evidence meets lists it, no quirk is kept twice, and so another rule for the same device can only add.
  The firmware that refuses its own ETag and the firmware that refuses a wildcard are never the same, so an
  update always has an ETag the endpoint accepts.
\<close>

theorem platform_classify_spec:
  "(has (classify ev) q \<longleftrightarrow> (\<exists>rule \<in> set platform_rules. pr_covers rule ev \<and> q \<in> set (pr_quirks rule))) \<and>
   distinct (bq_quirks (classify ev)) \<and>
   \<not> (bug_rejects_own_etag (classify ev) \<and> bug_rejects_wildcard_etag (classify ev))"
proof -
  have "\<not> (has (classify ev) RejectsOwnEtag \<and> has (classify ev) RejectsWildcardEtag)"
    by (auto simp: has_classify platform_rules_def vendor_is_def)
  then show ?thesis
    using has_classify distinct_classify by (simp add: bug_rejects_own_etag_def bug_rejects_wildcard_etag_def)
qed

text \<open>A service root with the given vendor, product and version.\<close>

definition demo_root :: "string \<Rightarrow> string \<Rightarrow> string \<Rightarrow> json" where
  "demo_root vendor product version = JObject [
     (''Vendor'', JString vendor), (''Product'', JString product), (''RedfishVersion'', JString version)]"

text \<open>
  No quirk is dead: for each of the 39 quirks there is a service root whose endpoint is classified as
  having it.
\<close>

theorem platform_no_dead_quirk: "\<exists>root. has (classify (from_root root)) q"
proof -
  have "list_all (has (classify (from_root (demo_root ''HPE'' [] [])))) [NoAccountTypeInAccounts,
      RejectsWildcardEtag, SuccessAsExtendedInfoError]"
    by code_simp
  moreover have "list_all (has (classify (from_root (demo_root ''Dell'' [] [])))) [FwInventoryWrongReleaseDate,
      JobLocationInCreateResponse, ComputerSystemsWrongLastResetTime,
      EmptyNetworkAdapterControllers, SseWrongTimestampOffset, InvalidChassisUuidField]"
    by code_simp
  moreover have "list_all (has (classify (from_root (demo_root ''AMI'' [] ''1.11.0'')))) [RejectsOwnEtag,
      InvalidContainedByFields, AnnotatedChassisCertificatesLink, MissingRootNavProperties,
      MissingChassisTypeField, MissingChassisNameField, MissingUpdateServiceNameField,
      CertificateTypeWrongPemChainCase, WrongComputerSystemMembers, WrongManagerMembers,
      ExpandIsNotWorkingProperly, UnadvertisedMultipartHttpPushUri]"
    by code_simp
  moreover have "list_all (has (classify (from_root (demo_root ''Lenovo'' [] []))))
      [PasswordExpirationWithoutSeconds, AnnotationOnlyUpdateReply]"
    by code_simp
  moreover have "list_all (has (classify (from_root (demo_root ''NVIDIA'' ''VR NVL72'' [])))) [SseNoMemberId,
      SseMissingEventType, FilteredLogEntriesCount, SseEmptyLogEntry, SseMissingEnvelopeIds,
      CompositeBootOrderEntries]"
    by code_simp
  moreover have "list_all (has (classify (from_root (demo_root ''Nvidia'' ''BlueField-4'' []))))
      [IncompleteAccountServiceCertificateCollection, EmptyUuidField, DpuOemComputerSystem,
      NullableMembers, UnadvertisedNvidiaChassisReset]"
    by code_simp
  moreover have "list_all (has (classify (from_root (demo_root ''Supermicro'' [] [])))) [AcceptedUpdateWithoutTask,
      AcceptedActionWithoutTask]"
    by code_simp
  moreover have "list_all (has (classify (from_root (demo_root ''LITE-ON TECHNOLOGY'' [] []))))
      [ResetToDefaultsTypeParameter, PowerSupplyLocationIndicatorObject, PowerShelfStates]"
    by code_simp
  ultimately show ?thesis by (cases q) (auto simp del: ex_simps)
qed

end
