(* ===== verification/Quirk_Rules.thy ===== *)
theory Quirk_Rules
  imports Quirk_Platform
begin

text \<open>
  The repair table (\<open>quirks/src/rules.rs\<close>): the rewrites keyed by the type a document's \<open>@odata.type\<close>
  names, and \<open>walk\<close>, which applies to every object of a document the rewrites chosen for it, the object
  before its children. The children are those of the rewritten object, so the recursion is not on the
  document given and need not end for every choice of rewrites: \<open>None\<close> is a walk that does not return. The
  locale \<open>walkable\<close> holds the condition under which it does and what it then gives.
\<close>

section \<open>Type names\<close>

record type_name =
  tn_schema :: string
  tn_name :: string

definition is_version :: "string \<Rightarrow> bool" where
  "is_version segment \<longleftrightarrow>
     (case str_strip_prefix ''v'' segment of
        Some number \<Rightarrow> number \<noteq> [] \<and> is_ascii_digit (hd number) | None \<Rightarrow> False)"

definition type_name_parse :: "string \<Rightarrow> type_name option" where
  "type_name_parse odata_type = do {
     let qualified = (case str_strip_prefix ''#'' odata_type of Some s \<Rightarrow> s | None \<Rightarrow> odata_type);
     (schema, name) \<leftarrow> str_rsplit_once (CHR ''.'') qualified;
     let schema = (case str_rsplit_once (CHR ''.'') schema of
                     Some (before, version) \<Rightarrow> if is_version version then before else schema
                   | None \<Rightarrow> schema);
     (if schema \<noteq> [] \<and> name \<noteq> [] then Some \<lparr>tn_schema = schema, tn_name = name\<rparr> else None)
   }"

definition type_name_of :: "json_map \<Rightarrow> type_name option" where
  "type_name_of obj = do {
     v \<leftarrow> map_of obj ''@odata.type'';
     s \<leftarrow> json_as_str v;
     type_name_parse s
   }"

definition is_named :: "type_name \<Rightarrow> string \<Rightarrow> bool" where
  "is_named t named \<longleftrightarrow>
     (case type_name_parse named of
        None \<Rightarrow> tn_schema t = named \<and> tn_name t = named
      | Some n \<Rightarrow> n = t)"

section \<open>The table\<close>

record repair_rule =
  rr_type :: string
  rr_enabled :: "bmc_quirks \<Rightarrow> bool"
  rr_fix :: json_fix

definition repair_rules :: "text_ops \<Rightarrow> repair_rule list" where
  "repair_rules T = [
    \<lparr>rr_type = ''UpdateService'', rr_enabled = bug_missing_update_service_name_field,
      rr_fix = add_default_update_service_name\<rparr>,
    \<lparr>rr_type = ''UpdateService'', rr_enabled = bug_unadvertised_multipart_http_push_uri,
      rr_fix = advertise_multipart_http_push_uri\<rparr>,
    \<lparr>rr_type = ''SoftwareInventory'', rr_enabled = fw_inventory_wrong_release_date,
      rr_fix = remove_wrong_release_date\<rparr>,
    \<lparr>rr_type = ''Chassis'', rr_enabled = bug_invalid_contained_by_fields,
      rr_fix = remove_invalid_contained_by_fields\<rparr>,
    \<lparr>rr_type = ''Chassis'', rr_enabled = bug_annotated_chassis_certificates_link,
      rr_fix = certificates_as_reference\<rparr>,
    \<lparr>rr_type = ''Chassis'', rr_enabled = bug_missing_chassis_type_field,
      rr_fix = add_default_chassis_type\<rparr>,
    \<lparr>rr_type = ''Chassis'', rr_enabled = bug_missing_chassis_name_field,
      rr_fix = add_default_chassis_name\<rparr>,
    \<lparr>rr_type = ''Chassis'', rr_enabled = bug_invalid_chassis_uuid_field,
      rr_fix = normalize_invalid_uuid_field T\<rparr>,
    \<lparr>rr_type = ''Chassis'', rr_enabled = bug_unadvertised_nvidia_chassis_reset,
      rr_fix = advertise_bluefield_nvidia_chassis_reset\<rparr>,
    \<lparr>rr_type = ''ComputerSystem'', rr_enabled = computer_systems_wrong_last_reset_time,
      rr_fix = remove_wrong_last_reset_time\<rparr>,
    \<lparr>rr_type = ''NetworkAdapter'', rr_enabled = bug_empty_network_adapter_controllers,
      rr_fix = normalize_empty_network_adapter_controllers\<rparr>,
    \<lparr>rr_type = ''ComputerSystem'', rr_enabled = bug_empty_uuid_field,
      rr_fix = normalize_empty_uuid_field\<rparr>,
    \<lparr>rr_type = ''ComputerSystem'', rr_enabled = vera_rubin_composite_boot_order_entries,
      rr_fix = normalize_vera_rubin_composite_boot_order\<rparr>,
    \<lparr>rr_type = ''Chassis'', rr_enabled = bug_power_shelf_states,
      rr_fix = normalize_power_shelf_states\<rparr>,
    \<lparr>rr_type = ''Manager'', rr_enabled = bug_power_shelf_states,
      rr_fix = normalize_power_shelf_states\<rparr>,
    \<lparr>rr_type = ''PowerSupply'', rr_enabled = bug_power_shelf_states,
      rr_fix = normalize_power_shelf_states\<rparr>,
    \<lparr>rr_type = ''ManagerAccount'', rr_enabled = bug_no_account_type_in_accounts,
      rr_fix = append_default_account_type\<rparr>,
    \<lparr>rr_type = ''ManagerAccount'', rr_enabled = bug_password_expiration_without_seconds,
      rr_fix = add_password_expiration_seconds T\<rparr>,
    \<lparr>rr_type = ''AccountService'', rr_enabled = bug_incomplete_account_service_certificate_collection,
      rr_fix = normalize_dpu_certificate_collection_stubs\<rparr>,
    \<lparr>rr_type = ''Certificate'', rr_enabled = certificate_type_wrong_pem_chain_case,
      rr_fix = normalize_pem_chain_type\<rparr>,
    \<lparr>rr_type = ''CertificateCollection'', rr_enabled = certificate_type_wrong_pem_chain_case,
      rr_fix = normalize_pem_chain_type\<rparr>]"

type_synonym enabled = "bool list"

definition enabled_is_empty :: "enabled \<Rightarrow> bool" where
  "enabled_is_empty e \<longleftrightarrow> \<not> (True \<in> set e)"

definition enabled_rules :: "text_ops \<Rightarrow> enabled \<Rightarrow> repair_rule list" where
  "enabled_rules T e = map fst (filter snd (zip (repair_rules T) e))"

definition enabled_for :: "text_ops \<Rightarrow> bmc_quirks \<Rightarrow> enabled" where
  "enabled_for T quirks = map (\<lambda>rule. rr_enabled rule quirks) (repair_rules T)"

section \<open>The walk\<close>

fun try_map :: "('a \<Rightarrow> 'b option) \<Rightarrow> 'a list \<Rightarrow> 'b list option" where
  "try_map f [] = Some []"
| "try_map f (x # xs) = do { y \<leftarrow> f x; ys \<leftarrow> try_map f xs; Some (y # ys) }"

lemma try_map_mono [partial_function_mono]:
  assumes "\<And>x. mono_option (\<lambda>f. C x f)"
  shows "mono_option (\<lambda>f. try_map (\<lambda>x. C x f) xs)"
proof (induction xs)
  case Nil
  show ?case by (simp add: option.const_mono)
next
  case (Cons x xs)
  show ?case by (simp, intro bind_mono assms Cons option.const_mono)
qed

definition apply_fixes :: "json_fix list \<Rightarrow> json \<Rightarrow> json" where
  "apply_fixes fixes v = fold (\<lambda>fix value. fix value) fixes v"

partial_function (option) walk :: "(json_map \<Rightarrow> json_fix list) \<Rightarrow> json \<Rightarrow> json option" where
  "walk pick v =
     (case v of
        JObject obj \<Rightarrow>
          let fixes = pick obj;
              v = (if fixes \<noteq> [] then apply_fixes fixes v else v)
          in (case v of
                JObject members \<Rightarrow> do {
                  members \<leftarrow> try_map (\<lambda>kv. do { child \<leftarrow> walk pick (snd kv); Some (fst kv, child) }) members;
                  Some (JObject members)
                }
              | _ \<Rightarrow> Some v)
      | JArray items \<Rightarrow> do { items \<leftarrow> try_map (\<lambda>item. walk pick item) items; Some (JArray items) }
      | _ \<Rightarrow> Some v)"

definition enabled_pick :: "text_ops \<Rightarrow> enabled \<Rightarrow> json_map \<Rightarrow> json_fix list" where
  "enabled_pick T e obj =
     (case type_name_of obj of
        None \<Rightarrow> []
      | Some t \<Rightarrow> map rr_fix (filter (\<lambda>rule. is_named t (rr_type rule)) (enabled_rules T e)))"

definition enabled_repair :: "text_ops \<Rightarrow> enabled \<Rightarrow> json \<Rightarrow> json option" where
  "enabled_repair T e document =
     (if enabled_is_empty e then Some document else walk (enabled_pick T e) document)"

section \<open>When a walk returns\<close>

text \<open>
  The weight of a document is its depth, where an object counts \<open>bonus\<close> more than one. Rewrites that add
  to the depth of an object's members at most its bonus leave every member lighter than the object was.
\<close>

definition list_max :: "nat list \<Rightarrow> nat" where
  "list_max ns = foldr max ns 0"

lemma list_max_simps [simp]: "list_max [] = 0" "list_max (n # ns) = max n (list_max ns)"
  by (simp_all add: list_max_def)

lemma list_max_le_iff: "list_max ns \<le> b \<longleftrightarrow> (\<forall>n \<in> set ns. n \<le> b)"
  by (induction ns) auto

lemma list_max_ge: "n \<in> set ns \<Longrightarrow> n \<le> list_max ns"
  using list_max_le_iff by blast

fun weight :: "(json_map \<Rightarrow> nat) \<Rightarrow> json \<Rightarrow> nat" where
  "weight bonus (JObject obj) = Suc (bonus obj + list_max (map (\<lambda>kv. weight bonus (snd kv)) obj))"
| "weight bonus (JArray items) = Suc (list_max (map (weight bonus) items))"
| "weight bonus v = 0"

definition members_weight :: "(json_map \<Rightarrow> nat) \<Rightarrow> json \<Rightarrow> nat" where
  "members_weight bonus v =
     (case v of JObject obj \<Rightarrow> list_max (map (\<lambda>kv. weight bonus (snd kv)) obj) | _ \<Rightarrow> 0)"

lemma members_weight_object: "kv \<in> set obj \<Longrightarrow> weight bonus (snd kv) \<le> members_weight bonus (JObject obj)"
  by (auto simp: members_weight_def intro: list_max_ge)

lemma weight_object: "weight bonus (JObject obj) = Suc (bonus obj + members_weight bonus (JObject obj))"
  by (simp add: members_weight_def)

lemma weight_item: "v \<in> set items \<Longrightarrow> weight bonus v < weight bonus (JArray items)"
  by (auto simp: less_Suc_eq_le intro: list_max_ge)

lemma try_map_Some: "(\<And>x. x \<in> set xs \<Longrightarrow> \<exists>y. f x = Some y) \<Longrightarrow> \<exists>ys. try_map f xs = Some ys"
  by (induction xs) force+

lemma try_map_eq_Some: "try_map f xs = Some ys \<longleftrightarrow> list_all2 (\<lambda>x y. f x = Some y) xs ys"
  by (induction xs arbitrary: ys) (auto simp: bind_eq_Some_conv list_all2_Cons1)

text \<open>What a walk makes of an object before it goes into its members.\<close>

definition rewritten :: "(json_map \<Rightarrow> json_fix list) \<Rightarrow> json_map \<Rightarrow> json" where
  "rewritten pick obj = apply_fixes (pick obj) (JObject obj)"

lemma walk_object:
  "walk pick (JObject obj) =
     (case rewritten pick obj of
        JObject members \<Rightarrow> do {
          members \<leftarrow> try_map (\<lambda>kv. do { child \<leftarrow> walk pick (snd kv); Some (fst kv, child) }) members;
          Some (JObject members)
        }
      | v \<Rightarrow> Some v)"
  by (subst walk.simps) (auto simp: rewritten_def apply_fixes_def Let_def split: json.split)

lemma walk_array: "walk pick (JArray items) = do { items \<leftarrow> try_map (walk pick) items; Some (JArray items) }"
  by (subst walk.simps) simp

lemma walk_leaf:
  "walk pick JNull = Some JNull" "walk pick (JBool b) = Some (JBool b)"
  "walk pick (JNumber s) = Some (JNumber s)" "walk pick (JString s) = Some (JString s)"
  by (subst walk.simps, simp)+

lemmas walk_cases [code] = walk_leaf walk_array walk_object

lemma walk_object_members:
  assumes "rewritten pick obj = JObject members" "walk pick (JObject obj) = Some v"
  obtains members' where "v = JObject members'"
    "list_all2 (\<lambda>kv kv'. fst kv' = fst kv \<and> walk pick (snd kv) = Some (snd kv')) members members'"
proof -
  obtain members' where "v = JObject members'"
    "try_map (\<lambda>kv. do { child \<leftarrow> walk pick (snd kv); Some (fst kv, child) }) members = Some members'"
    using assms by (auto simp: walk_object bind_eq_Some_conv)
  then show thesis
    by (intro that [of members']) (auto simp: try_map_eq_Some bind_eq_Some_conv elim!: list_all2_mono)
qed

lemma walk_not_object:
  assumes "json_as_object (rewritten pick obj) = None" "walk pick (JObject obj) = Some v"
  shows "v = rewritten pick obj" "json_get v k = None"
proof -
  obtain r where r: "r = rewritten pick obj" by simp
  from assms show "v = rewritten pick obj"
    unfolding walk_object r [symmetric] by (cases r) simp_all
  with assms show "json_get v k = None"
    unfolding r [symmetric] by (cases r) simp_all
qed

lemma walk_get:
  assumes "walk pick (JObject obj) = Some v"
  shows "json_get v k = json_get (rewritten pick obj) k \<bind> walk pick"
proof (cases "json_as_object (rewritten pick obj)")
  case None
  with walk_not_object [OF None assms] show ?thesis by simp
next
  case (Some members)
  then have members: "rewritten pick obj = JObject members" by (cases "rewritten pick obj") auto
  then obtain members' where v: "v = JObject members'"
    and rel: "list_all2 (\<lambda>kv kv'. fst kv' = fst kv \<and> walk pick (snd kv) = Some (snd kv')) members members'"
    using assms walk_object_members by blast
  from rel have "map_of members' k = map_of members k \<bind> walk pick"
    by (induction members members' rule: list_all2_induct) auto
  with members v show ?thesis by simp
qed

locale walkable =
  fixes pick :: "json_map \<Rightarrow> json_fix list" and bonus :: "json_map \<Rightarrow> nat"
  assumes growth: "members_weight bonus (rewritten pick obj) \<le> members_weight bonus (JObject obj) + bonus obj"
begin

lemma member_lighter:
  assumes "rewritten pick obj = JObject members" "kv \<in> set members"
  shows "weight bonus (snd kv) < weight bonus (JObject obj)"
  using members_weight_object [OF assms(2), of bonus] growth [of obj] assms(1) by (simp add: members_weight_def)

lemma walk_returns: "\<exists>w. walk pick v = Some w"
proof (induction "weight bonus v" arbitrary: v rule: less_induct)
  case less
  show ?case
  proof (cases v)
    case (JObject obj)
    show ?thesis
    proof (cases "rewritten pick obj")
      case members: (JObject members)
      have "\<exists>ms. try_map (\<lambda>kv. do { child \<leftarrow> walk pick (snd kv); Some (fst kv, child) }) members = Some ms"
        by (rule try_map_Some) (use less member_lighter [OF members] JObject in force)
      with JObject members show ?thesis by (auto simp: walk_object)
    qed (use JObject in \<open>auto simp: walk_object\<close>)
  next
    case (JArray items)
    have "\<exists>is. try_map (walk pick) items = Some is"
      by (rule try_map_Some) (use less weight_item JArray in blast)
    with JArray show ?thesis by (auto simp: walk_array)
  qed (auto simp: walk_leaf)
qed

end

text \<open>A document whose objects the rewrites chosen for them leave alone comes back as it is.\<close>

fun objects_in :: "json \<Rightarrow> json_map list" where
  "objects_in (JObject obj) = obj # concat (map (\<lambda>kv. objects_in (snd kv)) obj)"
| "objects_in (JArray items) = concat (map objects_in items)"
| "objects_in v = []"

lemma in_set_concat_objects: "kv \<in> set obj \<Longrightarrow> m \<in> set (objects_in (snd kv)) \<Longrightarrow> m \<in> set (objects_in (JObject obj))"
  by auto

lemma try_map_id: "(\<And>x. x \<in> set xs \<Longrightarrow> f x = Some x) \<Longrightarrow> try_map f xs = Some xs"
  by (induction xs) auto

lemma walk_settled: "(\<And>obj. obj \<in> set (objects_in v) \<Longrightarrow> rewritten pick obj = JObject obj) \<Longrightarrow> walk pick v = Some v"
proof (induction v rule: objects_in.induct)
  case (1 obj)
  then have "rewritten pick obj = JObject obj" by simp
  moreover have "try_map (\<lambda>kv. do { child \<leftarrow> walk pick (snd kv); Some (fst kv, child) }) obj = Some obj"
  proof (rule try_map_id)
    fix kv assume "kv \<in> set obj"
    then have "walk pick (snd kv) = Some (snd kv)" using 1 by (metis (no_types) in_set_concat_objects)
    then show "(do { child \<leftarrow> walk pick (snd kv); Some (fst kv, child) }) = Some kv" by simp
  qed
  ultimately show ?case by (simp add: walk_object)
next
  case (2 items)
  then have "try_map (walk pick) items = Some items" by (intro try_map_id) auto
  then show ?case by (simp add: walk_array)
qed (simp_all add: walk_leaf)

end
