(* ===== verification/Quirk_Growth.thy ===== *)
theory Quirk_Growth
  imports Quirk_Rules
begin

text \<open>
  That the platform's document repairs return for every document. The rewrites of the table are brought to
  the form of edits of an object; such an edit deepens the members of an object by at most three levels,
  which gives the condition of the locale \<open>walkable\<close> for every set of enabled rules.
\<close>

section \<open>The rewrites as edits of an object\<close>

lemma power_shelf_form:
  "normalize_power_shelf_states v =
     on_object (obj_modify ''Status'' (on_object (obj_modify ''State''
       (\<lambda>state. if json_as_str state = Some ''Standby'' then JString ''StandbySpare''
                else if json_as_str state = Some ''Sleep'' then JString ''StandbyOffline''
                else state)))) v"
proof -
  have tokens: "pointer_tokens ''/Status/State'' = Some [''Status'', ''State'']" by code_simp
  have index: "parse_index ''Status'' = None" "parse_index ''State'' = None" by code_simp+
  have here: "json_modify_at [] f = f" for f by (rule ext) simp
  have inner: "json_modify_at [''State''] f = on_object (obj_modify ''State'' f)" for f
  proof
    show "json_modify_at [''State''] f w = on_object (obj_modify ''State'' f) w" for w
      using index by (cases w) (simp_all add: here)
  qed
  show ?thesis
    unfolding normalize_power_shelf_states_def json_pointer_modify_def tokens option.case
    using index by (cases v) (simp_all add: inner)
qed

definition push_uri_edit :: "json_map \<Rightarrow> json_map" where
  "push_uri_edit m =
     (if (case map_of m ''MultipartHttpPushUri'' \<bind> json_as_str of
            Some uri \<Rightarrow> str_trim uri \<noteq> [] | None \<Rightarrow> False) then m
      else case map_of m ''@odata.id'' \<bind> json_as_str of
             None \<Rightarrow> m
           | Some service \<Rightarrow>
               obj_insert ''MultipartHttpPushUri''
                 (JString (str_trim_end_matches (CHR ''/'') service @ ''/upload'')) m)"

definition reset_edit :: "string \<Rightarrow> json_map \<Rightarrow> json_map" where
  "reset_edit target =
     obj_modify ''Actions''
       (on_object
          (obj_modify ''Oem''
             (on_object (obj_or_insert ''#NvidiaChassis.Reset'' (JObject [(''target'', JString target)])))
           \<circ> obj_or_insert ''Oem'' (JObject [])))
     \<circ> obj_or_insert ''Actions'' (JObject [])"

definition bluefield_edit :: "json_map \<Rightarrow> json_map" where
  "bluefield_edit m =
     (case (map_of m ''Id'' \<bind> json_as_str, map_of m ''@odata.id'' \<bind> json_as_str) of
        (Some i, Some chassis_id) \<Rightarrow>
          if i = ''BlueField_0'' then reset_edit (chassis_id @ ''/Actions/Oem/NvidiaChassis.Reset'') m else m
      | _ \<Rightarrow> m)"

lemma push_uri_form: "advertise_multipart_http_push_uri v = on_object push_uri_edit v"
  by (cases v) (auto simp: advertise_multipart_http_push_uri_def push_uri_edit_def Let_def split: option.splits)

lemma bluefield_form: "advertise_bluefield_nvidia_chassis_reset v = on_object bluefield_edit v"
  by (cases v) (auto simp: advertise_bluefield_nvidia_chassis_reset_def bluefield_edit_def reset_edit_def
      Let_def split: option.splits)

definition remove_when :: "string \<Rightarrow> (json \<Rightarrow> bool) \<Rightarrow> json_map \<Rightarrow> json_map" where
  "remove_when k p m = (case map_of m k of Some v \<Rightarrow> if p v then obj_remove k m else m | None \<Rightarrow> m)"

lemma default_forms:
  "add_default_update_service_name v = on_object (obj_or_insert ''Name'' (JString ''Unnamed update service'')) v"
  "add_default_chassis_type v = on_object (obj_or_insert ''ChassisType'' (JString ''Other'')) v"
  "add_default_chassis_name v = on_object (obj_or_insert ''Name'' (JString ''Unnamed chassis'')) v"
  "append_default_account_type v = on_object (obj_or_insert ''AccountTypes'' (JArray [JString ''Redfish''])) v"
  by (cases v; simp add: add_default_update_service_name_def add_default_chassis_type_def
      add_default_chassis_name_def append_default_account_type_def)+

lemma release_date_form:
  "remove_wrong_release_date v =
     on_object (remove_when ''ReleaseDate'' (\<lambda>d. d = JString ''00:00:00Z'' \<or> d = JString ''0000-00-00T00:00:00Z'')) v"
  by (cases v) (simp_all add: remove_wrong_release_date_def remove_when_def split: option.split json.split)

lemma last_reset_time_form:
  "remove_wrong_last_reset_time v =
     on_object (remove_when ''LastResetTime''
       (\<lambda>d. case json_as_str d of Some s \<Rightarrow> prefix ''0000-00-00'' s | None \<Rightarrow> False)) v"
  by (cases v) (simp_all add: remove_wrong_last_reset_time_def remove_when_def split: option.split json.split)

lemma password_expiration_form:
  "add_password_expiration_seconds T v =
     on_object (obj_modify ''PasswordExpiration'' (\<lambda>d. case d of
       JString date \<Rightarrow> (case with_seconds T date of Some fixed \<Rightarrow> JString fixed | None \<Rightarrow> d) | _ \<Rightarrow> d)) v"
  by (cases v) (simp_all add: add_password_expiration_seconds_def)

lemma modify_when:
  "obj_modify k (\<lambda>v. if v = old then new else v) m = (if map_of m k = Some old then obj_insert k new m else m)"
  by (induction m) (auto simp: obj_modify_def obj_insert_def)

lemma pem_chain_form:
  "normalize_pem_chain_type v =
     on_object (obj_modify ''CertificateType'' (\<lambda>t. if t = JString ''PEMChain'' then JString ''PEMchain'' else t)) v"
  by (cases v) (simp_all add: normalize_pem_chain_type_def modify_when bind_eq_Some_conv)

lemma controllers_form:
  "normalize_empty_network_adapter_controllers v =
     on_object (obj_modify ''Controllers'' (\<lambda>c. if c = JObject [] then JArray [] else c)) v"
  by (cases v) (simp_all add: normalize_empty_network_adapter_controllers_def modify_when)

lemmas fix_forms = default_forms release_date_form last_reset_time_form password_expiration_form
  pem_chain_form controllers_form push_uri_form bluefield_form power_shelf_form
  remove_invalid_contained_by_fields_def certificates_as_reference_def normalize_empty_uuid_field_def
  normalize_invalid_uuid_field_def normalize_vera_rubin_composite_boot_order_def

section \<open>How far a rewrite deepens a document\<close>

definition typed_bonus :: "nat \<Rightarrow> json_map \<Rightarrow> nat" where
  "typed_bonus b obj = (if obj_contains_key obj ''@odata.type'' then b else 0)"

definition fix_grows :: "nat \<Rightarrow> nat \<Rightarrow> json_fix \<Rightarrow> bool" where
  "fix_grows b n f \<longleftrightarrow> (\<forall>v. weight (typed_bonus b) (f v) \<le> weight (typed_bonus b) v + n)"

definition edit_grows :: "nat \<Rightarrow> nat \<Rightarrow> (json_map \<Rightarrow> json_map) \<Rightarrow> bool" where
  "edit_grows b n g \<longleftrightarrow>
     (\<forall>m. members_weight (typed_bonus b) (JObject (g m)) \<le> members_weight (typed_bonus b) (JObject m) + n \<and>
          typed_bonus b (g m) \<le> typed_bonus b m)"

named_theorems grows \<open>how far edits deepen a document\<close>

lemma members_weight_le:
  "members_weight b (JObject m) \<le> n \<longleftrightarrow> (\<forall>kv \<in> set m. weight b (snd kv) \<le> n)"
  by (auto simp: members_weight_def list_max_le_iff)

lemma members_weight_mono:
  assumes "\<And>kv. kv \<in> set m' \<Longrightarrow> \<exists>kv' \<in> set m. weight b (snd kv) \<le> weight b (snd kv') + n"
  shows "members_weight b (JObject m') \<le> members_weight b (JObject m) + n"
  unfolding members_weight_le
proof
  fix kv assume "kv \<in> set m'"
  from assms [OF this] obtain kv' where "kv' \<in> set m" "weight b (snd kv) \<le> weight b (snd kv') + n" by blast
  with members_weight_object [of kv' m b] show "weight b (snd kv) \<le> members_weight b (JObject m) + n" by simp
qed

lemma edit_grows_id [grows]: "edit_grows b n (\<lambda>m. m)"
  by (simp add: edit_grows_def)

lemma edit_grows_remove [grows]: "edit_grows b n (obj_remove k)"
  unfolding edit_grows_def
proof (intro allI conjI)
  show "members_weight (typed_bonus b) (JObject (obj_remove k m)) \<le> members_weight (typed_bonus b) (JObject m) + n" for m
    by (rule members_weight_mono) (use obj_value_sub(1) in force)
  show "typed_bonus b (obj_remove k m) \<le> typed_bonus b m" for m
    by (auto simp: typed_bonus_def obj_contains_key_def obj_simps)
qed

lemma edit_grows_retain [grows]: "edit_grows b n (obj_retain p)"
  unfolding edit_grows_def
proof (intro allI conjI)
  show "members_weight (typed_bonus b) (JObject (obj_retain p m)) \<le> members_weight (typed_bonus b) (JObject m) + n" for m
    by (rule members_weight_mono) (use obj_value_sub(2) in force)
  show "typed_bonus b (obj_retain p m) \<le> typed_bonus b m" for m
    by (auto simp: typed_bonus_def obj_contains_key_def obj_simps)
qed

lemma edit_grows_insert [grows]:
  assumes "k \<noteq> ''@odata.type''" "weight (typed_bonus b) w \<le> n"
  shows "edit_grows b n (obj_insert k w)"
  unfolding edit_grows_def
proof (intro allI conjI)
  fix m
  have "weight (typed_bonus b) (snd kv) \<le> members_weight (typed_bonus b) (JObject m) + n"
    if "kv \<in> set (obj_insert k w m)" for kv
    using obj_value_insert [OF that] assms(2) members_weight_object [of kv m "typed_bonus b"] by auto
  then show "members_weight (typed_bonus b) (JObject (obj_insert k w m)) \<le> members_weight (typed_bonus b) (JObject m) + n"
    by (simp add: members_weight_le)
  show "typed_bonus b (obj_insert k w m) \<le> typed_bonus b m"
    using assms(1) by (auto simp: typed_bonus_def obj_contains_key_def obj_simps)
qed

lemma edit_grows_if [grows]:
  "edit_grows b n g \<Longrightarrow> edit_grows b n h \<Longrightarrow> edit_grows b n (\<lambda>m. if p m then g m else h m)"
  by (simp add: edit_grows_def)

lemma edit_grows_case [grows]:
  "edit_grows b n g \<Longrightarrow> (\<And>x. edit_grows b n (h x)) \<Longrightarrow>
   edit_grows b n (\<lambda>m. case p m of None \<Rightarrow> g m | Some x \<Rightarrow> h x m)"
  by (auto simp: edit_grows_def split: option.split)

lemma edit_grows_or_insert [grows]:
  "k \<noteq> ''@odata.type'' \<Longrightarrow> weight (typed_bonus b) w \<le> n \<Longrightarrow> edit_grows b n (obj_or_insert k w)"
  using edit_grows_insert [of k b w n] by (simp add: edit_grows_def obj_or_insert_def)

lemma edit_grows_modify [grows]:
  assumes "fix_grows b n f"
  shows "edit_grows b n (obj_modify k f)"
  unfolding edit_grows_def
proof (intro allI conjI)
  show "members_weight (typed_bonus b) (JObject (obj_modify k f m)) \<le> members_weight (typed_bonus b) (JObject m) + n" for m
  proof (rule members_weight_mono)
    fix kv assume "kv \<in> set (obj_modify k f m)"
    then show "\<exists>kv' \<in> set m. weight (typed_bonus b) (snd kv) \<le> weight (typed_bonus b) (snd kv') + n"
      using obj_value_modify [of kv k f m] assms by (force simp: fix_grows_def)
  qed
  show "typed_bonus b (obj_modify k f m) \<le> typed_bonus b m" for m
    by (auto simp: typed_bonus_def obj_contains_key_def obj_simps)
qed

lemma edit_grows_comp [grows]:
  assumes "edit_grows b n g" "edit_grows b n' h"
  shows "edit_grows b (n + n') (g \<circ> h)"
  unfolding edit_grows_def
proof
  fix m
  from assms(1) have "members_weight (typed_bonus b) (JObject (g (h m))) \<le> members_weight (typed_bonus b) (JObject (h m)) + n"
    "typed_bonus b (g (h m)) \<le> typed_bonus b (h m)" by (auto simp: edit_grows_def)
  moreover from assms(2) have "members_weight (typed_bonus b) (JObject (h m)) \<le> members_weight (typed_bonus b) (JObject m) + n'"
    "typed_bonus b (h m) \<le> typed_bonus b m" by (auto simp: edit_grows_def)
  ultimately show "members_weight (typed_bonus b) (JObject ((g \<circ> h) m)) \<le> members_weight (typed_bonus b) (JObject m) + (n + n') \<and>
    typed_bonus b ((g \<circ> h) m) \<le> typed_bonus b m" by simp
qed

lemma fix_grows_on_object [grows]:
  assumes "edit_grows b n g"
  shows "fix_grows b n (on_object g)"
  unfolding fix_grows_def
proof
  fix v
  show "weight (typed_bonus b) (on_object g v) \<le> weight (typed_bonus b) v + n"
  proof (cases v)
    case (JObject m)
    from assms have "members_weight (typed_bonus b) (JObject (g m)) \<le> members_weight (typed_bonus b) (JObject m) + n"
      "typed_bonus b (g m) \<le> typed_bonus b m" by (auto simp: edit_grows_def)
    with JObject show ?thesis by (simp add: weight_object del: weight.simps)
  qed simp_all
qed

lemma members_grow_on_object:
  "edit_grows b n g \<Longrightarrow>
   members_weight (typed_bonus b) (on_object g v) \<le> members_weight (typed_bonus b) v + n"
  by (cases v) (simp_all add: edit_grows_def)

lemma fix_grows_small:
  "(\<And>v. f v = v \<or> weight (typed_bonus b) (f v) \<le> n) \<Longrightarrow> fix_grows b n f"
  unfolding fix_grows_def by (metis le_add2 le_add1 le_trans add.commute)

lemma edit_grows_remove_when [grows]: "edit_grows b n (remove_when k p)"
  unfolding remove_when_def by (intro grows)

lemma edit_grows_mono: "edit_grows b n g \<Longrightarrow> n \<le> n' \<Longrightarrow> edit_grows b n' g"
  unfolding edit_grows_def by (meson add_left_mono le_trans)

lemma push_uri_edit_grows: "edit_grows b 3 push_uri_edit"
  unfolding push_uri_edit_def by (intro grows) simp_all

lemma reset_edit_grows: "edit_grows b 3 (reset_edit target)"
proof -
  let ?oem = "on_object (obj_or_insert ''#NvidiaChassis.Reset'' (JObject [(''target'', JString target)]))"
  have "weight (typed_bonus b) (JObject [(''target'', JString target)]) = 1"
    by (simp add: typed_bonus_def obj_contains_key_def)
  then have "edit_grows b (1 + 1) (obj_modify ''Oem'' ?oem \<circ> obj_or_insert ''Oem'' (JObject []))"
    by (intro grows) (simp_all add: typed_bonus_def obj_contains_key_def)
  then have "edit_grows b (1 + 1 + 1) (reset_edit target)"
    unfolding reset_edit_def by (intro grows) (simp_all add: typed_bonus_def obj_contains_key_def)
  then show ?thesis by (rule edit_grows_mono) simp
qed

lemma bluefield_edit_grows: "edit_grows b 3 bluefield_edit"
proof -
  have "edit_grows b 3 (\<lambda>m. case map_of m ''Id'' \<bind> json_as_str of
      None \<Rightarrow> m
    | Some i \<Rightarrow> (case map_of m ''@odata.id'' \<bind> json_as_str of
        None \<Rightarrow> m
      | Some chassis_id \<Rightarrow>
          if i = ''BlueField_0'' then reset_edit (chassis_id @ ''/Actions/Oem/NvidiaChassis.Reset'') m else m))"
    by (intro grows reset_edit_grows)
  moreover have "bluefield_edit = (\<lambda>m. case map_of m ''Id'' \<bind> json_as_str of
      None \<Rightarrow> m
    | Some i \<Rightarrow> (case map_of m ''@odata.id'' \<bind> json_as_str of
        None \<Rightarrow> m
      | Some chassis_id \<Rightarrow>
          if i = ''BlueField_0'' then reset_edit (chassis_id @ ''/Actions/Oem/NvidiaChassis.Reset'') m else m))"
    by (rule ext) (simp add: bluefield_edit_def split: option.split)
  ultimately show ?thesis by simp
qed

lemma boot_order_grows:
  "fix_grows b 3 (\<lambda>boot_order. case boot_order of
     JArray entries \<Rightarrow>
       JArray (map (\<lambda>entry. case entry of
         JString entry \<Rightarrow> JString (vera_rubin_boot_order_entry_reference entry) | _ \<Rightarrow> entry) entries)
   | _ \<Rightarrow> boot_order)"
proof -
  have "weight (typed_bonus b) \<circ> (\<lambda>entry. case entry of
      JString entry \<Rightarrow> JString (vera_rubin_boot_order_entry_reference entry) | _ \<Rightarrow> entry) = weight (typed_bonus b)"
    by (rule ext) (simp split: json.split)
  then show ?thesis by (auto simp: fix_grows_def split: json.split)
qed

lemma list_max_map_mono: "(\<And>x. x \<in> set xs \<Longrightarrow> f x \<le> g x) \<Longrightarrow> list_max (map f xs) \<le> list_max (map g xs)"
  by (induction xs) force+

lemma weight_normalize_stubs: "weight (typed_bonus b) (normalize_stubs v) \<le> weight (typed_bonus b) v"
proof (induction v rule: normalize_stubs.induct)
  case (1 obj)
  show ?case
  proof (cases "stub_reference obj")
    case None
    have "list_max (map (\<lambda>kv. weight (typed_bonus b) (normalize_stubs (snd kv))) obj)
      \<le> list_max (map (\<lambda>kv. weight (typed_bonus b) (snd kv)) obj)"
      using 1 None by (intro list_max_map_mono) simp
    moreover have "typed_bonus b (map (\<lambda>kv. (fst kv, normalize_stubs (snd kv))) obj) = typed_bonus b obj"
      using obj_get_map_values [of normalize_stubs obj "''@odata.type''"]
      by (simp add: obj_map_values_def typed_bonus_def obj_contains_key_def)
    ultimately show ?thesis
      using None by (simp add: comp_def)
  next
    case (Some odata_id)
    then have "(''@odata.id'', odata_id) \<in> set obj"
      by (auto simp: stub_reference_def split: if_splits dest: map_of_SomeD)
    from list_max_ge [of "weight (typed_bonus b) odata_id" "map (\<lambda>kv. weight (typed_bonus b) (snd kv)) obj"] this
    have "weight (typed_bonus b) odata_id \<le> list_max (map (\<lambda>kv. weight (typed_bonus b) (snd kv)) obj)"
      by force
    moreover have "typed_bonus b [(''@odata.id'', odata_id)] = 0"
      by (simp add: typed_bonus_def obj_contains_key_def)
    ultimately show ?thesis using Some by (simp add: obj_insert_def)
  qed
next
  case (2 items)
  have "list_max (map (\<lambda>v. weight (typed_bonus b) (normalize_stubs v)) items)
    \<le> list_max (map (weight (typed_bonus b)) items)"
    using 2 by (intro list_max_map_mono) simp
  then show ?case by (simp add: comp_def)
qed simp_all

text \<open>The rewrites of the table deepen the members of an object by at most three levels.\<close>

definition tame_growth :: "nat \<Rightarrow> json_fix \<Rightarrow> bool" where
  "tame_growth b f \<longleftrightarrow>
     (\<forall>v. members_weight (typed_bonus b) (f v) \<le> members_weight (typed_bonus b) v + 3)"

lemma tame_growth_on_object: "edit_grows b 3 g \<Longrightarrow> (\<And>v. f v = on_object g v) \<Longrightarrow> tame_growth b f"
  by (simp add: tame_growth_def members_grow_on_object)

lemma tame_growth_modify: "fix_grows b 3 h \<Longrightarrow> (\<And>v. f v = on_object (obj_modify k h) v) \<Longrightarrow> tame_growth b f"
  by (blast intro: tame_growth_on_object edit_grows_modify)

lemma tame_growth_defaults:
  "tame_growth b add_default_update_service_name" "tame_growth b add_default_chassis_type"
  "tame_growth b add_default_chassis_name" "tame_growth b append_default_account_type"
  by (rule tame_growth_on_object [OF _ fix_forms(1)] tame_growth_on_object [OF _ fix_forms(2)]
      tame_growth_on_object [OF _ fix_forms(3)] tame_growth_on_object [OF _ fix_forms(4)],
      intro grows; simp)+

lemma tame_growth_removals:
  "tame_growth b remove_wrong_release_date" "tame_growth b remove_wrong_last_reset_time"
  by (rule tame_growth_on_object [OF _ release_date_form] tame_growth_on_object [OF _ last_reset_time_form], intro grows)+

lemma tame_growth_links:
  "tame_growth b remove_invalid_contained_by_fields" "tame_growth b certificates_as_reference"
  by (rule tame_growth_on_object [OF _ remove_invalid_contained_by_fields_def]
      tame_growth_on_object [OF _ certificates_as_reference_def], intro grows)+

lemma tame_growth_values:
  "tame_growth b normalize_empty_uuid_field" "tame_growth b (normalize_invalid_uuid_field T)"
  "tame_growth b normalize_pem_chain_type" "tame_growth b normalize_empty_network_adapter_controllers"
  "tame_growth b (add_password_expiration_seconds T)"
  by (rule tame_growth_modify [OF fix_grows_small normalize_empty_uuid_field_def]
      tame_growth_modify [OF fix_grows_small normalize_invalid_uuid_field_def]
      tame_growth_modify [OF fix_grows_small pem_chain_form]
      tame_growth_modify [OF fix_grows_small controllers_form]
      tame_growth_modify [OF fix_grows_small password_expiration_form];
      simp split: option.split json.split)+

lemma tame_growth_nested:
  "tame_growth b normalize_vera_rubin_composite_boot_order" "tame_growth b normalize_power_shelf_states"
  "tame_growth b advertise_multipart_http_push_uri" "tame_growth b advertise_bluefield_nvidia_chassis_reset"
proof -
  show "tame_growth b normalize_vera_rubin_composite_boot_order"
    by (rule tame_growth_on_object [OF _ normalize_vera_rubin_composite_boot_order_def])
      (intro grows boot_order_grows)
  show "tame_growth b normalize_power_shelf_states"
    by (rule tame_growth_on_object [OF _ power_shelf_form]) (intro grows fix_grows_small, simp)
  show "tame_growth b advertise_multipart_http_push_uri"
    by (rule tame_growth_on_object [OF push_uri_edit_grows push_uri_form])
  show "tame_growth b advertise_bluefield_nvidia_chassis_reset"
    by (rule tame_growth_on_object [OF bluefield_edit_grows bluefield_form])
qed

lemma tame_growth_stubs: "tame_growth b normalize_dpu_certificate_collection_stubs"
proof -
  have "members_weight (typed_bonus b) (normalize_stubs v) \<le> members_weight (typed_bonus b) v" for v
  proof (cases v)
    case (JObject obj)
    show ?thesis
    proof (cases "stub_reference obj")
      case None
      with JObject show ?thesis
        by (simp add: members_weight_def comp_def list_max_map_mono weight_normalize_stubs)
    next
      case (Some odata_id)
      then have "(''@odata.id'', odata_id) \<in> set obj"
        by (auto simp: stub_reference_def split: if_splits dest: map_of_SomeD)
      from members_weight_object [OF this, of "typed_bonus b"] JObject Some show ?thesis
        by (simp add: members_weight_le obj_insert_def)
    qed
  qed (simp_all add: members_weight_def)
  then show ?thesis
    by (simp add: tame_growth_def normalize_dpu_certificate_collection_stubs_def le_SucI trans_le_add1)
qed

lemmas tame_growths = tame_growth_defaults tame_growth_removals tame_growth_links tame_growth_values
  tame_growth_nested tame_growth_stubs

lemma repair_rules_grow: "rule \<in> set (repair_rules T) \<Longrightarrow> tame_growth b (rr_fix rule)"
  by (auto simp: repair_rules_def tame_growths)

lemma apply_fixes_grow:
  assumes "\<And>f. f \<in> set fs \<Longrightarrow> tame_growth b f"
  shows "members_weight (typed_bonus b) (apply_fixes fs v) \<le> members_weight (typed_bonus b) v + 3 * length fs"
  using assms
proof (induction fs arbitrary: v)
  case (Cons f fs)
  from Cons.prems have "members_weight (typed_bonus b) (f v) \<le> members_weight (typed_bonus b) v + 3"
    by (simp add: tame_growth_def)
  with Cons.IH [of "f v"] Cons.prems show ?case by (force simp: apply_fixes_def)
qed (simp add: apply_fixes_def)

lemma enabled_rules_sub: "set (enabled_rules T e) \<subseteq> set (repair_rules T)"
  by (auto simp: enabled_rules_def dest: set_zip_leftD)

lemma length_enabled_pick: "length (enabled_pick T e obj) \<le> length (repair_rules T)"
proof -
  have "length (enabled_rules T e) \<le> length (repair_rules T)"
    unfolding enabled_rules_def by (simp add: order_trans [OF length_filter_le])
  then show ?thesis
    by (auto simp: enabled_pick_def split: option.split intro: order_trans [OF length_filter_le])
qed

lemma enabled_pick_sub: "f \<in> set (enabled_pick T e obj) \<Longrightarrow> \<exists>rule \<in> set (repair_rules T). f = rr_fix rule"
  using enabled_rules_sub by (auto simp: enabled_pick_def split: option.splits)

lemma enabled_pick_typed: "enabled_pick T e obj \<noteq> [] \<Longrightarrow> obj_contains_key obj ''@odata.type''"
  by (auto simp: enabled_pick_def type_name_of_def obj_contains_key_def bind_eq_Some_conv split: option.splits)

interpretation platform_walk: walkable "enabled_pick T e" "typed_bonus (3 * length (repair_rules T))" for T e
proof
  fix obj
  let ?b = "3 * length (repair_rules T)"
  show "members_weight (typed_bonus ?b) (rewritten (enabled_pick T e) obj)
    \<le> members_weight (typed_bonus ?b) (JObject obj) + typed_bonus ?b obj"
  proof (cases "enabled_pick T e obj = []")
    case True
    then show ?thesis by (simp add: rewritten_def apply_fixes_def)
  next
    case False
    have "members_weight (typed_bonus ?b) (rewritten (enabled_pick T e) obj)
      \<le> members_weight (typed_bonus ?b) (JObject obj) + 3 * length (enabled_pick T e obj)"
      unfolding rewritten_def
      by (rule apply_fixes_grow) (use enabled_pick_sub repair_rules_grow in blast)
    with length_enabled_pick [of T e obj] enabled_pick_typed [OF False] show ?thesis
      by (simp add: typed_bonus_def)
  qed
qed

end
