(* ===== verification/Quirk_Contract.thy ===== *)
theory Quirk_Contract
  imports Quirk_Growth
begin

text \<open>
  The contract the rewrites of the table share, as the locale \<open>table_fix\<close> with an interpretation per
  rewrite: a rewrite changes one member, is settled once applied, and stays settled while the members it
  reads do and while a walk goes into the object. The locale \<open>value_fix\<close> is the contract of a change of
  one value, from which a rewrite of one member gets its own, and \<open>tame_pick\<close> what a walk keeps when the
  rewrites chosen change only the members the table names.
\<close>

section \<open>What a walk keeps\<close>

text \<open>The members the rewrites of the table change; all but the last rewrite of stubs change no other.\<close>

definition touched_keys :: "string list" where
  "touched_keys = [''Name'', ''MultipartHttpPushUri'', ''ReleaseDate'', ''Links'', ''Certificates'',
     ''ChassisType'', ''UUID'', ''Actions'', ''LastResetTime'', ''Controllers'', ''Boot'', ''Status'',
     ''AccountTypes'', ''PasswordExpiration'', ''CertificateType'']"

lemma touched_keys_type: "''@odata.type'' \<notin> set touched_keys" "''@odata.id'' \<notin> set touched_keys"
  by (simp_all add: touched_keys_def)

locale tame_pick =
  fixes pick :: "json_map \<Rightarrow> json_fix list"
  assumes object: "\<exists>m. rewritten pick obj = JObject m \<and> (\<forall>j. j \<notin> set touched_keys \<longrightarrow> map_of m j = map_of obj j)"
    and typed: "pick obj \<noteq> [] \<Longrightarrow> obj_contains_key obj ''@odata.type''"
begin

lemma rewritten_object:
  obtains m where "rewritten pick obj = JObject m" "\<And>j. j \<notin> set touched_keys \<Longrightarrow> map_of m j = map_of obj j"
  using object by blast

lemma walk_object_is_object:
  assumes "walk pick (JObject obj) = Some w"
  obtains m where "w = JObject m"
  using assms rewritten_object [of obj] walk_object_members by metis

lemma walk_str: "walk pick v = Some w \<Longrightarrow> json_as_str w = json_as_str v"
  by (cases v) (auto simp: walk_leaf walk_array bind_eq_Some_conv elim: walk_object_is_object)

lemma walk_string: "walk pick v = Some (JString s) \<longleftrightarrow> v = JString s"
  by (metis json_as_str.simps(1) json_as_str_Some walk_leaf(4) walk_str)

lemma walk_to_object: "walk pick v = Some (JObject m) \<Longrightarrow> \<exists>obj. v = JObject obj"
  by (cases v) (auto simp: walk_leaf walk_array bind_eq_Some_conv)

lemma walk_to_array:
  assumes "walk pick v = Some (JArray ws)"
  obtains vs where "v = JArray vs" "list_all2 (\<lambda>v w. walk pick v = Some w) vs ws"
  using assms
  by (cases v) (auto simp: walk_leaf walk_array bind_eq_Some_conv try_map_eq_Some elim: walk_object_is_object)

lemma walk_key:
  assumes "walk pick (JObject obj) = Some (JObject m)" "j \<notin> set touched_keys"
  shows "map_of m j = map_of obj j \<bind> walk pick"
  using walk_get [OF assms(1), of j] rewritten_object [of obj] assms(2) by (metis json_get.simps(1))

lemma walk_key_kept:
  assumes "walk pick (JObject obj) = Some (JObject m)" "j \<notin> set touched_keys"
  shows "map_of m j = None \<longleftrightarrow> map_of obj j = None"
proof -
  obtain members where r: "rewritten pick obj = JObject members" "map_of members j = map_of obj j"
    using rewritten_object [of obj] assms(2) by metis
  obtain m' where "JObject m = JObject m'"
    "list_all2 (\<lambda>kv kv'. fst kv' = fst kv \<and> walk pick (snd kv) = Some (snd kv')) members m'"
    using walk_object_members [OF r(1) assms(1)] by blast
  then have "map fst m = map fst members"
    by (auto simp: list_all2_conv_all_nth intro!: nth_equalityI)
  then have "fst ` set m = fst ` set members" by (metis list.set_map)
  with r(2) show ?thesis by (metis map_of_eq_None_iff)
qed

lemma walk_untyped_keys:
  assumes "walk pick (JObject obj) = Some (JObject m)" "\<not> obj_contains_key obj ''@odata.type''"
  shows "map fst m = map fst obj"
proof -
  have "pick obj = []" using typed assms(2) by blast
  then have r: "rewritten pick obj = JObject obj" by (simp add: rewritten_def apply_fixes_def)
  obtain m' where "JObject m = JObject m'"
    "list_all2 (\<lambda>kv kv'. fst kv' = fst kv \<and> walk pick (snd kv) = Some (snd kv')) obj m'"
    using walk_object_members [OF r assms(1)] by blast
  then show ?thesis
    by (auto simp: list_all2_conv_all_nth intro!: nth_equalityI)
qed

lemma walk_to_empty: assumes "walk pick v = Some (JObject [])" shows "v = JObject []"
proof -
  obtain obj where v: "v = JObject obj" using walk_to_object assms by blast
  have "\<not> obj_contains_key obj ''@odata.type''"
  proof
    assume "obj_contains_key obj ''@odata.type''"
    then obtain t where t: "map_of obj ''@odata.type'' = Some t" by (auto simp: obj_contains_key_def)
    obtain members where r: "rewritten pick obj = JObject members"
      "map_of members ''@odata.type'' = map_of obj ''@odata.type''"
      using rewritten_object [of obj] by (metis touched_keys_type)
    from walk_object_members [OF r(1) assms [unfolded v]] have "members = []" by auto
    with r(2) t show False by simp
  qed
  from walk_untyped_keys [OF assms [unfolded v] this] v show ?thesis by simp
qed

end

section \<open>The contract of a rewrite\<close>

text \<open>
  A rewrite changes one member of an object, is settled once applied, and stays settled when members it
  does not read change and when the object's members are themselves walked.
\<close>

locale table_fix =
  fixes rewrite :: json_fix and key :: string and reads :: "string set"
  assumes one_member: "\<exists>m'. rewrite (JObject m) = JObject m' \<and> (\<forall>j. j \<noteq> key \<longrightarrow> map_of m' j = map_of m j)"
    and settles: "rewrite (rewrite (JObject m)) = rewrite (JObject m)"
    and reads_only: "rewrite (JObject m) = JObject m \<Longrightarrow> \<forall>j \<in> reads. map_of m' j = map_of m j \<Longrightarrow>
      rewrite (JObject m') = JObject m'"
    and survives: "tame_pick pick \<Longrightarrow> rewrite (JObject m) = JObject m \<Longrightarrow>
      (\<And>j. map_of m' j = map_of m j \<bind> walk pick) \<Longrightarrow> (\<And>v. \<exists>w. walk pick v = Some w) \<Longrightarrow>
      rewrite (JObject m') = JObject m'"

locale value_fix =
  fixes change :: json_fix
  assumes idem: "change (change v) = change v"
    and walked: "tame_pick pick \<Longrightarrow> change v = v \<Longrightarrow> walk pick v = Some w \<Longrightarrow> change w = w"

sublocale value_fix \<subseteq> member: table_fix "on_object (obj_modify k change)" k "{k}" for k
proof
  fix m m' pick
  show "\<exists>m'. on_object (obj_modify k change) (JObject m) = JObject m' \<and> (\<forall>j. j \<noteq> k \<longrightarrow> map_of m' j = map_of m j)"
    by (simp add: obj_simps)
  show "on_object (obj_modify k change) (on_object (obj_modify k change) (JObject m)) = on_object (obj_modify k change) (JObject m)"
    by (auto simp: edit_fixed obj_simps idem)
  show "on_object (obj_modify k change) (JObject m') = JObject m'"
    if "on_object (obj_modify k change) (JObject m) = JObject m" "\<forall>j \<in> {k}. map_of m' j = map_of m j"
    using that by (auto simp: edit_fixed)
  show "on_object (obj_modify k change) (JObject m') = JObject m'"
    if "tame_pick pick" "on_object (obj_modify k change) (JObject m) = JObject m"
      "\<And>j. map_of m' j = map_of m j \<bind> walk pick"
    using that by (auto simp: edit_fixed bind_eq_Some_conv intro: walked)
qed

context value_fix
begin

lemma as_table_fix: "table_fix (on_object (obj_modify k change)) k {k}"
  by (rule member.table_fix_axioms)

end

interpretation or_insert: table_fix "on_object (obj_or_insert k w)" k "{k}" for k w
proof
  fix m m' pick
  show "\<exists>m'. on_object (obj_or_insert k w) (JObject m) = JObject m' \<and> (\<forall>j. j \<noteq> k \<longrightarrow> map_of m' j = map_of m j)"
    by (simp add: obj_simps)
  show "on_object (obj_or_insert k w) (on_object (obj_or_insert k w) (JObject m)) = on_object (obj_or_insert k w) (JObject m)"
    by (simp add: edit_fixed obj_simps)
  show "on_object (obj_or_insert k w) (JObject m') = JObject m'"
    if "on_object (obj_or_insert k w) (JObject m) = JObject m" "\<forall>j \<in> {k}. map_of m' j = map_of m j"
    using that by (simp add: edit_fixed)
  show "on_object (obj_or_insert k w) (JObject m') = JObject m'"
    if "on_object (obj_or_insert k w) (JObject m) = JObject m" "\<And>j. map_of m' j = map_of m j \<bind> walk pick"
      "\<And>v. \<exists>w. walk pick v = Some w"
    using that by (auto simp: edit_fixed)
qed

lemma remove_when_fixed [edit_fixed]: "remove_when k p m = m \<longleftrightarrow> (\<forall>v. map_of m k = Some v \<longrightarrow> \<not> p v)"
  by (auto simp: remove_when_def edit_fixed split: option.split)

lemma remove_when_get [obj_simps]:
  "map_of (remove_when k p m) j =
     (if j = k then (case map_of m k of Some v \<Rightarrow> if p v then None else Some v | None \<Rightarrow> None) else map_of m j)"
  by (auto simp: remove_when_def obj_simps split: option.split)

lemma remove_when_table_fix:
  assumes string: "\<And>v. p v \<Longrightarrow> \<exists>s. v = JString s"
  shows "table_fix (on_object (remove_when k p)) k {k}"
proof
  fix m m' pick
  show "\<exists>m'. on_object (remove_when k p) (JObject m) = JObject m' \<and> (\<forall>j. j \<noteq> k \<longrightarrow> map_of m' j = map_of m j)"
    by (simp add: obj_simps)
  show "on_object (remove_when k p) (on_object (remove_when k p) (JObject m)) = on_object (remove_when k p) (JObject m)"
    by (simp add: edit_fixed obj_simps split: option.split)
  show "on_object (remove_when k p) (JObject m') = JObject m'"
    if "on_object (remove_when k p) (JObject m) = JObject m" "\<forall>j \<in> {k}. map_of m' j = map_of m j"
    using that by (simp add: edit_fixed)
  show "on_object (remove_when k p) (JObject m') = JObject m'"
    if "tame_pick pick" "on_object (remove_when k p) (JObject m) = JObject m" "\<And>j. map_of m' j = map_of m j \<bind> walk pick"
    using that string by (fastforce simp: edit_fixed bind_eq_Some_conv tame_pick.walk_string)
qed

interpretation release_date: table_fix remove_wrong_release_date "''ReleaseDate''" "{''ReleaseDate''}"
  unfolding release_date_form [abs_def] by (rule remove_when_table_fix) auto

interpretation last_reset_time: table_fix remove_wrong_last_reset_time "''LastResetTime''" "{''LastResetTime''}"
  unfolding last_reset_time_form [abs_def] by (rule remove_when_table_fix) (auto split: option.splits)

text \<open>Rewrites of one value: strings are what a walk keeps, and the objects they look into stay objects.\<close>

lemma string_value_fix:
  assumes "\<And>v. change (change v) = change v" "\<And>v. change v \<noteq> v \<Longrightarrow> \<exists>s. v = JString s"
  shows "value_fix change"
proof
  show "change w = w" if "tame_pick pick" "change v = v" "walk pick v = Some w" for pick v w
    using that assms(2) [of w] by (metis tame_pick.walk_string)
qed (rule assms(1))

interpretation empty_uuid: value_fix "\<lambda>uuid. if json_as_str uuid = Some [] then JNull else uuid"
  by (rule string_value_fix) (auto split: if_splits)

interpretation invalid_uuid: value_fix "\<lambda>uuid. case json_as_str uuid of
    Some s \<Rightarrow> if \<not> guid_ok T s then JNull else uuid | None \<Rightarrow> uuid" for T
  by (rule string_value_fix) (auto split: if_splits option.splits)

interpretation pem_chain: value_fix "\<lambda>t. if t = JString ''PEMChain'' then JString ''PEMchain'' else t"
  by (rule string_value_fix) (auto split: if_splits)

interpretation shelf_state: value_fix "\<lambda>state.
    if json_as_str state = Some ''Standby'' then JString ''StandbySpare''
    else if json_as_str state = Some ''Sleep'' then JString ''StandbyOffline'' else state"
  by (rule string_value_fix) (auto split: if_splits)

interpretation controllers: value_fix "\<lambda>c. if c = JObject [] then JArray [] else c"
proof
  show "(if w = JObject [] then JArray [] else w) = w"
    if "tame_pick pick" "(if v = JObject [] then JArray [] else v) = v" "walk pick v = Some w" for pick v w
    using that tame_pick.walk_to_empty by (auto split: if_splits)
qed simp

lemma member_value_fix:
  assumes "value_fix change" "k \<notin> set touched_keys"
  shows "value_fix (on_object (obj_modify k change))"
proof
  show "on_object (obj_modify k change) (on_object (obj_modify k change) v) = on_object (obj_modify k change) v" for v
    by (cases v) (auto simp: edit_fixed obj_simps value_fix.idem [OF assms(1)])
  show "on_object (obj_modify k change) w = w"
    if tame: "tame_pick pick" and settled: "on_object (obj_modify k change) v = v"
      and walk: "walk pick v = Some w" for pick v w
  proof (cases w)
    case (JObject m)
    then obtain obj where v: "v = JObject obj" using walk tame_pick.walk_to_object [OF tame] by blast
    with settled have old: "map_of obj k = Some u \<Longrightarrow> change u = u" for u by (simp add: edit_fixed)
    have "map_of m k = map_of obj k \<bind> walk pick"
      using tame_pick.walk_key [OF tame walk [unfolded v JObject] assms(2)] .
    then have "map_of m k = Some u \<Longrightarrow> change u = u" for u
      using old value_fix.walked [OF assms(1) tame] by (fastforce simp: bind_eq_Some_conv)
    with JObject show ?thesis by (simp add: edit_fixed)
  qed simp_all
qed

lemma reference_only_fixed: "obj_retain (\<lambda>k. k = ''@odata.id'') m = m \<longleftrightarrow> set (map fst m) \<subseteq> {''@odata.id''}"
  by (auto simp: edit_fixed)

interpretation reference_only: value_fix "on_object (obj_retain (\<lambda>k. k = ''@odata.id''))"
proof
  show "on_object (obj_retain (\<lambda>k. k = ''@odata.id'')) (on_object (obj_retain (\<lambda>k. k = ''@odata.id'')) v) =
    on_object (obj_retain (\<lambda>k. k = ''@odata.id'')) v" for v
    by (cases v) simp_all
  show "on_object (obj_retain (\<lambda>k. k = ''@odata.id'')) w = w"
    if tame: "tame_pick pick" and settled: "on_object (obj_retain (\<lambda>k. k = ''@odata.id'')) v = v"
      and walk: "walk pick v = Some w" for pick v w
  proof (cases w)
    case (JObject m)
    then obtain obj where v: "v = JObject obj" using walk tame_pick.walk_to_object [OF tame] by blast
    with settled have keys: "set (map fst obj) \<subseteq> {''@odata.id''}" by (simp add: reference_only_fixed)
    then have "\<not> obj_contains_key obj ''@odata.type''"
      by (force simp: obj_contains_key_def map_of_eq_None_iff)
    from tame_pick.walk_untyped_keys [OF tame walk [unfolded v JObject] this] keys JObject
    show ?thesis by (simp add: reference_only_fixed del: set_map)
  qed simp_all
qed

interpretation contained_by: value_fix "on_object (obj_modify ''ContainedBy'' (on_object (obj_retain (\<lambda>k. k = ''@odata.id''))))"
  by (rule member_value_fix [OF reference_only.value_fix_axioms]) (simp add: touched_keys_def)

interpretation shelf_status: value_fix "on_object (obj_modify ''State'' (\<lambda>state.
    if json_as_str state = Some ''Standby'' then JString ''StandbySpare''
    else if json_as_str state = Some ''Sleep'' then JString ''StandbyOffline'' else state))"
  by (rule member_value_fix [OF shelf_state.value_fix_axioms]) (simp add: touched_keys_def)

lemma str_split_at_Some: "str_split_at p s = Some (a, b) \<Longrightarrow> s = a @ p @ b"
proof (induction s arbitrary: a)
  case (Cons c s)
  then show ?case by (auto split: if_splits elim!: prefixE)
qed (auto split: if_splits)

lemma str_split_at_before: "str_split_at p s = Some (a, b) \<Longrightarrow> p \<noteq> [] \<Longrightarrow> str_split_at p a = None"
proof (induction s arbitrary: a)
  case (Cons c s)
  show ?case
  proof (cases "prefix p (c # s)")
    case False
    with Cons.prems obtain a' where a: "a = c # a'" and split: "str_split_at p s = Some (a', b)" by auto
    from str_split_at_Some [OF split] False have "\<not> prefix p (c # a')" by (metis append_Cons prefix_prefix)
    with Cons.IH [OF split Cons.prems(2)] a show ?thesis by simp
  qed (use Cons in auto)
qed simp

lemma boot_reference_idem:
  "vera_rubin_boot_order_entry_reference (vera_rubin_boot_order_entry_reference s) = vera_rubin_boot_order_entry_reference s"
  by (auto simp: vera_rubin_boot_order_entry_reference_def split: option.split dest: str_split_at_before)

definition boot_entry :: json_fix where
  "boot_entry entry =
     (case entry of JString entry \<Rightarrow> JString (vera_rubin_boot_order_entry_reference entry) | _ \<Rightarrow> entry)"

lemma boot_entry_idem: "boot_entry (boot_entry v) = boot_entry v"
  by (simp add: boot_entry_def boot_reference_idem split: json.split)

interpretation boot_entry: value_fix boot_entry
  by (rule string_value_fix) (simp add: boot_entry_idem, simp add: boot_entry_def split: json.splits)

interpretation boot_order: value_fix "\<lambda>boot_order. case boot_order of
    JArray entries \<Rightarrow> JArray (map boot_entry entries) | _ \<Rightarrow> boot_order"
proof
  show "(case case v of JArray entries \<Rightarrow> JArray (map boot_entry entries) | _ \<Rightarrow> v of
      JArray entries \<Rightarrow> JArray (map boot_entry entries)
    | _ \<Rightarrow> case v of JArray entries \<Rightarrow> JArray (map boot_entry entries) | _ \<Rightarrow> v) =
    (case v of JArray entries \<Rightarrow> JArray (map boot_entry entries) | _ \<Rightarrow> v)" for v
    by (simp add: boot_entry_idem split: json.split)
  show "(case w of JArray entries \<Rightarrow> JArray (map boot_entry entries) | _ \<Rightarrow> w) = w"
    if tame: "tame_pick pick" and settled: "(case v of JArray entries \<Rightarrow> JArray (map boot_entry entries) | _ \<Rightarrow> v) = v"
      and walk: "walk pick v = Some w" for pick v w
  proof (cases w)
    case (JArray ws)
    then obtain vs where v: "v = JArray vs" and rel: "list_all2 (\<lambda>v w. walk pick v = Some w) vs ws"
      using walk tame_pick.walk_to_array [OF tame] by blast
    from settled v have "map boot_entry vs = vs" by simp
    with rel have "map boot_entry ws = ws"
      by (induction vs ws rule: list_all2_induct) (auto intro: boot_entry.walked [OF tame])
    with JArray show ?thesis by simp
  qed simp_all
qed

interpretation boot: value_fix "on_object (obj_modify ''BootOrder'' (\<lambda>boot_order. case boot_order of
    JArray entries \<Rightarrow> JArray (map boot_entry entries) | _ \<Rightarrow> boot_order))"
  by (rule member_value_fix [OF boot_order.value_fix_axioms]) (simp add: touched_keys_def)

text \<open>
  An RFC 3339 time has seconds at bytes 17 and 18 and then a fraction or an offset, so never a colon at
  byte 19: a time to which seconds were added is not taken for one that lacks them.
\<close>

definition rfc3339_shape :: "text_ops \<Rightarrow> bool" where
  "rfc3339_shape T \<longleftrightarrow> (\<forall>s. datetime_ok T s \<longrightarrow> 19 < length s \<and> s ! 19 \<noteq> CHR '':'')"

lemma with_seconds_settled:
  assumes "rfc3339_shape T" "with_seconds T date = Some fixed"
  shows "with_seconds T fixed = None"
proof -
  have len: "16 \<le> length date" and fixed: "fixed = take 16 date @ '':00'' @ drop 16 date"
    using assms(2) by (auto simp: with_seconds_def split_at_checked_def is_char_boundary_def Let_def split: if_splits)
  have "take 16 fixed @ '':00'' @ drop 16 fixed = take 16 date @ '':00:00'' @ drop 16 date"
    using len fixed by simp
  moreover have "\<not> datetime_ok T (take 16 date @ '':00:00'' @ drop 16 date)"
    using assms(1) len by (auto simp: rfc3339_shape_def nth_append)
  ultimately show ?thesis
    by (auto simp: with_seconds_def split_at_checked_def Let_def bind_eq_None_conv split: if_splits)
qed

lemma password_value_fix:
  assumes "rfc3339_shape T"
  shows "value_fix (\<lambda>d. case d of
    JString date \<Rightarrow> (case with_seconds T date of Some fixed \<Rightarrow> JString fixed | None \<Rightarrow> d) | _ \<Rightarrow> d)"
  by (rule string_value_fix)
    (auto simp: with_seconds_settled [OF assms] split: json.splits option.splits)

text \<open>A member inserted when absent, then changed in place.\<close>

definition ensure_member :: "string \<Rightarrow> json_fix \<Rightarrow> json_map \<Rightarrow> json_map" where
  "ensure_member k change = obj_modify k change \<circ> obj_or_insert k (JObject [])"

lemma ensure_member_get [obj_simps]:
  "map_of (ensure_member k change m) j =
     (if j = k then Some (change (case map_of m k of Some w \<Rightarrow> w | None \<Rightarrow> JObject [])) else map_of m j)"
  by (simp add: ensure_member_def obj_simps)

lemma ensure_member_fixed [edit_fixed]:
  "ensure_member k change m = m \<longleftrightarrow> (\<exists>v. map_of m k = Some v \<and> change v = v)"
proof
  assume "ensure_member k change m = m"
  then show "\<exists>v. map_of m k = Some v \<and> change v = v"
    using ensure_member_get [of k change m k] by (cases "map_of m k") (auto simp: ensure_member_def edit_fixed obj_or_insert_fixed obj_or_insert_def obj_contains_key_def)
next
  assume "\<exists>v. map_of m k = Some v \<and> change v = v"
  then show "ensure_member k change m = m"
    by (auto simp: ensure_member_def obj_or_insert_def obj_contains_key_def edit_fixed)
qed

lemma ensure_value_fix:
  assumes "value_fix change" "k \<notin> set touched_keys"
  shows "value_fix (on_object (ensure_member k change))"
proof
  show "on_object (ensure_member k change) (on_object (ensure_member k change) v) = on_object (ensure_member k change) v" for v
    by (cases v) (simp_all add: edit_fixed obj_simps value_fix.idem [OF assms(1)])
  show "on_object (ensure_member k change) w = w"
    if tame: "tame_pick pick" and settled: "on_object (ensure_member k change) v = v"
      and walk: "walk pick v = Some w" for pick v w
  proof (cases w)
    case (JObject m)
    then obtain obj where v: "v = JObject obj" using walk tame_pick.walk_to_object [OF tame] by blast
    with settled obtain u where old: "map_of obj k = Some u" "change u = u" by (auto simp: edit_fixed)
    have walked: "walk pick (JObject obj) = Some (JObject m)" using walk v JObject by simp
    obtain u' where new: "map_of m k = Some u'"
      using tame_pick.walk_key_kept [OF tame walked assms(2)] old(1) by auto
    then have "walk pick u = Some u'"
      using tame_pick.walk_key [OF tame walked assms(2)] old(1) by simp
    with value_fix.walked [OF assms(1) tame old(2)] new JObject show ?thesis by (simp add: edit_fixed)
  qed simp_all
qed

interpretation reset_entry: value_fix "on_object (obj_or_insert ''#NvidiaChassis.Reset'' w)" for w
proof
  show "on_object (obj_or_insert ''#NvidiaChassis.Reset'' w) (on_object (obj_or_insert ''#NvidiaChassis.Reset'' w) v) =
    on_object (obj_or_insert ''#NvidiaChassis.Reset'' w) v" for v
    by (cases v) (simp_all add: edit_fixed obj_simps)
  show "on_object (obj_or_insert ''#NvidiaChassis.Reset'' w) u = u"
    if tame: "tame_pick pick" and settled: "on_object (obj_or_insert ''#NvidiaChassis.Reset'' w) v = v"
      and walk: "walk pick v = Some u" for pick v u
  proof (cases u)
    case (JObject m)
    then obtain obj where v: "v = JObject obj" using walk tame_pick.walk_to_object [OF tame] by blast
    have walked: "walk pick (JObject obj) = Some (JObject m)" using walk v JObject by simp
    have "''#NvidiaChassis.Reset'' \<notin> set touched_keys" by (simp add: touched_keys_def)
    from tame_pick.walk_key_kept [OF tame walked this] settled v JObject show ?thesis
      by (simp add: edit_fixed)
  qed simp_all
qed

interpretation reset_oem: value_fix
  "on_object (ensure_member ''Oem'' (on_object (obj_or_insert ''#NvidiaChassis.Reset'' w)))" for w
  by (rule ensure_value_fix [OF reset_entry.value_fix_axioms]) (simp add: touched_keys_def)

lemma reset_edit_form:
  "reset_edit target = ensure_member ''Actions'' (on_object (ensure_member ''Oem''
     (on_object (obj_or_insert ''#NvidiaChassis.Reset'' (JObject [(''target'', JString target)])))))"
  by (simp add: reset_edit_def ensure_member_def)

lemma bluefield_fixed [edit_fixed]:
  "bluefield_edit m = m \<longleftrightarrow>
     (\<forall>i. map_of m ''Id'' = Some (JString ''BlueField_0'') \<longrightarrow> map_of m ''@odata.id'' = Some (JString i) \<longrightarrow>
        reset_edit (i @ ''/Actions/Oem/NvidiaChassis.Reset'') m = m)"
  by (auto simp: bluefield_edit_def bind_eq_Some_conv split: option.split)

lemma bluefield_get [obj_simps]:
  "j \<noteq> ''Actions'' \<Longrightarrow> map_of (bluefield_edit m) j = map_of m j"
  by (simp add: bluefield_edit_def reset_edit_form obj_simps split: option.split)

interpretation bluefield: table_fix advertise_bluefield_nvidia_chassis_reset "''Actions''" "{''Id'', ''@odata.id'', ''Actions''}"
  unfolding bluefield_form [abs_def]
proof
  fix m m' pick
  have keys: "''Id'' \<noteq> ''Actions''" "''@odata.id'' \<noteq> ''Actions''" by simp_all
  show "\<exists>m'. on_object bluefield_edit (JObject m) = JObject m' \<and> (\<forall>j. j \<noteq> ''Actions'' \<longrightarrow> map_of m' j = map_of m j)"
    by (simp add: bluefield_get)
  show "on_object bluefield_edit (on_object bluefield_edit (JObject m)) = on_object bluefield_edit (JObject m)"
  proof -
    have "bluefield_edit (bluefield_edit m) = bluefield_edit m"
      unfolding bluefield_fixed bluefield_get [OF keys(1)] bluefield_get [OF keys(2)]
      by (simp add: bluefield_edit_def reset_edit_form ensure_member_fixed ensure_member_get reset_oem.idem)
    then show ?thesis by simp
  qed
  show "on_object bluefield_edit (JObject m') = JObject m'"
    if "on_object bluefield_edit (JObject m) = JObject m" "\<forall>j \<in> {''Id'', ''@odata.id'', ''Actions''}. map_of m' j = map_of m j"
    using that by (simp add: bluefield_fixed reset_edit_form ensure_member_fixed)
  show "on_object bluefield_edit (JObject m') = JObject m'"
    if tame: "tame_pick pick" and settled: "on_object bluefield_edit (JObject m) = JObject m"
      and walked: "\<And>j. map_of m' j = map_of m j \<bind> walk pick" and total: "\<And>v. \<exists>w. walk pick v = Some w"
  proof -
    have "reset_edit (i @ ''/Actions/Oem/NvidiaChassis.Reset'') m' = m'"
      if "map_of m' ''Id'' = Some (JString ''BlueField_0'')" "map_of m' ''@odata.id'' = Some (JString i)" for i
    proof -
      from that have "map_of m ''Id'' = Some (JString ''BlueField_0'')" "map_of m ''@odata.id'' = Some (JString i)"
        by (simp_all add: walked bind_eq_Some_conv tame_pick.walk_string [OF tame])
      with settled have "reset_edit (i @ ''/Actions/Oem/NvidiaChassis.Reset'') m = m" by (simp add: bluefield_fixed)
      then show ?thesis
        using total by (fastforce simp: reset_edit_form ensure_member_fixed walked intro: reset_oem.walked [OF tame])
    qed
    then show ?thesis by (simp add: bluefield_fixed)
  qed
qed

definition upload_uri :: "string \<Rightarrow> string" where
  "upload_uri service = str_trim_end_matches (CHR ''/'') service @ ''/upload''"

lemma push_uri_fixed [edit_fixed]:
  "push_uri_edit m = m \<longleftrightarrow>
     (\<exists>uri. map_of m ''MultipartHttpPushUri'' = Some (JString uri) \<and> str_trim uri \<noteq> []) \<or>
     (\<forall>i. map_of m ''@odata.id'' = Some (JString i) \<longrightarrow>
        map_of m ''MultipartHttpPushUri'' = Some (JString (upload_uri i)))"
  by (auto simp: push_uri_edit_def upload_uri_def bind_eq_Some_conv edit_fixed split: option.split)

lemma push_uri_get [obj_simps]: "j \<noteq> ''MultipartHttpPushUri'' \<Longrightarrow> map_of (push_uri_edit m) j = map_of m j"
  by (simp add: push_uri_edit_def obj_simps split: option.split)

interpretation push_uri: table_fix advertise_multipart_http_push_uri "''MultipartHttpPushUri''"
  "{''MultipartHttpPushUri'', ''@odata.id''}"
  unfolding push_uri_form [abs_def]
proof
  fix m m' pick
  show "\<exists>m'. on_object push_uri_edit (JObject m) = JObject m' \<and> (\<forall>j. j \<noteq> ''MultipartHttpPushUri'' \<longrightarrow> map_of m' j = map_of m j)"
    by (simp add: push_uri_get)
  have "push_uri_edit (push_uri_edit m) = push_uri_edit m"
    unfolding push_uri_fixed by (auto simp: push_uri_edit_def upload_uri_def obj_simps bind_eq_Some_conv split: option.split)
  then show "on_object push_uri_edit (on_object push_uri_edit (JObject m)) = on_object push_uri_edit (JObject m)" by simp
  show "on_object push_uri_edit (JObject m') = JObject m'"
    if "on_object push_uri_edit (JObject m) = JObject m" "\<forall>j \<in> {''MultipartHttpPushUri'', ''@odata.id''}. map_of m' j = map_of m j"
    using that by (simp add: push_uri_fixed)
  show "on_object push_uri_edit (JObject m') = JObject m'"
    if tame: "tame_pick pick" and settled: "on_object push_uri_edit (JObject m) = JObject m"
      and walked: "\<And>j. map_of m' j = map_of m j \<bind> walk pick"
  proof -
    have "map_of m' j = Some (JString s) \<longleftrightarrow> map_of m j = Some (JString s)" for j s
      by (simp add: walked bind_eq_Some_conv tame_pick.walk_string [OF tame])
    with settled show ?thesis by (simp add: push_uri_fixed)
  qed
qed

section \<open>The contracts of the table\<close>

text \<open>For each rule of the table, in its order, the member its rewrite changes and the members it reads.\<close>

definition rule_contracts :: "(string \<times> string list) list" where
  "rule_contracts = [
    (''Name'', [''Name'']),
    (''MultipartHttpPushUri'', [''MultipartHttpPushUri'', ''@odata.id'']),
    (''ReleaseDate'', [''ReleaseDate'']),
    (''Links'', [''Links'']),
    (''Certificates'', [''Certificates'']),
    (''ChassisType'', [''ChassisType'']),
    (''Name'', [''Name'']),
    (''UUID'', [''UUID'']),
    (''Actions'', [''Id'', ''@odata.id'', ''Actions'']),
    (''LastResetTime'', [''LastResetTime'']),
    (''Controllers'', [''Controllers'']),
    (''UUID'', [''UUID'']),
    (''Boot'', [''Boot'']),
    (''Status'', [''Status'']),
    (''Status'', [''Status'']),
    (''Status'', [''Status'']),
    (''AccountTypes'', [''AccountTypes'']),
    (''PasswordExpiration'', [''PasswordExpiration'']),
    (''Name'', []),
    (''CertificateType'', [''CertificateType'']),
    (''CertificateType'', [''CertificateType''])]"

definition meets_contract :: "repair_rule \<times> string \<times> string list \<Rightarrow> bool" where
  "meets_contract rc \<longleftrightarrow>
     rr_type (fst rc) = ''AccountService'' \<or> table_fix (rr_fix (fst rc)) (fst (snd rc)) (set (snd (snd rc)))"

lemma boot_form: "normalize_vera_rubin_composite_boot_order = on_object (obj_modify ''Boot''
    (on_object (obj_modify ''BootOrder'' (\<lambda>boot_order. case boot_order of
      JArray entries \<Rightarrow> JArray (map boot_entry entries) | _ \<Rightarrow> boot_order))))"
  unfolding normalize_vera_rubin_composite_boot_order_def [abs_def] boot_entry_def [abs_def] ..

lemmas member_fixes =
  or_insert.table_fix_axioms [of "''Name''" "JString ''Unnamed update service''", folded default_forms(1) [abs_def]]
  or_insert.table_fix_axioms [of "''ChassisType''" "JString ''Other''", folded default_forms(2) [abs_def]]
  or_insert.table_fix_axioms [of "''Name''" "JString ''Unnamed chassis''", folded default_forms(3) [abs_def]]
  or_insert.table_fix_axioms [of "''AccountTypes''" "JArray [JString ''Redfish'']", folded default_forms(4) [abs_def]]
  release_date.table_fix_axioms last_reset_time.table_fix_axioms bluefield.table_fix_axioms push_uri.table_fix_axioms
  contained_by.member.table_fix_axioms [of "''Links''", folded remove_invalid_contained_by_fields_def [abs_def]]
  reference_only.member.table_fix_axioms [of "''Certificates''", folded certificates_as_reference_def [abs_def]]
  empty_uuid.member.table_fix_axioms [of "''UUID''", folded normalize_empty_uuid_field_def [abs_def]]
  pem_chain.member.table_fix_axioms [of "''CertificateType''", folded pem_chain_form [abs_def]]
  controllers.member.table_fix_axioms [of "''Controllers''", folded controllers_form [abs_def]]
  shelf_status.member.table_fix_axioms [of "''Status''", folded power_shelf_form [abs_def]]
  boot.member.table_fix_axioms [of "''Boot''", folded boot_form]

end
