(* ===== verification/Quirk_Repair.thy ===== *)
theory Quirk_Repair
  imports Quirk_Contract
begin

text \<open>
  What the platform's document repairs (\<open>Enabled::repair\<close> of \<open>quirks/src/rules.rs\<close>) guarantee: they return,
  they keep the identity of a document, and what they leave needs no further repair.
\<close>

section \<open>The contracts hold for the table\<close>

lemma rules_meet_contracts:
  assumes "rfc3339_shape T"
  shows "\<forall>rc \<in> set (zip (repair_rules T) rule_contracts). meets_contract rc"
proof -
  have "table_fix (add_password_expiration_seconds T) ''PasswordExpiration'' {''PasswordExpiration''}"
    unfolding password_expiration_form [abs_def]
    by (rule value_fix.as_table_fix [OF password_value_fix [OF assms]])
  moreover have "table_fix (normalize_invalid_uuid_field T) ''UUID'' {''UUID''}"
    unfolding normalize_invalid_uuid_field_def [abs_def] by (rule invalid_uuid.as_table_fix)
  ultimately show ?thesis
    unfolding repair_rules_def rule_contracts_def zip_Cons_Cons zip_Nil list.set ball_simps
    by (simp only: meets_contract_def fst_conv snd_conv repair_rule.simps list.set member_fixes) simp
qed


lemma rules_independent:
  "sorted_wrt (\<lambda>rc rc'. rr_type (fst rc) = rr_type (fst rc') \<longrightarrow> fst (snd rc') \<notin> set (snd (snd rc)))
     (zip (repair_rules T) rule_contracts)"
  by (simp add: repair_rules_def rule_contracts_def)

lemma length_rule_contracts: "length rule_contracts = length (repair_rules T)"
  by (simp add: repair_rules_def rule_contracts_def)

lemma rule_types_unqualified: "rule \<in> set (repair_rules T) \<Longrightarrow> type_name_parse (rr_type rule) = None"
proof -
  have "list_all (\<lambda>ty. CHR ''.'' \<notin> set ty \<and> \<not> prefix ''#'' ty) (map rr_type (repair_rules T))"
    by (simp add: repair_rules_def)
  moreover assume "rule \<in> set (repair_rules T)"
  ultimately show ?thesis
    by (auto simp: list_all_iff type_name_parse_def str_strip_prefix_def str_rsplit_once_None [THEN iffD2])
qed

lemma rule_keys_touched: "set (map fst rule_contracts) \<subseteq> set touched_keys"
  by (simp add: rule_contracts_def touched_keys_def)

text \<open>A chain of rewrites none of which changes what an earlier one reads settles all of them.\<close>

lemma apply_fixes_settles:
  assumes "list_all2 (\<lambda>f c. table_fix f (fst c) (set (snd c))) fs cs"
    and "sorted_wrt (\<lambda>c c'. fst c' \<notin> set (snd c)) cs"
  shows "\<exists>m'. apply_fixes fs (JObject m) = JObject m' \<and> (\<forall>f \<in> set fs. f (JObject m') = JObject m') \<and>
    (\<forall>j. j \<notin> fst ` set cs \<longrightarrow> map_of m' j = map_of m j)"
  using assms
proof (induction fs cs arbitrary: m rule: list_all2_induct)
  case (Cons f fs c cs)
  obtain m1 where m1: "f (JObject m) = JObject m1" "\<And>j. j \<noteq> fst c \<Longrightarrow> map_of m1 j = map_of m j"
    using table_fix.one_member [OF Cons.hyps(1)] by blast
  have settled: "f (JObject m1) = JObject m1" using table_fix.settles [OF Cons.hyps(1), of m] m1(1) by simp
  from Cons.prems have later: "\<And>c'. c' \<in> set cs \<Longrightarrow> fst c' \<notin> set (snd c)"
    and sorted: "sorted_wrt (\<lambda>c c'. fst c' \<notin> set (snd c)) cs" by simp_all
  obtain m' where m': "apply_fixes fs (JObject m1) = JObject m'" "\<forall>f \<in> set fs. f (JObject m') = JObject m'"
    "\<forall>j. j \<notin> fst ` set cs \<longrightarrow> map_of m' j = map_of m1 j"
    using Cons.IH [OF sorted, of m1] by blast
  have "\<forall>j \<in> set (snd c). map_of m' j = map_of m1 j"
  proof
    fix j assume "j \<in> set (snd c)"
    with later have "j \<notin> fst ` set cs" by auto
    with m'(3) show "map_of m' j = map_of m1 j" by simp
  qed
  from table_fix.reads_only [OF Cons.hyps(1) settled this] have "f (JObject m') = JObject m'" .
  moreover have "apply_fixes (f # fs) (JObject m) = JObject m'" using m1(1) m'(1) by (simp add: apply_fixes_def)
  moreover have "\<forall>j. j \<notin> fst ` set (c # cs) \<longrightarrow> map_of m' j = map_of m j" using m1(2) m'(3) by simp
  ultimately show ?case using m'(2) by (metis set_ConsD)
qed (simp add: apply_fixes_def)

section \<open>A repaired document needs no repair\<close>

lemma enabled_rules_for: "enabled_rules T (enabled_for T q) = filter (\<lambda>rule. rr_enabled rule q) (repair_rules T)"
proof -
  have "map fst (filter snd (zip rs (map p rs))) = filter p rs" for rs :: "repair_rule list" and p
    by (induction rs) auto
  then show ?thesis by (simp add: enabled_rules_def enabled_for_def)
qed

abbreviation platform_pick :: "text_ops \<Rightarrow> bmc_quirks \<Rightarrow> json_map \<Rightarrow> json_fix list" where
  "platform_pick T q \<equiv> enabled_pick T (enabled_for T q)"

lemma platform_pick_some:
  assumes "type_name_of obj = Some t"
  shows "platform_pick T q obj =
    map (rr_fix \<circ> fst) (filter (\<lambda>rc. rr_enabled (fst rc) q \<and> is_named t (rr_type (fst rc))) (zip (repair_rules T) rule_contracts))"
proof -
  have "filter P (repair_rules T) = map fst (filter (P \<circ> fst) (zip (repair_rules T) rule_contracts))" for P
    by (metis filter_map length_rule_contracts map_fst_zip)
  then show ?thesis
    using assms by (simp add: enabled_pick_def enabled_rules_for filter_map comp_def conj_commute)
qed

lemma account_service_rule:
  "rule \<in> set (repair_rules T) \<Longrightarrow> rr_type rule = ''AccountService'' \<Longrightarrow>
   rr_enabled rule = bug_incomplete_account_service_certificate_collection"
  by (auto simp: repair_rules_def)

lemma named_rule_type:
  "rule \<in> set (repair_rules T) \<Longrightarrow> is_named t (rr_type rule) \<Longrightarrow> rr_type rule = tn_schema t"
  by (simp add: is_named_def rule_types_unqualified)

lemma platform_rewritten:
  assumes "rfc3339_shape T" "\<not> bug_incomplete_account_service_certificate_collection q"
  shows "\<exists>m. rewritten (platform_pick T q) obj = JObject m \<and> (\<forall>f \<in> set (platform_pick T q obj). f (JObject m) = JObject m) \<and>
    (\<forall>j. j \<notin> set touched_keys \<longrightarrow> map_of m j = map_of obj j)"
proof (cases "type_name_of obj")
  case None
  then show ?thesis by (simp add: rewritten_def apply_fixes_def enabled_pick_def)
next
  case (Some t)
  let ?rcs = "filter (\<lambda>rc. rr_enabled (fst rc) q \<and> is_named t (rr_type (fst rc))) (zip (repair_rules T) rule_contracts)"
  have rule: "fst rc \<in> set (repair_rules T)" "rr_enabled (fst rc) q" "rr_type (fst rc) = tn_schema t"
    "meets_contract rc" "fst (snd rc) \<in> set touched_keys" if "rc \<in> set ?rcs" for rc
  proof -
    from that have z: "rc \<in> set (zip (repair_rules T) rule_contracts)" by simp
    then show r: "fst rc \<in> set (repair_rules T)" by (metis prod.collapse set_zip_leftD)
    from that show "rr_enabled (fst rc) q" by simp
    from that r show "rr_type (fst rc) = tn_schema t" by (auto intro: named_rule_type)
    from that show "meets_contract rc" using rules_meet_contracts [OF assms(1)] by simp
    from z have "snd rc \<in> set rule_contracts" by (metis prod.collapse set_zip_rightD)
    then have "fst (snd rc) \<in> set (map fst rule_contracts)" by simp
    then show "fst (snd rc) \<in> set touched_keys" using rule_keys_touched by (rule subsetD [rotated])
  qed
  have "table_fix (rr_fix (fst rc)) (fst (snd rc)) (set (snd (snd rc)))" if "rc \<in> set ?rcs" for rc
    using rule [OF that] account_service_rule assms(2) unfolding meets_contract_def by metis
  then have "list_all2 (\<lambda>f c. table_fix f (fst c) (set (snd c))) (map (rr_fix \<circ> fst) ?rcs) (map snd ?rcs)"
    unfolding list.rel_map comp_def by (intro list.rel_refl_strong)
  moreover have "sorted_wrt (\<lambda>c c'. fst c' \<notin> set (snd c)) (map snd ?rcs)"
    unfolding sorted_wrt_map
  proof (rule sorted_wrt_mono_rel [OF _ sorted_wrt_filter [OF rules_independent [of T]]])
    fix rc rc' assume r: "rc \<in> set ?rcs" and r': "rc' \<in> set ?rcs"
      and apart: "rr_type (fst rc) = rr_type (fst rc') \<longrightarrow> fst (snd rc') \<notin> set (snd (snd rc))"
    have "rr_type (fst rc) = rr_type (fst rc')" unfolding rule(3) [OF r] rule(3) [OF r'] ..
    with apart show "fst (snd rc') \<notin> set (snd (snd rc))" by simp
  qed
  ultimately obtain m where "apply_fixes (map (rr_fix \<circ> fst) ?rcs) (JObject obj) = JObject m"
    "\<forall>f \<in> set (map (rr_fix \<circ> fst) ?rcs). f (JObject m) = JObject m"
    "\<forall>j. j \<notin> fst ` set (map snd ?rcs) \<longrightarrow> map_of m j = map_of obj j"
    using apply_fixes_settles by blast
  moreover have "fst ` set (map snd ?rcs) \<subseteq> set touched_keys" using rule(5) by fastforce
  ultimately show ?thesis
    unfolding rewritten_def platform_pick_some [OF Some] by blast
qed

lemma list_all2_set_right: "list_all2 P xs ys \<Longrightarrow> y \<in> set ys \<Longrightarrow> \<exists>x \<in> set xs. P x y"
  by (induction rule: list_all2_induct) auto

lemma platform_tame:
  assumes "rfc3339_shape T" "\<not> bug_incomplete_account_service_certificate_collection q"
  shows "tame_pick (platform_pick T q)"
proof
  show "\<exists>m. rewritten (platform_pick T q) obj = JObject m \<and> (\<forall>j. j \<notin> set touched_keys \<longrightarrow> map_of m j = map_of obj j)" for obj
    using platform_rewritten [OF assms] by blast
  show "obj_contains_key obj ''@odata.type''" if "platform_pick T q obj \<noteq> []" for obj
    using enabled_pick_typed [OF that] .
qed

lemma type_name_of_str: "type_name_of obj = (map_of obj ''@odata.type'' \<bind> json_as_str) \<bind> type_name_parse"
  by (simp add: type_name_of_def)

lemma platform_pick_rule:
  assumes "f \<in> set (platform_pick T q obj)"
  shows "\<exists>rc \<in> set (zip (repair_rules T) rule_contracts). f = rr_fix (fst rc) \<and> rr_enabled (fst rc) q"
proof (cases "type_name_of obj")
  case None
  with assms show ?thesis by (simp add: enabled_pick_def)
next
  case (Some t)
  with assms show ?thesis by (auto simp: platform_pick_some)
qed

lemma platform_pick_typed_alike:
  "map_of m ''@odata.type'' \<bind> json_as_str = map_of m' ''@odata.type'' \<bind> json_as_str \<Longrightarrow>
   platform_pick T q m = platform_pick T q m'"
  by (simp only: enabled_pick_def type_name_of_str)

lemma platform_top_settled:
  assumes "rfc3339_shape T" "\<not> bug_incomplete_account_service_certificate_collection q"
    and "walk (platform_pick T q) (JObject obj) = Some (JObject m)" "f \<in> set (platform_pick T q m)"
  shows "f (JObject m) = JObject m"
proof -
  note tame = platform_tame [OF assms(1,2)]
  obtain r where r: "rewritten (platform_pick T q) obj = JObject r"
    "\<forall>f \<in> set (platform_pick T q obj). f (JObject r) = JObject r"
    using platform_rewritten [OF assms(1,2)] by blast
  have get: "map_of m j = map_of r j \<bind> walk (platform_pick T q)" for j
    using walk_get [OF assms(3), of j] r(1) by simp
  have "map_of m ''@odata.type'' = map_of obj ''@odata.type'' \<bind> walk (platform_pick T q)"
    using tame_pick.walk_key [OF tame assms(3)] touched_keys_type(1) by simp
  then have "map_of m ''@odata.type'' \<bind> json_as_str = map_of obj ''@odata.type'' \<bind> json_as_str"
    using platform_walk.walk_returns tame_pick.walk_str [OF tame]
    by (cases "map_of obj ''@odata.type''") (simp, metis bind.bind_lunit)
  then have pick: "platform_pick T q m = platform_pick T q obj" by (rule platform_pick_typed_alike)
  obtain rc where "rc \<in> set (zip (repair_rules T) rule_contracts)" "f = rr_fix (fst rc)" "rr_enabled (fst rc) q"
    using platform_pick_rule [OF assms(4)] by blast
  moreover from this have "table_fix (rr_fix (fst rc)) (fst (snd rc)) (set (snd (snd rc)))"
    using rules_meet_contracts [OF assms(1)] account_service_rule assms(2)
    unfolding meets_contract_def by (metis prod.collapse set_zip_leftD)
  ultimately show ?thesis
    using table_fix.survives [OF _ tame, of f] r(2) assms(4) pick get platform_walk.walk_returns by metis
qed

lemma platform_repair_settled:
  assumes "rfc3339_shape T" "\<not> bug_incomplete_account_service_certificate_collection q"
    and "walk (platform_pick T q) v = Some w" "obj \<in> set (objects_in w)" "f \<in> set (platform_pick T q obj)"
  shows "f (JObject obj) = JObject obj"
  using assms(3-)
proof (induction "weight (typed_bonus (3 * length (repair_rules T))) v" arbitrary: v w rule: less_induct)
  case less
  note tame = platform_tame [OF assms(1,2)]
  show ?case
  proof (cases v)
    case (JObject top)
    obtain r where r: "rewritten (platform_pick T q) top = JObject r"
      using platform_rewritten [OF assms(1,2)] by blast
    have "walk (platform_pick T q) (JObject top) = Some w" using less.prems(1) JObject by simp
    then obtain m where w: "w = JObject m"
      and rel: "list_all2 (\<lambda>kv kv'. fst kv' = fst kv \<and> walk (platform_pick T q) (snd kv) = Some (snd kv')) r m"
      by (rule walk_object_members [OF r])
    from less.prems(2) w consider "obj = m" | kv' where "kv' \<in> set m" "obj \<in> set (objects_in (snd kv'))" by auto
    then show ?thesis
    proof cases
      case 1
      with platform_top_settled [OF assms(1,2)] less.prems JObject w show ?thesis by blast
    next
      case 2
      obtain kv where "kv \<in> set r" "walk (platform_pick T q) (snd kv) = Some (snd kv')"
        using list_all2_set_right [OF rel 2(1)] by blast
      with less.hyps [OF _ _ 2(2) less.prems(3)] platform_walk.member_lighter [OF r] JObject show ?thesis by blast
    qed
  next
    case (JArray items)
    from less.prems(1) JArray obtain ws where w: "w = JArray ws"
      and rel: "list_all2 (\<lambda>v w. walk (platform_pick T q) v = Some w) items ws"
      by (auto simp: walk_array bind_eq_Some_conv try_map_eq_Some)
    from less.prems(2) w obtain u where u: "u \<in> set ws" "obj \<in> set (objects_in u)" by auto
    obtain x where "x \<in> set items" "walk (platform_pick T q) x = Some u"
      using list_all2_set_right [OF rel u(1)] by blast
    with less.hyps [OF _ _ u(2) less.prems(3)] weight_item JArray show ?thesis by blast
  qed (use less.prems in \<open>auto simp: walk_leaf\<close>)
qed

lemma apply_fixes_id: "(\<And>f. f \<in> set fs \<Longrightarrow> f v = v) \<Longrightarrow> apply_fixes fs v = v"
proof (induction fs)
  case (Cons f fs)
  then have "f v = v" "apply_fixes fs v = v" by simp_all
  then show ?case by (simp add: apply_fixes_def)
qed (simp add: apply_fixes_def)

lemma platform_repair_idem:
  assumes "rfc3339_shape T" "\<not> bug_incomplete_account_service_certificate_collection q"
    and "walk (platform_pick T q) v = Some w"
  shows "walk (platform_pick T q) w = Some w"
  using platform_repair_settled [OF assms]
  by (intro walk_settled) (simp add: rewritten_def apply_fixes_id)

section \<open>What a repair keeps of a document\<close>

lemma enabled_pick_empty: "enabled_is_empty e \<Longrightarrow> enabled_pick T e obj = []"
proof -
  assume "enabled_is_empty e"
  then have "filter snd (zip (repair_rules T) e) = []"
    by (auto simp: enabled_is_empty_def filter_empty_conv dest: set_zip_rightD)
  then show ?thesis by (simp add: enabled_pick_def enabled_rules_def split: option.split)
qed

lemma enabled_repair_walk: "enabled_repair T e v = walk (enabled_pick T e) v"
  by (simp add: enabled_repair_def walk_settled rewritten_def apply_fixes_def enabled_pick_empty)

definition edits_touched :: "json_fix \<Rightarrow> bool" where
  "edits_touched f \<longleftrightarrow>
     (\<forall>m. \<exists>m'. f (JObject m) = JObject m' \<and> (\<forall>j. j \<notin> set touched_keys \<longrightarrow> map_of m' j = map_of m j))"

lemma edits_touched_table: "table_fix f k R \<Longrightarrow> k \<in> set touched_keys \<Longrightarrow> edits_touched f"
  unfolding edits_touched_def using table_fix.one_member by metis

lemma edits_touched_rule:
  assumes "rule \<in> set (repair_rules T)" "rr_type rule \<noteq> ''AccountService''"
  shows "edits_touched (rr_fix rule)"
proof -
  have "table_fix (normalize_invalid_uuid_field T) ''UUID'' {''UUID''}"
    unfolding normalize_invalid_uuid_field_def [abs_def] by (rule invalid_uuid.as_table_fix)
  note fixes_of = member_fixes this
  have tab: "edits_touched f" if "table_fix f k R" "k \<in> {''Name'', ''MultipartHttpPushUri'', ''ReleaseDate'', ''Links'',
    ''Certificates'', ''ChassisType'', ''UUID'', ''Actions'', ''LastResetTime'', ''Controllers'', ''Boot'', ''Status'',
    ''AccountTypes'', ''CertificateType''}" for f k R
    using that by (intro edits_touched_table) (auto simp: touched_keys_def)
  have "edits_touched (add_password_expiration_seconds T)"
    by (simp add: edits_touched_def password_expiration_form obj_simps touched_keys_def)
  with assms show ?thesis
    unfolding repair_rules_def by (auto intro: fixes_of [THEN tab])
qed

lemma rsplit_prefix:
  assumes "str_rsplit_once c s = Some (a, b)" "prefix p s" "c \<notin> set p"
  shows "prefix p a"
proof -
  have "prefix p (a @ c # b)" using assms str_rsplit_once_Some by metis
  then consider "prefix p a" | "prefix a p" by (meson prefix_append prefix_same_cases prefixI)
  then show ?thesis
  proof cases
    case 2
    then obtain r where "p = a @ r" by (auto simp: prefix_def)
    with \<open>prefix p (a @ c # b)\<close> assms(3) show ?thesis by (cases r) auto
  qed
qed

lemma type_name_keeps_prefix:
  assumes "type_name_parse (CHR ''#'' # s) = Some t" "prefix p s" "CHR ''.'' \<notin> set p"
  shows "prefix p (tn_schema t)"
proof -
  have strip: "str_strip_prefix ''#'' (CHR ''#'' # s) = Some s" by (simp add: str_strip_prefix_def)
  from assms(1) obtain schema name where split: "str_rsplit_once (CHR ''.'') s = Some (schema, name)"
    and t: "tn_schema t = (case str_rsplit_once (CHR ''.'') schema of
      Some (before, version) \<Rightarrow> if is_version version then before else schema | None \<Rightarrow> schema)"
    unfolding type_name_parse_def strip Let_def option.case bind_eq_Some_conv by (auto split: if_splits)
  from rsplit_prefix [OF split assms(2,3)] have schema: "prefix p schema" .
  then show ?thesis
    using rsplit_prefix [of _ schema] assms(3) unfolding t by (auto split: option.split prod.split)
qed

lemma account_service_no_stub:
  assumes "type_name_of obj = Some t" "is_named t ''AccountService''"
  shows "\<not> certificate_collection obj"
proof
  assume "certificate_collection obj"
  then obtain ty where ty: "map_of obj ''@odata.type'' = Some (JString ty)" "prefix ''#CertificateCollection.'' ty"
    by (auto simp: certificate_collection_def split: option.splits bind_splits)
  then obtain s where s: "ty = CHR ''#'' # s" "prefix ''CertificateCollection'' s"
    by (auto simp: prefix_def)
  from assms(1) ty(1) s(1) have "type_name_parse (CHR ''#'' # s) = Some t" by (simp add: type_name_of_def)
  from type_name_keeps_prefix [OF this s(2)] have "prefix ''CertificateCollection'' (tn_schema t)" by simp
  moreover have "type_name_parse ''AccountService'' = None" by code_simp
  with assms(2) have "tn_schema t = ''AccountService''" by (simp add: is_named_def)
  ultimately show False by simp
qed

text \<open>A repair keeps every string member that the table does not name.\<close>

definition keeps_strings :: "json_map \<Rightarrow> json_map \<Rightarrow> bool" where
  "keeps_strings m m' \<longleftrightarrow>
     (\<forall>j s. j \<notin> set touched_keys \<longrightarrow> map_of m j = Some (JString s) \<longrightarrow> map_of m' j = Some (JString s))"

lemma keeps_strings_trans: "keeps_strings m m' \<Longrightarrow> keeps_strings m' m'' \<Longrightarrow> keeps_strings m m''"
  by (simp add: keeps_strings_def)

lemma keeps_strings_type: "keeps_strings m m' \<Longrightarrow> type_name_of m = Some t \<Longrightarrow> type_name_of m' = Some t"
  by (auto simp: keeps_strings_def type_name_of_def bind_eq_Some_conv touched_keys_type)

lemma rule_keeps_strings:
  assumes "rule \<in> set (repair_rules T)" "type_name_of m = Some t" "is_named t (rr_type rule)"
  shows "\<exists>m'. rr_fix rule (JObject m) = JObject m' \<and> keeps_strings m m'"
proof (cases "rr_type rule = ''AccountService''")
  case True
  with assms(1) have "rr_fix rule = normalize_dpu_certificate_collection_stubs"
    by (auto simp: repair_rules_def)
  moreover have "stub_reference m = None"
    using account_service_no_stub [OF assms(2)] assms(3) True by (simp add: stub_reference_def)
  moreover have "map_of (map (\<lambda>kv. (fst kv, normalize_stubs (snd kv))) m) j = map_option normalize_stubs (map_of m j)" for j
    using obj_get_map_values [of normalize_stubs m j] by (simp add: obj_map_values_def)
  ultimately show ?thesis
    by (auto simp: normalize_dpu_certificate_collection_stubs_def keeps_strings_def)
next
  case False
  with edits_touched_rule [OF assms(1)] show ?thesis
    unfolding edits_touched_def keeps_strings_def by metis
qed

lemma apply_fixes_keeps_strings:
  assumes "\<forall>f \<in> set fs. \<exists>rule \<in> set (repair_rules T). f = rr_fix rule \<and> is_named t (rr_type rule)"
    and "type_name_of m = Some t"
  shows "\<exists>m'. apply_fixes fs (JObject m) = JObject m' \<and> keeps_strings m m'"
  using assms
proof (induction fs arbitrary: m)
  case Nil
  then show ?case by (simp add: apply_fixes_def keeps_strings_def)
next
  case (Cons f fs)
  then obtain rule where rule: "rule \<in> set (repair_rules T)" "f = rr_fix rule" "is_named t (rr_type rule)" by auto
  from rule_keeps_strings [OF rule(1) Cons.prems(2) rule(3)] obtain m1
    where m1: "f (JObject m) = JObject m1" "keeps_strings m m1" using rule(2) by blast
  have "\<forall>f \<in> set fs. \<exists>rule \<in> set (repair_rules T). f = rr_fix rule \<and> is_named t (rr_type rule)"
    using Cons.prems(1) by simp
  from Cons.IH [OF this keeps_strings_type [OF m1(2) Cons.prems(2)]] obtain m'
    where m': "apply_fixes fs (JObject m1) = JObject m'" "keeps_strings m1 m'" by blast
  from m1(1) m'(1) have "apply_fixes (f # fs) (JObject m) = JObject m'" by (simp add: apply_fixes_def)
  with keeps_strings_trans [OF m1(2) m'(2)] show ?case by blast
qed

lemma rewritten_keeps_strings: "\<exists>m. rewritten (enabled_pick T e) obj = JObject m \<and> keeps_strings obj m"
proof (cases "type_name_of obj")
  case None
  then show ?thesis by (simp add: rewritten_def apply_fixes_def enabled_pick_def keeps_strings_def)
next
  case (Some t)
  have "\<forall>f \<in> set (enabled_pick T e obj). \<exists>rule \<in> set (repair_rules T). f = rr_fix rule \<and> is_named t (rr_type rule)"
    using enabled_rules_sub Some by (fastforce simp: enabled_pick_def)
  from apply_fixes_keeps_strings [OF this Some] show ?thesis by (simp add: rewritten_def)
qed

lemma repair_keeps_member:
  assumes "enabled_repair T e v = Some w" "json_get v k = Some (JString s)" "k \<notin> set touched_keys"
  shows "json_get w k = Some (JString s)"
proof -
  obtain obj where v: "v = JObject obj" using assms(2) by (cases v) auto
  obtain m where m: "rewritten (enabled_pick T e) obj = JObject m" "keeps_strings obj m"
    using rewritten_keeps_strings by blast
  with assms(2,3) v have "map_of m k = Some (JString s)" by (simp add: keeps_strings_def)
  then show ?thesis
    using walk_get [of "enabled_pick T e" obj w k] assms(1) v m(1) by (simp add: enabled_repair_walk walk_leaf)
qed

section \<open>Distinct keys\<close>

text \<open>The rewrites and the walk keep the keys of every object distinct.\<close>

definition wf_fix :: "json_fix \<Rightarrow> bool" where
  "wf_fix f \<longleftrightarrow> (\<forall>v. json_wf v \<longrightarrow> json_wf (f v))"

definition wf_edit :: "(json_map \<Rightarrow> json_map) \<Rightarrow> bool" where
  "wf_edit g \<longleftrightarrow> (\<forall>m. json_wf (JObject m) \<longrightarrow> json_wf (JObject (g m)))"

named_theorems keeps_wf \<open>edits that keep keys distinct\<close>

lemma wf_edit_id [keeps_wf]: "wf_edit (\<lambda>m. m)"
  by (simp add: wf_edit_def)

lemma wf_edit_remove [keeps_wf]: "wf_edit (obj_remove k)"
  unfolding wf_edit_def using obj_value_sub(1) obj_distinct(2) by fastforce

lemma wf_edit_retain [keeps_wf]: "wf_edit (obj_retain p)"
  unfolding wf_edit_def using obj_value_sub(2) obj_distinct(3) by fastforce

lemma wf_edit_insert [keeps_wf]: "json_wf w \<Longrightarrow> wf_edit (obj_insert k w)"
  unfolding wf_edit_def using obj_value_insert obj_distinct(1) by fastforce

lemma wf_edit_or_insert [keeps_wf]: "json_wf w \<Longrightarrow> wf_edit (obj_or_insert k w)"
  using wf_edit_insert [of w k] by (simp add: wf_edit_def obj_or_insert_def)

lemma wf_edit_modify [keeps_wf]:
  assumes "wf_fix f"
  shows "wf_edit (obj_modify k f)"
  unfolding wf_edit_def
proof (intro allI impI)
  fix m assume wf: "json_wf (JObject m)"
  have "json_wf (snd kv)" if "kv \<in> set (obj_modify k f m)" for kv
    using obj_value_modify [OF that] wf assms by (auto simp: wf_fix_def)
  with wf show "json_wf (JObject (obj_modify k f m))" by (simp add: obj_distinct)
qed

lemma wf_edit_if [keeps_wf]: "wf_edit g \<Longrightarrow> wf_edit h \<Longrightarrow> wf_edit (\<lambda>m. if p m then g m else h m)"
  unfolding wf_edit_def by (simp del: json_wf.simps(1))

lemma wf_edit_case [keeps_wf]:
  "wf_edit g \<Longrightarrow> (\<And>x. wf_edit (h x)) \<Longrightarrow> wf_edit (\<lambda>m. case p m of None \<Rightarrow> g m | Some x \<Rightarrow> h x m)"
  unfolding wf_edit_def by (simp del: json_wf.simps(1) split: option.split)

lemma wf_edit_comp [keeps_wf]: "wf_edit g \<Longrightarrow> wf_edit h \<Longrightarrow> wf_edit (g \<circ> h)"
  unfolding wf_edit_def comp_def by blast

lemma wf_fix_on_object [keeps_wf]:
  assumes "wf_edit g"
  shows "wf_fix (on_object g)"
  unfolding wf_fix_def
proof (intro allI impI)
  fix v assume "json_wf v"
  with assms show "json_wf (on_object g v)" by (cases v) (simp_all add: wf_edit_def del: json_wf.simps(1))
qed

lemma wf_fix_value [keeps_wf]: "(\<And>v. f v = v \<or> json_wf (f v)) \<Longrightarrow> wf_fix f"
  unfolding wf_fix_def by metis

lemma wf_edit_remove_when [keeps_wf]: "wf_edit (remove_when k p)"
  unfolding remove_when_def by (intro wf_edit_case wf_edit_if keeps_wf)

lemma wf_boot_order:
  "wf_fix (\<lambda>boot_order. case boot_order of JArray entries \<Rightarrow> JArray (map boot_entry entries) | _ \<Rightarrow> boot_order)"
proof -
  have "json_wf v \<Longrightarrow> json_wf (boot_entry v)" for v by (cases v) (simp_all add: boot_entry_def)
  then show ?thesis by (auto simp: wf_fix_def split: json.split)
qed

lemma wf_reset_edit: "wf_edit (reset_edit target)"
  unfolding reset_edit_form ensure_member_def by (intro wf_edit_comp wf_edit_modify wf_fix_on_object wf_edit_or_insert) simp_all

lemma wf_bluefield_edit: "wf_edit bluefield_edit"
  using wf_reset_edit by (auto simp: wf_edit_def bluefield_edit_def simp del: json_wf.simps(1) split: option.split)

lemma wf_push_uri_edit: "wf_edit push_uri_edit"
  unfolding push_uri_edit_def by (intro wf_edit_if wf_edit_case wf_edit_id wf_edit_insert) simp

lemma wf_normalize_stubs: "json_wf v \<Longrightarrow> json_wf (normalize_stubs v)"
proof (induction v rule: normalize_stubs.induct)
  case (1 obj)
  show ?case
  proof (cases "stub_reference obj")
    case None
    with 1 show ?thesis by (simp add: comp_def)
  next
    case (Some odata_id)
    then have "(''@odata.id'', odata_id) \<in> set obj"
      by (auto simp: stub_reference_def split: if_splits dest: map_of_SomeD)
    with Some 1(2) show ?thesis by (force simp: obj_insert_def)
  qed
qed simp_all

lemma repair_rules_wf: "rule \<in> set (repair_rules T) \<Longrightarrow> wf_fix (rr_fix rule)"
proof -
  have forms:
    "wf_fix add_default_update_service_name" "wf_fix add_default_chassis_type" "wf_fix add_default_chassis_name"
    "wf_fix append_default_account_type" "wf_fix remove_wrong_release_date" "wf_fix remove_wrong_last_reset_time"
    "wf_fix (add_password_expiration_seconds T)" "wf_fix normalize_pem_chain_type"
    "wf_fix normalize_empty_network_adapter_controllers" "wf_fix advertise_multipart_http_push_uri"
    "wf_fix advertise_bluefield_nvidia_chassis_reset" "wf_fix normalize_power_shelf_states"
    "wf_fix remove_invalid_contained_by_fields" "wf_fix certificates_as_reference"
    "wf_fix normalize_empty_uuid_field" "wf_fix (normalize_invalid_uuid_field T)"
    unfolding fix_forms [abs_def]
    by (intro wf_fix_on_object wf_edit_or_insert wf_edit_remove_when wf_edit_modify wf_edit_retain wf_push_uri_edit
        wf_bluefield_edit wf_fix_value; simp split: json.split option.split)+
  have "wf_fix normalize_vera_rubin_composite_boot_order"
    unfolding boot_form by (intro wf_fix_on_object wf_edit_modify wf_boot_order)
  moreover have "wf_fix normalize_dpu_certificate_collection_stubs"
    by (simp add: wf_fix_def normalize_dpu_certificate_collection_stubs_def wf_normalize_stubs)
  ultimately show "rule \<in> set (repair_rules T) \<Longrightarrow> wf_fix (rr_fix rule)" using forms by (auto simp: repair_rules_def)
qed

lemma apply_fixes_wf: "(\<And>f. f \<in> set fs \<Longrightarrow> wf_fix f) \<Longrightarrow> json_wf v \<Longrightarrow> json_wf (apply_fixes fs v)"
proof (induction fs arbitrary: v)
  case (Cons f fs)
  then have "json_wf (f v)" by (simp add: wf_fix_def)
  with Cons show ?case by (simp add: apply_fixes_def)
qed (simp add: apply_fixes_def)

context walkable
begin

lemma walk_keeps_wf:
  assumes "\<And>obj f. f \<in> set (pick obj) \<Longrightarrow> wf_fix f" and "walk pick v = Some w" "json_wf v"
  shows "json_wf w"
  using assms(2,3)
proof (induction "weight bonus v" arbitrary: v w rule: less_induct)
  case less
  show ?case
  proof (cases v)
    case (JObject obj)
    have wf: "json_wf (rewritten pick obj)"
      unfolding rewritten_def using assms(1) less.prems(2) JObject by (intro apply_fixes_wf) auto
    have walk: "walk pick (JObject obj) = Some w" using less.prems(1) JObject by simp
    show ?thesis
    proof (cases "json_as_object (rewritten pick obj)")
      case None
      with walk_not_object(1) [OF None walk] wf show ?thesis by simp
    next
      case (Some members)
      then have r: "rewritten pick obj = JObject members" by simp
      obtain m where w: "w = JObject m"
        and rel: "list_all2 (\<lambda>kv kv'. fst kv' = fst kv \<and> walk pick (snd kv) = Some (snd kv')) members m"
        by (rule walk_object_members [OF r walk])
      from rel have "map fst m = map fst members"
        by (auto simp: list_all2_conv_all_nth intro!: nth_equalityI)
      moreover have "json_wf (snd kv')" if in_m: "kv' \<in> set m" for kv'
      proof -
        obtain kv where kv: "kv \<in> set members" "walk pick (snd kv) = Some (snd kv')"
          using list_all2_set_right [OF rel in_m] by blast
        moreover have "json_wf (snd kv)" using wf r kv(1) by simp
        ultimately show ?thesis using less.hyps member_lighter [OF r kv(1)] JObject by blast
      qed
      ultimately show ?thesis using w wf r by simp
    qed
  next
    case (JArray items)
    then obtain ws where w: "w = JArray ws" and rel: "list_all2 (\<lambda>v w. walk pick v = Some w) items ws"
      using less.prems(1) by (auto simp: walk_array bind_eq_Some_conv try_map_eq_Some)
    have "json_wf u" if in_ws: "u \<in> set ws" for u
    proof -
      obtain x where x: "x \<in> set items" "walk pick x = Some u" using list_all2_set_right [OF rel in_ws] by blast
      moreover have "json_wf x" using less.prems(2) JArray x(1) by simp
      ultimately show ?thesis using less.hyps weight_item JArray by blast
    qed
    with w show ?thesis by simp
  qed (use less.prems in \<open>auto simp: walk_leaf\<close>)
qed

end

lemma platform_repair_wf: "enabled_repair T e v = Some w \<Longrightarrow> json_wf v \<Longrightarrow> json_wf w"
  unfolding enabled_repair_walk
  by (rule platform_walk.walk_keeps_wf) (use enabled_pick_sub repair_rules_wf in blast)+

section \<open>Properties\<close>

definition demo_text :: text_ops where
  "demo_text = \<lparr>guid_ok = (\<lambda>s. length s = 36), datetime_ok = (\<lambda>s. s = ''2026-10-26T16:49:00+00:00'')\<rparr>"

definition viking :: bmc_quirks where
  "viking = classify (from_root (JObject [(''Vendor'', JString ''AMI''), (''RedfishVersion'', JString ''1.11.0'')]))"

definition viking_chassis :: json where
  "viking_chassis = JObject [
     (''@odata.type'', JString ''#ChassisCollection.ChassisCollection''),
     (''@odata.id'', JString ''/redfish/v1/Chassis''),
     (''Members'', JArray [JObject [
        (''@odata.type'', JString ''#Chassis.v1_22_0.Chassis''),
        (''@odata.id'', JString ''/redfish/v1/Chassis/1''),
        (''Links'', JObject [(''ContainedBy'', JObject [(''@odata.id'', JString ''/redfish/v1/Chassis/0''), (''x'', JNull)])])]])]"

definition viking_chassis_repaired :: json where
  "viking_chassis_repaired = JObject [
     (''@odata.type'', JString ''#ChassisCollection.ChassisCollection''),
     (''@odata.id'', JString ''/redfish/v1/Chassis''),
     (''Members'', JArray [JObject [
        (''@odata.type'', JString ''#Chassis.v1_22_0.Chassis''),
        (''@odata.id'', JString ''/redfish/v1/Chassis/1''),
        (''Links'', JObject [(''ContainedBy'', JObject [(''@odata.id'', JString ''/redfish/v1/Chassis/0'')])]),
        (''ChassisType'', JString ''Other''),
        (''Name'', JString ''Unnamed chassis'')]])]"

lemma demo_text_shape: "rfc3339_shape demo_text"
  by (simp add: rfc3339_shape_def demo_text_def)

lemma viking_repairs:
  "enabled_repair demo_text (enabled_for demo_text viking) viking_chassis = Some viking_chassis_repaired"
  by code_simp

lemma viking_no_stubs: "\<not> bug_incomplete_account_service_certificate_collection viking"
  by code_simp















text \<open>
  C10. Repairing returns: for every document and whatever rules are enabled, the walk that applies the
  table's rewrites to every object at every depth ends, although it goes into what the rewrites made; and
  if no object of the document has a key twice, none of the repaired document has.
\<close>

theorem platform_repair_returns: "\<exists>w. enabled_repair T e v = Some w \<and> (json_wf v \<longrightarrow> json_wf w)"
proof -
  obtain w where "enabled_repair T e v = Some w"
    unfolding enabled_repair_walk using platform_walk.walk_returns by blast
  with platform_repair_wf show ?thesis by blast
qed

theorem platform_repair_returns_witness: "json_wf viking_chassis_repaired"
proof -
  have "json_wf viking_chassis" by code_simp
  then show ?thesis
    using platform_repair_returns [of demo_text "enabled_for demo_text viking" viking_chassis] viking_repairs by simp
qed

text \<open>
  C9. A repaired document needs no repair: on every platform that does not inline certificate collection
  stubs, if an RFC 3339 time never has a colon right after its seconds, each rewrite chosen for an object
  anywhere in the repaired document leaves that object as it is, and repairing the document again gives it
  back unchanged. So a cached repaired document is what a layer over another layer would read.
\<close>

theorem platform_repair_settles:
  assumes "rfc3339_shape T" "\<not> bug_incomplete_account_service_certificate_collection q"
    and "enabled_repair T (enabled_for T q) v = Some w"
  shows "enabled_repair T (enabled_for T q) w = Some w \<and>
    (\<forall>obj \<in> set (objects_in w). \<forall>f \<in> set (enabled_pick T (enabled_for T q) obj). f (JObject obj) = JObject obj)"
  using assms platform_repair_idem platform_repair_settled unfolding enabled_repair_walk by blast

theorem platform_repair_settles_witness:
  "enabled_repair demo_text (enabled_for demo_text viking) viking_chassis_repaired = Some viking_chassis_repaired \<and>
   viking_chassis_repaired \<noteq> viking_chassis"
  using platform_repair_settles [OF demo_text_shape viking_no_stubs viking_repairs]
  by (simp add: viking_chassis_def viking_chassis_repaired_def)

text \<open>
  C35. A repair keeps the identity of a document: a string member that is none of the fifteen members the
  table changes, so \<open>@odata.id\<close>, \<open>@odata.type\<close>, \<open>@odata.etag\<close> and \<open>Id\<close> among them, is in the repaired document as
  it came, on every platform.
\<close>

theorem platform_repair_keeps_identity:
  assumes "enabled_repair T e v = Some w" "json_get v k = Some (JString s)" "k \<notin> set touched_keys"
  shows "json_get w k = Some (JString s)"
  using assms by (rule repair_keeps_member)

theorem platform_repair_keeps_identity_witness:
  "json_get viking_chassis_repaired ''@odata.id'' = Some (JString ''/redfish/v1/Chassis'')"
  by (rule platform_repair_keeps_identity [OF viking_repairs]) (simp_all add: viking_chassis_def touched_keys_def)



end
