(* ===== verification/Quirk_User.thy ===== *)
theory Quirk_User
  imports Quirk_Repair Bmc_Trait
begin

text \<open>
  The caller's repairs (\<open>quirks/src/user.rs\<close>): patterns of \<open>@odata.id\<close>s, rules that match documents by type or
  by pattern, and \<open>RulesBmc\<close>, which applies them to every document read through the transport it wraps, after
  the repair the read asks for. A caller's rewrite is any function, so its walk may not return.
\<close>

section \<open>Patterns\<close>

type_synonym id_pattern = "string list"

definition id_pattern_new :: "string \<Rightarrow> id_pattern" where
  "id_pattern_new pattern = str_split (CHR ''/'') pattern"

text \<open>\<open>all\<close> over the expected segments, each of which takes the next segment of the iterator.\<close>

fun match_segments :: "string list \<Rightarrow> string list \<Rightarrow> bool \<times> string list" where
  "match_segments [] segments = (True, segments)"
| "match_segments (expected # es) segments =
     (case segments of
        [] \<Rightarrow> (False, [])
      | s # ss \<Rightarrow> if expected = ''*'' \<or> expected = s then match_segments es ss else (False, ss))"

definition id_pattern_matches :: "id_pattern \<Rightarrow> odata_id \<Rightarrow> bool" where
  "id_pattern_matches pattern odata_id =
     (case match_segments pattern (str_split (CHR ''/'') odata_id) of
        (all, segments) \<Rightarrow> all \<and> segments = [])"

section \<open>Rules\<close>

datatype rule_match = MatchType string | MatchId id_pattern

fun match_applies :: "rule_match \<Rightarrow> type_name option \<Rightarrow> odata_id option \<Rightarrow> bool" where
  "match_applies (MatchType named) type_name odata_id =
     (case type_name of Some t \<Rightarrow> is_named t named | None \<Rightarrow> False)"
| "match_applies (MatchId pattern) type_name odata_id =
     (case odata_id of Some i \<Rightarrow> id_pattern_matches pattern i | None \<Rightarrow> False)"

record user_rule =
  ur_name :: string
  ur_matches :: rule_match
  ur_fix :: json_fix

definition document_id_of :: "json_map \<Rightarrow> odata_id option" where
  "document_id_of obj = do {
     v \<leftarrow> map_of obj ''@odata.id'';
     i \<leftarrow> json_as_str v;
     (if length obj > 1 then Some i else None)
   }"

type_synonym user_rules = "user_rule list"

definition user_pick :: "user_rules \<Rightarrow> json_map \<Rightarrow> json_fix list" where
  "user_pick rules obj =
     (let type_name = type_name_of obj; odata_id = document_id_of obj in
      map ur_fix (filter (\<lambda>rule. match_applies (ur_matches rule) type_name odata_id) rules))"

definition rules_repair :: "user_rules \<Rightarrow> repair" where
  "rules_repair rules document = (if rules = [] then Some document else walk (user_pick rules) document)"

definition then_repair :: "repair \<Rightarrow> user_rules \<Rightarrow> repair" where
  "then_repair repair rules document = do { document \<leftarrow> repair document; rules_repair rules document }"

section \<open>\<open>RulesBmc\<close>\<close>

fun flatten :: "('e, 'de) error_ops \<Rightarrow> ('e, 'de) repair_error \<Rightarrow> 'e" where
  "flatten eo (TransportFailed error) = error"
| "flatten eo (DecodeFailed error) = eo_from_decode_error eo error"

text \<open>
  The unrepaired reads (\<open>get\<close>, \<open>expand\<close>, \<open>filter\<close>) ask the transport for a read repaired with the rules; \<open>at\<close>
  is the read of the transport at its identifier and query.
\<close>

definition rules_read where
  "rules_read eo rules at s = (case at (rules_repair rules) s of (r, s) \<Rightarrow> (map_err (flatten eo) r, s))"

definition rules_get where
  "rules_get eo rules inner_get_repaired i = rules_read eo rules (inner_get_repaired i)"

definition rules_expand where
  "rules_expand eo rules inner_expand_repaired i query = rules_read eo rules (inner_expand_repaired i query)"

definition rules_filter where
  "rules_filter eo rules inner_filter_repaired i query = rules_read eo rules (inner_filter_repaired i query)"

definition rules_get_repaired where
  "rules_get_repaired rules inner_get_repaired i repair = inner_get_repaired i (then_repair repair rules)"

definition rules_expand_repaired where
  "rules_expand_repaired rules inner_expand_repaired i query repair =
     inner_expand_repaired i query (then_repair repair rules)"

definition rules_filter_repaired where
  "rules_filter_repaired rules inner_filter_repaired i query repair =
     inner_filter_repaired i query (then_repair repair rules)"

text \<open>The items of a stream, each repaired and decoded: one that does not decode is an error in its place.\<close>

definition rules_stream_item ::
  "('e, 'de) error_ops \<Rightarrow> (json \<Rightarrow> 'de + 't) \<Rightarrow> user_rules \<Rightarrow> 'e + json \<Rightarrow> ('e + 't) option" where
  "rules_stream_item eo decode rules item =
     (case item of
        Inl e \<Rightarrow> Some (Inl e)
      | Inr payload \<Rightarrow> do {
          payload \<leftarrow> rules_repair rules payload;
          Some (map_err (eo_from_decode_error eo) (decode payload))
        })"

definition rules_stream ::
  "('e, 'de) error_ops \<Rightarrow> (json \<Rightarrow> 'de + 't) \<Rightarrow> user_rules \<Rightarrow> ('e + json) list \<Rightarrow> ('e + 't) option list" where
  "rules_stream eo decode rules items = map (rules_stream_item eo decode rules) items"

definition rules_stream_event ::
  "('e, 'de) error_ops \<Rightarrow> (json \<Rightarrow> 'de + 't) \<Rightarrow> user_rules \<Rightarrow> 'e + json stream_event \<Rightarrow>
   ('e + 't stream_event) option" where
  "rules_stream_event eo decode rules item =
     (case item of
        Inl e \<Rightarrow> Some (Inl e)
      | Inr event \<Rightarrow> do {
          payload \<leftarrow> rules_repair rules (se_data event);
          Some (case decode payload of
                  Inl d \<Rightarrow> Inl (eo_from_decode_error eo d)
                | Inr data \<Rightarrow> Inr \<lparr>se_last_event_id = se_last_event_id event, se_data = data\<rparr>)
        })"

definition rules_stream_events ::
  "('e, 'de) error_ops \<Rightarrow> (json \<Rightarrow> 'de + 't) \<Rightarrow> user_rules \<Rightarrow> ('e + json stream_event) list \<Rightarrow>
   ('e + 't stream_event) option list" where
  "rules_stream_events eo decode rules items = map (rules_stream_event eo decode rules) items"

section \<open>Patterns, segment by segment\<close>

lemma match_segments_list:
  "fst (match_segments es ss) \<and> snd (match_segments es ss) = [] \<longleftrightarrow>
     list_all2 (\<lambda>expected s. expected = ''*'' \<or> expected = s) es ss"
  by (induction es ss rule: match_segments.induct) (auto split: list.split)

section \<open>When the caller's rules return\<close>

text \<open>
  Rewrites that do not deepen a document are walked to the end. One that puts the document it is given into
  a new document it matches again is not: \<open>nesting_rule\<close>.
\<close>

lemma apply_fixes_lighter:
  assumes "\<And>f v. f \<in> set fs \<Longrightarrow> members_weight b (f v) \<le> members_weight b v"
  shows "members_weight b (apply_fixes fs v) \<le> members_weight b v"
  using assms
proof (induction fs arbitrary: v)
  case (Cons f fs)
  from Cons.IH [of "f v"] Cons.prems have "members_weight b (apply_fixes fs (f v)) \<le> members_weight b (f v)" by simp
  also have "\<dots> \<le> members_weight b v" using Cons.prems by simp
  finally show ?case by (simp add: apply_fixes_def)
qed (simp add: apply_fixes_def)

definition never_deepens :: "user_rule \<Rightarrow> bool" where
  "never_deepens rule \<longleftrightarrow> (\<forall>v. members_weight (\<lambda>_. 0) (ur_fix rule v) \<le> members_weight (\<lambda>_. 0) v)"

lemma user_walkable:
  assumes "\<forall>rule \<in> set rules. never_deepens rule"
  shows "walkable (user_pick rules) (\<lambda>_. 0)"
proof
  fix obj
  have "members_weight (\<lambda>_. 0) (rewritten (user_pick rules) obj) \<le> members_weight (\<lambda>_. 0) (JObject obj)"
    unfolding rewritten_def
    by (rule apply_fixes_lighter) (use assms in \<open>auto simp: user_pick_def Let_def never_deepens_def\<close>)
  then show "members_weight (\<lambda>_. 0) (rewritten (user_pick rules) obj) \<le> members_weight (\<lambda>_. 0) (JObject obj) + 0"
    by simp
qed

lemma rules_repair_returns:
  assumes "\<forall>rule \<in> set rules. never_deepens rule"
  shows "\<exists>w. rules_repair rules v = Some w"
  using walkable.walk_returns [OF user_walkable [OF assms]] by (simp add: rules_repair_def)

definition nesting_rule :: user_rule where
  "nesting_rule = \<lparr>ur_name = ''nest'', ur_matches = MatchType ''A'',
     ur_fix = (\<lambda>v. JObject [(''@odata.type'', JString ''#A.A''), (''Inner'', v)])\<rparr>"

definition nested_document :: json where
  "nested_document = JObject [(''@odata.type'', JString ''#A.A'')]"

lemma nesting_rule_picked: "map_of obj ''@odata.type'' = Some (JString ''#A.A'') \<Longrightarrow> user_pick [nesting_rule] obj = [ur_fix nesting_rule]"
proof -
  assume "map_of obj ''@odata.type'' = Some (JString ''#A.A'')"
  moreover have "type_name_parse ''#A.A'' = Some \<lparr>tn_schema = ''A'', tn_name = ''A''\<rparr>" "type_name_parse ''A'' = None"
    by code_simp+
  ultimately show ?thesis by (simp add: user_pick_def nesting_rule_def type_name_of_def is_named_def)
qed

lemma nesting_rule_diverges: "rules_repair [nesting_rule] nested_document = None"
proof (rule ccontr)
  let ?pick = "user_pick [nesting_rule]"
  assume "rules_repair [nesting_rule] nested_document \<noteq> None"
  then obtain w where w: "walk ?pick nested_document = Some w" by (auto simp: rules_repair_def)
  have r: "rewritten ?pick [(''@odata.type'', JString ''#A.A'')] =
    JObject [(''@odata.type'', JString ''#A.A''), (''Inner'', nested_document)]"
    by (simp add: rewritten_def nesting_rule_picked apply_fixes_def nested_document_def) (simp add: nesting_rule_def)
  have nested: "walk ?pick (JObject [(''@odata.type'', JString ''#A.A'')]) =
    Some (JObject [(''@odata.type'', JString ''#A.A''), (''Inner'', w)])"
    unfolding walk_object r by (simp add: walk_leaf w)
  have "Some w = Some (JObject [(''@odata.type'', JString ''#A.A''), (''Inner'', w)])"
    unfolding w [symmetric] nested [symmetric] nested_document_def ..
  then have "w = JObject [(''@odata.type'', JString ''#A.A''), (''Inner'', w)]" by (rule option.inject [THEN iffD1])
  from arg_cong [OF this, of size] show False by simp
qed

section \<open>Properties\<close>

text \<open>
  Patterns match segment by segment: an \<open>@odata.id\<close> matches a pattern exactly when both have the same
  number of segments and each segment of the pattern is \<open>*\<close> or the segment of the identifier, although the
  code takes the segments from an iterator as it goes.
\<close>

theorem user_pattern_spec:
  "id_pattern_matches (id_pattern_new pattern) odata_id \<longleftrightarrow>
     list_all2 (\<lambda>expected s. expected = ''*'' \<or> expected = s)
       (str_split (CHR ''/'') pattern) (str_split (CHR ''/'') odata_id)"
  by (simp add: id_pattern_matches_def id_pattern_new_def match_segments_list [symmetric] case_prod_unfold)

text \<open>
  C37. The caller's rules return when none of them deepens the members of what it is given, whatever they
  match; a rule that nests the document it matches in a new one it matches too is applied for ever.
\<close>

theorem user_rules_return:
  "((\<forall>rule \<in> set rules. never_deepens rule) \<longrightarrow> (\<exists>w. rules_repair rules v = Some w)) \<and>
   rules_repair [nesting_rule] nested_document = None"
  using rules_repair_returns nesting_rule_diverges by blast

theorem user_rules_return_witness:
  "\<exists>w. rules_repair [\<lparr>ur_name = ''drop'', ur_matches = MatchId [''*''], ur_fix = (\<lambda>_. JNull)\<rparr>] nested_document = Some w"
  by (rule user_rules_return [THEN conjunct1, rule_format]) (simp add: never_deepens_def members_weight_def)

end
