(* ===== verification/Quirk_Events.thy ===== *)
theory Quirk_Events
  imports Quirk_Platform OData
begin

text \<open>
  The repairs of event stream payloads (\<open>quirks/src/events.rs\<close>): the identifiers an event and its records
  lack are made up, an empty link is removed and a compact time zone offset gets its colon. The record
  repairs a platform takes are a list of functions, applied to each record in order.
\<close>

section \<open>Repairs of one record\<close>

type_synonym record_repair = "json_map \<Rightarrow> nat \<Rightarrow> json_map"

definition sse_event_base_id :: string where
  "sse_event_base_id = ''/redfish/v1/EventService/SSE''"

definition is_reference :: "json_map \<Rightarrow> bool" where
  "is_reference rec \<longleftrightarrow> length rec = 1 \<and> obj_contains_key rec ''@odata.id''"

definition missing_record_member_id :: record_repair where
  "missing_record_member_id rec index =
     (if obj_contains_key rec ''MemberId'' \<or> is_reference rec then rec
      else
        let member_id = (case map_of rec ''EventId'' \<bind> json_as_str of
                           Some s \<Rightarrow> s | None \<Rightarrow> nat_to_string index)
        in obj_insert ''MemberId'' (JString member_id) rec)"

definition missing_event_type_to_other :: record_repair where
  "missing_event_type_to_other rec index =
     (if is_reference rec then rec
      else if map_of rec ''EventType'' = None then obj_insert ''EventType'' (JString ''Other'') rec
      else rec)"

definition empty_log_entry :: record_repair where
  "empty_log_entry rec index =
     (if map_of rec ''LogEntry'' \<bind> json_as_object = Some [] then obj_remove ''LogEntry'' rec else rec)"

definition missing_record_odata_id :: record_repair where
  "missing_record_odata_id rec index =
     (if obj_contains_key rec ''@odata.id'' then rec
      else case map_of rec ''MemberId'' \<bind> json_as_str of
             Some member_id \<Rightarrow>
               obj_insert ''@odata.id'' (JString (sse_event_base_id @ ''#/Events/'' @ member_id)) rec
           | None \<Rightarrow> rec)"

definition fix_timestamp_offset :: "string \<Rightarrow> string option" where
  "fix_timestamp_offset input = do {
     sign_index \<leftarrow> (if 5 \<le> length input then Some (length input - 5) else None);
     suf \<leftarrow> str_get_from sign_index input;
     sign \<leftarrow> (case suf of [] \<Rightarrow> None | c # _ \<Rightarrow> Some c);
     (if sign \<noteq> CHR ''+'' \<and> sign \<noteq> CHR ''-'' then None
      else do {
        pre \<leftarrow> str_get_to (sign_index + 3) input;
        minutes \<leftarrow> str_get_from (sign_index + 3) input;
        Some (pre @ '':'' @ minutes)
      })
   }"

definition compact_timestamp_offset :: record_repair where
  "compact_timestamp_offset rec index =
     (case map_of rec ''EventTimestamp'' of
        Some (JString timestamp) \<Rightarrow>
          (case fix_timestamp_offset timestamp of
             Some timestamp \<Rightarrow> obj_insert ''EventTimestamp'' (JString timestamp) rec
           | None \<Rightarrow> rec)
      | _ \<Rightarrow> rec)"

section \<open>Repairs of a payload\<close>

record event_repairs =
  er_envelope_ids :: bool
  er_records :: "record_repair list"

definition event_repairs_new :: "bmc_quirks \<Rightarrow> event_repairs" where
  "event_repairs_new quirks =
     \<lparr>er_envelope_ids = event_service_sse_missing_envelope_ids quirks,
      er_records =
        (if event_service_sse_empty_log_entry quirks then [empty_log_entry] else []) @
        (if event_service_sse_no_member_id quirks then [missing_record_member_id] else []) @
        (if event_service_sse_missing_event_type quirks then [missing_event_type_to_other] else []) @
        [missing_record_odata_id] @
        (if event_service_sse_wrong_timestamp_offset quirks then [compact_timestamp_offset] else [])\<rparr>"

definition missing_event_id :: "string option \<Rightarrow> json \<Rightarrow> json" where
  "missing_event_id last_event_id payload =
     (case last_event_id of
        None \<Rightarrow> payload
      | Some i \<Rightarrow>
          if i = [] then payload
          else if (case odata_type_parse_from payload of
                     None \<Rightarrow> True | Some kind \<Rightarrow> ot_type_name kind \<noteq> ''Event'') then payload
          else on_object (\<lambda>p. if \<not> obj_contains_key p ''Id'' \<and> \<not> obj_contains_key p ''@odata.id''
                              then obj_insert ''Id'' (JString i) p else p) payload)"

definition missing_event_odata_id :: "json \<Rightarrow> json" where
  "missing_event_odata_id payload =
     on_object (\<lambda>p.
       if obj_contains_key p ''@odata.id'' then p
       else case map_of p ''Id'' \<bind> json_as_str of
              Some event_id \<Rightarrow>
                obj_insert ''@odata.id'' (JString (sse_event_base_id @ ''#/Event'' @ event_id)) p
            | None \<Rightarrow> p) payload"

definition for_each_event_record :: "(json_map \<Rightarrow> nat \<Rightarrow> json_map) \<Rightarrow> json \<Rightarrow> json" where
  "for_each_event_record repair payload =
     on_object (obj_modify ''Events'' (\<lambda>events.
       case events of
         JArray records \<Rightarrow> JArray (map (\<lambda>(index, rec). on_object (\<lambda>rec. repair rec index) rec) (enumerate 0 records))
       | _ \<Rightarrow> events)) payload"

definition apply_record_repairs :: "record_repair list \<Rightarrow> record_repair" where
  "apply_record_repairs repairs rec index = fold (\<lambda>repair rec. repair rec index) repairs rec"

definition event_repairs_repair :: "event_repairs \<Rightarrow> string option \<Rightarrow> json \<Rightarrow> json" where
  "event_repairs_repair self last_event_id payload =
     (if map_option ot_type_name (odata_type_parse_from payload) \<notin> {Some ''Event'', Some ''MetricReport''}
      then payload
      else
        let payload = (if er_envelope_ids self then missing_event_id last_event_id payload else payload);
            payload = missing_event_odata_id payload
        in for_each_event_record (apply_record_repairs (er_records self)) payload)"

section \<open>What a record repair keeps and gives\<close>

text \<open>A record repair adds members; it removes only an empty link and rewrites only a time.\<close>

definition only_adds :: "record_repair \<Rightarrow> bool" where
  "only_adds repair \<longleftrightarrow>
     (\<forall>rec index k v. map_of rec k = Some v \<longrightarrow> k \<noteq> ''EventTimestamp'' \<longrightarrow> (k, v) \<noteq> (''LogEntry'', JObject []) \<longrightarrow>
        map_of (repair rec index) k = Some v)"

lemma record_repairs_add:
  "only_adds missing_record_member_id" "only_adds missing_event_type_to_other" "only_adds empty_log_entry"
  "only_adds missing_record_odata_id" "only_adds compact_timestamp_offset"
  by (auto simp: only_adds_def missing_record_member_id_def missing_event_type_to_other_def empty_log_entry_def
      missing_record_odata_id_def compact_timestamp_offset_def obj_simps obj_contains_key_def Let_def
      bind_eq_Some_conv split: option.splits json.splits)

lemma apply_record_repairs_add: "\<forall>r \<in> set repairs. only_adds r \<Longrightarrow> only_adds (apply_record_repairs repairs)"
proof (induction repairs)
  case (Cons r repairs)
  then have "only_adds r" "only_adds (apply_record_repairs repairs)" by simp_all
  then show ?case unfolding only_adds_def apply_record_repairs_def by simp
qed (simp add: only_adds_def apply_record_repairs_def)

lemma event_repairs_add: "only_adds (apply_record_repairs (er_records (event_repairs_new quirks)))"
  by (rule apply_record_repairs_add) (auto simp: event_repairs_new_def record_repairs_add split: if_splits)

definition repair_if :: "bool \<Rightarrow> record_repair \<Rightarrow> record_repair" where
  "repair_if p repair rec index = (if p then repair rec index else rec)"

lemma apply_records_form:
  "apply_record_repairs (er_records (event_repairs_new quirks)) rec i =
     repair_if (event_service_sse_wrong_timestamp_offset quirks) compact_timestamp_offset
       (missing_record_odata_id
         (repair_if (event_service_sse_missing_event_type quirks) missing_event_type_to_other
           (repair_if (event_service_sse_no_member_id quirks) missing_record_member_id
             (repair_if (event_service_sse_empty_log_entry quirks) empty_log_entry rec i) i) i) i) i"
  by (simp add: apply_record_repairs_def event_repairs_new_def repair_if_def)

lemma reference_kept:
  assumes "is_reference rec"
  shows "missing_record_member_id rec i = rec" "missing_event_type_to_other rec i = rec" "empty_log_entry rec i = rec"
    "missing_record_odata_id rec i = rec" "compact_timestamp_offset rec i = rec"
proof -
  from assms obtain v where "rec = [(''@odata.id'', v)]"
    by (auto simp: is_reference_def obj_contains_key_def length_Suc_conv split: if_splits)
  then show "missing_record_member_id rec i = rec" "missing_event_type_to_other rec i = rec" "empty_log_entry rec i = rec"
    "missing_record_odata_id rec i = rec" "compact_timestamp_offset rec i = rec"
    by (simp_all add: missing_record_member_id_def missing_event_type_to_other_def empty_log_entry_def
        missing_record_odata_id_def compact_timestamp_offset_def is_reference_def obj_contains_key_def)
qed

lemma reference_untouched:
  "is_reference rec \<Longrightarrow> apply_record_repairs (er_records (event_repairs_new quirks)) rec i = rec"
  by (simp add: apply_records_form repair_if_def reference_kept)

text \<open>The members the record repairs are to leave, read through each repair.\<close>

lemma record_repair_get:
  "map_of (missing_record_odata_id rec i) k = Some v \<Longrightarrow> k \<noteq> ''@odata.id'' \<Longrightarrow> map_of rec k = Some v"
  "map_of (compact_timestamp_offset rec i) k = Some v \<Longrightarrow> k \<noteq> ''EventTimestamp'' \<Longrightarrow> map_of rec k = Some v"
  "map_of (missing_event_type_to_other rec i) k = Some v \<Longrightarrow> k \<noteq> ''EventType'' \<Longrightarrow> map_of rec k = Some v"
  by (auto simp: missing_record_odata_id_def compact_timestamp_offset_def missing_event_type_to_other_def
      obj_simps split: if_splits option.splits json.splits)

lemma contains_kept:
  assumes "only_adds repair" "obj_contains_key rec k" "k \<noteq> ''EventTimestamp''" "k \<noteq> ''LogEntry''"
  shows "obj_contains_key (repair rec i) k"
  using assms unfolding only_adds_def obj_contains_key_def by (metis option.exhaust option.distinct(1) prod.inject)

lemma member_id_given:
  assumes "\<not> is_reference rec"
  shows "obj_contains_key (missing_record_member_id rec i) ''MemberId''"
    "\<not> is_reference (missing_record_member_id rec i)"
proof -
  show member: "obj_contains_key (missing_record_member_id rec i) ''MemberId''"
    using assms by (simp add: missing_record_member_id_def obj_contains_key_def obj_simps Let_def)
  show "\<not> is_reference (missing_record_member_id rec i)"
  proof
    assume "is_reference (missing_record_member_id rec i)"
    then obtain v where "missing_record_member_id rec i = [(''@odata.id'', v)]"
      by (auto simp: is_reference_def obj_contains_key_def length_Suc_conv split: if_splits)
    with member show False by (simp add: obj_contains_key_def)
  qed
qed

lemma event_type_given: "\<not> is_reference rec \<Longrightarrow> obj_contains_key (missing_event_type_to_other rec i) ''EventType''"
  by (auto simp: missing_event_type_to_other_def obj_contains_key_def obj_simps)

lemma repair_if_adds: "only_adds repair \<Longrightarrow> only_adds (repair_if p repair)"
  by (simp add: only_adds_def repair_if_def)

lemma odata_id_given:
  assumes "map_of (repair_if p compact_timestamp_offset (missing_record_odata_id rec i) i) ''MemberId'' = Some (JString s)"
  shows "obj_contains_key (missing_record_odata_id rec i) ''@odata.id''"
proof -
  have "map_of (missing_record_odata_id rec i) ''MemberId'' = Some (JString s)"
  proof (cases p)
    case True
    with assms have "map_of (compact_timestamp_offset (missing_record_odata_id rec i) i) ''MemberId'' = Some (JString s)"
      by (simp add: repair_if_def)
    then show ?thesis by (rule record_repair_get(2)) simp
  qed (use assms in \<open>simp add: repair_if_def\<close>)
  then have "map_of rec ''MemberId'' = Some (JString s)" by (rule record_repair_get(1)) simp
  then show ?thesis by (simp add: missing_record_odata_id_def obj_contains_key_def obj_simps)
qed

lemma records_identified:
  fixes quirks rec i
  defines "rec1 \<equiv> repair_if (event_service_sse_empty_log_entry quirks) empty_log_entry rec i"
    and "rec' \<equiv> apply_record_repairs (er_records (event_repairs_new quirks)) rec i"
  shows "map_of rec' ''MemberId'' = Some (JString s) \<Longrightarrow> obj_contains_key rec' ''@odata.id''"
    "event_service_sse_no_member_id quirks \<Longrightarrow> \<not> is_reference rec1 \<Longrightarrow> obj_contains_key rec' ''MemberId''"
    "event_service_sse_no_member_id quirks \<Longrightarrow> event_service_sse_missing_event_type quirks \<Longrightarrow>
     \<not> is_reference rec1 \<Longrightarrow> obj_contains_key rec' ''EventType''"
proof -
  note adds = record_repairs_add record_repairs_add [THEN repair_if_adds]
  show "obj_contains_key rec' ''@odata.id''" if "map_of rec' ''MemberId'' = Some (JString s)"
    using that odata_id_given contains_kept [OF adds(10)] unfolding rec'_def apply_records_form by simp
  show "obj_contains_key rec' ''MemberId''" if "event_service_sse_no_member_id quirks" "\<not> is_reference rec1"
    unfolding rec'_def apply_records_form rec1_def [symmetric]
    using that member_id_given(1) by (simp add: contains_kept adds repair_if_def [of True])
  show "obj_contains_key rec' ''EventType''"
    if "event_service_sse_no_member_id quirks" "event_service_sse_missing_event_type quirks" "\<not> is_reference rec1"
    unfolding rec'_def apply_records_form rec1_def [symmetric]
    using that member_id_given(2) event_type_given by (simp add: contains_kept adds repair_if_def [of True])
qed

section \<open>What a payload repair keeps and gives\<close>

lemma records_keep: "k \<noteq> ''Events'' \<Longrightarrow> json_get (for_each_event_record f payload) k = json_get payload k"
  by (cases payload) (simp_all add: for_each_event_record_def obj_simps)

lemma event_odata_id_keeps: "json_get payload k = Some v \<Longrightarrow> json_get (missing_event_odata_id payload) k = Some v"
  by (cases payload)
    (auto simp: missing_event_odata_id_def obj_contains_key_def obj_get_insert split: option.split)

lemma event_id_keeps: "json_get payload k = Some v \<Longrightarrow> json_get (missing_event_id lid payload) k = Some v"
  by (cases payload)
    (auto simp: missing_event_id_def obj_contains_key_def obj_get_insert simp del: str_split.simps split: option.split)

lemmas event_member_get = records_keep event_odata_id_keeps event_id_keeps

lemma events_of_record_repair:
  assumes "json_get payload ''Events'' = Some (JArray records)"
  shows "json_get (for_each_event_record f payload) ''Events'' =
    Some (JArray (map (\<lambda>(index, rec). on_object (\<lambda>rec. f rec index) rec) (enumerate 0 records)))"
  using assms by (cases payload) (simp_all add: for_each_event_record_def obj_simps)

lemma event_repair_kept:
  assumes "json_get payload k = Some v" "k \<noteq> ''Events''"
  shows "json_get (event_repairs_repair self lid payload) k = Some v"
  using assms event_member_get by (simp add: event_repairs_repair_def Let_def)

lemma event_repair_records:
  assumes "map_option ot_type_name (odata_type_parse_from payload) \<in> {Some ''Event'', Some ''MetricReport''}"
    and "json_get payload ''Events'' = Some (JArray records)" "i < length records"
  shows "\<exists>records'. json_get (event_repairs_repair self lid payload) ''Events'' = Some (JArray records') \<and>
    length records' = length records \<and> records' ! i = on_object (\<lambda>rec. apply_record_repairs (er_records self) rec i) (records ! i)"
proof -
  have "json_get (missing_event_odata_id (if er_envelope_ids self then missing_event_id lid payload else payload)) ''Events''
    = Some (JArray records)"
    using event_odata_id_keeps event_id_keeps assms(2) by (cases "er_envelope_ids self") simp_all
  from events_of_record_repair [OF this] assms(1,3) show ?thesis
    by (simp add: event_repairs_repair_def Let_def nth_enumerate_eq)
qed

lemma envelope_identified:
  assumes "map_option ot_type_name (odata_type_parse_from payload) = Some ''Event''"
    and "er_envelope_ids self" "i \<noteq> []" "json_get payload ''Id'' = None" "json_get payload ''@odata.id'' = None"
  shows "json_get (event_repairs_repair self (Some i) payload) ''Id'' = Some (JString i) \<and>
    json_get (event_repairs_repair self (Some i) payload) ''@odata.id'' =
      Some (JString (sse_event_base_id @ ''#/Event'' @ i))"
proof -
  obtain p where p: "payload = JObject p"
    using assms(1) by (cases payload) (auto simp: odata_type_parse_from_def)
  obtain kind where kind: "odata_type_parse_from payload = Some kind" "ot_type_name kind = ''Event''"
    using assms(1) by auto
  have "missing_event_id (Some i) payload = JObject (obj_insert ''Id'' (JString i) p)"
    using assms(3-5) kind p by (simp add: missing_event_id_def obj_contains_key_def)
  then have "missing_event_odata_id (missing_event_id (Some i) payload) =
    JObject (obj_insert ''@odata.id'' (JString (sse_event_base_id @ ''#/Event'' @ i)) (obj_insert ''Id'' (JString i) p))"
    using assms(5) p by (simp add: missing_event_odata_id_def obj_contains_key_def obj_get_insert)
  then show ?thesis
    using assms(1,2) by (simp add: event_repairs_repair_def records_keep obj_get_insert)
qed

lemma envelope_from_id:
  assumes "map_option ot_type_name (odata_type_parse_from payload) \<in> {Some ''Event'', Some ''MetricReport''}"
    and "json_get payload ''Id'' = Some (JString i)"
  shows "\<exists>v. json_get (event_repairs_repair self lid payload) ''@odata.id'' = Some v"
proof -
  let ?p = "if er_envelope_ids self then missing_event_id lid payload else payload"
  have "json_get ?p ''Id'' = Some (JString i)" using event_id_keeps assms(2) by simp
  then have "\<exists>v. json_get (missing_event_odata_id ?p) ''@odata.id'' = Some v"
    by (cases ?p) (auto simp: missing_event_odata_id_def obj_contains_key_def obj_get_insert split: option.split)
  then show ?thesis using assms(1) by (simp add: event_repairs_repair_def Let_def records_keep)
qed

section \<open>Properties\<close>

definition demo_event :: json where
  "demo_event = JObject [
     (''@odata.type'', JString ''#Event.v1_7_0.Event''),
     (''Events'', JArray [JObject [(''EventId'', JString ''42''), (''LogEntry'', JObject [])]])]"

definition vera_rubin :: bmc_quirks where
  "vera_rubin = classify (from_root (demo_root ''NVIDIA'' ''VR NVL72'' []))"

text \<open>
  C36. Event repairs never overwrite: a payload that is neither an event nor a metric report comes back as it
  came; of any other, every member but the records stays, and of every record every member stays but an
  empty \<open>LogEntry\<close> and the \<open>EventTimestamp\<close>; a record that is only a reference stays as it is.
\<close>

theorem event_repairs_never_overwrite:
  fixes q lid payload
  defines "payload' \<equiv> event_repairs_repair (event_repairs_new q) lid payload"
    and "kind \<equiv> map_option ot_type_name (odata_type_parse_from payload)"
  shows "(kind \<notin> {Some ''Event'', Some ''MetricReport''} \<longrightarrow> payload' = payload) \<and>
    (\<forall>k v. json_get payload k = Some v \<longrightarrow> k \<noteq> ''Events'' \<longrightarrow> json_get payload' k = Some v) \<and>
    (\<forall>records i rec. kind \<in> {Some ''Event'', Some ''MetricReport''} \<longrightarrow>
       json_get payload ''Events'' = Some (JArray records) \<longrightarrow> i < length records \<longrightarrow> records ! i = JObject rec \<longrightarrow>
       (\<exists>records' rec'. json_get payload' ''Events'' = Some (JArray records') \<and> records' ! i = JObject rec' \<and>
          (is_reference rec \<longrightarrow> rec' = rec) \<and>
          (\<forall>k v. map_of rec k = Some v \<longrightarrow> k \<noteq> ''EventTimestamp'' \<longrightarrow> (k, v) \<noteq> (''LogEntry'', JObject []) \<longrightarrow>
             map_of rec' k = Some v)))"
proof (intro conjI allI impI)
  show "payload' = payload" if "kind \<notin> {Some ''Event'', Some ''MetricReport''}"
    using that unfolding payload'_def kind_def event_repairs_repair_def by simp
  show "json_get payload' k = Some v" if "json_get payload k = Some v" "k \<noteq> ''Events''" for k v
    using event_repair_kept [OF that] unfolding payload'_def .
  fix records i rec
  assume kind: "kind \<in> {Some ''Event'', Some ''MetricReport''}"
    and records: "json_get payload ''Events'' = Some (JArray records)" "i < length records" "records ! i = JObject rec"
  let ?rec' = "apply_record_repairs (er_records (event_repairs_new q)) rec i"
  obtain records' where "json_get payload' ''Events'' = Some (JArray records')" "records' ! i = JObject ?rec'"
    using event_repair_records [OF kind [unfolded kind_def] records(1,2)] records(3) unfolding payload'_def by fastforce
  moreover have "is_reference rec \<longrightarrow> ?rec' = rec" by (simp add: reference_untouched)
  moreover have "\<forall>k v. map_of rec k = Some v \<longrightarrow> k \<noteq> ''EventTimestamp'' \<longrightarrow> (k, v) \<noteq> (''LogEntry'', JObject []) \<longrightarrow>
      map_of ?rec' k = Some v"
    using event_repairs_add unfolding only_adds_def by blast
  ultimately show "\<exists>records' rec'. json_get payload' ''Events'' = Some (JArray records') \<and> records' ! i = JObject rec' \<and>
      (is_reference rec \<longrightarrow> rec' = rec) \<and>
      (\<forall>k v. map_of rec k = Some v \<longrightarrow> k \<noteq> ''EventTimestamp'' \<longrightarrow> (k, v) \<noteq> (''LogEntry'', JObject []) \<longrightarrow>
         map_of rec' k = Some v)" by blast
qed

lemma demo_event_kind: "map_option ot_type_name (odata_type_parse_from demo_event) = Some ''Event''"
  by code_simp

theorem event_repairs_never_overwrite_witness:
  "json_get (event_repairs_repair (event_repairs_new vera_rubin) (Some ''7'') demo_event) ''@odata.type'' =
     Some (JString ''#Event.v1_7_0.Event'')"
  using event_repairs_never_overwrite [where payload = demo_event and q = vera_rubin and lid = "Some ''7''"]
  by (simp add: demo_event_def)

text \<open>
  Event repairs identify: an event that has an \<open>Id\<close> gets an \<open>@odata.id\<close>, and on a platform that omits
  both, an event delivered under an SSE id gets both from it. Every record with a textual \<open>MemberId\<close> has
  an \<open>@odata.id\<close> afterwards; on a platform that omits \<open>MemberId\<close> every record that is not only a reference has
  one, and an \<open>EventType\<close> where the platform omits that too.
\<close>

theorem event_repairs_identify:
  fixes q :: bmc_quirks and lid :: "string option"
  assumes kind: "map_option ot_type_name (odata_type_parse_from payload) = Some ''Event''"
    and records: "json_get payload ''Events'' = Some (JArray records)" "i < length records" "records ! i = JObject rec"
  defines "payload' \<equiv> event_repairs_repair (event_repairs_new q) lid payload"
    and "rec1 \<equiv> if event_service_sse_empty_log_entry q then empty_log_entry rec i else rec"
  shows "(\<forall>s. json_get payload ''Id'' = Some (JString s) \<longrightarrow> json_get payload' ''@odata.id'' \<noteq> None) \<and>
    (\<forall>s. event_service_sse_missing_envelope_ids q \<longrightarrow> lid = Some s \<longrightarrow> s \<noteq> [] \<longrightarrow>
       json_get payload ''Id'' = None \<longrightarrow> json_get payload ''@odata.id'' = None \<longrightarrow>
       json_get payload' ''Id'' = Some (JString s) \<and>
       json_get payload' ''@odata.id'' = Some (JString (sse_event_base_id @ ''#/Event'' @ s))) \<and>
    (\<exists>records' rec'. json_get payload' ''Events'' = Some (JArray records') \<and> records' ! i = JObject rec' \<and>
       (\<forall>s. map_of rec' ''MemberId'' = Some (JString s) \<longrightarrow> obj_contains_key rec' ''@odata.id'') \<and>
       (event_service_sse_no_member_id q \<longrightarrow> \<not> is_reference rec1 \<longrightarrow> obj_contains_key rec' ''MemberId'' \<and>
          (event_service_sse_missing_event_type q \<longrightarrow> obj_contains_key rec' ''EventType'')))"
proof (intro conjI allI impI)
  have in_kind: "map_option ot_type_name (odata_type_parse_from payload) \<in> {Some ''Event'', Some ''MetricReport''}"
    using kind by simp
  show "json_get payload' ''@odata.id'' \<noteq> None" if "json_get payload ''Id'' = Some (JString s)" for s
    using envelope_from_id [OF in_kind that] unfolding payload'_def by fastforce
  show "json_get payload' ''Id'' = Some (JString s)"
    "json_get payload' ''@odata.id'' = Some (JString (sse_event_base_id @ ''#/Event'' @ s))"
    if "event_service_sse_missing_envelope_ids q" "lid = Some s" "s \<noteq> []"
      "json_get payload ''Id'' = None" "json_get payload ''@odata.id'' = None" for s
    using envelope_identified [OF kind, of "event_repairs_new q" s] that
    unfolding payload'_def by (simp_all add: event_repairs_new_def)
  let ?rec' = "apply_record_repairs (er_records (event_repairs_new q)) rec i"
  have "rec1 = repair_if (event_service_sse_empty_log_entry q) empty_log_entry rec i"
    by (simp add: rec1_def repair_if_def)
  note given = records_identified [of q rec i, folded this]
  obtain records' where "json_get payload' ''Events'' = Some (JArray records')" "records' ! i = JObject ?rec'"
    using event_repair_records [OF in_kind records(1,2)] records(3) unfolding payload'_def by fastforce
  moreover have "\<forall>s. map_of ?rec' ''MemberId'' = Some (JString s) \<longrightarrow> obj_contains_key ?rec' ''@odata.id''"
    using given(1) by blast
  moreover have "event_service_sse_no_member_id q \<longrightarrow> \<not> is_reference rec1 \<longrightarrow> obj_contains_key ?rec' ''MemberId'' \<and>
      (event_service_sse_missing_event_type q \<longrightarrow> obj_contains_key ?rec' ''EventType'')"
    using given(2,3) by blast
  ultimately show "\<exists>records' rec'. json_get payload' ''Events'' = Some (JArray records') \<and> records' ! i = JObject rec' \<and>
      (\<forall>s. map_of rec' ''MemberId'' = Some (JString s) \<longrightarrow> obj_contains_key rec' ''@odata.id'') \<and>
      (event_service_sse_no_member_id q \<longrightarrow> \<not> is_reference rec1 \<longrightarrow> obj_contains_key rec' ''MemberId'' \<and>
         (event_service_sse_missing_event_type q \<longrightarrow> obj_contains_key rec' ''EventType''))" by blast
qed

theorem event_repairs_identify_witness:
  "json_get (event_repairs_repair (event_repairs_new vera_rubin) (Some ''7'') demo_event) ''@odata.id'' =
     Some (JString ''/redfish/v1/EventService/SSE#/Event7'')"
proof -
  have "json_get demo_event ''Events'' = Some (JArray [JObject [(''EventId'', JString ''42''), (''LogEntry'', JObject [])]])"
    by (simp add: demo_event_def)
  moreover have "event_service_sse_missing_envelope_ids vera_rubin" by code_simp
  moreover have "json_get demo_event ''Id'' = None" "json_get demo_event ''@odata.id'' = None"
    by (simp_all add: demo_event_def)
  ultimately show ?thesis
    using event_repairs_identify [OF demo_event_kind, where i = 0 and q = vera_rubin and lid = "Some ''7''"]
    by (fastforce simp: sse_event_base_id_def)
qed

text \<open>
  The time zone repair inserts the colon of an offset written with four digits and nothing else: the
  instant's text before the minutes, a colon, then the minutes. A time so repaired, and any whose fifth
  last byte is not a sign, is left alone.
\<close>

theorem event_timestamp_offset:
  assumes "s \<in> {CHR ''+'', CHR ''-''}" "list_all is_ascii_digit [h1, h2, m1, m2]"
  shows "fix_timestamp_offset (t @ [s, h1, h2, m1, m2]) = Some (t @ [s, h1, h2, CHR '':'', m1, m2]) \<and>
    fix_timestamp_offset (t @ [s, h1, h2, CHR '':'', m1, m2]) = None"
proof -
  have ascii: "is_ascii_digit c \<Longrightarrow> c \<noteq> CHR ''+'' \<and> c \<noteq> CHR ''-'' \<and> (of_char c :: nat) < 0x80" for c
    by (auto simp: is_ascii_digit_def)
  have sign: "(of_char s :: nat) < 0x80" using assms(1) by auto
  have "h1 \<noteq> CHR ''+'' \<and> h1 \<noteq> CHR ''-'' \<and> (of_char h1 :: nat) < 0x80" "(of_char m1 :: nat) < 0x80"
    using assms(2) ascii [of h1] ascii [of m1] by simp_all
  then show ?thesis
    using assms(1) sign
    by (auto simp: fix_timestamp_offset_def str_get_from_def str_get_to_def is_char_boundary_def nth_append)
qed

theorem event_timestamp_offset_witness:
  "fix_timestamp_offset ''2026-01-02T03:04:05-0600'' = Some ''2026-01-02T03:04:05-06:00''"
  using event_timestamp_offset [of "CHR ''-''" "CHR ''0''" "CHR ''6''" "CHR ''0''" "CHR ''0''" "''2026-01-02T03:04:05''"]
  by (simp add: is_ascii_digit_def)

end
