(* ===== verification/Quirk_Replies.thy ===== *)
theory Quirk_Replies
  imports Quirk_Rules Bmc_Trait
begin

text \<open>
  Replies a platform gives to a write it accepted that the transport reads as failures
  (\<open>quirks/src/replies.rs\<close>). Parsing a body as JSON is the argument \<open>from_str\<close>.
\<close>

section \<open>iLO's success messages\<close>

definition ilo_success_messages :: "string list" where
  "ilo_success_messages = [''SystemResetRequired'', ''ResetRequired'', ''DeviceResetRequired'', ''Accepted'',
     ''PropertyValueAlreadySet'']"

definition outcomes :: "string list" where
  "outcomes = [''Success'', ''Created'', ''NoOperation'']"

definition registry_and_key :: "string \<Rightarrow> string \<times> string" where
  "registry_and_key i =
     (case str_split (CHR ''.'') i of registry # _ \<Rightarrow> registry | [] \<Rightarrow> i,
      case str_rsplit_once (CHR ''.'') i of Some (_, key) \<Rightarrow> key | None \<Rightarrow> i)"

definition message_critical :: "json \<Rightarrow> bool" where
  "message_critical message \<longleftrightarrow>
     list_ex (\<lambda>property. json_get message property \<bind> json_as_str = Some ''Critical'')
       [''MessageSeverity'', ''Severity'']"

definition message_id_of :: "json \<Rightarrow> (string \<times> string) option" where
  "message_id_of message =
     (if message_critical message then None
      else do {
        v \<leftarrow> json_get message ''MessageId'';
        s \<leftarrow> json_as_str v;
        Some (registry_and_key s)
      })"

definition ilo_success :: "(string \<Rightarrow> json option) \<Rightarrow> string \<Rightarrow> json option" where
  "ilo_success from_str body = do {
     reply \<leftarrow> from_str body;
     error \<leftarrow> json_get reply ''error'';
     code \<leftarrow> json_get error ''code'';
     code \<leftarrow> json_as_str code;
     let (registry, key) = registry_and_key code;
     (if key \<noteq> ''ExtendedInfo'' then None
      else do {
        messages \<leftarrow> json_get error ''@Message.ExtendedInfo'';
        messages \<leftarrow> json_as_array messages;
        ids \<leftarrow> try_map message_id_of messages;
        let names_outcome = list_ex (\<lambda>(_, key). key \<in> set outcomes) ids;
        let only_ilo_successes =
          (ids \<noteq> [] \<and> list_all (\<lambda>(message_registry, key). message_registry = registry \<and> key \<in> set ilo_success_messages) ids);
        (if names_outcome \<or> only_ilo_successes then Some reply else None)
      })
   }"

section \<open>The replies of a platform\<close>

type_synonym reply_reader = "string \<Rightarrow> json option"

definition success_replies_new :: "(string \<Rightarrow> json option) \<Rightarrow> bmc_quirks \<Rightarrow> reply_reader list" where
  "success_replies_new from_str quirks =
     (if bug_success_as_extended_info_error quirks then [ilo_success from_str] else [])"

definition success_replies_read :: "('e, 'de) error_ops \<Rightarrow> reply_reader list \<Rightarrow> 'e \<Rightarrow> json option" where
  "success_replies_read eo readers error =
     (if eo_error_class eo error \<noteq> HttpResponse 200 then None
      else do { body \<leftarrow> eo_response_body eo error; find_map (\<lambda>read. read body) readers })"

section \<open>Replies that are annotations alone\<close>

definition annotation_only_reply_keys :: "string list" where
  "annotation_only_reply_keys = [''@odata.context'', ''@odata.type'']"

datatype 'r update_reply = ResourceReply 'r | AnnotationsOnly

fun into_response :: "'r update_reply modification_response \<Rightarrow> 'r modification_response" where
  "into_response (Entity (ResourceReply resource)) = Entity resource"
| "into_response (Entity AnnotationsOnly) = Empty"
| "into_response Empty = Empty"
| "into_response (Task task) = Task task"
| "into_response (Message message) = Message message"

definition annotations_only :: "json \<Rightarrow> bool" where
  "annotations_only reply \<longleftrightarrow>
     (case json_as_object reply of
        Some m \<Rightarrow> m \<noteq> [] \<and> list_all (\<lambda>key. key \<in> set annotation_only_reply_keys) (map fst m)
      | None \<Rightarrow> False)"

text \<open>\<open>custom\<close> is \<open>D::Error::custom\<close>.\<close>

definition update_reply_deserialize ::
  "('de \<Rightarrow> 'df) \<Rightarrow> (json \<Rightarrow> 'de + 'r) \<Rightarrow> json \<Rightarrow> 'df + 'r update_reply" where
  "update_reply_deserialize custom decode reply =
     (if annotations_only reply then Inr AnnotationsOnly
      else case decode reply of Inl e \<Rightarrow> Inl (custom e) | Inr r \<Rightarrow> Inr (ResourceReply r))"

section \<open>What a success reply is\<close>

lemma try_map_all: "try_map f xs = Some ys \<longleftrightarrow> (\<forall>x \<in> set xs. f x \<noteq> None) \<and> ys = map (the \<circ> f) xs"
  by (induction xs arbitrary: ys) (auto simp: bind_eq_Some_conv)

definition ilo_messages :: "json \<Rightarrow> json list" where
  "ilo_messages error =
     (case json_get error ''@Message.ExtendedInfo'' of Some (JArray ms) \<Rightarrow> ms | _ \<Rightarrow> [])"

lemma ilo_success_Some:
  "ilo_success from_str body = Some v \<longleftrightarrow>
     from_str body = Some v \<and>
     (\<exists>error code ms. json_get v ''error'' = Some error \<and> json_get error ''code'' = Some (JString code) \<and>
        snd (registry_and_key code) = ''ExtendedInfo'' \<and>
        json_get error ''@Message.ExtendedInfo'' = Some (JArray ms) \<and>
        (\<forall>m \<in> set ms. message_id_of m \<noteq> None) \<and>
        ((\<exists>m \<in> set ms. snd (the (message_id_of m)) \<in> set outcomes) \<or>
         ms \<noteq> [] \<and> (\<forall>m \<in> set ms. fst (the (message_id_of m)) = fst (registry_and_key code) \<and>
           snd (the (message_id_of m)) \<in> set ilo_success_messages)))"
proof -
  have arr: "json_as_array x = Some ms \<longleftrightarrow> x = JArray ms" for x ms by (cases x) auto
  have guards: "(if p then None else x) = Some v \<longleftrightarrow> \<not> p \<and> x = Some v"
    "(if p then Some y else None) = Some v \<longleftrightarrow> p \<and> y = v" for p x y by simp_all
  show ?thesis
    unfolding ilo_success_def Let_def case_prod_unfold bind_eq_Some_conv guards try_map_all json_as_str_Some arr
    by (auto simp: list_ex_iff list_all_iff comp_def)
qed

lemma message_id_of_not_critical: "message_id_of m \<noteq> None \<Longrightarrow> \<not> message_critical m"
  by (auto simp: message_id_of_def)

end
