(* ===== verification/Quirk_Compat.thy ===== *)
theory Quirk_Compat
  imports Quirk_User Quirk_Events Quirk_Replies
begin

text \<open>
  The compatibility layer \<open>CompatBmc\<close> (\<open>quirks/src/compat.rs\<close>) over a transport: classification from the
  service root, reads repaired with the platform's enabled rules, the quirks of an update and of an action,
  and event streams. The transport's operations a method calls are its arguments; \<open>eo\<close> is what the layer
  asks of the transport's errors.
\<close>

record compat_bmc =
  cb_quirks :: bmc_quirks
  cb_enabled :: enabled

definition compat_new :: "text_ops \<Rightarrow> bmc_quirks \<Rightarrow> compat_bmc" where
  "compat_new T quirks = \<lparr>cb_quirks = quirks, cb_enabled = enabled_for T quirks\<rparr>"

definition compat_classify ::
  "text_ops \<Rightarrow> ('e, 'de) error_ops \<Rightarrow> (odata_id \<Rightarrow> 's \<Rightarrow> ('e + raw) \<times> 's) \<Rightarrow> 's \<Rightarrow>
   (('e, 'de) repair_error + compat_bmc) \<times> 's" where
  "compat_classify T eo inner_get_raw s =
     (case inner_get_raw service_root s of
        (Inl e, s) \<Rightarrow> (Inl (from_transport (eo_into_decode_error eo) e), s)
      | (Inr root, s) \<Rightarrow> (Inr (compat_new T (classify (from_root (raw_value root)))), s))"

definition platform_repair :: "text_ops \<Rightarrow> compat_bmc \<Rightarrow> repair" where
  "platform_repair T self = enabled_repair T (cb_enabled self)"

definition failed_write ::
  "('e, 'de) error_ops \<Rightarrow> (string \<Rightarrow> json option) \<Rightarrow> compat_bmc \<Rightarrow> 'e \<Rightarrow>
   ('e, 'de) repair_error + 'r modification_response" where
  "failed_write eo from_str self error =
     (case success_replies_read eo (success_replies_new from_str (cb_quirks self)) error of
        None \<Rightarrow> Inl (from_transport (eo_into_decode_error eo) error)
      | Some reply \<Rightarrow> Inr (Message reply))"

definition compat_decode :: "text_ops \<Rightarrow> (json \<Rightarrow> 'de + 't) \<Rightarrow> compat_bmc \<Rightarrow> json \<Rightarrow> ('de + 't) option" where
  "compat_decode T decode self document = do {
     document \<leftarrow> platform_repair T self document;
     Some (decode document)
   }"

section \<open>Reads\<close>

definition compat_get where
  "compat_get T self inner_get_repaired i = inner_get_repaired i (platform_repair T self)"

definition compat_expand where
  "compat_expand T self inner_expand_repaired i query = inner_expand_repaired i query (platform_repair T self)"

definition compat_filter where
  "compat_filter T self inner_filter_repaired i query = inner_filter_repaired i query (platform_repair T self)"

text \<open>Another repair on top of the layer's: the document is read through the layer as JSON and repaired again.\<close>

definition compat_get_repaired where
  "compat_get_repaired T decode self inner_get_raw_repaired i repair s =
     (case compat_get T self inner_get_raw_repaired i s of (r, s) \<Rightarrow> (decode_raw decode r repair, s))"

definition compat_expand_repaired where
  "compat_expand_repaired T decode self inner_expand_raw_repaired i query repair s =
     (case compat_expand T self inner_expand_raw_repaired i query s of (r, s) \<Rightarrow> (decode_raw decode r repair, s))"

definition compat_filter_repaired where
  "compat_filter_repaired T decode self inner_filter_raw_repaired i query repair s =
     (case compat_filter T self inner_filter_raw_repaired i query s of (r, s) \<Rightarrow> (decode_raw decode r repair, s))"

section \<open>Writes\<close>

text \<open>\<open>or_else(|error| self.failed_write(error))\<close>, and the writes that end so.\<close>

definition or_failed_write ::
  "('e, 'de) error_ops \<Rightarrow> (string \<Rightarrow> json option) \<Rightarrow> compat_bmc \<Rightarrow> 'e + 'r modification_response \<Rightarrow>
   ('e, 'de) repair_error + 'r modification_response" where
  "or_failed_write eo from_str self r =
     (case r of Inl error \<Rightarrow> failed_write eo from_str self error | Inr response \<Rightarrow> Inr response)"

definition compat_create where
  "compat_create eo from_str self inner_create i v s =
     (case inner_create i v s of (r, s) \<Rightarrow> (or_failed_write eo from_str self r, s))"

definition compat_create_session where
  "compat_create_session eo inner_create_session i v s =
     (case inner_create_session i v s of (r, s) \<Rightarrow> (map_err (from_transport (eo_into_decode_error eo)) r, s))"

definition compat_delete where
  "compat_delete eo from_str self inner_delete i s =
     (case inner_delete i s of (r, s) \<Rightarrow> (or_failed_write eo from_str self r, s))"

definition compat_poll where
  "compat_poll eo from_str self inner_poll uri s =
     (case inner_poll uri s of (r, s) \<Rightarrow> (or_failed_write eo from_str self r, s))"

definition compat_multipart_update where
  "compat_multipart_update eo from_str self inner_multipart_update uri request s =
     (case inner_multipart_update uri request s of (r, s) \<Rightarrow> (or_failed_write eo from_str self r, s))"

definition compat_http_push_uri_update where
  "compat_http_push_uri_update eo from_str self inner_http_push_uri_update uri request s =
     (case inner_http_push_uri_update uri request s of (r, s) \<Rightarrow> (or_failed_write eo from_str self r, s))"

text \<open>
  The match that ends \<open>update\<close> and \<open>action\<close>: a \<open>202\<close> with nothing to poll is an empty success on a platform
  that answers so.
\<close>

definition accepted_without_task ::
  "('e, 'de) error_ops \<Rightarrow> (string \<Rightarrow> json option) \<Rightarrow> compat_bmc \<Rightarrow> bool \<Rightarrow> 'e + 'r modification_response \<Rightarrow>
   ('e, 'de) repair_error + 'r modification_response" where
  "accepted_without_task eo from_str self quirk r =
     (case r of
        Inl error \<Rightarrow>
          if quirk \<and> eo_error_class eo error = HttpResponse 202 then Inr Empty
          else failed_write eo from_str self error
      | Inr response \<Rightarrow> Inr response)"

text \<open>\<open>update\<close>; \<open>inner_update_reply\<close> is the transport's update whose reply is read as an \<open>UpdateReply\<close>.\<close>

definition compat_update ::
  "('e, 'de) error_ops \<Rightarrow> (string \<Rightarrow> json option) \<Rightarrow> compat_bmc \<Rightarrow>
   (odata_id \<Rightarrow> 's \<Rightarrow> ('e + raw) \<times> 's) \<Rightarrow>
   (odata_id \<Rightarrow> odata_etag option \<Rightarrow> 'b \<Rightarrow> 's \<Rightarrow> ('e + 'r update_reply modification_response) \<times> 's) \<Rightarrow>
   (odata_id \<Rightarrow> odata_etag option \<Rightarrow> 'b \<Rightarrow> 's \<Rightarrow> ('e + 'r modification_response) \<times> 's) \<Rightarrow>
   odata_id \<Rightarrow> odata_etag option \<Rightarrow> 'b \<Rightarrow> 's \<Rightarrow> (('e, 'de) repair_error + 'r modification_response) \<times> 's" where
  "compat_update eo from_str self inner_get_raw inner_update_reply inner_update i etag update s =
     (let (etag, s) =
        (if bug_rejects_own_etag (cb_quirks self) then (Inr None, s)
         else if etag = None \<and> bug_rejects_wildcard_etag (cb_quirks self) then
           (case inner_get_raw i s of
              (Inl e, s) \<Rightarrow> (Inl (from_transport (eo_into_decode_error eo) e), s)
            | (Inr read, s) \<Rightarrow> (Inr (raw_etag read), s))
         else (Inr etag, s))
      in case etag of
        Inl e \<Rightarrow> (Inl e, s)
      | Inr etag \<Rightarrow>
          let (response, s) =
            (if bug_annotation_only_update_reply (cb_quirks self) then
               (case inner_update_reply i etag update s of (r, s) \<Rightarrow>
                  (case r of Inl e \<Rightarrow> Inl e | Inr response \<Rightarrow> Inr (into_response response), s))
             else inner_update i etag update s)
          in (accepted_without_task eo from_str self (bug_accepted_update_without_task (cb_quirks self)) response, s))"

definition compat_action where
  "compat_action eo from_str self inner_action action params s =
     (case inner_action action params s of (r, s) \<Rightarrow>
        (accepted_without_task eo from_str self (bug_accepted_action_without_task (cb_quirks self)) r, s))"

section \<open>Streams\<close>

definition stream_repair :: "text_ops \<Rightarrow> compat_bmc \<Rightarrow> string option \<Rightarrow> repair" where
  "stream_repair T self last_event_id payload =
     platform_repair T self (event_repairs_repair (event_repairs_new (cb_quirks self)) last_event_id payload)"

definition compat_stream_item ::
  "text_ops \<Rightarrow> ('e, 'de) error_ops \<Rightarrow> (json \<Rightarrow> 'de + 't) \<Rightarrow> compat_bmc \<Rightarrow> 'e + json \<Rightarrow>
   (('e, 'de) repair_error + 't) option" where
  "compat_stream_item T eo decode self item =
     (case item of
        Inl e \<Rightarrow> Some (Inl (from_transport (eo_into_decode_error eo) e))
      | Inr payload \<Rightarrow> do {
          payload \<leftarrow> stream_repair T self None payload;
          Some (map_err DecodeFailed (decode payload))
        })"

definition compat_stream where
  "compat_stream T eo decode self inner_stream uri s =
     (case inner_stream uri s of
        (Inl e, s) \<Rightarrow> (Inl (from_transport (eo_into_decode_error eo) e), s)
      | (Inr items, s) \<Rightarrow> (Inr (map (compat_stream_item T eo decode self) items), s))"

definition compat_stream_event ::
  "text_ops \<Rightarrow> ('e, 'de) error_ops \<Rightarrow> (json \<Rightarrow> 'de + 't) \<Rightarrow> compat_bmc \<Rightarrow> 'e + json stream_event \<Rightarrow>
   (('e, 'de) repair_error + 't stream_event) option" where
  "compat_stream_event T eo decode self item =
     (case item of
        Inl e \<Rightarrow> Some (Inl (from_transport (eo_into_decode_error eo) e))
      | Inr event \<Rightarrow> do {
          payload \<leftarrow> stream_repair T self (se_last_event_id event) (se_data event);
          Some (case decode payload of
                  Inl d \<Rightarrow> Inl (DecodeFailed d)
                | Inr data \<Rightarrow> Inr \<lparr>se_last_event_id = se_last_event_id event, se_data = data\<rparr>)
        })"

definition compat_stream_events where
  "compat_stream_events T eo decode self inner_stream_events uri last_event_id s =
     (case inner_stream_events uri last_event_id s of
        (Inl e, s) \<Rightarrow> (Inl (from_transport (eo_into_decode_error eo) e), s)
      | (Inr items, s) \<Rightarrow> (Inr (map (compat_stream_event T eo decode self) items), s))"

section \<open>Failed writes\<close>



lemma failed_write_error:
  "success_replies_read eo (success_replies_new from_str (cb_quirks self)) error = None \<Longrightarrow>
   failed_write eo from_str self error = Inl (from_transport (eo_into_decode_error eo) error)"
  by (simp add: failed_write_def)


section \<open>Properties\<close>


text \<open>The ETags an update through the layer can carry to the transport.\<close>

definition sent_etags ::
  "compat_bmc \<Rightarrow> (odata_id \<Rightarrow> 's \<Rightarrow> ('e + raw) \<times> 's) \<Rightarrow> odata_id \<Rightarrow> odata_etag option \<Rightarrow> 's \<Rightarrow> odata_etag option set" where
  "sent_etags self get_raw i etag s =
     (if bug_rejects_own_etag (cb_quirks self) then {None}
      else if etag = None \<and> bug_rejects_wildcard_etag (cb_quirks self) then
        (case fst (get_raw i s) of Inr read \<Rightarrow> {raw_etag read} | Inl _ \<Rightarrow> {})
      else {etag})"

text \<open>
  C13. An update carries the ETag the platform accepts and no other: none where the firmware refuses the ETag
  it served; where it refuses a wildcard and the caller gave none, the one of the resource as just read, and
  no update at all when that read fails; the caller's otherwise. Transports that differ only on updates with
  other ETags cannot be told apart through the layer.
\<close>

theorem compat_update_etags:
  assumes "\<forall>e \<in> sent_etags self get_raw i etag s. \<forall>b s. upd i e b s = upd' i e b s \<and> upd_reply i e b s = upd_reply' i e b s"
  shows "compat_update eo from_str self get_raw upd_reply upd i etag b s =
    compat_update eo from_str self get_raw upd_reply' upd' i etag b s"
  using assms by (auto simp: compat_update_def sent_etags_def Let_def split: prod.splits sum.splits if_splits)

text \<open>
  Through the layer over the caller's rules, every read asks the transport for one repair: the
  platform's, then the caller's rules on what it left. It returns for every document unless a rule deepens
  what it is given.
\<close>

theorem compat_rules_order:
  fixes T q
  defines "R \<equiv> \<lambda>rules document. enabled_repair T (enabled_for T q) document \<bind> rules_repair rules"
  shows "compat_get T (compat_new T q) (rules_get_repaired rules inner_get) i = inner_get i (R rules) \<and>
    compat_expand T (compat_new T q) (rules_expand_repaired rules inner_query) i query = inner_query i query (R rules) \<and>
    compat_filter T (compat_new T q) (rules_filter_repaired rules inner_query) i query = inner_query i query (R rules) \<and>
    ((\<forall>rule \<in> set rules. never_deepens rule) \<longrightarrow> (\<exists>w. R rules document = Some w))"
proof -
  have "then_repair (platform_repair T (compat_new T q)) rules = R rules"
    by (rule ext) (simp add: R_def then_repair_def platform_repair_def compat_new_def)
  moreover have "\<exists>w. R rules document = Some w" if "\<forall>rule \<in> set rules. never_deepens rule"
    using rules_repair_returns [OF that] platform_walk.walk_returns
    unfolding R_def enabled_repair_walk by (metis bind.bind_lunit)
  ultimately show ?thesis
    by (simp add: compat_get_def compat_expand_def compat_filter_def rules_get_repaired_def rules_expand_repaired_def
        rules_filter_repaired_def)
qed

text \<open>
  A stream through the layer delivers one item for each the transport delivers, in order: an error of
  the transport in its place, and for each payload either the value decoded from the payload after the event
  repairs and the document repairs, under the SSE id it came with, or one decode error. No item keeps the
  stream from going on.
\<close>

theorem compat_stream_items:
  assumes "inner_stream_events uri lid s = (Inr items, s')" "j < length items"
  shows "\<exists>out. compat_stream_events T eo decode self inner_stream_events uri lid s = (Inr out, s') \<and>
    length out = length items \<and>
    (case items ! j of
       Inl e \<Rightarrow> out ! j = Some (Inl (from_transport (eo_into_decode_error eo) e))
     | Inr ev \<Rightarrow>
         (\<exists>w. stream_repair T self (se_last_event_id ev) (se_data ev) = Some w \<and>
            out ! j = Some (case decode w of
              Inl d \<Rightarrow> Inl (DecodeFailed d)
            | Inr t \<Rightarrow> Inr \<lparr>se_last_event_id = se_last_event_id ev, se_data = t\<rparr>)))"
proof -
  have "\<exists>w. stream_repair T self l p = Some w" for l p
    using platform_walk.walk_returns by (simp add: stream_repair_def platform_repair_def enabled_repair_walk)
  then obtain w where w: "\<And>l p. stream_repair T self l p = Some (w l p)" by metis
  let ?out = "map (compat_stream_event T eo decode self) items"
  have "compat_stream_events T eo decode self inner_stream_events uri lid s = (Inr ?out, s')"
    using assms(1) by (simp add: compat_stream_events_def)
  moreover have "(case items ! j of
       Inl e \<Rightarrow> ?out ! j = Some (Inl (from_transport (eo_into_decode_error eo) e))
     | Inr ev \<Rightarrow>
         (\<exists>w. stream_repair T self (se_last_event_id ev) (se_data ev) = Some w \<and>
            ?out ! j = Some (case decode w of
              Inl d \<Rightarrow> Inl (DecodeFailed d)
            | Inr t \<Rightarrow> Inr \<lparr>se_last_event_id = se_last_event_id ev, se_data = t\<rparr>)))"
    using assms(2) by (simp add: compat_stream_event_def w split: sum.split)
  ultimately show ?thesis by (intro exI [of _ ?out]) simp
qed

section \<open>Over the HTTP transport\<close>

definition http_error_ops :: "(('url, 'je, 'de) modification_decode_error, 'de) error_ops" where
  "http_error_ops = \<lparr>eo_error_class = error_class, eo_response_body = response_body,
     eo_into_decode_error = into_decode_error, eo_from_decode_error = Decode\<rparr>"

text \<open>
  C34. A write answered with iLO's success reply, a \<open>200\<close> whose body is an \<open>error\<close> without a standard success
  and not of the requested type, is a message through the layer on an HPE endpoint and the transport's
  error, with its status and body, on every other.
\<close>

theorem compat_write_over_http:
  assumes "env_is_success env 200" "body \<noteq> []" "env_from_slice env body = Inr v"
    and "env_deserialize env (tagged_body env headers v) = Inl err" "is_message_envelope v" "success_code v = None"
    and "ilo_success from_str (from_utf8_lossy body) = Some m"
  shows "or_failed_write http_error_ops from_str self (decode_modification env url 200 headers body) =
    (if bug_success_as_extended_info_error (cb_quirks self) then Inr (Message m)
     else Inl (TransportFailed (InvalidResponse url 200 (from_utf8_lossy body))))"
proof -
  have "decode_modification env url 200 headers body = Inl (InvalidResponse url 200 (from_utf8_lossy body))"
    using assms(1-6) by (simp add: decode_modification_def decode_body_def Let_def message_body_tagged)
  then show ?thesis
    using assms(7)
    by (simp add: or_failed_write_def failed_write_def from_transport_def http_error_ops_def
        success_replies_read_def success_replies_new_def)
qed

section \<open>Witnesses\<close>

definition ilo_reply :: json where
  "ilo_reply = JObject [(''error'', JObject [
     (''code'', JString ''iLO.0.10.ExtendedInfo''),
     (''@Message.ExtendedInfo'', JArray [JObject [(''MessageId'', JString ''iLO.2.15.SystemResetRequired'')]])])]"

definition demo_from_str :: "string \<Rightarrow> json option" where
  "demo_from_str s = (if s = ''I'' then Some ilo_reply else None)"

definition hpe :: compat_bmc where
  "hpe = compat_new demo_text (classify (from_root (demo_root ''HPE'' [] [])))"

definition ilo_error :: "(unit, unit, unit) modification_decode_error" where
  "ilo_error = InvalidResponse () 200 ''I''"

lemma hpe_quirks:
  "bug_success_as_extended_info_error (cb_quirks hpe)" "\<not> bug_rejects_own_etag (cb_quirks hpe)"
  "bug_rejects_wildcard_etag (cb_quirks hpe)"
  by code_simp+

lemma ilo_reply_read: "ilo_success demo_from_str ''I'' = Some ilo_reply"
  by code_simp


theorem compat_update_etags_witness:
  "compat_update http_error_ops demo_from_str hpe
     (\<lambda>i s. (Inr \<lparr>raw_id = i, raw_etag = Some ''W1'', raw_value = JNull\<rparr>, s)) (\<lambda>i e b s. (Inl ilo_error, s))
     (\<lambda>i e b s. (if e = Some ''W1'' then Inr Empty else Inl ilo_error, s)) ''/x'' None () () =
   ((Inr Empty :: _ + unit modification_response), ())"
proof -
  let ?get = "\<lambda>i s. (Inr \<lparr>raw_id = i, raw_etag = Some ''W1'', raw_value = JNull\<rparr> ::
    (unit, unit, unit) modification_decode_error + raw, s :: unit)"
  let ?reply = "\<lambda>(i :: odata_id) (e :: odata_etag option) (b :: unit) (s :: unit).
    (Inl ilo_error :: _ + unit update_reply modification_response, s)"
  have "sent_etags hpe ?get ''/x'' None () = {Some ''W1''}"
    using hpe_quirks by (simp add: sent_etags_def)
  then have "compat_update http_error_ops demo_from_str hpe ?get ?reply
      (\<lambda>i e b s. (if e = Some ''W1'' then Inr Empty else Inl ilo_error, s)) ''/x'' None () () =
    compat_update http_error_ops demo_from_str hpe ?get ?reply (\<lambda>i e b s. (Inr Empty, s)) ''/x'' None () ()"
    by (intro compat_update_etags) simp
  also have "\<dots> = (Inr Empty, ())"
  proof -
    have "\<not> bug_annotation_only_update_reply (cb_quirks hpe)" by code_simp
    then show ?thesis using hpe_quirks by (simp add: compat_update_def accepted_without_task_def)
  qed
  finally show ?thesis .
qed

theorem compat_rules_order_witness:
  "\<exists>w. (enabled_repair demo_text (enabled_for demo_text viking) viking_chassis \<bind>
     rules_repair [\<lparr>ur_name = ''drop'', ur_matches = MatchId [''*''], ur_fix = (\<lambda>_. JNull)\<rparr>]) = Some w"
  by (rule compat_rules_order [THEN conjunct2, THEN conjunct2, THEN conjunct2, rule_format])
    (simp add: never_deepens_def members_weight_def)

definition demo_stream ::
  "string \<Rightarrow> string option \<Rightarrow> unit \<Rightarrow>
   ((unit, unit, unit) modification_decode_error + ((unit, unit, unit) modification_decode_error + json stream_event) list) \<times> unit" where
  "demo_stream uri lid s = (Inr [Inl ilo_error, Inr \<lparr>se_last_event_id = Some ''7'', se_data = JNull\<rparr>], s)"

theorem compat_stream_items_witness:
  "\<exists>out. compat_stream_events demo_text http_error_ops (\<lambda>v. Inr v :: unit + json) hpe demo_stream ''/sse'' None () =
       (Inr out, ()) \<and> length out = 2 \<and> out ! 0 = Some (Inl (TransportFailed ilo_error))"
proof -
  have "from_transport (eo_into_decode_error http_error_ops) ilo_error = TransportFailed ilo_error"
    by (simp add: from_transport_def http_error_ops_def ilo_error_def)
  moreover have "demo_stream ''/sse'' None () =
      (Inr [Inl ilo_error, Inr \<lparr>se_last_event_id = Some ''7'', se_data = JNull\<rparr>], ())"
    by (simp add: demo_stream_def)
  ultimately show ?thesis
    using compat_stream_items [of demo_stream "''/sse''" None "()" _ "()" 0 demo_text http_error_ops
        "\<lambda>v. Inr v :: unit + json" hpe] by (simp add: numeral_2_eq_2)
qed

definition ilo_env :: "(unit, unit, unit, unit, unit, json) http_env" where
  "ilo_env =
     \<lparr>env_join = (\<lambda>u raw. Some u), env_origin = (\<lambda>_. ()), env_path = (\<lambda>_. ''/''), env_query = (\<lambda>u. None),
      env_to_str = (\<lambda>_. None), env_is_success = (\<lambda>s. 200 \<le> s \<and> s < 300), env_show_status = (\<lambda>s. []),
      env_from_slice = (\<lambda>b. if b = ''I'' then Inr ilo_reply else Inl ()), env_deserialize = (\<lambda>v. Inl ())\<rparr>"

theorem compat_write_over_http_witness:
  "or_failed_write http_error_ops demo_from_str hpe (decode_modification ilo_env () 200 Map.empty ''I'') =
     Inr (Message ilo_reply)"
proof -
  have utf8: "from_utf8_lossy ''I'' = ''I''" by code_simp
  have "is_message_envelope ilo_reply" "success_code ilo_reply = None" by code_simp+
  then show ?thesis
    using compat_write_over_http [of ilo_env "''I''" ilo_reply Map.empty "()" demo_from_str ilo_reply hpe "()"]
      hpe_quirks(1) ilo_reply_read
    by (simp add: utf8 ilo_env_def)
qed

end
