(* ===== verification/Hash_Map.thy ===== *)
theory Hash_Map
  imports Prelude
begin

text \<open>
  \<open>HashMap\<close> of the Rust standard library as the CSDL compiler uses it: an association list with
  distinct keys, in the order in which the map is iterated. Rust leaves that order open, so no statement
  of the development fixes it. \<open>insert\<close>, \<open>extend\<close>, \<open>collect\<close>, \<open>remove\<close>, \<open>partition\<close> and the entry interface are
  list functions, and the lemmas say what a lookup finds afterwards.
\<close>

named_theorems hm_simps \<open>lookups and keys after operations on hash maps\<close>

type_synonym ('k, 'v) hash_map = "('k \<times> 'v) list"

definition hm_wf :: "('k, 'v) hash_map \<Rightarrow> bool" where
  "hm_wf m = distinct (map fst m)"

definition hm_contains_key :: "('k, 'v) hash_map \<Rightarrow> 'k \<Rightarrow> bool" where
  "hm_contains_key m k = (map_of m k \<noteq> None)"

definition hm_insert :: "'k \<Rightarrow> 'v \<Rightarrow> ('k, 'v) hash_map \<Rightarrow> ('k, 'v) hash_map" where
  "hm_insert k v m = AList.update k v m"

definition hm_remove :: "'k \<Rightarrow> ('k, 'v) hash_map \<Rightarrow> ('k, 'v) hash_map" where
  "hm_remove k m = AList.delete k m"

text \<open>\<open>extend\<close> inserts one pair after the other, so the last of several pairs with one key stays;
  \<open>collect\<close> extends the empty map.\<close>

definition hm_extend :: "('k, 'v) hash_map \<Rightarrow> ('k \<times> 'v) list \<Rightarrow> ('k, 'v) hash_map" where
  "hm_extend m xs = fold (\<lambda>(k, v). hm_insert k v) xs m"

definition hm_collect :: "('k \<times> 'v) list \<Rightarrow> ('k, 'v) hash_map" where
  "hm_collect xs = hm_extend [] xs"

text \<open>\<open>*entry(k).or_insert(d)\<close> changed by \<open>f\<close>.\<close>

definition hm_entry :: "'k \<Rightarrow> 'v \<Rightarrow> ('v \<Rightarrow> 'v) \<Rightarrow> ('k, 'v) hash_map \<Rightarrow> ('k, 'v) hash_map" where
  "hm_entry k d f m = hm_insert k (f (case map_of m k of None \<Rightarrow> d | Some v \<Rightarrow> v)) m"

lemma hm_get_insert [hm_simps]: "map_of (hm_insert k v m) = (map_of m)(k \<mapsto> v)"
  by (simp add: hm_insert_def update_conv')

lemma hm_get_remove [hm_simps]: "map_of (hm_remove k m) = (map_of m)(k := None)"
  by (simp add: hm_remove_def delete_conv')

lemma hm_get_extend: "map_of (hm_extend m xs) = map_of m ++ map_of (rev xs)"
proof (induction xs arbitrary: m)
  case (Cons x xs)
  obtain k v where x: "x = (k, v)" by (cases x)
  have "map_of (hm_extend m (x # xs)) = map_of (hm_insert k v m) ++ map_of (rev xs)"
    using Cons.IH [of "hm_insert k v m"] by (simp add: hm_extend_def x)
  then show ?case by (simp add: hm_simps x)
qed (simp add: hm_extend_def)

lemma hm_get_collect: "map_of (hm_collect xs) = map_of (rev xs)"
  by (simp add: hm_collect_def hm_get_extend)

lemma hm_get_entry [hm_simps]:
  "map_of (hm_entry k d f m) = (map_of m)(k \<mapsto> f (case map_of m k of None \<Rightarrow> d | Some v \<Rightarrow> v))"
  by (simp add: hm_entry_def hm_simps)

lemma map_of_rev_distinct: "distinct (map fst xs) \<Longrightarrow> map_of (rev xs) = map_of xs"
  by (rule map_of_inject_set [THEN iffD2]) (simp_all add: rev_map [symmetric])

lemma hm_get_collect_distinct:
  "distinct (map fst xs) \<Longrightarrow> map_of (hm_collect xs) = map_of xs"
  by (simp add: hm_get_collect map_of_rev_distinct)

lemma hm_wf_Nil [simp]: "hm_wf []"
  by (simp add: hm_wf_def)

lemma hm_wf_insert [simp]: "hm_wf m \<Longrightarrow> hm_wf (hm_insert k v m)"
  by (simp add: hm_wf_def hm_insert_def distinct_update)

lemma hm_wf_remove [simp]: "hm_wf m \<Longrightarrow> hm_wf (hm_remove k m)"
  by (simp add: hm_wf_def hm_remove_def distinct_delete)

lemma hm_wf_extend [simp]: "hm_wf m \<Longrightarrow> hm_wf (hm_extend m xs)"
  by (induction xs arbitrary: m) (auto simp: hm_extend_def split: prod.splits)

lemma hm_wf_collect [simp]: "hm_wf (hm_collect xs)"
  by (simp add: hm_collect_def)

lemma hm_wf_entry [simp]: "hm_wf m \<Longrightarrow> hm_wf (hm_entry k d f m)"
  by (simp add: hm_entry_def)

lemma hm_wf_filter [simp]: "hm_wf m \<Longrightarrow> hm_wf (filter P m)"
  by (induction m) (auto simp: hm_wf_def)

lemma hm_wf_fold: "(\<And>x m. hm_wf m \<Longrightarrow> hm_wf (f x m)) \<Longrightarrow> hm_wf m \<Longrightarrow> hm_wf (fold f xs m)"
  by (induction xs arbitrary: m) auto

lemma hm_wf_get: "hm_wf m \<Longrightarrow> map_of m k = Some v \<longleftrightarrow> (k, v) \<in> set m"
  by (simp add: hm_wf_def)

lemma hm_keys_extend [hm_simps]: "fst ` set (hm_extend m xs) = fst ` set m \<union> fst ` set xs"
  using hm_get_extend [of m xs] by (metis dom_map_add dom_map_of_conv_image_fst set_rev Un_commute)

lemma hm_keys_collect [hm_simps]: "fst ` set (hm_collect xs) = fst ` set xs"
  by (simp add: hm_collect_def hm_keys_extend)

lemma hm_keys_insert [hm_simps]: "fst ` set (hm_insert k v m) = insert k (fst ` set m)"
  by (simp add: hm_insert_def dom_update)

lemma hm_contains_key_iff: "hm_contains_key m k \<longleftrightarrow> k \<in> fst ` set m"
  by (auto simp: hm_contains_key_def map_of_eq_None_iff)

lemma hm_collect_subset: "set (hm_collect xs) \<subseteq> set xs"
proof
  fix y assume "y \<in> set (hm_collect xs)"
  then have "map_of (hm_collect xs) (fst y) = Some (snd y)"
    by (metis hm_wf_collect hm_wf_get prod.collapse)
  then show "y \<in> set xs"
    by (metis hm_get_collect map_of_SomeD prod.collapse set_rev)
qed

lemma map_of_extend_cases:
  "map_of (hm_extend m xs) k = Some v \<Longrightarrow> (k, v) \<in> set xs \<or> map_of m k = Some v"
  by (auto simp: hm_get_extend map_add_Some_iff dest: map_of_SomeD)

lemma map_of_map_key:
  "map_of (map (\<lambda>(k, v). (k, f k v)) m) k = map_option (f k) (map_of m k)"
  by (induction m) auto

text \<open>A key renaming that is injective on the keys loses nothing; entries that stay keep their keys.\<close>

lemma hm_wf_rename:
  assumes "hm_wf m" "inj_on g (fst ` set m)"
  shows "distinct (map fst (map (\<lambda>(k, v). (g k, f k v)) m))"
  using assms by (induction m) (auto simp: hm_wf_def inj_on_def)

lemma set_collect_rename:
  assumes "hm_wf m" "inj_on g (fst ` set m)"
  shows "set (hm_collect (map (\<lambda>(k, v). (g k, f k v)) m)) = (\<lambda>(k, v). (g k, f k v)) ` set m"
proof -
  let ?xs = "map (\<lambda>(k, v). (g k, f k v)) m"
  have d: "distinct (map fst ?xs)" by (rule hm_wf_rename [OF assms])
  then have "map_of (hm_collect ?xs) = map_of ?xs" by (rule hm_get_collect_distinct)
  then have "set (hm_collect ?xs) = set ?xs"
    by (rule map_of_inject_set [THEN iffD1, rotated 2])
      (use d hm_wf_collect [of ?xs] in \<open>simp_all add: hm_wf_def\<close>)
  then show ?thesis by simp
qed

end
