(* ===== verification/Csdl_Names.thy ===== *)
theory Csdl_Names
  imports Hash_Map "HOL-Library.List_Lexorder" "HOL-Library.Char_ord"
begin

text \<open>
  Names of the CSDL compiler: namespaces (\<open>compiler/namespace.rs\<close>), qualified names
  (\<open>compiler/qualified_name.rs\<close>), \<open>OneOrCollection\<close> (\<open>one_or_collection.rs\<close>) and the filters over names
  (\<open>compiler/context.rs\<close>).

  A \<open>Namespace\<close> of the compiler is a borrowed list of identifiers with the number of them it shows; its
  equality, order, hash and text look at the shown identifiers only, which are the list here. The hidden
  rest is read by the code generator alone. Identifiers are strings, ordered by their bytes.
\<close>

section \<open>Namespaces and qualified names\<close>

type_synonym ident = string
type_synonym namespace = "ident list"

definition ns_get_id :: "namespace \<Rightarrow> nat \<Rightarrow> ident option" where
  "ns_get_id ns depth = (if depth < length ns then Some (ns ! depth) else None)"

text \<open>\<open>root\<close> shows one identifier; it is called for the namespace of a schema, which has one.\<close>

definition ns_root :: "namespace \<Rightarrow> namespace" where
  "ns_root ns = take 1 ns"

definition ns_truncated :: "namespace \<Rightarrow> nat \<Rightarrow> namespace" where
  "ns_truncated ns len = take (if len < length ns then len else length ns) ns"

definition ns_parent :: "namespace \<Rightarrow> namespace option" where
  "ns_parent ns = (if 1 < length ns then Some (take (length ns - 1) ns) else None)"

definition ns_is_edm :: "namespace \<Rightarrow> bool" where
  "ns_is_edm ns = (length ns = 1 \<and> ns ! 0 = ''Edm'')"

datatype qname = QName (qn_namespace: namespace) (qn_name: ident)

text \<open>The order that \<open>QualifiedName\<close> derives: the namespace first, then the name.\<close>

instantiation qname :: linorder
begin

definition less_eq_qname :: "qname \<Rightarrow> qname \<Rightarrow> bool" where
  "less_eq_qname a b =
     (qn_namespace a < qn_namespace b \<or> (qn_namespace a = qn_namespace b \<and> qn_name a \<le> qn_name b))"

definition less_qname :: "qname \<Rightarrow> qname \<Rightarrow> bool" where
  "less_qname a b =
     (qn_namespace a < qn_namespace b \<or> (qn_namespace a = qn_namespace b \<and> qn_name a < qn_name b))"

instance
  by standard (auto simp: less_eq_qname_def less_qname_def intro: qname.expand)

end

definition is_simple_type :: "qname \<Rightarrow> bool" where
  "is_simple_type q = ns_is_edm (qn_namespace q)"

lemma ns_parent_Some: "ns_parent ns = Some p \<longleftrightarrow> (\<exists>x. ns = p @ [x]) \<and> p \<noteq> []"
  by (cases ns rule: rev_cases) (auto simp: ns_parent_def)

lemma ns_parent_length: "ns_parent ns = Some p \<Longrightarrow> length p < length ns"
  by (auto simp: ns_parent_Some)

section \<open>One or a collection\<close>

datatype 'a one_or_collection = One (ooc_inner: 'a) | Collection (ooc_inner: 'a)
  for map: ooc_map

section \<open>Filters\<close>

record filter_pattern =
  fp_ns_ids :: "ident option list"
  fp_names :: "ident set"

record type_filter =
  tf_patterns :: "filter_pattern list"
  tf_permissive :: bool

definition pattern_matches :: "filter_pattern \<Rightarrow> qname \<Rightarrow> bool" where
  "pattern_matches p typename =
     (if fp_names p \<noteq> {} \<and> qn_name typename \<notin> fp_names p then False
      else if length (qn_namespace typename) \<noteq> length (fp_ns_ids p) then False
      else list_all (\<lambda>depth.
             case fp_ns_ids p ! depth of
               None \<Rightarrow> True
             | Some pattern_id \<Rightarrow>
                 (case ns_get_id (qn_namespace typename) depth of
                    None \<Rightarrow> True
                  | Some ns \<Rightarrow> pattern_id = ns))
           [0..<length (qn_namespace typename)])"

definition pattern_of_name :: "qname \<Rightarrow> filter_pattern" where
  "pattern_of_name name =
     \<lparr>fp_ns_ids = map (ns_get_id (qn_namespace name)) [0..<length (qn_namespace name)],
      fp_names = {qn_name name}\<rparr>"

definition type_filter_default :: type_filter where
  "type_filter_default = \<lparr>tf_patterns = [], tf_permissive = True\<rparr>"

definition new_restrictive :: "filter_pattern list \<Rightarrow> type_filter" where
  "new_restrictive patterns = \<lparr>tf_patterns = patterns, tf_permissive = False\<rparr>"

definition new_permissive :: "filter_pattern list \<Rightarrow> type_filter" where
  "new_permissive patterns = \<lparr>tf_patterns = patterns, tf_permissive = True\<rparr>"

definition filter_including :: "type_filter \<Rightarrow> filter_pattern list \<Rightarrow> type_filter" where
  "filter_including f patterns =
     (if tf_permissive f \<and> tf_patterns f = [] then f
      else new_restrictive (tf_patterns f @ patterns))"

definition filter_matches :: "type_filter \<Rightarrow> qname \<Rightarrow> bool" where
  "filter_matches f typename =
     (if tf_permissive f
      then tf_patterns f = [] \<or> list_ex (\<lambda>p. pattern_matches p typename) (tf_patterns f)
      else list_ex (\<lambda>p. pattern_matches p typename) (tf_patterns f))"

text \<open>Properties that may be rigid arrays, by name, with the patterns of their types.\<close>

type_synonym property_pattern = "filter_pattern \<times> ident"
type_synonym property_filter = "(ident, type_filter) hash_map"

definition property_filter_new :: "property_pattern list \<Rightarrow> property_filter" where
  "property_filter_new patterns =
     hm_collect
       (map (\<lambda>(name, vec). (name, new_restrictive vec))
         (fold (\<lambda>(k, v) m. hm_entry k [] (\<lambda>vec. vec @ [v]) m)
           (map (\<lambda>(type_filter, property_name). (property_name, type_filter)) patterns) []))"

definition property_filter_matches :: "property_filter \<Rightarrow> qname \<Rightarrow> ident \<Rightarrow> bool" where
  "property_filter_matches f qtype pname =
     (case map_of f pname of None \<Rightarrow> False | Some t \<Rightarrow> filter_matches t qtype)"

lemma pattern_matches_iff:
  "pattern_matches p q \<longleftrightarrow>
     (fp_names p = {} \<or> qn_name q \<in> fp_names p) \<and>
     list_all2 (\<lambda>pat id. pat = None \<or> pat = Some id) (fp_ns_ids p) (qn_namespace q)"
proof -
  have "list_all (\<lambda>d. case ids ! d of None \<Rightarrow> True
      | Some x \<Rightarrow> (case ns_get_id ns d of None \<Rightarrow> True | Some y \<Rightarrow> x = y)) [0..<length ns] \<longleftrightarrow>
      list_all2 (\<lambda>pat id. pat = None \<or> pat = Some id) ids ns" if "length ns = length ids" for ids ns
    using that by (auto simp: list_all2_conv_all_nth list_all_iff ns_get_id_def Ball_def
        option.case_eq_if) (metis option.exhaust option.sel)
  then show ?thesis by (auto simp: pattern_matches_def dest: list_all2_lengthD)
qed

text \<open>A pattern made from a name matches that name and no other.\<close>

lemma pattern_of_name_matches: "pattern_matches (pattern_of_name a) b \<longleftrightarrow> a = b"
  by (auto simp: pattern_matches_iff pattern_of_name_def list_all2_conv_all_nth ns_get_id_def
      qname.expand intro!: qname.expand nth_equalityI)

text \<open>Including patterns never removes a match.\<close>

lemma filter_including_matches:
  "filter_matches (filter_including f ps) q \<longleftrightarrow>
     filter_matches f q \<or> \<not> (tf_permissive f \<and> tf_patterns f = []) \<and> list_ex (\<lambda>p. pattern_matches p q) ps"
  by (auto simp: filter_including_def filter_matches_def new_restrictive_def)

text \<open>The index of a property filter changes nothing of what the list of patterns says.\<close>

lemma property_index_get:
  "map_of (fold (\<lambda>(k, v) m. hm_entry k [] (\<lambda>vec. vec @ [v]) m) ps m) name =
     (let vs = map snd (filter (\<lambda>(k, v). k = name) ps) in
      if vs = [] then map_of m name
      else Some ((case map_of m name of None \<Rightarrow> [] | Some v \<Rightarrow> v) @ vs))"
  by (induction ps arbitrary: m) (auto simp: hm_simps Let_def split: option.splits prod.splits)

lemma property_filter_matches_iff:
  "property_filter_matches (property_filter_new ps) q name \<longleftrightarrow>
     (\<exists>p. (p, name) \<in> set ps \<and> pattern_matches p q)"
proof -
  let ?ix = "fold (\<lambda>(k, v) m. hm_entry k [] (\<lambda>vec. vec @ [v]) m) (map (\<lambda>(t, n). (n, t)) ps) []"
  have wf: "hm_wf ?ix" by (rule hm_wf_fold) (auto split: prod.splits)
  have "distinct (map fst (map (\<lambda>(n, vec). (n, new_restrictive vec)) ?ix))"
    using wf by (simp add: hm_wf_def case_prod_beta' comp_def)
  then have "map_of (property_filter_new ps) name = map_option new_restrictive (map_of ?ix name)"
    by (simp add: property_filter_new_def hm_get_collect_distinct map_of_map_key)
  moreover have "map snd (filter (\<lambda>(k, v). k = name) (map (\<lambda>(t, n). (n, t)) ps)) =
      map fst (filter (\<lambda>(t, n). n = name) ps)"
    by (induction ps) auto
  ultimately have "map_of (property_filter_new ps) name =
      (let vs = map fst (filter (\<lambda>(t, n). n = name) ps) in
       if vs = [] then None else Some (new_restrictive vs))"
    by (simp add: property_index_get Let_def)
  then show ?thesis
    by (force simp: property_filter_matches_def Let_def filter_matches_def new_restrictive_def
        list_ex_iff filter_empty_conv)
qed

end
