(* ===== verification/Csdl_Edmx.thy ===== *)
theory Csdl_Edmx
  imports Csdl_Names Text
begin

text \<open>
  The validated schema documents the CSDL compiler reads (\<open>edmx/*.rs\<close>) and what it takes from their annotations
  (\<open>odata/annotations.rs\<close>, \<open>redfish/annotations.rs\<close>, \<open>redfish/excerpt.rs\<close>). Reading XML is the work of other
  crates; attributes that no pass reads (such as \<open>MaxLength\<close>, \<open>Partner\<close> or \<open>DefaultValue\<close>) are left out of the records.
  A type in a schema is stored under its own name.
\<close>

section \<open>Annotations\<close>

record property_value =
  pv_property :: string
  pv_bool_value :: "bool option"
  pv_string_value :: "string option"
  pv_enum_member :: "(qname \<times> ident) list option"

datatype edmx_annotation =
    EdmxAnnotation (ea_term: qname) (ea_string: "string option") (ea_bool_value: "bool option")
      (ea_enum_member: "(qname \<times> ident) list option")
      (ea_collection: "annotation_collection option") (ea_record: "annotation_record option")
  and annotation_collection = AnnotationCollection (acl_record: "annotation_record list")
  and annotation_record =
    AnnotationRecord (ar_property_value: "property_value list") (ar_annotations: "edmx_annotation list")

definition enum_members :: "(qname \<times> ident) list option \<Rightarrow> (qname \<times> ident) list" where
  "enum_members e = (case e of None \<Rightarrow> [] | Some ms \<Rightarrow> ms)"

definition record_property_value :: "annotation_record \<Rightarrow> string \<Rightarrow> property_value option" where
  "record_property_value r name = find (\<lambda>v. pv_property v = name) (ar_property_value r)"

section \<open>OData annotations\<close>

datatype permissions = PRead | PWrite | PReadWrite

record capability =
  cap_value :: bool
  cap_description :: "string option"

definition is_odata_namespace :: "namespace \<Rightarrow> bool" where
  "is_odata_namespace ns = (length ns = 1 \<and> ns ! 0 = ''OData'')"

definition is_capabilities_namespace :: "namespace \<Rightarrow> bool" where
  "is_capabilities_namespace ns = (length ns = 1 \<and> ns ! 0 = ''Capabilities'')"

definition is_odata_annotation :: "string \<Rightarrow> edmx_annotation \<Rightarrow> bool" where
  "is_odata_annotation name a =
     (is_odata_namespace (qn_namespace (ea_term a)) \<and> qn_name (ea_term a) = name)"

definition is_capabilities_annotation :: "string \<Rightarrow> edmx_annotation \<Rightarrow> bool" where
  "is_capabilities_annotation name a =
     (is_capabilities_namespace (qn_namespace (ea_term a)) \<and> qn_name (ea_term a) = name)"

definition odata_description :: "edmx_annotation list \<Rightarrow> string option" where
  "odata_description anns = Option.bind (find (is_odata_annotation ''Description'') anns) ea_string"

definition odata_long_description :: "edmx_annotation list \<Rightarrow> string option" where
  "odata_long_description anns =
     Option.bind (find (is_odata_annotation ''LongDescription'') anns) ea_string"

definition odata_additional_properties :: "edmx_annotation list \<Rightarrow> bool option" where
  "odata_additional_properties anns =
     Option.bind (find (is_odata_annotation ''AdditionalProperties'') anns) ea_bool_value"

definition odata_permissions :: "edmx_annotation list \<Rightarrow> permissions option" where
  "odata_permissions anns = do {
     a \<leftarrow> find (is_odata_annotation ''Permissions'') anns;
     v \<leftarrow> (case enum_members (ea_enum_member a) of [] \<Rightarrow> None | v # _ \<Rightarrow> Some v);
     (if snd v = ''ReadWrite'' then Some PReadWrite
      else if snd v = ''Read'' then Some PRead
      else if snd v = ''Write'' then Some PWrite
      else None)
   }"

definition odata_is_url :: "edmx_annotation list \<Rightarrow> bool" where
  "odata_is_url anns =
     (case find (is_odata_annotation ''IsURL'') anns of
        None \<Rightarrow> False
      | Some a \<Rightarrow> (case ea_bool_value a of None \<Rightarrow> True | Some b \<Rightarrow> b))"

definition capability_of :: "string \<Rightarrow> string \<Rightarrow> edmx_annotation list \<Rightarrow> capability option" where
  "capability_of restrictions property anns = do {
     a \<leftarrow> find (is_capabilities_annotation restrictions) anns;
     r \<leftarrow> ea_record a;
     pv \<leftarrow> record_property_value r property;
     value \<leftarrow> pv_bool_value pv;
     Some \<lparr>cap_value = value, cap_description = odata_description (ar_annotations r)\<rparr>
   }"

definition capabilities_insertable :: "edmx_annotation list \<Rightarrow> capability option" where
  "capabilities_insertable = capability_of ''InsertRestrictions'' ''Insertable''"

definition capabilities_updatable :: "edmx_annotation list \<Rightarrow> capability option" where
  "capabilities_updatable = capability_of ''UpdateRestrictions'' ''Updatable''"

definition capabilities_deletable :: "edmx_annotation list \<Rightarrow> capability option" where
  "capabilities_deletable = capability_of ''DeleteRestrictions'' ''Deletable''"

section \<open>Redfish annotations\<close>

datatype excerpt = ExcerptAll | ExcerptKeys "string set"
datatype excerpt_copy = AllKeys | Key string

record deprecation =
  dp_version :: "string option"
  dp_description :: "string option"

record dynamic_properties =
  dy_pattern :: string
  dy_ptype :: string

definition excerpt_matches :: "excerpt \<Rightarrow> excerpt_copy \<Rightarrow> bool" where
  "excerpt_matches e copy =
     (case e of
        ExcerptAll \<Rightarrow> True
      | ExcerptKeys s \<Rightarrow> (case copy of AllKeys \<Rightarrow> True | Key v \<Rightarrow> v \<in> s))"

definition is_redfish_qualified_name :: "qname \<Rightarrow> string \<Rightarrow> bool" where
  "is_redfish_qualified_name q name =
     (length (qn_namespace q) = 1 \<and> qn_namespace q ! 0 = ''Redfish'' \<and> qn_name q = name)"

definition is_redfish_annotation :: "string \<Rightarrow> edmx_annotation \<Rightarrow> bool" where
  "is_redfish_annotation name a = is_redfish_qualified_name (ea_term a) name"

definition record_string :: "annotation_record \<Rightarrow> string \<Rightarrow> string option" where
  "record_string r name = Option.bind (record_property_value r name) pv_string_value"

definition record_deprecation :: "annotation_record \<Rightarrow> deprecation option" where
  "record_deprecation r = do {
     kind \<leftarrow> record_property_value r ''Kind'';
     (if list_ex (\<lambda>(tname, mname).
           is_redfish_qualified_name tname ''RevisionKind'' \<and> mname = ''Deprecated'')
         (enum_members (pv_enum_member kind))
      then Some \<lparr>dp_version = record_string r ''Version'',
                 dp_description = record_string r ''Description''\<rparr>
      else None)
   }"

definition revisions_deprecation :: "edmx_annotation list \<Rightarrow> deprecation option" where
  "revisions_deprecation anns = do {
     a \<leftarrow> find (is_redfish_annotation ''Revisions'') anns;
     c \<leftarrow> ea_collection a;
     find_map record_deprecation (acl_record c)
   }"

definition legacy_deprecation :: "edmx_annotation list \<Rightarrow> deprecation option" where
  "legacy_deprecation anns =
     map_option (\<lambda>a. \<lparr>dp_version = None, dp_description = ea_string a\<rparr>)
       (find (is_redfish_annotation ''Deprecated'') anns)"

definition is_required :: "edmx_annotation list \<Rightarrow> bool" where
  "is_required anns = (find (is_redfish_annotation ''Required'') anns \<noteq> None)"

definition is_required_on_create :: "edmx_annotation list \<Rightarrow> bool" where
  "is_required_on_create anns = (find (is_redfish_annotation ''RequiredOnCreate'') anns \<noteq> None)"

definition is_excerpt_only :: "edmx_annotation list \<Rightarrow> bool" where
  "is_excerpt_only anns =
     (case find (is_redfish_annotation ''ExcerptCopyOnly'') anns of
        None \<Rightarrow> False
      | Some v \<Rightarrow> (case ea_bool_value v of None \<Rightarrow> True | Some b \<Rightarrow> b))"

definition redfish_excerpt :: "edmx_annotation list \<Rightarrow> excerpt option" where
  "redfish_excerpt anns =
     (case find (is_redfish_annotation ''Excerpt'') anns of
        Some v \<Rightarrow> Some (case ea_string v of
                      None \<Rightarrow> ExcerptAll
                    | Some s \<Rightarrow> ExcerptKeys (set (str_split CHR '','' s)))
      | None \<Rightarrow> if is_excerpt_only anns then Some ExcerptAll else None)"

definition redfish_excerpt_copy :: "edmx_annotation list \<Rightarrow> excerpt_copy option" where
  "redfish_excerpt_copy anns =
     map_option (\<lambda>v. case ea_string v of None \<Rightarrow> AllKeys | Some s \<Rightarrow> Key s)
       (find (is_redfish_annotation ''ExcerptCopy'') anns)"

definition redfish_deprecation :: "edmx_annotation list \<Rightarrow> deprecation option" where
  "redfish_deprecation anns =
     (case revisions_deprecation anns of Some d \<Rightarrow> Some d | None \<Rightarrow> legacy_deprecation anns)"

definition record_dynamic_properties :: "annotation_record \<Rightarrow> dynamic_properties option" where
  "record_dynamic_properties r = do {
     t \<leftarrow> record_string r ''Type'';
     p \<leftarrow> record_string r ''Pattern'';
     Some \<lparr>dy_pattern = p, dy_ptype = t\<rparr>
   }"

definition redfish_dynamic_properties :: "edmx_annotation list \<Rightarrow> dynamic_properties option" where
  "redfish_dynamic_properties anns = do {
     a \<leftarrow> find (is_redfish_annotation ''DynamicPropertyPatterns'') anns;
     c \<leftarrow> ea_collection a;
     find_map record_dynamic_properties (acl_record c)
   }"

section \<open>Schemas\<close>

type_synonym edmx_type_name = "qname one_or_collection"

record structural_property =
  sp_name :: ident
  sp_ptype :: edmx_type_name
  sp_nullable :: "bool option"
  sp_annotations :: "edmx_annotation list"

record navigation_property =
  np_name :: ident
  np_ptype :: edmx_type_name
  np_nullable :: "bool option"
  np_annotations :: "edmx_annotation list"

datatype property_attrs =
    StructuralProperty structural_property
  | NavigationProperty navigation_property

record edmx_property =
  ep_name :: ident
  ep_attrs :: property_attrs

record property_ref =
  prf_name :: ident
  prf_alias :: "ident option"

type_synonym entity_key = "property_ref list"

record edmx_entity_type =
  ee_name :: ident
  ee_base_type :: "qname option"
  ee_key :: "entity_key option"
  ee_properties :: "edmx_property list"
  ee_annotations :: "edmx_annotation list"
  ee_is_abstract :: bool

record edmx_complex_type =
  ec_name :: ident
  ec_base_type :: "qname option"
  ec_properties :: "edmx_property list"
  ec_annotations :: "edmx_annotation list"
  ec_is_abstract :: bool

datatype enum_underlying_type = UByte | USByte | UInt16 | UInt32 | UInt64

record edmx_enum_member =
  em_name :: ident
  em_annotations :: "edmx_annotation list"

record edmx_enum_type =
  eu_name :: ident
  eu_underlying_type :: "enum_underlying_type option"
  eu_members :: "edmx_enum_member list"
  eu_annotations :: "edmx_annotation list"

record edmx_type_definition =
  ed_name :: ident
  ed_underlying_type :: qname

datatype edmx_type =
    TComplex edmx_complex_type
  | TEnum edmx_enum_type
  | TDefinition edmx_type_definition

record edmx_term =
  tm_name :: ident
  tm_ttype :: "edmx_type_name option"
  tm_annotations :: "edmx_annotation list"

record singleton =
  sg_name :: ident
  sg_stype :: qname

record edmx_parameter =
  ePa_name :: ident
  ePa_ptype :: edmx_type_name
  ePa_nullable :: "bool option"
  ePa_annotations :: "edmx_annotation list"

record edmx_action =
  eac_name :: ident
  eac_is_bound :: bool
  eac_annotations :: "edmx_annotation list"
  eac_parameters :: "edmx_parameter list"
  eac_return_type :: "edmx_type_name option"

record schema =
  sc_namespace :: namespace
  sc_entity_types :: "(ident, edmx_entity_type) hash_map"
  sc_types :: "(ident, edmx_type) hash_map"
  sc_terms :: "(ident, edmx_term) hash_map"
  sc_entity_container :: "singleton list option"
  sc_actions :: "edmx_action list"

type_synonym edmx = "schema list"

text \<open>What the parser and validation of a document ensure: types are stored once, under their own names,
  and a schema has a namespace.\<close>

definition schema_wf :: "schema \<Rightarrow> bool" where
  "schema_wf s =
     (hm_wf (sc_entity_types s) \<and> hm_wf (sc_types s) \<and> sc_namespace s \<noteq> [] \<and>
      list_all (\<lambda>(k, et). ee_name et = k) (sc_entity_types s) \<and>
      list_all (\<lambda>(k, t). case t of TComplex ct \<Rightarrow> ec_name ct = k | TEnum eu \<Rightarrow> eu_name eu = k
                          | TDefinition td \<Rightarrow> ed_name td = k) (sc_types s))"

end
