(* ===== verification/Csdl_Compiled.thy ===== *)
theory Csdl_Compiled
  imports Csdl_Edmx
begin

text \<open>
  What the compiler produces and the optimizer rewrites: properties, types, actions and protocol annotations
  (\<open>compiler/properties.rs\<close>, \<open>complex_type.rs\<close>, \<open>entity_type.rs\<close>, \<open>enum_type.rs\<close>, \<open>type_definition.rs\<close>, \<open>action.rs\<close>,
  \<open>parameter.rs\<close>, \<open>annotations.rs\<close>, \<open>odata.rs\<close>, \<open>redfish.rs\<close>) and the aggregate \<open>Compiled\<close> with its merge
  (\<open>compiled.rs\<close>). The functions \<open>*_map_type\<close> are the instances of the trait \<open>MapType\<close>.
\<close>

section \<open>Attributes\<close>

record odata =
  od_must_have_id :: bool
  od_must_have_type :: bool
  od_description :: "string option"
  od_long_description :: "string option"
  od_permissions :: "permissions option"
  od_is_url :: bool
  od_additional_properties :: "bool option"
  od_insertable :: "capability option"
  od_updatable :: "capability option"
  od_deletable :: "capability option"

definition odata_new :: "bool \<Rightarrow> edmx_annotation list \<Rightarrow> odata" where
  "odata_new must_have_id src =
     \<lparr>od_must_have_id = must_have_id,
      od_must_have_type = False,
      od_description = odata_description src,
      od_long_description = odata_long_description src,
      od_permissions = odata_permissions src,
      od_is_url = odata_is_url src,
      od_additional_properties = odata_additional_properties src,
      od_insertable = capabilities_insertable src,
      od_updatable = capabilities_updatable src,
      od_deletable = capabilities_deletable src\<rparr>"

definition odata_is_empty :: "odata \<Rightarrow> bool" where
  "odata_is_empty od =
     (od_description od = None \<and> od_long_description od = None \<and> od_permissions od = None \<and>
      \<not> od_is_url od \<and> od_insertable od = None \<and> od_updatable od = None \<and> od_deletable od = None)"

record redfish_property =
  rp_is_required :: bool
  rp_is_required_on_create :: bool
  rp_is_excerpt_only :: bool
  rp_excerpt :: "excerpt option"
  rp_excerpt_copy :: "excerpt_copy option"
  rp_deprecation :: "deprecation option"

definition redfish_property_new :: "edmx_annotation list \<Rightarrow> redfish_property" where
  "redfish_property_new src =
     \<lparr>rp_is_required = is_required src,
      rp_is_required_on_create = is_required_on_create src,
      rp_is_excerpt_only = is_excerpt_only src,
      rp_excerpt = redfish_excerpt src,
      rp_excerpt_copy = redfish_excerpt_copy src,
      rp_deprecation = redfish_deprecation src\<rparr>"

record redfish =
  rf_dynamic_properties :: "dynamic_properties option"

definition redfish_new :: "edmx_annotation list \<Rightarrow> redfish" where
  "redfish_new src = \<lparr>rf_dynamic_properties = redfish_dynamic_properties src\<rparr>"

section \<open>Properties\<close>

datatype csdl_class = SimpleType | EnumType | TypeDefinition | ComplexType

record type_info =
  ti_class :: csdl_class
  ti_permissions :: "permissions option"

type_synonym property_type = "(type_info \<times> qname) one_or_collection"
type_synonym nav_property_type = "qname one_or_collection"

definition property_type_name :: "property_type \<Rightarrow> qname" where
  "property_type_name t = snd (ooc_inner t)"

record property =
  pr_name :: ident
  pr_ptype :: property_type
  pr_odata :: odata
  pr_redfish :: redfish_property
  pr_nullable :: bool
  pr_rigid_array_support :: bool

definition property_map_type :: "(qname \<Rightarrow> qname) \<Rightarrow> property \<Rightarrow> property" where
  "property_map_type f p = p\<lparr>pr_ptype := ooc_map (\<lambda>(typeclass, t). (typeclass, f t)) (pr_ptype p)\<rparr>"

record nav_property_expandable =
  ne_name :: ident
  ne_ptype :: nav_property_type
  ne_odata :: odata
  ne_redfish :: redfish_property
  ne_nullable :: bool

datatype nav_property =
    Expandable nav_property_expandable
  | Reference "ident one_or_collection" odata redfish_property bool

fun nav_property_name :: "nav_property \<Rightarrow> ident" where
  "nav_property_name (Expandable v) = ne_name v"
| "nav_property_name (Reference cardinality _ _ _) = ooc_inner cardinality"

fun nav_property_map_type :: "(qname \<Rightarrow> qname) \<Rightarrow> nav_property \<Rightarrow> nav_property" where
  "nav_property_map_type f (Expandable exp) = Expandable (exp\<lparr>ne_ptype := ooc_map f (ne_ptype exp)\<rparr>)"
| "nav_property_map_type f (Reference c od rf n) = Reference c od rf n"

record properties =
  ps_properties :: "property list"
  ps_nav_properties :: "nav_property list"

definition properties_default :: properties where
  "properties_default = \<lparr>ps_properties = [], ps_nav_properties = []\<rparr>"

definition rev_join :: "properties list \<Rightarrow> properties" where
  "rev_join src =
     \<lparr>ps_properties = concat (rev (map ps_properties src)),
      ps_nav_properties = concat (rev (map ps_nav_properties src))\<rparr>"

definition properties_is_empty :: "properties \<Rightarrow> bool" where
  "properties_is_empty p = (ps_properties p = [] \<and> ps_nav_properties p = [])"

section \<open>Types\<close>

record complex_type =
  ct_name :: qname
  ct_base :: "qname option"
  ct_properties :: properties
  ct_odata :: odata
  ct_redfish :: redfish
  ct_is_abstract :: bool

record entity_type =
  et_name :: qname
  et_base :: "qname option"
  et_key :: "entity_key option"
  et_properties :: properties
  et_odata :: odata
  et_is_abstract :: bool

record enum_type =
  en_name :: qname
  en_underlying_type :: enum_underlying_type
  en_members :: "(ident \<times> odata) list"
  en_odata :: odata

record type_definition =
  td_name :: qname
  td_underlying_type :: qname

definition ct_map_properties :: "(property \<Rightarrow> property) \<Rightarrow> complex_type \<Rightarrow> complex_type" where
  "ct_map_properties f ct =
     ct\<lparr>ct_properties := (ct_properties ct)\<lparr>ps_properties := map f (ps_properties (ct_properties ct))\<rparr>\<rparr>"

definition ct_map_nav_properties :: "(nav_property \<Rightarrow> nav_property) \<Rightarrow> complex_type \<Rightarrow> complex_type" where
  "ct_map_nav_properties f ct =
     ct\<lparr>ct_properties := (ct_properties ct)
          \<lparr>ps_nav_properties := map f (ps_nav_properties (ct_properties ct))\<rparr>\<rparr>"

definition ct_map_base :: "(qname \<Rightarrow> qname) \<Rightarrow> complex_type \<Rightarrow> complex_type" where
  "ct_map_base f ct = ct\<lparr>ct_base := map_option f (ct_base ct)\<rparr>"

definition et_map_properties :: "(property \<Rightarrow> property) \<Rightarrow> entity_type \<Rightarrow> entity_type" where
  "et_map_properties f et =
     et\<lparr>et_properties := (et_properties et)\<lparr>ps_properties := map f (ps_properties (et_properties et))\<rparr>\<rparr>"

definition et_map_nav_properties :: "(nav_property \<Rightarrow> nav_property) \<Rightarrow> entity_type \<Rightarrow> entity_type" where
  "et_map_nav_properties f et =
     et\<lparr>et_properties := (et_properties et)
          \<lparr>ps_nav_properties := map f (ps_nav_properties (et_properties et))\<rparr>\<rparr>"

definition et_map_base :: "(qname \<Rightarrow> qname) \<Rightarrow> entity_type \<Rightarrow> entity_type" where
  "et_map_base f et = et\<lparr>et_base := map_option f (et_base et)\<rparr>"

definition nav_required_on_create :: "nav_property \<Rightarrow> bool" where
  "nav_required_on_create p =
     (case p of Expandable v \<Rightarrow> rp_is_required_on_create (ne_redfish v) | Reference _ _ _ _ \<Rightarrow> False)"

definition property_is_read :: "property \<Rightarrow> bool" where
  "property_is_read p =
     (od_permissions (pr_odata p) = Some PRead \<or>
      ti_permissions (fst (ooc_inner (pr_ptype p))) = Some PRead)"

definition type_info_complex_type :: "complex_type \<Rightarrow> type_info" where
  "type_info_complex_type ct =
     (let ps = ps_properties (ct_properties ct);
          navs = ps_nav_properties (ct_properties ct);
          required_on_create =
            list_ex (\<lambda>p. rp_is_required_on_create (pr_redfish p)) ps \<or> list_ex nav_required_on_create navs;
          structural_properties_are_read_only = (ps \<noteq> [] \<and> navs = [] \<and> list_all property_is_read ps)
      in \<lparr>ti_class = ComplexType,
          ti_permissions =
            (if required_on_create then None
             else case od_permissions (ct_odata ct) of
                    Some p \<Rightarrow> Some p
                  | None \<Rightarrow>
                      if rf_dynamic_properties (ct_redfish ct) = None \<and>
                         (case od_additional_properties (ct_odata ct) of
                            None \<Rightarrow> True
                          | Some v \<Rightarrow> \<not> v \<or> qn_name (ct_name ct) = ''OemActions'') \<and>
                         (properties_is_empty (ct_properties ct) \<or> structural_properties_are_read_only)
                      then Some PRead else None)\<rparr>)"

definition type_info_simple_type :: type_info where
  "type_info_simple_type = \<lparr>ti_class = SimpleType, ti_permissions = None\<rparr>"

definition type_info_enum_type :: type_info where
  "type_info_enum_type = \<lparr>ti_class = EnumType, ti_permissions = None\<rparr>"

definition type_info_type_definition :: type_info where
  "type_info_type_definition = \<lparr>ti_class = TypeDefinition, ti_permissions = None\<rparr>"

definition ct_generates_update :: "complex_type \<Rightarrow> bool" where
  "ct_generates_update ct =
     (ti_permissions (type_info_complex_type ct) \<noteq> Some PRead \<or> ct_is_abstract ct)"

definition et_generates_update :: "entity_type \<Rightarrow> bool" where
  "et_generates_update et =
     ((case od_updatable (et_odata et) of None \<Rightarrow> False | Some v \<Rightarrow> cap_value v) \<or> et_is_abstract et)"

definition insertable_member_type :: "entity_type \<Rightarrow> qname option" where
  "insertable_member_type et =
     (if (case od_insertable (et_odata et) of None \<Rightarrow> False | Some v \<Rightarrow> cap_value v)
      then do {
        p \<leftarrow> find (\<lambda>p. nav_property_name p = ''Members'') (ps_nav_properties (et_properties et));
        (case p of Expandable v \<Rightarrow> Some (ooc_inner (ne_ptype v)) | Reference _ _ _ _ \<Rightarrow> None)
      }
      else None)"

section \<open>Actions and protocol annotations\<close>

datatype parameter_type = ParamEntity nav_property_type | ParamType property_type

record parameter =
  pa_name :: ident
  pa_ptype :: parameter_type
  pa_nullable :: bool
  pa_required :: bool
  pa_odata :: odata

fun parameter_type_map :: "(qname \<Rightarrow> qname) \<Rightarrow> parameter_type \<Rightarrow> parameter_type" where
  "parameter_type_map f (ParamEntity v) = ParamEntity (ooc_map f v)"
| "parameter_type_map f (ParamType v) = ParamType (ooc_map (\<lambda>(typeclass, ptype). (typeclass, f ptype)) v)"

definition parameter_map_type :: "(qname \<Rightarrow> qname) \<Rightarrow> parameter \<Rightarrow> parameter" where
  "parameter_map_type f p = p\<lparr>pa_ptype := parameter_type_map f (pa_ptype p)\<rparr>"

record action =
  ac_defining_namespace :: namespace
  ac_binding :: qname
  ac_binding_name :: ident
  ac_name :: ident
  ac_return_type :: "qname one_or_collection option"
  ac_parameters :: "parameter list"
  ac_odata :: odata

definition action_map_type :: "(qname \<Rightarrow> qname) \<Rightarrow> action \<Rightarrow> action" where
  "action_map_type f a =
     a\<lparr>ac_binding := f (ac_binding a),
       ac_return_type := map_option (ooc_map f) (ac_return_type a),
       ac_parameters := map (parameter_map_type f) (ac_parameters a)\<rparr>"

record annotation =
  an_term :: edmx_term
  an_value_type :: qname

definition annotation_map_type :: "(qname \<Rightarrow> qname) \<Rightarrow> annotation \<Rightarrow> annotation" where
  "annotation_map_type f a = a\<lparr>an_value_type := f (an_value_type a)\<rparr>"

record annotations =
  as_redfish_settings :: "annotation option"
  as_redfish_settings_apply_time :: "annotation option"
  as_redfish_operation_apply_time :: "annotation option"

definition annotations_default :: annotations where
  "annotations_default =
     \<lparr>as_redfish_settings = None, as_redfish_settings_apply_time = None,
      as_redfish_operation_apply_time = None\<rparr>"

definition or_option :: "'a option \<Rightarrow> 'a option \<Rightarrow> 'a option" where
  "or_option a b = (case a of None \<Rightarrow> b | Some x \<Rightarrow> Some x)"

definition annotations_merge :: "annotations \<Rightarrow> annotations \<Rightarrow> annotations" where
  "annotations_merge self other =
     \<lparr>as_redfish_settings = or_option (as_redfish_settings other) (as_redfish_settings self),
      as_redfish_settings_apply_time =
        or_option (as_redfish_settings_apply_time other) (as_redfish_settings_apply_time self),
      as_redfish_operation_apply_time =
        or_option (as_redfish_operation_apply_time other) (as_redfish_operation_apply_time self)\<rparr>"

definition annotations_map_type :: "(qname \<Rightarrow> qname) \<Rightarrow> annotations \<Rightarrow> annotations" where
  "annotations_map_type f a =
     \<lparr>as_redfish_settings = map_option (annotation_map_type f) (as_redfish_settings a),
      as_redfish_settings_apply_time = map_option (annotation_map_type f) (as_redfish_settings_apply_time a),
      as_redfish_operation_apply_time =
        map_option (annotation_map_type f) (as_redfish_operation_apply_time a)\<rparr>"

section \<open>The compiled aggregate\<close>

type_synonym actions_map = "(namespace \<times> ident, action) hash_map"
type_synonym type_actions = "(qname, actions_map) hash_map"
type_synonym excerpt_copies_map = "(qname, excerpt_copy set) hash_map"

record compiled =
  co_annotations :: annotations
  co_complex_types :: "(qname, complex_type) hash_map"
  co_entity_types :: "(qname, entity_type) hash_map"
  co_type_definitions :: "(qname, type_definition) hash_map"
  co_enum_types :: "(qname, enum_type) hash_map"
  co_actions :: type_actions
  co_creatable_entity_types :: "qname set"
  co_excerpt_copies :: excerpt_copies_map

definition compiled_default :: compiled where
  "compiled_default =
     \<lparr>co_annotations = annotations_default, co_complex_types = [], co_entity_types = [],
      co_type_definitions = [], co_enum_types = [], co_actions = [],
      co_creatable_entity_types = {}, co_excerpt_copies = []\<rparr>"

definition new_entity_type :: "entity_type \<Rightarrow> compiled" where
  "new_entity_type v =
     compiled_default
       \<lparr>co_entity_types := [(et_name v, v)],
        co_creatable_entity_types := (case insertable_member_type v of None \<Rightarrow> {} | Some t \<Rightarrow> {t})\<rparr>"

definition new_complex_type :: "complex_type \<Rightarrow> compiled" where
  "new_complex_type v = compiled_default\<lparr>co_complex_types := [(ct_name v, v)]\<rparr>"

definition new_type_definition :: "type_definition \<Rightarrow> compiled" where
  "new_type_definition v = compiled_default\<lparr>co_type_definitions := [(td_name v, v)]\<rparr>"

definition new_enum_type :: "enum_type \<Rightarrow> compiled" where
  "new_enum_type v = compiled_default\<lparr>co_enum_types := [(en_name v, v)]\<rparr>"

definition new_action :: "action \<Rightarrow> compiled" where
  "new_action v =
     compiled_default\<lparr>co_actions := [(ac_binding v, [((ac_defining_namespace v, ac_name v), v)])]\<rparr>"

definition new_excerpt_copy :: "qname \<Rightarrow> excerpt_copy \<Rightarrow> compiled" where
  "new_excerpt_copy qtype copy = compiled_default\<lparr>co_excerpt_copies := [(qtype, {copy})]\<rparr>"

definition mark_odata_type :: "qname \<Rightarrow> compiled \<Rightarrow> compiled" where
  "mark_odata_type qtype c =
     (case map_of (co_entity_types c) qtype of
        None \<Rightarrow> c
      | Some et \<Rightarrow>
          c\<lparr>co_entity_types :=
              hm_insert qtype (et\<lparr>et_odata := (et_odata et)\<lparr>od_must_have_type := True\<rparr>\<rparr>)
                (co_entity_types c)\<rparr>)"

definition excerpt_copies_merge_to ::
  "excerpt_copies_map \<Rightarrow> qname \<Rightarrow> excerpt_copy set \<Rightarrow> excerpt_copies_map" where
  "excerpt_copies_merge_to target name copies =
     (case map_of target name of
        Some e \<Rightarrow> hm_insert name (e \<union> copies) target
      | None \<Rightarrow> hm_insert name copies target)"

definition merge_actions :: "type_actions \<Rightarrow> type_actions \<Rightarrow> type_actions" where
  "merge_actions self other =
     fold (\<lambda>(qname, actions) selfactions.
             let new_actions = (case map_of selfactions qname of
                                  None \<Rightarrow> actions
                                | Some v \<Rightarrow> hm_extend v actions)
             in hm_insert qname new_actions (hm_remove qname selfactions))
       other self"

definition compiled_merge :: "compiled \<Rightarrow> compiled \<Rightarrow> compiled" where
  "compiled_merge self other =
     \<lparr>co_annotations = annotations_merge (co_annotations self) (co_annotations other),
      co_complex_types = hm_extend (co_complex_types self) (co_complex_types other),
      co_entity_types = hm_extend (co_entity_types self) (co_entity_types other),
      co_type_definitions = hm_extend (co_type_definitions self) (co_type_definitions other),
      co_enum_types = hm_extend (co_enum_types self) (co_enum_types other),
      co_actions = merge_actions (co_actions self) (co_actions other),
      co_creatable_entity_types = co_creatable_entity_types self \<union> co_creatable_entity_types other,
      co_excerpt_copies =
        fold (\<lambda>(qtype, copies) acc. excerpt_copies_merge_to acc qtype copies)
          (co_excerpt_copies other) (co_excerpt_copies self)\<rparr>"

definition sorted_type_names :: "compiled \<Rightarrow> qname list" where
  "sorted_type_names c =
     sort (map fst (co_entity_types c) @ map fst (co_complex_types c) @
           map fst (co_enum_types c) @ map fst (co_type_definitions c))"

end
