(* ===== verification/Csdl_Closed.thy ===== *)
theory Csdl_Closed
  imports Csdl_Compiled
begin

text \<open>
  What a compiled aggregate has to satisfy for the generator: every name it refers to is a type of the right kind
  in it (\<open>compiled_closed\<close>), the kinds share no name, types are stored under their own names and inheritance has no
  cycle. With it, the types whose \<open>Update\<close> structs are forced by a derived type (\<open>compiled.rs\<close>,
  \<open>forced_updates\<close>).
\<close>

section \<open>Inheritance\<close>

text \<open>The relation from a type of a table to its base.\<close>

definition base_rel :: "('t \<Rightarrow> qname option) \<Rightarrow> (qname, 't) hash_map \<Rightarrow> (qname \<times> qname) set" where
  "base_rel base types = {(q, b). \<exists>t. map_of types q = Some t \<and> base t = Some b}"

definition hierarchy_ok :: "('t \<Rightarrow> qname option) \<Rightarrow> (qname, 't) hash_map \<Rightarrow> bool" where
  "hierarchy_ok base types =
     (hm_wf types \<and> acyclic (base_rel base types) \<and>
      (\<forall>(q, b) \<in> base_rel base types. map_of types b \<noteq> None))"

lemma base_relI: "map_of types q = Some t \<Longrightarrow> base t = Some b \<Longrightarrow> (q, b) \<in> base_rel base types"
  by (auto simp: base_rel_def)

lemma base_rel_alt: "base_rel base types = {(q, b). Option.bind (map_of types q) base = Some b}"
  by (auto simp: base_rel_def bind_eq_Some_conv)

lemma finite_base_rel: "finite (base_rel base types)"
proof -
  have "base_rel base types \<subseteq> (\<lambda>q. (q, the (Option.bind (map_of types q) base))) ` (fst ` set types)"
    by (force simp: base_rel_alt bind_eq_Some_conv dest: map_of_SomeD)
  then show ?thesis by (rule finite_subset) simp
qed

text \<open>Without cycles, induction goes from a type to its base.\<close>

lemma wf_base_rel: "hierarchy_ok base types \<Longrightarrow> wf ((base_rel base types)\<inverse>)"
  by (auto simp: hierarchy_ok_def intro: finite_acyclic_wf_converse finite_base_rel)

lemma hierarchy_induct [consumes 1, case_names type]:
  assumes "hierarchy_ok base types"
    and "\<And>q. (\<And>t b. map_of types q = Some t \<Longrightarrow> base t = Some b \<Longrightarrow> P b) \<Longrightarrow> P q"
  shows "P q"
  using wf_base_rel [OF assms(1)]
  by (induction q rule: wf_induct_rule) (auto simp: base_rel_def intro: assms(2))

lemma hierarchy_base: 
  "hierarchy_ok base types \<Longrightarrow> map_of types q = Some t \<Longrightarrow> base t = Some b \<Longrightarrow> \<exists>u. map_of types b = Some u"
  by (fastforce simp: hierarchy_ok_def base_rel_def)

lemma hierarchy_wf [simp]: "hierarchy_ok base types \<Longrightarrow> hm_wf types"
  by (simp add: hierarchy_ok_def)

text \<open>A rank that falls from a type to its base rules cycles out.\<close>

lemma hierarchy_okI:
  fixes rank :: "qname \<Rightarrow> nat"
  assumes "hm_wf types"
    "list_all (\<lambda>(q, t). case base t of None \<Rightarrow> True | Some b \<Rightarrow> b \<in> fst ` set types \<and> rank b < rank q) types"
  shows "hierarchy_ok base types"
proof -
  have falls: "b \<in> fst ` set types \<and> rank b < rank q" if "(q, b) \<in> base_rel base types" for q b
    using that assms(2) by (fastforce simp: base_rel_def list_all_iff dest: map_of_SomeD)
  then have "(base_rel base types)\<inverse> \<subseteq> measure rank" by auto
  then have "acyclic (base_rel base types)"
    by (metis acyclic_converse wf_acyclic wf_measure wf_subset)
  then show ?thesis using assms(1) falls by (auto simp: hierarchy_ok_def map_of_eq_None_iff)
qed

section \<open>Forced updates\<close>

function mark_chain ::
  "(qname, 't) hash_map \<Rightarrow> ('t \<Rightarrow> qname option) \<Rightarrow> qname option \<Rightarrow> qname set \<Rightarrow> qname set" where
  "mark_chain types base None forced = forced"
| "mark_chain types base (Some name) forced =
     (if name \<in> forced then forced
      else mark_chain types base (Option.bind (map_of types name) base) (insert name forced))"
  by pat_completeness auto
termination
proof (relation "measure (\<lambda>(types, _, nxt, forced).
    card (fst ` set types - forced) + (if nxt = None then 0 else 1))")
  fix types :: "(qname, 't) hash_map" and base :: "'t \<Rightarrow> qname option"
    and name :: qname and forced :: "qname set"
  assume new: "name \<notin> forced"
  let ?keys = "fst ` set types"
  show "((types, base, Option.bind (map_of types name) base, insert name forced), types, base, Some name, forced)
    \<in> measure (\<lambda>(types, _, nxt, forced). card (fst ` set types - forced) + (if nxt = None then 0 else 1))"
  proof (cases "name \<in> ?keys")
    case True
    then have "card (?keys - insert name forced) < card (?keys - forced)"
      using new by (intro psubset_card_mono) auto
    then show ?thesis by simp
  next
    case False
    then have "map_of types name = None" by (simp add: map_of_eq_None_iff)
    moreover have "?keys - insert name forced = ?keys - forced" using False by auto
    ultimately show ?thesis by simp
  qed
qed simp

definition mark_update_ancestors ::
  "(qname, 't) hash_map \<Rightarrow> ('t \<Rightarrow> bool) \<Rightarrow> ('t \<Rightarrow> qname option) \<Rightarrow> qname set \<Rightarrow> qname set" where
  "mark_update_ancestors types generates_update base forced =
     fold (\<lambda>t forced. if generates_update t then mark_chain types base (base t) forced else forced)
       (map snd types) forced"

definition forced_updates :: "compiled \<Rightarrow> qname set" where
  "forced_updates c =
     mark_update_ancestors (co_entity_types c) et_generates_update et_base
       (mark_update_ancestors (co_complex_types c) ct_generates_update ct_base {})"

text \<open>The proper ancestors of the types of a table that generate an update.\<close>

definition update_ancestors :: "(qname, 't) hash_map \<Rightarrow> ('t \<Rightarrow> bool) \<Rightarrow> ('t \<Rightarrow> qname option) \<Rightarrow> qname set" where
  "update_ancestors types generates_update base =
     {a. \<exists>t b. t \<in> snd ` set types \<and> generates_update t \<and> base t = Some b \<and> (b, a) \<in> (base_rel base types)\<^sup>*}"

definition base_closed :: "(qname, 't) hash_map \<Rightarrow> ('t \<Rightarrow> qname option) \<Rightarrow> qname set \<Rightarrow> bool" where
  "base_closed types base forced = (\<forall>x y. x \<in> forced \<longrightarrow> (x, y) \<in> base_rel base types \<longrightarrow> y \<in> forced)"

lemma base_closed_reach:
  "base_closed types base forced \<Longrightarrow> x \<in> forced \<Longrightarrow> (x, y) \<in> (base_rel base types)\<^sup>* \<Longrightarrow> y \<in> forced"
  by (rotate_tac 2, induction rule: rtrancl_induct) (auto simp: base_closed_def)

lemma mark_chain_reach:
  assumes "\<forall>x y. x \<in> forced \<longrightarrow> (x, y) \<in> base_rel base types \<longrightarrow> y \<in> forced \<or> nxt = Some y"
  shows "mark_chain types base nxt forced =
           forced \<union> {a. \<exists>b. nxt = Some b \<and> (b, a) \<in> (base_rel base types)\<^sup>*} \<and>
         base_closed types base (mark_chain types base nxt forced)"
  using assms
proof (induction types base nxt forced rule: mark_chain.induct)
  case (1 types base forced)
  then show ?case by (auto simp: base_closed_def)
next
  case (2 types base name forced)
  let ?R = "base_rel base types" and ?next = "Option.bind (map_of types name) base"
  have reach: "{a. (name, a) \<in> ?R\<^sup>*} = insert name {a. \<exists>b. ?next = Some b \<and> (b, a) \<in> ?R\<^sup>*}"
    by (auto simp: base_rel_alt intro: converse_rtrancl_into_rtrancl elim: converse_rtranclE)
  show ?case
  proof (cases "name \<in> forced")
    case True
    then have closed: "base_closed types base forced"
      using "2.prems" by (auto simp: base_closed_def)
    then have "{a. (name, a) \<in> ?R\<^sup>*} \<subseteq> forced"
      using True by (auto intro: base_closed_reach)
    then show ?thesis using True closed by auto
  next
    case False
    have "\<forall>x y. x \<in> insert name forced \<longrightarrow> (x, y) \<in> ?R \<longrightarrow> y \<in> insert name forced \<or> ?next = Some y"
      using "2.prems" by (auto simp: base_rel_alt)
    from "2.IH" [OF False this]
    have eq: "mark_chain types base ?next (insert name forced) =
        insert name forced \<union> {a. \<exists>b. ?next = Some b \<and> (b, a) \<in> ?R\<^sup>*}"
      and closed: "base_closed types base (mark_chain types base ?next (insert name forced))" by auto
    have step: "mark_chain types base (Some name) forced = mark_chain types base ?next (insert name forced)"
      using False by simp
    show ?thesis
    proof
      show "mark_chain types base (Some name) forced = forced \<union> {a. \<exists>b. Some name = Some b \<and> (b, a) \<in> ?R\<^sup>*}"
        unfolding step eq using reach by auto
    qed (simp only: step closed)
  qed
qed

lemma mark_update_ancestors_eq:
  assumes "base_closed types base forced"
  shows "mark_update_ancestors types gen base forced = forced \<union> update_ancestors types gen base \<and>
         base_closed types base (mark_update_ancestors types gen base forced)"
proof -
  let ?R = "base_rel base types"
  have "fold (\<lambda>t forced. if gen t then mark_chain types base (base t) forced else forced) ts forced =
          forced \<union> {a. \<exists>t b. t \<in> set ts \<and> gen t \<and> base t = Some b \<and> (b, a) \<in> ?R\<^sup>*} \<and>
        base_closed types base
          (fold (\<lambda>t forced. if gen t then mark_chain types base (base t) forced else forced) ts forced)"
    if "base_closed types base forced" for ts forced
    using that
  proof (induction ts arbitrary: forced)
    case (Cons t ts)
    have "\<forall>x y. x \<in> forced \<longrightarrow> (x, y) \<in> ?R \<longrightarrow> y \<in> forced \<or> base t = Some y"
      using Cons.prems by (auto simp: base_closed_def)
    from mark_chain_reach [OF this]
    have step: "mark_chain types base (base t) forced =
        forced \<union> {a. \<exists>b. base t = Some b \<and> (b, a) \<in> ?R\<^sup>*}"
      and closed: "base_closed types base (mark_chain types base (base t) forced)" by auto
    let ?f = "\<lambda>t forced. if gen t then mark_chain types base (base t) forced else forced"
    have closed': "base_closed types base (?f t forced)" using closed Cons.prems by simp
    have "?f t forced = forced \<union> {a. \<exists>b. gen t \<and> base t = Some b \<and> (b, a) \<in> ?R\<^sup>*}"
      by (simp add: step)
    with Cons.IH [OF closed'] show ?case by (intro conjI) auto
  qed simp
  from this [OF assms, of "map snd types"] show ?thesis
    unfolding mark_update_ancestors_def update_ancestors_def set_map .
qed

section \<open>Closed aggregates\<close>

definition type_names :: "compiled \<Rightarrow> qname set" where
  "type_names c =
     fst ` set (co_complex_types c) \<union> fst ` set (co_enum_types c) \<union> fst ` set (co_type_definitions c)"

definition entity_names :: "compiled \<Rightarrow> qname set" where
  "entity_names c = fst ` set (co_entity_types c)"

definition all_properties :: "compiled \<Rightarrow> properties list" where
  "all_properties c = map (ct_properties \<circ> snd) (co_complex_types c) @ map (et_properties \<circ> snd) (co_entity_types c)"

text \<open>The names an aggregate refers to, by what they have to be.\<close>

definition property_refs :: "compiled \<Rightarrow> qname set" where
  "property_refs c = (\<Union>ps \<in> set (all_properties c). (property_type_name \<circ> pr_ptype) ` set (ps_properties ps))"

fun nav_refs :: "nav_property \<Rightarrow> qname set" where
  "nav_refs (Expandable v) = {ooc_inner (ne_ptype v)}"
| "nav_refs (Reference _ _ _ _) = {}"

definition navigation_refs :: "compiled \<Rightarrow> qname set" where
  "navigation_refs c = (\<Union>ps \<in> set (all_properties c). \<Union> (nav_refs ` set (ps_nav_properties ps)))"

definition all_actions :: "compiled \<Rightarrow> action set" where
  "all_actions c = (\<Union>(q, m) \<in> set (co_actions c). snd ` set m)"

definition binding_refs :: "compiled \<Rightarrow> qname set" where
  "binding_refs c = fst ` set (co_actions c) \<union> ac_binding ` all_actions c"

fun param_type_refs :: "parameter_type \<Rightarrow> qname set" where
  "param_type_refs (ParamType t) = {property_type_name t}"
| "param_type_refs (ParamEntity _) = {}"

fun param_entity_refs :: "parameter_type \<Rightarrow> qname set" where
  "param_entity_refs (ParamEntity t) = {ooc_inner t}"
| "param_entity_refs (ParamType _) = {}"

definition action_refs :: "compiled \<Rightarrow> qname set" where
  "action_refs c =
     (\<Union>a \<in> all_actions c. ooc_inner ` set_option (ac_return_type a) \<union>
        (\<Union>p \<in> set (ac_parameters a). param_type_refs (pa_ptype p)))"

definition action_entity_refs :: "compiled \<Rightarrow> qname set" where
  "action_entity_refs c = (\<Union>a \<in> all_actions c. \<Union>p \<in> set (ac_parameters a). param_entity_refs (pa_ptype p))"

definition annotation_refs :: "annotations \<Rightarrow> qname set" where
  "annotation_refs a =
     an_value_type ` (set_option (as_redfish_settings a) \<union> set_option (as_redfish_settings_apply_time a) \<union>
       set_option (as_redfish_operation_apply_time a))"

definition is_type_ref :: "compiled \<Rightarrow> qname \<Rightarrow> bool" where
  "is_type_ref c q = (is_simple_type q \<or> q \<in> type_names c)"

definition compiled_closed :: "compiled \<Rightarrow> bool" where
  "compiled_closed c =
     ((\<forall>q \<in> property_refs c \<union> action_refs c. is_type_ref c q) \<and>
      annotation_refs (co_annotations c) \<subseteq> type_names c \<and>
      binding_refs c \<subseteq> fst ` set (co_complex_types c) \<and>
      navigation_refs c \<union> action_entity_refs c \<union> co_creatable_entity_types c \<union>
        fst ` set (co_excerpt_copies c) \<subseteq> entity_names c)"

text \<open>
  Kinds share no name, whatever version namespaces are dropped: a type is told from those of other kinds by the
  first identifier of its namespace and its own name, and no type is in the family of simple types.
\<close>

definition family :: "qname \<Rightarrow> namespace \<times> ident" where
  "family q = (ns_root (qn_namespace q), qn_name q)"

definition kinds_apart :: "compiled \<Rightarrow> bool" where
  "kinds_apart c =
     (family ` fst ` set (co_complex_types c) \<inter> family ` fst ` set (co_enum_types c) = {} \<and>
      family ` fst ` set (co_complex_types c) \<inter> family ` fst ` set (co_type_definitions c) = {} \<and>
      family ` fst ` set (co_enum_types c) \<inter> family ` fst ` set (co_type_definitions c) = {} \<and>
      family ` type_names c \<inter> family ` entity_names c = {} \<and>
      (\<forall>q \<in> type_names c \<union> entity_names c. ns_root (qn_namespace q) \<noteq> [''Edm'']))"

lemma is_simple_root: "is_simple_type q \<Longrightarrow> ns_root (qn_namespace q) = [''Edm'']"
  by (cases "qn_namespace q") (auto simp: is_simple_type_def ns_is_edm_def ns_root_def)

definition compiled_wf :: "compiled \<Rightarrow> bool" where
  "compiled_wf c =
     (hierarchy_ok ct_base (co_complex_types c) \<and> hierarchy_ok et_base (co_entity_types c) \<and>
      hm_wf (co_enum_types c) \<and> hm_wf (co_type_definitions c) \<and>
      hm_wf (co_actions c) \<and> hm_wf (co_excerpt_copies c) \<and>
      list_all (\<lambda>(q, t). ct_name t = q) (co_complex_types c) \<and>
      list_all (\<lambda>(q, t). et_name t = q) (co_entity_types c))"

lemma compiled_wfD:
  assumes "compiled_wf c"
  shows "hierarchy_ok ct_base (co_complex_types c)" "hierarchy_ok et_base (co_entity_types c)"
    "hm_wf (co_enum_types c)" "hm_wf (co_type_definitions c)" "hm_wf (co_actions c)"
    "hm_wf (co_excerpt_copies c)"
    "(q, ct) \<in> set (co_complex_types c) \<Longrightarrow> ct_name ct = q"
    "(q, et) \<in> set (co_entity_types c) \<Longrightarrow> et_name et = q"
  using assms by (auto simp: compiled_wf_def list_all_iff)

end
