(* ===== verification/Csdl_Optimizer.thy ===== *)
theory Csdl_Optimizer
  imports Csdl_Closed
begin

text \<open>
  The passes of the schema optimizer (\<open>optimizer/*.rs\<close>): empty types are replaced by their parents,
  parents with one child are folded into it, and version namespaces that are not needed to tell types apart
  are dropped. A pass that follows bases without a guard may not return on cyclic input: it is an
  \<open>outcome\<close>, \<open>None\<close> when it does not. The loops over bases and children are written once for both kinds of
  types, with the accessors of the kind as arguments.
\<close>

section \<open>Replacements\<close>

record optimizer_config =
  oc_never_prune :: type_filter

type_synonym replacements = "(qname, qname) hash_map"

definition optimizer_config_default :: optimizer_config where
  "optimizer_config_default =
     \<lparr>oc_never_prune = new_permissive
        [\<lparr>fp_ns_ids = [Some ''Resource''], fp_names = {''Item''}\<rparr>,
         \<lparr>fp_ns_ids = [Some ''Resource''], fp_names = {''ItemOrCollection''}\<rparr>]\<rparr>"

definition replace :: "replacements \<Rightarrow> qname \<Rightarrow> qname" where
  "replace reps target = (case map_of reps target of None \<Rightarrow> target | Some r \<Rightarrow> r)"

definition map_types_in_actions :: "(qname \<Rightarrow> qname) \<Rightarrow> type_actions \<Rightarrow> type_actions" where
  "map_types_in_actions f actions =
     hm_collect (map (\<lambda>(qname, actions).
         (f qname, hm_collect (map (\<lambda>(aname, a). (aname, action_map_type f a)) actions)))
       actions)"

definition merge_excerpt_copies :: "(qname \<Rightarrow> qname) \<Rightarrow> excerpt_copies_map \<Rightarrow> excerpt_copies_map" where
  "merge_excerpt_copies f copies =
     fold (\<lambda>(name, copies) acc. excerpt_copies_merge_to acc (f name) copies) copies []"

definition map_values :: "('v \<Rightarrow> 'w) \<Rightarrow> ('k, 'v) hash_map \<Rightarrow> ('k, 'w) hash_map" where
  "map_values f m = hm_collect (map (\<lambda>(name, v). (name, f v)) m)"

section \<open>Removing empty types\<close>

partial_function (option) find_non_empty_parent ::
  "('t \<Rightarrow> bool) \<Rightarrow> ('t \<Rightarrow> qname option) \<Rightarrow> (qname, 't) hash_map \<Rightarrow> qname \<Rightarrow> qname option outcome" where
  "find_non_empty_parent is_empty base types q =
     (case map_of types q of
        None \<Rightarrow> Some None
      | Some t \<Rightarrow>
          if \<not> is_empty t then Some (Some q)
          else (case base t of
                  None \<Rightarrow> Some None
                | Some b \<Rightarrow> find_non_empty_parent is_empty base types b))"

definition ct_is_empty :: "complex_type \<Rightarrow> bool" where
  "ct_is_empty ct = properties_is_empty (ct_properties ct)"

definition et_is_empty :: "entity_type \<Rightarrow> bool" where
  "et_is_empty et = (properties_is_empty (et_properties et) \<and> et_key et = None \<and> odata_is_empty (et_odata et))"

text \<open>\<open>filter_map\<close> and \<open>collect\<close> over the values of a table, with the candidates a pass considers.\<close>

definition collect_replacements ::
  "('t \<Rightarrow> bool) \<Rightarrow> ('t \<Rightarrow> bool) \<Rightarrow> ('t \<Rightarrow> qname option) \<Rightarrow> ('t \<Rightarrow> qname) \<Rightarrow> (qname, 't) hash_map \<Rightarrow>
     replacements outcome" where
  "collect_replacements candidate is_empty base name types = do {
     found \<leftarrow> those (map (\<lambda>v.
         if candidate v \<and> is_empty v
         then map_option (map_option (Pair (name v))) (find_non_empty_parent is_empty base types (name v))
         else Some None)
       (map snd types));
     Some (hm_collect (List.map_filter (\<lambda>x. x) found))
   }"

definition collect_ct_replacements :: "compiled \<Rightarrow> replacements outcome" where
  "collect_ct_replacements input =
     collect_replacements (\<lambda>_. True) ct_is_empty ct_base ct_name (co_complex_types input)"

definition collect_et_replacements :: "compiled \<Rightarrow> optimizer_config \<Rightarrow> replacements outcome" where
  "collect_et_replacements input config =
     collect_replacements (\<lambda>v. \<not> filter_matches (oc_never_prune config) (et_name v))
       et_is_empty et_base et_name (co_entity_types input)"

definition remove_empty_complex_types :: "compiled \<Rightarrow> optimizer_config \<Rightarrow> compiled outcome" where
  "remove_empty_complex_types input config = do {
     reps \<leftarrow> collect_ct_replacements input;
     let map_prop = property_map_type (replace reps);
     Some (input
       \<lparr>co_complex_types :=
          hm_collect (map (\<lambda>(name, v). (name, ct_map_base (replace reps) (ct_map_properties map_prop v)))
            (filter (\<lambda>(name, v). \<not> hm_contains_key reps name) (co_complex_types input))),
        co_entity_types := map_values (et_map_properties map_prop) (co_entity_types input),
        co_annotations := annotations_map_type (replace reps) (co_annotations input),
        co_actions := map_types_in_actions (replace reps) (co_actions input)\<rparr>)
   }"

definition remove_empty_entity_types :: "compiled \<Rightarrow> optimizer_config \<Rightarrow> compiled outcome" where
  "remove_empty_entity_types input config = do {
     reps \<leftarrow> collect_et_replacements input config;
     let map_nav_prop = nav_property_map_type (replace reps);
     Some (input
       \<lparr>co_entity_types :=
          hm_collect (map (\<lambda>(name, v). (name, et_map_base (replace reps) (et_map_nav_properties map_nav_prop v)))
            (filter (\<lambda>(name, v). \<not> hm_contains_key reps name) (co_entity_types input))),
        co_creatable_entity_types := replace reps ` co_creatable_entity_types input,
        co_excerpt_copies := merge_excerpt_copies (replace reps) (co_excerpt_copies input),
        co_complex_types := map_values (ct_map_nav_properties map_nav_prop) (co_complex_types input),
        co_annotations := annotations_map_type (replace reps) (co_annotations input),
        co_actions := map_types_in_actions (replace reps) (co_actions input)\<rparr>)
   }"

section \<open>Folding parents with one child\<close>

definition child_counts ::
  "('t \<Rightarrow> qname option) \<Rightarrow> ('t \<Rightarrow> qname) \<Rightarrow> (qname, 't) hash_map \<Rightarrow> (qname, qname \<times> nat) hash_map" where
  "child_counts base name types =
     fold (\<lambda>(_, t) v.
             case base t of
               None \<Rightarrow> v
             | Some b \<Rightarrow> hm_entry b (name t, 0) (\<lambda>(child, cnt). (child, cnt + 1)) v)
       types []"

definition single_child_parents ::
  "(qname \<Rightarrow> bool) \<Rightarrow> (qname, qname \<times> nat) hash_map \<Rightarrow> replacements" where
  "single_child_parents prunable counts =
     hm_collect (List.map_filter
       (\<lambda>(parent, child, cnt). if prunable parent \<and> cnt = 1 then Some (parent, child) else None) counts)"

partial_function (option) most_specific_child :: "replacements \<Rightarrow> qname \<Rightarrow> qname outcome" where
  "most_specific_child scp child =
     (case map_of scp child of
        None \<Rightarrow> Some child
      | Some next_child \<Rightarrow> most_specific_child scp next_child)"

definition child_replacements :: "replacements \<Rightarrow> replacements outcome" where
  "child_replacements scp = do {
     reps \<leftarrow> those (map (\<lambda>(parent, child). map_option (Pair parent) (most_specific_child scp child)) scp);
     Some (hm_collect reps)
   }"

text \<open>
  The loop of a retained type over its removed parents: \<open>base_of\<close>, \<open>odata_of\<close> and \<open>props_of\<close> read a parent,
  \<open>merge\<close> is what its annotations add, and \<open>remove\<close> is the table the parents are taken from.
\<close>

function (sequential) absorb_parents ::
  "('t \<Rightarrow> qname option) \<Rightarrow> ('t \<Rightarrow> odata) \<Rightarrow> ('t \<Rightarrow> properties) \<Rightarrow> (odata \<Rightarrow> odata \<Rightarrow> odata) \<Rightarrow>
     (qname, 't) hash_map \<Rightarrow> qname option \<Rightarrow> odata \<Rightarrow> properties list \<Rightarrow>
     (qname, 't) hash_map \<times> qname option \<times> odata \<times> properties list" where
  "absorb_parents base_of odata_of props_of merge remove None od ps = (remove, None, od, ps)"
| "absorb_parents base_of odata_of props_of merge remove (Some next_base) od ps =
     (case map_of remove next_base of
        None \<Rightarrow> (remove, Some next_base, od, ps)
      | Some parent \<Rightarrow>
          absorb_parents base_of odata_of props_of merge (hm_remove next_base remove) (base_of parent)
            (merge od (odata_of parent)) (ps @ [props_of parent]))"
  by pat_completeness auto
termination
proof (relation "measure (\<lambda>(_, _, _, _, remove, _). length remove)")
  fix next_base :: qname and parent :: 't and remove :: "(qname, 't) hash_map"
  assume "map_of remove next_base = Some parent"
  then have "length (hm_remove next_base remove) < length remove"
    unfolding hm_remove_def AList.delete_eq by (intro length_filter_less) (auto dest: map_of_SomeD)
  then show "((base_of, odata_of, props_of, merge, hm_remove next_base remove, base_of parent,
      merge od (odata_of parent), ps @ [props_of parent]),
     base_of, odata_of, props_of, merge, remove, Some next_base, od, ps)
    \<in> measure (\<lambda>(_, _, _, _, remove, _). length remove)" for base_of odata_of props_of merge od ps
    by simp
qed simp

definition ct_merge_odata :: "odata \<Rightarrow> odata \<Rightarrow> odata" where
  "ct_merge_odata od parent_odata =
     (if od_additional_properties od = None
      then od\<lparr>od_additional_properties := od_additional_properties parent_odata\<rparr> else od)"

definition merge_odata :: "odata \<Rightarrow> odata \<Rightarrow> odata" where
  "merge_odata od parent_odata =
     od\<lparr>od_must_have_type := (if \<not> od_must_have_type od then od_must_have_type parent_odata else od_must_have_type od),
        od_additional_properties := or_option (od_additional_properties od) (od_additional_properties parent_odata),
        od_description := or_option (od_description od) (od_description parent_odata),
        od_long_description := or_option (od_long_description od) (od_long_description parent_odata),
        od_insertable := or_option (od_insertable od) (od_insertable parent_odata),
        od_updatable := or_option (od_updatable od) (od_updatable parent_odata),
        od_deletable := or_option (od_deletable od) (od_deletable parent_odata)\<rparr>"

text \<open>The retained types, each with its removed parents folded in; \<open>upd\<close> builds the new type.\<close>

fun absorb_types ::
  "('t \<Rightarrow> qname option) \<Rightarrow> ('t \<Rightarrow> odata) \<Rightarrow> ('t \<Rightarrow> properties) \<Rightarrow> (odata \<Rightarrow> odata \<Rightarrow> odata) \<Rightarrow>
     (qname option \<Rightarrow> properties \<Rightarrow> odata \<Rightarrow> 't \<Rightarrow> 't) \<Rightarrow>
     (qname, 't) hash_map \<Rightarrow> (qname \<times> 't) list \<Rightarrow> (qname \<times> 't) list" where
  "absorb_types base_of odata_of props_of merge upd remove [] = []"
| "absorb_types base_of odata_of props_of merge upd remove ((name, v) # retain) =
     (case absorb_parents base_of odata_of props_of merge remove (base_of v) (odata_of v) [props_of v] of
        (remove, base, od, ps) \<Rightarrow>
          (name, upd base (rev_join ps) od v)
            # absorb_types base_of odata_of props_of merge upd remove retain)"

definition absorb_complex_types ::
  "(qname, complex_type) hash_map \<Rightarrow> (qname \<times> complex_type) list \<Rightarrow> (qname \<times> complex_type) list" where
  "absorb_complex_types =
     absorb_types ct_base ct_odata ct_properties ct_merge_odata
       (\<lambda>base ps od v. v\<lparr>ct_base := base, ct_properties := ps, ct_odata := od\<rparr>)"

definition absorb_entity_types ::
  "(qname, entity_type) hash_map \<Rightarrow> (qname \<times> entity_type) list \<Rightarrow> (qname \<times> entity_type) list" where
  "absorb_entity_types =
     absorb_types et_base et_odata et_properties merge_odata
       (\<lambda>base ps od v. v\<lparr>et_base := base, et_properties := ps, et_odata := od\<rparr>)"

text \<open>A property after the folding of complex types: its type renamed, its type information renewed.\<close>

definition retype_property :: "replacements \<Rightarrow> (qname, type_info) hash_map \<Rightarrow> property \<Rightarrow> property" where
  "retype_property reps infos p =
     (let p = property_map_type (replace reps) p in
      case map_of infos (property_type_name (pr_ptype p)) of
        None \<Rightarrow> p
      | Some typeinfo \<Rightarrow> p\<lparr>pr_ptype := ooc_map (\<lambda>(_, name). (typeinfo, name)) (pr_ptype p)\<rparr>)"

definition prune_complex_type_inheritance :: "compiled \<Rightarrow> optimizer_config \<Rightarrow> compiled outcome" where
  "prune_complex_type_inheritance input config = do {
     let scp = single_child_parents (\<lambda>_. True) (child_counts ct_base ct_name (co_complex_types input));
     reps \<leftarrow> child_replacements scp;
     let remove = filter (\<lambda>(name, _). hm_contains_key reps name) (co_complex_types input);
     let retain = filter (\<lambda>(name, _). \<not> hm_contains_key reps name) (co_complex_types input);
     let complex_types = absorb_complex_types remove retain;
     let infos = hm_collect (map (\<lambda>(name, v). (name, type_info_complex_type v)) complex_types);
     let map_prop = retype_property reps infos;
     Some (input
       \<lparr>co_complex_types := map_values (ct_map_properties map_prop) complex_types,
        co_entity_types := map_values (et_map_properties map_prop) (co_entity_types input),
        co_annotations := annotations_map_type (replace reps) (co_annotations input),
        co_actions := map_types_in_actions (replace reps) (co_actions input)\<rparr>)
   }"

definition prunable_entity :: "compiled \<Rightarrow> optimizer_config \<Rightarrow> qname \<Rightarrow> bool" where
  "prunable_entity input config parent =
     (case map_of (co_entity_types input) parent of
        None \<Rightarrow> False
      | Some parent_et \<Rightarrow>
          \<not> filter_matches (oc_never_prune config) (et_name parent_et) \<and> et_key parent_et = None)"

definition prune_entity_type_inheritance :: "compiled \<Rightarrow> optimizer_config \<Rightarrow> compiled outcome" where
  "prune_entity_type_inheritance input config = do {
     let scp = single_child_parents (prunable_entity input config)
                 (child_counts et_base et_name (co_entity_types input));
     reps \<leftarrow> child_replacements scp;
     let remove = filter (\<lambda>(name, _). hm_contains_key reps name) (co_entity_types input);
     let retain = filter (\<lambda>(name, _). \<not> hm_contains_key reps name) (co_entity_types input);
     let map_nav_prop = nav_property_map_type (replace reps);
     Some (input
       \<lparr>co_entity_types := map_values (et_map_nav_properties map_nav_prop) (absorb_entity_types remove retain),
        co_creatable_entity_types := replace reps ` co_creatable_entity_types input,
        co_excerpt_copies := merge_excerpt_copies (replace reps) (co_excerpt_copies input),
        co_complex_types := map_values (ct_map_nav_properties map_nav_prop) (co_complex_types input),
        co_annotations := annotations_map_type (replace reps) (co_annotations input),
        co_actions := map_types_in_actions (replace reps) (co_actions input)\<rparr>)
   }"

section \<open>Dropping namespaces\<close>

type_synonym namespace_matches = "(namespace, nat) hash_map"
type_synonym type_namespaces = "(ident, namespace_matches) hash_map"

function count_parents :: "namespace \<Rightarrow> namespace_matches \<Rightarrow> namespace_matches" where
  "count_parents namespace matches =
     (case ns_parent namespace of
        None \<Rightarrow> matches
      | Some parent \<Rightarrow> count_parents parent (hm_entry parent 0 (\<lambda>n. n + 1) matches))"
  by pat_completeness auto
termination by (relation "measure (\<lambda>(ns, _). length ns)") (auto dest: ns_parent_length)

definition count_namespaces :: "qname \<Rightarrow> namespace_matches \<Rightarrow> namespace_matches" where
  "count_namespaces name matches =
     count_parents (qn_namespace name) (hm_entry (qn_namespace name) 0 (\<lambda>n. n + 1) matches)"

definition type_namespaces_of :: "qname list \<Rightarrow> type_namespaces" where
  "type_namespaces_of names =
     fold (\<lambda>name m. hm_entry (qn_name name) [] (count_namespaces name) m) names []"

function best_namespace :: "namespace_matches \<Rightarrow> namespace \<Rightarrow> namespace option \<Rightarrow> namespace option" where
  "best_namespace stats namespace best =
     (case ns_parent namespace of
        None \<Rightarrow> best
      | Some parent \<Rightarrow>
          (case map_of stats parent of
             None \<Rightarrow> best
           | Some cnt \<Rightarrow> if cnt = 1 then best_namespace stats parent (Some parent) else best))"
  by pat_completeness auto
termination by (relation "measure (\<lambda>(_, ns, _). length ns)") (auto dest: ns_parent_length)

declare count_parents.simps [simp del] best_namespace.simps [simp del]

definition prune_namepaces_replacements :: "qname list \<Rightarrow> replacements" where
  "prune_namepaces_replacements names =
     (let type_nss = type_namespaces_of names in
      hm_collect (List.map_filter (\<lambda>orig. do {
          stats \<leftarrow> map_of type_nss (qn_name orig);
          best \<leftarrow> best_namespace stats (qn_namespace orig) None;
          Some (orig, QName best (qn_name orig))
        }) names))"

definition prune_enum_types :: "compiled \<Rightarrow> compiled" where
  "prune_enum_types input =
     (let reps = prune_namepaces_replacements (map fst (co_enum_types input));
          map_prop = property_map_type (replace reps)
      in input
        \<lparr>co_enum_types :=
           hm_collect (map (\<lambda>(name, t). (replace reps name, t\<lparr>en_name := replace reps name\<rparr>)) (co_enum_types input)),
         co_complex_types := map_values (ct_map_properties map_prop) (co_complex_types input),
         co_entity_types := map_values (et_map_properties map_prop) (co_entity_types input),
         co_annotations := annotations_map_type (replace reps) (co_annotations input),
         co_actions := map_types_in_actions (replace reps) (co_actions input)\<rparr>)"

definition prune_type_definitions :: "compiled \<Rightarrow> compiled" where
  "prune_type_definitions input =
     (let reps = prune_namepaces_replacements (map fst (co_type_definitions input));
          map_prop = property_map_type (replace reps)
      in input
        \<lparr>co_type_definitions :=
           hm_collect (map (\<lambda>(name, t). (replace reps name, t\<lparr>td_name := replace reps name\<rparr>))
             (co_type_definitions input)),
         co_complex_types := map_values (ct_map_properties map_prop) (co_complex_types input),
         co_entity_types := map_values (et_map_properties map_prop) (co_entity_types input),
         co_annotations := annotations_map_type (replace reps) (co_annotations input),
         co_actions := map_types_in_actions (replace reps) (co_actions input)\<rparr>)"

definition prune_complex_types :: "compiled \<Rightarrow> compiled" where
  "prune_complex_types input =
     (let reps = prune_namepaces_replacements (map fst (co_complex_types input));
          map_prop = property_map_type (replace reps)
      in input
        \<lparr>co_complex_types :=
           hm_collect (map (\<lambda>(name, ct).
               (replace reps name,
                ct_map_base (replace reps) (ct_map_properties map_prop (ct\<lparr>ct_name := replace reps name\<rparr>))))
             (co_complex_types input)),
         co_entity_types := map_values (et_map_properties map_prop) (co_entity_types input),
         co_annotations := annotations_map_type (replace reps) (co_annotations input),
         co_actions := map_types_in_actions (replace reps) (co_actions input)\<rparr>)"

definition prune_entity_types :: "compiled \<Rightarrow> compiled" where
  "prune_entity_types input =
     (let reps = prune_namepaces_replacements (map fst (co_entity_types input));
          map_nav_prop = nav_property_map_type (replace reps)
      in input
        \<lparr>co_entity_types :=
           hm_collect (map (\<lambda>(name, et).
               (replace reps name,
                et_map_base (replace reps) (et_map_nav_properties map_nav_prop (et\<lparr>et_name := replace reps name\<rparr>))))
             (co_entity_types input)),
         co_excerpt_copies :=
           hm_collect (map (\<lambda>(name, copies). (replace reps name, copies)) (co_excerpt_copies input)),
         co_creatable_entity_types := replace reps ` co_creatable_entity_types input,
         co_complex_types := map_values (ct_map_nav_properties map_nav_prop) (co_complex_types input),
         co_annotations := annotations_map_type (replace reps) (co_annotations input),
         co_actions := map_types_in_actions (replace reps) (co_actions input)\<rparr>)"

definition prune_namespaces :: "compiled \<Rightarrow> compiled" where
  "prune_namespaces input =
     prune_entity_types (prune_complex_types (prune_type_definitions (prune_enum_types input)))"

definition optimize :: "compiled \<Rightarrow> optimizer_config \<Rightarrow> compiled outcome" where
  "optimize input config = do {
     c \<leftarrow> remove_empty_complex_types input config;
     c \<leftarrow> remove_empty_entity_types c config;
     c \<leftarrow> prune_complex_type_inheritance c config;
     c \<leftarrow> prune_entity_type_inheritance c config;
     Some (prune_namespaces c)
   }"

end
