(* ===== verification/Csdl_Hierarchy.thy ===== *)
theory Csdl_Hierarchy
  imports Csdl_Optimizer
begin

text \<open>
  What the passes of the optimizer do to one table of types: the members a type has with those of its ancestors
  (\<open>inherits\<close>), and the lemmas that the three kinds of passes return, keep the hierarchy well-formed and lose no
  member. They are stated for any table, and used for complex and for entity types.
\<close>

section \<open>Members of a type with its ancestors\<close>

inductive inherits ::
  "('t \<Rightarrow> qname option) \<Rightarrow> ('t \<Rightarrow> 'm list) \<Rightarrow> (qname, 't) hash_map \<Rightarrow> qname \<Rightarrow> 'm list \<Rightarrow> bool"
  for base :: "'t \<Rightarrow> qname option" and own :: "'t \<Rightarrow> 'm list" and types :: "(qname, 't) hash_map" where
  root: "inherits base own types q (own t)" if "map_of types q = Some t" "base t = None"
| derived: "inherits base own types q (ms @ own t)"
    if "map_of types q = Some t" "base t = Some b" "inherits base own types b ms"

inductive_cases inherits_cases: "inherits base own types q ms"

lemma inherits_exists:
  assumes "hierarchy_ok base types" "map_of types q = Some t"
  shows "\<exists>ms. inherits base own types q ms"
  using assms
proof (induction q arbitrary: t rule: hierarchy_induct)
  case (type q)
  show ?case
  proof (cases "base t")
    case None
    then show ?thesis using type by (blast intro: inherits.root)
  next
    case (Some b)
    then obtain u where "map_of types b = Some u"
      using assms(1) type.prems by (blast dest: hierarchy_base)
    then show ?thesis using type Some by (meson inherits.derived)
  qed
qed

lemma inherits_unique: "inherits base own types q ms \<Longrightarrow> inherits base own types q ms' \<Longrightarrow> ms = ms'"
proof (induction arbitrary: ms' rule: inherits.induct)
  case (root q t)
  from root.prems root.hyps show ?case by (cases rule: inherits.cases) auto
next
  case (derived q t b ms)
  from derived.prems obtain ms2 where "ms' = ms2 @ own t" "inherits base own types b ms2"
    using derived.hyps by (cases rule: inherits.cases) auto
  then show ?case using derived.IH [of ms2] by simp
qed

text \<open>Lookups in a mapped table.\<close>

lemma map_of_map_values: "hm_wf m \<Longrightarrow> map_of (map_values f m) k = map_option f (map_of m k)"
proof -
  assume "hm_wf m"
  then have "distinct (map fst (map (\<lambda>(k, v). (k, f v)) m))"
    by (simp add: hm_wf_def case_prod_beta' comp_def)
  then show ?thesis by (simp add: map_values_def hm_get_collect_distinct map_of_map)
qed

lemma keys_map_values: "fst ` set (map_values f m) = fst ` set m"
  by (force simp: map_values_def hm_keys_collect image_image case_prod_beta')

lemma hm_wf_map_values [simp]: "hm_wf (map_values f m)"
  by (simp add: map_values_def)

lemma set_map_values: "hm_wf m \<Longrightarrow> set (map_values f m) = (\<lambda>(k, v). (k, f v)) ` set m"
  using set_collect_rename [of m "\<lambda>k. k" "\<lambda>_ v. f v"] by (simp add: map_values_def)

lemma set_collect_filter_map:
  "hm_wf m \<Longrightarrow> set (hm_collect (map (\<lambda>(k, v). (k, f v)) (filter P m))) = (\<lambda>(k, v). (k, f v)) ` {x \<in> set m. P x}"
  using set_map_values [of "filter P m" f] by (simp add: map_values_def)

text \<open>A change of values that keeps bases keeps the hierarchy.\<close>

lemma hierarchy_map_values:
  assumes "hierarchy_ok base m" "\<And>t. base (f t) = base t"
  shows "hierarchy_ok base (map_values f m)"
proof -
  have "base_rel base (map_values f m) = base_rel base m"
    using assms by (auto simp: base_rel_def map_of_map_values)
  then show ?thesis using assms(1) by (auto simp: hierarchy_ok_def map_of_map_values)
qed

lemma inherits_map_values:
  assumes "hm_wf m" "\<And>t. base (f t) = base t" "\<And>t. own (f t) = map g (own t)"
    "inherits base own m q ms"
  shows "inherits base own (map_values f m) q (map g ms)"
  using assms(4)
proof (induction rule: inherits.induct)
  case (root q t)
  then show ?case
    using inherits.root [of "map_values f m" q "f t" base own] assms by (simp add: map_of_map_values)
next
  case (derived q t b ms)
  then show ?case
    using inherits.derived [of "map_values f m" q "f t" base b own "map g ms"] assms
    by (simp add: map_of_map_values)
qed

lemma set_map_filter_iff: "x \<in> set (List.map_filter f xs) \<longleftrightarrow> (\<exists>y \<in> set xs. f y = Some x)"
  by (induction xs) (auto simp: List.map_filter_simps split: option.splits)

lemma those_Some: "(\<And>x. x \<in> set xs \<Longrightarrow> f x = Some (g x)) \<Longrightarrow> those (map f xs) = Some (map g xs)"
  by (induction xs) auto

lemma acyclic_trancl_subset: "acyclic r \<Longrightarrow> s \<subseteq> r\<^sup>+ \<Longrightarrow> acyclic s"
  by (rule acyclic_subset [of "r\<^sup>+"]) (simp_all add: acyclic_def)

section \<open>Removing empty types\<close>

lemma find_non_empty_parent_step:
  "map_of types q = Some t \<Longrightarrow> is_empty t \<Longrightarrow> base t = Some b \<Longrightarrow>
     find_non_empty_parent is_empty base types q = find_non_empty_parent is_empty base types b"
  by (subst find_non_empty_parent.simps) simp

lemma find_non_empty_parent_returns:
  assumes "hierarchy_ok base types"
  shows "\<exists>r. find_non_empty_parent is_empty base types q = Some r"
  using assms
proof (induction q rule: hierarchy_induct)
  case (type q)
  then show ?case
    by (subst find_non_empty_parent.simps) (auto split: option.splits)
qed

lemma find_non_empty_parent_Some:
  assumes "hierarchy_ok base types" "find_non_empty_parent is_empty base types q = Some (Some p)"
  shows "(q, p) \<in> (base_rel base types)\<^sup>* \<and> (\<exists>u. map_of types p = Some u \<and> \<not> is_empty u)"
  using assms
proof (induction q rule: hierarchy_induct)
  case (type q)
  from type.prems show ?case
  proof (subst (asm) find_non_empty_parent.simps, auto split: option.splits if_splits)
    fix t b
    assume t: "map_of types q = Some t" "base t = Some b"
      and "find_non_empty_parent is_empty base types b = Some (Some p)"
    then have "(b, p) \<in> (base_rel base types)\<^sup>* \<and> (\<exists>u. map_of types p = Some u \<and> \<not> is_empty u)"
      by (rule type.IH)
    then show "(q, p) \<in> (base_rel base types)\<^sup>*" "\<exists>u. map_of types p = Some u \<and> \<not> is_empty u"
      using t by (auto intro: converse_rtrancl_into_rtrancl base_relI)
  qed
qed

text \<open>The replacements a pass collects: its candidates without members, to their closest ancestor that has some.\<close>

definition empty_replacements ::
  "('t \<Rightarrow> bool) \<Rightarrow> ('t \<Rightarrow> bool) \<Rightarrow> ('t \<Rightarrow> qname option) \<Rightarrow> (qname, 't) hash_map \<Rightarrow> replacements \<Rightarrow> bool" where
  "empty_replacements candidate is_empty base types reps =
     (hm_wf reps \<and>
      (\<forall>q p. map_of reps q = Some p \<longleftrightarrow>
         (\<exists>t. map_of types q = Some t \<and> candidate t \<and> is_empty t \<and>
              find_non_empty_parent is_empty base types q = Some (Some p))))"

lemma collect_replacements_eq:
  assumes ok: "hierarchy_ok base types" and named: "\<And>q t. (q, t) \<in> set types \<Longrightarrow> name t = q"
  shows "\<exists>reps. collect_replacements candidate is_empty base name types = Some reps \<and>
           empty_replacements candidate is_empty base types reps"
proof -
  let ?find = "find_non_empty_parent is_empty base types"
  define pick where "pick v = (if candidate v \<and> is_empty v
      then map_option (Pair (name v)) (the (?find (name v))) else None)" for v
  have find: "?find q = Some (the (?find q))" for q
    using find_non_empty_parent_returns [OF ok, of is_empty q] by auto
  have "those (map (\<lambda>v. if candidate v \<and> is_empty v
        then map_option (map_option (Pair (name v))) (?find (name v)) else Some None) (map snd types)) =
      Some (map pick (map snd types))"
    by (rule those_Some) (subst find, simp add: pick_def)
  then have eq: "collect_replacements candidate is_empty base name types =
      Some (hm_collect (List.map_filter pick (map snd types)))" (is "_ = Some ?reps")
    by (simp add: collect_replacements_def List.map_filter_def filter_map comp_def)
  have wf: "distinct (map fst (List.map_filter pick (map snd types)))"
  proof -
    have "map fst (List.map_filter pick (map snd types)) = map fst (filter (\<lambda>(q, t). pick t \<noteq> None) types)"
      if "\<forall>(q, t) \<in> set types. name t = q" for types
      using that by (induction types) (auto simp: pick_def List.map_filter_simps split: option.splits)
    then show ?thesis
      using named hm_wf_filter [OF hierarchy_wf [OF ok]] by (fastforce simp: hm_wf_def)
  qed
  have "map_of ?reps q = Some p \<longleftrightarrow>
      (\<exists>t. map_of types q = Some t \<and> candidate t \<and> is_empty t \<and> ?find q = Some (Some p))" for q p
  proof -
    have "map_of ?reps q = Some p \<longleftrightarrow> (q, p) \<in> set (List.map_filter pick (map snd types))"
      using wf by (simp add: hm_get_collect_distinct)
    also have "\<dots> \<longleftrightarrow> (\<exists>t. (q, t) \<in> set types \<and> pick t = Some (q, p))"
    proof -
      have same: "q' = q" if "(q', t) \<in> set types" "pick t = Some (q, p)" for q' t
        using named [OF that(1)] that(2) by (auto simp: pick_def split: if_splits)
      have "(q, p) \<in> set (List.map_filter pick (map snd types)) \<longleftrightarrow>
          (\<exists>q' t. (q', t) \<in> set types \<and> pick t = Some (q, p))"
        by (force simp: set_map_filter_iff)
      then show ?thesis using same by metis
    qed
    also have "\<dots> \<longleftrightarrow> (\<exists>t. map_of types q = Some t \<and> candidate t \<and> is_empty t \<and> ?find q = Some (Some p))"
    proof -
      obtain r where r: "?find q = Some r" using find_non_empty_parent_returns [OF ok] by blast
      have "pick t = Some (q, p) \<longleftrightarrow> candidate t \<and> is_empty t \<and> ?find q = Some (Some p)"
        if "(q, t) \<in> set types" for t
        using named [OF that] by (auto simp: pick_def r)
      then show ?thesis by (auto simp: hm_wf_get [OF hierarchy_wf [OF ok]])
    qed
    finally show ?thesis .
  qed
  then show ?thesis using eq by (auto simp: empty_replacements_def)
qed

lemma empty_replacements_facts:
  assumes ok: "hierarchy_ok base types" and reps: "empty_replacements candidate is_empty base types reps"
    and q: "map_of reps q = Some p"
  shows "(q, p) \<in> (base_rel base types)\<^sup>+" "\<exists>u. map_of types p = Some u" "map_of reps p = None"
    "\<exists>t. map_of types q = Some t"
proof -
  obtain t where t: "map_of types q = Some t" "is_empty t"
    and find: "find_non_empty_parent is_empty base types q = Some (Some p)"
    using reps q by (auto simp: empty_replacements_def)
  from find_non_empty_parent_Some [OF ok find] obtain u
    where path: "(q, p) \<in> (base_rel base types)\<^sup>*" and u: "map_of types p = Some u" "\<not> is_empty u" by auto
  then show "(q, p) \<in> (base_rel base types)\<^sup>+" using t by (auto simp: rtrancl_eq_or_trancl)
  show "\<exists>u. map_of types p = Some u" "\<exists>t. map_of types q = Some t" using u t by auto
  have "map_of reps p \<noteq> Some p'" for p' using reps u by (auto simp: empty_replacements_def)
  then show "map_of reps p = None" by auto
qed

text \<open>The table without the replaced types, with bases replaced.\<close>

lemma map_of_removed:
  assumes "hm_wf types"
  shows "map_of (hm_collect (map (\<lambda>(name, v). (name, f v)) (filter (\<lambda>(name, v). \<not> hm_contains_key reps name) types))) q =
           (if map_of reps q = None then map_option f (map_of types q) else None)"
proof -
  let ?m = "filter (\<lambda>(name, v). \<not> hm_contains_key reps name) types"
  have "map_of ?m q = (if map_of reps q = None then map_of types q else None)"
    by (induction types) (auto simp: hm_contains_key_def)
  moreover have "map_of (map_values f ?m) q = map_option f (map_of ?m q)"
    using assms by (simp add: map_of_map_values)
  ultimately show ?thesis by (simp add: map_values_def)
qed

lemma hierarchy_removed:
  assumes ok: "hierarchy_ok base types" and reps: "empty_replacements candidate is_empty base types reps"
    and f: "\<And>t. base (f t) = map_option (replace reps) (base t)"
  defines "types' \<equiv> hm_collect (map (\<lambda>(name, v). (name, f v)) (filter (\<lambda>(name, v). \<not> hm_contains_key reps name) types))"
  shows "hierarchy_ok base types'" "map_of types q \<noteq> None \<Longrightarrow> map_of types' (replace reps q) \<noteq> None"
proof -
  let ?R = "base_rel base types"
  note facts = empty_replacements_facts [OF ok reps]
  note get = map_of_removed [OF hierarchy_wf [OF ok], of f reps, folded types'_def]
  show keys: "map_of types q \<noteq> None \<Longrightarrow> map_of types' (replace reps q) \<noteq> None" for q
    using facts(2,3) by (cases "map_of reps q") (auto simp: get replace_def)
  have "base_rel base types' \<subseteq> ?R\<^sup>+"
  proof clarify
    fix q b assume "(q, b) \<in> base_rel base types'"
    then obtain t b' where t: "map_of types q = Some t" "base t = Some b'" "b = replace reps b'"
      by (auto simp: base_rel_def get f split: if_splits)
    then have "(q, b') \<in> ?R" by (auto intro: base_relI)
    then show "(q, b) \<in> ?R\<^sup>+"
      using facts(1) [of b'] t(3) by (cases "map_of reps b'") (auto simp: replace_def intro: trancl_into_trancl2)
  qed
  then have "acyclic (base_rel base types')"
    using ok acyclic_trancl_subset [of "?R"] by (simp add: hierarchy_ok_def)
  moreover have "map_of types' b \<noteq> None" if base: "(q, b) \<in> base_rel base types'" for q b
  proof -
    from base obtain t b' where "map_of types q = Some t" "base t = Some b'" and b: "b = replace reps b'"
      by (auto simp: base_rel_def get f split: if_splits)
    then have "map_of types b' \<noteq> None" using hierarchy_base [OF ok] by auto
    then show ?thesis unfolding b by (rule keys)
  qed
  ultimately show "hierarchy_ok base types'" by (auto simp: hierarchy_ok_def types'_def)
qed

lemma inherits_removed:
  assumes ok: "hierarchy_ok base types" and reps: "empty_replacements candidate is_empty base types reps"
    and f: "\<And>t. base (f t) = map_option (replace reps) (base t)"
    and g: "\<And>t. own (f t) = map g (own t)" and empty: "\<And>t. is_empty t \<Longrightarrow> own t = []"
    and "inherits base own types q ms"
  defines "types' \<equiv> hm_collect (map (\<lambda>(name, v). (name, f v)) (filter (\<lambda>(name, v). \<not> hm_contains_key reps name) types))"
  shows "inherits base own types' (replace reps q) (map g ms)"
proof -
  note get = map_of_removed [OF hierarchy_wf [OF ok], of f reps, folded types'_def]
  let ?find = "find_non_empty_parent is_empty base types"
  have rep: "map_of reps q = Some p \<Longrightarrow> ?find q = Some (Some p)" for q p
    using reps by (auto simp: empty_replacements_def)
  have full: "map_of types q = Some t \<Longrightarrow> \<not> is_empty t \<Longrightarrow> map_of reps q = None" for q t
    using reps by (cases "map_of reps q") (auto simp: empty_replacements_def)
  have "inherits base own types' (replace reps q) (map g ms) \<and>
      (\<forall>p. ?find q = Some (Some p) \<longrightarrow> inherits base own types' p (map g ms))"
    using assms(6)
  proof (induction rule: inherits.induct)
    case (root q t)
    have here: "map_of reps q = None"
      using rep [of q] root.hyps full by (cases "is_empty t"; cases "map_of reps q")
        (auto simp: find_non_empty_parent.simps [of is_empty base types q])
    then have "inherits base own types' q (map g (own t))"
      using inherits.root [of types' q "f t" base own] root.hyps by (simp add: get f g)
    moreover have "?find q = Some (Some p) \<Longrightarrow> p = q" for p
      using root.hyps by (auto simp: find_non_empty_parent.simps [of is_empty base types q] split: if_splits)
    ultimately show ?case using here by (auto simp: replace_def)
  next
    case (derived q t b ms)
    have kept: "inherits base own types' q (map g (ms @ own t))" if "map_of reps q = None"
      using inherits.derived [of types' q "f t" base "replace reps b" own "map g ms"] derived that
      by (simp add: get f g)
    have found: "inherits base own types' p (map g (ms @ own t))" if "?find q = Some (Some p)" for p
    proof (cases "is_empty t")
      case True
      then have "?find b = Some (Some p)"
        using that derived.hyps find_non_empty_parent_step [of types q t is_empty base b] by simp
      then show ?thesis using derived.IH True by (simp add: empty)
    next
      case False
      then have "p = q" using that derived.hyps
        by (auto simp: find_non_empty_parent.simps [of is_empty base types q])
      then show ?thesis using kept full [OF derived.hyps(1) False] by simp
    qed
    show ?case
      using kept found rep [of q] by (cases "map_of reps q") (auto simp: replace_def)
  qed
  then show ?thesis by simp
qed

end
