(* ===== verification/Csdl_Fold.thy ===== *)
theory Csdl_Fold
  imports Csdl_Hierarchy
begin

text \<open>
  Folding parents with one child, for any table of types: which parents are folded and into what, that the
  retained types take each removed parent exactly once, and that no member is lost.
\<close>

section \<open>Parents with one child\<close>

lemma child_counts_fold:
  fixes types :: "(qname, 't) hash_map"
  shows "map_of (fold (\<lambda>(_, t) v. case base t of None \<Rightarrow> v
             | Some b \<Rightarrow> hm_entry b (name t, 0) (\<lambda>(child, cnt). (child, cnt + 1)) v) types m) b =
     (let cs = map (name \<circ> snd) (filter (\<lambda>(_, t). base t = Some b) types) in
      case map_of m b of
        None \<Rightarrow> if cs = [] then None else Some (hd cs, length cs)
      | Some (child, cnt) \<Rightarrow> Some (child, cnt + length cs))"
proof (induction types arbitrary: m)
  case (Cons x types)
  show ?case
    by (cases x; cases "base (snd x)"; cases "map_of m b")
      (auto simp: Cons.IH hm_get_entry Let_def split: option.splits)
qed (simp split: option.splits)

lemma child_counts_get:
  "map_of (child_counts base name types) b =
     (let cs = map (name \<circ> snd) (filter (\<lambda>(_, t). base t = Some b) types) in
      if cs = [] then None else Some (hd cs, length cs))"
  by (simp add: child_counts_def child_counts_fold)

lemma child_counts_wf: "hm_wf (child_counts base name types)"
  unfolding child_counts_def by (rule hm_wf_fold) (auto split: option.splits prod.splits)

definition single_children ::
  "('t \<Rightarrow> qname option) \<Rightarrow> (qname, 't) hash_map \<Rightarrow> replacements \<Rightarrow> bool" where
  "single_children base types scp =
     (hm_wf scp \<and> (\<forall>p c. map_of scp p = Some c \<longrightarrow> (\<forall>q. (q, p) \<in> base_rel base types \<longleftrightarrow> q = c)))"

lemma single_child_parents_ok:
  assumes wf: "hm_wf types" and named: "\<And>q t. (q, t) \<in> set types \<Longrightarrow> name t = q"
  shows "single_children base types (single_child_parents prunable (child_counts base name types))"
    and "map_of (single_child_parents prunable (child_counts base name types)) p = Some c \<Longrightarrow> prunable p"
proof -
  let ?counts = "child_counts base name types"
  let ?pick = "\<lambda>(parent, child, cnt). if prunable parent \<and> cnt = (1::nat) then Some (parent, child) else None"
  have "map fst (List.map_filter ?pick m) = map fst (filter (\<lambda>x. ?pick x \<noteq> None) m)"
    for m :: "(qname, qname \<times> nat) hash_map"
    by (induction m) (auto simp: List.map_filter_simps split: if_splits)
  then have "distinct (map fst (List.map_filter ?pick ?counts))"
    using hm_wf_filter [OF child_counts_wf] by (simp add: hm_wf_def)
  then have get: "map_of (single_child_parents prunable ?counts) p = Some c \<longleftrightarrow>
      prunable p \<and> map_of ?counts p = Some (c, 1)" for p c
    unfolding single_child_parents_def
    by (force simp: hm_get_collect_distinct set_map_filter_iff hm_wf_get [OF child_counts_wf] split: if_splits)
  show "map_of (single_child_parents prunable ?counts) p = Some c \<Longrightarrow> prunable p" by (simp add: get)
  have "(q, p) \<in> base_rel base types \<longleftrightarrow> q = c" if "map_of ?counts p = Some (c, 1)" for p c q
  proof -
    let ?cs = "filter (\<lambda>(_, t). base t = Some p) types"
    from that have "map (name \<circ> snd) ?cs = [c]"
      by (auto simp: child_counts_get Let_def length_Suc_conv split: if_splits)
    then obtain x where x: "?cs = [x]" "name (snd x) = c" by auto
    have "(q, p) \<in> base_rel base types \<longleftrightarrow> (\<exists>t. (q, t) \<in> set ?cs)"
      by (auto simp: base_rel_def hm_wf_get [OF wf])
    also have "\<dots> \<longleftrightarrow> q = c"
    proof -
      have "x \<in> set types" using x(1) by (metis filter_is_subset in_set_conv_decomp subset_code(1) append_Nil)
      then have "fst x = c" using named x(2) by (metis prod.collapse)
      then show ?thesis using x(1) by (cases x) auto
    qed
    finally show ?thesis .
  qed
  then show "single_children base types (single_child_parents prunable ?counts)"
    by (simp add: single_children_def get) (simp add: single_child_parents_def)
qed

lemma wf_base_rel_down: "hierarchy_ok base types \<Longrightarrow> wf (base_rel base types)"
  by (auto simp: hierarchy_ok_def intro: finite_acyclic_wf finite_base_rel)

lemma most_specific_child_returns:
  assumes ok: "hierarchy_ok base types" and scp: "single_children base types scp"
  shows "\<exists>d. most_specific_child scp c = Some d \<and> (d, c) \<in> (base_rel base types)\<^sup>* \<and> map_of scp d = None"
  using wf_base_rel_down [OF ok]
proof (induction c rule: wf_induct_rule)
  case (less c)
  show ?case
  proof (cases "map_of scp c")
    case None
    then show ?thesis by (subst most_specific_child.simps) simp
  next
    case (Some n)
    then have "(n, c) \<in> base_rel base types" using scp by (auto simp: single_children_def)
    then show ?thesis
      using less.IH [of n] Some by (subst most_specific_child.simps) (auto intro: rtrancl_into_rtrancl)
  qed
qed

text \<open>What the replacements of a folding pass are.\<close>

definition fold_replacements ::
  "('t \<Rightarrow> qname option) \<Rightarrow> (qname, 't) hash_map \<Rightarrow> replacements \<Rightarrow> bool" where
  "fold_replacements base types reps =
     (hm_wf reps \<and>
      (\<forall>p d. map_of reps p = Some d \<longrightarrow>
         (d, p) \<in> (base_rel base types)\<^sup>+ \<and> map_of reps d = None \<and>
         (\<exists>c. \<forall>q. (q, p) \<in> base_rel base types \<longleftrightarrow> q = c)))"

lemma child_replacements_ok:
  assumes ok: "hierarchy_ok base types" and scp: "single_children base types scp"
  shows "\<exists>reps. child_replacements scp = Some reps \<and> fold_replacements base types reps \<and>
           (\<forall>p. map_of reps p = None \<longleftrightarrow> map_of scp p = None)"
proof -
  define ms where "ms c = the (most_specific_child scp c)" for c
  have ms: "most_specific_child scp c = Some (ms c)" "(ms c, c) \<in> (base_rel base types)\<^sup>*" "map_of scp (ms c) = None"
    for c using most_specific_child_returns [OF ok scp, of c] by (auto simp: ms_def)
  let ?reps = "map_values ms scp"
  have "those (map (\<lambda>(p, c). map_option (Pair p) (most_specific_child scp c)) scp) = Some (map (\<lambda>(p, c). (p, ms c)) scp)"
    by (rule those_Some) (auto simp: ms(1))
  then have eq: "child_replacements scp = Some ?reps"
    by (simp add: child_replacements_def map_values_def)
  have wf: "hm_wf scp" using scp by (simp add: single_children_def)
  have get: "map_of ?reps p = map_option ms (map_of scp p)" for p by (rule map_of_map_values [OF wf])
  have "(d, p) \<in> (base_rel base types)\<^sup>+ \<and> map_of ?reps d = None \<and>
      (\<exists>c. \<forall>q. (q, p) \<in> base_rel base types \<longleftrightarrow> q = c)" if p: "map_of ?reps p = Some d" for p d
  proof -
    obtain c where c: "map_of scp p = Some c" "d = ms c" using p by (auto simp: get)
    then have child: "\<forall>q. (q, p) \<in> base_rel base types \<longleftrightarrow> q = c" using scp by (auto simp: single_children_def)
    then show ?thesis using ms c by (auto simp: get intro: rtrancl_into_trancl1)
  qed
  then show ?thesis using eq by (auto simp: fold_replacements_def get)
qed

section \<open>The removed parents of a retained type\<close>

text \<open>\<open>x\<close> is above \<open>q\<close> through removed types only.\<close>

inductive hangs :: "(qname \<times> qname) set \<Rightarrow> replacements \<Rightarrow> qname \<Rightarrow> qname \<Rightarrow> bool"
  for R :: "(qname \<times> qname) set" and reps :: replacements where
  parent: "hangs R reps q x" if "(q, x) \<in> R" "map_of reps x \<noteq> None"
| above: "hangs R reps q x" if "hangs R reps q y" "(y, x) \<in> R" "map_of reps x \<noteq> None"

lemma hangs_removed: "hangs R reps q x \<Longrightarrow> map_of reps x \<noteq> None"
  by (cases rule: hangs.cases) auto

lemma hangs_path: "hangs R reps q x \<Longrightarrow> (q, x) \<in> R\<^sup>+"
  by (induction rule: hangs.induct) auto

text \<open>A removed type has one child, so it is above one retained type only.\<close>

lemma hangs_unique:
  assumes "fold_replacements base types reps" "hangs (base_rel base types) reps q x"
    "hangs (base_rel base types) reps q' x" "map_of reps q = None" "map_of reps q' = None"
  shows "q = q'"
  using assms(2-)
proof (induction rule: hangs.induct)
  case (parent q x)
  from parent.hyps have one: "(z, x) \<in> base_rel base types \<Longrightarrow> z = q" for z
    using assms(1) unfolding fold_replacements_def by (metis not_None_eq)
  from parent.prems(1) show ?case
    by (cases rule: hangs.cases) (use one parent.prems hangs_removed in blast)+
next
  case (above q y x)
  from above.hyps have one: "(z, x) \<in> base_rel base types \<Longrightarrow> z = y" for z
    using assms(1) unfolding fold_replacements_def by (metis not_None_eq)
  from above.prems(1) show ?case
    by (cases rule: hangs.cases) (use one above hangs_removed in blast)+
qed

text \<open>The removed types met when bases are followed from \<open>b\<close>, up to \<open>b'\<close>.\<close>

inductive climbs ::
  "('t \<Rightarrow> qname option) \<Rightarrow> (qname, 't) hash_map \<Rightarrow> qname option \<Rightarrow> (qname \<times> 't) list \<Rightarrow> qname option \<Rightarrow> bool"
  for base :: "'t \<Rightarrow> qname option" and types :: "(qname, 't) hash_map" where
  stop: "climbs base types b [] b"
| climb: "climbs base types (Some x) ((x, t) # xs) b'"
    if "map_of types x = Some t" "climbs base types (base t) xs b'"

lemma absorb_parents_climbs:
  assumes "map_of remove \<subseteq>\<^sub>m map_of types"
    "absorb_parents base odata_of props_of merge remove b od ps = (remove', b', od', ps')"
  shows "\<exists>xs. climbs base types b xs b' \<and> fst ` set xs \<subseteq> dom (map_of remove) \<and>
           map_of remove' = map_of remove |` (- fst ` set xs) \<and>
           ps' = ps @ map (props_of \<circ> snd) xs \<and> (\<forall>x. b' = Some x \<longrightarrow> map_of remove' x = None)"
  using assms
proof (induction base odata_of props_of merge remove b od ps rule: absorb_parents.induct)
  case (1 base odata_of props_of merge remove od ps)
  then show ?case by (auto intro!: exI [of _ "[]"] climbs.stop simp: restrict_map_def)
next
  case (2 base odata_of props_of merge remove x od ps)
  show ?case
  proof (cases "map_of remove x")
    case None
    then show ?thesis using "2.prems" by (auto intro!: exI [of _ "[]"] climbs.stop simp: restrict_map_def)
  next
    case (Some t)
    have sub: "map_of (hm_remove x remove) \<subseteq>\<^sub>m map_of types"
      using "2.prems"(1) by (auto simp: hm_simps map_le_def)
    from "2.IH" [OF Some sub] "2.prems"(2) Some obtain xs
      where xs: "climbs base types (base t) xs b'" "fst ` set xs \<subseteq> dom (map_of (hm_remove x remove))"
        "map_of remove' = map_of (hm_remove x remove) |` (- fst ` set xs)"
        "ps' = (ps @ [props_of t]) @ map (props_of \<circ> snd) xs" "\<forall>x. b' = Some x \<longrightarrow> map_of remove' x = None"
      by auto
    have "map_of types x = Some t" using Some "2.prems"(1) by (metis domI map_le_def)
    then have "climbs base types (Some x) ((x, t) # xs) b'" using xs(1) by (rule climbs.climb)
    moreover have "map_of remove' = map_of remove |` (- fst ` set ((x, t) # xs))"
      using xs(3) by (auto simp: hm_simps restrict_map_def fun_eq_iff)
    ultimately show ?thesis using xs Some
      by (intro exI [of _ "(x, t) # xs"]) (auto simp: hm_simps)
  qed
qed

lemma climbs_hangs:
  assumes "climbs base types (base t) xs b'" "map_of types q = Some t" "\<forall>(x, u) \<in> set xs. map_of reps x \<noteq> None"
  shows "(\<forall>(x, u) \<in> set xs. hangs (base_rel base types) reps q x) \<and>
         (\<forall>x. b' = Some x \<longrightarrow> (q, x) \<in> (base_rel base types)\<^sup>+ \<and>
            (map_of reps x \<noteq> None \<longrightarrow> hangs (base_rel base types) reps q x))"
proof -
  let ?R = "base_rel base types"
  have "(\<forall>(x, u) \<in> set xs. hangs ?R reps q x) \<and>
      (\<forall>x. b' = Some x \<longrightarrow> (q, x) \<in> ?R\<^sup>+ \<and> (map_of reps x \<noteq> None \<longrightarrow> hangs ?R reps q x))"
    if "climbs base types b xs b'" "\<forall>(x, u) \<in> set xs. map_of reps x \<noteq> None"
      "\<forall>x. b = Some x \<longrightarrow> (q, x) \<in> ?R\<^sup>+ \<and> (map_of reps x \<noteq> None \<longrightarrow> hangs ?R reps q x)" for b
    using that
  proof (induction rule: climbs.induct)
    case (climb x t xs b')
    have hang: "hangs ?R reps q x" and path: "(q, x) \<in> ?R\<^sup>+" using climb.prems by auto
    have "(q, y) \<in> ?R\<^sup>+ \<and> (map_of reps y \<noteq> None \<longrightarrow> hangs ?R reps q y)" if "base t = Some y" for y
    proof -
      have "(x, y) \<in> ?R" using base_relI [of types x t base y] climb.hyps(1) that by simp
      then show ?thesis using hang path by (auto intro: hangs.above trancl_into_trancl)
    qed
    then show ?case using climb.IH climb.prems(1) hang by auto
  qed simp
  moreover have "(q, x) \<in> ?R\<^sup>+ \<and> (map_of reps x \<noteq> None \<longrightarrow> hangs ?R reps q x)" if "base t = Some x" for x
    using base_relI [of types q t base x] assms(2) that by (auto intro: hangs.parent)
  ultimately show ?thesis using assms(1,3) by blast
qed

text \<open>The first type reached is not one of those passed.\<close>

lemma climbs_path:
  "climbs base types b xs (Some x) \<Longrightarrow> (y, u) \<in> set xs \<Longrightarrow> (y, x) \<in> (base_rel base types)\<^sup>+"
proof (induction b xs "Some x" arbitrary: y u rule: climbs.induct)
  case (climb z t xs)
  have last: "(z, x) \<in> (base_rel base types)\<^sup>+"
  proof (cases xs)
    case Nil
    then have "base t = Some x" using climb.hyps(2) by (auto elim: climbs.cases)
    then show ?thesis using base_relI [of types z t base x] climb.hyps(1) by auto
  next
    case (Cons v vs)
    then have "base t = Some (fst v)" using climb.hyps(2) by (auto elim: climbs.cases)
    then show ?thesis
      using climb base_relI [of types z t base "fst v"] Cons
      by (cases v) (auto intro: trancl_into_trancl2)
  qed
  then show ?case using climb by auto
qed simp

lemma climbs_inherits:
  assumes "climbs base types b xs b'" "b = Some q" "inherits base own types q ms"
  shows "\<exists>ms'. (b' = None \<and> ms' = [] \<or> (\<exists>x. b' = Some x \<and> inherits base own types x ms')) \<and>
           ms = ms' @ concat (rev (map (own \<circ> snd) xs))"
  using assms
proof (induction arbitrary: q ms rule: climbs.induct)
  case (stop b)
  then show ?case by auto
next
  case (climb x t xs b')
  from climb.prems(2) show ?case
  proof (cases rule: inherits.cases)
    case (root u)
    then have "xs = [] \<and> b' = None" using climb.hyps climb.prems(1) by (auto elim: climbs.cases)
    then show ?thesis using root climb by auto
  next
    case (derived u b ns)
    then have "base t = Some b" "ms = ns @ own t" using climb by auto
    with climb.IH [of b ns] derived obtain ms' where
      "b' = None \<and> ms' = [] \<or> (\<exists>x. b' = Some x \<and> inherits base own types x ms')"
      "ns = ms' @ concat (rev (map (own \<circ> snd) xs))" by (auto simp: comp_def)
    then show ?thesis using \<open>ms = ns @ own t\<close> by (auto simp: comp_def)
  qed
qed

section \<open>The folded table\<close>

text \<open>The type \<open>v'\<close> is \<open>v\<close> with the removed types above it folded in.\<close>

definition folded ::
  "('t \<Rightarrow> qname option) \<Rightarrow> ('t \<Rightarrow> properties) \<Rightarrow> (qname option \<Rightarrow> properties \<Rightarrow> odata \<Rightarrow> 't \<Rightarrow> 't) \<Rightarrow>
     (qname, 't) hash_map \<Rightarrow> replacements \<Rightarrow> 't \<Rightarrow> 't \<Rightarrow> bool" where
  "folded base props_of upd types reps v v' =
     (\<exists>xs b' od. climbs base types (base v) xs b' \<and>
        v' = upd b' (rev_join (props_of v # map (props_of \<circ> snd) xs)) od v \<and>
        (\<forall>x. b' = Some x \<longrightarrow> map_of reps x = None))"

lemma absorb_types_folded:
  assumes ok: "hierarchy_ok base types" and reps: "fold_replacements base types reps"
  shows "map_of remove \<subseteq>\<^sub>m map_of types \<Longrightarrow> distinct (map fst retain) \<Longrightarrow>
    \<forall>(q, v) \<in> set retain. map_of types q = Some v \<and> map_of reps q = None \<and> q \<notin> Q \<Longrightarrow>
    dom (map_of remove) = {x \<in> dom (map_of types). map_of reps x \<noteq> None} - K \<Longrightarrow>
    \<forall>x \<in> K. \<exists>q0 \<in> Q. map_of reps q0 = None \<and> hangs (base_rel base types) reps q0 x \<Longrightarrow>
    list_all2 (\<lambda>(q, v) (q', v'). q' = q \<and> folded base props_of upd types reps v v') retain
      (absorb_types base odata_of props_of merge upd remove retain)"
proof (induction retain arbitrary: remove Q K)
  case (Cons qv retain)
  obtain q v where qv: "qv = (q, v)" by (cases qv)
  let ?R = "base_rel base types"
  obtain remove' b' od' ps' where ab: "absorb_parents base odata_of props_of merge remove (base v) (odata_of v)
      [props_of v] = (remove', b', od', ps')" by (metis prod_cases4)
  from absorb_parents_climbs [OF Cons.prems(1) ab] obtain xs where
    xs: "climbs base types (base v) xs b'" "fst ` set xs \<subseteq> dom (map_of remove)"
      "map_of remove' = map_of remove |` (- fst ` set xs)" "ps' = [props_of v] @ map (props_of \<circ> snd) xs"
      "\<forall>x. b' = Some x \<longrightarrow> map_of remove' x = None" by auto
  have q: "map_of types q = Some v" "map_of reps q = None" "q \<notin> Q" using Cons.prems(3) by (auto simp: qv)
  have "\<forall>(x, u) \<in> set xs. map_of reps x \<noteq> None" using xs(2) Cons.prems(4) by force
  note hang = climbs_hangs [OF xs(1) q(1) this]
  have base: "map_of reps x = None" if b: "b' = Some x" for x
  proof (rule ccontr)
    assume removed: "map_of reps x \<noteq> None"
    then have hx: "hangs ?R reps q x" and path: "(q, x) \<in> ?R\<^sup>+" using hang b by auto
    have "x \<in> dom (map_of types)"
      using path ok by (cases rule: trancl.cases) (auto simp: hierarchy_ok_def)
    then have "x \<in> K \<or> x \<in> fst ` set xs"
      using xs(3,5) b removed Cons.prems(4) by (auto simp: restrict_map_def split: if_splits)
    then show False
    proof
      assume "x \<in> K"
      then obtain q0 where "q0 \<in> Q" "map_of reps q0 = None" "hangs ?R reps q0 x" using Cons.prems(5) by auto
      then show False using hangs_unique [OF reps _ hx] q by auto
    next
      assume "x \<in> fst ` set xs"
      then have "(x, x) \<in> ?R\<^sup>+" using climbs_path [OF xs(1) [unfolded b]] by auto
      then show False using ok by (auto simp: hierarchy_ok_def acyclic_def)
    qed
  qed
  have rest: "list_all2 (\<lambda>(q, v) (q', v'). q' = q \<and> folded base props_of upd types reps v v') retain
      (absorb_types base odata_of props_of merge upd remove' retain)"
  proof (rule Cons.IH [of _ "insert q Q" "K \<union> fst ` set xs"])
    show "map_of remove' \<subseteq>\<^sub>m map_of types" unfolding xs(3) using Cons.prems(1) by (auto simp: map_le_def)
    show "\<forall>(p, v) \<in> set retain. map_of types p = Some v \<and> map_of reps p = None \<and> p \<notin> insert q Q"
      using Cons.prems(2,3) by (force simp: qv)
    show "dom (map_of remove') = {x \<in> dom (map_of types). map_of reps x \<noteq> None} - (K \<union> fst ` set xs)"
      unfolding xs(3) using Cons.prems(4) by auto
    show "\<forall>x \<in> K \<union> fst ` set xs. \<exists>q0 \<in> insert q Q. map_of reps q0 = None \<and> hangs ?R reps q0 x"
      using Cons.prems(5) hang q(2) by fastforce
  qed (use Cons.prems(2) in \<open>simp add: qv\<close>)
  have "folded base props_of upd types reps v (upd b' (rev_join ps') od' v)"
    unfolding folded_def using xs(1,4) base by auto
  then show ?case using rest by (simp add: qv ab)
qed simp

lemma base_rel_plus_induct [consumes 1, case_names type]:
  assumes "hierarchy_ok base types" "\<And>q. (\<And>p. (q, p) \<in> (base_rel base types)\<^sup>+ \<Longrightarrow> P p) \<Longrightarrow> P q"
  shows "P q"
  using wf_trancl [OF wf_base_rel [OF assms(1)]]
  by (induction q rule: wf_induct_rule) (auto intro: assms(2) simp: trancl_converse)

text \<open>
  The table of a folding pass: the retained types of \<open>types\<close>, each folded and then changed by \<open>f\<close>, which
  leaves bases alone.
\<close>

definition folded_table ::
  "('t \<Rightarrow> qname option) \<Rightarrow> ('t \<Rightarrow> properties) \<Rightarrow> (qname option \<Rightarrow> properties \<Rightarrow> odata \<Rightarrow> 't \<Rightarrow> 't) \<Rightarrow>
     (qname, 't) hash_map \<Rightarrow> replacements \<Rightarrow> (qname, 't) hash_map \<Rightarrow> bool" where
  "folded_table base props_of upd types reps types' =
     (hm_wf types' \<and>
      (\<forall>q. case map_of types' q of
             None \<Rightarrow> map_of types q = None \<or> map_of reps q \<noteq> None
           | Some v' \<Rightarrow> map_of reps q = None \<and>
               (\<exists>v. map_of types q = Some v \<and> folded base props_of upd types reps v v')))"

lemma absorb_types_table:
  fixes types :: "(qname, 't) hash_map"
  assumes ok: "hierarchy_ok base types" and reps: "fold_replacements base types reps"
  defines "remove \<equiv> filter (\<lambda>(name, _). hm_contains_key reps name) types"
    and "retain \<equiv> filter (\<lambda>(name, _). \<not> hm_contains_key reps name) types"
  shows "folded_table base props_of upd types reps (absorb_types base odata_of props_of merge upd remove retain)"
proof -
  let ?new = "absorb_types base odata_of props_of merge upd remove retain"
  have wf: "hm_wf types" using ok by simp
  have remove: "map_of remove q = (if map_of reps q \<noteq> None then map_of types q else None)" for q
    unfolding remove_def by (induction types) (auto simp: hm_contains_key_def)
  have retain: "map_of retain q = (if map_of reps q = None then map_of types q else None)" for q
    unfolding retain_def by (induction types) (auto simp: hm_contains_key_def)
  have dist: "distinct (map fst retain)" using hm_wf_filter [OF wf] by (simp add: hm_wf_def retain_def)
  have rel: "list_all2 (\<lambda>(q, v) (q', v'). q' = q \<and> folded base props_of upd types reps v v') retain ?new"
  proof (rule absorb_types_folded [OF ok reps, where Q = "{}" and K = "{}"])
    show "map_of remove \<subseteq>\<^sub>m map_of types" by (auto simp: map_le_def remove split: if_splits)
    show "\<forall>(q, v) \<in> set retain. map_of types q = Some v \<and> map_of reps q = None \<and> q \<notin> {}"
      using hm_wf_get [OF wf] by (auto simp: retain_def hm_contains_key_def)
    show "dom (map_of remove) = {x \<in> dom (map_of types). map_of reps x \<noteq> None} - {}"
      by (auto simp: remove split: if_splits)
  qed (use dist in simp_all)
  have names: "map fst ?new = map fst retain"
    using rel by (induction rule: list_all2_induct) auto
  have wf': "hm_wf ?new" using names dist by (simp add: hm_wf_def)
  have new: "\<exists>v. map_of retain q = Some v \<and> folded base props_of upd types reps v v'" if "map_of ?new q = Some v'" for q v'
    using rel that
  proof (induction rule: list_all2_induct)
    case (Cons x xs y ys)
    then show ?case by (cases x; cases y) (auto split: if_splits)
  qed simp
  show ?thesis
    unfolding folded_table_def
  proof (intro conjI allI wf')
    fix q
    show "case map_of ?new q of None \<Rightarrow> map_of types q = None \<or> map_of reps q \<noteq> None
        | Some v' \<Rightarrow> map_of reps q = None \<and>
            (\<exists>v. map_of types q = Some v \<and> folded base props_of upd types reps v v')"
    proof (cases "map_of ?new q")
      case None
      then have "map_of retain q = None" using names by (simp add: map_of_eq_None_iff) (metis list.set_map)
      then show ?thesis using None by (auto simp: retain split: if_splits)
    next
      case (Some v')
      then show ?thesis using new [OF Some] by (auto simp: retain split: if_splits)
    qed
  qed
qed

lemma folded_tableD:
  assumes "folded_table base props_of upd types reps types'"
  shows "hm_wf types'" "map_of types' q = None \<longleftrightarrow> map_of types q = None \<or> map_of reps q \<noteq> None"
    "map_of types' q = Some v' \<Longrightarrow> \<exists>v. map_of types q = Some v \<and> folded base props_of upd types reps v v'"
proof -
  have q: "case map_of types' q of None \<Rightarrow> map_of types q = None \<or> map_of reps q \<noteq> None
      | Some v' \<Rightarrow> map_of reps q = None \<and> (\<exists>v. map_of types q = Some v \<and> folded base props_of upd types reps v v')"
    using assms by (simp add: folded_table_def)
  show "hm_wf types'" using assms by (simp add: folded_table_def)
  show "map_of types' q = None \<longleftrightarrow> map_of types q = None \<or> map_of reps q \<noteq> None"
    using q by (cases "map_of types' q") auto
  show "map_of types' q = Some v' \<Longrightarrow> \<exists>v. map_of types q = Some v \<and> folded base props_of upd types reps v v'"
    using q by simp
qed

locale folding =
  fixes base :: "'t \<Rightarrow> qname option" and props_of :: "'t \<Rightarrow> properties"
    and upd :: "qname option \<Rightarrow> properties \<Rightarrow> odata \<Rightarrow> 't \<Rightarrow> 't"
  assumes base_upd: "base (upd b ps od v) = b" and props_upd: "props_of (upd b ps od v) = ps"
begin

lemma hierarchy_folded:
  assumes ok: "hierarchy_ok base types" and reps: "fold_replacements base types reps"
    and t: "folded_table base props_of upd types reps types'"
  shows "hierarchy_ok base types'" "map_of types q \<noteq> None \<Longrightarrow> map_of types' (replace reps q) \<noteq> None"
proof -
  let ?R = "base_rel base types"
  have none: "map_of types' q = None \<longleftrightarrow> map_of types q = None \<or> map_of reps q \<noteq> None" for q
    by (rule folded_tableD(2) [OF t])
  have path: "(q, x) \<in> ?R\<^sup>+ \<and> map_of types' x \<noteq> None" if "(q, x) \<in> base_rel base types'" for q x
  proof -
    from that obtain v' where "map_of types' q = Some v'" "base v' = Some x" by (auto simp: base_rel_def)
    then obtain v xs where v: "map_of types q = Some v" "climbs base types (base v) xs (Some x)" "map_of reps x = None"
      using folded_tableD(3) [OF t] by (fastforce simp: folded_def base_upd)
    have "(q, x) \<in> ?R\<^sup>+"
    proof (cases xs)
      case Nil
      then have "base v = Some x" using v(2) by (auto elim: climbs.cases)
      then show ?thesis using v(1) by (auto intro: base_relI)
    next
      case (Cons y ys)
      then have "base v = Some (fst y)" using v(2) by (auto elim: climbs.cases)
      then have "(q, fst y) \<in> ?R" using v(1) by (auto intro: base_relI)
      moreover have "(fst y, x) \<in> ?R\<^sup>+" using climbs_path [OF v(2), of "fst y" "snd y"] Cons by simp
      ultimately show ?thesis by (rule trancl_into_trancl2)
    qed
    moreover from this have "map_of types x \<noteq> None"
      using ok by (cases rule: trancl.cases) (auto simp: hierarchy_ok_def)
    ultimately show ?thesis using v(3) by (simp add: none)
  qed
  then have "base_rel base types' \<subseteq> ?R\<^sup>+" by auto
  then have "acyclic (base_rel base types')" using ok acyclic_trancl_subset by (auto simp: hierarchy_ok_def)
  then show "hierarchy_ok base types'" using path t by (auto simp: hierarchy_ok_def folded_table_def)
  show "map_of types q \<noteq> None \<Longrightarrow> map_of types' (replace reps q) \<noteq> None"
  proof (cases "map_of reps q")
    case (Some d)
    then have "(d, q) \<in> ?R\<^sup>+" "map_of reps d = None" using reps by (auto simp: fold_replacements_def)
    moreover from this(1) have "map_of types d \<noteq> None"
      by (cases rule: converse_tranclE) (auto simp: base_rel_def)
    ultimately show ?thesis using Some by (simp add: none replace_def)
  qed (simp add: none replace_def)
qed

lemma inherits_retained:
  assumes ok: "hierarchy_ok base types" and t: "folded_table base props_of upd types reps types'"
    and h: "\<And>pss. h (rev_join pss) = concat (rev (map h pss))"
    and "map_of reps q = None" "inherits base (\<lambda>t. h (props_of t)) types q ms"
  shows "inherits base (\<lambda>t. h (props_of t)) types' q ms"
  using ok assms(4,5)
proof (induction q arbitrary: ms rule: base_rel_plus_induct)
  case (type q)
  let ?own = "\<lambda>t. h (props_of t)"
  obtain v where v: "map_of types q = Some v" using type.prems(2) by (cases rule: inherits.cases) auto
  then obtain v' where v': "map_of types' q = Some v'" using folded_tableD(2) [OF t, of q] type.prems(1) by auto
  then obtain xs b' od where climb: "climbs base types (base v) xs b'" and retained: "\<forall>x. b' = Some x \<longrightarrow> map_of reps x = None"
    and eq: "v' = upd b' (rev_join (props_of v # map (props_of \<circ> snd) xs)) od v"
    using folded_tableD(3) [OF t v'] v by (auto simp: folded_def)
  have own: "?own v' = concat (rev (map (?own \<circ> snd) xs)) @ ?own v" and base: "base v' = b'"
    by (simp_all add: eq props_upd base_upd h comp_def)
  from type.prems(2) show ?case
  proof (cases rule: inherits.cases)
    case (root u)
    then have "xs = []" "b' = None" using climb v by (auto elim: climbs.cases)
    then have "?own v' = ms" "base v' = None" using root v own base by auto
    then show ?thesis using inherits.root [of types' q v' base ?own] v' by simp
  next
    case (derived u b ns)
    then have uv: "u = v" using v by simp
    from climbs_inherits [OF climb _ derived(4)] derived uv obtain ms' where
      up: "b' = None \<and> ms' = [] \<or> (\<exists>x. b' = Some x \<and> inherits base ?own types x ms')"
      and ns: "ns = ms' @ concat (rev (map (?own \<circ> snd) xs))" by auto
    have ms: "ms = ms' @ ?own v'" using derived uv ns own by simp
    show ?thesis
    proof (cases b')
      case None
      then show ?thesis using up ms inherits.root [of types' q v' base ?own] v' base by simp
    next
      case (Some x)
      then have x: "inherits base ?own types x ms'" "map_of reps x = None" using up retained by auto
      have "(q, x) \<in> (base_rel base types)\<^sup>+"
        using climbs_hangs [OF climb v, of "map (\<lambda>(x, u). (x, x)) xs"] Some
        by (force simp: map_of_eq_None_iff image_iff)
      then have "inherits base ?own types' x ms'" using type.IH x by blast
      then show ?thesis using inherits.derived [of types' q v' base x ?own ms'] v' base Some ms by simp
    qed
  qed
qed

lemma inherits_folded:
  assumes ok: "hierarchy_ok base types" and reps: "fold_replacements base types reps"
    and t: "folded_table base props_of upd types reps types'"
    and h: "\<And>pss. h (rev_join pss) = concat (rev (map h pss))"
    and q: "inherits base (\<lambda>t. h (props_of t)) types q ms"
  shows "\<exists>extra. inherits base (\<lambda>t. h (props_of t)) types' (replace reps q) (ms @ extra)"
proof (cases "map_of reps q")
  case None
  then have "inherits base (\<lambda>t. h (props_of t)) types' q ms" using inherits_retained [OF ok t h] q by blast
  then show ?thesis using None by (auto simp: replace_def intro: exI [of _ "[]"])
next
  case (Some d)
  then have d: "(d, q) \<in> (base_rel base types)\<^sup>*" "map_of reps d = None"
    using reps unfolding fold_replacements_def by (blast intro: trancl_into_rtrancl)+
  from d(1) have "\<exists>extra. inherits base (\<lambda>t. h (props_of t)) types d (ms @ extra)"
  proof (induction rule: converse_rtrancl_induct)
    case base
    then show ?case using q by (auto intro: exI [of _ "[]"])
  next
    case (step y z)
    then obtain v extra where "map_of types y = Some v" "base v = Some z"
      "inherits base (\<lambda>t. h (props_of t)) types z (ms @ extra)" by (auto simp: base_rel_def)
    then have "inherits base (\<lambda>t. h (props_of t)) types y ((ms @ extra) @ h (props_of v))" by (rule inherits.derived)
    then show ?case by auto
  qed
  then show ?thesis using inherits_retained [OF ok t h d(2)] Some by (auto simp: replace_def)
qed

end

end
