(* ===== verification/Csdl_Rename.thy ===== *)
theory Csdl_Rename
  imports Csdl_Hierarchy
begin

text \<open>
  Dropping namespaces: the statistics count, for a simple name, the types below each namespace, so that a shorter
  name is only taken by the one type it can mean. The renaming is injective on the types of a kind and keeps the
  first identifier and the simple name; and a table renamed injectively keeps its hierarchy and members.
\<close>

section \<open>The statistics\<close>

text \<open>\<open>x\<close> is a namespace that contains \<open>ns\<close>, or \<open>ns\<close> itself.\<close>

definition ns_above :: "namespace \<Rightarrow> namespace \<Rightarrow> bool" where
  "ns_above x ns = (x \<noteq> [] \<and> (\<exists>y. y \<noteq> [] \<and> ns = x @ y))"

definition ns_covers :: "namespace \<Rightarrow> namespace \<Rightarrow> bool" where
  "ns_covers x ns = (x = ns \<or> ns_above x ns)"

definition name_count :: "qname list \<Rightarrow> ident \<Rightarrow> namespace \<Rightarrow> nat" where
  "name_count names n x = length (filter (\<lambda>q. qn_name q = n \<and> ns_covers x (qn_namespace q)) names)"

definition counter :: "namespace_matches \<Rightarrow> namespace \<Rightarrow> nat" where
  "counter m x = (case map_of m x of None \<Rightarrow> 0 | Some n \<Rightarrow> n)"

lemma ns_above_parent:
  "ns_above x ns \<longleftrightarrow> (\<exists>p. ns_parent ns = Some p \<and> (x = p \<or> ns_above x p))"
proof (cases ns rule: rev_cases)
  case Nil
  then show ?thesis by (auto simp: ns_above_def ns_parent_def)
next
  case (snoc p a)
  show ?thesis
  proof
    assume "ns_above x ns"
    then obtain y where y: "x \<noteq> []" "y \<noteq> []" "p @ [a] = x @ y" by (auto simp: ns_above_def snoc)
    then obtain z where "y = z @ [a]" "p = x @ z" by (cases y rule: rev_cases) auto
    then show "\<exists>p. ns_parent ns = Some p \<and> (x = p \<or> ns_above x p)"
      using y snoc by (auto simp: ns_parent_Some ns_above_def)
  next
    assume "\<exists>p. ns_parent ns = Some p \<and> (x = p \<or> ns_above x p)"
    then have "p \<noteq> []" "x = p \<or> ns_above x p" using snoc by (auto simp: ns_parent_Some)
    then obtain y where y: "x \<noteq> []" "p = x @ y" unfolding ns_above_def by blast
    then have "ns = x @ (y @ [a])" "y @ [a] \<noteq> []" using snoc by simp_all
    then show "ns_above x ns" unfolding ns_above_def using y(1) by blast
  qed
qed

lemma ns_above_irrefl [simp]: "\<not> ns_above x x"
  by (simp add: ns_above_def)

lemma counter_entry: "counter (hm_entry p 0 Suc m) x = (if x = p then counter m x + 1 else counter m x)"
  by (simp add: counter_def hm_simps split: option.splits)

lemma counter_parents: "counter (count_parents ns m) x = (if ns_above x ns then counter m x + 1 else counter m x)"
proof (induction ns m rule: count_parents.induct)
  case (1 ns m)
  show ?case
  proof (cases "ns_parent ns")
    case None
    then show ?thesis by (simp add: count_parents.simps [of ns] ns_above_parent [of x ns])
  next
    case (Some p)
    have "ns_above x ns \<longleftrightarrow> x = p \<or> ns_above x p" using Some by (simp add: ns_above_parent [of x ns])
    then show ?thesis
      using "1" [OF Some] Some by (auto simp: count_parents.simps [of ns] counter_entry)
  qed
qed

lemma counter_namespaces:
  "counter (count_namespaces q m) x = (if ns_covers x (qn_namespace q) then counter m x + 1 else counter m x)"
  by (auto simp: count_namespaces_def counter_parents counter_entry ns_covers_def)

lemma type_namespaces_fold:
  "(case map_of (fold (\<lambda>name m. hm_entry (qn_name name) [] (count_namespaces name) m) names m) n of
      None \<Rightarrow> map_of m n = None \<and> (\<forall>q \<in> set names. qn_name q \<noteq> n)
    | Some st \<Rightarrow> counter st x = name_count names n x + (case map_of m n of None \<Rightarrow> 0 | Some st \<Rightarrow> counter st x))"
proof (induction names arbitrary: m)
  case Nil
  then show ?case by (simp add: name_count_def split: option.splits)
next
  case (Cons q names)
  have empty: "counter [] x = 0" by (simp add: counter_def)
  show ?case
    using Cons.IH [of "hm_entry (qn_name q) [] (count_namespaces q) m"]
    by (cases "map_of m n"; cases "qn_name q = n")
      (auto simp: hm_simps name_count_def counter_namespaces empty split: option.splits)
qed

lemma type_namespaces_get:
  assumes "map_of (type_namespaces_of names) n = Some st"
  shows "counter st x = name_count names n x"
  using type_namespaces_fold [where names = names and m = "[]" and n = n and x = x] assms
  by (simp add: type_namespaces_of_def)

lemma best_namespace_Some:
  "best_namespace stats ns best = Some b \<Longrightarrow> best = Some b \<or> ns_above b ns \<and> map_of stats b = Some 1"
proof (induction stats ns best rule: best_namespace.induct)
  case (1 stats ns best)
  show ?case
  proof (cases "ns_parent ns")
    case None
    then show ?thesis using "1.prems" by (simp add: best_namespace.simps [of stats ns])
  next
    case (Some p)
    show ?thesis
    proof (cases "map_of stats p = Some 1")
      case True
      then have "best_namespace stats p (Some p) = Some b"
        using "1.prems" Some by (simp add: best_namespace.simps [of stats ns])
      then have "Some p = Some b \<or> ns_above b p \<and> map_of stats b = Some 1"
        using "1.IH" [OF Some True refl] by blast
      then show ?thesis using True Some ns_above_parent [of b ns] by auto
    next
      case False
      then show ?thesis
        using "1.prems" Some by (simp add: best_namespace.simps [of stats ns] split: option.splits if_splits)
    qed
  qed
qed

section \<open>The renaming\<close>

lemma prune_replacements_get:
  assumes names: "distinct names" and q: "map_of (prune_namepaces_replacements names) q = Some q'"
  shows "q \<in> set names" "qn_name q' = qn_name q" "ns_above (qn_namespace q') (qn_namespace q)"
    "name_count names (qn_name q) (qn_namespace q') = 1"
proof -
  let ?pick = "\<lambda>orig. do {
      stats \<leftarrow> map_of (type_namespaces_of names) (qn_name orig);
      best \<leftarrow> best_namespace stats (qn_namespace orig) None;
      Some (orig, QName best (qn_name orig)) }"
  have "(q, q') \<in> set (List.map_filter ?pick names)"
    using q hm_collect_subset unfolding prune_namepaces_replacements_def Let_def
    by (metis (no_types, lifting) map_of_SomeD subset_iff)
  then have "q \<in> set names \<and> ?pick q = Some (q, q')"
    by (auto simp: set_map_filter_iff bind_eq_Some_conv)
  then obtain st b where st: "q \<in> set names" "map_of (type_namespaces_of names) (qn_name q) = Some st"
    "best_namespace st (qn_namespace q) None = Some b" "q' = QName b (qn_name q)"
    by (auto simp: bind_eq_Some_conv)
  then have "ns_above b (qn_namespace q)" "counter st b = 1"
    using best_namespace_Some [OF st(3)] by (auto simp: counter_def)
  then show "q \<in> set names" "qn_name q' = qn_name q" "ns_above (qn_namespace q') (qn_namespace q)"
    "name_count names (qn_name q) (qn_namespace q') = 1"
    using st type_namespaces_get [OF st(2), of b] by auto
qed

lemma replace_covers:
  assumes "distinct names"
  shows "qn_name (replace (prune_namepaces_replacements names) q) = qn_name q"
    "ns_covers (qn_namespace (replace (prune_namepaces_replacements names) q)) (qn_namespace q)"
proof (atomize (full), cases "map_of (prune_namepaces_replacements names) q")
  case (Some q')
  then show "qn_name (replace (prune_namepaces_replacements names) q) = qn_name q \<and>
      ns_covers (qn_namespace (replace (prune_namepaces_replacements names) q)) (qn_namespace q)"
    using prune_replacements_get(2,3) [OF assms Some] by (simp add: replace_def ns_covers_def)
qed (simp add: replace_def ns_covers_def)

lemma replace_family:
  assumes "distinct names"
  shows "family (replace (prune_namepaces_replacements names) q) = family q"
proof -
  have "ns_covers x ns \<Longrightarrow> ns_root x = ns_root ns" for x ns
    by (cases x) (auto simp: ns_covers_def ns_above_def ns_root_def)
  then show ?thesis using replace_covers [OF assms, of q] by (simp add: family_def)
qed

lemma two_counted: "q \<in> set names \<Longrightarrow> q' \<in> set names \<Longrightarrow> q \<noteq> q' \<Longrightarrow> P q \<Longrightarrow> P q' \<Longrightarrow> length (filter P names) \<noteq> 1"
  using card_mono [of "set (filter P names)" "{q, q'}"] card_length [of "filter P names"] by auto

lemma replace_inj:
  assumes names: "distinct names"
  shows "inj_on (replace (prune_namepaces_replacements names)) (set names)"
proof (rule inj_onI, rule ccontr)
  let ?r = "replace (prune_namepaces_replacements names)"
  fix q q' assume q: "q \<in> set names" "q' \<in> set names" "?r q = ?r q'" "q \<noteq> q'"
  have count: "name_count names (qn_name p) (qn_namespace (?r p)) = 1"
    if "map_of (prune_namepaces_replacements names) p \<noteq> None" for p
    using prune_replacements_get(4) [OF names, of p] that by (auto simp: replace_def)
  have same: "qn_name q' = qn_name q" using replace_covers(1) [OF names] q(3) by metis
  have "map_of (prune_namepaces_replacements names) q \<noteq> None \<or> map_of (prune_namepaces_replacements names) q' \<noteq> None"
    using q(3,4) by (cases "map_of (prune_namepaces_replacements names) q";
        cases "map_of (prune_namepaces_replacements names) q'") (simp_all add: replace_def)
  then have "name_count names (qn_name q) (qn_namespace (?r q)) = 1"
    using count [of q] count [of q'] q(3) same by auto
  moreover have "name_count names (qn_name q) (qn_namespace (?r q)) \<noteq> 1"
    unfolding name_count_def
    using replace_covers(2) [OF names, of q] replace_covers(2) [OF names, of q'] q same
    by (intro two_counted [of q _ q']) auto
  ultimately show False by simp
qed

section \<open>A renamed table\<close>

lemma map_of_renamed:
  assumes "hm_wf m" "inj_on r (fst ` set m)"
  shows "map_of (hm_collect (map (\<lambda>(k, v). (r k, f k v)) m)) x = Some y \<longleftrightarrow>
           (\<exists>k v. map_of m k = Some v \<and> x = r k \<and> y = f k v)"
proof -
  have "map_of (hm_collect (map (\<lambda>(k, v). (r k, f k v)) m)) x = Some y \<longleftrightarrow>
      (x, y) \<in> (\<lambda>(k, v). (r k, f k v)) ` set m"
    by (simp add: hm_wf_get set_collect_rename [OF assms])
  then show ?thesis using assms(1) by (fastforce simp: hm_wf_get image_iff)
qed

lemma hierarchy_renamed:
  assumes ok: "hierarchy_ok base m" and inj: "inj_on r (fst ` set m)"
    and f: "\<And>k t. base (f k t) = map_option r (base t)"
  defines "m' \<equiv> hm_collect (map (\<lambda>(k, v). (r k, f k v)) m)"
  shows "hierarchy_ok base m'" "map_of m q \<noteq> None \<Longrightarrow> map_of m' (r q) \<noteq> None"
proof -
  note get = map_of_renamed [OF hierarchy_wf [OF ok] inj, of f, folded m'_def]
  show keys: "map_of m q \<noteq> None \<Longrightarrow> map_of m' (r q) \<noteq> None" for q
    using get [of "r q"] by fastforce
  have rel: "base_rel base m' = map_prod r r ` base_rel base m"
  proof (intro set_eqI iffI)
    fix x assume "x \<in> base_rel base m'"
    then obtain k v b where "map_of m k = Some v" "base v = Some b" "x = (r k, r b)"
      by (cases x) (auto simp: base_rel_def get f)
    then show "x \<in> map_prod r r ` base_rel base m" by (force simp: base_rel_def)
  next
    fix x assume "x \<in> map_prod r r ` base_rel base m"
    then obtain k v b where "map_of m k = Some v" "base v = Some b" "x = (r k, r b)"
      by (auto simp: base_rel_def)
    then have "map_of m' (r k) = Some (f k v)" "base (f k v) = Some (r b)" by (auto simp: get f)
    then show "x \<in> base_rel base m'" using \<open>x = (r k, r b)\<close> by (auto simp: base_rel_def)
  qed
  have field: "a \<in> fst ` set m" if "a \<in> Domain (base_rel base m) \<union> Range (base_rel base m)" for a
  proof -
    have "map_of m a \<noteq> None" using that ok by (auto simp: base_rel_def hierarchy_ok_def)
    then show ?thesis by (simp add: map_of_eq_None_iff)
  qed
  have "wf (map_prod r r ` (base_rel base m)\<inverse>)"
    using wf_base_rel [OF ok] field inj_onD [OF inj]
    by (intro wf_map_prod_image_Dom_Ran) blast+
  moreover have "map_prod r r ` (base_rel base m)\<inverse> = (base_rel base m')\<inverse>" by (auto simp: rel image_iff)
  ultimately have "acyclic (base_rel base m')" by (metis wf_acyclic acyclic_converse)
  moreover have "map_of m' b \<noteq> None" if "(q, b) \<in> base_rel base m'" for q b
    using that keys ok by (auto simp: rel hierarchy_ok_def)
  ultimately show "hierarchy_ok base m'" by (auto simp: hierarchy_ok_def m'_def)
qed

lemma inherits_renamed:
  assumes ok: "hierarchy_ok base m" and inj: "inj_on r (fst ` set m)"
    and f: "\<And>k t. base (f k t) = map_option r (base t)" and g: "\<And>k t. own (f k t) = map g (own t)"
    and "inherits base own m q ms"
  defines "m' \<equiv> hm_collect (map (\<lambda>(k, v). (r k, f k v)) m)"
  shows "inherits base own m' (r q) (map g ms)"
  using assms(5)
proof (induction rule: inherits.induct)
  note get = map_of_renamed [OF hierarchy_wf [OF ok] inj, of f, folded m'_def]
  case (root q t)
  then have "map_of m' (r q) = Some (f q t)" by (auto simp: get)
  then show ?case using inherits.root [of m' "r q" "f q t" base own] root by (simp add: f g)
next
  note get = map_of_renamed [OF hierarchy_wf [OF ok] inj, of f, folded m'_def]
  case (derived q t b ms)
  then have "map_of m' (r q) = Some (f q t)" by (auto simp: get)
  then show ?case using inherits.derived [of m' "r q" "f q t" base "r b" own "map g ms"] derived by (simp add: f g)
qed

text \<open>
  C39. Dropping namespaces never merges two types. For distinct names of one kind, the new names are distinct, and each
  has the simple name and the first namespace identifier of the old one.
\<close>

theorem namespace_pruning_injective:
  assumes "distinct names"
  shows "inj_on (replace (prune_namepaces_replacements names)) (set names) \<and>
    (\<forall>q. qn_name (replace (prune_namepaces_replacements names) q) = qn_name q \<and>
         ns_root (qn_namespace (replace (prune_namepaces_replacements names) q)) = ns_root (qn_namespace q))"
  using replace_inj [OF assms] replace_family [OF assms] by (simp add: family_def)

theorem namespace_pruning_injective_witness:
  "replace (prune_namepaces_replacements
      [QName [''Chassis'', ''v1''] ''Status'', QName [''Chassis'', ''v2''] ''Status'', QName [''Chassis'', ''v2''] ''Links''])
     (QName [''Chassis'', ''v2''] ''Links'') = QName [''Chassis''] ''Links'' \<and>
   replace (prune_namepaces_replacements
      [QName [''Chassis'', ''v1''] ''Status'', QName [''Chassis'', ''v2''] ''Status'', QName [''Chassis'', ''v2''] ''Links''])
     (QName [''Chassis'', ''v2''] ''Status'') = QName [''Chassis'', ''v2''] ''Status'' \<and>
   inj_on (replace (prune_namepaces_replacements
      [QName [''Chassis'', ''v1''] ''Status'', QName [''Chassis'', ''v2''] ''Status'', QName [''Chassis'', ''v2''] ''Links'']))
     {QName [''Chassis'', ''v1''] ''Status'', QName [''Chassis'', ''v2''] ''Status'', QName [''Chassis'', ''v2''] ''Links''}"
proof -
  let ?names = "[QName [''Chassis'', ''v1''] ''Status'', QName [''Chassis'', ''v2''] ''Status'', QName [''Chassis'', ''v2''] ''Links'']"
  have "replace (prune_namepaces_replacements ?names) (QName [''Chassis'', ''v2''] ''Links'') = QName [''Chassis''] ''Links''"
    "replace (prune_namepaces_replacements ?names) (QName [''Chassis'', ''v2''] ''Status'') = QName [''Chassis'', ''v2''] ''Status''"
    by code_simp+
  then show ?thesis using namespace_pruning_injective [of ?names] by simp
qed

end
