(* ===== verification/Csdl_Passes.thy ===== *)
theory Csdl_Passes
  imports Csdl_Fold Csdl_Rename
begin

text \<open>
  What one pass does to a whole aggregate. A pass renames the types of one kind by a function and rewrites the
  references; if the table of that kind is rewritten as \<open>Csdl_Hierarchy\<close>, \<open>Csdl_Fold\<close> and \<open>Csdl_Rename\<close> describe, the
  aggregate stays closed and keeps the members of its types.
\<close>

section \<open>Members of tables\<close>

named_theorems pass_simps \<open>members of types after the rewriting of their properties\<close>

text \<open>Structural members, without what the compiler noted about their types.\<close>

definition erase_info :: "property \<Rightarrow> property" where
  "erase_info p = p\<lparr>pr_ptype := ooc_map (\<lambda>(_, name). (type_info_simple_type, name)) (pr_ptype p)\<rparr>"

definition struct_of :: "properties \<Rightarrow> property list" where
  "struct_of ps = map erase_info (ps_properties ps)"

definition prop_ref :: "property \<Rightarrow> qname" where
  "prop_ref p = property_type_name (pr_ptype p)"

definition members :: "('t \<Rightarrow> 'm list) \<Rightarrow> (qname, 't) hash_map \<Rightarrow> 'm set" where
  "members own types = (\<Union>(q, t) \<in> set types. set (own t))"

lemma membersI: "(q, t) \<in> set types \<Longrightarrow> m \<in> set (own t) \<Longrightarrow> m \<in> members own types"
  by (auto simp: members_def)

lemma membersE:
  assumes "m \<in> members own types"
  obtains q t where "(q, t) \<in> set types" "m \<in> set (own t)"
  using assms by (auto simp: members_def)

lemma ooc_inner_map [simp]: "ooc_inner (ooc_map f x) = f (ooc_inner x)"
  by (cases x) simp_all

lemma erase_info_ref [pass_simps]: "prop_ref (erase_info p) = prop_ref p"
  by (simp add: prop_ref_def erase_info_def property_type_name_def case_prod_beta')

lemma map_type_ref [pass_simps]: "prop_ref (property_map_type f p) = f (prop_ref p)"
  by (simp add: prop_ref_def property_map_type_def property_type_name_def case_prod_beta')

lemma nav_map_type_refs [pass_simps]: "nav_refs (nav_property_map_type f p) = f ` nav_refs p"
  by (cases p) simp_all

lemma erase_map_type [pass_simps]: "erase_info (property_map_type f p) = property_map_type f (erase_info p)"
  by (cases "pr_ptype p") (auto simp: erase_info_def property_map_type_def)

lemma erase_retype [pass_simps]: "erase_info (retype_property reps infos p) = property_map_type (replace reps) (erase_info p)"
proof -
  have "erase_info (p\<lparr>pr_ptype := ooc_map (\<lambda>(_, name). (ti, name)) (pr_ptype p)\<rparr>) = erase_info p" for p ti
    by (cases "pr_ptype p") (auto simp: erase_info_def)
  then show ?thesis
    by (simp add: retype_property_def Let_def erase_map_type split: option.splits)
qed

lemma property_map_type_cong: "f (prop_ref p) = g (prop_ref p) \<Longrightarrow> property_map_type f p = property_map_type g p"
  by (cases "pr_ptype p") (auto simp: property_map_type_def prop_ref_def property_type_name_def)

lemma property_map_type_id: "f (prop_ref p) = prop_ref p \<Longrightarrow> property_map_type f p = p"
  by (cases "pr_ptype p") (auto simp: property_map_type_def prop_ref_def property_type_name_def)

lemma property_map_type_comp: "property_map_type g (property_map_type f p) = property_map_type (g \<circ> f) p"
  by (cases "pr_ptype p") (auto simp: property_map_type_def)

lemma nav_map_type_id: "(\<And>q. q \<in> nav_refs p \<Longrightarrow> f q = q) \<Longrightarrow> nav_property_map_type f p = p"
proof (cases p)
  case (Expandable v)
  assume "\<And>q. q \<in> nav_refs p \<Longrightarrow> f q = q"
  then show ?thesis by (cases "ne_ptype v") (auto simp: Expandable)
qed simp

lemma nav_map_type_comp: "nav_property_map_type g (nav_property_map_type f p) = nav_property_map_type (g \<circ> f) p"
  by (cases p) (simp_all add: one_or_collection.map_comp)

lemma struct_of_rev_join: "struct_of (rev_join pss) = concat (rev (map struct_of pss))"
  by (induction pss) (simp_all add: struct_of_def rev_join_def)

lemma nav_of_rev_join: "ps_nav_properties (rev_join pss) = concat (rev (map ps_nav_properties pss))"
  by (simp add: rev_join_def)

lemma property_refs_members:
  "property_refs c = prop_ref ` (members (struct_of \<circ> ct_properties) (co_complex_types c) \<union>
                                 members (struct_of \<circ> et_properties) (co_entity_types c))"
  by (simp add: property_refs_def all_properties_def members_def struct_of_def image_Un image_UN image_image
      pass_simps comp_def case_prod_beta') (simp add: prop_ref_def)

lemma navigation_refs_members:
  "navigation_refs c = \<Union> (nav_refs ` (members (ps_nav_properties \<circ> ct_properties) (co_complex_types c) \<union>
                                       members (ps_nav_properties \<circ> et_properties) (co_entity_types c)))"
  by (simp add: navigation_refs_def all_properties_def members_def comp_def case_prod_beta' UN_Un)

text \<open>The rewriting functions of types, seen through their accessors.\<close>

lemma ct_map_simps [pass_simps]:
  "ct_name (ct_map_properties g t) = ct_name t" "ct_base (ct_map_properties g t) = ct_base t"
  "ct_name (ct_map_nav_properties h t) = ct_name t" "ct_base (ct_map_nav_properties h t) = ct_base t"
  "ct_name (ct_map_base r t) = ct_name t" "ct_base (ct_map_base r t) = map_option r (ct_base t)"
  "ct_properties (ct_map_base r t) = ct_properties t"
  "struct_of (ct_properties (ct_map_properties g t)) = map (erase_info \<circ> g) (ps_properties (ct_properties t))"
  "ps_nav_properties (ct_properties (ct_map_properties g t)) = ps_nav_properties (ct_properties t)"
  "struct_of (ct_properties (ct_map_nav_properties h t)) = struct_of (ct_properties t)"
  "ps_nav_properties (ct_properties (ct_map_nav_properties h t)) = map h (ps_nav_properties (ct_properties t))"
  by (simp_all add: ct_map_properties_def ct_map_nav_properties_def ct_map_base_def struct_of_def)

lemma et_map_simps [pass_simps]:
  "et_name (et_map_properties g t) = et_name t" "et_base (et_map_properties g t) = et_base t"
  "et_name (et_map_nav_properties h t) = et_name t" "et_base (et_map_nav_properties h t) = et_base t"
  "et_name (et_map_base r t) = et_name t" "et_base (et_map_base r t) = map_option r (et_base t)"
  "et_properties (et_map_base r t) = et_properties t"
  "struct_of (et_properties (et_map_properties g t)) = map (erase_info \<circ> g) (ps_properties (et_properties t))"
  "ps_nav_properties (et_properties (et_map_properties g t)) = ps_nav_properties (et_properties t)"
  "struct_of (et_properties (et_map_nav_properties h t)) = struct_of (et_properties t)"
  "ps_nav_properties (et_properties (et_map_nav_properties h t)) = map h (ps_nav_properties (et_properties t))"
  by (simp_all add: et_map_properties_def et_map_nav_properties_def et_map_base_def struct_of_def)

lemma struct_mapped [pass_simps]:
  "map (erase_info \<circ> property_map_type f) (ps_properties ps) = map (property_map_type f) (struct_of ps)"
  "map (erase_info \<circ> retype_property reps infos) (ps_properties ps) = map (property_map_type (replace reps)) (struct_of ps)"
  by (simp_all add: struct_of_def pass_simps)

section \<open>A rewritten table\<close>

text \<open>
  The members of the new table are those of the old one changed by \<open>g\<close>, and the type that now stands for \<open>q\<close> has
  all of the changed members of \<open>q\<close> and of its ancestors.
\<close>

definition keeps ::
  "('t \<Rightarrow> qname option) \<Rightarrow> ('t \<Rightarrow> 'm list) \<Rightarrow> ('m \<Rightarrow> 'm) \<Rightarrow> (qname \<Rightarrow> qname) \<Rightarrow>
     (qname, 't) hash_map \<Rightarrow> (qname, 't) hash_map \<Rightarrow> bool" where
  "keeps base own g f types types' =
     (\<forall>q ms. inherits base own types q ms \<longrightarrow> (\<exists>extra. inherits base own types' (f q) (map g ms @ extra)))"

definition table_rewritten ::
  "('t \<Rightarrow> qname option) \<Rightarrow> ('t \<Rightarrow> 'm list) \<Rightarrow> ('m \<Rightarrow> 'm) \<Rightarrow> (qname \<Rightarrow> qname) \<Rightarrow>
     (qname, 't) hash_map \<Rightarrow> (qname, 't) hash_map \<Rightarrow> bool" where
  "table_rewritten base own g f types types' =
     (members own types' \<subseteq> g ` members own types \<and> keeps base own g f types types')"

lemma keepsI: "(\<And>q ms. inherits base own types q ms \<Longrightarrow> inherits base own types' (f q) (map g ms @ x)) \<Longrightarrow>
  keeps base own g f types types'"
  unfolding keeps_def by blast

lemma keeps_trans:
  assumes "keeps base own g f types types1" "keeps base own g' f' types1 types2"
  shows "keeps base own (g' \<circ> g) (f' \<circ> f) types types2"
  unfolding keeps_def
proof (intro allI impI)
  fix q ms assume "inherits base own types q ms"
  then obtain x where "inherits base own types1 (f q) (map g ms @ x)" using assms(1) unfolding keeps_def by blast
  then obtain y where "inherits base own types2 (f' (f q)) (map g' (map g ms @ x) @ y)"
    using assms(2) unfolding keeps_def by blast
  then show "\<exists>extra. inherits base own types2 ((f' \<circ> f) q) (map (g' \<circ> g) ms @ extra)" by auto
qed

lemma inherits_members: "inherits base own types q ms \<Longrightarrow> set ms \<subseteq> members own types"
  by (induction rule: inherits.induct) (force simp: members_def dest: map_of_SomeD)+

lemma rewritten_cong:
  assumes "table_rewritten base own g f types types'" "\<And>m. m \<in> members own types \<Longrightarrow> g' m = g m"
    "\<And>q. q \<in> fst ` set types \<Longrightarrow> f' q = f q"
  shows "table_rewritten base own g' f' types types'"
proof -
  have "g' ` members own types = g ` members own types" using assms(2) by (intro image_cong) auto
  moreover have "map g' ms = map g ms" if "inherits base own types q ms" for q ms
    using inherits_members [OF that] assms(2) by auto
  moreover have "f' q = f q" if "inherits base own types q ms" for q ms
    using that by (cases rule: inherits.cases) (force intro!: assms(3) dest: map_of_SomeD)+
  ultimately show ?thesis using assms(1) unfolding table_rewritten_def keeps_def by metis
qed

lemma rewritten_values:
  assumes "hm_wf types" "\<And>t. base (F t) = base t" "\<And>t. own (F t) = map g (own t)"
  shows "table_rewritten base own g (\<lambda>q. q) types (map_values F types)"
proof -
  have "members own (map_values F types) = g ` members own types"
    using assms(3) by (simp add: members_def set_map_values [OF assms(1)] case_prod_beta' image_UN)
  moreover have "keeps base own g (\<lambda>q. q) types (map_values F types)"
    using inherits_map_values [of types base F own g] assms by (intro keepsI [where x = "[]"]) simp
  ultimately show ?thesis by (simp add: table_rewritten_def)
qed

lemma rewritten_trans:
  "table_rewritten base own g f types types1 \<Longrightarrow> table_rewritten base own g' f' types1 types2 \<Longrightarrow>
     table_rewritten base own (g' \<circ> g) (f' \<circ> f) types types2"
  by (force simp: table_rewritten_def intro: keeps_trans)

lemma rewritten_removed:
  assumes ok: "hierarchy_ok base types" and reps: "empty_replacements candidate is_empty base types reps"
    and F: "\<And>t. base (F t) = map_option (replace reps) (base t)" "\<And>t. own (F t) = map g (own t)"
    and empty: "\<And>t. is_empty t \<Longrightarrow> own t = []"
  shows "table_rewritten base own g (replace reps) types
    (hm_collect (map (\<lambda>(name, v). (name, F v)) (filter (\<lambda>(name, v). \<not> hm_contains_key reps name) types)))"
    (is "table_rewritten _ _ _ _ _ ?types'")
proof -
  have "members own ?types' \<subseteq> g ` members own types"
    by (auto simp: set_collect_filter_map [OF hierarchy_wf [OF ok]] F(2) elim!: membersE intro!: imageI) (erule (1) membersI)
  moreover have "keeps base own g (replace reps) types ?types'"
    using inherits_removed [where f = F and own = own and g = g, OF ok reps F empty] by (intro keepsI [where x = "[]"]) simp
  ultimately show ?thesis by (simp add: table_rewritten_def)
qed

lemma rewritten_renamed:
  assumes ok: "hierarchy_ok base types" and inj: "inj_on r (fst ` set types)"
    and F: "\<And>k t. base (F k t) = map_option r (base t)" "\<And>k t. own (F k t) = map g (own t)"
  shows "table_rewritten base own g r types (hm_collect (map (\<lambda>(k, v). (r k, F k v)) types))"
    (is "table_rewritten _ _ _ _ _ ?types'")
proof -
  have "members own ?types' \<subseteq> g ` members own types"
    by (auto simp: set_collect_rename [OF hierarchy_wf [OF ok] inj] F(2) elim!: membersE intro!: imageI) (erule (1) membersI)
  moreover have "keeps base own g r types ?types'"
    using inherits_renamed [where f = F and own = own and g = g, OF ok inj F] by (intro keepsI [where x = "[]"]) simp
  ultimately show ?thesis by (simp add: table_rewritten_def)
qed

lemma climbs_subset: "climbs base types b xs b' \<Longrightarrow> set xs \<subseteq> set types"
  by (induction rule: climbs.induct) (auto dest: map_of_SomeD)

context folding
begin

lemma rewritten_folded:
  assumes ok: "hierarchy_ok base types" and reps: "fold_replacements base types reps"
    and t: "folded_table base props_of upd types reps types'"
    and h: "\<And>pss. h (rev_join pss) = concat (rev (map h pss))"
  shows "table_rewritten base (h \<circ> props_of) (\<lambda>m. m) (replace reps) types types'"
proof -
  have "m \<in> members (h \<circ> props_of) types" if new: "m \<in> members (h \<circ> props_of) types'" for m
  proof -
    obtain q v' where v': "(q, v') \<in> set types'" "m \<in> set (h (props_of v'))" using new by (auto elim: membersE)
    then have "map_of types' q = Some v'" using folded_tableD(1) [OF t] by (simp add: hm_wf_get)
    then obtain v where v: "(q, v) \<in> set types" "folded base props_of upd types reps v v'"
      using folded_tableD(3) [OF t] map_of_SomeD by metis
    then obtain xs b' od where xs: "climbs base types (base v) xs b'"
      "v' = upd b' (rev_join (props_of v # map (props_of \<circ> snd) xs)) od v" by (auto simp: folded_def)
    then have "m \<in> set (h (props_of v)) \<or> (\<exists>(y, u) \<in> set xs. m \<in> set (h (props_of u)))"
      using v'(2) by (auto simp: props_upd h)
    then show ?thesis using v(1) climbs_subset [OF xs(1)] by (fastforce simp: members_def)
  qed
  moreover have "\<exists>extra. inherits base (h \<circ> props_of) types' (replace reps q) (map (\<lambda>m. m) ms @ extra)"
    if "inherits base (h \<circ> props_of) types q ms" for q ms
    using inherits_folded [where h = h, OF ok reps t h] that by (simp add: comp_def)
  ultimately show ?thesis by (auto simp: table_rewritten_def keeps_def)
qed

end

section \<open>A rewritten kind of types\<close>

definition table_step ::
  "('t \<Rightarrow> qname option) \<Rightarrow> ('t \<Rightarrow> qname) \<Rightarrow> ('t \<Rightarrow> properties) \<Rightarrow> (qname \<Rightarrow> qname) \<Rightarrow>
     (qname, 't) hash_map \<Rightarrow> (qname, 't) hash_map \<Rightarrow> bool" where
  "table_step base name props_of f types types' =
     (hierarchy_ok base types' \<and> list_all (\<lambda>(q, t). name t = q) types' \<and>
      f ` fst ` set types \<subseteq> fst ` set types' \<and> family ` fst ` set types' \<subseteq> family ` fst ` set types \<and>
      table_rewritten base (struct_of \<circ> props_of) (property_map_type f) f types types' \<and>
      table_rewritten base (ps_nav_properties \<circ> props_of) (nav_property_map_type f) f types types')"

text \<open>A change of values only, for a renaming that does not concern the types of this table.\<close>

lemma table_step_values:
  assumes ok: "hierarchy_ok base types" and named: "list_all (\<lambda>(q, t). name t = q) types"
    and F: "\<And>t. base (F t) = base t" "\<And>t. name (F t) = name t"
      "\<And>t. struct_of (props_of (F t)) = map gs (struct_of (props_of t))"
      "\<And>t. ps_nav_properties (props_of (F t)) = map gn (ps_nav_properties (props_of t))"
    and keys: "\<And>q. q \<in> fst ` set types \<Longrightarrow> f q = q"
    and gs: "\<And>m. m \<in> members (struct_of \<circ> props_of) types \<Longrightarrow> property_map_type f m = gs m"
    and gn: "\<And>m. m \<in> members (ps_nav_properties \<circ> props_of) types \<Longrightarrow> nav_property_map_type f m = gn m"
  shows "table_step base name props_of f types (map_values F types)"
proof -
  have "table_rewritten base (struct_of \<circ> props_of) gs (\<lambda>q. q) types (map_values F types)"
    using F by (intro rewritten_values hierarchy_wf [OF ok]) simp_all
  then have "table_rewritten base (struct_of \<circ> props_of) (property_map_type f) f types (map_values F types)"
    by (rule rewritten_cong) (simp_all add: gs keys)
  moreover have "table_rewritten base (ps_nav_properties \<circ> props_of) gn (\<lambda>q. q) types (map_values F types)"
    using F by (intro rewritten_values hierarchy_wf [OF ok]) simp_all
  then have "table_rewritten base (ps_nav_properties \<circ> props_of) (nav_property_map_type f) f types (map_values F types)"
    by (rule rewritten_cong) (simp_all add: gn keys)
  moreover have "list_all (\<lambda>(q, t). name t = q) (map_values F types)"
    using named by (auto simp: list_all_iff set_map_values [OF hierarchy_wf [OF ok]] F)
  moreover have "f ` fst ` set types = fst ` set types" using image_cong [OF refl keys, of "fst ` set types"] by simp
  ultimately show ?thesis
    using hierarchy_map_values [of base types F] ok F(1) by (simp add: table_step_def keys_map_values)
qed

lemma table_step_removed:
  assumes ok: "hierarchy_ok base types" and named: "list_all (\<lambda>(q, t). name t = q) types"
    and reps: "empty_replacements candidate is_empty base types reps"
    and F: "\<And>t. base (F t) = map_option (replace reps) (base t)" "\<And>t. name (F t) = name t"
      "\<And>t. struct_of (props_of (F t)) = map gs (struct_of (props_of t))"
      "\<And>t. ps_nav_properties (props_of (F t)) = map gn (ps_nav_properties (props_of t))"
    and empty: "\<And>t. is_empty t \<Longrightarrow> properties_is_empty (props_of t)"
    and gs: "\<And>m. m \<in> members (struct_of \<circ> props_of) types \<Longrightarrow> property_map_type (replace reps) m = gs m"
    and gn: "\<And>m. m \<in> members (ps_nav_properties \<circ> props_of) types \<Longrightarrow> nav_property_map_type (replace reps) m = gn m"
  shows "table_step base name props_of (replace reps) types
    (hm_collect (map (\<lambda>(name, v). (name, F v)) (filter (\<lambda>(name, v). \<not> hm_contains_key reps name) types)))"
    (is "table_step _ _ _ _ _ ?types'")
proof -
  have "table_rewritten base (struct_of \<circ> props_of) gs (replace reps) types ?types'"
    using ok reps by (rule rewritten_removed) (use F empty in \<open>auto simp: struct_of_def properties_is_empty_def\<close>)
  then have "table_rewritten base (struct_of \<circ> props_of) (property_map_type (replace reps)) (replace reps) types ?types'"
    by (rule rewritten_cong) (simp_all add: gs)
  moreover have "table_rewritten base (ps_nav_properties \<circ> props_of) gn (replace reps) types ?types'"
    using ok reps by (rule rewritten_removed) (use F empty in \<open>auto simp: properties_is_empty_def\<close>)
  then have "table_rewritten base (ps_nav_properties \<circ> props_of) (nav_property_map_type (replace reps)) (replace reps) types ?types'"
    by (rule rewritten_cong) (simp_all add: gn)
  moreover note hier = hierarchy_removed [where f = F, OF ok reps F(1)]
  moreover have "replace reps ` fst ` set types \<subseteq> fst ` set ?types'"
    using hier(2) by (auto simp: map_of_eq_None_iff)
  moreover have "list_all (\<lambda>(q, t). name t = q) ?types'" "fst ` set ?types' \<subseteq> fst ` set types"
    using named by (auto simp: list_all_iff set_collect_filter_map [OF hierarchy_wf [OF ok]] F) force
  ultimately show ?thesis by (simp add: table_step_def image_mono)
qed

lemma table_step_renamed:
  assumes ok: "hierarchy_ok base types"
    and F: "\<And>k t. base (F k t) = map_option r (base t)" "\<And>k t. name (F k t) = r k"
      "\<And>k t. struct_of (props_of (F k t)) = map gs (struct_of (props_of t))"
      "\<And>k t. ps_nav_properties (props_of (F k t)) = map gn (ps_nav_properties (props_of t))"
    and r: "r = replace (prune_namepaces_replacements (map fst types))"
    and gs: "\<And>m. m \<in> members (struct_of \<circ> props_of) types \<Longrightarrow> property_map_type r m = gs m"
    and gn: "\<And>m. m \<in> members (ps_nav_properties \<circ> props_of) types \<Longrightarrow> nav_property_map_type r m = gn m"
  shows "table_step base name props_of r types (hm_collect (map (\<lambda>(k, v). (r k, F k v)) types))"
    (is "table_step _ _ _ _ _ ?types'")
proof -
  have names: "distinct (map fst types)" using hierarchy_wf [OF ok] by (simp add: hm_wf_def)
  have inj: "inj_on r (fst ` set types)" using replace_inj [OF names] by (simp add: r)
  have "table_rewritten base (struct_of \<circ> props_of) gs r types ?types'"
    using F by (intro rewritten_renamed ok inj) simp_all
  then have "table_rewritten base (struct_of \<circ> props_of) (property_map_type r) r types ?types'"
    by (rule rewritten_cong) (simp_all add: gs)
  moreover have "table_rewritten base (ps_nav_properties \<circ> props_of) gn r types ?types'"
    using F by (intro rewritten_renamed ok inj) simp_all
  then have "table_rewritten base (ps_nav_properties \<circ> props_of) (nav_property_map_type r) r types ?types'"
    by (rule rewritten_cong) (simp_all add: gn)
  moreover note hierarchy_renamed(1) [where f = F, OF ok inj F(1)]
  moreover have "list_all (\<lambda>(q, t). name t = q) ?types'"
    by (auto simp: list_all_iff set_collect_rename [OF hierarchy_wf [OF ok] inj] F)
  moreover have "fst ` set ?types' = r ` fst ` set types"
    by (force simp: set_collect_rename [OF hierarchy_wf [OF ok] inj])
  moreover have "family ` r ` fst ` set types = family ` fst ` set types"
    by (simp add: image_image r replace_family [OF names])
  ultimately show ?thesis by (simp add: table_step_def)
qed

context folding
begin

lemma table_step_folded:
  assumes ok: "hierarchy_ok base types" and named: "list_all (\<lambda>(q, t). name t = q) types"
    and reps: "fold_replacements base types reps" and t: "folded_table base props_of upd types reps types1"
    and name_upd: "\<And>b ps od v. name (upd b ps od v) = name v"
    and F: "\<And>t. base (F t) = base t" "\<And>t. name (F t) = name t"
      "\<And>t. struct_of (props_of (F t)) = map gs (struct_of (props_of t))"
      "\<And>t. ps_nav_properties (props_of (F t)) = map gn (ps_nav_properties (props_of t))"
    and gs: "\<And>m. m \<in> members (struct_of \<circ> props_of) types \<Longrightarrow> property_map_type (replace reps) m = gs m"
    and gn: "\<And>m. m \<in> members (ps_nav_properties \<circ> props_of) types \<Longrightarrow> nav_property_map_type (replace reps) m = gn m"
  shows "table_step base name props_of (replace reps) types (map_values F types1)"
proof -
  note wf = folded_tableD(1) [OF t] and hier = hierarchy_folded [OF ok reps t]
  have "table_rewritten base (struct_of \<circ> props_of) (gs \<circ> (\<lambda>m. m)) ((\<lambda>q. q) \<circ> replace reps) types (map_values F types1)"
    using F by (intro rewritten_trans [OF rewritten_folded [OF ok reps t struct_of_rev_join] rewritten_values] wf) simp_all
  then have "table_rewritten base (struct_of \<circ> props_of) (property_map_type (replace reps)) (replace reps) types (map_values F types1)"
    by (rule rewritten_cong) (simp_all add: gs)
  moreover have "table_rewritten base (ps_nav_properties \<circ> props_of) (gn \<circ> (\<lambda>m. m)) ((\<lambda>q. q) \<circ> replace reps) types (map_values F types1)"
    using F by (intro rewritten_trans [OF rewritten_folded [OF ok reps t nav_of_rev_join] rewritten_values] wf) simp_all
  then have "table_rewritten base (ps_nav_properties \<circ> props_of) (nav_property_map_type (replace reps)) (replace reps) types (map_values F types1)"
    by (rule rewritten_cong) (simp_all add: gn)
  moreover have "name t' = q \<and> q \<in> fst ` set types" if new: "(q, t') \<in> set types1" for q t'
  proof -
    have "map_of types1 q = Some t'" using new wf by (simp add: hm_wf_get)
    then obtain v where "(q, v) \<in> set types" "folded base props_of upd types reps v t'"
      using folded_tableD(3) [OF t] map_of_SomeD by metis
    then show ?thesis using named by (force simp: folded_def list_all_iff name_upd)
  qed
  then have "list_all (\<lambda>(q, t). name t = q) (map_values F types1)" "fst ` set (map_values F types1) \<subseteq> fst ` set types"
    by (auto simp: list_all_iff set_map_values [OF wf] F(2) keys_map_values)
  moreover have "replace reps ` fst ` set types \<subseteq> fst ` set (map_values F types1)"
    using hier(2) by (auto simp: map_of_eq_None_iff keys_map_values)
  ultimately show ?thesis
    using hierarchy_map_values [of base types1 F, OF hier(1) F(1)] by (simp add: table_step_def image_mono)
qed

end

interpretation complex_fold: folding ct_base ct_properties "\<lambda>base ps od v. v\<lparr>ct_base := base, ct_properties := ps, ct_odata := od\<rparr>"
  by unfold_locales simp_all

interpretation entity_fold: folding et_base et_properties "\<lambda>base ps od v. v\<lparr>et_base := base, et_properties := ps, et_odata := od\<rparr>"
  by unfold_locales simp_all

section \<open>References of actions and annotations\<close>

lemma all_actions_mapped:
  assumes "co_actions c' = map_types_in_actions f (co_actions c)" "a \<in> all_actions c'"
  shows "\<exists>a0 \<in> all_actions c. a = action_map_type f a0"
proof -
  obtain q m where q: "(q, m) \<in> set (co_actions c')" "a \<in> snd ` set m" using assms(2) by (auto simp: all_actions_def)
  from q(1) have "(q, m) \<in> set (map (\<lambda>(qname, actions).
      (f qname, hm_collect (map (\<lambda>(aname, a). (aname, action_map_type f a)) actions))) (co_actions c))"
    unfolding assms(1) map_types_in_actions_def using hm_collect_subset by blast
  then obtain q0 m0 where m0: "(q0, m0) \<in> set (co_actions c)"
    "m = hm_collect (map (\<lambda>(aname, a). (aname, action_map_type f a)) m0)" by auto
  then have "a \<in> snd ` set (map (\<lambda>(aname, a). (aname, action_map_type f a)) m0)"
    using q(2) hm_collect_subset by blast
  then show ?thesis using m0(1) by (force simp: all_actions_def)
qed

lemma param_refs_mapped:
  "param_type_refs (parameter_type_map f p) = f ` param_type_refs p"
  "param_entity_refs (parameter_type_map f p) = f ` param_entity_refs p"
  by (cases p; simp add: property_type_name_def case_prod_beta')+

lemma action_refs_mapped:
  assumes acts: "co_actions c' = map_types_in_actions f (co_actions c)"
  shows "action_refs c' \<subseteq> f ` action_refs c" "action_entity_refs c' \<subseteq> f ` action_entity_refs c"
    "binding_refs c' \<subseteq> f ` binding_refs c"
proof -
  have ret: "ooc_inner ` set_option (ac_return_type (action_map_type f a)) = f ` ooc_inner ` set_option (ac_return_type a)" for a
    by (cases "ac_return_type a") (simp_all add: action_map_type_def)
  have par: "(\<Union>p \<in> set (ac_parameters (action_map_type f a)). param_type_refs (pa_ptype p)) =
      f ` (\<Union>p \<in> set (ac_parameters a). param_type_refs (pa_ptype p))"
    "(\<Union>p \<in> set (ac_parameters (action_map_type f a)). param_entity_refs (pa_ptype p)) =
      f ` (\<Union>p \<in> set (ac_parameters a). param_entity_refs (pa_ptype p))" for a
    by (simp_all add: action_map_type_def parameter_map_type_def param_refs_mapped image_UN)
  have sub: "(\<Union>a \<in> all_actions c'. R a) \<subseteq> f ` (\<Union>a \<in> all_actions c. R a)"
    if R: "\<And>a. R (action_map_type f a) = f ` R a" for R :: "action \<Rightarrow> qname set"
  proof
    fix x assume "x \<in> (\<Union>a \<in> all_actions c'. R a)"
    then obtain a where a: "a \<in> all_actions c'" "x \<in> R a" by blast
    then obtain a0 where "a0 \<in> all_actions c" "a = action_map_type f a0" using all_actions_mapped [OF acts] by blast
    then show "x \<in> f ` (\<Union>a \<in> all_actions c. R a)" using a(2) by (auto simp: R)
  qed
  show "action_refs c' \<subseteq> f ` action_refs c" "action_entity_refs c' \<subseteq> f ` action_entity_refs c"
    unfolding action_refs_def action_entity_refs_def by (rule sub, simp only: ret par image_Un)+
  have keys: "fst ` set (co_actions c') = f ` fst ` set (co_actions c)"
    unfolding acts map_types_in_actions_def hm_keys_collect by (simp add: image_image case_prod_beta')
  have "ac_binding ` all_actions c' \<subseteq> f ` ac_binding ` all_actions c"
    by (auto dest!: all_actions_mapped [OF acts] simp: action_map_type_def)
  then show "binding_refs c' \<subseteq> f ` binding_refs c" unfolding binding_refs_def keys by blast
qed

lemma annotation_refs_mapped: "annotation_refs (annotations_map_type f a) = f ` annotation_refs a"
  by (simp add: annotation_refs_def annotations_map_type_def annotation_map_type_def option.set_map image_Un image_image)

end
