(* ===== verification/Csdl_Lossless.thy ===== *)
theory Csdl_Lossless
  imports Csdl_Passes
begin

text \<open>
  The optimizer on well-formed aggregates: each pass returns, leaves no reference without its type and loses no
  member of a type. The passes are interpretations of one contract, and the contract composes to \<open>optimize\<close>.
\<close>

section \<open>Well-formed aggregates\<close>

definition compiled_ok :: "compiled \<Rightarrow> bool" where
  "compiled_ok c = (compiled_wf c \<and> kinds_apart c \<and> compiled_closed c)"

text \<open>
  Every type of \<open>c\<close> stands in \<open>c'\<close> under its new name, with all of the members it had there or inherited, their
  types under their new names.
\<close>

definition lossless :: "(qname \<Rightarrow> qname) \<Rightarrow> compiled \<Rightarrow> compiled \<Rightarrow> bool" where
  "lossless f c c' =
     (f ` type_names c \<subseteq> type_names c' \<and> f ` entity_names c \<subseteq> entity_names c' \<and>
      keeps ct_base (struct_of \<circ> ct_properties) (property_map_type f) f (co_complex_types c) (co_complex_types c') \<and>
      keeps ct_base (ps_nav_properties \<circ> ct_properties) (nav_property_map_type f) f (co_complex_types c) (co_complex_types c') \<and>
      keeps et_base (struct_of \<circ> et_properties) (property_map_type f) f (co_entity_types c) (co_entity_types c') \<and>
      keeps et_base (ps_nav_properties \<circ> et_properties) (nav_property_map_type f) f (co_entity_types c) (co_entity_types c'))"

lemma lossless_trans:
  assumes "lossless f c c1" "lossless g c1 c2"
  shows "lossless (g \<circ> f) c c2"
proof -
  have "property_map_type (g \<circ> f) = property_map_type g \<circ> property_map_type f"
    "nav_property_map_type (g \<circ> f) = nav_property_map_type g \<circ> nav_property_map_type f"
    by (simp_all add: fun_eq_iff property_map_type_comp nav_map_type_comp)
  moreover have "(g \<circ> f) ` type_names c \<subseteq> type_names c2" "(g \<circ> f) ` entity_names c \<subseteq> entity_names c2"
    using assms unfolding lossless_def image_comp [symmetric] by (meson image_mono order_trans)+
  ultimately show ?thesis using assms unfolding lossless_def by (auto intro: keeps_trans)
qed

section \<open>Closed aggregates stay closed\<close>

lemma image_chain: "A \<subseteq> f ` B \<Longrightarrow> B \<subseteq> C \<Longrightarrow> f ` C \<subseteq> D \<Longrightarrow> A \<subseteq> D"
  by blast

lemma closed_transfer:
  assumes closed: "compiled_closed c"
    and props: "property_refs c' \<subseteq> f ` property_refs c" and navs: "navigation_refs c' \<subseteq> f ` navigation_refs c"
    and acts: "co_actions c' = map_types_in_actions f (co_actions c)"
    and anns: "co_annotations c' = annotations_map_type f (co_annotations c)"
    and creat: "co_creatable_entity_types c' \<subseteq> f ` co_creatable_entity_types c"
    and copies: "fst ` set (co_excerpt_copies c') \<subseteq> f ` fst ` set (co_excerpt_copies c)"
    and complex: "f ` fst ` set (co_complex_types c) \<subseteq> fst ` set (co_complex_types c')"
    and types: "f ` type_names c \<subseteq> type_names c'" and entities: "f ` entity_names c \<subseteq> entity_names c'"
    and simple: "\<And>q. is_simple_type q \<Longrightarrow> f q = q"
  shows "compiled_closed c'"
proof -
  note refs = action_refs_mapped [OF acts]
  have ref: "is_type_ref c q \<Longrightarrow> is_type_ref c' (f q)" for q
    using types simple by (auto simp: is_type_ref_def)
  note cl = closed [unfolded compiled_closed_def]
  have "is_type_ref c' q" if q: "q \<in> property_refs c' \<union> action_refs c'" for q
  proof -
    have "q \<in> f ` property_refs c \<or> q \<in> f ` action_refs c" using q props refs(1) by (meson UnE subsetD)
    then obtain q0 where "q0 \<in> property_refs c \<union> action_refs c" "q = f q0" by (auto elim!: imageE)
    then show ?thesis using cl by (auto intro: ref)
  qed
  moreover have "annotation_refs (co_annotations c') \<subseteq> type_names c'"
    unfolding anns annotation_refs_mapped using cl by (intro image_chain [OF order_refl _ types]) simp
  moreover have "binding_refs c' \<subseteq> fst ` set (co_complex_types c')" 
    using cl by (intro image_chain [OF refs(3) _ complex]) simp
  moreover have "navigation_refs c' \<subseteq> entity_names c'" "action_entity_refs c' \<subseteq> entity_names c'"
    "co_creatable_entity_types c' \<subseteq> entity_names c'" "fst ` set (co_excerpt_copies c') \<subseteq> entity_names c'"
    using cl by (intro image_chain [OF navs _ entities] image_chain [OF refs(2) _ entities]
        image_chain [OF creat _ entities] image_chain [OF copies _ entities]; simp)+
  ultimately show ?thesis by (simp add: compiled_closed_def)
qed

lemma kinds_apart_transfer:
  assumes apart: "kinds_apart c"
    and ct: "family ` fst ` set (co_complex_types c') \<subseteq> family ` fst ` set (co_complex_types c)"
    and en: "family ` fst ` set (co_enum_types c') \<subseteq> family ` fst ` set (co_enum_types c)"
    and td: "family ` fst ` set (co_type_definitions c') \<subseteq> family ` fst ` set (co_type_definitions c)"
    and et: "family ` entity_names c' \<subseteq> family ` entity_names c"
  shows "kinds_apart c'"
proof -
  have sub: "family ` type_names c' \<subseteq> family ` type_names c"
    unfolding type_names_def image_Un by (intro Un_mono ct en td)
  have roots: "(\<forall>q \<in> S. ns_root (qn_namespace q) \<noteq> [''Edm'']) \<longleftrightarrow> [''Edm''] \<notin> fst ` family ` S" for S
    by (simp add: family_def image_image image_iff) metis
  have "fst ` family ` (type_names c' \<union> entity_names c') \<subseteq> fst ` family ` (type_names c \<union> entity_names c)"
    using image_mono [OF Un_mono [OF sub et], of fst] by (simp add: image_Un)
  then have "\<forall>q \<in> type_names c' \<union> entity_names c'. ns_root (qn_namespace q) \<noteq> [''Edm'']"
    using apart unfolding kinds_apart_def roots by (meson subsetD)
  moreover have disj: "A' \<subseteq> A \<Longrightarrow> B' \<subseteq> B \<Longrightarrow> A \<inter> B = {} \<Longrightarrow> A' \<inter> B' = {}"
    for A A' B B' :: "(namespace \<times> ident) set" by blast
  note ap = apart [unfolded kinds_apart_def]
  have "family ` fst ` set (co_complex_types c') \<inter> family ` fst ` set (co_enum_types c') = {}"
    using ap by (intro disj [OF ct en]) simp
  moreover have "family ` fst ` set (co_complex_types c') \<inter> family ` fst ` set (co_type_definitions c') = {}"
    using ap by (intro disj [OF ct td]) simp
  moreover have "family ` fst ` set (co_enum_types c') \<inter> family ` fst ` set (co_type_definitions c') = {}"
    using ap by (intro disj [OF en td]) simp
  moreover have "family ` type_names c' \<inter> family ` entity_names c' = {}"
    using ap by (intro disj [OF sub et]) simp
  ultimately show ?thesis by (simp add: kinds_apart_def)
qed

lemma table_step_family:
  "table_step base name props_of f types types' \<Longrightarrow> family ` fst ` set types' \<subseteq> family ` fst ` set types"
  unfolding table_step_def by (elim conjE)

text \<open>What a pass has to provide.\<close>

lemma pass_ok:
  assumes ok: "compiled_ok c"
    and ct: "table_step ct_base ct_name ct_properties f (co_complex_types c) (co_complex_types c')"
    and et: "table_step et_base et_name et_properties f (co_entity_types c) (co_entity_types c')"
    and wf: "hm_wf (co_enum_types c')" "hm_wf (co_type_definitions c')" "hm_wf (co_excerpt_copies c')"
    and en: "f ` fst ` set (co_enum_types c) \<subseteq> fst ` set (co_enum_types c')"
      "family ` fst ` set (co_enum_types c') \<subseteq> family ` fst ` set (co_enum_types c)"
    and td: "f ` fst ` set (co_type_definitions c) \<subseteq> fst ` set (co_type_definitions c')"
      "family ` fst ` set (co_type_definitions c') \<subseteq> family ` fst ` set (co_type_definitions c)"
    and acts: "co_actions c' = map_types_in_actions f (co_actions c)"
    and anns: "co_annotations c' = annotations_map_type f (co_annotations c)"
    and creat: "co_creatable_entity_types c' \<subseteq> f ` co_creatable_entity_types c"
    and copies: "fst ` set (co_excerpt_copies c') \<subseteq> f ` fst ` set (co_excerpt_copies c)"
    and simple: "\<And>q. is_simple_type q \<Longrightarrow> f q = q"
  shows "compiled_ok c' \<and> lossless f c c'"
proof -
  note t = ct [unfolded table_step_def] and e = et [unfolded table_step_def]
  have complex: "f ` fst ` set (co_complex_types c) \<subseteq> fst ` set (co_complex_types c')" using t by simp
  then have types: "f ` type_names c \<subseteq> type_names c'"
    unfolding type_names_def image_Un by (intro Un_mono en(1) td(1))
  have entities: "f ` entity_names c \<subseteq> entity_names c'" using e by (simp add: entity_names_def)
  have p: "prop_ref ` M' \<subseteq> f ` prop_ref ` M" if "M' \<subseteq> property_map_type f ` M" for M M'
    using that by (force simp: pass_simps)
  have n: "\<Union> (nav_refs ` M') \<subseteq> f ` \<Union> (nav_refs ` M)" if "M' \<subseteq> nav_property_map_type f ` M" for M M'
    using that by (force simp: pass_simps)
  have refs: "property_refs c' \<subseteq> f ` property_refs c" "navigation_refs c' \<subseteq> f ` navigation_refs c"
    unfolding property_refs_members navigation_refs_members using t e
    by (intro p n; unfold image_Un; intro Un_mono; simp add: table_rewritten_def)+
  have "compiled_closed c'"
    by (rule closed_transfer [OF _ refs acts anns creat copies complex types entities])
      (use ok simple in \<open>simp_all add: compiled_ok_def\<close>)
  moreover have apart: "kinds_apart c" using ok by (simp add: compiled_ok_def)
  have "kinds_apart c'"
    by (rule kinds_apart_transfer [OF apart table_step_family [OF ct] en(2) td(2)
        table_step_family [OF et, folded entity_names_def]])
  moreover have "hm_wf (co_actions c')" by (simp add: acts map_types_in_actions_def)
  then have "compiled_wf c'" using t e wf by (simp add: compiled_wf_def)
  moreover have "lossless f c c'" using t e types entities by (simp add: lossless_def table_rewritten_def)
  ultimately show ?thesis by (simp add: compiled_ok_def)
qed

section \<open>Renaming one kind\<close>

lemma kinds_disjoint:
  assumes "kinds_apart c"
  shows "fst ` set (co_complex_types c) \<inter> fst ` set (co_enum_types c) = {}"
    "fst ` set (co_complex_types c) \<inter> fst ` set (co_type_definitions c) = {}"
    "fst ` set (co_enum_types c) \<inter> fst ` set (co_type_definitions c) = {}"
    "type_names c \<inter> entity_names c = {}"
    "is_simple_type q \<Longrightarrow> q \<notin> type_names c \<union> entity_names c"
proof -
  have fam: "A \<inter> B = {}" if "family ` A \<inter> family ` B = {}" for A B using that by blast
  note apart = assms [unfolded kinds_apart_def]
  show "fst ` set (co_complex_types c) \<inter> fst ` set (co_enum_types c) = {}"
    "fst ` set (co_complex_types c) \<inter> fst ` set (co_type_definitions c) = {}"
    "fst ` set (co_enum_types c) \<inter> fst ` set (co_type_definitions c) = {}"
    "type_names c \<inter> entity_names c = {}"
    using apart by (intro fam; simp)+
  have "\<forall>q \<in> type_names c \<union> entity_names c. ns_root (qn_namespace q) \<noteq> [''Edm'']" using apart by simp
  then show "is_simple_type q \<Longrightarrow> q \<notin> type_names c \<union> entity_names c" using is_simple_root [of q] by metis
qed

text \<open>A renaming of types leaves navigation alone, and one of entities leaves structural members alone.\<close>

lemma nav_member_fixed:
  assumes "compiled_ok c" "\<And>q. q \<in> entity_names c \<Longrightarrow> f q = q"
    "m \<in> members (ps_nav_properties \<circ> ct_properties) (co_complex_types c) \<union>
         members (ps_nav_properties \<circ> et_properties) (co_entity_types c)"
  shows "nav_property_map_type f m = m"
proof (rule nav_map_type_id)
  fix q assume "q \<in> nav_refs m"
  then have "q \<in> navigation_refs c" using assms(3) unfolding navigation_refs_members by blast
  then show "f q = q" using assms(1,2) by (auto simp: compiled_ok_def compiled_closed_def)
qed

lemma struct_member_fixed:
  assumes "compiled_ok c" "\<And>q. is_type_ref c q \<Longrightarrow> f q = q"
    "m \<in> members (struct_of \<circ> ct_properties) (co_complex_types c) \<union>
         members (struct_of \<circ> et_properties) (co_entity_types c)"
  shows "property_map_type f m = m"
proof (rule property_map_type_id)
  have "prop_ref m \<in> property_refs c" using assms(3) unfolding property_refs_members by blast
  then show "f (prop_ref m) = prop_ref m" using assms(1,2) by (auto simp: compiled_ok_def compiled_closed_def)
qed

lemma compiled_okD:
  assumes "compiled_ok c"
  shows "hierarchy_ok ct_base (co_complex_types c)" "hierarchy_ok et_base (co_entity_types c)"
    "list_all (\<lambda>(q, t). ct_name t = q) (co_complex_types c)" "list_all (\<lambda>(q, t). et_name t = q) (co_entity_types c)"
    "hm_wf (co_enum_types c)" "hm_wf (co_type_definitions c)" "hm_wf (co_excerpt_copies c)" "kinds_apart c"
  using assms by (simp_all add: compiled_ok_def compiled_wf_def)

text \<open>The tables of the other kinds, with structural or with navigation members renamed.\<close>

lemma step_structs:
  assumes ok: "compiled_ok c" and ent: "\<And>q. q \<in> entity_names c \<Longrightarrow> f q = q"
    and g: "\<And>p. erase_info (g p) = property_map_type f (erase_info p)"
  shows "table_step et_base et_name et_properties f (co_entity_types c) (map_values (et_map_properties g) (co_entity_types c))"
    "(\<And>q. q \<in> fst ` set (co_complex_types c) \<Longrightarrow> f q = q) \<Longrightarrow>
     table_step ct_base ct_name ct_properties f (co_complex_types c) (map_values (ct_map_properties g) (co_complex_types c))"
proof -
  note okD = compiled_okD [OF ok] and nav = nav_member_fixed [OF ok ent]
  have structs: "struct_of (et_properties (et_map_properties g t)) = map (property_map_type f) (struct_of (et_properties t))"
    "struct_of (ct_properties (ct_map_properties g u)) = map (property_map_type f) (struct_of (ct_properties u))" for t u
    by (simp_all add: struct_of_def et_map_properties_def ct_map_properties_def g)
  show "table_step et_base et_name et_properties f (co_entity_types c) (map_values (et_map_properties g) (co_entity_types c))"
    using okD(2,4) by (rule table_step_values [where gs = "property_map_type f" and gn = "\<lambda>m. m"])
      (simp_all only: structs ent [unfolded entity_names_def] nav UnI2, simp_all add: pass_simps)
  show "table_step ct_base ct_name ct_properties f (co_complex_types c) (map_values (ct_map_properties g) (co_complex_types c))"
    if "\<And>q. q \<in> fst ` set (co_complex_types c) \<Longrightarrow> f q = q"
    using okD(1,3) by (rule table_step_values [where gs = "property_map_type f" and gn = "\<lambda>m. m"])
      (simp_all only: structs that nav UnI1, simp_all add: pass_simps)
qed

lemma step_navs:
  assumes ok: "compiled_ok c" and ref: "\<And>q. is_type_ref c q \<Longrightarrow> f q = q"
  shows "table_step ct_base ct_name ct_properties f (co_complex_types c)
    (map_values (ct_map_nav_properties (nav_property_map_type f)) (co_complex_types c))"
proof -
  note okD = compiled_okD [OF ok] and struct = struct_member_fixed [OF ok ref]
  have keys: "f q = q" if "q \<in> fst ` set (co_complex_types c)" for q
    using that by (intro ref) (simp add: is_type_ref_def type_names_def)
  from okD(1,3) show ?thesis
    by (rule table_step_values [where gs = "\<lambda>m. m" and gn = "nav_property_map_type f"])
      (simp_all only: keys struct UnI1, simp_all add: pass_simps)
qed

section \<open>Forced updates\<close>

lemma update_ancestors_keys:
  assumes ok: "hierarchy_ok base types" and a: "a \<in> update_ancestors types gen base"
  shows "a \<in> fst ` set types"
proof -
  obtain q t b where t: "(q, t) \<in> set types" "base t = Some b" "(b, a) \<in> (base_rel base types)\<^sup>*"
    using a by (auto simp: update_ancestors_def)
  then have "map_of types q = Some t" using ok by (simp add: hm_wf_get)
  then have "map_of types b \<noteq> None" using hierarchy_base [OF ok _ t(2)] by auto
  with t(3) have "map_of types a \<noteq> None"
    by (induction rule: rtrancl_induct) (use ok in \<open>auto simp: hierarchy_ok_def\<close>)
  then show ?thesis by (simp add: map_of_eq_None_iff)
qed

end
