(* ===== verification/Csdl_Optimize.thy ===== *)
theory Csdl_Optimize
  imports Csdl_Lossless
begin

text \<open>
  The contract of a pass, \<open>optimizer_pass\<close>, proved for the eight passes of the optimizer and for their composition
  \<open>optimize\<close>: on an aggregate without dangling references it returns one without dangling references, in which
  every type has its members.
\<close>

section \<open>The contract of a pass\<close>

locale optimizer_pass =
  fixes pass :: "compiled \<Rightarrow> compiled outcome"
  assumes pass_ok: "compiled_ok c \<Longrightarrow> \<exists>c' f. pass c = Some c' \<and> compiled_ok c' \<and> lossless f c c'"
begin

lemma returns: "compiled_ok c \<Longrightarrow> \<exists>c'. pass c = Some c'"
  using pass_ok by blast

lemma then_pass:
  assumes "optimizer_pass next"
  shows "optimizer_pass (\<lambda>c. Option.bind (pass c) next)"
proof
  fix c assume "compiled_ok c"
  then obtain c1 f where c1: "pass c = Some c1" "compiled_ok c1" "lossless f c c1" using pass_ok by blast
  then obtain c2 g where "next c1 = Some c2" "compiled_ok c2" "lossless g c1 c2"
    using optimizer_pass.pass_ok [OF assms] by blast
  then have "Option.bind (pass c) next = Some c2 \<and> compiled_ok c2 \<and> lossless (g \<circ> f) c c2"
    using c1 lossless_trans by simp
  then show "\<exists>c' f. Option.bind (pass c) next = Some c' \<and> compiled_ok c' \<and> lossless f c c'" by blast
qed

end

section \<open>Passes over one kind of types\<close>

lemma replace_outside: "(\<And>q p. map_of reps q = Some p \<Longrightarrow> q \<in> K) \<Longrightarrow> q \<notin> K \<Longrightarrow> replace reps q = q"
  by (cases "map_of reps q") (auto simp: replace_def)

lemma fixed_keys: "(\<And>q. q \<in> K \<Longrightarrow> f q = q) \<Longrightarrow> f ` K \<subseteq> K"
  by auto

lemma disjoint_fixed: "A \<inter> B = {} \<Longrightarrow> (\<And>q. q \<notin> A \<Longrightarrow> f q = q) \<Longrightarrow> q \<in> B \<Longrightarrow> f q = q"
  by blast

lemma hm_keys_None: "map_of m q \<noteq> None \<longleftrightarrow> q \<in> fst ` set m"
  by (auto simp: map_of_eq_None_iff)

text \<open>A renaming of the names \<open>K\<close> only, seen from the other kinds.\<close>

lemma fixed_kinds:
  assumes apart: "kinds_apart c" and out: "\<And>q. q \<notin> K \<Longrightarrow> f q = q"
  shows "K \<subseteq> type_names c \<union> entity_names c \<Longrightarrow> is_simple_type q \<Longrightarrow> f q = q"
    "K \<subseteq> type_names c \<Longrightarrow> q \<in> entity_names c \<Longrightarrow> f q = q"
    "K \<subseteq> entity_names c \<Longrightarrow> is_type_ref c q \<Longrightarrow> f q = q"
proof -
  note disjoint = kinds_disjoint(4,5) [OF apart]
  show "K \<subseteq> type_names c \<union> entity_names c \<Longrightarrow> is_simple_type q \<Longrightarrow> f q = q" using disjoint(2) by (blast intro: out)
  show "K \<subseteq> type_names c \<Longrightarrow> q \<in> entity_names c \<Longrightarrow> f q = q" using disjoint(1) by (blast intro: out)
  show "K \<subseteq> entity_names c \<Longrightarrow> is_type_ref c q \<Longrightarrow> f q = q"
    unfolding is_type_ref_def using disjoint by (blast intro: out)
qed

lemma kinds_subset:
  "fst ` set (co_complex_types c) \<subseteq> type_names c" "fst ` set (co_enum_types c) \<subseteq> type_names c"
  "fst ` set (co_type_definitions c) \<subseteq> type_names c"
  by (auto simp: type_names_def)

lemma entity_refs_fixed:
  assumes ok: "compiled_ok c" and fixed: "\<And>q. q \<in> entity_names c \<Longrightarrow> f q = q"
  shows "co_creatable_entity_types c \<subseteq> f ` co_creatable_entity_types c"
    "fst ` set (co_excerpt_copies c) \<subseteq> f ` fst ` set (co_excerpt_copies c)"
proof -
  have sub: "A \<subseteq> f ` A" if "A \<subseteq> entity_names c" for A
    using that fixed by (force simp: image_iff)
  show "co_creatable_entity_types c \<subseteq> f ` co_creatable_entity_types c"
    "fst ` set (co_excerpt_copies c) \<subseteq> f ` fst ` set (co_excerpt_copies c)"
    using ok by (intro sub; simp add: compiled_ok_def compiled_closed_def)+
qed

lemma complex_pass:
  assumes ok: "compiled_ok c" and step: "table_step ct_base ct_name ct_properties f (co_complex_types c) types'"
    and out: "\<And>q. q \<notin> fst ` set (co_complex_types c) \<Longrightarrow> f q = q"
    and g: "\<And>p. erase_info (g p) = property_map_type f (erase_info p)"
  defines "c' \<equiv> c\<lparr>co_complex_types := types', co_entity_types := map_values (et_map_properties g) (co_entity_types c),
    co_annotations := annotations_map_type f (co_annotations c), co_actions := map_types_in_actions f (co_actions c)\<rparr>"
  shows "compiled_ok c' \<and> lossless f c c'"
proof -
  note okD = compiled_okD [OF ok]
  note disjoint = kinds_disjoint(1,2) [OF okD(8)]
  note fixed = disjoint_fixed [OF disjoint(1) out] disjoint_fixed [OF disjoint(2) out]
        fixed_kinds(2) [OF okD(8) out kinds_subset(1)] fixed_kinds(1) [OF okD(8) out le_supI1 [OF kinds_subset(1)]]
  show ?thesis
    using ok step step_structs(1) [OF ok fixed(3) g] okD(5-7) fixed_keys [OF fixed(1)] fixed_keys [OF fixed(2)]
      entity_refs_fixed [OF ok fixed(3)] fixed(4)
    by (intro pass_ok) (simp_all add: c'_def)
qed

lemma entity_pass:
  assumes ok: "compiled_ok c" and step: "table_step et_base et_name et_properties f (co_entity_types c) types'"
    and out: "\<And>q. q \<notin> fst ` set (co_entity_types c) \<Longrightarrow> f q = q"
    and copies: "hm_wf copies" "fst ` set copies \<subseteq> f ` fst ` set (co_excerpt_copies c)"
  defines "c' \<equiv> c\<lparr>co_entity_types := types', co_creatable_entity_types := f ` co_creatable_entity_types c,
    co_excerpt_copies := copies,
    co_complex_types := map_values (ct_map_nav_properties (nav_property_map_type f)) (co_complex_types c),
    co_annotations := annotations_map_type f (co_annotations c), co_actions := map_types_in_actions f (co_actions c)\<rparr>"
  shows "compiled_ok c' \<and> lossless f c c'"
proof -
  note okD = compiled_okD [OF ok]
  have ref: "is_type_ref c q \<Longrightarrow> f q = q" for q
    using fixed_kinds(3) [OF okD(8) out] by (simp add: entity_names_def)
  have fixed: "q \<in> fst ` set (co_enum_types c) \<Longrightarrow> f q = q" "q \<in> fst ` set (co_type_definitions c) \<Longrightarrow> f q = q"
    "is_simple_type q \<Longrightarrow> f q = q" for q
    using kinds_subset(2,3) [of c] by (intro ref; auto simp: is_type_ref_def)+
  show ?thesis
    using ok step step_navs [OF ok ref] okD(5,6) fixed_keys [OF fixed(1)] fixed_keys [OF fixed(2)] fixed(3) copies
    by (intro pass_ok) (simp_all add: c'_def)
qed

text \<open>Enumerations and type definitions, which have no members.\<close>

lemma simple_keys:
  assumes "hm_wf m" "r = replace (prune_namepaces_replacements (map fst m))"
  shows "fst ` set (hm_collect (map (\<lambda>(k, v). (r k, F k v)) m)) = r ` fst ` set m"
    "family ` r ` fst ` set m = family ` fst ` set m"
  using assms by (simp_all add: hm_keys_collect image_image case_prod_beta' replace_family hm_wf_def)

lemma prune_outside:
  "hm_wf m \<Longrightarrow> q \<notin> fst ` set m \<Longrightarrow> replace (prune_namepaces_replacements (map fst m)) q = q"
  using prune_replacements_get(1) [of "map fst m"] by (intro replace_outside [of _ "fst ` set m"]) (auto simp: hm_wf_def)

lemma enum_pass:
  assumes ok: "compiled_ok c"
  shows "\<exists>f. compiled_ok (prune_enum_types c) \<and> lossless f c (prune_enum_types c)"
proof -
  note okD = compiled_okD [OF ok]
  define f where "f = replace (prune_namepaces_replacements (map fst (co_enum_types c)))"
  note out = prune_outside [OF okD(5), folded f_def]
    and keys = simple_keys(1) [where F = "\<lambda>k t. t\<lparr>en_name := f k\<rparr>", OF okD(5) f_def]
      simple_keys(2) [OF okD(5) f_def]
  note fixed = disjoint_fixed [OF kinds_disjoint(1) [OF okD(8), unfolded Int_commute [of "fst ` set (co_complex_types c)"]] out]
        disjoint_fixed [OF kinds_disjoint(3) [OF okD(8)] out]
        fixed_kinds(2) [OF okD(8) out kinds_subset(2)] fixed_kinds(1) [OF okD(8) out le_supI1 [OF kinds_subset(2)]]
  have "compiled_ok (prune_enum_types c) \<and> lossless f c (prune_enum_types c)"
    using ok step_structs [OF ok fixed(3) erase_map_type] fixed(1) okD(6,7) fixed_keys [OF fixed(2)] fixed(4)
      entity_refs_fixed [OF ok fixed(3)] keys
    by (intro pass_ok) (simp_all add: prune_enum_types_def Let_def f_def [symmetric])
  then show ?thesis by blast
qed

lemma type_definition_pass:
  assumes ok: "compiled_ok c"
  shows "\<exists>f. compiled_ok (prune_type_definitions c) \<and> lossless f c (prune_type_definitions c)"
proof -
  note okD = compiled_okD [OF ok]
  define f where "f = replace (prune_namepaces_replacements (map fst (co_type_definitions c)))"
  note out = prune_outside [OF okD(6), folded f_def]
    and keys = simple_keys(1) [where F = "\<lambda>k t. t\<lparr>td_name := f k\<rparr>", OF okD(6) f_def]
      simple_keys(2) [OF okD(6) f_def]
  note disjoint = kinds_disjoint(2,3) [OF okD(8), unfolded Int_commute [of _ "fst ` set (co_type_definitions c)"]]
  note fixed = disjoint_fixed [OF disjoint(1) out] disjoint_fixed [OF disjoint(2) out]
    fixed_kinds(2) [OF okD(8) out kinds_subset(3)] fixed_kinds(1) [OF okD(8) out le_supI1 [OF kinds_subset(3)]]
  have "compiled_ok (prune_type_definitions c) \<and> lossless f c (prune_type_definitions c)"
    using ok step_structs [OF ok fixed(3) erase_map_type] fixed(1) okD(5,7) fixed_keys [OF fixed(2)] fixed(4)
      entity_refs_fixed [OF ok fixed(3)] keys
    by (intro pass_ok) (simp_all add: prune_type_definitions_def Let_def f_def [symmetric])
  then show ?thesis by blast
qed

section \<open>The passes\<close>

text \<open>What one pass over a kind replaces, in terms of the tables.\<close>

lemma fold_outside:
  assumes "hierarchy_ok base types" "fold_replacements base types reps" "q \<notin> fst ` set types"
  shows "replace reps q = q"
proof (rule replace_outside [OF _ assms(3)])
  fix q p assume "map_of reps q = Some p"
  then have "(p, q) \<in> (base_rel base types)\<^sup>+" using assms(2) by (auto simp: fold_replacements_def)
  then obtain y where "(y, q) \<in> base_rel base types" by (blast elim: tranclE)
  then obtain t where "map_of types y = Some t" "base t = Some q" by (auto simp: base_rel_def)
  then obtain u where "map_of types q = Some u" using hierarchy_base [OF assms(1)] by blast
  then show "q \<in> fst ` set types" by (force dest: map_of_SomeD)
qed

lemma removed_outside:
  assumes "hierarchy_ok base types" "empty_replacements candidate is_empty base types reps" "q \<notin> fst ` set types"
  shows "replace reps q = q"
  using empty_replacements_facts(4) [OF assms(1,2)]
  by (intro replace_outside [OF _ assms(3)]) (force dest: map_of_SomeD)

lemma merge_to_keys: "fst ` set (excerpt_copies_merge_to m name copies) = insert name (fst ` set m)"
  by (simp add: excerpt_copies_merge_to_def hm_simps split: option.splits)

lemma merge_excerpt_copies_keys:
  "hm_wf (merge_excerpt_copies f copies)" "fst ` set (merge_excerpt_copies f copies) = f ` fst ` set copies"
proof -
  show "hm_wf (merge_excerpt_copies f copies)"
    unfolding merge_excerpt_copies_def
    by (rule hm_wf_fold) (auto simp: excerpt_copies_merge_to_def split: prod.splits option.splits)
  have "fst ` set (fold (\<lambda>(name, copies) acc. excerpt_copies_merge_to acc (f name) copies) xs m) =
      f ` fst ` set xs \<union> fst ` set m" for xs m
  proof (induction xs arbitrary: m)
    case (Cons x xs)
    show ?case by (cases x) (simp add: Cons.IH merge_to_keys)
  qed simp
  then show "fst ` set (merge_excerpt_copies f copies) = f ` fst ` set copies"
    by (simp add: merge_excerpt_copies_def)
qed

interpretation remove_complex: optimizer_pass "\<lambda>c. remove_empty_complex_types c config" for config
proof
  fix c assume ok: "compiled_ok c"
  note okD = compiled_okD [OF ok]
  obtain reps where reps: "collect_ct_replacements c = Some reps"
    "empty_replacements (\<lambda>_. True) ct_is_empty ct_base (co_complex_types c) reps"
    unfolding collect_ct_replacements_def
    using collect_replacements_eq [OF okD(1), of ct_name] okD(3) by (fastforce simp: list_all_iff)
  note out = removed_outside [OF okD(1) reps(2)]
  have navs: "nav_property_map_type (replace reps) m = m"
    if "m \<in> members (ps_nav_properties \<circ> ct_properties) (co_complex_types c)" for m
    using that nav_member_fixed [OF ok fixed_kinds(2) [OF okD(8) out kinds_subset(1)]] by simp
  have "table_step ct_base ct_name ct_properties (replace reps) (co_complex_types c)
    (hm_collect (map (\<lambda>(name, v). (name, ct_map_base (replace reps) (ct_map_properties (property_map_type (replace reps)) v)))
      (filter (\<lambda>(name, v). \<not> hm_contains_key reps name) (co_complex_types c))))"
    using okD(1,3) reps(2)
    by (rule table_step_removed [where gs = "property_map_type (replace reps)" and gn = "\<lambda>m. m"])
      (simp_all add: pass_simps ct_is_empty_def navs)
  from complex_pass [OF ok this out erase_map_type]
  show "\<exists>c' f. remove_empty_complex_types c config = Some c' \<and> compiled_ok c' \<and> lossless f c c'"
    by (auto simp: remove_empty_complex_types_def reps(1) Let_def)
qed

interpretation remove_entity: optimizer_pass "\<lambda>c. remove_empty_entity_types c config" for config
proof
  fix c assume ok: "compiled_ok c"
  note okD = compiled_okD [OF ok]
  let ?candidate = "\<lambda>v. \<not> filter_matches (oc_never_prune config) (et_name v)"
  obtain reps where reps: "collect_et_replacements c config = Some reps"
    "empty_replacements ?candidate et_is_empty et_base (co_entity_types c) reps"
    unfolding collect_et_replacements_def
    using collect_replacements_eq [OF okD(2), of et_name ?candidate et_is_empty] okD(4) by (fastforce simp: list_all_iff)
  note out = removed_outside [OF okD(2) reps(2)]
  have structs: "property_map_type (replace reps) m = m"
    if "m \<in> members (struct_of \<circ> et_properties) (co_entity_types c)" for m
    using that struct_member_fixed [OF ok fixed_kinds(3) [OF okD(8) out]] by (simp add: entity_names_def)
  have "table_step et_base et_name et_properties (replace reps) (co_entity_types c)
    (hm_collect (map (\<lambda>(name, v). (name, et_map_base (replace reps) (et_map_nav_properties (nav_property_map_type (replace reps)) v)))
      (filter (\<lambda>(name, v). \<not> hm_contains_key reps name) (co_entity_types c))))"
    using okD(2,4) reps(2)
    by (rule table_step_removed [where gs = "\<lambda>m. m" and gn = "nav_property_map_type (replace reps)"])
      (simp_all add: pass_simps et_is_empty_def structs)
  from entity_pass [OF ok this out merge_excerpt_copies_keys(1) eq_refl [OF merge_excerpt_copies_keys(2)]]
  show "\<exists>c' f. remove_empty_entity_types c config = Some c' \<and> compiled_ok c' \<and> lossless f c c'"
    by (auto simp: remove_empty_entity_types_def reps(1) Let_def)
qed

interpretation fold_complex: optimizer_pass "\<lambda>c. prune_complex_type_inheritance c config" for config
proof
  fix c assume ok: "compiled_ok c"
  note okD = compiled_okD [OF ok]
  let ?scp = "single_child_parents (\<lambda>_. True) (child_counts ct_base ct_name (co_complex_types c))"
  have "single_children ct_base (co_complex_types c) ?scp"
    using okD(3) by (intro single_child_parents_ok(1) [OF hierarchy_wf [OF okD(1)]]) (auto simp: list_all_iff)
  then obtain reps where reps: "child_replacements ?scp = Some reps" "fold_replacements ct_base (co_complex_types c) reps"
    using child_replacements_ok [OF okD(1)] by blast
  let ?types = "absorb_complex_types (filter (\<lambda>(name, _). hm_contains_key reps name) (co_complex_types c))
    (filter (\<lambda>(name, _). \<not> hm_contains_key reps name) (co_complex_types c))"
  let ?retype = "retype_property reps (hm_collect (map (\<lambda>(name, v). (name, type_info_complex_type v)) ?types))"
  note out = fold_outside [OF okD(1) reps(2)]
  have navs: "nav_property_map_type (replace reps) m = m"
    if "m \<in> members (ps_nav_properties \<circ> ct_properties) (co_complex_types c)" for m
    using that nav_member_fixed [OF ok fixed_kinds(2) [OF okD(8) out kinds_subset(1)]] by simp
  have "table_step ct_base ct_name ct_properties (replace reps) (co_complex_types c)
      (map_values (ct_map_properties ?retype) ?types)"
    unfolding absorb_complex_types_def using okD(1,3) reps(2) absorb_types_table [OF okD(1) reps(2)]
    by (rule complex_fold.table_step_folded [where gs = "property_map_type (replace reps)" and gn = "\<lambda>m. m"])
      (simp_all add: pass_simps navs)
  from complex_pass [where g = ?retype, OF ok this out erase_retype]
  show "\<exists>c' f. prune_complex_type_inheritance c config = Some c' \<and> compiled_ok c' \<and> lossless f c c'"
    by (auto simp: prune_complex_type_inheritance_def reps(1) Let_def)
qed

interpretation fold_entity: optimizer_pass "\<lambda>c. prune_entity_type_inheritance c config" for config
proof
  fix c assume ok: "compiled_ok c"
  note okD = compiled_okD [OF ok]
  let ?scp = "single_child_parents (prunable_entity c config) (child_counts et_base et_name (co_entity_types c))"
  have "single_children et_base (co_entity_types c) ?scp"
    using okD(4) by (intro single_child_parents_ok(1) [OF hierarchy_wf [OF okD(2)]]) (auto simp: list_all_iff)
  then obtain reps where reps: "child_replacements ?scp = Some reps" "fold_replacements et_base (co_entity_types c) reps"
    using child_replacements_ok [OF okD(2)] by blast
  let ?types = "absorb_entity_types (filter (\<lambda>(name, _). hm_contains_key reps name) (co_entity_types c))
    (filter (\<lambda>(name, _). \<not> hm_contains_key reps name) (co_entity_types c))"
  note out = fold_outside [OF okD(2) reps(2)]
  have structs: "property_map_type (replace reps) m = m"
    if "m \<in> members (struct_of \<circ> et_properties) (co_entity_types c)" for m
    using that struct_member_fixed [OF ok fixed_kinds(3) [OF okD(8) out]] by (simp add: entity_names_def)
  have "table_step et_base et_name et_properties (replace reps) (co_entity_types c)
      (map_values (et_map_nav_properties (nav_property_map_type (replace reps))) ?types)"
    unfolding absorb_entity_types_def using okD(2,4) reps(2) absorb_types_table [OF okD(2) reps(2)]
    by (rule entity_fold.table_step_folded [where gs = "\<lambda>m. m" and gn = "nav_property_map_type (replace reps)"])
      (simp_all add: pass_simps structs)
  from entity_pass [OF ok this out merge_excerpt_copies_keys(1) eq_refl [OF merge_excerpt_copies_keys(2)]]
  show "\<exists>c' f. prune_entity_type_inheritance c config = Some c' \<and> compiled_ok c' \<and> lossless f c c'"
    by (auto simp: prune_entity_type_inheritance_def reps(1) Let_def)
qed

interpretation drop_enum: optimizer_pass "\<lambda>c. Some (prune_enum_types c)"
  by unfold_locales (use enum_pass in blast)

interpretation drop_type_definition: optimizer_pass "\<lambda>c. Some (prune_type_definitions c)"
  by unfold_locales (use type_definition_pass in blast)

interpretation drop_complex: optimizer_pass "\<lambda>c. Some (prune_complex_types c)"
proof
  fix c assume ok: "compiled_ok c"
  note okD = compiled_okD [OF ok]
  define f where "f = replace (prune_namepaces_replacements (map fst (co_complex_types c)))"
  note out = prune_outside [OF hierarchy_wf [OF okD(1)], folded f_def]
  have navs: "nav_property_map_type f m = m"
    if "m \<in> members (ps_nav_properties \<circ> ct_properties) (co_complex_types c)" for m
    using that nav_member_fixed [OF ok fixed_kinds(2) [OF okD(8) out kinds_subset(1)]] by simp
  have "table_step ct_base ct_name ct_properties f (co_complex_types c)
    (hm_collect (map (\<lambda>(k, v). (f k, ct_map_base f (ct_map_properties (property_map_type f) (v\<lparr>ct_name := f k\<rparr>)))) (co_complex_types c)))"
    using okD(1) by (rule table_step_renamed [where gs = "property_map_type f" and gn = "\<lambda>m. m"])
      (simp_all add: pass_simps navs f_def [symmetric])
  from complex_pass [OF ok this out erase_map_type]
  show "\<exists>c' f. Some (prune_complex_types c) = Some c' \<and> compiled_ok c' \<and> lossless f c c'"
    by (auto simp: prune_complex_types_def Let_def f_def [symmetric])
qed

interpretation drop_entity: optimizer_pass "\<lambda>c. Some (prune_entity_types c)"
proof
  fix c assume ok: "compiled_ok c"
  note okD = compiled_okD [OF ok]
  define f where "f = replace (prune_namepaces_replacements (map fst (co_entity_types c)))"
  note out = prune_outside [OF hierarchy_wf [OF okD(2)], folded f_def]
  have structs: "property_map_type f m = m" if "m \<in> members (struct_of \<circ> et_properties) (co_entity_types c)" for m
    using that struct_member_fixed [OF ok fixed_kinds(3) [OF okD(8) out]] by (simp add: entity_names_def)
  have step: "table_step et_base et_name et_properties f (co_entity_types c)
    (hm_collect (map (\<lambda>(k, v). (f k, et_map_base f (et_map_nav_properties (nav_property_map_type f) (v\<lparr>et_name := f k\<rparr>)))) (co_entity_types c)))"
    using okD(2) by (rule table_step_renamed [where gs = "\<lambda>m. m" and gn = "nav_property_map_type f"])
      (simp_all add: pass_simps structs f_def [symmetric])
  have keys: "fst ` set (hm_collect (map (\<lambda>(name, copies). (f name, copies)) (co_excerpt_copies c))) \<subseteq>
      f ` fst ` set (co_excerpt_copies c)"
    by (simp add: hm_keys_collect image_image case_prod_beta')
  have "compiled_ok (prune_entity_types c) \<and> lossless f c (prune_entity_types c)"
    using entity_pass [OF ok step out hm_wf_collect keys]
    by (cases c) (simp add: prune_entity_types_def Let_def f_def)
  then show "\<exists>c' f. Some (prune_entity_types c) = Some c' \<and> compiled_ok c' \<and> lossless f c c'" by blast
qed

section \<open>The optimizer\<close>

interpretation optimizer: optimizer_pass "\<lambda>c. optimize c config" for config
proof -
  have "optimizer_pass (\<lambda>c. Some (prune_namespaces c))"
    using drop_enum.then_pass [OF drop_type_definition.then_pass [OF drop_complex.then_pass [OF drop_entity.optimizer_pass_axioms]]]
    by (simp add: prune_namespaces_def)
  from remove_complex.then_pass [OF remove_entity.then_pass [OF fold_complex.then_pass [OF fold_entity.then_pass [OF this]]]]
  show "optimizer_pass (\<lambda>c. optimize c config)" unfolding optimize_def by (simp add: bind_assoc)
qed

text \<open>
  C8. The optimizer is total and lossless. On an aggregate whose references all resolve, whose kinds share no name
  and whose inheritance has no cycle, for any configuration, it returns an aggregate of the same form; and there is
  a renaming of types under which every type is still there with every structural and navigation member it had or
  inherited, in the same order, only the names of their types renamed. Nothing that refers to a removed, folded or
  renamed type is left behind: properties, navigation, bases, actions, parameters, annotations, creatable types
  and excerpt copies.
\<close>

theorem optimize_lossless:
  assumes "compiled_ok c"
  shows "\<exists>c' f. optimize c config = Some c' \<and> compiled_ok c' \<and> lossless f c c'"
  using assms by (rule optimizer.pass_ok)

text \<open>
  A schema with a versioned entity type below its unversioned parent, a complex type without members of its own and
  a reference to each.
\<close>

definition sample_odata :: odata where
  "sample_odata = odata_new False []"

definition sample_property :: "ident \<Rightarrow> qname \<Rightarrow> property" where
  "sample_property name t =
     \<lparr>pr_name = name, pr_ptype = One (type_info_simple_type, t), pr_odata = sample_odata,
      pr_redfish = redfish_property_new [], pr_nullable = True, pr_rigid_array_support = False\<rparr>"

definition sample_complex :: "qname \<Rightarrow> qname option \<Rightarrow> property list \<Rightarrow> qname \<times> complex_type" where
  "sample_complex q b ps =
     (q, \<lparr>ct_name = q, ct_base = b, ct_properties = \<lparr>ps_properties = ps, ps_nav_properties = []\<rparr>, ct_odata = sample_odata\<lparr>od_additional_properties := Some True\<rparr>,
      ct_redfish = redfish_new [], ct_is_abstract = False\<rparr>)"

definition sample_entity :: "qname \<Rightarrow> qname option \<Rightarrow> property list \<Rightarrow> nav_property list \<Rightarrow> qname \<times> entity_type" where
  "sample_entity q b ps navs =
     (q, \<lparr>et_name = q, et_base = b, et_key = None, et_properties = \<lparr>ps_properties = ps, ps_nav_properties = navs\<rparr>,
      et_odata = sample_odata\<lparr>od_description := Some ''text''\<rparr>, et_is_abstract = False\<rparr>)"

definition sample_schema :: compiled where
  "sample_schema = compiled_default
     \<lparr>co_complex_types :=
        [sample_complex (QName [''Resource''] ''Status'') None [sample_property ''Health'' (QName [''Edm''] ''String'')],
         sample_complex (QName [''Chassis'', ''v1''] ''Status'') (Some (QName [''Resource''] ''Status'')) []],
      co_entity_types :=
        [sample_entity (QName [''Chassis''] ''Chassis'') None [sample_property ''Id'' (QName [''Edm''] ''String'')] [],
         sample_entity (QName [''Chassis'', ''v1''] ''Chassis'') (Some (QName [''Chassis''] ''Chassis''))
           [sample_property ''Status'' (QName [''Chassis'', ''v1''] ''Status'')]
           [Expandable \<lparr>ne_name = ''Contains'', ne_ptype = Collection (QName [''Chassis''] ''Chassis''),
              ne_odata = sample_odata, ne_redfish = redfish_property_new [], ne_nullable = False\<rparr>]]\<rparr>"

lemma sample_schema_ok: "compiled_ok sample_schema"
proof -
  note defs = sample_schema_def sample_complex_def sample_entity_def sample_property_def compiled_default_def
    annotations_default_def
  have "compiled_wf sample_schema"
    unfolding compiled_wf_def
    by (intro conjI hierarchy_okI [where rank = "\<lambda>q. length (qn_namespace q)"]) (simp_all add: defs hm_wf_def)
  moreover have "kinds_apart sample_schema"
    by (simp add: kinds_apart_def type_names_def entity_names_def family_def ns_root_def defs)
  moreover have "compiled_closed sample_schema"
    by (simp add: compiled_closed_def property_refs_def action_refs_def all_actions_def binding_refs_def
        navigation_refs_def action_entity_refs_def all_properties_def annotation_refs_def is_type_ref_def
        type_names_def entity_names_def is_simple_type_def ns_is_edm_def property_type_name_def defs)
  ultimately show ?thesis by (simp add: compiled_ok_def)
qed

theorem optimize_lossless_witness:
  "compiled_ok sample_schema \<and>
   (\<exists>c' f. optimize sample_schema optimizer_config_default = Some c' \<and> compiled_ok c' \<and> lossless f sample_schema c')"
  using sample_schema_ok optimize_lossless [OF sample_schema_ok] by blast

text \<open>
  C40. The marking of ancestors computes its specification. On a well-formed aggregate, the types that are forced to
  have an update struct are exactly the proper ancestors of the complex and entity types that generate an update:
  the walk that stops at the first ancestor already marked misses none, and marks nothing else.
\<close>

theorem forced_updates_ancestors:
  assumes "compiled_ok c"
  shows "forced_updates c =
    update_ancestors (co_complex_types c) ct_generates_update ct_base \<union>
    update_ancestors (co_entity_types c) et_generates_update et_base"
proof -
  note okD = compiled_okD [OF assms]
  let ?ct = "update_ancestors (co_complex_types c) ct_generates_update ct_base"
  have complex: "mark_update_ancestors (co_complex_types c) ct_generates_update ct_base {} = ?ct"
    using mark_update_ancestors_eq [of "co_complex_types c" ct_base "{}"] by (simp add: base_closed_def)
  have "x \<notin> ?ct" if "(x, y) \<in> base_rel et_base (co_entity_types c)" for x y
  proof -
    have "x \<in> entity_names c" using that by (force simp: base_rel_def entity_names_def dest: map_of_SomeD)
    moreover have "x \<in> ?ct \<Longrightarrow> x \<in> type_names c"
      unfolding type_names_def by (intro UnI1 update_ancestors_keys [OF okD(1)])
    ultimately show ?thesis using kinds_disjoint(4) [OF okD(8)] by blast
  qed
  then have "base_closed (co_entity_types c) et_base ?ct" by (auto simp: base_closed_def)
  from mark_update_ancestors_eq [OF this] show ?thesis by (simp add: forced_updates_def complex)
qed

lemma sample_forced: "forced_updates sample_schema = {QName [''Resource''] ''Status''}"
  by code_simp

theorem forced_updates_ancestors_witness:
  "update_ancestors (co_complex_types sample_schema) ct_generates_update ct_base \<union>
   update_ancestors (co_entity_types sample_schema) et_generates_update et_base = {QName [''Resource''] ''Status''}"
  using forced_updates_ancestors [OF sample_schema_ok] sample_forced by simp

end
