(* ===== verification/Csdl_Index.thy ===== *)
theory Csdl_Index
  imports Csdl_Compiled
begin

text \<open>
  The errors of the CSDL compiler (\<open>compiler/error.rs\<close>) and the index over the schemas of several documents
  (\<open>compiler/schema_index.rs\<close>): lookups, the search for a cycle of bases, and the most specific descendant of a type.
\<close>

section \<open>Errors\<close>

datatype annotation_error = AnnotationNotFound string | AnnotationInvalidType string csdl_class

datatype csdl_error =
    RootTypeNotFound qname
  | AnnotationError annotation_error
  | Unimplemented
  | NotBoundAction
  | NoBindingParameterForAction
  | EntityTypeNotFound qname
  | ComplexTypeNotFound qname
  | CyclicType "qname list"
  | UnrepresentableCycle qname
  | UnsupportedCycle qname
  | ResourceTypeNotFound
  | ResourceCollectionTypeNotFound
  | InEntityType qname csdl_error
  | TypeNotFound qname
  | TypeDefinitionOfNotPrimitiveType qname
  | InTypeDefinition qname csdl_error
  | InType qname csdl_error
  | InProperty ident csdl_error
  | InAction ident csdl_error
  | InActionReturnType csdl_error
  | InActionParameter ident csdl_error
  | InSingleton ident csdl_error
  | InSchema namespace csdl_error

text \<open>A computation of the compiler: it may not return, or return an error or a value.\<close>

type_synonym 'a compiling = "(csdl_error + 'a) outcome"

definition and_then :: "'a compiling \<Rightarrow> ('a \<Rightarrow> 'b compiling) \<Rightarrow> 'b compiling" where
  "and_then m f = (case m of None \<Rightarrow> None | Some (Inl e) \<Rightarrow> Some (Inl e) | Some (Inr x) \<Rightarrow> f x)"

definition compiling_err :: "(csdl_error \<Rightarrow> csdl_error) \<Rightarrow> 'a compiling \<Rightarrow> 'a compiling" where
  "compiling_err f m = map_option (map_err f) m"

definition ok_or :: "csdl_error \<Rightarrow> 'a option \<Rightarrow> csdl_error + 'a" where
  "ok_or e x = (case x of None \<Rightarrow> Inl e | Some v \<Rightarrow> Inr v)"

fun try_fold :: "('s \<Rightarrow> 'a \<Rightarrow> 's compiling) \<Rightarrow> 's \<Rightarrow> 'a list \<Rightarrow> 's compiling" where
  "try_fold f s [] = Some (Inr s)"
| "try_fold f s (x # xs) = and_then (f s x) (\<lambda>s. try_fold f s xs)"

lemma and_then_cong [fundef_cong]:
  assumes "m = m'" "\<And>x. m' = Some (Inr x) \<Longrightarrow> f x = f' x"
  shows "and_then m f = and_then m' f'"
  using assms by (auto simp: and_then_def split: option.splits sum.splits)

lemma and_then_Inr: "and_then m f = Some (Inr y) \<longleftrightarrow> (\<exists>x. m = Some (Inr x) \<and> f x = Some (Inr y))"
  by (auto simp: and_then_def split: option.splits sum.splits)

lemma and_then_returns:
  "and_then m f \<noteq> None \<longleftrightarrow> m \<noteq> None \<and> (\<forall>x. m = Some (Inr x) \<longrightarrow> f x \<noteq> None)"
  by (auto simp: and_then_def split: option.splits sum.splits)

lemma compiling_err_iff [simp]:
  "compiling_err f m = Some (Inr x) \<longleftrightarrow> m = Some (Inr x)" "compiling_err f m = None \<longleftrightarrow> m = None"
  by (cases m; auto simp: compiling_err_def map_err_def split: sum.splits)+

lemma ok_or_Inr [simp]: "ok_or e x = Inr v \<longleftrightarrow> x = Some v"
  by (simp add: ok_or_def split: option.splits)

section \<open>The index\<close>

record schema_index =
  si_index :: "(namespace, schema) hash_map"
  si_child_map :: "(qname, qname list) hash_map"

definition complex_of :: "edmx_type \<Rightarrow> edmx_complex_type option" where
  "complex_of t = (case t of TComplex ct \<Rightarrow> Some ct | _ \<Rightarrow> None)"

text \<open>The derived types of a schema with their bases, entity types first.\<close>

definition derived_types :: "schema \<Rightarrow> (qname \<times> qname) list" where
  "derived_types s =
     map (\<lambda>(name, base). (QName (sc_namespace s) name, base))
       (List.map_filter (\<lambda>et. map_option (Pair (ee_name et)) (ee_base_type et)) (map snd (sc_entity_types s)) @
        List.map_filter (\<lambda>t. do { ct \<leftarrow> complex_of t; base \<leftarrow> ec_base_type ct; Some (ec_name ct, base) })
          (map snd (sc_types s)))"

text \<open>A cycle rotated to its smallest member and closed.\<close>

definition canonical_cycle :: "qname list \<Rightarrow> qname list" where
  "canonical_cycle cycle =
     (let canonical_start = (case position (\<lambda>x. x = Min (set cycle)) cycle of None \<Rightarrow> 0 | Some index \<Rightarrow> index);
          cycle = rotate canonical_start cycle
      in case cycle of [] \<Rightarrow> [] | first # _ \<Rightarrow> cycle @ [first])"

text \<open>The walk from one type: a cycle on the left, a chain without one on the right.\<close>

function follow_bases ::
  "(qname, qname) hash_map \<Rightarrow> qname set \<Rightarrow> qname list \<Rightarrow> (qname, nat) hash_map \<Rightarrow> qname \<Rightarrow> qname list + qname list" where
  "follow_bases base_map visited path positions current =
     (if current \<in> visited then Inr path
      else case map_of positions current of
        Some first \<Rightarrow> Inl (canonical_cycle (drop first path))
      | None \<Rightarrow>
          (case map_of base_map current of
             Some base \<Rightarrow>
               follow_bases base_map visited (path @ [current]) (hm_insert current (length path) positions) base
           | None \<Rightarrow> Inr (path @ [current])))"
  by pat_completeness auto
termination
proof (relation "measure (\<lambda>(base_map, _, _, positions, _). card (fst ` set base_map - fst ` set positions))")
  fix base_map :: "(qname, qname) hash_map" and visited :: "qname set" and path :: "qname list"
    and positions :: "(qname, nat) hash_map" and current base :: qname
  assume "map_of positions current = None" "map_of base_map current = Some base"
  then have "current \<in> fst ` set base_map - fst ` set positions"
    by (force simp: map_of_eq_None_iff dest: map_of_SomeD)
  then have "card (fst ` set base_map - fst ` set (hm_insert current (length path) positions))
      < card (fst ` set base_map - fst ` set positions)"
    by (intro psubset_card_mono) (auto simp: hm_keys_insert)
  then show "((base_map, visited, path @ [current], hm_insert current (length path) positions, base),
     base_map, visited, path, positions, current)
    \<in> measure (\<lambda>(base_map, _, _, positions, _). card (fst ` set base_map - fst ` set positions))"
    by simp
qed simp

declare follow_bases.simps [simp del]

fun find_cycle_from :: "(qname, qname) hash_map \<Rightarrow> qname set \<Rightarrow> qname list \<Rightarrow> qname list option" where
  "find_cycle_from base_map visited [] = None"
| "find_cycle_from base_map visited (start # starts) =
     (if start \<in> visited then find_cycle_from base_map visited starts
      else case follow_bases base_map visited [] [] start of
        Inl cycle \<Rightarrow> Some cycle
      | Inr path \<Rightarrow> find_cycle_from base_map (visited \<union> set path) starts)"

definition find_inheritance_cycle :: "(qname, qname) hash_map \<Rightarrow> qname list option" where
  "find_inheritance_cycle base_map = find_cycle_from base_map {} (sort (map fst base_map))"

definition index_build :: "edmx list \<Rightarrow> csdl_error + schema_index" where
  "index_build docs =
     (let index = hm_collect (map (\<lambda>s. (sc_namespace s, s)) (concat docs));
          derived = concat (map derived_types (concat docs));
          child_map = fold (\<lambda>(qname, base_type). hm_entry base_type [] (\<lambda>e. e @ [qname])) derived [];
          base_map = fold (\<lambda>(qname, base_type). hm_insert qname base_type) derived []
      in case find_inheritance_cycle base_map of
           None \<Rightarrow> Inr \<lparr>si_index = index, si_child_map = child_map\<rparr>
         | Some cycle \<Rightarrow> Inl (CyclicType cycle))"

section \<open>Lookups\<close>

definition index_get :: "schema_index \<Rightarrow> namespace \<Rightarrow> schema option" where
  "index_get si ns = map_of (si_index si) ns"

definition find_entity_type :: "schema_index \<Rightarrow> qname \<Rightarrow> edmx_entity_type option" where
  "find_entity_type si qtype =
     do { ns \<leftarrow> index_get si (qn_namespace qtype); map_of (sc_entity_types ns) (qn_name qtype) }"

definition find_type :: "schema_index \<Rightarrow> qname \<Rightarrow> edmx_type option" where
  "find_type si qtype = do { ns \<leftarrow> index_get si (qn_namespace qtype); map_of (sc_types ns) (qn_name qtype) }"

definition find_complex_type_by_qname :: "schema_index \<Rightarrow> qname \<Rightarrow> edmx_complex_type option" where
  "find_complex_type_by_qname si qtype = do { t \<leftarrow> find_type si qtype; complex_of t }"

definition find_term :: "schema_index \<Rightarrow> qname \<Rightarrow> edmx_term option" where
  "find_term si name = do { schema \<leftarrow> index_get si (qn_namespace name); map_of (sc_terms schema) (qn_name name) }"

text \<open>\<open>Iterator::any\<close> over a test that may not return.\<close>

fun any_outcome :: "('a \<Rightarrow> bool outcome) \<Rightarrow> 'a list \<Rightarrow> bool outcome" where
  "any_outcome f [] = Some False"
| "any_outcome f (x # xs) = do { b \<leftarrow> f x; if b then Some True else any_outcome f xs }"

fun filter_outcome :: "('a \<Rightarrow> bool outcome) \<Rightarrow> 'a list \<Rightarrow> 'a list outcome" where
  "filter_outcome f [] = Some []"
| "filter_outcome f (x # xs) = do { b \<leftarrow> f x; ys \<leftarrow> filter_outcome f xs; Some (if b then x # ys else ys) }"

lemma any_outcome_mono [partial_function_mono]:
  assumes "\<And>x. mono_option (\<lambda>f. C x f)"
  shows "mono_option (\<lambda>f. any_outcome (\<lambda>x. C x f) xs)"
proof (induction xs)
  case Nil
  show ?case by (simp add: option.const_mono)
next
  case (Cons x xs)
  show ?case by (simp, intro bind_mono assms if_mono Cons option.const_mono)
qed

partial_function (option) child_adds_property :: "schema_index \<Rightarrow> qname \<Rightarrow> bool outcome" where
  "child_adds_property si qtype =
     (case (case find_entity_type si qtype of
              Some et \<Rightarrow> Some (ee_properties et)
            | None \<Rightarrow> map_option ec_properties (find_complex_type_by_qname si qtype)) of
        None \<Rightarrow> Some False
      | Some properties \<Rightarrow>
          if properties \<noteq> [] then Some True
          else (case map_of (si_child_map si) qtype of
                  None \<Rightarrow> Some False
                | Some children \<Rightarrow> any_outcome (\<lambda>child. child_adds_property si child) children))"

partial_function (option) find_child_type :: "schema_index \<Rightarrow> qname \<Rightarrow> qname outcome" where
  "find_child_type si qtype =
     (case map_of (si_child_map si) qtype of
        None \<Rightarrow> Some qtype
      | Some children \<Rightarrow> do {
          children \<leftarrow> filter_outcome (child_adds_property si) children;
          (case children of [child] \<Rightarrow> find_child_type si child | _ \<Rightarrow> Some qtype)
        })"

definition find_child_entity_type :: "schema_index \<Rightarrow> qname \<Rightarrow> (qname \<times> edmx_entity_type) compiling" where
  "find_child_entity_type si qtype = do {
     qtype \<leftarrow> find_child_type si qtype;
     Some (ok_or (EntityTypeNotFound qtype) (map_option (Pair qtype) (find_entity_type si qtype)))
   }"

definition resource_type_named :: "schema_index \<Rightarrow> ident \<Rightarrow> csdl_error \<Rightarrow> csdl_error + qname" where
  "resource_type_named si name e =
     (case index_get si [''Resource''] of
        None \<Rightarrow> Inl e
      | Some schema \<Rightarrow>
          if hm_contains_key (sc_entity_types schema) name
          then ok_or ResourceTypeNotFound
            (map_option (\<lambda>_. QName (sc_namespace schema) name) (find_entity_type si (QName (sc_namespace schema) name)))
          else Inl e)"

definition redfish_resource_type :: "schema_index \<Rightarrow> csdl_error + qname" where
  "redfish_resource_type si = resource_type_named si ''Resource'' ResourceTypeNotFound"

definition redfish_resource_collection_type :: "schema_index \<Rightarrow> csdl_error + qname" where
  "redfish_resource_collection_type si =
     resource_type_named si ''ResourceCollection'' ResourceCollectionTypeNotFound"

section \<open>The search for a cycle\<close>

definition base_edges :: "(qname, qname) hash_map \<Rightarrow> (qname \<times> qname) set" where
  "base_edges base_map = {(q, b). map_of base_map q = Some b}"

text \<open>What a reported cycle is: it returns to its first member, no other repeats, and the first is the smallest.\<close>

definition closed_cycle :: "(qname, qname) hash_map \<Rightarrow> qname list \<Rightarrow> bool" where
  "closed_cycle base_map cycle =
     (\<exists>x xs. cycle = x # xs @ [x] \<and> distinct (x # xs) \<and> (\<forall>y \<in> set xs. x \<le> y) \<and>
        successively (\<lambda>p q. map_of base_map p = Some q) cycle)"

lemma successively_rotate1:
  "successively R (xs @ [hd xs]) \<Longrightarrow> successively R (rotate1 xs @ [hd (rotate1 xs)])"
  by (cases xs; cases "tl xs") (auto simp: successively_append_iff successively_Cons hd_append split: if_splits)

lemma successively_rotate: "successively R (xs @ [hd xs]) \<Longrightarrow> successively R (rotate n xs @ [hd (rotate n xs)])"
  by (induction n) (simp_all add: successively_rotate1)

lemma canonical_cycle_closed:
  assumes xs: "xs \<noteq> []" "distinct xs" and succ: "successively (\<lambda>p q. map_of base_map p = Some q) (xs @ [hd xs])"
  shows "closed_cycle base_map (canonical_cycle xs)"
proof -
  obtain i where i: "position (\<lambda>x. x = Min (set xs)) xs = Some i"
    using xs(1) Min_in [of "set xs"] by (cases "position (\<lambda>x. x = Min (set xs)) xs") (auto simp: position_None)
  then have "i < length xs" "xs ! i = Min (set xs)" using position_Some [OF i] by auto
  then have hd: "hd (rotate i xs) = Min (set xs)" using xs(1) by (simp add: hd_rotate_conv_nth)
  obtain x ys where r: "rotate i xs = x # ys" using xs(1) by (cases "rotate i xs") auto
  have "canonical_cycle xs = x # ys @ [x]" by (simp add: canonical_cycle_def i r)
  moreover have "distinct (x # ys)" using xs(2) distinct_rotate [of i xs] r by simp
  moreover have "\<forall>y \<in> set ys. x \<le> y"
  proof
    fix y assume "y \<in> set ys"
    then have "y \<in> set xs" using r set_rotate [of i xs] by auto
    then show "x \<le> y" using hd r by simp
  qed
  moreover have "successively (\<lambda>p q. map_of base_map p = Some q) (x # ys @ [x])"
    using successively_rotate [OF succ, of i] r by simp
  ultimately show ?thesis unfolding closed_cycle_def by (intro exI [of _ x] exI [of _ ys]) simp
qed

lemma closed_cycle_not_acyclic: "closed_cycle base_map cycle \<Longrightarrow> \<not> acyclic (base_edges base_map)"
proof -
  assume "closed_cycle base_map cycle"
  then obtain x xs where succ: "successively (\<lambda>p q. map_of base_map p = Some q) (x # xs @ [x])"
    unfolding closed_cycle_def by auto
  have "successively (\<lambda>p q. map_of base_map p = Some q) (x # xs @ [z]) \<Longrightarrow> (x, z) \<in> (base_edges base_map)\<^sup>+" for x z
  proof (induction xs arbitrary: x)
    case Nil
    then show ?case by (auto simp: base_edges_def)
  next
    case (Cons y xs)
    then have "(x, y) \<in> base_edges base_map" "(y, z) \<in> (base_edges base_map)\<^sup>+" by (auto simp: base_edges_def)
    then show ?case by (rule trancl_into_trancl2)
  qed
  then show ?thesis using succ by (auto simp: acyclic_def)
qed

text \<open>The state of a walk: the path leads to the current type, and the positions are those of the path.\<close>

definition walk_ok :: "(qname, qname) hash_map \<Rightarrow> qname list \<Rightarrow> (qname, nat) hash_map \<Rightarrow> qname \<Rightarrow> bool" where
  "walk_ok base_map path positions current =
     (successively (\<lambda>p q. map_of base_map p = Some q) (path @ [current]) \<and> distinct path \<and>
      (\<forall>q i. map_of positions q = Some i \<longleftrightarrow> i < length path \<and> path ! i = q))"

lemma walk_ok_start: "walk_ok base_map [] [] start"
  by (simp add: walk_ok_def)

lemma walk_ok_step:
  assumes "walk_ok base_map path positions current" "map_of positions current = None" "map_of base_map current = Some base"
  shows "walk_ok base_map (path @ [current]) (hm_insert current (length path) positions) base"
proof -
  have "current \<notin> set path" using assms(1,2) unfolding walk_ok_def by (metis in_set_conv_nth option.distinct(1))
  then show ?thesis
    using assms by (auto simp: walk_ok_def successively_append_iff hm_simps nth_append less_Suc_eq)
qed

lemma follow_bases_Inl:
  "walk_ok base_map path positions current \<Longrightarrow> follow_bases base_map visited path positions current = Inl cycle \<Longrightarrow>
     closed_cycle base_map cycle"
proof (induction base_map visited path positions current rule: follow_bases.induct)
  case (1 base_map visited path positions current)
  show ?case
  proof (cases "map_of positions current")
    case None
    then obtain base where base: "map_of base_map current = Some base" "current \<notin> visited"
      and walk: "follow_bases base_map visited (path @ [current]) (hm_insert current (length path) positions) base = Inl cycle"
      using "1.prems"(2) by (subst (asm) follow_bases.simps) (auto split: if_splits option.splits)
    show ?thesis using "1.IH" [OF base(2) None base(1) walk_ok_step [OF "1.prems"(1) None base(1)] walk] .
  next
    case (Some i)
    then have cycle: "cycle = canonical_cycle (drop i path)"
      using "1.prems"(2) by (subst (asm) follow_bases.simps) (auto split: if_splits)
    have i: "i < length path" "path ! i = current" using "1.prems"(1) Some by (auto simp: walk_ok_def)
    have "successively (\<lambda>p q. map_of base_map p = Some q) (drop i (path @ [current]))"
      using "1.prems"(1) append_take_drop_id [of i "path @ [current]"] unfolding walk_ok_def
      by (metis successively_append_iff)
    then have "successively (\<lambda>p q. map_of base_map p = Some q) (drop i path @ [hd (drop i path)])"
      using i by (simp add: hd_drop_conv_nth)
    then show ?thesis
      unfolding cycle using i "1.prems"(1) by (intro canonical_cycle_closed) (auto simp: walk_ok_def)
  qed
qed

text \<open>A type is safe when following bases from it comes to an end.\<close>

definition safe :: "(qname, qname) hash_map \<Rightarrow> qname set" where
  "safe base_map = Wellfounded.acc ((base_edges base_map)\<inverse>)"

lemma safe_step: "(\<And>b. map_of base_map q = Some b \<Longrightarrow> b \<in> safe base_map) \<Longrightarrow> q \<in> safe base_map"
  unfolding safe_def by (rule accI) (auto simp: base_edges_def)

lemma safe_path:
  "successively (\<lambda>p q. map_of base_map p = Some q) (path @ [current]) \<Longrightarrow> current \<in> safe base_map \<Longrightarrow>
     set path \<subseteq> safe base_map"
proof (induction path)
  case (Cons p path)
  then have "set path \<subseteq> safe base_map" by (cases path) auto
  moreover have "map_of base_map p = Some (hd (path @ [current]))" using Cons.prems(1) by (cases path) auto
  moreover have "hd (path @ [current]) \<in> safe base_map" using calculation(1) Cons.prems(2) by (cases path) auto
  ultimately have "p \<in> safe base_map" using safe_step [of base_map p] by simp
  then show ?case using \<open>set path \<subseteq> safe base_map\<close> by simp
qed simp

lemma follow_bases_extends:
  "follow_bases base_map visited path positions current = Inr path' \<Longrightarrow> set path \<subseteq> set path'"
proof (induction base_map visited path positions current rule: follow_bases.induct)
  case (1 base_map visited path positions current)
  show ?case
  proof (cases "current \<notin> visited \<and> map_of positions current = None \<and> map_of base_map current \<noteq> None")
    case True
    then obtain base where b: "current \<notin> visited" "map_of positions current = None" "map_of base_map current = Some base"
      by auto
    then have "set (path @ [current]) \<subseteq> set path'"
      using "1.prems" by (intro "1.IH" [OF b]) (simp add: follow_bases.simps [of base_map visited path])
    then show ?thesis by simp
  next
    case False
    then show ?thesis using "1.prems"
      by (auto simp: follow_bases.simps [of base_map visited path] split: if_splits option.splits)
  qed
qed

lemma follow_bases_Inr:
  "walk_ok base_map path positions current \<Longrightarrow> visited \<subseteq> safe base_map \<Longrightarrow>
     follow_bases base_map visited path positions current = Inr path' \<Longrightarrow>
     set path' \<subseteq> safe base_map \<and> (current \<in> visited \<or> current \<in> set path')"
proof (induction base_map visited path positions current rule: follow_bases.induct)
  case (1 base_map visited path positions current)
  have succ: "successively (\<lambda>p q. map_of base_map p = Some q) (path @ [current])"
    using "1.prems"(1) by (simp add: walk_ok_def)
  show ?case
  proof (cases "current \<in> visited")
    case True
    then have "path' = path" using "1.prems"(3) by (subst (asm) follow_bases.simps) simp
    then show ?thesis using True safe_path [OF succ] "1.prems"(2) by auto
  next
    case False
    then have None: "map_of positions current = None"
      using "1.prems"(3) by (subst (asm) follow_bases.simps) (auto split: option.splits)
    show ?thesis
    proof (cases "map_of base_map current")
      case base: None
      then have "path' = path @ [current]"
        using "1.prems"(3) False None by (subst (asm) follow_bases.simps) simp
      moreover have "current \<in> safe base_map" by (rule safe_step) (simp add: base)
      ultimately show ?thesis using safe_path [OF succ] by auto
    next
      case (Some base)
      let ?rec = "follow_bases base_map visited (path @ [current]) (hm_insert current (length path) positions) base"
      have rec: "?rec = Inr path'" using "1.prems"(3) False None Some by (subst (asm) follow_bases.simps) simp
      have "set path' \<subseteq> safe base_map"
        using "1.IH" [OF False None Some walk_ok_step [OF "1.prems"(1) None Some] "1.prems"(2) rec] by blast
      moreover have "current \<in> set path'"
        using rec follow_bases_extends by fastforce
      ultimately show ?thesis by blast
    qed
  qed
qed

lemma find_cycle_from_Some: "find_cycle_from base_map visited starts = Some cycle \<Longrightarrow> closed_cycle base_map cycle"
  by (induction base_map visited starts rule: find_cycle_from.induct)
    (auto split: if_splits sum.splits intro: follow_bases_Inl [OF walk_ok_start])

lemma find_cycle_from_None:
  "find_cycle_from base_map visited starts = None \<Longrightarrow> visited \<subseteq> safe base_map \<Longrightarrow> set starts \<subseteq> safe base_map"
proof (induction base_map visited starts rule: find_cycle_from.induct)
  case (2 base_map visited start starts)
  show ?case
  proof (cases "start \<in> visited")
    case True
    then show ?thesis using 2 by auto
  next
    case False
    then obtain path where path: "follow_bases base_map visited [] [] start = Inr path"
      "find_cycle_from base_map (visited \<union> set path) starts = None"
      using "2.prems"(1) by (auto split: sum.splits)
    have "set path \<subseteq> safe base_map \<and> start \<in> set path"
      using follow_bases_Inr [OF walk_ok_start "2.prems"(2) path(1)] False by blast
    then show ?thesis using "2.IH"(2) [OF False path] "2.prems"(2) by auto
  qed
qed simp

lemma inheritance_cycle_closed: "find_inheritance_cycle base_map = Some cycle \<Longrightarrow> closed_cycle base_map cycle"
  using find_cycle_from_Some by (simp add: find_inheritance_cycle_def)

lemma no_inheritance_cycle:
  assumes none: "find_inheritance_cycle base_map = None"
  shows "acyclic (base_edges base_map)"
proof -
  have keys: "fst ` set base_map \<subseteq> safe base_map"
    using find_cycle_from_None [of base_map "{}" "sort (map fst base_map)"] none
    by (simp add: find_inheritance_cycle_def)
  have "q \<in> safe base_map" for q
  proof (cases "q \<in> fst ` set base_map")
    case False
    show ?thesis by (rule safe_step) (use False in \<open>force dest: map_of_SomeD\<close>)
  qed (use keys in blast)
  then have "wf ((base_edges base_map)\<inverse>)" unfolding safe_def by (intro acc_wfI) blast
  then show ?thesis by (metis wf_acyclic acyclic_converse)
qed

text \<open>
  C38. The search for cycles of inheritance is sound and complete. It reports none exactly when the relation from a
  type to its base has no cycle; and what it reports is a cycle of that relation: it ends where it starts, no type
  repeats in between, every type is followed by its base, and it starts at its smallest member.
\<close>

theorem inheritance_cycle_exact:
  "(find_inheritance_cycle base_map = None \<longleftrightarrow> acyclic (base_edges base_map)) \<and>
   list_all (closed_cycle base_map) (case find_inheritance_cycle base_map of None \<Rightarrow> [] | Some cycle \<Rightarrow> [cycle])"
proof -
  have "find_inheritance_cycle base_map = None" if "acyclic (base_edges base_map)"
    using inheritance_cycle_closed closed_cycle_not_acyclic that by (cases "find_inheritance_cycle base_map") auto
  then show ?thesis using no_inheritance_cycle inheritance_cycle_closed by (auto split: option.splits)
qed

end
