(* ===== verification/Csdl_Compile.thy ===== *)
theory Csdl_Compile
  imports Csdl_Index "HOL-Library.Product_Lexorder"
begin

text \<open>
  The compilation of schemas (\<open>compiler/mod.rs\<close>, \<open>stack.rs\<close>, and the \<open>compile\<close> functions of \<open>properties.rs\<close>, \<open>complex_type.rs\<close>,
  \<open>entity_type.rs\<close>, \<open>enum_type.rs\<close>, \<open>type_definition.rs\<close>, \<open>action.rs\<close> and \<open>annotations.rs\<close>): from root types, everything they refer to is
  compiled, with a stack of frames that tells what is already compiled or being compiled.

  The functions call each other. Their first argument is how deep types may still be nested in each other; \<open>None\<close> when that is
  exceeded, or when the search for a descendant does not return.
\<close>

section \<open>Context and stack\<close>

datatype excerpt_dependencies = SelectedEntities | IncludeExcerpts

record compile_config =
  cc_entity_type_filter :: type_filter
  cc_excerpt_dependencies :: excerpt_dependencies
  cc_action_filter :: type_filter
  cc_rigid_array_filter :: property_filter

record compile_context =
  cx_schema_index :: schema_index
  cx_config :: compile_config
  cx_root_set_entities :: "qname set"

datatype in_progress = ProgEntity qname | ProgComplex qname

record frame =
  fr_in_progress :: "in_progress option"
  fr_current :: compiled

text \<open>The current frame and its parents, the nearest first.\<close>

type_synonym stack = "frame \<times> frame list"

definition stack_default :: stack where
  "stack_default = (\<lparr>fr_in_progress = None, fr_current = compiled_default\<rparr>, [])"

definition frames :: "stack \<Rightarrow> frame list" where
  "frames st = fst st # snd st"

definition new_frame :: "stack \<Rightarrow> stack" where
  "new_frame st = (\<lparr>fr_in_progress = None, fr_current = compiled_default\<rparr>, frames st)"

definition with_entity_type :: "qname \<Rightarrow> stack \<Rightarrow> stack" where
  "with_entity_type name st = ((fst st)\<lparr>fr_in_progress := Some (ProgEntity name)\<rparr>, snd st)"

definition with_complex_type :: "qname \<Rightarrow> stack \<Rightarrow> stack" where
  "with_complex_type name st = ((fst st)\<lparr>fr_in_progress := Some (ProgComplex name)\<rparr>, snd st)"

fun compiling_complex_in :: "frame list \<Rightarrow> qname \<Rightarrow> bool" where
  "compiling_complex_in [] qtype = False"
| "compiling_complex_in (f # parents) qtype =
     (case fr_in_progress f of
        Some (ProgEntity _) \<Rightarrow> False
      | Some (ProgComplex v) \<Rightarrow> v = qtype \<or> compiling_complex_in parents qtype
      | None \<Rightarrow> compiling_complex_in parents qtype)"

definition compiling_complex_type :: "stack \<Rightarrow> qname \<Rightarrow> bool" where
  "compiling_complex_type st qtype = compiling_complex_in (frames st) qtype"

fun nearest_complex_in :: "frame list \<Rightarrow> qname option" where
  "nearest_complex_in [] = None"
| "nearest_complex_in (f # parents) =
     (case fr_in_progress f of
        Some (ProgEntity _) \<Rightarrow> None
      | Some (ProgComplex v) \<Rightarrow> Some v
      | None \<Rightarrow> nearest_complex_in parents)"

definition nearest_complex_type :: "stack \<Rightarrow> qname option" where
  "nearest_complex_type st = nearest_complex_in (frames st)"

definition contains_entity :: "stack \<Rightarrow> qname \<Rightarrow> bool" where
  "contains_entity st qtype =
     list_ex (\<lambda>f. hm_contains_key (co_entity_types (fr_current f)) qtype \<or>
                  fr_in_progress f = Some (ProgEntity qtype)) (frames st)"

definition complex_type_info :: "stack \<Rightarrow> qname \<Rightarrow> type_info option" where
  "complex_type_info st qtype =
     find_map (\<lambda>f. map_option type_info_complex_type (map_of (co_complex_types (fr_current f)) qtype)) (frames st)"

definition contains_type_definition :: "stack \<Rightarrow> qname \<Rightarrow> bool" where
  "contains_type_definition st qtype =
     list_ex (\<lambda>f. hm_contains_key (co_type_definitions (fr_current f)) qtype) (frames st)"

definition contains_enum_type :: "stack \<Rightarrow> qname \<Rightarrow> bool" where
  "contains_enum_type st qtype = list_ex (\<lambda>f. hm_contains_key (co_enum_types (fr_current f)) qtype) (frames st)"

definition stack_merge :: "stack \<Rightarrow> compiled \<Rightarrow> stack" where
  "stack_merge st c = ((fst st)\<lparr>fr_current := compiled_merge (fr_current (fst st)) c\<rparr>, snd st)"

definition stack_done :: "stack \<Rightarrow> compiled" where
  "stack_done st = fr_current (fst st)"

section \<open>Types without dependencies\<close>

definition enum_compile :: "qname \<Rightarrow> edmx_enum_type \<Rightarrow> compiled \<times> type_info" where
  "enum_compile qtype et =
     (new_enum_type
        \<lparr>en_name = qtype,
         en_underlying_type = (case eu_underlying_type et of None \<Rightarrow> UInt32 | Some u \<Rightarrow> u),
         en_members = map (\<lambda>v. (em_name v, odata_new False (em_annotations v))) (eu_members et),
         en_odata = odata_new False (eu_annotations et)\<rparr>,
      type_info_enum_type)"

definition type_definition_compile :: "qname \<Rightarrow> edmx_type_definition \<Rightarrow> csdl_error + compiled \<times> type_info" where
  "type_definition_compile qtype td =
     (if is_simple_type (ed_underlying_type td)
      then Inr (new_type_definition \<lparr>td_name = qtype, td_underlying_type = ed_underlying_type td\<rparr>,
                type_info_type_definition)
      else Inl (TypeDefinitionOfNotPrimitiveType (ed_underlying_type td)))"

section \<open>Types and their dependencies\<close>

definition is_one :: "'a one_or_collection \<Rightarrow> bool" where
  "is_one t = (case t of One _ \<Rightarrow> True | Collection _ \<Rightarrow> False)"

definition add_property :: "property \<Rightarrow> properties \<Rightarrow> properties" where
  "add_property p ps = ps\<lparr>ps_properties := ps_properties ps @ [p]\<rparr>"

definition add_nav_property :: "nav_property \<Rightarrow> properties \<Rightarrow> properties" where
  "add_nav_property p ps = ps\<lparr>ps_nav_properties := ps_nav_properties ps @ [p]\<rparr>"

definition structural_compiled :: "compile_context \<Rightarrow> qname \<Rightarrow> structural_property \<Rightarrow> type_info \<Rightarrow> qname \<Rightarrow> property" where
  "structural_compiled cx qtype v typeinfo resolved =
     \<lparr>pr_name = sp_name v,
      pr_ptype = ooc_map (\<lambda>_. (typeinfo, resolved)) (sp_ptype v),
      pr_odata = odata_new False (sp_annotations v),
      pr_redfish = redfish_property_new (sp_annotations v),
      pr_nullable = (case sp_nullable v of None \<Rightarrow> True | Some b \<Rightarrow> b),
      pr_rigid_array_support = property_filter_matches (cc_rigid_array_filter (cx_config cx)) qtype (sp_name v)\<rparr>"

definition expandable_compiled :: "navigation_property \<Rightarrow> redfish_property \<Rightarrow> qname \<Rightarrow> nav_property" where
  "expandable_compiled v redfish ptype =
     Expandable
       \<lparr>ne_name = np_name v, ne_ptype = ooc_map (\<lambda>_. ptype) (np_ptype v), ne_odata = odata_new False (np_annotations v),
        ne_redfish = redfish, ne_nullable = (case np_nullable v of None \<Rightarrow> False | Some b \<Rightarrow> b)\<rparr>"

definition reference_compiled :: "navigation_property \<Rightarrow> redfish_property \<Rightarrow> nav_property" where
  "reference_compiled v redfish =
     Reference (ooc_map (\<lambda>_. np_name v) (np_ptype v)) (odata_new False (np_annotations v)) redfish
       (case np_nullable v of None \<Rightarrow> False | Some b \<Rightarrow> b)"

text \<open>Whether the target of a navigation property is compiled.\<close>

definition nav_included :: "compile_context \<Rightarrow> qname \<Rightarrow> redfish_property \<Rightarrow> bool" where
  "nav_included cx qname redfish =
     (qname \<in> cx_root_set_entities cx \<or> filter_matches (cc_entity_type_filter (cx_config cx)) qname \<or>
      (rp_excerpt_copy redfish \<noteq> None \<and> cc_excerpt_dependencies (cx_config cx) = IncludeExcerpts))"

function (sequential) ensure_type :: "nat \<Rightarrow> compile_context \<Rightarrow> stack \<Rightarrow> qname \<Rightarrow> (compiled \<times> type_info) compiling"
and compile_type :: "nat \<Rightarrow> compile_context \<Rightarrow> stack \<Rightarrow> qname \<Rightarrow> (compiled \<times> type_info) compiling"
and complex_compile ::
  "nat \<Rightarrow> compile_context \<Rightarrow> stack \<Rightarrow> qname \<Rightarrow> edmx_complex_type \<Rightarrow> (compiled \<times> type_info) compiling"
and entity_compile :: "nat \<Rightarrow> compile_context \<Rightarrow> stack \<Rightarrow> qname \<Rightarrow> edmx_entity_type \<Rightarrow> compiled compiling"
and entity_ensure :: "nat \<Rightarrow> compile_context \<Rightarrow> stack \<Rightarrow> qname \<Rightarrow> compiled compiling"
and nav_compile ::
  "nat \<Rightarrow> compile_context \<Rightarrow> stack \<Rightarrow> navigation_property \<Rightarrow> properties \<Rightarrow> (compiled \<times> properties) compiling"
and props_compile ::
  "nat \<Rightarrow> compile_context \<Rightarrow> qname \<Rightarrow> edmx_property list \<Rightarrow> stack \<Rightarrow> properties \<Rightarrow> (compiled \<times> properties) compiling"
where
  "ensure_type depth cx st qtype =
     (if is_simple_type qtype then Some (Inr (compiled_default, type_info_simple_type))
      else case complex_type_info st qtype of
        Some info \<Rightarrow> Some (Inr (compiled_default, info))
      | None \<Rightarrow>
          if compiling_complex_type st qtype
          then (if nearest_complex_type st = Some qtype
                then Some (Inr (compiled_default, \<lparr>ti_class = ComplexType, ti_permissions = None\<rparr>))
                else Some (Inl (UnsupportedCycle qtype)))
          else if contains_type_definition st qtype then Some (Inr (compiled_default, type_info_type_definition))
          else if contains_enum_type st qtype then Some (Inr (compiled_default, type_info_enum_type))
          else compile_type depth cx st qtype)"
| "compile_type depth cx st qtype =
     compiling_err (InType qtype)
       (case find_type (cx_schema_index cx) qtype of
          None \<Rightarrow> Some (Inl (TypeNotFound qtype))
        | Some (TDefinition td) \<Rightarrow> Some (type_definition_compile qtype td)
        | Some (TEnum et) \<Rightarrow> Some (Inr (enum_compile qtype et))
        | Some (TComplex ct) \<Rightarrow> complex_compile depth cx st qtype ct)"
| "complex_compile 0 cx st qtype ct = None"
| "complex_compile (Suc depth) cx st qtype ct =
     (let st = with_complex_type qtype (new_frame st) in
      and_then
        (case ec_base_type ct of
           None \<Rightarrow> Some (Inr st)
         | Some base \<Rightarrow>
             if is_simple_type base then Some (Inl (TypeNotFound base))
             else and_then (ensure_type depth cx st base) (\<lambda>(compiled, _). Some (Inr (stack_merge st compiled))))
        (\<lambda>st. and_then (props_compile depth cx qtype (ec_properties ct) (new_frame st) properties_default)
          (\<lambda>(compiled, properties).
             let complex_type =
               \<lparr>ct_name = qtype, ct_base = ec_base_type ct, ct_properties = properties,
                ct_odata = odata_new False (ec_annotations ct), ct_redfish = redfish_new (ec_annotations ct),
                ct_is_abstract = ec_is_abstract ct\<rparr>
             in Some (Inr (stack_done (stack_merge (stack_merge st compiled) (new_complex_type complex_type)),
                           type_info_complex_type complex_type)))))"
| "entity_compile 0 cx st name et = None"
| "entity_compile (Suc depth) cx st name et =
     (let st = with_entity_type name (new_frame st) in
      and_then
        (case ee_base_type et of
           None \<Rightarrow> Some (Inr compiled_default)
         | Some base \<Rightarrow> entity_ensure depth cx st base)
        (\<lambda>compiled.
           let st = stack_merge (new_frame st) compiled in
           and_then (props_compile depth cx name (ee_properties et) (new_frame st) properties_default)
             (\<lambda>(compiled, properties).
                let entity_type =
                  \<lparr>et_name = name, et_base = ee_base_type et, et_key = ee_key et, et_properties = properties,
                   et_odata = odata_new True (ee_annotations et), et_is_abstract = ee_is_abstract et\<rparr>
                in Some (Inr (stack_done (stack_merge (stack_merge st compiled) (new_entity_type entity_type)))))))"
| "entity_ensure depth cx st qtype =
     (if contains_entity st qtype then Some (Inr compiled_default)
      else compiling_err (InEntityType qtype)
        (case find_entity_type (cx_schema_index cx) qtype of
           None \<Rightarrow> Some (Inl (EntityTypeNotFound qtype))
         | Some et \<Rightarrow> entity_compile depth cx st qtype et))"
| "nav_compile depth cx st v p =
     (let qname = ooc_inner (np_ptype v);
          redfish = redfish_property_new (np_annotations v)
      in if nav_included cx qname redfish
         then and_then (find_child_entity_type (cx_schema_index cx) qname)
           (\<lambda>(qtype, et).
              and_then
                (if contains_entity st qtype then Some (Inr compiled_default)
                 else compiling_err (InEntityType qtype) (entity_compile depth cx st qtype et))
                (\<lambda>compiled. Some (Inr
                   ((case rp_excerpt_copy redfish of
                       None \<Rightarrow> compiled
                     | Some ec \<Rightarrow> compiled_merge compiled (new_excerpt_copy qtype ec)),
                    add_nav_property (expandable_compiled v redfish qtype) p))))
         else Some (Inr (compiled_default,
           if rp_excerpt_copy redfish = None then add_nav_property (reference_compiled v redfish) p else p)))"
| "props_compile depth cx qtype [] st p = Some (Inr (stack_done st, p))"
| "props_compile depth cx qtype (sp # props) st p =
     (case ep_attrs sp of
        StructuralProperty v \<Rightarrow>
          and_then (map_option Inr (find_child_type (cx_schema_index cx) (ooc_inner (sp_ptype v))))
            (\<lambda>resolved.
               if is_one (sp_ptype v) \<and> nearest_complex_type st = Some resolved
               then Some (Inl (InProperty (ep_name sp) (UnrepresentableCycle resolved)))
               else and_then (compiling_err (InProperty (ep_name sp)) (ensure_type depth cx st resolved))
                 (\<lambda>(compiled, typeinfo).
                    props_compile depth cx qtype props (stack_merge st compiled)
                      (add_property (structural_compiled cx qtype v typeinfo resolved) p)))
      | NavigationProperty v \<Rightarrow>
          and_then (compiling_err (InProperty (ep_name sp)) (nav_compile depth cx st v p))
            (\<lambda>(compiled, p). props_compile depth cx qtype props (stack_merge st compiled) p))"
  by pat_completeness auto
termination
  by (relation "inv_image (less_than <*lex*> less_than <*lex*> less_than)
      (case_sum
        (case_sum (\<lambda>(depth, _, _, _). (depth, 3, 0))
          (case_sum (\<lambda>(depth, _, _, _). (depth, 2, 0)) (\<lambda>(depth, _, _, _, _). (depth, 1, 0))))
        (case_sum
          (case_sum (\<lambda>(depth, _, _, _, _). (depth, 1, 0)) (\<lambda>(depth, _, _, _). (depth, 2, 0)))
          (case_sum (\<lambda>(depth, _, _, _, _). (depth, 2, 0)) (\<lambda>(depth, _, _, props, _, _). (depth, 4, length props)))))")
    auto

declare ensure_type.simps [simp del] compile_type.simps [simp del] complex_compile.simps [simp del]
  entity_compile.simps [simp del] entity_ensure.simps [simp del] nav_compile.simps [simp del] props_compile.simps [simp del]

section \<open>Protocol annotations\<close>

text \<open>The name after the prefix is a valid identifier for the three terms below, so its syntax is not checked again.\<close>

definition annotation_compile ::
  "nat \<Rightarrow> compile_context \<Rightarrow> stack \<Rightarrow> string \<Rightarrow> csdl_class \<Rightarrow> (compiled \<times> annotation) compiling" where
  "annotation_compile depth cx st annotation expected =
     (let not_found = AnnotationError (AnnotationNotFound annotation);
          invalid = AnnotationError (AnnotationInvalidType annotation expected);
          si = cx_schema_index cx
      in and_then (Some (ok_or not_found (str_strip_prefix ''@Redfish.'' annotation)))
        (\<lambda>name. and_then (Some (ok_or not_found (find_term si (QName [''RedfishExtensions'', ''v1_0_0''] name))))
        (\<lambda>trm. case tm_ttype trm of
             Some (One name) \<Rightarrow>
               and_then (map_option Inr (find_child_type si name))
               (\<lambda>value_type. and_then (Some (ok_or not_found (find_type si value_type)))
               (\<lambda>_. and_then (ensure_type depth cx st value_type)
               (\<lambda>(compiled, info).
                  if ti_class info \<noteq> expected then Some (Inl invalid)
                  else Some (Inr (compiled, \<lparr>an_term = trm, an_value_type = value_type\<rparr>)))))
           | _ \<Rightarrow> Some (Inl invalid))))"

definition compile_for_resources :: "nat \<Rightarrow> compile_context \<Rightarrow> stack \<Rightarrow> compiled compiling" where
  "compile_for_resources depth cx st =
     (let st = new_frame st in
      and_then (annotation_compile depth cx st ''@Redfish.Settings'' ComplexType)
      (\<lambda>(compiled, settings).
         let st = stack_merge st compiled in
         and_then (annotation_compile depth cx st ''@Redfish.SettingsApplyTime'' ComplexType)
         (\<lambda>(compiled, apply_time).
            let compiled = stack_done (stack_merge st compiled) in
            Some (Inr (compiled\<lparr>co_annotations := (co_annotations compiled)
              \<lparr>as_redfish_settings := Some settings, as_redfish_settings_apply_time := Some apply_time\<rparr>\<rparr>)))))"

definition compile_for_actions :: "nat \<Rightarrow> compile_context \<Rightarrow> stack \<Rightarrow> compiled compiling" where
  "compile_for_actions depth cx st =
     and_then (annotation_compile depth cx st ''@Redfish.OperationApplyTime'' EnumType)
       (\<lambda>(compiled, annotation).
          Some (Inr (compiled\<lparr>co_annotations := (co_annotations compiled)
            \<lparr>as_redfish_operation_apply_time := Some annotation\<rparr>\<rparr>)))"

section \<open>Actions\<close>

definition parameter_compile ::
  "nat \<Rightarrow> compile_context \<Rightarrow> stack \<times> parameter list \<Rightarrow> edmx_parameter \<Rightarrow> (stack \<times> parameter list) compiling" where
  "parameter_compile depth cx acc p =
     (case acc of (cstack, params) \<Rightarrow>
        let qtype_name = ooc_inner (ePa_ptype p) in
        and_then (compiling_err (InActionParameter (ePa_name p))
          (if is_simple_type qtype_name
           then Some (Inr (compiled_default, ParamType (ooc_map (Pair type_info_simple_type) (ePa_ptype p))))
           else if find_type (cx_schema_index cx) qtype_name \<noteq> None
           then and_then (ensure_type depth cx cstack qtype_name)
             (\<lambda>(compiled, typeclass). Some (Inr (compiled, ParamType (ooc_map (Pair typeclass) (ePa_ptype p)))))
           else and_then (entity_ensure depth cx cstack qtype_name)
             (\<lambda>compiled. Some (Inr (compiled, ParamEntity (ePa_ptype p))))))
        (\<lambda>(compiled, ptype).
           Some (Inr (stack_merge cstack compiled,
             params @ [\<lparr>pa_name = ePa_name p, pa_ptype = ptype,
               pa_nullable = (case ePa_nullable p of None \<Rightarrow> False | Some b \<Rightarrow> b),
               pa_required = (is_required (ePa_annotations p) \<or> ePa_nullable p = Some False),
               pa_odata = odata_new False (ePa_annotations p)\<rparr>]))))"

definition compile_action ::
  "nat \<Rightarrow> compile_context \<Rightarrow> stack \<Rightarrow> edmx_action \<Rightarrow> namespace \<Rightarrow> compiled compiling" where
  "compile_action depth cx st action defining_namespace =
     (if \<not> eac_is_bound action then Some (Inl NotBoundAction)
      else case eac_parameters action of
        [] \<Rightarrow> Some (Inl NoBindingParameterForAction)
      | binding_param # params \<Rightarrow>
          let binding = ooc_inner (ePa_ptype binding_param) in
          if complex_type_info st binding = None then Some (Inr compiled_default)
          else
            let st = new_frame st in
            and_then (compiling_err InActionReturnType
              (case eac_return_type action of
                 None \<Rightarrow> Some (Inr compiled_default)
               | Some rt \<Rightarrow> and_then (ensure_type depth cx st (ooc_inner rt)) (\<lambda>(compiled, _). Some (Inr compiled))))
            (\<lambda>compiled_rt.
               and_then (try_fold (parameter_compile depth cx) (stack_merge st compiled_rt, []) params)
               (\<lambda>(st, parameters).
                  Some (Inr (stack_done (stack_merge st (new_action
                    \<lparr>ac_defining_namespace = ns_root defining_namespace, ac_binding = binding,
                     ac_binding_name = ePa_name binding_param, ac_name = eac_name action,
                     ac_return_type = eac_return_type action, ac_parameters = parameters,
                     ac_odata = odata_new False (eac_annotations action)\<rparr>)))))))"

definition action_matches_filter :: "schema \<Rightarrow> edmx_action \<Rightarrow> type_filter \<Rightarrow> bool" where
  "action_matches_filter s action action_filter = filter_matches action_filter (QName (sc_namespace s) (eac_name action))"

definition compile_schema_actions :: "nat \<Rightarrow> compile_context \<Rightarrow> stack \<Rightarrow> schema \<Rightarrow> compiled compiling" where
  "compile_schema_actions depth cx st s =
     compiling_err (InSchema (sc_namespace s))
       (and_then
         (try_fold
           (\<lambda>st action.
              and_then (compiling_err (InAction (eac_name action)) (compile_action depth cx st action (sc_namespace s)))
                (\<lambda>compiled. Some (Inr (stack_merge st compiled))))
           st (filter (\<lambda>action. action_matches_filter s action (cc_action_filter (cx_config cx))) (sc_actions s)))
         (\<lambda>st. Some (Inr (stack_done st))))"

section \<open>Root sets\<close>

record schema_bundle =
  sb_root_docs :: "edmx list"
  sb_resolve_docs :: "edmx list"

record root_set =
  rs_entity_types :: "qname list"
  rs_complex_types :: "qname list"

definition all_docs :: "schema_bundle \<Rightarrow> edmx list" where
  "all_docs b = sb_root_docs b @ sb_resolve_docs b"

definition schema_entity_names :: "schema \<Rightarrow> qname list" where
  "schema_entity_names s = map (\<lambda>(_, t). QName (sc_namespace s) (ee_name t)) (sc_entity_types s)"

definition schema_complex_names :: "schema \<Rightarrow> qname list" where
  "schema_complex_names s =
     List.map_filter (\<lambda>(_, t). map_option (\<lambda>ct. QName (sc_namespace s) (ec_name ct)) (complex_of t)) (sc_types s)"

definition root_set_from_singletons ::
  "schema_bundle \<Rightarrow> schema_index \<Rightarrow> ident list \<Rightarrow> type_filter \<Rightarrow> root_set compiling" where
  "root_set_from_singletons b si singletons root_patterns =
     (let schemas = concat (sb_root_docs b);
          chosen = concat (map (\<lambda>s. case sc_entity_container s of None \<Rightarrow> []
            | Some sgs \<Rightarrow> filter (\<lambda>sg. sg_name sg \<in> set singletons) sgs) schemas)
      in and_then
        (try_fold (\<lambda>names sg. and_then (find_child_entity_type si (sg_stype sg))
           (\<lambda>(qname, _). Some (Inr (names @ [qname])))) [] chosen)
        (\<lambda>names. Some (Inr
           \<lparr>rs_entity_types = names @ filter (filter_matches root_patterns) (concat (map schema_entity_names schemas)),
            rs_complex_types = filter (filter_matches root_patterns) (concat (map schema_complex_names schemas))\<rparr>)))"

definition root_set_all :: "schema_bundle \<Rightarrow> type_filter \<Rightarrow> root_set" where
  "root_set_all b action_filter =
     (let schemas = concat (sb_root_docs b);
          bindings = concat (map (\<lambda>s. List.map_filter
            (\<lambda>action. if eac_is_bound action \<and> action_matches_filter s action action_filter
                      then (case eac_parameters action of [] \<Rightarrow> None | binding # _ \<Rightarrow> Some (ooc_inner (ePa_ptype binding)))
                      else None)
            (sc_actions s)) schemas)
      in \<lparr>rs_entity_types = sort (concat (map schema_entity_names schemas)),
          rs_complex_types = remdups_adj (sort (concat (map schema_complex_names schemas) @ bindings))\<rparr>)"

section \<open>Compilation of a bundle\<close>

definition compile_root_set ::
  "nat \<Rightarrow> compile_context \<Rightarrow> schema_bundle \<Rightarrow> root_set \<Rightarrow> compiled compiling" where
  "compile_root_set depth cx b rs =
     and_then (try_fold (\<lambda>st qname. and_then (entity_ensure depth cx st qname)
         (\<lambda>compiled. Some (Inr (stack_merge st compiled)))) stack_default (rs_entity_types rs))
     (\<lambda>st. and_then (try_fold (\<lambda>st t. and_then (ensure_type depth cx st t)
         (\<lambda>(compiled, _). Some (Inr (stack_merge st compiled)))) st (rs_complex_types rs))
     (\<lambda>st. and_then (compile_for_resources depth cx st)
     (\<lambda>compiled. let st = stack_merge st compiled in
      and_then (Some (redfish_resource_type (cx_schema_index cx)))
     (\<lambda>resource_name. and_then (entity_ensure depth cx st resource_name)
     (\<lambda>compiled. let st = stack_merge st compiled in
      and_then (Some (redfish_resource_collection_type (cx_schema_index cx)))
     (\<lambda>collection_name. and_then (entity_ensure depth cx st collection_name)
     (\<lambda>compiled. let st = stack_merge st compiled in
      and_then (try_fold (\<lambda>st edmx.
          and_then (try_fold (\<lambda>st s. and_then (compile_schema_actions depth cx (new_frame st) s)
              (\<lambda>v. Some (Inr (stack_merge st v)))) (new_frame st) edmx)
            (\<lambda>cstack. Some (Inr (stack_merge st (stack_done cstack))))) st (sb_root_docs b))
     (\<lambda>st. let compiled = mark_odata_type collection_name (mark_odata_type resource_name (stack_done st)) in
        if co_actions compiled = [] then Some (Inr compiled)
        else let st = stack_merge stack_default compiled in
          and_then (compile_for_actions depth cx st)
            (\<lambda>annotations. Some (Inr (stack_done (stack_merge st annotations))))))))))))"

text \<open>How deep types can be nested: an entity type once in a chain, and a complex type once between two entity types.\<close>

definition index_entity_names :: "schema_index \<Rightarrow> qname list" where
  "index_entity_names si = concat (map (\<lambda>(ns, s). map (QName ns \<circ> fst) (sc_entity_types s)) (si_index si))"

definition index_complex_names :: "schema_index \<Rightarrow> qname list" where
  "index_complex_names si =
     concat (map (\<lambda>(ns, s). map (QName ns \<circ> fst) (filter (\<lambda>(_, t). complex_of t \<noteq> None) (sc_types s))) (si_index si))"

definition nesting_bound :: "schema_index \<Rightarrow> nat" where
  "nesting_bound si = (length (index_entity_names si) + 1) * (length (index_complex_names si) + 1)"

definition bundle_context :: "schema_index \<Rightarrow> compile_config \<Rightarrow> root_set \<Rightarrow> compile_context" where
  "bundle_context si config rs =
     \<lparr>cx_schema_index = si, cx_config = config, cx_root_set_entities = set (rs_entity_types rs)\<rparr>"

definition bundle_compile ::
  "schema_bundle \<Rightarrow> ident list \<Rightarrow> type_filter \<Rightarrow> compile_config \<Rightarrow> compiled compiling" where
  "bundle_compile b singletons root_patterns config =
     and_then (Some (index_build (all_docs b)))
     (\<lambda>si. and_then (root_set_from_singletons b si singletons root_patterns)
     (\<lambda>rs. compile_root_set (nesting_bound si) (bundle_context si config rs) b rs))"

definition bundle_compile_all :: "schema_bundle \<Rightarrow> compile_config \<Rightarrow> compiled compiling" where
  "bundle_compile_all b config =
     (let rs = root_set_all b (cc_action_filter config) in
      and_then (Some (index_build (all_docs b)))
      (\<lambda>si. compile_root_set (nesting_bound si) (bundle_context si config rs) b rs))"

definition named_root :: "schema_index \<Rightarrow> qname \<Rightarrow> (qname \<times> bool) compiling" where
  "named_root si name =
     (case do {
        schema \<leftarrow> index_get si (qn_namespace name);
        (case map_of (sc_entity_types schema) (qn_name name) of
           Some entity \<Rightarrow> Some (QName (sc_namespace schema) (ee_name entity), True)
         | None \<Rightarrow>
             (case map_of (sc_types schema) (qn_name name) of
                Some (TComplex complex) \<Rightarrow> Some (QName (sc_namespace schema) (ec_name complex), False)
              | _ \<Rightarrow> None))
      } of
        None \<Rightarrow> Some (Inl (RootTypeNotFound name))
      | Some (qname, is_entity) \<Rightarrow> map_option (\<lambda>q. Inr (q, is_entity)) (find_child_type si qname))"

definition compile_named_types ::
  "schema_bundle \<Rightarrow> qname list \<Rightarrow> compile_config \<Rightarrow> (compiled \<times> qname list) compiling" where
  "compile_named_types b names config =
     and_then (Some (index_build (all_docs b)))
     (\<lambda>si. and_then (try_fold (\<lambda>roots name. and_then (named_root si name) (\<lambda>r. Some (Inr (roots @ [r])))) [] names)
     (\<lambda>roots.
        let roots = remdups_adj (sort roots);
            rs = \<lparr>rs_entity_types = map fst (filter snd roots), rs_complex_types = map fst (filter (Not \<circ> snd) roots)\<rparr>
        in and_then (compile_root_set (nesting_bound si) (bundle_context si config rs) b rs)
          (\<lambda>compiled. Some (Inr (compiled, map fst roots)))))"

end
