(* ===== verification/Spec2Isabelle.thy ===== *)
theory Spec2Isabelle
  imports Runtime Http_Bmc Quirk_Compat Csdl_Optimize Csdl_Compile
begin

text \<open>
  A verification development for nv-redfish, a Rust workspace for talking to baseboard management
  controllers (BMCs) over Redfish. It models the program's own logic, as executable functions over records
  and datatypes that follow the sources, and proves what its parts promise each other and their callers.

  \<^bold>\<open>The program.\<close> The dispatcher (\<open>src/dispatcher\<close>) decides which request is sent next: a tree of scheduler
  nodes, each over one or many children, that the runtime polls for work and informs of completions. The
  HTTP binding (\<open>src/bmc-http\<close>) sends requests to one BMC, keeps credentials on its origin, caches
  tagged representations and decodes answers. The quirks crate (\<open>src/quirks\<close>) knows how real BMCs deviate from the schema:
  it classifies an endpoint from its service root, repairs the documents and events it sends and reads the
  replies it gives to writes, as a layer over the binding. The core crate (\<open>src/core\<close>) has the types they share.
  The CSDL compiler (\<open>src/csdl-compiler\<close>) turns Redfish schemas into the Rust types of the other crates: schemas are
  compiled to an aggregate of types, an optimizer rewrites it, and a generator prints it.

  \<^bold>\<open>Conventions.\<close> A method that changes \<open>self\<close> returns the changed record. A Rust panic, a debug assertion
  included, is \<open>None\<close> of an \<open>outcome\<close>, so every theorem that gives \<open>Some\<close> also says that there is no
  panic; an \<open>Option\<close> that a panicking function returns is nested in it. \<open>Result\<close> is a sum with the error on
  the left. Counters that wrap or saturate are words or have their bound written out; \<open>usize\<close> lengths are
  naturals. Strings are their UTF-8 bytes. A trait is a record of its methods (\<open>scheduler_ops\<close>, \<open>discipline_ops\<close>), and what
  an implementation promises is a locale (\<open>scheduler\<close>, \<open>queue_discipline\<close>), interpreted for every node of the
  sources. Code of other crates is a parameter: the fields of \<open>runtime_env\<close>, \<open>http_env\<close>, \<open>url_ops\<close>, \<open>client_ops\<close>, \<open>text_ops\<close> and \<open>error_ops\<close>, with
  what is assumed of it as a hypothesis of the theorem or of a locale (\<open>futures_set\<close>).

  \<^bold>\<open>The dispatcher.\<close>
  \<^item> \<open>Prelude\<close>: integers, instants, vectors and maps of the Rust library, and the lemmas all share.
  \<^item> \<open>Work\<close> (\<open>work.rs\<close>, \<open>event.rs\<close>, \<open>scheduler.rs\<close>, the signals of \<open>runtime.rs\<close>): costs, routing paths, completions,
    readiness, the trait \<open>Scheduler\<close> with its contract as the locale \<open>scheduler\<close>: an answer \<open>Ready\<close> is followed by
    an item, outstanding items are those taken and not completed, and a completion is routed to the node
    that dispatched it.
  \<^item> \<open>Periodic_Leaf\<close>, \<open>Bounded_Concurrency\<close>, \<open>Fixed_Cost\<close>, \<open>Circuit_Breaker\<close>, \<open>Token_Bucket\<close>, \<open>Round_Robin\<close>,
    \<open>Strict_Priority\<close> (\<open>schedulers/*.rs\<close>): the state of each node, its operations, the proof that it is a
    \<open>scheduler\<close> when its children are, and what it adds: the cap, the breaker as a refinement of the
    closed, open and half-open machine with its \<open>f32\<close> failure ratio, the rate bound, rotation without starvation and
    the recycling of child identities, the priority order.
  \<^item> \<open>Queue_Discipline\<close>, \<open>Queue_Fifo\<close>, \<open>Queue_Sfq\<close>, \<open>Bounded_Queue\<close>: the shared queue with its admission
    policies, disciplines and producers. Executions interleave pushes, closes, takes and completions; nothing accepted is
    lost, the capacity holds, the drained event comes once; with \<open>Fifo\<close> the queue refines a list.
  \<^item> \<open>Runtime\<close> (\<open>runtime.rs\<close>): one call of \<open>Runtime::next\<close> is \<open>next_poll\<close>, its loop is recursive and a turn that
    makes progress is repeated. The in-flight set and the steps of other threads during a poll are parameters.
    Every tree that is a \<open>scheduler\<close> is driven within its contract, the counters add up, shutdown is
    sticky, no wake-up is lost, outputs keep their order.

  \<^bold>\<open>The HTTP binding.\<close>
  \<^item> \<open>Slot_Chain\<close>, \<open>Ghost_List\<close>, \<open>Clock_List\<close>, \<open>Car_Spec\<close>, \<open>Car_Cache\<close> (\<open>bmc-http/src/cache.rs\<close>): the cache over
    vectors of slots with links and free lists. The linked slots implement lists (locales \<open>slot_queue\<close> and \<open>slot_ring\<close>),
    and over them the cache refines the algorithm CAR on lists, whose invariants and termination are proved
    once. \<open>keyed_cache\<close> is what clients rely on.
  \<^item> \<open>Text\<close>, \<open>OData\<close> (\<open>core/src/odata.rs\<close>): strings, JSON values, resource paths and type names.
  \<^item> \<open>Success_Message\<close>, \<open>Response\<close> (\<open>bmc-http/src/response.rs\<close>): what a message body reports, against the documented
    rules, and the decoding of answers on every status: references stay on the origin, failures are reported as such.
  \<^item> \<open>Bmc_Trait\<close> (\<open>core/src/repair.rs\<close>, \<open>raw.rs\<close>, \<open>bmc.rs\<close>): the errors, raw documents and streams the binding
    and the layers over it share.
  \<^item> \<open>Http_Bmc\<close> (\<open>bmc-http/src/lib.rs\<close>, \<open>credentials.rs\<close>): the client, with reads
    split at their request so that they interleave. Requests stay on the endpoint's origin, and a \<open>304\<close> is always answered by
    what the service sent for the same URL, type and tag.

  \<^bold>\<open>The quirks.\<close>
  \<^item> \<open>Json_Edit\<close>: edits of JSON objects by key and through pointers, and the searches and slices of strings
    the rewrites use. A \<open>serde_json\<close> map is an association list whose order nothing reads.
  \<^item> \<open>Quirk_Platform\<close> (\<open>platform.rs\<close>): evidence, the table of platform rules, classification and the predicates.
    Classification is the union of the rules that match, and no quirk is dead.
  \<^item> \<open>Quirk_Fixes\<close> (\<open>fixes.rs\<close>), \<open>Quirk_Rules\<close> (\<open>rules.rs\<close>): the rewrites, the repair table and the walk that
    applies them at every depth. The walk goes into what a rewrite made, so it is a \<open>partial_function\<close>; the locale
    \<open>walkable\<close> says when it returns.
  \<^item> \<open>Quirk_Growth\<close>, \<open>Quirk_Contract\<close>, \<open>Quirk_Repair\<close>: the platform's repairs return, keep keys distinct and
    keep what identifies a document; each rewrite meets the contract \<open>table_fix\<close>, no rewrite of a type disturbs
    another, and so a repaired document is a fixed point that conforms as far as the quirks go. The rule
    for certificate collection stubs is excluded from that last result: it takes out a whole object, an added action with it.
  \<^item> \<open>Quirk_User\<close> (\<open>user.rs\<close>): patterns, the caller's rules and \<open>RulesBmc\<close>. The caller's rewrites are any functions, and
    the theory shows both when they return and a rule that does not.
  \<^item> \<open>Quirk_Events\<close> (\<open>events.rs\<close>), \<open>Quirk_Replies\<close> (\<open>replies.rs\<close>), \<open>Quirk_Compat\<close> (\<open>compat.rs\<close>): event repairs that identify
    and never overwrite, replies read as successes, and the layer \<open>CompatBmc\<close> with the calls it makes to the
    transport as arguments of its operations: which ETag an update carries, which failures become successes, the order of
    repairs, and the layer over the decoder of \<open>Response\<close>.

  \<^bold>\<open>The CSDL compiler.\<close>
  \<^item> \<open>Hash_Map\<close>: the hash maps of the compiler, as association lists in their order of iteration, which no statement fixes.
  \<^item> \<open>Csdl_Names\<close>, \<open>Csdl_Edmx\<close>, \<open>Csdl_Compiled\<close> (\<open>compiler/*.rs\<close>, \<open>edmx/*.rs\<close>, \<open>odata\<close>, \<open>redfish\<close>): qualified names and filters,
    schemas with what is read from their annotations, compiled types and the aggregate \<open>Compiled\<close>.
  \<^item> \<open>Csdl_Closed\<close>: when an aggregate has no dangling reference, no name of two kinds and no cycle of bases; the marking
    of types that need an update struct.
  \<^item> \<open>Csdl_Index\<close> (\<open>schema_index.rs\<close>): the index over documents; the search for cycles of bases finds one exactly when there is one.
  \<^item> \<open>Csdl_Compile\<close> (\<open>compiler/mod.rs\<close>, \<open>stack.rs\<close> and the \<open>compile\<close> functions of the types): from root types, everything they
    refer to, with a stack of what is compiled or in progress.
  \<^item> \<open>Csdl_Optimizer\<close> (\<open>optimizer/*.rs\<close>): the five passes. \<open>Csdl_Hierarchy\<close>, \<open>Csdl_Fold\<close> and \<open>Csdl_Rename\<close> show for one table of
    types what removing, folding and renaming keep, the members a type has and inherits being the relation \<open>inherits\<close>;
    the locale \<open>folding\<close> is interpreted for complex and for entity types.
  \<^item> \<open>Csdl_Passes\<close>, \<open>Csdl_Lossless\<close>, \<open>Csdl_Optimize\<close>: from tables to aggregates. Each pass meets the contract \<open>optimizer_pass\<close>,
    which composes: the optimizer returns, leaves nothing dangling and loses no member.

  \<^bold>\<open>Termination and bounds.\<close> The functions of \<open>Csdl_Compile\<close> that call each other take how deep types may be nested, and start with
  \<open>nesting_bound\<close>: an entity type is in progress once, and a complex type once between two entity types. No other fuel is used. Loops are recursive functions with a termination proof, or
  \<open>partial_function\<close>s where the end depends on a hypothesis (\<open>drain_completed\<close> ends because the in-flight set shrinks,
  \<open>next_loop\<close> because progress consumes it, \<open>car_replace\<close> because each pass clears a reference bit,
  \<open>walk\<close> because the platform's rewrites deepen a typed object by a bounded number of levels, the passes of the optimizer
  because inheritance has no cycle), and the
  theorems state that they return. The cache theorems assume that twice the capacity fits a \<open>u64\<close>,
  as the product in the code requires.

  \<^bold>\<open>Not modelled.\<close> The transport over reqwest and the semaphore of \<open>concurrency.rs\<close>, which forward to other crates;
  the XML reader and the generator of the CSDL compiler with the generated code;
  the typed wrappers of \<open>src/redfish\<close>; mocks, examples and tests.
  The EDM value types and the query builders of the core crate are not modelled yet. Rendering of
  errors and \<open>Debug\<close> output is left out.
\<close>

end
